(* ===== verification/Kernel_Prelude.thy ===== *)
theory Kernel_Prelude
  imports Main "HOL-Library.Word"
begin

text \<open>
  What every component shares: the machine-integer types, the checked and
  saturating arithmetic of Rust's \<open>usize\<close> (64 bits on every target of this
  kernel), the kernel's \<open>Error\<close> enumeration and \<open>Result\<close> type
  (\<open>src/lib.rs\<close>), and a few list lemmas.  A \<open>usize\<close> is a \<open>nat\<close>; where the
  code guards against overflow (\<open>checked_add\<close>, \<open>saturating_sub\<close>) the guard is
  written out against \<open>2 ^ 64\<close>, and the invariants of the components bound the
  values that the code adds without a guard.
\<close>

section \<open>Collections of facts\<close>

named_theorems kernel_simps \<open>facts that unfold the kernel's arithmetic helpers\<close>

section \<open>Machine integers\<close>

type_synonym u8 = "8 word"
type_synonym u16 = "16 word"
type_synonym u32 = "32 word"
type_synonym u64 = "64 word"

abbreviation USIZE_LIMIT :: nat where
  "USIZE_LIMIT \<equiv> 18446744073709551616"

abbreviation U16_MAX :: nat where
  "U16_MAX \<equiv> 65535"

abbreviation U32_LIMIT :: nat where
  "U32_LIMIT \<equiv> 4294967296"

definition checked_add :: "nat \<Rightarrow> nat \<Rightarrow> nat option" where
  "checked_add a b = (if a + b < USIZE_LIMIT then Some (a + b) else None)"

definition checked_mul :: "nat \<Rightarrow> nat \<Rightarrow> nat option" where
  "checked_mul a b = (if a * b < USIZE_LIMIT then Some (a * b) else None)"

definition saturating_add :: "nat \<Rightarrow> nat \<Rightarrow> nat" where
  "saturating_add a b = min (a + b) (USIZE_LIMIT - 1)"

definition saturating_mul :: "nat \<Rightarrow> nat \<Rightarrow> nat" where
  "saturating_mul a b = min (a * b) (USIZE_LIMIT - 1)"

text \<open>\<open>nat\<close> subtraction stops at zero, which is what \<open>saturating_sub\<close> does.\<close>

definition saturating_sub :: "nat \<Rightarrow> nat \<Rightarrow> nat" where
  "saturating_sub a b = a - b"

definition wrapping_add :: "nat \<Rightarrow> nat \<Rightarrow> nat" where
  "wrapping_add a b = (a + b) mod USIZE_LIMIT"

definition div_ceil :: "nat \<Rightarrow> nat \<Rightarrow> nat" where
  "div_ceil a b = (a + b - 1) div b"

declare saturating_sub_def [kernel_simps] saturating_add_def [kernel_simps]
  saturating_mul_def [kernel_simps] wrapping_add_def [kernel_simps]

lemma checked_add_Some_iff [simp]:
  "checked_add a b = Some c \<longleftrightarrow> c = a + b \<and> a + b < USIZE_LIMIT"
  by (auto simp: checked_add_def)

lemma checked_add_None_iff [simp]: "checked_add a b = None \<longleftrightarrow> USIZE_LIMIT \<le> a + b"
  by (auto simp: checked_add_def)

lemma checked_mul_Some_iff [simp]:
  "checked_mul a b = Some c \<longleftrightarrow> c = a * b \<and> a * b < USIZE_LIMIT"
  by (auto simp: checked_mul_def)

lemma checked_mul_None_iff [simp]: "checked_mul a b = None \<longleftrightarrow> USIZE_LIMIT \<le> a * b"
  by (auto simp: checked_mul_def)

lemma div_ceil_mult_le: "0 < b \<Longrightarrow> a \<le> div_ceil a b * b"
proof -
  assume "0 < b"
  have "(a + b - 1) = (a + b - 1) div b * b + (a + b - 1) mod b"
    by simp
  moreover have "(a + b - 1) mod b \<le> b - 1"
    using mod_less_divisor [OF \<open>0 < b\<close>, of "a + b - 1"] by linarith
  ultimately show ?thesis
    using \<open>0 < b\<close> unfolding div_ceil_def by linarith
qed

section \<open>Errors and results\<close>

datatype error =
    InvalidArgument
  | NotFound
  | AlreadyExists
  | PermissionDenied
  | OutOfMemory
  | DeviceError
  | Busy
  | TimedOut
  | Unsupported
  | NotImplemented
  | InternalError
  | InvalidCredential
  | ConnectionReset
  | NoSpace

text \<open>\<open>Result<T>\<close>: \<open>Inl\<close> carries \<open>Err(e)\<close> and \<open>Inr\<close> carries \<open>Ok(v)\<close>.\<close>

type_synonym 'a result = "error + 'a"

definition bind_result :: "'a result \<Rightarrow> ('a \<Rightarrow> 'b result) \<Rightarrow> 'b result" where
  "bind_result r f = (case r of Inl e \<Rightarrow> Inl e | Inr v \<Rightarrow> f v)"

definition is_err :: "'a result \<Rightarrow> bool" where
  "is_err r = (case r of Inl _ \<Rightarrow> True | Inr _ \<Rightarrow> False)"

lemma bind_result_simps [simp]:
  "bind_result (Inl e) f = Inl e"
  "bind_result (Inr v) f = f v"
  by (simp_all add: bind_result_def)

lemma bind_result_Inr_iff:
  "bind_result r f = Inr w \<longleftrightarrow> (\<exists>v. r = Inr v \<and> f v = Inr w)"
  by (cases r) auto

lemma is_err_simps [simp]: "is_err (Inl e)" "\<not> is_err (Inr v)"
  by (simp_all add: is_err_def)

definition from_syscall_code :: "nat \<Rightarrow> error option" where
  "from_syscall_code code =
     (let codes = [InvalidArgument, NotFound, AlreadyExists, PermissionDenied, OutOfMemory,
        DeviceError, Busy, TimedOut, Unsupported, NotImplemented, InternalError,
        InvalidCredential, ConnectionReset, NoSpace]
      in if code < length codes then Some (codes ! code) else None)"

section \<open>Lists\<close>

lemma set_upt_conv_atLeastLessThan: "set [a..<b] = {a..<b}"
  by simp

lemma nth_take_drop_eq:
  assumes "i + k < length xs"
  shows "take k (drop i xs) @ [xs ! (i + k)] = take (Suc k) (drop i xs)"
  using assms by (simp add: take_Suc_conv_app_nth)

end
