(* ===== verification/Btree_Map.thy ===== *)
theory Btree_Map
  imports Kernel_Prelude
begin

text \<open>
  The part of \<open>alloc::collections::BTreeMap\<close> the kernel uses, as an association
  list in strictly ascending key order.  The list is the map's iteration order, so
  \<open>iter\<close>, \<open>keys().next()\<close>, \<open>last_key_value\<close>, \<open>range(..k).next_back()\<close> and
  \<open>range(k..).next()\<close> are list operations.  The locale \<open>ordered_map\<close> is the
  contract the clients rely on; it is interpreted on these definitions below.
\<close>

type_synonym ('k, 'v) btree = "('k \<times> 'v) list"

definition bt_sorted :: "('k::linorder, 'v) btree \<Rightarrow> bool" where
  "bt_sorted m = sorted_wrt (<) (map fst m)"

definition bt_get :: "('k, 'v) btree \<Rightarrow> 'k \<Rightarrow> 'v option" where
  "bt_get m k = map_of m k"

fun bt_insert :: "'k::linorder \<Rightarrow> 'v \<Rightarrow> ('k, 'v) btree \<Rightarrow> ('k, 'v) btree" where
  "bt_insert k v [] = [(k, v)]"
| "bt_insert k v ((a, b) # m) =
     (if k < a then (k, v) # (a, b) # m
      else if k = a then (k, v) # m
      else (a, b) # bt_insert k v m)"

definition bt_remove :: "'k \<Rightarrow> ('k, 'v) btree \<Rightarrow> ('k, 'v) btree" where
  "bt_remove k m = filter (\<lambda>e. fst e \<noteq> k) m"

text \<open>\<open>retain\<close> keeps the entries its closure answers \<open>true\<close> for.\<close>

definition bt_retain :: "('k \<Rightarrow> 'v \<Rightarrow> bool) \<Rightarrow> ('k, 'v) btree \<Rightarrow> ('k, 'v) btree" where
  "bt_retain p m = filter (\<lambda>e. p (fst e) (snd e)) m"

definition bt_first :: "('k, 'v) btree \<Rightarrow> ('k \<times> 'v) option" where
  "bt_first m = (case m of [] \<Rightarrow> None | e # _ \<Rightarrow> Some e)"

definition bt_last :: "('k, 'v) btree \<Rightarrow> ('k \<times> 'v) option" where
  "bt_last m = (if m = [] then None else Some (last m))"

text \<open>\<open>range(..k).next_back()\<close> and \<open>range(k..).next()\<close>.\<close>

definition bt_prev :: "('k::linorder, 'v) btree \<Rightarrow> 'k \<Rightarrow> ('k \<times> 'v) option" where
  "bt_prev m k = bt_last (filter (\<lambda>e. fst e < k) m)"

definition bt_next :: "('k::linorder, 'v) btree \<Rightarrow> 'k \<Rightarrow> ('k \<times> 'v) option" where
  "bt_next m k = bt_first (filter (\<lambda>e. k \<le> fst e) m)"

section \<open>Order and contents\<close>

lemma bt_sorted_Nil [simp]: "bt_sorted []"
  by (simp add: bt_sorted_def)

lemma bt_sorted_Cons [simp]:
  "bt_sorted ((k, v) # m) \<longleftrightarrow> (\<forall>e \<in> set m. k < fst e) \<and> bt_sorted m"
  by (auto simp: bt_sorted_def)

lemma bt_sorted_append:
  "bt_sorted (m @ m') \<longleftrightarrow>
     bt_sorted m \<and> bt_sorted m' \<and> (\<forall>e \<in> set m. \<forall>e' \<in> set m'. fst e < fst e')"
  by (auto simp: bt_sorted_def sorted_wrt_append)

lemma bt_sorted_filter: "bt_sorted m \<Longrightarrow> bt_sorted (filter p m)"
  by (induction m) auto

lemma bt_sorted_distinct: "bt_sorted m \<Longrightarrow> distinct (map fst m)"
  by (simp add: bt_sorted_def strict_sorted_iff)

lemma set_bt_insert:
  "bt_sorted m \<Longrightarrow> set (bt_insert k v m) = insert (k, v) {e \<in> set m. fst e \<noteq> k}"
  by (induction k v m rule: bt_insert.induct) (auto split: if_splits)

lemma bt_sorted_insert: "bt_sorted m \<Longrightarrow> bt_sorted (bt_insert k v m)"
  by (induction k v m rule: bt_insert.induct) (auto simp: set_bt_insert)

lemma set_bt_remove [simp]: "set (bt_remove k m) = {e \<in> set m. fst e \<noteq> k}"
  by (auto simp: bt_remove_def)

lemma bt_sorted_remove: "bt_sorted m \<Longrightarrow> bt_sorted (bt_remove k m)"
  by (simp add: bt_remove_def bt_sorted_filter)

lemma set_bt_retain [simp]: "set (bt_retain p m) = {e \<in> set m. p (fst e) (snd e)}"
  by (auto simp: bt_retain_def)

lemma bt_sorted_retain: "bt_sorted m \<Longrightarrow> bt_sorted (bt_retain p m)"
  by (simp add: bt_retain_def bt_sorted_filter)

lemma bt_sorted_keys_inj:
  "bt_sorted m \<Longrightarrow> (k, v) \<in> set m \<Longrightarrow> (k, w) \<in> set m \<Longrightarrow> v = w"
  by (metis bt_sorted_distinct map_of_eq_Some_iff option.inject)

lemma bt_get_Some_iff: "bt_sorted m \<Longrightarrow> bt_get m k = Some v \<longleftrightarrow> (k, v) \<in> set m"
  by (simp add: bt_get_def bt_sorted_distinct)

lemma bt_get_None_iff: "bt_get m k = None \<longleftrightarrow> k \<notin> fst ` set m"
  by (simp add: bt_get_def map_of_eq_None_iff)

lemma bt_get_insert: "bt_sorted m \<Longrightarrow> bt_get (bt_insert k v m) = (bt_get m)(k \<mapsto> v)"
  by (induction k v m rule: bt_insert.induct) (auto simp: bt_get_def fun_eq_iff)

lemma bt_get_remove: "bt_get (bt_remove k m) = (bt_get m)(k := None)"
  by (induction m) (auto simp: bt_get_def bt_remove_def fun_eq_iff)

lemma length_bt_remove_less: "k \<in> fst ` set m \<Longrightarrow> length (bt_remove k m) < length m"
  unfolding bt_remove_def by (auto intro: length_filter_less)

lemma length_bt_remove_entry: "(k, v) \<in> set m \<Longrightarrow> length (bt_remove k m) < length m"
  by (rule length_bt_remove_less) (force simp: image_iff)

lemma length_bt_remove_le: "length (bt_remove k m) \<le> length m"
  by (simp add: bt_remove_def)

lemma length_bt_insert_le: "length (bt_insert k v m) \<le> Suc (length m)"
  by (induction k v m rule: bt_insert.induct) auto

lemma length_bt_retain_le: "length (bt_retain p m) \<le> length m"
  by (simp add: bt_retain_def)

section \<open>Ordered lookups\<close>

lemma bt_first_in: "bt_first m = Some e \<Longrightarrow> e \<in> set m"
  by (cases m) (auto simp: bt_first_def)

lemma bt_last_in: "bt_last m = Some e \<Longrightarrow> e \<in> set m"
  by (auto simp: bt_last_def split: if_splits)

lemma bt_last_None [simp]: "bt_last m = None \<longleftrightarrow> m = []"
  by (simp add: bt_last_def)

lemma bt_first_None [simp]: "bt_first m = None \<longleftrightarrow> m = []"
  by (cases m) (auto simp: bt_first_def)

lemma bt_first_least:
  "bt_sorted m \<Longrightarrow> bt_first m = Some (k, v) \<Longrightarrow> (a, b) \<in> set m \<Longrightarrow> k \<le> a"
  by (cases m) (auto simp: bt_first_def order.strict_implies_order)

lemma bt_last_greatest:
  assumes "bt_sorted m" "bt_last m = Some (k, v)" "(a, b) \<in> set m"
  shows "a \<le> k"
proof -
  have "m = butlast m @ [(k, v)]"
    using assms(2) by (metis append_butlast_last_id bt_last_def option.distinct(1) option.inject)
  then have "bt_sorted (butlast m @ [(k, v)])" and "(a, b) \<in> set (butlast m @ [(k, v)])"
    using assms(1,3) by simp_all
  then show ?thesis
    by (auto simp: bt_sorted_append order.strict_implies_order)
qed

lemma bt_prev_in: "bt_prev m x = Some (k, v) \<Longrightarrow> (k, v) \<in> set m \<and> k < x"
  by (auto simp: bt_prev_def dest: bt_last_in)

lemma bt_prev_greatest:
  assumes "bt_sorted m" "bt_prev m x = Some (k, v)" "(a, b) \<in> set m" "a < x"
  shows "a \<le> k"
  using bt_last_greatest [OF bt_sorted_filter [OF assms(1)], of "\<lambda>e. fst e < x" k v a b] assms
  by (simp add: bt_prev_def)

lemma bt_prev_None: "bt_prev m x = None \<longleftrightarrow> (\<forall>e \<in> set m. x \<le> fst e)"
  by (auto simp: bt_prev_def filter_empty_conv not_less)

lemma bt_next_in: "bt_next m x = Some (k, v) \<Longrightarrow> (k, v) \<in> set m \<and> x \<le> k"
  by (auto simp: bt_next_def dest: bt_first_in)

lemma bt_next_least:
  assumes "bt_sorted m" "bt_next m x = Some (k, v)" "(a, b) \<in> set m" "x \<le> a"
  shows "k \<le> a"
  using bt_first_least [OF bt_sorted_filter [OF assms(1)], of "\<lambda>e. x \<le> fst e" k v a b] assms
  by (simp add: bt_next_def)

lemma bt_next_None: "bt_next m x = None \<longleftrightarrow> (\<forall>e \<in> set m. fst e < x)"
  by (auto simp: bt_next_def filter_empty_conv not_le)

section \<open>The contract of an ordered map\<close>

locale ordered_map =
  fixes empty :: "'m"
    and get :: "'m \<Rightarrow> 'k::linorder \<Rightarrow> 'v option"
    and ins :: "'k \<Rightarrow> 'v \<Rightarrow> 'm \<Rightarrow> 'm"
    and del :: "'k \<Rightarrow> 'm \<Rightarrow> 'm"
    and entries :: "'m \<Rightarrow> ('k \<times> 'v) list"
    and invar :: "'m \<Rightarrow> bool"
  assumes get_empty: "get empty = Map.empty"
    and get_ins: "invar m \<Longrightarrow> get (ins k v m) = (get m)(k \<mapsto> v)"
    and get_del: "invar m \<Longrightarrow> get (del k m) = (get m)(k := None)"
    and get_entries: "invar m \<Longrightarrow> get m k = Some v \<longleftrightarrow> (k, v) \<in> set (entries m)"
    and entries_ascending: "invar m \<Longrightarrow> sorted_wrt (<) (map fst (entries m))"
    and invar_empty: "invar empty"
    and invar_ins: "invar m \<Longrightarrow> invar (ins k v m)"
    and invar_del: "invar m \<Longrightarrow> invar (del k m)"
begin

text \<open>Consequences a client uses: a key that is put back is found again, and removing
  what was inserted under a fresh key gives the old contents.\<close>

lemma get_ins_same: "invar m \<Longrightarrow> get (ins k v m) k = Some v"
  by (simp add: get_ins)

lemma get_ins_other: "invar m \<Longrightarrow> k \<noteq> j \<Longrightarrow> get (ins k v m) j = get m j"
  by (simp add: get_ins)

lemma get_del_ins: "invar m \<Longrightarrow> get m k = None \<Longrightarrow> get (del k (ins k v m)) = get m"
  by (auto simp: get_ins get_del invar_ins)

lemma entries_ins:
  "invar m \<Longrightarrow> set (entries (ins k v m)) = insert (k, v) {e \<in> set (entries m). fst e \<noteq> k}"
proof -
  assume i: "invar m"
  have "(a, b) \<in> set (entries (ins k v m)) \<longleftrightarrow>
      (a, b) \<in> insert (k, v) {e \<in> set (entries m). fst e \<noteq> k}" for a b
    using get_entries [OF invar_ins [OF i], of k v a b] get_entries [OF i, of a b]
    by (auto simp: get_ins [OF i] split: if_splits)
  then show ?thesis by auto
qed

end

interpretation btree: ordered_map "[]" bt_get bt_insert bt_remove "\<lambda>m. m" bt_sorted
proof unfold_locales
  show "bt_get [] = Map.empty"
    by (simp add: bt_get_def fun_eq_iff)
qed (auto simp: bt_get_insert bt_get_remove bt_get_Some_iff bt_sorted_insert bt_sorted_remove,
     simp add: bt_sorted_def)

end
