(* ===== verification/Frame_Allocator.thy ===== *)
theory Frame_Allocator
  imports Btree_Map
begin

text \<open>
  The physical frame allocator, \<open>src/memory/frame.rs\<close>.  The allocator record has the
  fields of \<open>FrameAllocator\<close>; \<open>free_ranges\<close> is its \<open>BTreeMap<start_frame, count>\<close>.
  Physical memory is a record of its own: the byte at every physical address and the
  log of the \<open>restore_page\<close> calls \<open>ensure_identity_mapped_range\<close>
  (\<open>src/memory/arch.rs\<close>) makes before a frame is zeroed.  The pool's bounds are the
  linker's symbols, so they are arguments of \<open>init_frames\<close> and \<open>set_node_range\<close>.
  The profiler's counters are those of a build with the \<open>alloc_profiler\<close> feature.
\<close>

section \<open>State\<close>

definition FRAME_SIZE :: nat where
  "FRAME_SIZE = 4096"

record frame_profile =
  frame_allocs :: nat
  frame_frees :: nat
  frame_recycled :: nat
  frame_bump_allocs :: nat
  frame_zero_bytes :: nat

record frame_allocator =
  base :: nat
  total_frames :: nat
  next_frame :: nat
  free_ranges :: "(nat, nat) btree"
  profiler :: frame_profile

record phys_memory =
  cells :: "nat \<Rightarrow> u8"
  restored_pages :: "nat list"

definition new_profile :: frame_profile where
  "new_profile = \<lparr>frame_allocs = 0, frame_frees = 0, frame_recycled = 0,
     frame_bump_allocs = 0, frame_zero_bytes = 0\<rparr>"

definition new_frame_allocator :: frame_allocator where
  "new_frame_allocator =
     \<lparr>base = 0, total_frames = 0, next_frame = 0, free_ranges = [], profiler = new_profile\<rparr>"

text \<open>The counters are \<open>AtomicU64\<close>: \<open>fetch_add\<close> wraps.\<close>

definition inc_frame_allocs :: "frame_profile \<Rightarrow> frame_profile" where
  "inc_frame_allocs p = p\<lparr>frame_allocs := wrapping_add (frame_allocs p) 1\<rparr>"

definition inc_frame_frees :: "frame_profile \<Rightarrow> frame_profile" where
  "inc_frame_frees p = p\<lparr>frame_frees := wrapping_add (frame_frees p) 1\<rparr>"

definition inc_frame_recycled :: "frame_profile \<Rightarrow> frame_profile" where
  "inc_frame_recycled p = p\<lparr>frame_recycled := wrapping_add (frame_recycled p) 1\<rparr>"

definition inc_frame_bump_allocs :: "frame_profile \<Rightarrow> frame_profile" where
  "inc_frame_bump_allocs p = p\<lparr>frame_bump_allocs := wrapping_add (frame_bump_allocs p) 1\<rparr>"

definition add_frame_zero_bytes :: "nat \<Rightarrow> frame_profile \<Rightarrow> frame_profile" where
  "add_frame_zero_bytes b p = p\<lparr>frame_zero_bytes := wrapping_add (frame_zero_bytes p) b\<rparr>"

section \<open>Setting the allocator up\<close>

definition init_frames :: "nat \<Rightarrow> nat \<Rightarrow> nat \<Rightarrow> frame_allocator \<Rightarrow> frame_allocator" where
  "init_frames pool_base pool_end total_size fa =
     (let pool_size = saturating_sub pool_end pool_base
      in fa\<lparr>base := pool_base,
            total_frames := min total_size pool_size div FRAME_SIZE,
            next_frame := 0,
            free_ranges := []\<rparr>)"

definition set_node_range :: "nat \<Rightarrow> nat \<Rightarrow> nat \<Rightarrow> frame_allocator \<Rightarrow> frame_allocator" where
  "set_node_range pool_base start_frame end_frame fa =
     fa\<lparr>base := pool_base + start_frame * FRAME_SIZE,
        total_frames := saturating_sub end_frame start_frame,
        next_frame := 0,
        free_ranges := []\<rparr>"

section \<open>Addresses and memory\<close>

definition frame_address :: "frame_allocator \<Rightarrow> nat \<Rightarrow> nat option" where
  "frame_address fa frame_start =
     (case checked_mul frame_start FRAME_SIZE of
        None \<Rightarrow> None
      | Some off \<Rightarrow> checked_add (base fa) off)"

definition restore_page :: "nat \<Rightarrow> phys_memory \<Rightarrow> phys_memory" where
  "restore_page a pm = pm\<lparr>restored_pages := restored_pages pm @ [a]\<rparr>"

function ensure_mapped_from :: "nat \<Rightarrow> nat \<Rightarrow> nat \<Rightarrow> phys_memory \<Rightarrow> phys_memory" where
  "ensure_mapped_from address byte_len offset pm =
     (if offset < byte_len
      then ensure_mapped_from address byte_len (offset + FRAME_SIZE)
             (restore_page (address + offset) pm)
      else pm)"
  by pat_completeness auto
termination
  by (relation "measure (\<lambda>(address, byte_len, offset, pm). byte_len - offset)")
    (auto simp: FRAME_SIZE_def)

declare ensure_mapped_from.simps [simp del]

definition ensure_identity_mapped_range :: "nat \<Rightarrow> nat \<Rightarrow> phys_memory \<Rightarrow> phys_memory" where
  "ensure_identity_mapped_range address byte_len pm = ensure_mapped_from address byte_len 0 pm"

definition write_zero_bytes :: "nat \<Rightarrow> nat \<Rightarrow> phys_memory \<Rightarrow> phys_memory" where
  "write_zero_bytes address len pm =
     pm\<lparr>cells := (\<lambda>a. if address \<le> a \<and> a < address + len then 0 else cells pm a)\<rparr>"

definition copy_frame :: "nat \<Rightarrow> nat \<Rightarrow> phys_memory \<Rightarrow> phys_memory" where
  "copy_frame src dst pm =
     pm\<lparr>cells := (\<lambda>a. if dst \<le> a \<and> a < dst + FRAME_SIZE
                      then cells pm (src + (a - dst)) else cells pm a)\<rparr>"

definition zero_frame_range ::
  "frame_allocator \<Rightarrow> nat \<Rightarrow> nat \<Rightarrow> phys_memory \<Rightarrow> phys_memory option" where
  "zero_frame_range fa frame_start count pm =
     (case frame_address fa frame_start of
        None \<Rightarrow> None
      | Some address \<Rightarrow>
          (case checked_mul count FRAME_SIZE of
             None \<Rightarrow> None
           | Some byte_len \<Rightarrow>
               Some (write_zero_bytes address byte_len
                       (ensure_identity_mapped_range address byte_len pm))))"

section \<open>Allocation\<close>

definition allocate_from_free_ranges ::
  "frame_allocator \<Rightarrow> nat \<Rightarrow> nat option \<times> frame_allocator" where
  "allocate_from_free_ranges fa count =
     (case find (\<lambda>(start, cnt). count \<le> cnt) (free_ranges fa) of
        None \<Rightarrow> (None, fa)
      | Some (start, _) \<Rightarrow>
          (case bt_get (free_ranges fa) start of
             None \<Rightarrow> (None, fa)
           | Some range_count \<Rightarrow>
               (let m = bt_remove start (free_ranges fa);
                    m' = (if count < range_count
                          then bt_insert (start + count) (range_count - count) m else m)
                in (Some start, fa\<lparr>free_ranges := m'\<rparr>))))"

text \<open>\<open>allocate\<close>: a recycled hole first, the bump tail otherwise.  The \<open>?\<close> after the
  hole was taken returns \<open>None\<close> from a state the hole has already left.\<close>

definition allocate ::
  "frame_allocator \<Rightarrow> phys_memory \<Rightarrow> nat \<Rightarrow> nat option \<times> frame_allocator \<times> phys_memory" where
  "allocate fa pm count =
     (if base fa = 0 \<or> count = 0 then (None, fa, pm)
      else case allocate_from_free_ranges fa count of
        (Some frame_start, fa1) \<Rightarrow>
          (case frame_address fa1 frame_start of
             None \<Rightarrow> (None, fa1, pm)
           | Some address \<Rightarrow>
               (case zero_frame_range fa1 frame_start count pm of
                  None \<Rightarrow> (None, fa1, pm)
                | Some pm1 \<Rightarrow>
                    (Some address,
                     fa1\<lparr>profiler := add_frame_zero_bytes (count * FRAME_SIZE)
                            (inc_frame_recycled (inc_frame_allocs (profiler fa1)))\<rparr>,
                     pm1)))
      | (None, fa1) \<Rightarrow>
          (let frame_start = next_frame fa1
           in case checked_add frame_start count of
                None \<Rightarrow> (None, fa1, pm)
              | Some end_frame \<Rightarrow>
                  if end_frame > total_frames fa1 then (None, fa1, pm)
                  else case frame_address fa1 frame_start of
                    None \<Rightarrow> (None, fa1, pm)
                  | Some address \<Rightarrow>
                      (let fa2 = fa1\<lparr>next_frame := end_frame\<rparr>
                       in case zero_frame_range fa2 frame_start count pm of
                            None \<Rightarrow> (None, fa2, pm)
                          | Some pm1 \<Rightarrow>
                              (Some address,
                               fa2\<lparr>profiler := add_frame_zero_bytes (count * FRAME_SIZE)
                                      (inc_frame_bump_allocs (inc_frame_allocs (profiler fa2)))\<rparr>,
                               pm1))))"

definition available_frames :: "frame_allocator \<Rightarrow> nat" where
  "available_frames fa = saturating_sub (total_frames fa) (next_frame fa)"

definition largest_free_contiguous_frames :: "frame_allocator \<Rightarrow> nat" where
  "largest_free_contiguous_frames fa =
     (let tail_free = saturating_sub (total_frames fa) (next_frame fa)
      in max (fold max (map snd (free_ranges fa)) 0) tail_free)"

definition free_range_count :: "frame_allocator \<Rightarrow> nat" where
  "free_range_count fa = length (free_ranges fa)"

section \<open>Deallocation\<close>

text \<open>The loop that absorbs the ranges following the new one.  The scan starts at the
  new range's end, so a range that begins inside it is never looked at.\<close>

function merge_following ::
  "nat \<Rightarrow> nat \<Rightarrow> (nat, nat) btree \<Rightarrow> (bool \<times> nat) \<times> (nat, nat) btree" where
  "merge_following new_start new_count m =
     (case bt_next m (new_start + new_count) of
        None \<Rightarrow> ((True, new_count), m)
      | Some (next_start, next_count) \<Rightarrow>
          (if new_start + new_count < next_start then ((True, new_count), m)
           else if next_start < new_start + new_count then ((False, new_count), m)
           else merge_following new_start (new_count + next_count) (bt_remove next_start m)))"
  by pat_completeness auto
termination
  by (relation "measure (\<lambda>(new_start, new_count, m). length m)")
    (auto dest!: bt_next_in intro: length_bt_remove_entry)

declare merge_following.simps [simp del]

definition insert_merged :: "nat \<Rightarrow> nat \<Rightarrow> (nat, nat) btree \<Rightarrow> bool \<times> (nat, nat) btree" where
  "insert_merged new_start new_count m =
     (case merge_following new_start new_count m of
        ((ok, merged), m') \<Rightarrow>
          if ok then (True, bt_insert new_start merged m') else (False, m'))"

definition insert_free_range ::
  "nat \<Rightarrow> nat \<Rightarrow> (nat, nat) btree \<Rightarrow> bool \<times> (nat, nat) btree" where
  "insert_free_range start_frame count m =
     (if count = 0 then (False, m)
      else case bt_prev m start_frame of
        None \<Rightarrow> insert_merged start_frame count m
      | Some (prev_start, prev_count) \<Rightarrow>
          (if start_frame < prev_start + prev_count then (False, m)
           else if start_frame = prev_start + prev_count
           then insert_merged prev_start (count + prev_count) (bt_remove prev_start m)
           else insert_merged start_frame count m))"

function rewind_tail :: "nat \<Rightarrow> (nat, nat) btree \<Rightarrow> nat \<times> (nat, nat) btree" where
  "rewind_tail hwm m =
     (case bt_last m of
        Some (start, count) \<Rightarrow>
          (if start + count = hwm then rewind_tail start (bt_remove start m) else (hwm, m))
      | None \<Rightarrow> (hwm, m))"
  by pat_completeness auto
termination
  by (relation "measure (\<lambda>(hwm, m). length m)")
    (auto dest!: bt_last_in intro: length_bt_remove_entry)

declare rewind_tail.simps [simp del]

definition rewind_tail_high_water_mark :: "frame_allocator \<Rightarrow> frame_allocator" where
  "rewind_tail_high_water_mark fa =
     (case rewind_tail (next_frame fa) (free_ranges fa) of
        (hwm, m) \<Rightarrow> fa\<lparr>next_frame := hwm, free_ranges := m\<rparr>)"

text \<open>A null pointer is address 0.\<close>

definition deallocate :: "frame_allocator \<Rightarrow> nat \<Rightarrow> nat \<Rightarrow> bool \<times> frame_allocator" where
  "deallocate fa ptr count =
     (if base fa = 0 \<or> ptr = 0 \<or> count = 0 then (False, fa)
      else if ptr < base fa then (False, fa)
      else
        let offset = ptr - base fa
        in if offset mod FRAME_SIZE \<noteq> 0 then (False, fa)
           else
             let start_frame = offset div FRAME_SIZE
             in case checked_add start_frame count of
                  None \<Rightarrow> (False, fa)
                | Some end_frame \<Rightarrow>
                    if end_frame > total_frames fa \<or> end_frame > next_frame fa
                    then (False, fa)
                    else case insert_free_range start_frame count (free_ranges fa) of
                      (ok, m) \<Rightarrow>
                        if \<not> ok then (False, fa\<lparr>free_ranges := m\<rparr>)
                        else
                          let fa1 = rewind_tail_high_water_mark (fa\<lparr>free_ranges := m\<rparr>)
                          in (True, fa1\<lparr>profiler := inc_frame_frees (profiler fa1)\<rparr>))"

section \<open>Compaction\<close>

definition mark_range :: "nat \<times> nat \<Rightarrow> bool list \<Rightarrow> bool list" where
  "mark_range r bits =
     (case r of (start, count) \<Rightarrow>
        take start bits @ replicate (min count (length bits - start)) True
          @ drop (start + count) bits)"

definition free_bitmap :: "nat \<Rightarrow> (nat, nat) btree \<Rightarrow> bool list" where
  "free_bitmap n m = fold mark_range m (replicate n False)"

text \<open>The fixup closure is \<open>FnMut\<close>: it answers and updates its own captured state
  \<open>x\<close>.  It runs before the frame's contents are copied.\<close>

function compact_loop ::
  "frame_allocator \<Rightarrow> ('x \<Rightarrow> nat \<Rightarrow> nat \<Rightarrow> bool \<times> 'x) \<Rightarrow> nat \<Rightarrow> nat \<Rightarrow> nat \<Rightarrow> nat
     \<Rightarrow> bool list \<Rightarrow> phys_memory \<Rightarrow> 'x \<Rightarrow> nat \<times> bool list \<times> phys_memory \<times> 'x" where
  "compact_loop fa fixup n f fill moved free_bit pm x =
     (if f < n then
        if free_bit ! f then compact_loop fa fixup n (f + 1) fill moved free_bit pm x
        else if fill < f then
          (case (frame_address fa f, frame_address fa fill) of
             (Some old_addr, Some new_addr) \<Rightarrow>
               (case fixup x old_addr new_addr of
                  (ok, x') \<Rightarrow>
                    if \<not> ok then (moved, free_bit, pm, x')
                    else compact_loop fa fixup n (f + 1) (fill + 1) (moved + 1)
                           (free_bit[fill := False, f := True])
                           (copy_frame old_addr new_addr pm) x')
           | _ \<Rightarrow> (moved, free_bit, pm, x))
        else compact_loop fa fixup n (f + 1) (fill + 1) moved free_bit pm x
      else (moved, free_bit, pm, x))"
  by pat_completeness auto
termination
  by (relation "measure (\<lambda>(fa, fixup, n, f, fill, moved, free_bit, pm, x). n - f)") auto

declare compact_loop.simps [simp del]

fun rebuild_ranges ::
  "bool list \<Rightarrow> nat \<Rightarrow> nat option \<Rightarrow> (nat, nat) btree \<Rightarrow> (nat, nat) btree" where
  "rebuild_ranges [] i None m = m"
| "rebuild_ranges [] i (Some s) m = bt_insert s (i - s) m"
| "rebuild_ranges (b # bs) i run_start m =
     (if b then rebuild_ranges bs (i + 1) (Some (case run_start of None \<Rightarrow> i | Some s \<Rightarrow> s)) m
      else case run_start of
        Some s \<Rightarrow> rebuild_ranges bs (i + 1) None (bt_insert s (i - s) m)
      | None \<Rightarrow> rebuild_ranges bs (i + 1) None m)"

definition compact ::
  "frame_allocator \<Rightarrow> ('x \<Rightarrow> nat \<Rightarrow> nat \<Rightarrow> bool \<times> 'x) \<Rightarrow> phys_memory \<Rightarrow> 'x
     \<Rightarrow> nat \<times> frame_allocator \<times> phys_memory \<times> 'x" where
  "compact fa fixup pm x =
     (let n = next_frame fa;
          free_bit = free_bitmap n (free_ranges fa)
      in case compact_loop fa fixup n 0 0 0 free_bit pm x of
           (moved, bits, pm', x') \<Rightarrow>
             (moved, fa\<lparr>free_ranges := rebuild_ranges bits 0 None []\<rparr>, pm', x'))"

section \<open>Specification vocabulary\<close>

text \<open>The abstract view: which frames (by index into the pool) are free.\<close>

definition range_frames :: "(nat, nat) btree \<Rightarrow> nat set" where
  "range_frames m = (\<Union>(s, c) \<in> set m. {s..<s + c})"

definition free_frames :: "frame_allocator \<Rightarrow> nat set" where
  "free_frames fa = range_frames (free_ranges fa) \<union> {next_frame fa..<total_frames fa}"

text \<open>The ranges lie below the high-water mark \<open>h\<close>, are not empty, and any two of them
  have a gap between them: they are fully coalesced.\<close>

definition ranges_wf :: "nat \<Rightarrow> (nat, nat) btree \<Rightarrow> bool" where
  "ranges_wf h m \<longleftrightarrow> bt_sorted m \<and> (\<forall>(s, c) \<in> set m. 0 < c \<and> s + c \<le> h) \<and>
     (\<forall>(s, c) \<in> set m. \<forall>(t, d) \<in> set m. s < t \<longrightarrow> s + c < t)"

definition frames_wf :: "frame_allocator \<Rightarrow> bool" where
  "frames_wf fa \<longleftrightarrow> ranges_wf (next_frame fa) (free_ranges fa) \<and>
     next_frame fa \<le> total_frames fa \<and>
     base fa + total_frames fa * FRAME_SIZE < USIZE_LIMIT"

text \<open>No free range touches the high-water mark; \<open>deallocate\<close> establishes it by
  rewinding the mark.\<close>

definition tail_clear :: "frame_allocator \<Rightarrow> bool" where
  "tail_clear fa \<longleftrightarrow> (\<forall>(s, c) \<in> set (free_ranges fa). s + c \<noteq> next_frame fa)"

definition separated :: "nat \<Rightarrow> nat \<Rightarrow> (nat, nat) btree \<Rightarrow> bool" where
  "separated a n m \<longleftrightarrow> (\<forall>(s, c) \<in> set m. s + c < a \<or> a + n < s)"

definition frame_zeroed :: "frame_allocator \<Rightarrow> nat \<Rightarrow> nat \<Rightarrow> phys_memory \<Rightarrow> phys_memory \<Rightarrow> bool" where
  "frame_zeroed fa s n pm pm' \<longleftrightarrow>
     (\<forall>a. cells pm' a =
        (if base fa + s * FRAME_SIZE \<le> a \<and> a < base fa + (s + n) * FRAME_SIZE then 0
         else cells pm a))"

text \<open>
  A client of the pool takes blocks and gives back exactly the blocks it holds; it never
  frees part of a block, nor a block twice.  \<open>run_pool\<close> runs such a client: \<open>owned\<close> is
  its list of blocks.  The locale states what the pool promises and proves, once, that no
  frame is ever in two blocks and none is lost.
\<close>

datatype pool_op = Take nat | Give nat

definition block_frames :: "(nat \<times> nat) list \<Rightarrow> nat list" where
  "block_frames bs = concat (map (\<lambda>(a, n). [a..<a + n]) bs)"

fun run_pool ::
  "('s \<Rightarrow> nat \<Rightarrow> nat option \<times> 's) \<Rightarrow> ('s \<Rightarrow> nat \<Rightarrow> nat \<Rightarrow> bool \<times> 's) \<Rightarrow> pool_op list
     \<Rightarrow> 's \<times> (nat \<times> nat) list \<Rightarrow> 's \<times> (nat \<times> nat) list" where
  "run_pool alloc dealloc [] st = st"
| "run_pool alloc dealloc (Take n # ops) (s, owned) =
     (case alloc s n of
        (None, s') \<Rightarrow> run_pool alloc dealloc ops (s', owned)
      | (Some a, s') \<Rightarrow> run_pool alloc dealloc ops (s', (a, n) # owned))"
| "run_pool alloc dealloc (Give i # ops) (s, owned) =
     (if i < length owned then
        (case dealloc s (fst (owned ! i)) (snd (owned ! i)) of
           (_, s') \<Rightarrow> run_pool alloc dealloc ops (s', take i owned @ drop (Suc i) owned))
      else run_pool alloc dealloc ops (s, owned))"

definition pool_accounted :: "nat set \<Rightarrow> nat set \<Rightarrow> (nat \<times> nat) list \<Rightarrow> bool" where
  "pool_accounted all_frames free owned \<longleftrightarrow>
     distinct (block_frames owned) \<and> set (block_frames owned) \<inter> free = {} \<and>
     set (block_frames owned) \<union> free = all_frames \<and> (\<forall>(a, n) \<in> set owned. 0 < n)"

text \<open>The frame allocator keeps the contract: its state is the allocator and the memory,
  its blocks are named by frame index.\<close>

type_synonym frame_state = "frame_allocator \<times> phys_memory"

definition take_frames :: "frame_state \<Rightarrow> nat \<Rightarrow> nat option \<times> frame_state" where
  "take_frames st n =
     (case allocate (fst st) (snd st) n of
        (r, fa, pm) \<Rightarrow> (map_option (\<lambda>addr. (addr - base (fst st)) div FRAME_SIZE) r, (fa, pm)))"

definition give_frames :: "frame_state \<Rightarrow> nat \<Rightarrow> nat \<Rightarrow> bool \<times> frame_state" where
  "give_frames st a n =
     (case deallocate (fst st) (base (fst st) + a * FRAME_SIZE) n of
        (ok, fa) \<Rightarrow> (ok, (fa, snd st)))"

definition pool_frames :: "frame_state \<Rightarrow> nat set" where
  "pool_frames st = {..<total_frames (fst st)}"

definition frame_contents :: "frame_allocator \<Rightarrow> phys_memory \<Rightarrow> nat \<Rightarrow> u8 list" where
  "frame_contents fa pm i = map (\<lambda>k. cells pm (base fa + i * FRAME_SIZE + k)) [0..<FRAME_SIZE]"

definition live_frames :: "frame_allocator \<Rightarrow> nat list" where
  "live_frames fa = filter (\<lambda>i. i \<notin> free_frames fa) [0..<next_frame fa]"

text \<open>The live frames below \<open>n\<close> according to a bitmap.\<close>

definition bitmap_live :: "nat \<Rightarrow> bool list \<Rightarrow> nat list" where
  "bitmap_live n bits = filter (\<lambda>i. \<not> bits ! i) [0..<n]"

definition runs_before :: "nat option \<Rightarrow> nat \<Rightarrow> (nat, nat) btree \<Rightarrow> bool" where
  "runs_before run i m \<longleftrightarrow>
     (case run of
        None \<Rightarrow> separated i 0 m \<and> ranges_wf i m
      | Some s \<Rightarrow> s < i \<and> separated s 0 m \<and> ranges_wf s m)"

text \<open>While the loop runs, everything below \<open>fill\<close> is live and everything between
  \<open>fill\<close> and \<open>f\<close> is free.\<close>

definition slid :: "nat \<Rightarrow> nat \<Rightarrow> bool list \<Rightarrow> bool" where
  "slid fill f bits \<longleftrightarrow>
     fill \<le> f \<and> (\<forall>i < fill. \<not> bits ! i) \<and> (\<forall>i. fill \<le> i \<and> i < f \<longrightarrow> bits ! i)"

end
