(* ===== verification/Frame_Pool.thy ===== *)
theory Frame_Pool
  imports Frame_Allocator
begin

text \<open>
  Proofs about the frame allocator: the free ranges stay ordered, coalesced and below the
  high-water mark; \<open>allocate\<close> and \<open>deallocate\<close> take frames from and give frames back to
  the abstract set \<open>free_frames\<close>; compaction keeps the contents of every live frame.  The
  locale \<open>frame_pool\<close> is what a client relies on, interpreted on the allocator.
\<close>

section \<open>The set of free frames and the invariant\<close>

lemma ranges_wf_sorted: "ranges_wf h m \<Longrightarrow> bt_sorted m"
  by (simp add: ranges_wf_def)

lemma ranges_wf_Nil [simp]: "ranges_wf h []"
  by (simp add: ranges_wf_def)

lemma ranges_wf_entry: "ranges_wf h m \<Longrightarrow> (s, c) \<in> set m \<Longrightarrow> 0 < c \<and> s + c \<le> h"
  by (auto simp: ranges_wf_def)

lemma ranges_wf_gap:
  "ranges_wf h m \<Longrightarrow> (s, c) \<in> set m \<Longrightarrow> (t, d) \<in> set m \<Longrightarrow> s < t \<Longrightarrow> s + c < t"
  by (force simp: ranges_wf_def)

lemma ranges_wf_same: "ranges_wf h m \<Longrightarrow> (s, c) \<in> set m \<Longrightarrow> (s, d) \<in> set m \<Longrightarrow> c = d"
  using bt_sorted_keys_inj ranges_wf_sorted by metis

lemma ranges_wf_remove: "ranges_wf h m \<Longrightarrow> ranges_wf h (bt_remove k m)"
  unfolding ranges_wf_def by (auto intro: bt_sorted_remove)

lemma ranges_wf_mono: "ranges_wf h m \<Longrightarrow> h \<le> h' \<Longrightarrow> ranges_wf h' m"
  by (fastforce simp: ranges_wf_def)

lemma separated_not_key: "separated a n m \<Longrightarrow> (a, c) \<notin> set m"
  by (fastforce simp: separated_def)

lemma ranges_wf_insert:
  assumes "ranges_wf h m" "separated a n m" "0 < n" "a + n \<le> h"
  shows "ranges_wf h (bt_insert a n m)"
proof -
  have "set (bt_insert a n m) = insert (a, n) (set m)"
    using set_bt_insert [OF ranges_wf_sorted [OF assms(1)], of a n] separated_not_key [OF assms(2)]
    by auto
  moreover have "s + c < a" if "(s, c) \<in> set m" "s < a" for s c
    using assms(2) that by (auto simp: separated_def)
  moreover have "a + n < s" if "(s, c) \<in> set m" "a < s" for s c
    using assms(2) that by (auto simp: separated_def)
  ultimately show ?thesis
    using assms bt_sorted_insert [OF ranges_wf_sorted [OF assms(1)]]
    by (auto simp: ranges_wf_def)
qed

lemma range_frames_Nil [simp]: "range_frames [] = {}"
  by (simp add: range_frames_def)

lemma mem_range_frames: "i \<in> range_frames m \<longleftrightarrow> (\<exists>s c. (s, c) \<in> set m \<and> s \<le> i \<and> i < s + c)"
  by (force simp: range_frames_def)

lemma range_frames_entry: "(s, c) \<in> set m \<Longrightarrow> {s..<s + c} \<subseteq> range_frames m"
  by (force simp: range_frames_def)

lemma range_frames_insert:
  assumes "bt_sorted m" "\<And>c. (a, c) \<notin> set m"
  shows "range_frames (bt_insert a n m) = {a..<a + n} \<union> range_frames m"
proof -
  have "set (bt_insert a n m) = insert (a, n) (set m)"
    using set_bt_insert [OF assms(1), of a n] assms(2) by auto
  then show ?thesis
    by (simp add: range_frames_def)
qed

lemma range_frames_remove:
  assumes "ranges_wf h m" "(s, c) \<in> set m"
  shows "range_frames (bt_remove s m) = range_frames m - {s..<s + c}"
proof -
  have other: "i \<notin> {s..<s + c}" if "(t, d) \<in> set m" "t \<noteq> s" "t \<le> i" "i < t + d" for t d i
    using that assms ranges_wf_gap [OF assms(1)] by (metis atLeastLessThan_iff leD less_trans nat_neq_iff)
  have same: "d = c" if "(s, d) \<in> set m" for d
    using that assms ranges_wf_same by blast
  show ?thesis
  proof (intro set_eqI iffI)
    fix i
    assume "i \<in> range_frames (bt_remove s m)"
    then show "i \<in> range_frames m - {s..<s + c}"
      using other unfolding Diff_iff mem_range_frames set_bt_remove by fastforce
  next
    fix i
    assume "i \<in> range_frames m - {s..<s + c}"
    then show "i \<in> range_frames (bt_remove s m)"
      using same unfolding Diff_iff mem_range_frames set_bt_remove by fastforce
  qed
qed

lemma range_frames_below: "ranges_wf h m \<Longrightarrow> i \<in> range_frames m \<Longrightarrow> i < h"
  by (auto simp: mem_range_frames dest: ranges_wf_entry)

subsection \<open>Allocation from the holes\<close>

lemma find_in_set: "find P xs = Some x \<Longrightarrow> x \<in> set xs \<and> P x"
  by (auto simp: find_Some_iff)

lemma allocate_from_free_ranges_eq:
  assumes "ranges_wf h (free_ranges fa)"
  shows "allocate_from_free_ranges fa count =
    (case find (\<lambda>(start, cnt). count \<le> cnt) (free_ranges fa) of
       None \<Rightarrow> (None, fa)
     | Some (s, c) \<Rightarrow> (Some s, fa\<lparr>free_ranges :=
         (if count < c then bt_insert (s + count) (c - count) (bt_remove s (free_ranges fa))
          else bt_remove s (free_ranges fa))\<rparr>))"
proof (cases "find (\<lambda>(start, cnt). count \<le> cnt) (free_ranges fa)")
  case None
  then show ?thesis by (simp add: allocate_from_free_ranges_def)
next
  case (Some e)
  obtain s c where e: "e = (s, c)" by (cases e)
  have "bt_get (free_ranges fa) s = Some c"
    using find_in_set [OF Some] e bt_get_Some_iff [OF ranges_wf_sorted [OF assms]] by simp
  then show ?thesis
    by (simp add: allocate_from_free_ranges_def Some e Let_def)
qed

lemma allocate_from_free_ranges_None:
  assumes "ranges_wf h (free_ranges fa)" "allocate_from_free_ranges fa count = (None, fa')"
  shows "fa' = fa \<and> (\<forall>(s, c) \<in> set (free_ranges fa). c < count)"
  using assms(2) unfolding allocate_from_free_ranges_eq [OF assms(1)]
  by (auto simp: find_None_iff not_le split: option.splits)

lemma allocate_from_free_ranges_Some:
  assumes wf: "ranges_wf h (free_ranges fa)" and pos: "0 < count"
    and res: "allocate_from_free_ranges fa count = (Some s, fa')"
  obtains c m' where "(s, c) \<in> set (free_ranges fa)" "count \<le> c"
    "fa' = fa\<lparr>free_ranges := m'\<rparr>" "ranges_wf h m'"
    "range_frames m' = range_frames (free_ranges fa) - {s..<s + count}"
proof -
  let ?m = "free_ranges fa"
  obtain c where c: "(s, c) \<in> set ?m" "count \<le> c"
    and fa': "fa' = fa\<lparr>free_ranges :=
        (if count < c then bt_insert (s + count) (c - count) (bt_remove s ?m)
         else bt_remove s ?m)\<rparr>"
    using res unfolding allocate_from_free_ranges_eq [OF wf]
    by (auto split: option.splits dest!: find_in_set)
  have rem: "range_frames (bt_remove s ?m) = range_frames ?m - {s..<s + c}"
    by (rule range_frames_remove [OF wf c(1)])
  have wfr: "ranges_wf h (bt_remove s ?m)"
    by (rule ranges_wf_remove [OF wf])
  show ?thesis
  proof (cases "count < c")
    case False
    then have "count = c" using c(2) by simp
    then show ?thesis
      using that [OF c, of "bt_remove s ?m"] fa' rem wfr by simp
  next
    case True
    have "t + d < s + count \<or> s + c < t" if t: "(t, d) \<in> set ?m" "t \<noteq> s" for t d
    proof (cases "t < s")
      case True
      then show ?thesis using ranges_wf_gap [OF wf t(1) c(1)] by linarith
    next
      case False
      then show ?thesis using ranges_wf_gap [OF wf c(1) t(1)] t(2) by linarith
    qed
    then have sep: "separated (s + count) (c - count) (bt_remove s ?m)"
      using c(2) by (auto simp: separated_def)
    have bound: "s + count + (c - count) \<le> h"
      using ranges_wf_entry [OF wf c(1)] c(2) by simp
    let ?m' = "bt_insert (s + count) (c - count) (bt_remove s ?m)"
    have "ranges_wf h ?m'"
      using ranges_wf_insert [OF wfr sep _ bound] True by simp
    moreover have "range_frames ?m' = {s + count..<s + c} \<union> (range_frames ?m - {s..<s + c})"
      using range_frames_insert [OF ranges_wf_sorted [OF wfr] separated_not_key [OF sep]]
        rem c(2) by simp
    moreover have "{s..<s + c} \<subseteq> range_frames ?m"
      by (rule range_frames_entry [OF c(1)])
    ultimately have "range_frames ?m' = range_frames ?m - {s..<s + count}"
      using c(2) by auto
    with \<open>ranges_wf h ?m'\<close> show ?thesis
      using that [OF c, of ?m'] fa' True by simp
  qed
qed

subsection \<open>Inserting a freed range\<close>

text \<open>The loop ends with the new range grown over every adjacent successor.\<close>

lemma merge_following_correct:
  assumes "ranges_wf h m" "0 < n" "a + n \<le> h"
    "\<And>s c. (s, c) \<in> set m \<Longrightarrow> s + c < a \<or> a + n \<le> s"
  shows "\<exists>k m'. merge_following a n m = ((True, k), m') \<and> ranges_wf h m' \<and> separated a k m' \<and>
    0 < k \<and> a + k \<le> h \<and> {a..<a + k} \<union> range_frames m' = {a..<a + n} \<union> range_frames m"
  using assms
proof (induction a n m rule: merge_following.induct)
  case (1 a n m)
  show ?case
  proof (cases "bt_next m (a + n)")
    case None
    then have "separated a n m"
      using "1.prems"(4) by (fastforce simp: bt_next_None separated_def)
    then show ?thesis
      using "1.prems" None by (simp add: merge_following.simps [of a n m])
  next
    case (Some e)
    obtain t d where e: "e = (t, d)" by (cases e)
    have t: "(t, d) \<in> set m" "a + n \<le> t"
      using bt_next_in [of m "a + n" t d] Some e by auto
    have least: "t \<le> s" if "(s, c) \<in> set m" "a + n \<le> s" for s c
      using bt_next_least [OF ranges_wf_sorted [OF "1.prems"(1)] _ that] Some e by simp
    show ?thesis
    proof (cases "a + n < t")
      case True
      then have "separated a n m"
        using "1.prems"(4) least by (fastforce simp: separated_def)
      then show ?thesis
        using "1.prems" True Some e by (simp add: merge_following.simps [of a n m])
    next
      case False
      then have eq: "t = a + n" using t(2) by simp
      let ?m1 = "bt_remove (a + n) m"
      have step: "merge_following a n m = merge_following a (n + d) ?m1"
        using Some e eq by (simp add: merge_following.simps [of a n m])
      have td: "0 < d" "a + n + d \<le> h"
        using ranges_wf_entry [OF "1.prems"(1) t(1)] eq by auto
      have far: "s + c < a \<or> a + (n + d) \<le> s" if "(s, c) \<in> set ?m1" for s c
        using that "1.prems"(4) [of s c] ranges_wf_gap [OF "1.prems"(1) t(1), of s c] eq by fastforce
      have "\<exists>k m'. merge_following a (n + d) ?m1 = ((True, k), m') \<and> ranges_wf h m' \<and>
          separated a k m' \<and> 0 < k \<and> a + k \<le> h \<and>
          {a..<a + k} \<union> range_frames m' = {a..<a + (n + d)} \<union> range_frames ?m1"
        using "1.IH" [OF Some e [symmetric] False] eq ranges_wf_remove [OF "1.prems"(1)] td far
        by (simp add: add.assoc)
      moreover have "{a..<a + (n + d)} \<union> range_frames ?m1 = {a..<a + n} \<union> range_frames m"
      proof -
        have "{a..<a + (n + d)} = {a..<a + n} \<union> {t..<t + d}" using eq by auto
        then show ?thesis
          using range_frames_remove [OF "1.prems"(1) t(1)] range_frames_entry [OF t(1)] eq
          by blast
      qed
      ultimately show ?thesis
        unfolding step by simp
    qed
  qed
qed

text \<open>A range no frame of which is free is inserted, and the free set grows by it.\<close>

lemma insert_free_range_correct:
  assumes wf: "ranges_wf h m" and n: "0 < n" "a + n \<le> h"
    and live: "{a..<a + n} \<inter> range_frames m = {}"
  shows "\<exists>m'. insert_free_range a n m = (True, m') \<and> ranges_wf h m' \<and>
    range_frames m' = {a..<a + n} \<union> range_frames m"
proof -
  have apart: "s + c \<le> a \<or> a + n \<le> s" if "(s, c) \<in> set m" for s c
  proof (rule ccontr)
    assume "\<not> (s + c \<le> a \<or> a + n \<le> s)"
    moreover have "0 < c" using ranges_wf_entry [OF wf that] by simp
    ultimately have "max a s \<in> {a..<a + n} \<inter> {s..<s + c}" using n(1) by auto
    then show False using live range_frames_entry [OF that] by blast
  qed
  have finish: "\<exists>m'. insert_merged b k m1 = (True, m') \<and>
      ranges_wf h m' \<and> range_frames m' = {b..<b + k} \<union> range_frames m1"
    if m1: "ranges_wf h m1" "0 < k" "b + k \<le> h"
      "\<And>s c. (s, c) \<in> set m1 \<Longrightarrow> s + c < b \<or> b + k \<le> s" for b k m1
  proof -
    obtain j m' where j: "merge_following b k m1 = ((True, j), m')" "ranges_wf h m'"
        "separated b j m'" "0 < j" "b + j \<le> h"
        "{b..<b + j} \<union> range_frames m' = {b..<b + k} \<union> range_frames m1"
      using merge_following_correct [OF m1] by blast
    then show ?thesis
      using ranges_wf_insert [OF j(2,3,4,5)]
        range_frames_insert [OF ranges_wf_sorted [OF j(2)] separated_not_key [OF j(3)], of j]
      by (simp add: insert_merged_def)
  qed
  show ?thesis
  proof (cases "bt_prev m a")
    case None
    then have "s + c < a \<or> a + n \<le> s" if "(s, c) \<in> set m" for s c
      using that apart [OF that] ranges_wf_entry [OF wf that] by (fastforce simp: bt_prev_None)
    then show ?thesis
      using finish [OF wf n] n(1) None by (simp add: insert_free_range_def)
  next
    case (Some e)
    obtain p d where e: "e = (p, d)" by (cases e)
    have p: "(p, d) \<in> set m" "p < a"
      using bt_prev_in [of m a p d] Some e by auto
    have greatest: "s \<le> p" if "(s, c) \<in> set m" "s < a" for s c
      using bt_prev_greatest [OF ranges_wf_sorted [OF wf] _ that] Some e by simp
    have pd: "p + d \<le> a"
      using apart [OF p(1)] p(2) n(1) by linarith
    have below: "s + c < p" if "(s, c) \<in> set m" "s \<noteq> p" "\<not> a + n \<le> s" for s c
    proof -
      have "s < a" using apart [OF that(1)] that(3) ranges_wf_entry [OF wf that(1)] by linarith
      then have "s < p" using greatest [OF that(1)] that(2) by linarith
      then show ?thesis by (rule ranges_wf_gap [OF wf that(1) p(1)])
    qed
    show ?thesis
    proof (cases "a = p + d")
      case True
      have d: "0 < d" using ranges_wf_entry [OF wf p(1)] by simp
      have far: "s + c < p \<or> p + (n + d) \<le> s" if "(s, c) \<in> set (bt_remove p m)" for s c
        using that below [of s c] True by force
      have "range_frames (bt_remove p m) \<union> {p..<p + d} = range_frames m"
        using range_frames_remove [OF wf p(1)] range_frames_entry [OF p(1)] by auto
      moreover have "{p..<p + (n + d)} = {p..<p + d} \<union> {a..<a + n}"
        using True by auto
      ultimately show ?thesis
        using finish [OF ranges_wf_remove [OF wf], of "n + d" p p] far d n True Some e
        by (auto simp: insert_free_range_def add.assoc add.commute)
    next
      case False
      have "s + c < a \<or> a + n \<le> s" if "(s, c) \<in> set m" for s c
        using below [OF that] ranges_wf_same [OF wf p(1), of c] that pd False p(2)
        by (cases "s = p") fastforce+
      then show ?thesis
        using finish [OF wf n] n(1) Some e pd False by (simp add: insert_free_range_def)
    qed
  qed
qed

subsection \<open>Rewinding the high-water mark\<close>

lemma rewind_tail_correct:
  assumes "ranges_wf h m" "h \<le> t" "rewind_tail h m = (h', m')"
  shows "ranges_wf h' m' \<and> h' \<le> h \<and>
    range_frames m' \<union> {h'..<t} = range_frames m \<union> {h..<t} \<and>
    (\<forall>(s, c) \<in> set m'. s + c \<noteq> h')"
  using assms
proof (induction h m rule: rewind_tail.induct)
  case (1 h m)
  show ?case
  proof (cases "bt_last m")
    case None
    then have "m = []" by simp
    then have "h' = h" "m' = m"
      using "1.prems"(3) by (simp_all add: rewind_tail.simps [of h "[]"] bt_last_def)
    with \<open>m = []\<close> show ?thesis using "1.prems"(1) by simp
  next
    case (Some e)
    obtain s c where e: "e = (s, c)" by (cases e)
    have sc: "(s, c) \<in> set m" using bt_last_in [OF Some] e by simp
    have top: "s' \<le> s" if "(s', c') \<in> set m" for s' c'
      using bt_last_greatest [OF ranges_wf_sorted [OF "1.prems"(1)]] Some e that by blast
    show ?thesis
    proof (cases "s + c = h")
      case False
      have "s' + c' \<noteq> h" if "(s', c') \<in> set m" for s' c'
      proof (cases "s' = s")
        case True
        then show ?thesis
          using False ranges_wf_same [OF "1.prems"(1) sc] that by blast
      next
        case ne: False
        then show ?thesis
          using top [OF that] ranges_wf_gap [OF "1.prems"(1) that sc]
            ranges_wf_entry [OF "1.prems"(1) sc] by linarith
      qed
      then show ?thesis
        using "1.prems" Some e False by (auto simp: rewind_tail.simps [of h m])
    next
      case True
      let ?m1 = "bt_remove s m"
      have step: "rewind_tail s ?m1 = (h', m')"
        using "1.prems"(3) Some e True by (simp add: rewind_tail.simps [of h m])
      have "s' + c' \<le> s" if "(s', c') \<in> set ?m1" for s' c'
        using that top ranges_wf_gap [OF "1.prems"(1) _ sc, of s' c'] by fastforce
      then have wf1: "ranges_wf s ?m1"
        using ranges_wf_remove [OF "1.prems"(1), of s] by (auto simp: ranges_wf_def)
      have "range_frames ?m1 \<union> {s..<t} = range_frames m \<union> {h..<t}"
        using range_frames_remove [OF "1.prems"(1) sc] range_frames_entry [OF sc] True "1.prems"(2)
        by auto
      then show ?thesis
        using "1.IH" [OF Some e [symmetric] True wf1 _ step] True "1.prems"(2) by auto
    qed
  qed
qed

section \<open>Allocation refines taking frames from the free set\<close>

lemma frame_address_eq:
  "base fa + s * FRAME_SIZE < USIZE_LIMIT \<Longrightarrow> frame_address fa s = Some (base fa + s * FRAME_SIZE)"
  by (simp add: frame_address_def checked_mul_def checked_add_def)

lemma frame_bound_mono:
  "base fa + t * FRAME_SIZE < USIZE_LIMIT \<Longrightarrow> s \<le> t \<Longrightarrow> base fa + s * FRAME_SIZE < USIZE_LIMIT"
  using mult_le_mono1 [of s t FRAME_SIZE] by linarith

lemma cells_ensure_mapped: "cells (ensure_mapped_from a l off pm) = cells pm"
proof (induction a l off pm rule: ensure_mapped_from.induct)
  case (1 a l off pm)
  then show ?case
    by (simp add: ensure_mapped_from.simps [of a l off pm] restore_page_def)
qed

lemma zero_frame_range_ok:
  assumes "base fa + (s + n) * FRAME_SIZE < USIZE_LIMIT"
  obtains pm' where "zero_frame_range fa s n pm = Some pm'" "frame_zeroed fa s n pm pm'"
proof -
  have "base fa + s * FRAME_SIZE < USIZE_LIMIT" "n * FRAME_SIZE < USIZE_LIMIT"
    using assms by (simp_all add: add_mult_distrib)
  then have "zero_frame_range fa s n pm =
      Some (write_zero_bytes (base fa + s * FRAME_SIZE) (n * FRAME_SIZE)
        (ensure_identity_mapped_range (base fa + s * FRAME_SIZE) (n * FRAME_SIZE) pm))"
    by (simp add: zero_frame_range_def frame_address_eq checked_mul_def)
  moreover have "frame_zeroed fa s n pm
      (write_zero_bytes (base fa + s * FRAME_SIZE) (n * FRAME_SIZE)
        (ensure_identity_mapped_range (base fa + s * FRAME_SIZE) (n * FRAME_SIZE) pm))"
    by (simp add: frame_zeroed_def write_zero_bytes_def ensure_identity_mapped_range_def
        cells_ensure_mapped add_mult_distrib add.assoc)
  ultimately show ?thesis by (rule that)
qed

lemma Diff_below_tail:
  "a + n \<le> h \<Longrightarrow> A - {a..<a + n} \<union> {h..<t} = A \<union> {h..<t} - {a..<a + (n::nat)}"
  by auto

text \<open>The two ways an allocation of a well-formed pool can end.\<close>

lemma allocate_Some:
  assumes wf: "frames_wf fa" and res: "allocate fa pm n = (Some addr, fa', pm')"
  shows "\<exists>s. addr = base fa + s * FRAME_SIZE \<and> 0 < n \<and> {s..<s + n} \<subseteq> free_frames fa \<and>
    free_frames fa' = free_frames fa - {s..<s + n} \<and> frames_wf fa' \<and>
    base fa' = base fa \<and> total_frames fa' = total_frames fa \<and> frame_zeroed fa s n pm pm'"
proof -
  have base: "base fa \<noteq> 0" and n: "0 < n"
    using res by (auto simp: allocate_def split: if_splits)
  have rwf: "ranges_wf (next_frame fa) (free_ranges fa)"
    and tot: "next_frame fa \<le> total_frames fa"
    and lim: "base fa + total_frames fa * FRAME_SIZE < USIZE_LIMIT"
    using wf by (auto simp: frames_wf_def)
  show ?thesis
  proof (cases "allocate_from_free_ranges fa n")
    case (Pair o1 fa1)
    show ?thesis
    proof (cases o1)
      case (Some s)
      obtain c m' where sc: "(s, c) \<in> set (free_ranges fa)" "n \<le> c"
        "fa1 = fa\<lparr>free_ranges := m'\<rparr>" "ranges_wf (next_frame fa) m'"
        "range_frames m' = range_frames (free_ranges fa) - {s..<s + n}"
        using allocate_from_free_ranges_Some [OF rwf n] Pair Some by metis
      have fits: "s + n \<le> next_frame fa"
        using ranges_wf_entry [OF rwf sc(1)] sc(2) by simp
      have lim1: "base fa1 + (s + n) * FRAME_SIZE < USIZE_LIMIT"
        using frame_bound_mono [OF lim, of "s + n"] fits tot sc(3) by simp
      obtain pm1 where pm1: "zero_frame_range fa1 s n pm = Some pm1" "frame_zeroed fa1 s n pm pm1"
        using zero_frame_range_ok [OF lim1] .
      have adr: "frame_address fa1 s = Some (base fa + s * FRAME_SIZE)"
        using frame_address_eq frame_bound_mono [OF lim1, of s] sc(3) by simp
      have fa': "fa' = fa1\<lparr>profiler := add_frame_zero_bytes (n * FRAME_SIZE)
            (inc_frame_recycled (inc_frame_allocs (profiler fa1)))\<rparr>"
        and "addr = base fa + s * FRAME_SIZE" "pm' = pm1"
        using res base n unfolding allocate_def by (simp_all add: Pair Some adr pm1(1))
      moreover have "{s..<s + n} \<subseteq> range_frames (free_ranges fa)"
        using range_frames_entry [OF sc(1)] sc(2) by (auto simp: subset_iff)
      moreover have "free_frames fa' = free_frames fa - {s..<s + n}"
        unfolding free_frames_def fa' sc(3) by (simp add: sc(5) Diff_below_tail [OF fits])
      moreover have "frames_wf fa'"
        unfolding frames_wf_def fa' sc(3) using wf sc(4) by (simp add: frames_wf_def)
      ultimately show ?thesis
        using n pm1(2) sc(3) by (intro exI [of _ s]) (auto simp: free_frames_def frame_zeroed_def)
    next
      case None
      have fa1: "fa1 = fa"
        using allocate_from_free_ranges_None [OF rwf] Pair None by simp
      let ?s = "next_frame fa"
      have fits: "?s + n \<le> total_frames fa"
        using res base n Pair None fa1
        by (auto simp: allocate_def Let_def not_less split: option.splits if_splits)
      have lim1: "base fa + (?s + n) * FRAME_SIZE < USIZE_LIMIT"
        by (rule frame_bound_mono [OF lim fits])
      have "?s + n < USIZE_LIMIT"
        using lim1 by (simp add: FRAME_SIZE_def)
      let ?fa2 = "fa\<lparr>next_frame := ?s + n\<rparr>"
      have lim2: "base ?fa2 + (?s + n) * FRAME_SIZE < USIZE_LIMIT"
        using lim1 by simp
      obtain pm1 where pm1: "zero_frame_range ?fa2 ?s n pm = Some pm1" "frame_zeroed ?fa2 ?s n pm pm1"
        using zero_frame_range_ok [OF lim2] .
      have adr: "frame_address fa ?s = Some (base fa + ?s * FRAME_SIZE)"
        using frame_address_eq frame_bound_mono [OF lim tot] by simp
      have fa': "fa' = ?fa2\<lparr>profiler := add_frame_zero_bytes (n * FRAME_SIZE)
            (inc_frame_bump_allocs (inc_frame_allocs (profiler ?fa2)))\<rparr>"
        and "addr = base fa + ?s * FRAME_SIZE" "pm' = pm1"
        using res base n fits \<open>?s + n < USIZE_LIMIT\<close> unfolding allocate_def
        by (simp_all add: Pair None fa1 adr pm1(1) checked_add_def Let_def)
      moreover have "free_frames fa' = free_frames fa - {?s..<?s + n}"
        unfolding free_frames_def fa' using fits range_frames_below [OF rwf] by fastforce
      moreover have "frames_wf fa'"
        unfolding frames_wf_def fa' using wf fits ranges_wf_mono [OF rwf, of "?s + n"]
        by (simp add: frames_wf_def)
      ultimately show ?thesis
        using n pm1(2) fits
        by (intro exI [of _ ?s]) (auto simp: free_frames_def frame_zeroed_def)
    qed
  qed
qed

lemma allocate_None:
  assumes wf: "frames_wf fa" and res: "allocate fa pm n = (None, fa', pm')"
  shows "fa' = fa \<and> pm' = pm \<and>
    (base fa = 0 \<or> n = 0 \<or>
      ((\<forall>(s, c) \<in> set (free_ranges fa). c < n) \<and> total_frames fa < next_frame fa + n))"
proof -
  have rwf: "ranges_wf (next_frame fa) (free_ranges fa)"
    and tot: "next_frame fa \<le> total_frames fa"
    and lim: "base fa + total_frames fa * FRAME_SIZE < USIZE_LIMIT"
    using wf by (auto simp: frames_wf_def)
  show ?thesis
  proof (cases "base fa = 0 \<or> n = 0")
    case True
    then show ?thesis using res by (auto simp: allocate_def)
  next
    case False
    then have n: "0 < n" by simp
    show ?thesis
    proof (cases "allocate_from_free_ranges fa n")
      case (Pair o1 fa1)
      show ?thesis
      proof (cases o1)
        case (Some s)
        obtain c m' where sc: "(s, c) \<in> set (free_ranges fa)" "n \<le> c" "fa1 = fa\<lparr>free_ranges := m'\<rparr>"
          using allocate_from_free_ranges_Some [OF rwf n] Pair Some by metis
        have "s + n \<le> total_frames fa"
          using ranges_wf_entry [OF rwf sc(1)] sc(2) tot by simp
        then have lim1: "base fa1 + (s + n) * FRAME_SIZE < USIZE_LIMIT"
          using frame_bound_mono [OF lim] sc(3) by simp
        obtain pm1 where "zero_frame_range fa1 s n pm = Some pm1"
          using zero_frame_range_ok [OF lim1] by blast
        then show ?thesis
          using res False Pair Some frame_address_eq [OF frame_bound_mono [OF lim1, of s]]
          by (auto simp: allocate_def)
      next
        case None
        have fa1: "fa1 = fa" "\<forall>(s, c) \<in> set (free_ranges fa). c < n"
          using allocate_from_free_ranges_None [OF rwf] Pair None by auto
        show ?thesis
        proof (cases "next_frame fa + n \<le> total_frames fa")
          case True
          let ?fa2 = "fa\<lparr>next_frame := next_frame fa + n\<rparr>"
          have lim1: "base fa + (next_frame fa + n) * FRAME_SIZE < USIZE_LIMIT"
            by (rule frame_bound_mono [OF lim True])
          then have "next_frame fa + n < USIZE_LIMIT" by (simp add: FRAME_SIZE_def)
          moreover obtain pm1 where "zero_frame_range ?fa2 (next_frame fa) n pm = Some pm1"
            using zero_frame_range_ok [of ?fa2 "next_frame fa" n] lim1 by auto
          ultimately show ?thesis
            using res False Pair None fa1(1) True frame_address_eq [OF frame_bound_mono [OF lim tot]]
            by (auto simp: allocate_def Let_def checked_add_def)
        next
          case no_room: False
          then show ?thesis
            using res False Pair None fa1
            by (auto simp: allocate_def Let_def split: option.splits if_splits)
        qed
      qed
    qed
  qed
qed

section \<open>Deallocation refines giving frames back\<close>

lemma deallocate_live:
  assumes wf: "frames_wf fa" and base: "base fa \<noteq> 0" and n: "0 < n"
    and below: "s + n \<le> next_frame fa"
    and live: "{s..<s + n} \<inter> free_frames fa = {}"
  obtains fa' where "deallocate fa (base fa + s * FRAME_SIZE) n = (True, fa')"
    "free_frames fa' = free_frames fa \<union> {s..<s + n}" "frames_wf fa'" "tail_clear fa'"
    "base fa' = base fa" "total_frames fa' = total_frames fa"
proof -
  have rwf: "ranges_wf (next_frame fa) (free_ranges fa)"
    and tot: "next_frame fa \<le> total_frames fa"
    and lim: "base fa + total_frames fa * FRAME_SIZE < USIZE_LIMIT"
    using wf by (auto simp: frames_wf_def)
  obtain m1 where m1: "insert_free_range s n (free_ranges fa) = (True, m1)"
      "ranges_wf (next_frame fa) m1" "range_frames m1 = {s..<s + n} \<union> range_frames (free_ranges fa)"
    using insert_free_range_correct [OF rwf n below] live by (auto simp: free_frames_def)
  obtain h m2 where m2: "rewind_tail (next_frame fa) m1 = (h, m2)" by (cases "rewind_tail (next_frame fa) m1")
  have r: "ranges_wf h m2" "h \<le> next_frame fa"
      "range_frames m2 \<union> {h..<total_frames fa} = range_frames m1 \<union> {next_frame fa..<total_frames fa}"
      "\<forall>(s, c) \<in> set m2. s + c \<noteq> h"
    using rewind_tail_correct [OF m1(2) tot m2] by auto
  let ?fa' = "fa\<lparr>next_frame := h, free_ranges := m2, profiler := inc_frame_frees (profiler fa)\<rparr>"
  have "s + n < USIZE_LIMIT"
    using frame_bound_mono [OF lim, of "s + n"] below tot by (simp add: FRAME_SIZE_def)
  then have "deallocate fa (base fa + s * FRAME_SIZE) n = (True, ?fa')"
    using base n below tot m1(1) m2
    by (simp add: deallocate_def Let_def checked_add_def rewind_tail_high_water_mark_def FRAME_SIZE_def)
  moreover have "free_frames ?fa' = free_frames fa \<union> {s..<s + n}"
    using r(3) m1(3) by (simp add: free_frames_def Un_ac)
  moreover have "frames_wf ?fa'" "tail_clear ?fa'"
    using r wf by (simp_all add: frames_wf_def tail_clear_def)
  ultimately show ?thesis by (intro that [of ?fa']) simp_all
qed

text \<open>A refused request changes nothing.\<close>

lemma merge_following_never_refuses: "\<exists>k m'. merge_following a n m = ((True, k), m')"
proof (induction a n m rule: merge_following.induct)
  case (1 a n m)
  show ?case
  proof (cases "bt_next m (a + n)")
    case None
    then show ?thesis by (simp add: merge_following.simps [of a n m])
  next
    case (Some e)
    obtain t d where e: "e = (t, d)" by (cases e)
    have "a + n \<le> t" using bt_next_in [of m "a + n" t d] Some e by simp
    then show ?thesis
      using "1" [OF Some e [symmetric]] Some e by (cases "a + n < t") (auto simp: merge_following.simps [of a n m])
  qed
qed

lemma insert_merged_accepts: "\<exists>m'. insert_merged b k m = (True, m')"
  using merge_following_never_refuses [of b k m] by (auto simp: insert_merged_def)

lemma insert_free_range_refuses:
  assumes "insert_free_range s n m = (False, m')"
  shows "m' = m"
proof -
  have "insert_merged b k m1 \<noteq> (False, m2)" for b k m1 m2
    using insert_merged_accepts [of b k m1] by auto
  then show ?thesis
    using assms by (simp add: insert_free_range_def split: option.splits prod.splits if_splits)
qed

lemma deallocate_refused: "deallocate fa ptr n = (False, fa') \<Longrightarrow> fa' = fa"
  by (auto simp: deallocate_def Let_def dest!: insert_free_range_refuses
      split: option.splits prod.splits if_splits)

section \<open>What an allocation can find\<close>

lemma fold_max_le_iff: "fold max xs (x::nat) \<le> y \<longleftrightarrow> x \<le> y \<and> (\<forall>z \<in> set xs. z \<le> y)"
  by (induction xs arbitrary: x) auto

lemma le_fold_max_iff: "(y::nat) \<le> fold max xs x \<longleftrightarrow> y \<le> x \<or> (\<exists>z \<in> set xs. y \<le> z)"
  by (induction xs arbitrary: x) (auto simp: le_max_iff_disj)

lemma largest_ge_iff:
  "0 < n \<Longrightarrow> n \<le> largest_free_contiguous_frames fa \<longleftrightarrow>
     (\<exists>(s, c) \<in> set (free_ranges fa). n \<le> c) \<or> next_frame fa + n \<le> total_frames fa"
  by (force simp: largest_free_contiguous_frames_def Let_def saturating_sub_def le_fold_max_iff
      le_max_iff_disj)

lemma free_window_in_ranges:
  assumes wf: "frames_wf fa" and clear: "tail_clear fa" and n: "0 < n"
    and win: "{a..<a + n} \<subseteq> free_frames fa"
  shows "n \<le> largest_free_contiguous_frames fa"
proof (rule ccontr)
  assume "\<not> ?thesis"
  then have small: "\<And>s c. (s, c) \<in> set (free_ranges fa) \<Longrightarrow> c < n"
    and tail: "total_frames fa < next_frame fa + n"
    using largest_ge_iff [OF n, of fa] by (auto simp: not_le)
  have rwf: "ranges_wf (next_frame fa) (free_ranges fa)" using wf by (simp add: frames_wf_def)
  have win': "\<And>i. a \<le> i \<Longrightarrow> i < a + n \<Longrightarrow> i \<in> range_frames (free_ranges fa) \<or> next_frame fa \<le> i \<and> i < total_frames fa"
    using win by (auto simp: free_frames_def)
  from win' [of a] n consider (hole) s c where "(s, c) \<in> set (free_ranges fa)" "s \<le> a" "a < s + c"
    | (bump) "next_frame fa \<le> a"
    by (auto simp: mem_range_frames)
  then show False
  proof cases
    case bump
    then show ?thesis using win' [of "a + n - 1"] n tail range_frames_below [OF rwf, of "a + n - 1"]
      by fastforce
  next
    case hole
    have "s + c \<in> range_frames (free_ranges fa) \<or> next_frame fa \<le> s + c"
      using win' [of "s + c"] hole small [OF hole(1)] by auto
    moreover have "s + c \<notin> range_frames (free_ranges fa)"
    proof
      assume "s + c \<in> range_frames (free_ranges fa)"
      then obtain t d where t: "(t, d) \<in> set (free_ranges fa)" "t \<le> s + c" "s + c < t + d"
        by (auto simp: mem_range_frames)
      have "t \<noteq> s" using ranges_wf_same [OF rwf hole(1), of d] t by auto
      then show False
        using ranges_wf_gap [OF rwf t(1) hole(1)] ranges_wf_gap [OF rwf hole(1) t(1)] t(2,3)
          hole(2,3) by linarith
    qed
    moreover have "s + c < next_frame fa"
      using ranges_wf_entry [OF rwf hole(1)] clear hole(1) by (fastforce simp: tail_clear_def)
    ultimately show ?thesis by simp
  qed
qed

lemma largest_gives_window:
  assumes "0 < n" "n \<le> largest_free_contiguous_frames fa"
  shows "\<exists>a. {a..<a + n} \<subseteq> free_frames fa"
proof -
  from assms largest_ge_iff [OF assms(1), of fa]
  consider s c where "(s, c) \<in> set (free_ranges fa)" "n \<le> c" | "next_frame fa + n \<le> total_frames fa"
    by auto
  then show ?thesis
  proof cases
    case (1 s c)
    then have "{s..<s + n} \<subseteq> range_frames (free_ranges fa)"
      using range_frames_entry [OF 1(1)] by (auto simp: subset_iff)
    then show ?thesis by (auto simp: free_frames_def)
  next
    case 2
    then show ?thesis by (intro exI [of _ "next_frame fa"]) (auto simp: free_frames_def)
  qed
qed

section \<open>The contract of a frame pool\<close>

lemma block_frames_Cons [simp]: "block_frames ((a, n) # bs) = [a..<a + n] @ block_frames bs"
  by (simp add: block_frames_def)

lemma block_frames_Nil [simp]: "block_frames [] = []"
  by (simp add: block_frames_def)

locale frame_pool =
  fixes all_frames :: "'s \<Rightarrow> nat set"
    and free :: "'s \<Rightarrow> nat set"
    and invar :: "'s \<Rightarrow> bool"
    and alloc :: "'s \<Rightarrow> nat \<Rightarrow> nat option \<times> 's"
    and dealloc :: "'s \<Rightarrow> nat \<Rightarrow> nat \<Rightarrow> bool \<times> 's"
  assumes alloc_takes: "invar s \<Longrightarrow> alloc s n = (Some a, s') \<Longrightarrow>
      0 < n \<and> {a..<a + n} \<subseteq> free s \<and> free s' = free s - {a..<a + n} \<and>
      all_frames s' = all_frames s \<and> invar s'"
    and alloc_refuses: "invar s \<Longrightarrow> alloc s n = (None, s') \<Longrightarrow> s' = s"
    and dealloc_gives: "invar s \<Longrightarrow> 0 < n \<Longrightarrow> {a..<a + n} \<subseteq> all_frames s - free s \<Longrightarrow>
      \<exists>s'. dealloc s a n = (True, s') \<and> free s' = free s \<union> {a..<a + n} \<and>
        all_frames s' = all_frames s \<and> invar s'"
begin

lemma block_frames_split:
  assumes "i < length owned"
  shows "block_frames owned = block_frames (take i owned) @
    [fst (owned ! i)..<fst (owned ! i) + snd (owned ! i)] @ block_frames (drop (Suc i) owned)"
proof -
  have "owned = take i owned @ owned ! i # drop (Suc i) owned"
    by (rule id_take_nth_drop [OF assms])
  then have "block_frames owned = block_frames (take i owned @ owned ! i # drop (Suc i) owned)"
    by simp
  then show ?thesis by (simp add: block_frames_def split_beta)
qed

lemma accounted_take:
  assumes "invar s" "pool_accounted (all_frames s) (free s) owned" "alloc s n = (Some a, s')"
  shows "invar s' \<and> all_frames s' = all_frames s \<and>
    pool_accounted (all_frames s') (free s') ((a, n) # owned)"
  using alloc_takes [OF assms(1,3)] assms(2) by (auto simp: pool_accounted_def)

lemma accounted_give:
  assumes inv: "invar s" and acc: "pool_accounted (all_frames s) (free s) owned"
    and i: "i < length owned" and b: "owned ! i = (a, n)"
  obtains s' where "dealloc s a n = (True, s')" "invar s'" "all_frames s' = all_frames s"
    "pool_accounted (all_frames s') (free s') (take i owned @ drop (Suc i) owned)"
proof -
  have split: "block_frames owned =
      block_frames (take i owned) @ [a..<a + n] @ block_frames (drop (Suc i) owned)"
    using block_frames_split [OF i] b by simp
  have n: "0 < n"
    using acc nth_mem [OF i] b by (auto simp: pool_accounted_def)
  have "set [a..<a + n] \<subseteq> set (block_frames owned)"
    unfolding split by auto
  then have "{a..<a + n} \<subseteq> all_frames s - free s"
    using acc by (auto simp: pool_accounted_def)
  then obtain s' where s': "dealloc s a n = (True, s')" "free s' = free s \<union> {a..<a + n}"
      "all_frames s' = all_frames s" "invar s'"
    using dealloc_gives [OF inv n] by blast
  have rest: "block_frames (take i owned @ drop (Suc i) owned) =
      block_frames (take i owned) @ block_frames (drop (Suc i) owned)"
    by (simp add: block_frames_def)
  have "set (take i owned @ drop (Suc i) owned) \<subseteq> set owned"
    using set_take_subset [of i owned] set_drop_subset [of "Suc i" owned] by auto
  then have "pool_accounted (all_frames s') (free s') (take i owned @ drop (Suc i) owned)"
    using acc s'(2,3) unfolding pool_accounted_def rest split by auto
  with s' show ?thesis by (intro that [of s']) simp_all
qed

theorem run_pool_accounted:
  assumes "invar s" "pool_accounted (all_frames s) (free s) owned"
    "run_pool alloc dealloc ops (s, owned) = (s', owned')"
  shows "invar s' \<and> all_frames s' = all_frames s \<and> pool_accounted (all_frames s) (free s') owned'"
  using assms
proof (induction ops arbitrary: s owned)
  case Nil
  then show ?case by simp
next
  case (Cons op ops)
  show ?case
  proof (cases op)
    case (Take n)
    show ?thesis
    proof (cases "alloc s n")
      case (Pair r t)
      show ?thesis
      proof (cases r)
        case None
        then have "t = s" using alloc_refuses [OF Cons.prems(1)] Pair by simp
        then show ?thesis using Cons Take Pair None by simp
      next
        case (Some a)
        then show ?thesis
          using accounted_take [OF Cons.prems(1,2)] Cons.IH [of t "(a, n) # owned"] Cons.prems(3) Take Pair
          by auto
      qed
    qed
  next
    case (Give i)
    show ?thesis
    proof (cases "i < length owned")
      case False
      then show ?thesis using Cons Give by simp
    next
      case True
      obtain a n where b: "owned ! i = (a, n)" by (cases "owned ! i")
      obtain t where t: "dealloc s a n = (True, t)" "invar t" "all_frames t = all_frames s"
          "pool_accounted (all_frames t) (free t) (take i owned @ drop (Suc i) owned)"
        using accounted_give [OF Cons.prems(1,2) True b] .
      then show ?thesis
        using Cons.IH [of t "take i owned @ drop (Suc i) owned"] Cons.prems(3) Give True b by simp
    qed
  qed
qed

end

interpretation frames: frame_pool pool_frames "\<lambda>st. free_frames (fst st)"
  "\<lambda>st. frames_wf (fst st) \<and> base (fst st) \<noteq> 0" take_frames give_frames
proof (unfold_locales, goal_cases)
  case (1 s n a s')
  obtain addr fa pm where r: "allocate (fst s) (snd s) n = (Some addr, fa, pm)" "s' = (fa, pm)"
      "a = (addr - base (fst s)) div FRAME_SIZE"
    using 1(2) by (cases s') (auto simp: take_frames_def split: prod.splits)
  then obtain k where k: "addr = base (fst s) + k * FRAME_SIZE" "0 < n"
      "{k..<k + n} \<subseteq> free_frames (fst s)" "free_frames fa = free_frames (fst s) - {k..<k + n}"
      "frames_wf fa" "base fa = base (fst s)" "total_frames fa = total_frames (fst s)"
    using allocate_Some [OF _ r(1)] 1(1) by blast
  then have "a = k" using r(3) by (simp add: FRAME_SIZE_def)
  then show ?case using k 1(1) r(2) by (simp add: pool_frames_def)
next
  case (2 s n s')
  then show ?case
    using allocate_None [of "fst s" "snd s" n]
    by (cases s; cases s') (auto simp: take_frames_def split: prod.splits)
next
  case (3 s n a)
  then have below: "a + n \<le> next_frame (fst s)"
    by (force simp: pool_frames_def free_frames_def dest!: subsetD [where c = "a + n - 1"])
  obtain fa' where "deallocate (fst s) (base (fst s) + a * FRAME_SIZE) n = (True, fa')"
    "free_frames fa' = free_frames (fst s) \<union> {a..<a + n}" "frames_wf fa'"
    "base fa' = base (fst s)" "total_frames fa' = total_frames (fst s)"
    using deallocate_live [OF _ _ 3(2) below] 3(1,3) by blast
  then show ?case using 3(1) by (auto simp: give_frames_def pool_frames_def)
qed

section \<open>Compaction\<close>

lemma length_mark_range [simp]: "length (mark_range r bits) = length bits"
  by (auto simp: mark_range_def split: prod.splits)

lemma nth_mark_range:
  "i < length bits \<Longrightarrow> mark_range (s, c) bits ! i \<longleftrightarrow> bits ! i \<or> (s \<le> i \<and> i < s + c)"
  by (auto simp: mark_range_def nth_append min_def)

lemma length_fold_mark_range [simp]: "length (fold mark_range m bits) = length bits"
  by (induction m arbitrary: bits) auto

lemma nth_fold_mark_range:
  "i < length bits \<Longrightarrow> fold mark_range m bits ! i \<longleftrightarrow> bits ! i \<or> i \<in> range_frames m"
proof (induction m arbitrary: bits)
  case Nil
  then show ?case by simp
next
  case (Cons e m)
  obtain s c where "e = (s, c)" by (cases e)
  then show ?case
    using Cons by (auto simp: nth_mark_range mem_range_frames)
qed

lemma nth_free_bitmap: "i < n \<Longrightarrow> free_bitmap n m ! i \<longleftrightarrow> i \<in> range_frames m"
  by (simp add: free_bitmap_def nth_fold_mark_range)

lemma length_free_bitmap [simp]: "length (free_bitmap n m) = n"
  by (simp add: free_bitmap_def)

subsection \<open>Rebuilding the ranges from the bitmap\<close>

lemma bt_insert_last:
  "(\<And>s c. (s, c) \<in> set m \<Longrightarrow> s < a) \<Longrightarrow> bt_insert a n m = m @ [(a, n)]"
  by (induction m) fastforce+

lemma separated_grow:
  "ranges_wf h m \<Longrightarrow> separated h 0 m \<Longrightarrow> separated h n m"
  using ranges_wf_entry by (fastforce simp: separated_def)

lemma rebuild_close_run:
  assumes "s < i" "separated s 0 m" "ranges_wf s m"
  shows "ranges_wf i (bt_insert s (i - s) m) \<and>
    range_frames (bt_insert s (i - s) m) = range_frames m \<union> {s..<i}"
proof -
  have sep: "separated s (i - s) m" by (rule separated_grow [OF assms(3,2)])
  have "ranges_wf i m" using ranges_wf_mono [OF assms(3)] assms(1) by simp
  then show ?thesis
    using ranges_wf_insert [OF _ sep, of i] assms(1)
      range_frames_insert [OF ranges_wf_sorted [OF assms(3)] separated_not_key [OF sep], of "i - s"]
    by auto
qed

lemma rebuild_ranges_correct:
  "runs_before run i m \<Longrightarrow>
     ranges_wf (i + length bs) (rebuild_ranges bs i run m) \<and>
     range_frames (rebuild_ranges bs i run m) =
       range_frames m \<union> (case run of None \<Rightarrow> {} | Some s \<Rightarrow> {s..<i}) \<union>
       {k. i \<le> k \<and> k < i + length bs \<and> bs ! (k - i)}"
proof (induction bs i run m rule: rebuild_ranges.induct)
  case (1 i m)
  then show ?case by (auto simp: runs_before_def)
next
  case (2 i s m)
  have "{k. i \<le> k \<and> k < i + length [] \<and> ([] :: bool list) ! (k - i)} = {}" by auto
  show ?case
    unfolding \<open>_ = {}\<close> rebuild_ranges.simps
    using rebuild_close_run [of s i m] "2.prems" by (simp add: runs_before_def)
next
  case (3 b bs i run m)
  have step: "{k. i \<le> k \<and> k < i + length (b # bs) \<and> (b # bs) ! (k - i)} =
      (if b then {i} else {}) \<union> {k. Suc i \<le> k \<and> k < Suc i + length bs \<and> bs ! (k - Suc i)}"
  proof (intro set_eqI iffI, goal_cases)
    case (1 k)
    then show ?case by (cases "k = i") (auto simp: nth_Cons' Suc_diff_Suc)
  next
    case (2 k)
    then show ?case by (auto simp: nth_Cons' Suc_diff_Suc split: if_splits)
  qed
  show ?case
  proof (cases b)
    case True
    let ?s = "case run of None \<Rightarrow> i | Some s \<Rightarrow> s"
    have "runs_before (Some ?s) (i + 1) m"
      using "3.prems" by (auto simp: runs_before_def split: option.splits)
    from "3.IH"(1) [OF True this]
    have "ranges_wf (i + length (b # bs)) (rebuild_ranges (b # bs) i run m) \<and>
        range_frames (rebuild_ranges (b # bs) i run m) =
          range_frames m \<union> {?s..<i + 1} \<union> {k. Suc i \<le> k \<and> k < Suc i + length bs \<and> bs ! (k - Suc i)}"
      using True by simp
    moreover have "{?s..<i + 1} = (case run of None \<Rightarrow> {} | Some s \<Rightarrow> {s..<i}) \<union> {i}"
      using "3.prems" by (auto simp: runs_before_def split: option.splits)
    ultimately show ?thesis
      unfolding step using True by auto
  next
    case False
    show ?thesis
    proof (cases run)
      case None
      have "runs_before None (i + 1) m"
        using "3.prems" None ranges_wf_mono [of i m "i + 1"] ranges_wf_entry [of i m]
        by (fastforce simp: runs_before_def separated_def)
      then show ?thesis
        using "3.IH"(2) [OF False None] None False unfolding step by simp
    next
      case (Some s)
      have close: "ranges_wf i (bt_insert s (i - s) m)"
          "range_frames (bt_insert s (i - s) m) = range_frames m \<union> {s..<i}"
        using rebuild_close_run [of s i m] "3.prems" Some by (simp_all add: runs_before_def)
      then have "runs_before None (i + 1) (bt_insert s (i - s) m)"
        using ranges_wf_mono [of i _ "i + 1"] ranges_wf_entry [OF close(1)]
        by (fastforce simp: runs_before_def separated_def)
      then show ?thesis
        using "3.IH"(3) [OF False Some] Some False close(2) unfolding step by simp
    qed
  qed
qed

subsection \<open>The sliding loop\<close>

lemma bitmap_live_split:
  assumes "f \<le> n" "slid fill f bits"
  shows "bitmap_live n bits = [0..<fill] @ filter (\<lambda>i. \<not> bits ! i) [f..<n]"
proof -
  have "[0..<n] = [0..<fill] @ [fill..<f] @ [f..<n]"
    using assms upt_add_eq_append [of 0 fill "f - fill"] upt_add_eq_append [of 0 f "n - f"]
    by (simp add: slid_def)
  moreover have "filter (\<lambda>i. \<not> bits ! i) [0..<fill] = [0..<fill]"
    using assms by (simp add: slid_def filter_id_conv)
  moreover have "filter (\<lambda>i. \<not> bits ! i) [fill..<f] = []"
    using assms by (auto simp: slid_def filter_empty_conv)
  ultimately show ?thesis by (simp add: bitmap_live_def)
qed

lemma frame_contents_copy:
  "frame_contents fa (copy_frame (base fa + f * FRAME_SIZE) (base fa + fill * FRAME_SIZE) pm) i =
     frame_contents fa pm (if i = fill then f else i)"
proof (cases "i = fill")
  case True
  then show ?thesis
    by (auto simp: frame_contents_def copy_frame_def add.assoc)
next
  case False
  have "\<not> (base fa + fill * FRAME_SIZE \<le> base fa + i * FRAME_SIZE + k \<and>
      base fa + i * FRAME_SIZE + k < base fa + fill * FRAME_SIZE + FRAME_SIZE)" if "k < FRAME_SIZE" for k
    using that False by (auto simp: FRAME_SIZE_def)
  then show ?thesis
    using False by (auto simp: frame_contents_def copy_frame_def)
qed

lemma slid_move:
  assumes "slid fill f bits" "fill < f" "f < length bits"
  shows "slid (fill + 1) (f + 1) (bits[fill := False, f := True])"
  using assms by (auto simp: slid_def nth_list_update less_Suc_eq)

text \<open>One move keeps the sequence of live contents.\<close>

lemma move_keeps_contents:
  assumes sl: "slid fill f bits" and f: "fill < f" "f < n" "length bits = n" "\<not> bits ! f"
  shows "map (frame_contents fa (copy_frame (base fa + f * FRAME_SIZE) (base fa + fill * FRAME_SIZE) pm))
           (bitmap_live n (bits[fill := False, f := True])) =
         map (frame_contents fa pm) (bitmap_live n bits)"
proof -
  let ?b = "bits[fill := False, f := True]"
  have "bitmap_live n ?b = [0..<fill + 1] @ filter (\<lambda>i. \<not> ?b ! i) [f + 1..<n]"
    using bitmap_live_split [OF _ slid_move [OF sl f(1)], of n] f by simp
  moreover have "filter (\<lambda>i. \<not> ?b ! i) [f + 1..<n] = filter (\<lambda>i. \<not> bits ! i) [f + 1..<n]"
    using f by (intro filter_cong) (auto simp: nth_list_update)
  moreover have "bitmap_live n bits = [0..<fill] @ f # filter (\<lambda>i. \<not> bits ! i) [f + 1..<n]"
    using bitmap_live_split [OF _ sl, of n] f upt_conv_Cons [of f n] by simp
  ultimately show ?thesis
    using f(1) by (auto simp: frame_contents_copy)
qed

lemma compact_loop_correct:
  assumes "compact_loop fa fixup n f fill moved bits pm x = (moved', bits', pm', x')"
    "slid fill f bits" "f \<le> n" "length bits = n" "base fa + n * FRAME_SIZE < USIZE_LIMIT"
  shows "length bits' = n \<and>
    map (frame_contents fa pm') (bitmap_live n bits') = map (frame_contents fa pm) (bitmap_live n bits) \<and>
    ((\<forall>y old new. fst (fixup y old new)) \<longrightarrow>
       bitmap_live n bits' = [0..<length (bitmap_live n bits)])"
  using assms
proof (induction fa fixup n f fill moved bits pm x rule: compact_loop.induct)
  case (1 fa fixup n f fill moved bits pm x)
  note sl = "1.prems"(2)
  show ?case
  proof (cases "f < n")
    case False
    then have "f = n" using "1.prems"(3) by simp
    then have "bitmap_live n bits = [0..<fill]"
      using bitmap_live_split [OF _ sl, of n] by simp
    then show ?thesis
      using "1.prems"(1,4) False by (simp add: compact_loop.simps [of fa fixup n f])
  next
    case f: True
    show ?thesis
    proof (cases "bits ! f")
      case True
      then have "slid fill (f + 1) bits"
        using sl by (auto simp: slid_def less_Suc_eq)
      then show ?thesis
        using "1.IH"(1) [OF f True] "1.prems" f True
        by (simp add: compact_loop.simps [of fa fixup n f])
    next
      case live: False
      have addr: "frame_address fa f = Some (base fa + f * FRAME_SIZE)"
        "frame_address fa fill = Some (base fa + fill * FRAME_SIZE)"
        using frame_address_eq frame_bound_mono [OF "1.prems"(5)] f sl
        by (simp_all add: slid_def)
      show ?thesis
      proof (cases "fill < f")
        case False
        then have "fill = f" using sl by (simp add: slid_def)
        then have "slid (fill + 1) (f + 1) bits"
          using sl live by (auto simp: slid_def less_Suc_eq)
        then show ?thesis
          using "1.IH"(3) [OF f live False] "1.prems" f live False
          by (simp add: compact_loop.simps [of fa fixup n f])
      next
        case True
        obtain ok y where fx: "fixup x (base fa + f * FRAME_SIZE) (base fa + fill * FRAME_SIZE) = (ok, y)"
          by (cases "fixup x (base fa + f * FRAME_SIZE) (base fa + fill * FRAME_SIZE)")
        show ?thesis
        proof (cases ok)
          case False
          then have "moved' = moved" "bits' = bits" "pm' = pm"
            using "1.prems"(1) f live True addr fx
            by (simp_all add: compact_loop.simps [of fa fixup n f])
          moreover have "\<not> (\<forall>y old new. fst (fixup y old new))"
            using fx False by (metis fst_conv)
          ultimately show ?thesis using "1.prems"(4) by blast
        next
          case moved: True
          let ?b = "bits[fill := False, f := True]"
          let ?pm = "copy_frame (base fa + f * FRAME_SIZE) (base fa + fill * FRAME_SIZE) pm"
          have keep: "map (frame_contents fa ?pm) (bitmap_live n ?b) =
              map (frame_contents fa pm) (bitmap_live n bits)"
            using move_keeps_contents [OF sl True f "1.prems"(4) live] .
          then have len: "length (bitmap_live n ?b) = length (bitmap_live n bits)"
            by (metis length_map)
          have "compact_loop fa fixup n (f + 1) (fill + 1) (moved + 1) ?b ?pm y = (moved', bits', pm', x')"
            using "1.prems"(1) f live True addr fx moved
            by (simp add: compact_loop.simps [of fa fixup n f])
          then show ?thesis
            using "1.IH"(2) [OF f live True _ addr(1) addr(2) fx [symmetric]] moved
              slid_move [OF sl True] f "1.prems"(4,5) keep len by simp
        qed
      qed
    qed
  qed
qed

lemma compact_correct:
  assumes wf: "frames_wf fa" and res: "compact fa fixup pm x = (moved, fa', pm', x')"
  shows "frames_wf fa' \<and>
    map (frame_contents fa' pm') (live_frames fa') = map (frame_contents fa pm) (live_frames fa) \<and>
    ((\<forall>y old new. fst (fixup y old new)) \<longrightarrow> live_frames fa' = [0..<length (live_frames fa)])"
proof -
  let ?n = "next_frame fa" and ?b = "free_bitmap (next_frame fa) (free_ranges fa)"
  have rwf: "ranges_wf ?n (free_ranges fa)"
    and lim: "base fa + ?n * FRAME_SIZE < USIZE_LIMIT"
    using wf frame_bound_mono [of fa "total_frames fa" ?n] by (auto simp: frames_wf_def)
  obtain bits where loop: "compact_loop fa fixup ?n 0 0 0 ?b pm x = (moved, bits, pm', x')"
    and fa': "fa' = fa\<lparr>free_ranges := rebuild_ranges bits 0 None []\<rparr>"
    using res by (auto simp: compact_def Let_def split: prod.splits)
  have "slid 0 0 ?b" by (simp add: slid_def)
  note c = compact_loop_correct [OF loop this le0 length_free_bitmap lim]
  have len: "length bits = ?n" using c by blast
  have r: "ranges_wf ?n (rebuild_ranges bits 0 None [])"
    "range_frames (rebuild_ranges bits 0 None []) = {k. k < ?n \<and> bits ! k}"
    using rebuild_ranges_correct [of None 0 "[]" bits] len
    by (simp_all add: runs_before_def separated_def)
  have "live_frames fa = bitmap_live ?n ?b"
    unfolding live_frames_def bitmap_live_def
    by (intro filter_cong) (auto simp: free_frames_def nth_free_bitmap)
  moreover have "live_frames fa' = bitmap_live ?n bits"
    unfolding live_frames_def bitmap_live_def fa'
    by (intro filter_cong) (auto simp: free_frames_def r(2))
  moreover have "frames_wf fa'"
    using wf r(1) by (simp add: fa' frames_wf_def)
  moreover have "frame_contents fa' = frame_contents fa"
    by (simp add: fa' frame_contents_def fun_eq_iff)
  ultimately show ?thesis using c by simp
qed

section \<open>Properties\<close>

lemma tail_clear_init: "tail_clear (init_frames pool_base pool_end total_size fa)"
  by (simp add: tail_clear_def init_frames_def Let_def)

lemma frames_wf_init:
  assumes "pool_end < USIZE_LIMIT" "pool_base \<le> pool_end"
  shows "frames_wf (init_frames pool_base pool_end total_size fa)"
proof -
  have "min total_size (pool_end - pool_base) div FRAME_SIZE * FRAME_SIZE \<le> pool_end - pool_base"
    by (rule order_trans [OF div_times_less_eq_dividend]) simp
  then show ?thesis
    using assms by (simp add: frames_wf_def init_frames_def Let_def saturating_sub_def)
qed

lemma free_frames_init:
  "free_frames (init_frames pool_base pool_end total_size fa) =
     {..<total_frames (init_frames pool_base pool_end total_size fa)}"
  by (auto simp: free_frames_def init_frames_def Let_def)

text \<open>A pool of eight frames at address 4096, for the concrete instances.\<close>

definition example_pool :: frame_allocator where
  "example_pool = init_frames 4096 36864 32768 new_frame_allocator"

definition example_memory :: phys_memory where
  "example_memory = \<lparr>cells = (\<lambda>_. 255), restored_pages = []\<rparr>"

lemmas frame_eval = example_pool_def init_frames_def new_frame_allocator_def allocate_def
  allocate_from_free_ranges_def frame_address_def checked_mul_def checked_add_def
  zero_frame_range_def FRAME_SIZE_def saturating_sub_def deallocate_def insert_free_range_def
  insert_merged_def merge_following.simps rewind_tail_high_water_mark_def rewind_tail.simps
  bt_prev_def bt_next_def bt_first_def bt_last_def bt_remove_def bt_get_def Let_def

lemma example_pool_wf: "frames_wf example_pool" "tail_clear example_pool" "base example_pool = 4096"
    "total_frames example_pool = 8" "next_frame example_pool = 0"
  by (simp_all add: example_pool_def frames_wf_init tail_clear_init)
    (simp_all add: init_frames_def Let_def saturating_sub_def FRAME_SIZE_def)

text \<open>C1: every run of a client that gives back the blocks it took accounts for every frame
  of the pool: no frame is in two blocks the client holds, no frame it holds is free, and
  the frames it holds together with the free ones are the whole pool, so nothing leaks.\<close>

theorem frame_run_accounted:
  assumes "pool_base \<noteq> 0" "pool_base \<le> pool_end" "pool_end < USIZE_LIMIT"
    and "fa0 = init_frames pool_base pool_end total_size fa"
    and "run_pool take_frames give_frames ops ((fa0, pm), []) = ((fa', pm'), owned)"
  shows "frames_wf fa' \<and> pool_accounted {..<total_frames fa0} (free_frames fa') owned"
proof -
  have "frames_wf fa0" "base fa0 \<noteq> 0" "free_frames fa0 = {..<total_frames fa0}"
    using assms frames_wf_init [of pool_end pool_base total_size fa] free_frames_init
    by (simp_all add: init_frames_def Let_def)
  then show ?thesis
    using frames.run_pool_accounted [OF _ _ assms(5)]
    by (simp add: pool_accounted_def pool_frames_def)
qed

theorem frame_run_accounted_witness:
  "\<exists>fa' pm' owned. run_pool take_frames give_frames [Take 3, Take 1, Give 1, Take 2]
       ((example_pool, example_memory), []) = ((fa', pm'), owned) \<and>
     owned = [(0, 2), (3, 1)] \<and> frames_wf fa' \<and>
     pool_accounted {..<total_frames example_pool} (free_frames fa') owned"
proof -
  let ?r = "run_pool take_frames give_frames [Take 3, Take 1, Give 1, Take 2]
       ((example_pool, example_memory), [])"
  obtain fa' pm' owned where r: "?r = ((fa', pm'), owned)"
    by (cases ?r) auto
  have "owned = snd ?r" using r by simp
  also have "\<dots> = [(0, 2), (3, 1)]"
    by (simp add: frame_eval take_frames_def give_frames_def)
  finally have "owned = [(0, 2), (3, 1)]" .
  then show ?thesis
    using r frame_run_accounted [OF _ _ _ example_pool_def r] by auto
qed

text \<open>C2: a successful allocation hands out frames that were all free, removes exactly
  those from the free set, keeps the allocator well formed, returns their address, and
  leaves memory zeroed over them and unchanged elsewhere.\<close>

theorem frame_allocate_refines:
  assumes "frames_wf fa" "allocate fa pm n = (Some addr, fa', pm')"
  shows "\<exists>s. addr = base fa + s * FRAME_SIZE \<and> 0 < n \<and> {s..<s + n} \<subseteq> free_frames fa \<and>
    free_frames fa' = free_frames fa - {s..<s + n} \<and> frames_wf fa' \<and>
    base fa' = base fa \<and> total_frames fa' = total_frames fa \<and> frame_zeroed fa s n pm pm'"
  by (rule allocate_Some [OF assms])

theorem frame_allocate_refines_witness:
  "\<exists>fa' pm'. allocate example_pool example_memory 3 = (Some 4096, fa', pm') \<and>
     free_frames fa' = {3..<8} \<and> frames_wf fa'"
proof -
  obtain r fa' pm' where a: "allocate example_pool example_memory 3 = (r, fa', pm')"
    by (cases "allocate example_pool example_memory 3")
  have "r = fst (allocate example_pool example_memory 3)" using a by simp
  also have "\<dots> = Some 4096" by (simp add: frame_eval)
  finally have r: "r = Some 4096" .
  obtain s where s: "4096 = base example_pool + s * FRAME_SIZE"
      "free_frames fa' = free_frames example_pool - {s..<s + 3}" "frames_wf fa'"
    using frame_allocate_refines [OF example_pool_wf(1)] a r by blast
  have "s = 0" using s(1) by (simp add: example_pool_wf FRAME_SIZE_def)
  moreover have "free_frames example_pool = {..<8}"
    using free_frames_init example_pool_wf(4) by (simp add: example_pool_def)
  moreover have "{..<8} - {0..<0 + 3} = {3..<8::nat}" by auto
  ultimately show ?thesis using a r s(2,3) by simp
qed

text \<open>C28: while no free range touches the high-water mark, an allocation of \<open>n\<close> frames
  succeeds exactly when the pool has \<open>n\<close> contiguous free frames somewhere, and
  \<open>largest_free_contiguous_frames\<close> is the largest such \<open>n\<close>.\<close>

theorem frame_allocate_complete:
  assumes "frames_wf fa" "tail_clear fa" "base fa \<noteq> 0" "0 < n"
  shows "((\<exists>addr fa' pm'. allocate fa pm n = (Some addr, fa', pm')) \<longleftrightarrow>
      (\<exists>a. {a..<a + n} \<subseteq> free_frames fa)) \<and>
    ((\<exists>a. {a..<a + n} \<subseteq> free_frames fa) \<longleftrightarrow> n \<le> largest_free_contiguous_frames fa)"
proof -
  have win: "(\<exists>a. {a..<a + n} \<subseteq> free_frames fa) \<longleftrightarrow> n \<le> largest_free_contiguous_frames fa"
    using free_window_in_ranges [OF assms(1,2,4)] largest_gives_window [OF assms(4)] by blast
  have "\<exists>addr fa' pm'. allocate fa pm n = (Some addr, fa', pm')"
    if "n \<le> largest_free_contiguous_frames fa"
  proof -
    have room: "(\<exists>(s, c) \<in> set (free_ranges fa). n \<le> c) \<or> next_frame fa + n \<le> total_frames fa"
      using that largest_ge_iff [OF assms(4)] by blast
    obtain r fa' pm' where a: "allocate fa pm n = (r, fa', pm')" by (cases "allocate fa pm n")
    show ?thesis
    proof (cases r)
      case None
      then show ?thesis
        using allocate_None [OF assms(1)] a room assms(3,4) by fastforce
    qed (use a in blast)
  qed
  then show ?thesis
    using win allocate_Some [OF assms(1)] by blast
qed

theorem frame_allocate_complete_witness:
  "(\<exists>addr fa' pm'. allocate example_pool example_memory 8 = (Some addr, fa', pm')) \<and>
   \<not> (\<exists>addr fa' pm'. allocate example_pool example_memory 9 = (Some addr, fa', pm'))"
proof -
  have "largest_free_contiguous_frames example_pool = 8"
    by (simp add: largest_free_contiguous_frames_def frame_eval)
  then show ?thesis
    using frame_allocate_complete [OF example_pool_wf(1,2), of 8 example_memory]
      frame_allocate_complete [OF example_pool_wf(1,2), of 9 example_memory] example_pool_wf(3)
    by simp
qed

text \<open>C5: freeing a block whose frames are all live succeeds, adds exactly those frames to
  the free set, keeps the ranges ordered and coalesced, and leaves no free range touching
  the high-water mark.\<close>

theorem frame_deallocate_refines:
  assumes "frames_wf fa" "base fa \<noteq> 0" "0 < n" "s + n \<le> next_frame fa"
    and "{s..<s + n} \<inter> free_frames fa = {}"
  shows "\<exists>fa'. deallocate fa (base fa + s * FRAME_SIZE) n = (True, fa') \<and>
    free_frames fa' = free_frames fa \<union> {s..<s + n} \<and> frames_wf fa' \<and> tail_clear fa'"
  using deallocate_live [OF assms] by metis

theorem frame_deallocate_refines_witness:
  "\<exists>fa'. deallocate (example_pool\<lparr>next_frame := 5, free_ranges := [(0, 1), (3, 1)]\<rparr>) 8192 2 = (True, fa') \<and>
     free_frames fa' = {..<4} \<union> {5..<8} \<and> frames_wf fa' \<and> tail_clear fa'"
proof -
  let ?fa = "example_pool\<lparr>next_frame := 5, free_ranges := [(0, 1), (3, 1)]\<rparr>"
  have free: "free_frames ?fa = {0, 3} \<union> {5..<8}"
    by (auto simp: free_frames_def range_frames_def example_pool_wf)
  have wf: "frames_wf ?fa"
    using example_pool_wf by (simp add: frames_wf_def ranges_wf_def)
  have "insert 0 (insert 3 ({5..<8} \<union> {Suc 0..<Suc (Suc (Suc 0))})) = {..<4} \<union> {5..<8}"
    by auto
  then show ?thesis
    using frame_deallocate_refines [OF wf, of 2 1] free example_pool_wf by (simp add: FRAME_SIZE_def)
qed

text \<open>A refused deallocation (a null or misaligned pointer, one outside the pool or
  above the high-water mark, an empty block, or an overlap the allocator notices) changes
  nothing.\<close>

lemma frame_deallocate_refused_unchanged:
  assumes "deallocate fa ptr n = (False, fa')"
  shows "fa' = fa"
  by (rule deallocate_refused [OF assms])

lemma frame_deallocate_refused_unchanged_witness:
  "deallocate example_pool 4097 1 = (False, example_pool)"
proof -
  obtain r fa' where d: "deallocate example_pool 4097 1 = (r, fa')"
    by (cases "deallocate example_pool 4097 1")
  have "r = fst (deallocate example_pool 4097 1)" using d by simp
  also have "\<dots> = False" by (simp add: frame_eval)
  finally show ?thesis using d frame_deallocate_refused_unchanged by metis
qed

text \<open>\<open>deallocate\<close> accepts a block that overlaps frames already free: it looks only
  at the range that starts before the block and at ranges that start at or after its end.
  From a fresh pool of eight frames, freeing frame 1 and then the three-frame block that
  contains it both succeed, and the next two allocations return a block and a frame inside
  that block.\<close>

lemma frame_overlapping_free_accepted:
  "(let (a, f1, p1) = allocate example_pool example_memory 3;
        (b, f2, p2) = allocate f1 p1 1;
        (ok1, f3) = deallocate f2 8192 1;
        (ok2, f4) = deallocate f3 4096 3;
        (c, f5, p3) = allocate f4 p2 3;
        (d, f6, p4) = allocate f5 p3 1
    in (a, b, ok1, ok2, c, d)) =
   (Some 4096, Some 16384, True, True, Some 4096, Some 8192)"
  by (simp add: frame_eval)

text \<open>C9: compaction keeps the allocator well formed and the contents of the live frames,
  in order; when no frame is pinned, the live frames end up packed at the bottom of the
  pool.\<close>

theorem frame_compact_preserves:
  assumes "frames_wf fa" "compact fa fixup pm x = (moved, fa', pm', x')"
  shows "frames_wf fa' \<and>
    map (frame_contents fa' pm') (live_frames fa') = map (frame_contents fa pm) (live_frames fa) \<and>
    ((\<forall>y old new. fst (fixup y old new)) \<longrightarrow> live_frames fa' = [0..<length (live_frames fa)])"
  by (rule compact_correct [OF assms])

definition fragmented_pool :: frame_allocator where
  "fragmented_pool = example_pool\<lparr>next_frame := 6, free_ranges := [(0, 2), (3, 1)]\<rparr>"

lemma fragmented_bitmap:
  "free_bitmap 6 [(0, 2), (3, Suc 0)] = [True, True, False, True, False, False]"
  by code_simp

lemma fragmented_rebuild:
  "rebuild_ranges [False, False, False, True, True, True] 0 None [] = [(3, 3)]"
  by code_simp

lemma compact_fragmented_pool:
  "\<exists>pm'. compact fragmented_pool (\<lambda>_ _ _. (True, ())) pm () =
     (3, fragmented_pool\<lparr>free_ranges := [(3, 3)]\<rparr>, pm', ())"
  by (simp add: compact_def fragmented_pool_def fragmented_bitmap fragmented_rebuild
      compact_loop.simps frame_eval)

theorem frame_compact_preserves_witness:
  "\<exists>pm'. compact fragmented_pool (\<lambda>_ _ _. (True, ())) example_memory () =
     (3, fragmented_pool\<lparr>free_ranges := [(3, 3)]\<rparr>, pm', ()) \<and>
     live_frames (fragmented_pool\<lparr>free_ranges := [(3, 3)]\<rparr>) = [0..<length (live_frames fragmented_pool)]"
proof -
  have "frames_wf fragmented_pool"
    using example_pool_wf by (simp add: fragmented_pool_def frames_wf_def ranges_wf_def)
  then show ?thesis
    using compact_fragmented_pool [of example_memory] frame_compact_preserves by fastforce
qed

text \<open>Compaction does not rewind the high-water mark, so the hole it gathers at the
  top of the used part and the untouched tail stay two regions: of the five contiguous free
  frames of the compacted pool, \<open>largest_free_contiguous_frames\<close> reports three, and an
  allocation of five frames fails.\<close>

lemma frame_compact_leaves_tail_split:
  "\<exists>fa' pm'. compact fragmented_pool (\<lambda>_ _ _. (True, ())) example_memory () = (3, fa', pm', ()) \<and>
     {3..<3 + 5} \<subseteq> free_frames fa' \<and> largest_free_contiguous_frames fa' = 3 \<and>
     fst (allocate fa' pm' 5) = None"
proof -
  let ?fa = "fragmented_pool\<lparr>free_ranges := [(3, 3)]\<rparr>"
  obtain pm' where c: "compact fragmented_pool (\<lambda>_ _ _. (True, ())) example_memory () = (3, ?fa, pm', ())"
    using compact_fragmented_pool by blast
  have "{3..<3 + 5} \<subseteq> free_frames ?fa"
    by (auto simp: free_frames_def range_frames_def fragmented_pool_def example_pool_wf)
  moreover have "largest_free_contiguous_frames ?fa = 3"
    by (simp add: largest_free_contiguous_frames_def fragmented_pool_def frame_eval)
  moreover have "fst (allocate ?fa pm' 5) = None"
    by (simp add: fragmented_pool_def frame_eval)
  ultimately show ?thesis using c by blast
qed

lemma card_range_frames:
  "ranges_wf h m \<Longrightarrow> card (range_frames m) = sum_list (map snd m)"
proof (induction m)
  case Nil
  then show ?case by simp
next
  case (Cons e m)
  obtain s c where e: "e = (s, c)" by (cases e)
  have wf: "ranges_wf h m" using Cons.prems e by (auto simp: ranges_wf_def)
  have "s + c \<le> t" if "(t, d) \<in> set m" for t d
    using Cons.prems that e ranges_wf_gap [OF Cons.prems, of s c t d] ranges_wf_sorted [OF Cons.prems]
    by fastforce
  then have "{s..<s + c} \<inter> range_frames m = {}"
    by (fastforce simp: mem_range_frames)
  moreover have "finite (range_frames m)"
    by (auto simp: range_frames_def)
  moreover have "range_frames (e # m) = {s..<s + c} \<union> range_frames m"
    by (simp add: range_frames_def e)
  ultimately show ?case
    using Cons.IH [OF wf] by (simp add: card_Un_disjoint e)
qed

text \<open>\<open>available_frames\<close> counts only the frames above the high-water mark; the free
  frames of the pool are those and every frame of every hole.\<close>

lemma frame_available_excludes_holes:
  assumes "frames_wf fa"
  shows "card (free_frames fa) = available_frames fa + sum_list (map snd (free_ranges fa))"
proof -
  have rwf: "ranges_wf (next_frame fa) (free_ranges fa)" using assms by (simp add: frames_wf_def)
  have "range_frames (free_ranges fa) \<inter> {next_frame fa..<total_frames fa} = {}"
    using range_frames_below [OF rwf] by fastforce
  moreover have "finite (range_frames (free_ranges fa))"
    by (auto simp: range_frames_def)
  ultimately show ?thesis
    using card_range_frames [OF rwf]
    by (simp add: free_frames_def card_Un_disjoint available_frames_def saturating_sub_def)
qed

lemma frame_available_excludes_holes_witness:
  "card (free_frames fragmented_pool) = 5 \<and> available_frames fragmented_pool = 2"
proof -
  have "frames_wf fragmented_pool"
    using example_pool_wf by (simp add: fragmented_pool_def frames_wf_def ranges_wf_def)
  moreover have "available_frames fragmented_pool = 2"
    by (simp add: available_frames_def fragmented_pool_def frame_eval)
  ultimately show ?thesis
    using frame_available_excludes_holes [of fragmented_pool] by (simp add: fragmented_pool_def)
qed


end
