(* ===== verification/Pipe_Ring.thy ===== *)
theory Pipe_Ring
  imports Kernel_Prelude
begin

text \<open>
  The ring buffer of a pipe (\<open>PipeRing\<close> of \<open>src/kernel/ipc/pipe.rs\<close>), the rounding of
  \<open>F_SETPIPE_SZ\<close> (\<open>src/syscall/fcntl.rs\<close>) and the contract of a bounded byte queue
  that the ring is proved to satisfy.  An operation whose slice access would panic
  returns \<open>None\<close>; the byte slices a caller lends are lists, and a read gives back the
  list with its first \<open>n\<close> bytes overwritten.
\<close>

section \<open>Sizes\<close>

definition DEFAULT_PIPE_CAPACITY :: nat where
  "DEFAULT_PIPE_CAPACITY = 16384"

definition PIPE_MIN_SIZE :: nat where
  "PIPE_MIN_SIZE = 4096"

definition PIPE_MAX_SIZE :: nat where
  "PIPE_MAX_SIZE = 1024 * 1024"

text \<open>\<open>usize::next_power_of_two\<close>, by doubling from one.\<close>

function power_of_two_from :: "nat \<Rightarrow> nat \<Rightarrow> nat" where
  "power_of_two_from p n = (if n \<le> p \<or> p = 0 then p else power_of_two_from (2 * p) n)"
  by pat_completeness auto
termination
  by (relation "measure (\<lambda>(p, n). n - p)") auto

declare power_of_two_from.simps [simp del]

definition next_power_of_two :: "nat \<Rightarrow> nat" where
  "next_power_of_two n = power_of_two_from 1 n"

definition round_pipe_size :: "nat \<Rightarrow> nat" where
  "round_pipe_size size_arg =
     (let clamped = max PIPE_MIN_SIZE (min PIPE_MAX_SIZE size_arg);
          pages = div_ceil clamped PIPE_MIN_SIZE;
          rounded = min (saturating_mul (next_power_of_two pages) PIPE_MIN_SIZE) PIPE_MAX_SIZE
      in max rounded PIPE_MIN_SIZE)"

section \<open>The ring\<close>

record pipe_ring =
  ring_buf :: "u8 list"
  read_pos :: nat
  write_pos :: nat
  byte_count :: nat
  write_closed :: bool
  read_closed :: bool

definition new_ring :: "nat \<Rightarrow> pipe_ring" where
  "new_ring capacity =
     \<lparr>ring_buf = replicate capacity 0, read_pos = 0, write_pos = 0, byte_count = 0,
      write_closed = False, read_closed = False\<rparr>"

definition ring_is_empty :: "pipe_ring \<Rightarrow> bool" where
  "ring_is_empty r \<longleftrightarrow> byte_count r = 0"

definition ring_is_full :: "pipe_ring \<Rightarrow> bool" where
  "ring_is_full r \<longleftrightarrow> byte_count r = length (ring_buf r)"

definition ring_available :: "pipe_ring \<Rightarrow> nat" where
  "ring_available r = byte_count r"

definition ring_remaining :: "pipe_ring \<Rightarrow> nat" where
  "ring_remaining r = length (ring_buf r) - byte_count r"

text \<open>The copying loops: the index is bounds-checked before the modulus is taken.\<close>

fun read_loop :: "nat \<Rightarrow> u8 list \<Rightarrow> nat \<Rightarrow> (u8 list \<times> nat) option" where
  "read_loop 0 b pos = Some ([], pos)"
| "read_loop (Suc n) b pos =
     (if pos < length b
      then case read_loop n b ((pos + 1) mod length b) of
             None \<Rightarrow> None
           | Some (bytes, pos') \<Rightarrow> Some (b ! pos # bytes, pos')
      else None)"

fun write_loop :: "u8 list \<Rightarrow> u8 list \<Rightarrow> nat \<Rightarrow> (u8 list \<times> nat) option" where
  "write_loop [] b pos = Some (b, pos)"
| "write_loop (x # xs) b pos =
     (if pos < length b then write_loop xs (b[pos := x]) ((pos + 1) mod length b) else None)"

definition read_from :: "pipe_ring \<Rightarrow> u8 list \<Rightarrow> (nat \<times> u8 list \<times> pipe_ring) option" where
  "read_from r dst =
     (let n = min (length dst) (byte_count r)
      in case read_loop n (ring_buf r) (read_pos r) of
           None \<Rightarrow> None
         | Some (bytes, pos) \<Rightarrow>
             Some (n, bytes @ drop n dst, r\<lparr>read_pos := pos, byte_count := byte_count r - n\<rparr>))"

definition write_to :: "pipe_ring \<Rightarrow> u8 list \<Rightarrow> (nat \<times> pipe_ring) option" where
  "write_to r src =
     (let n = min (length src) (ring_remaining r)
      in case write_loop (take n src) (ring_buf r) (write_pos r) of
           None \<Rightarrow> None
         | Some (b, pos) \<Rightarrow>
             Some (n, r\<lparr>ring_buf := b, write_pos := pos, byte_count := byte_count r + n\<rparr>))"

definition resize_ring :: "pipe_ring \<Rightarrow> nat \<Rightarrow> (unit result \<times> pipe_ring) option" where
  "resize_ring r new_capacity =
     (if new_capacity < byte_count r then Some (Inl Busy, r)
      else case read_from r (replicate (byte_count r) 0) of
             None \<Rightarrow> None
           | Some (_, pending, r1) \<Rightarrow>
               Some (Inr (),
                     r1\<lparr>ring_buf := pending @ replicate (new_capacity - length pending) 0,
                        read_pos := 0, write_pos := length pending,
                        byte_count := length pending\<rparr>))"

section \<open>Vocabulary of the specification\<close>

text \<open>The unread bytes, oldest first, and the invariant under which no access panics.\<close>

definition ring_contents :: "pipe_ring \<Rightarrow> u8 list" where
  "ring_contents r =
     map (\<lambda>i. ring_buf r ! ((read_pos r + i) mod length (ring_buf r))) [0..<byte_count r]"

definition ring_readable :: "pipe_ring \<Rightarrow> bool" where
  "ring_readable r \<longleftrightarrow> read_pos r < length (ring_buf r) \<and> byte_count r \<le> length (ring_buf r)"

definition ring_wf :: "pipe_ring \<Rightarrow> bool" where
  "ring_wf r \<longleftrightarrow> ring_readable r \<and>
     write_pos r = (read_pos r + byte_count r) mod length (ring_buf r)"

text \<open>One call on the ring and what it hands over, for statements about call sequences.\<close>

datatype ring_op = Ring_read nat | Ring_write "u8 list"

text \<open>A run of calls: the bytes accepted and the bytes delivered, in order.\<close>

fun run_fifo :: "('s \<Rightarrow> u8 list \<Rightarrow> (nat \<times> 's) option) \<Rightarrow>
    ('s \<Rightarrow> u8 list \<Rightarrow> (nat \<times> u8 list \<times> 's) option) \<Rightarrow>
    's \<Rightarrow> ring_op list \<Rightarrow> (u8 list \<times> u8 list \<times> 's) option" where
  "run_fifo put get s [] = Some ([], [], s)"
| "run_fifo put get s (Ring_write src # ops) =
     (case put s src of
        None \<Rightarrow> None
      | Some (n, s1) \<Rightarrow>
          (case run_fifo put get s1 ops of
             None \<Rightarrow> None
           | Some (acc, del, s2) \<Rightarrow> Some (take n src @ acc, del, s2)))"
| "run_fifo put get s (Ring_read len # ops) =
     (case get s (replicate len 0) of
        None \<Rightarrow> None
      | Some (n, bytes, s1) \<Rightarrow>
          (case run_fifo put get s1 ops of
             None \<Rightarrow> None
           | Some (acc, del, s2) \<Rightarrow> Some (acc, take n bytes @ del, s2)))"

locale byte_fifo =
  fixes wf :: "'s \<Rightarrow> bool"
    and contents :: "'s \<Rightarrow> u8 list"
    and capacity :: "'s \<Rightarrow> nat"
    and put :: "'s \<Rightarrow> u8 list \<Rightarrow> (nat \<times> 's) option"
    and get :: "'s \<Rightarrow> u8 list \<Rightarrow> (nat \<times> u8 list \<times> 's) option"
  assumes bounded: "wf s \<Longrightarrow> length (contents s) \<le> capacity s"
    and put_ok: "wf s \<Longrightarrow>
      \<exists>s'. put s src = Some (min (length src) (capacity s - length (contents s)), s') \<and> wf s' \<and>
        capacity s' = capacity s \<and>
        contents s' = contents s @ take (capacity s - length (contents s)) src"
    and get_ok: "wf s \<Longrightarrow>
      \<exists>s'. get s dst = Some (min (length dst) (length (contents s)),
                take (length dst) (contents s) @ drop (length (contents s)) dst, s') \<and> wf s' \<and>
        capacity s' = capacity s \<and> contents s' = drop (length dst) (contents s)"
begin

lemma run_stream:
  "wf s \<Longrightarrow> \<exists>acc del s'. run_fifo put get s ops = Some (acc, del, s') \<and> wf s' \<and> capacity s' = capacity s \<and>
     contents s @ acc = del @ contents s'"
proof (induction ops arbitrary: s)
  case Nil
  then show ?case by simp
next
  case (Cons op ops)
  show ?case
  proof (cases op)
    case (Ring_write src)
    obtain s1 where s1: "put s src = Some (min (length src) (capacity s - length (contents s)), s1)"
      "wf s1" "capacity s1 = capacity s"
      "contents s1 = contents s @ take (capacity s - length (contents s)) src"
      using put_ok [OF Cons.prems] by blast
    obtain acc del s2 where "run_fifo put get s1 ops = Some (acc, del, s2)" "wf s2" "capacity s2 = capacity s1"
      "contents s1 @ acc = del @ contents s2"
      using Cons.IH [OF s1(2)] by blast
    then show ?thesis
      using s1 Ring_write by (auto simp: min_def)
  next
    case (Ring_read len)
    obtain s1 where s1: "get s (replicate len 0) = Some (min len (length (contents s)),
        take len (contents s) @ drop (length (contents s)) (replicate len 0), s1)"
      "wf s1" "capacity s1 = capacity s" "contents s1 = drop len (contents s)"
      using get_ok [OF Cons.prems, of "replicate len 0"] by auto
    obtain acc del s2 where 2: "run_fifo put get s1 ops = Some (acc, del, s2)" "wf s2" "capacity s2 = capacity s1"
      "contents s1 @ acc = del @ contents s2"
      using Cons.IH [OF s1(2)] by blast
    have "contents s @ acc = take len (contents s) @ (contents s1 @ acc)"
      by (simp add: s1(4))
    then have "contents s @ acc = (take len (contents s) @ del) @ contents s2"
      using 2(4) by simp
    then show ?thesis
      using s1 2 Ring_read
      by (intro exI [of _ acc] exI [of _ "take len (contents s) @ del"] exI [of _ s2])
        (auto simp: min_def)
  qed
qed

end

section \<open>The copying loops\<close>

lemma mod_step: "(Suc pos mod L + i) mod L = (pos + Suc i) mod L" for L :: nat
  by (metis add_Suc_shift mod_add_left_eq)

lemma read_loop_eq:
  "pos < length b \<Longrightarrow>
   read_loop n b pos = Some (map (\<lambda>i. b ! ((pos + i) mod length b)) [0..<n], (pos + n) mod length b)"
proof (induction n arbitrary: pos)
  case 0
  then show ?case by simp
next
  case (Suc n)
  have "Suc pos mod length b < length b"
    using Suc.prems by (intro mod_less_divisor) auto
  note IH = Suc.IH [OF this]
  have "map (\<lambda>i. b ! ((pos + i) mod length b)) [0..<Suc n] =
    b ! pos # map (\<lambda>i. b ! ((pos + Suc i) mod length b)) [0..<n]"
    using Suc.prems by (simp add: upt_conv_Cons map_Suc_upt [symmetric] comp_def del: upt_Suc)
  then show ?case
    using Suc.prems IH by (simp add: mod_step del: upt_Suc)
qed

lemma write_loop_eq:
  "pos < length b \<Longrightarrow> length xs \<le> length b \<Longrightarrow>
   \<exists>b'. write_loop xs b pos = Some (b', (pos + length xs) mod length b) \<and> length b' = length b \<and>
     (\<forall>i < length xs. b' ! ((pos + i) mod length b) = xs ! i) \<and>
     (\<forall>j < length b. (\<forall>i < length xs. j \<noteq> (pos + i) mod length b) \<longrightarrow> b' ! j = b ! j)"
proof (induction xs arbitrary: b pos)
  case Nil
  then show ?case by simp
next
  case (Cons x xs)
  let ?b = "b[pos := x]" and ?L = "length b"
  have p: "Suc pos mod ?L < ?L"
    using Cons.prems by (intro mod_less_divisor) auto
  obtain b' where b': "write_loop xs ?b (Suc pos mod ?L) = Some (b', (Suc pos mod ?L + length xs) mod ?L)"
    "length b' = ?L" "\<And>i. i < length xs \<Longrightarrow> b' ! ((Suc pos mod ?L + i) mod ?L) = xs ! i"
    "\<And>j. j < ?L \<Longrightarrow> (\<forall>i < length xs. j \<noteq> (Suc pos mod ?L + i) mod ?L) \<Longrightarrow> b' ! j = ?b ! j"
    using Cons.IH [of "Suc pos mod ?L" ?b] p Cons.prems by auto
  have keep: "pos \<noteq> (pos + Suc i) mod ?L" if "i < length xs" for i
  proof
    assume "pos = (pos + Suc i) mod ?L"
    then have "(pos + Suc i) mod ?L = (pos + 0) mod ?L"
      using Cons.prems by simp
    then have "?L dvd Suc i"
      by (metis add_diff_cancel_left' add_0_right le_add1 mod_eq_dvd_iff_nat)
    then show False
      using that Cons.prems by (auto dest: dvd_imp_le)
  qed
  have "b' ! pos = x"
    using b'(4) [of pos] keep Cons.prems by (auto simp: mod_step)
  then have "b' ! ((pos + i) mod ?L) = (x # xs) ! i" if "i < length (x # xs)" for i
    using that b'(3) Cons.prems by (cases i) (auto simp: mod_step)
  moreover have "b' ! j = b ! j"
    if "j < ?L" "\<forall>i < length (x # xs). j \<noteq> (pos + i) mod ?L" for j
  proof -
    have "j \<noteq> pos"
      using that(2) Cons.prems by force
    moreover have "\<forall>i < length xs. j \<noteq> (Suc pos mod ?L + i) mod ?L"
      using that(2) by (auto simp: mod_step)
    ultimately show ?thesis
      using b'(4) [OF that(1)] by simp
  qed
  ultimately show ?case
    using b'(1,2) Cons.prems by (auto simp: mod_step)
qed

section \<open>The ring is a bounded byte queue\<close>

lemma length_ring_contents [simp]: "length (ring_contents r) = byte_count r"
  by (simp add: ring_contents_def)

lemma ring_wf_readable: "ring_wf r \<Longrightarrow> ring_readable r"
  by (simp add: ring_wf_def)

lemma take_ring_contents:
  "n \<le> byte_count r \<Longrightarrow> take n (ring_contents r) =
     map (\<lambda>i. ring_buf r ! ((read_pos r + i) mod length (ring_buf r))) [0..<n]"
  by (simp add: ring_contents_def take_map)

lemma read_from_eq:
  assumes "ring_readable r"
  shows "read_from r dst =
    Some (min (length dst) (byte_count r),
      take (length dst) (ring_contents r) @ drop (byte_count r) dst,
      r\<lparr>read_pos := (read_pos r + min (length dst) (byte_count r)) mod length (ring_buf r),
        byte_count := byte_count r - min (length dst) (byte_count r)\<rparr>)"
proof -
  have "take (length dst) (ring_contents r) = take (min (length dst) (byte_count r)) (ring_contents r)"
    by (simp add: min_def)
  moreover have "drop (min (length dst) (byte_count r)) dst = drop (byte_count r) dst"
    by (simp add: min_def)
  ultimately show ?thesis
    using assms
    by (simp add: read_from_def read_loop_eq ring_readable_def take_ring_contents Let_def)
qed

lemma ring_contents_after_read:
  assumes "ring_readable r" "n \<le> byte_count r"
  shows "ring_contents (r\<lparr>read_pos := (read_pos r + n) mod length (ring_buf r),
    byte_count := byte_count r - n\<rparr>) = drop n (ring_contents r)"
  using assms by (intro nth_equalityI) (auto simp: ring_contents_def mod_add_left_eq add.assoc)

lemma ring_get:
  assumes "ring_readable r"
  shows "\<exists>r'. read_from r dst = Some (min (length dst) (length (ring_contents r)),
      take (length dst) (ring_contents r) @ drop (length (ring_contents r)) dst, r') \<and>
    ring_readable r' \<and> length (ring_buf r') = length (ring_buf r) \<and>
    ring_contents r' = drop (length dst) (ring_contents r) \<and>
    write_pos r' = write_pos r \<and> byte_count r' = byte_count r - min (length dst) (byte_count r) \<and>
    read_pos r' = (read_pos r + min (length dst) (byte_count r)) mod length (ring_buf r) \<and>
    write_closed r' = write_closed r \<and> read_closed r' = read_closed r"
proof -
  let ?n = "min (length dst) (byte_count r)"
  have "drop (length dst) (ring_contents r) = drop ?n (ring_contents r)"
    by (simp add: min_def)
  moreover have "0 < length (ring_buf r)"
    using assms by (auto simp: ring_readable_def)
  ultimately show ?thesis
    using assms ring_contents_after_read [OF assms, of ?n]
    by (auto simp: read_from_eq ring_readable_def)
qed

lemma ring_wf_after_read:
  assumes "ring_wf r" "n \<le> byte_count r" "ring_readable r'"
    and "length (ring_buf r') = length (ring_buf r)" "write_pos r' = write_pos r"
    and "byte_count r' = byte_count r - n" "read_pos r' = (read_pos r + n) mod length (ring_buf r)"
  shows "ring_wf r'"
proof -
  have "((read_pos r + n) mod length (ring_buf r) + (byte_count r - n)) mod length (ring_buf r) =
    (read_pos r + byte_count r) mod length (ring_buf r)"
    unfolding mod_add_left_eq using assms(2) by (simp add: add.assoc del: Nat.add_diff_assoc)
  then show ?thesis
    using assms unfolding ring_wf_def by metis
qed

lemma ring_put:
  assumes "ring_wf r"
  shows "\<exists>r'. write_to r src = Some (min (length src) (length (ring_buf r) - length (ring_contents r)), r') \<and>
    ring_wf r' \<and> length (ring_buf r') = length (ring_buf r) \<and>
    ring_contents r' =
      ring_contents r @ take (length (ring_buf r) - length (ring_contents r)) src \<and>
    write_closed r' = write_closed r \<and> read_closed r' = read_closed r"
proof -
  let ?L = "length (ring_buf r)" and ?c = "byte_count r"
  let ?n = "min (length src) (?L - ?c)"
  let ?xs = "take ?n src"
  have r: "read_pos r < ?L" "?c \<le> ?L" "write_pos r = (read_pos r + ?c) mod ?L"
    using assms by (simp_all add: ring_wf_def ring_readable_def)
  have w: "write_pos r < ?L"
    unfolding r(3) using r(1) by (intro mod_less_divisor) auto
  have len: "length ?xs = ?n"
    by simp
  have le: "length ?xs \<le> ?L"
    using r(2) by simp
  obtain b' where b': "write_loop ?xs (ring_buf r) (write_pos r) = Some (b', (write_pos r + ?n) mod ?L)"
    "length b' = ?L" "\<And>i. i < ?n \<Longrightarrow> b' ! ((write_pos r + i) mod ?L) = ?xs ! i"
    "\<And>j. j < ?L \<Longrightarrow> (\<forall>i < ?n. j \<noteq> (write_pos r + i) mod ?L) \<Longrightarrow> b' ! j = ring_buf r ! j"
    using write_loop_eq [OF w le] unfolding len by blast
  let ?r = "r\<lparr>ring_buf := b', write_pos := (write_pos r + ?n) mod ?L, byte_count := ?c + ?n\<rparr>"
  have old: "b' ! ((read_pos r + i) mod ?L) = ring_buf r ! ((read_pos r + i) mod ?L)" if "i < ?c" for i
  proof (rule b'(4))
    show "(read_pos r + i) mod ?L < ?L"
      using r(1) by (intro mod_less_divisor) auto
    show "\<forall>k < ?n. (read_pos r + i) mod ?L \<noteq> (write_pos r + k) mod ?L"
    proof (intro allI impI notI)
      fix k assume k: "k < ?n" "(read_pos r + i) mod ?L = (write_pos r + k) mod ?L"
      then have "(read_pos r + ?c + k) mod ?L = (read_pos r + i) mod ?L"
        by (simp add: r(3) mod_add_left_eq)
      then have "?L dvd (?c + k - i)"
        using that mod_eq_dvd_iff_nat [of "read_pos r + i" "read_pos r + ?c + k" ?L] by simp
      moreover have "0 < ?c + k - i" "?c + k < ?L"
        using that k by auto
      ultimately show False
        using dvd_imp_le [of ?L "?c + k - i"] by linarith
    qed
  qed
  have new: "b' ! ((read_pos r + (?c + i)) mod ?L) = ?xs ! i" if "i < ?n" for i
    using b'(3) [OF that] by (simp add: r(3) mod_add_left_eq add.assoc)
  have "ring_contents ?r = ring_contents r @ ?xs"
  proof (rule nth_equalityI)
    fix i assume "i < length (ring_contents ?r)"
    then have i: "i < ?c + ?n"
      by simp
    show "ring_contents ?r ! i = (ring_contents r @ ?xs) ! i"
    proof (cases "i < ?c")
      case True
      then show ?thesis
        using old [OF True] i b'(2) by (simp add: nth_append ring_contents_def)
    next
      case False
      then have "i = ?c + (i - ?c)" "i - ?c < ?n"
        using i by auto
      then show ?thesis
        using new [of "i - ?c"] i False b'(2) by (simp add: nth_append ring_contents_def)
    qed
  qed simp
  moreover have "?xs = take (?L - ?c) src"
    by (simp add: min_def)
  moreover have "ring_wf ?r"
    using r b'(2) by (simp add: ring_wf_def ring_readable_def mod_add_left_eq add.assoc)
  ultimately show ?thesis
    using b'(1,2) by (simp add: write_to_def ring_remaining_def Let_def)
qed

interpretation ring: byte_fifo ring_wf ring_contents "\<lambda>r. length (ring_buf r)" write_to read_from
proof
  fix s :: pipe_ring and src dst :: "u8 list"
  assume wf: "ring_wf s"
  show "length (ring_contents s) \<le> length (ring_buf s)"
    using wf by (simp add: ring_wf_def ring_readable_def)
  show "\<exists>s'. write_to s src = Some (min (length src) (length (ring_buf s) - length (ring_contents s)), s') \<and>
      ring_wf s' \<and> length (ring_buf s') = length (ring_buf s) \<and>
      ring_contents s' = ring_contents s @ take (length (ring_buf s) - length (ring_contents s)) src"
    using ring_put [OF wf] by blast
  show "\<exists>s'. read_from s dst = Some (min (length dst) (length (ring_contents s)),
        take (length dst) (ring_contents s) @ drop (length (ring_contents s)) dst, s') \<and>
      ring_wf s' \<and> length (ring_buf s') = length (ring_buf s) \<and>
      ring_contents s' = drop (length dst) (ring_contents s)"
    using ring_get [OF ring_wf_readable [OF wf], of dst]
      ring_wf_after_read [OF wf, of "min (length dst) (byte_count s)"] by fastforce
qed

lemma ring_wf_new: "0 < capacity \<Longrightarrow> ring_wf (new_ring capacity)"
  by (simp add: new_ring_def ring_wf_def ring_readable_def)

lemma length_ring_buf_new [simp]: "length (ring_buf (new_ring capacity)) = capacity"
  by (simp add: new_ring_def)

lemma ring_contents_new [simp]: "ring_contents (new_ring capacity) = []"
  by (simp add: new_ring_def ring_contents_def)

section \<open>Resizing\<close>

lemma resize_ring_eq:
  assumes "ring_readable r" "byte_count r \<le> new_capacity"
  shows "resize_ring r new_capacity = Some (Inr (),
    r\<lparr>ring_buf := ring_contents r @ replicate (new_capacity - byte_count r) 0,
      read_pos := 0, write_pos := byte_count r\<rparr>)"
  using assms by (simp add: resize_ring_def read_from_eq)

lemma resized_contents:
  "ring_buf r' = ring_contents r @ z \<Longrightarrow> read_pos r' = 0 \<Longrightarrow> byte_count r' = byte_count r \<Longrightarrow>
   ring_contents r' = ring_contents r"
  by (rule nth_equalityI) (auto simp: ring_contents_def [of r'] nth_append)

section \<open>Rounding\<close>

lemma power_of_two_from_least:
  "p = 2 ^ a \<Longrightarrow> \<exists>k \<ge> a. power_of_two_from p n = 2 ^ k \<and> n \<le> 2 ^ k \<and> (a < k \<longrightarrow> 2 ^ (k - 1) < n)"
proof (induction p n arbitrary: a rule: power_of_two_from.induct)
  case (1 p n)
  show ?case
  proof (cases "n \<le> p")
    case True
    then show ?thesis
      using 1(2) by (subst power_of_two_from.simps) auto
  next
    case False
    then have "\<not> (n \<le> p \<or> p = 0)"
      using 1(2) by simp
    from 1(1) [OF this, of "Suc a"] obtain k where
      "k \<ge> Suc a" "power_of_two_from (2 * p) n = 2 ^ k" "n \<le> 2 ^ k" "Suc a < k \<longrightarrow> 2 ^ (k - 1) < n"
      using 1(2) by auto
    moreover have "power_of_two_from p n = power_of_two_from (2 * p) n"
      using False 1(2) by (subst power_of_two_from.simps) simp
    moreover have "2 ^ (k - 1) < n" if "k = Suc a"
      using that False 1(2) by simp
    ultimately show ?thesis
      by (intro exI [of _ k]) (cases "k = Suc a"; auto)
  qed
qed

lemma next_power_of_two_least:
  "\<exists>k. next_power_of_two n = 2 ^ k \<and> n \<le> 2 ^ k \<and> (0 < k \<longrightarrow> 2 ^ (k - 1) < n)"
  using power_of_two_from_least [of 1 0 n] unfolding next_power_of_two_def by auto

lemma next_power_of_two_le: "n \<le> 2 ^ j \<Longrightarrow> next_power_of_two n \<le> 2 ^ j"
proof -
  assume n: "n \<le> 2 ^ j"
  obtain k where k: "next_power_of_two n = 2 ^ k" "0 < k \<longrightarrow> 2 ^ (k - 1) < n"
    using next_power_of_two_least by blast
  show ?thesis
  proof (cases "k = 0")
    case False
    then have "2 ^ (k - 1) < n"
      using k(2) by simp
    then have "(2::nat) ^ (k - 1) < 2 ^ j"
      using n by (rule order.strict_trans2)
    then have "k - 1 < j"
      using power_less_imp_less_exp [of 2 "k - 1" j] by simp
    then show ?thesis
      using k(1) by (simp add: power_increasing)
  qed (use k in simp)
qed

lemma div_ceil_le_iff: "0 < b \<Longrightarrow> div_ceil a b \<le> c \<longleftrightarrow> a \<le> c * b"
proof -
  assume b: "0 < b"
  have "div_ceil a b \<le> c \<longleftrightarrow> (a + b - 1) div b < Suc c"
    by (auto simp: div_ceil_def)
  also have "\<dots> \<longleftrightarrow> a + b - 1 < Suc c * b"
    using b by (simp add: less_mult_imp_div_less div_less_iff_less_mult)
  also have "\<dots> \<longleftrightarrow> a \<le> c * b"
    using b by auto
  finally show ?thesis .
qed

section \<open>Properties\<close>

text \<open>Whatever sequence of reads and writes is made on a new pipe buffer, no call panics,
  and the bytes delivered followed by the bytes still buffered are exactly the bytes accepted:
  no byte is lost, duplicated or reordered, however often the positions wrap around, and no
  more than the capacity is ever buffered.\<close>

lemma pipe_ring_stream:
  assumes "0 < capacity"
  shows "\<exists>accepted delivered r.
    run_fifo write_to read_from (new_ring capacity) ops = Some (accepted, delivered, r) \<and>
    accepted = delivered @ ring_contents r \<and> length (ring_contents r) \<le> capacity"
proof -
  obtain acc del r where r: "run_fifo write_to read_from (new_ring capacity) ops = Some (acc, del, r)"
    "ring_wf r" "length (ring_buf r) = length (ring_buf (new_ring capacity))"
    "ring_contents (new_ring capacity) @ acc = del @ ring_contents r"
    using ring.run_stream [OF ring_wf_new [OF assms]] by blast
  then show ?thesis
    using ring.bounded [OF r(2)] by auto
qed

lemma pipe_ring_stream_witness:
  "\<exists>accepted delivered r.
    run_fifo write_to read_from (new_ring 4) [Ring_write [1, 2, 3], Ring_read 2, Ring_write [4, 5, 6]]
      = Some (accepted, delivered, r) \<and>
    accepted = delivered @ ring_contents r \<and> length (ring_contents r) \<le> 4"
  using pipe_ring_stream [of 4 "[Ring_write [1, 2, 3], Ring_read 2, Ring_write [4, 5, 6]]"] by simp

text \<open>\<open>resize\<close> of a readable buffer never panics.  It refuses with \<open>Busy\<close>, changing
  nothing, exactly when the unread bytes do not fit; otherwise the buffer has the requested
  capacity and the same unread bytes in the same order.  The buffer is again safe for both
  ends exactly when at least one byte stays free.\<close>

lemma pipe_resize_contents:
  assumes "ring_readable r" "0 < new_capacity"
  shows "(new_capacity < byte_count r \<and> resize_ring r new_capacity = Some (Inl Busy, r)) \<or>
    (byte_count r \<le> new_capacity \<and>
     (\<exists>r'. resize_ring r new_capacity = Some (Inr (), r') \<and> ring_readable r' \<and>
        length (ring_buf r') = new_capacity \<and> ring_contents r' = ring_contents r \<and>
        write_closed r' = write_closed r \<and> read_closed r' = read_closed r \<and>
        (ring_wf r' \<longleftrightarrow> byte_count r < new_capacity)))"
proof (cases "new_capacity < byte_count r")
  case True
  then show ?thesis
    by (simp add: resize_ring_def)
next
  case False
  let ?r = "r\<lparr>ring_buf := ring_contents r @ replicate (new_capacity - byte_count r) 0,
      read_pos := 0, write_pos := byte_count r\<rparr>"
  have "resize_ring r new_capacity = Some (Inr (), ?r)"
    using assms False by (simp add: resize_ring_eq)
  moreover have "ring_contents ?r = ring_contents r"
    by (rule resized_contents) simp_all
  moreover have "ring_readable ?r" "length (ring_buf ?r) = new_capacity"
    using False assms(2) by (simp_all add: ring_readable_def)
  moreover have "ring_wf ?r \<longleftrightarrow> byte_count r < new_capacity"
    using False assms(2) by (auto simp: ring_wf_def ring_readable_def le_less)
  ultimately show ?thesis
    using False by auto
qed

definition example_ring :: pipe_ring where
  "example_ring = \<lparr>ring_buf = [7, 8, 9, 6], read_pos = 3, write_pos = 1, byte_count = 2,
     write_closed = False, read_closed = False\<rparr>"

lemma pipe_resize_contents_witness:
  "\<exists>r'. resize_ring example_ring 3 = Some (Inr (), r') \<and> ring_readable r' \<and>
     length (ring_buf r') = 3 \<and> ring_contents r' = ring_contents example_ring \<and>
     write_closed r' = write_closed example_ring \<and> read_closed r' = read_closed example_ring \<and>
     (ring_wf r' \<longleftrightarrow> byte_count example_ring < 3)"
proof -
  have "ring_readable example_ring" "\<not> 3 < byte_count example_ring"
    by (simp_all add: example_ring_def ring_readable_def)
  then show ?thesis
    using pipe_resize_contents [of example_ring 3] by simp
qed

text \<open>A defect of \<open>resize\<close>.  When the new capacity equals the number of unread bytes,
  \<open>write_pos\<close> is left at the capacity instead of wrapping to the front.  After a reader has
  then taken any number of bytes, the next write of a non-empty slice indexes the buffer out
  of bounds and panics.\<close>

lemma pipe_resize_exact_panics:
  assumes "ring_readable r" "0 < byte_count r" "0 < length dst" "0 < length src"
    and "resize_ring r (byte_count r) = Some (Inr (), r1)"
    and "read_from r1 dst = Some (n, dst', r2)"
  shows "0 < n \<and> write_to r2 src = None"
proof -
  have r1: "r1 = r\<lparr>ring_buf := ring_contents r, read_pos := 0, write_pos := byte_count r\<rparr>"
    using assms(5) resize_ring_eq [OF assms(1), of "byte_count r"] by simp
  have "ring_readable r1"
    using assms(2) by (simp add: r1 ring_readable_def)
  from ring_get [OF this, of dst] have
    "n = min (length dst) (byte_count r1)" "length (ring_buf r2) = length (ring_buf r1)"
    "write_pos r2 = write_pos r1" "byte_count r2 = byte_count r1 - min (length dst) (byte_count r1)"
    using assms(6) by auto
  then have n: "0 < n" "write_pos r2 = length (ring_buf r2)" "0 < ring_remaining r2"
    using assms(2,3) by (auto simp: r1 ring_remaining_def)
  then obtain x xs where "take (min (length src) (ring_remaining r2)) src = x # xs"
    using assms(4) by (cases "take (min (length src) (ring_remaining r2)) src") (auto simp: min_def split: if_splits)
  then show ?thesis
    using n by (simp add: write_to_def)
qed

lemma pipe_resize_exact_panics_witness:
  "\<exists>r1 n dst' r2. resize_ring example_ring 2 = Some (Inr (), r1) \<and>
     read_from r1 [0] = Some (n, dst', r2) \<and> 0 < n \<and> write_to r2 [5] = None"
proof -
  have r: "ring_readable example_ring" "byte_count example_ring = 2"
    by (simp_all add: example_ring_def ring_readable_def)
  define r1 where "r1 = example_ring\<lparr>ring_buf := ring_contents example_ring, read_pos := 0,
    write_pos := 2\<rparr>"
  have r1: "resize_ring example_ring 2 = Some (Inr (), r1)"
    using resize_ring_eq [OF r(1), of 2] r(2) by (simp add: r1_def)
  have "ring_readable r1"
    using r(2) by (simp add: r1_def ring_readable_def)
  then obtain n dst' r2 where r2: "read_from r1 [0] = Some (n, dst', r2)"
    using ring_get by blast
  then have "0 < n \<and> write_to r2 [5] = None"
    using pipe_resize_exact_panics [of example_ring "[0]" "[5]" r1 n dst' r2] r r1 by simp
  then show ?thesis
    using r1 r2 by blast
qed

text \<open>\<open>round_pipe_size\<close> yields the smallest power-of-two number of pages that holds the
  request clamped to one mebibyte, so a granted request is never smaller than asked for and
  every size within \<open>PIPE_MIN_SIZE\<close> and \<open>PIPE_MAX_SIZE\<close>.\<close>

lemma round_pipe_size_least:
  "\<exists>k \<le> 8. round_pipe_size n = PIPE_MIN_SIZE * 2 ^ k \<and> min n PIPE_MAX_SIZE \<le> round_pipe_size n \<and>
     (\<forall>j. min n PIPE_MAX_SIZE \<le> PIPE_MIN_SIZE * 2 ^ j \<longrightarrow> round_pipe_size n \<le> PIPE_MIN_SIZE * 2 ^ j)"
proof -
  define c where "c = max PIPE_MIN_SIZE (min PIPE_MAX_SIZE n)"
  define pages where "pages = div_ceil c PIPE_MIN_SIZE"
  have c: "c \<le> 256 * PIPE_MIN_SIZE" "min n PIPE_MAX_SIZE \<le> c"
    by (auto simp: c_def PIPE_MIN_SIZE_def PIPE_MAX_SIZE_def)
  have "pages \<le> 2 ^ 8"
    using c div_ceil_le_iff [of PIPE_MIN_SIZE c 256] by (simp add: pages_def PIPE_MIN_SIZE_def)
  then have le: "next_power_of_two pages \<le> 2 ^ 8"
    by (rule next_power_of_two_le)
  obtain k where k: "next_power_of_two pages = 2 ^ k" "pages \<le> 2 ^ k"
    using next_power_of_two_least by blast
  have k8: "k \<le> 8"
    using le unfolding k(1) by (rule power_le_imp_le_exp [rotated]) simp
  have eq: "round_pipe_size n = PIPE_MIN_SIZE * 2 ^ k"
  proof -
    define q where "q = next_power_of_two pages"
    have q: "1 \<le> q" "q \<le> 256"
      using le k(1) by (simp_all add: q_def)
    have "round_pipe_size n = max (min (saturating_mul q PIPE_MIN_SIZE) PIPE_MAX_SIZE) PIPE_MIN_SIZE"
      by (simp add: round_pipe_size_def Let_def c_def pages_def q_def)
    also have "\<dots> = q * PIPE_MIN_SIZE"
      using q by (simp add: saturating_mul_def PIPE_MIN_SIZE_def PIPE_MAX_SIZE_def)
    finally show ?thesis
      using k(1) by (simp add: q_def)
  qed
  have "c \<le> PIPE_MIN_SIZE * 2 ^ k"
    using k(2) div_ceil_le_iff [of PIPE_MIN_SIZE c "2 ^ k"]
    by (simp add: pages_def PIPE_MIN_SIZE_def mult.commute)
  moreover have "2 ^ k \<le> (2 :: nat) ^ j" if "min n PIPE_MAX_SIZE \<le> PIPE_MIN_SIZE * 2 ^ j" for j
  proof -
    have "c \<le> 2 ^ j * PIPE_MIN_SIZE"
      using that by (auto simp: c_def mult.commute min.commute)
    then have "pages \<le> 2 ^ j"
      using div_ceil_le_iff [of PIPE_MIN_SIZE c "2 ^ j"] by (simp add: pages_def PIPE_MIN_SIZE_def)
    then show ?thesis
      using next_power_of_two_le k(1) by metis
  qed
  ultimately show ?thesis
    using k8 eq c(2) by (intro exI [of _ k]) auto
qed

lemma round_pipe_size_least_witness: "round_pipe_size 9000 \<le> 16384 \<and> 9000 \<le> round_pipe_size 9000"
proof -
  have "min 9000 PIPE_MAX_SIZE = 9000" "9000 \<le> PIPE_MIN_SIZE * 2 ^ 2" "PIPE_MIN_SIZE * 2 ^ 2 = 16384"
    by (simp_all add: PIPE_MIN_SIZE_def PIPE_MAX_SIZE_def)
  then show ?thesis
    using round_pipe_size_least [of 9000] by metis
qed

end
