(* ===== verification/Wait_Queue.thy ===== *)
theory Wait_Queue
  imports Kernel_Prelude
begin

text \<open>
  The wait queue every blocking primitive of the kernel is built on
  (\<open>src/kernel/process/wait/queue.rs\<close>): the queue of parked threads, the pruning of
  stale entries, and the selection of the threads to wake.  Whether an entry is stale
  depends on the state of the thread and of its process, which the caller supplies as
  the predicate \<open>active\<close> (\<open>is_active_waiter\<close>); \<open>'id\<close> is the identity of a thread.
\<close>

definition remove_waiters_by_identity :: "'id list \<Rightarrow> 'id \<Rightarrow> nat \<times> 'id list" where
  "remove_waiters_by_identity waiters identity =
     (let kept = filter (\<lambda>t. t \<noteq> identity) waiters in (length waiters - length kept, kept))"

definition prune_stale_waiters :: "('id \<Rightarrow> bool) \<Rightarrow> 'id list \<Rightarrow> 'id list" where
  "prune_stale_waiters active waiters = filter active waiters"

fun take_next_waiter ::
  "('id \<Rightarrow> bool) \<Rightarrow> 'id list \<Rightarrow> 'id option \<times> 'id list" where
  "take_next_waiter active [] = (None, [])"
| "take_next_waiter active (t # ts) =
     (if active t then (Some t, ts) else take_next_waiter active ts)"

text \<open>\<open>wake_with\<close> prunes the queue and lets \<open>select\<close> move threads from the queue to the list of
  threads to wake, which the scheduler then wakes one by one.\<close>

definition wake_with ::
  "('id \<Rightarrow> bool) \<Rightarrow> ('t \<Rightarrow> 'id list \<Rightarrow> 't \<times> 'id list \<times> 'id list) \<Rightarrow>
   't \<Rightarrow> 'id list \<Rightarrow> 't \<times> 'id list \<times> 'id list" where
  "wake_with active select st waiters = select st (prune_stale_waiters active waiters)"

definition wake_one ::
  "('id \<Rightarrow> bool) \<Rightarrow> 'id list \<Rightarrow> 'id list \<times> 'id list" where
  "wake_one active waiters =
     snd (wake_with active
       (\<lambda>_ ws. case take_next_waiter active ws of
                 (Some t, ws') \<Rightarrow> ((), ws', [t])
               | (None, ws') \<Rightarrow> ((), ws', [])) () waiters)"

definition wake_all ::
  "('id \<Rightarrow> bool) \<Rightarrow> 'id list \<Rightarrow> 'id list \<times> 'id list" where
  "wake_all active waiters =
     snd (wake_with active (\<lambda>_ ws. ((), [], prune_stale_waiters active ws)) () waiters)"

text \<open>The queue half of \<open>block_current_if\<close> when its closure queues the thread: prune, then
  append.\<close>

definition push_waiter :: "('id \<Rightarrow> bool) \<Rightarrow> 'id list \<Rightarrow> 'id \<Rightarrow> 'id list" where
  "push_waiter active waiters t = prune_stale_waiters active waiters @ [t]"

section \<open>Lemmas\<close>

lemma take_next_waiter_all_active:
  "\<forall>t \<in> set ws. active t \<Longrightarrow>
   take_next_waiter active ws = (case ws of [] \<Rightarrow> (None, []) | t # ts \<Rightarrow> (Some t, ts))"
  by (cases ws) auto

lemma take_next_waiter_filter:
  "take_next_waiter active ws =
     (case dropWhile (\<lambda>t. \<not> active t) ws of [] \<Rightarrow> (None, []) | t # ts \<Rightarrow> (Some t, ts))"
  by (induction ws) auto

lemma wake_one_eq:
  "wake_one active ws =
     (case filter active ws of [] \<Rightarrow> ([], []) | t # ts \<Rightarrow> (ts, [t]))"
proof -
  have "\<forall>t \<in> set (filter active ws). active t"
    by simp
  then show ?thesis
    unfolding wake_one_def wake_with_def prune_stale_waiters_def
    by (simp add: take_next_waiter_all_active split: list.split)
qed

lemma wake_all_eq: "wake_all active ws = ([], filter active ws)"
  by (simp add: wake_all_def wake_with_def prune_stale_waiters_def)

end
