(* ===== verification/Pipe_Channel.thy ===== *)
theory Pipe_Channel
  imports Pipe_Ring Wait_Queue
begin

text \<open>
  The two ends of a pipe (\<open>PipeReadEnd\<close>, \<open>PipeWriteEnd\<close> of \<open>src/kernel/ipc/pipe.rs\<close>) used by
  any number of threads on any number of processors, with the blocking of
  \<open>Condvar\<close> (\<open>src/kernel/process/wait/condvar.rs\<close>).  A critical section of the ring's mutex is
  one step.  \<open>Condvar::wait\<close> is two: it first releases the mutex and then queues the thread,
  and \<open>notify_one\<close> runs after the notifier has dropped the mutex.  The steps of one thread
  interleave freely with those of the others, which is what several processors allow; on
  one processor the thread between the two halves of \<open>wait\<close> has interrupts disabled, and
  nothing else runs.
\<close>

type_synonym thread_id = nat

section \<open>One critical section\<close>

text \<open>What one critical section does: the call waits on its condition variable, returns, or
  returns after notifying the other end.\<close>

datatype 'a attempt = Must_wait | Returned 'a | Notify_and_return 'a

text \<open>The body of \<open>PipeReadEnd::read\<close> with the mutex held: the loop condition, end of file, or
  the transfer.  The result carries the caller's buffer.\<close>

definition read_attempt ::
  "pipe_ring \<Rightarrow> u8 list \<Rightarrow> ((nat result \<times> u8 list) attempt \<times> pipe_ring) option" where
  "read_attempt r dst =
     (if ring_is_empty r \<and> \<not> write_closed r then Some (Must_wait, r)
      else if ring_is_empty r \<and> write_closed r then Some (Returned (Inr 0, dst), r)
      else case read_from r dst of
             None \<Rightarrow> None
           | Some (n, dst', r') \<Rightarrow> Some (Notify_and_return (Inr n, dst'), r'))"

definition read_end_read ::
  "bool \<Rightarrow> pipe_ring \<Rightarrow> u8 list \<Rightarrow> ((nat result \<times> u8 list) attempt \<times> pipe_ring) option" where
  "read_end_read nonblocking r dst =
     (if dst = [] then Some (Returned (Inr 0, dst), r)
      else if ring_is_empty r \<and> \<not> write_closed r \<and> nonblocking
      then Some (Returned (Inl Busy, dst), r)
      else read_attempt r dst)"

definition write_attempt ::
  "pipe_ring \<Rightarrow> u8 list \<Rightarrow> (nat result attempt \<times> pipe_ring) option" where
  "write_attempt r src =
     (if ring_is_full r \<and> \<not> read_closed r then Some (Must_wait, r)
      else if read_closed r then Some (Returned (Inl DeviceError), r)
      else case write_to r src of
             None \<Rightarrow> None
           | Some (n, r') \<Rightarrow> Some (Notify_and_return (Inr n), r'))"

definition write_end_write ::
  "bool \<Rightarrow> pipe_ring \<Rightarrow> u8 list \<Rightarrow> (nat result attempt \<times> pipe_ring) option" where
  "write_end_write nonblocking r src =
     (if src = [] then Some (Returned (Inr 0), r)
      else if ring_is_full r \<and> \<not> read_closed r \<and> nonblocking
      then Some (Returned (Inl Busy), r)
      else write_attempt r src)"

definition read_end_write :: "u8 list \<Rightarrow> nat result" where
  "read_end_write src = Inl PermissionDenied"

definition write_end_read :: "u8 list \<Rightarrow> nat result" where
  "write_end_read dst = Inl PermissionDenied"

definition read_end_size :: "pipe_ring \<Rightarrow> nat" where
  "read_end_size r = ring_available r"

definition write_end_size :: "pipe_ring \<Rightarrow> nat" where
  "write_end_size r = ring_remaining r"

definition pipe_capacity :: "pipe_ring \<Rightarrow> nat" where
  "pipe_capacity r = length (ring_buf r)"

text \<open>\<open>PipeChannel::resize\<close> asserts a positive capacity.\<close>

definition set_pipe_capacity :: "pipe_ring \<Rightarrow> nat \<Rightarrow> (unit result \<times> pipe_ring) option" where
  "set_pipe_capacity r capacity = (if 0 < capacity then resize_ring r capacity else None)"

section \<open>Threads\<close>

text \<open>Where a thread stands in its call.  \<open>Read_unlocked\<close> is inside \<open>Condvar::wait\<close>, past the
  release of the mutex and not yet queued; \<open>Read_parked\<close> is queued and blocked; \<open>Read_woken\<close> is
  about to take the mutex again; the \<open>Wake\<close> states still owe a notification.\<close>

datatype pipe_pc =
    Pc_idle
  | Read_unlocked "u8 list"
  | Read_parked "u8 list"
  | Read_woken "u8 list"
  | Wake_writer
  | Write_unlocked "u8 list"
  | Write_parked "u8 list"
  | Write_woken "u8 list"
  | Wake_reader
  | Wake_all_writers
  | Wake_all_readers

text \<open>\<open>accepted\<close> and \<open>delivered\<close> record the bytes that writes took and reads gave, in the order
  of the critical sections; no code reads them.\<close>

record pipe_channel =
  pipe_ring_of :: pipe_ring
  read_wait :: "thread_id list"
  write_wait :: "thread_id list"
  read_nonblocking :: bool
  write_nonblocking :: bool
  pipe_pcs :: "thread_id \<Rightarrow> pipe_pc"
  accepted :: "u8 list"
  delivered :: "u8 list"

definition pipe_channel_with_capacity :: "nat \<Rightarrow> pipe_channel option" where
  "pipe_channel_with_capacity capacity =
     (if 0 < capacity
      then Some \<lparr>pipe_ring_of = new_ring capacity, read_wait = [], write_wait = [],
        read_nonblocking = False, write_nonblocking = False, pipe_pcs = (\<lambda>_. Pc_idle),
        accepted = [], delivered = []\<rparr>
      else None)"

definition pipe_channel_default :: "pipe_channel option" where
  "pipe_channel_default = pipe_channel_with_capacity DEFAULT_PIPE_CAPACITY"

fun is_read_parked :: "pipe_pc \<Rightarrow> bool" where
  "is_read_parked (Read_parked dst) = True"
| "is_read_parked _ = False"

fun is_write_parked :: "pipe_pc \<Rightarrow> bool" where
  "is_write_parked (Write_parked src) = True"
| "is_write_parked _ = False"

text \<open>What waking makes of a parked thread (\<open>Scheduler::wake_thread\<close> returns it to the loop).\<close>

definition unpark :: "pipe_pc \<Rightarrow> pipe_pc" where
  "unpark pc =
     (case pc of Read_parked dst \<Rightarrow> Read_woken dst | Write_parked src \<Rightarrow> Write_woken src | _ \<Rightarrow> pc)"

definition wake_threads :: "thread_id list \<Rightarrow> (thread_id \<Rightarrow> pipe_pc) \<Rightarrow> thread_id \<Rightarrow> pipe_pc" where
  "wake_threads ts pcs t = (if t \<in> set ts then unpark (pcs t) else pcs t)"

text \<open>A thread's next move: a call on an end of the pipe, or the next section of the call it
  is in.\<close>

datatype pipe_action =
    Call_read "u8 list"
  | Call_write "u8 list"
  | Continue
  | Drop_read_end
  | Drop_write_end
  | Set_capacity nat
  | Set_read_nonblocking bool
  | Set_write_nonblocking bool

datatype pipe_outcome = Next pipe_channel | Panic | Not_enabled

definition given :: "nat result \<Rightarrow> u8 list \<Rightarrow> u8 list" where
  "given res bytes = (case res of Inl _ \<Rightarrow> [] | Inr n \<Rightarrow> take n bytes)"

definition after_read ::
  "pipe_channel \<Rightarrow> thread_id \<Rightarrow> u8 list \<Rightarrow>
   ((nat result \<times> u8 list) attempt \<times> pipe_ring) option \<Rightarrow> pipe_outcome" where
  "after_read c t dst res =
     (case res of
        None \<Rightarrow> Panic
      | Some (Must_wait, r) \<Rightarrow>
          Next (c\<lparr>pipe_ring_of := r, pipe_pcs := (pipe_pcs c)(t := Read_unlocked dst)\<rparr>)
      | Some (Returned (n, dst'), r) \<Rightarrow>
          Next (c\<lparr>pipe_ring_of := r, pipe_pcs := (pipe_pcs c)(t := Pc_idle),
                  delivered := delivered c @ given n dst'\<rparr>)
      | Some (Notify_and_return (n, dst'), r) \<Rightarrow>
          Next (c\<lparr>pipe_ring_of := r, pipe_pcs := (pipe_pcs c)(t := Wake_writer),
                  delivered := delivered c @ given n dst'\<rparr>))"

definition after_write ::
  "pipe_channel \<Rightarrow> thread_id \<Rightarrow> u8 list \<Rightarrow> (nat result attempt \<times> pipe_ring) option \<Rightarrow>
   pipe_outcome" where
  "after_write c t src res =
     (case res of
        None \<Rightarrow> Panic
      | Some (Must_wait, r) \<Rightarrow>
          Next (c\<lparr>pipe_ring_of := r, pipe_pcs := (pipe_pcs c)(t := Write_unlocked src)\<rparr>)
      | Some (Returned n, r) \<Rightarrow>
          Next (c\<lparr>pipe_ring_of := r, pipe_pcs := (pipe_pcs c)(t := Pc_idle),
                  accepted := accepted c @ given n src\<rparr>)
      | Some (Notify_and_return n, r) \<Rightarrow>
          Next (c\<lparr>pipe_ring_of := r, pipe_pcs := (pipe_pcs c)(t := Wake_reader),
                  accepted := accepted c @ given n src\<rparr>))"

text \<open>The next section of a call in progress.\<close>

definition pipe_continue :: "pipe_channel \<Rightarrow> thread_id \<Rightarrow> pipe_outcome" where
  "pipe_continue c t =
     (let pcs = pipe_pcs c;
          readers_active = (\<lambda>u. is_read_parked (pcs u));
          writers_active = (\<lambda>u. is_write_parked (pcs u))
      in case pcs t of
        Read_unlocked dst \<Rightarrow>
          Next (c\<lparr>read_wait := push_waiter readers_active (read_wait c) t,
                  pipe_pcs := pcs(t := Read_parked dst)\<rparr>)
      | Write_unlocked src \<Rightarrow>
          Next (c\<lparr>write_wait := push_waiter writers_active (write_wait c) t,
                  pipe_pcs := pcs(t := Write_parked src)\<rparr>)
      | Read_woken dst \<Rightarrow> after_read c t dst (read_attempt (pipe_ring_of c) dst)
      | Write_woken src \<Rightarrow> after_write c t src (write_attempt (pipe_ring_of c) src)
      | Wake_writer \<Rightarrow>
          (let (queue, woken) = wake_one writers_active (write_wait c)
           in Next (c\<lparr>write_wait := queue, pipe_pcs := (wake_threads woken pcs)(t := Pc_idle)\<rparr>))
      | Wake_reader \<Rightarrow>
          (let (queue, woken) = wake_one readers_active (read_wait c)
           in Next (c\<lparr>read_wait := queue, pipe_pcs := (wake_threads woken pcs)(t := Pc_idle)\<rparr>))
      | Wake_all_writers \<Rightarrow>
          (let (queue, woken) = wake_all writers_active (write_wait c)
           in Next (c\<lparr>write_wait := queue, pipe_pcs := (wake_threads woken pcs)(t := Pc_idle)\<rparr>))
      | Wake_all_readers \<Rightarrow>
          (let (queue, woken) = wake_all readers_active (read_wait c)
           in Next (c\<lparr>read_wait := queue, pipe_pcs := (wake_threads woken pcs)(t := Pc_idle)\<rparr>))
      | _ \<Rightarrow> Not_enabled)"

text \<open>One move of thread \<open>t\<close>.\<close>

definition pipe_exec :: "thread_id \<Rightarrow> pipe_action \<Rightarrow> pipe_channel \<Rightarrow> pipe_outcome" where
  "pipe_exec t act c =
     (case act of
        Continue \<Rightarrow> pipe_continue c t
      | _ \<Rightarrow>
          if pipe_pcs c t \<noteq> Pc_idle then Not_enabled
          else (case act of
              Call_read dst \<Rightarrow>
                after_read c t dst (read_end_read (read_nonblocking c) (pipe_ring_of c) dst)
            | Call_write src \<Rightarrow>
                after_write c t src (write_end_write (write_nonblocking c) (pipe_ring_of c) src)
            | Drop_read_end \<Rightarrow>
                Next (c\<lparr>pipe_ring_of := (pipe_ring_of c)\<lparr>read_closed := True\<rparr>,
                        pipe_pcs := (pipe_pcs c)(t := Wake_all_writers)\<rparr>)
            | Drop_write_end \<Rightarrow>
                Next (c\<lparr>pipe_ring_of := (pipe_ring_of c)\<lparr>write_closed := True\<rparr>,
                        pipe_pcs := (pipe_pcs c)(t := Wake_all_readers)\<rparr>)
            | Set_capacity n \<Rightarrow>
                (case set_pipe_capacity (pipe_ring_of c) n of
                   None \<Rightarrow> Panic
                 | Some (_, r) \<Rightarrow> Next (c\<lparr>pipe_ring_of := r\<rparr>))
            | Set_read_nonblocking b \<Rightarrow> Next (c\<lparr>read_nonblocking := b\<rparr>)
            | Set_write_nonblocking b \<Rightarrow> Next (c\<lparr>write_nonblocking := b\<rparr>)
            | Continue \<Rightarrow> Not_enabled))"

fun pipe_trace :: "pipe_channel \<Rightarrow> (thread_id \<times> pipe_action) list \<Rightarrow> pipe_outcome" where
  "pipe_trace c [] = Next c"
| "pipe_trace c ((t, act) # rest) =
     (case pipe_exec t act c of Next c' \<Rightarrow> pipe_trace c' rest | res \<Rightarrow> res)"

section \<open>Vocabulary of the specification\<close>

fun in_wait_window :: "pipe_pc \<Rightarrow> bool" where
  "in_wait_window (Read_unlocked dst) = True"
| "in_wait_window (Write_unlocked src) = True"
| "in_wait_window _ = False"

text \<open>The moves allowed by the schedule of one processor: nothing runs while another thread is
  between the two halves of \<open>Condvar::wait\<close>.\<close>

definition uniprocessor :: "pipe_channel \<Rightarrow> thread_id \<Rightarrow> pipe_action \<Rightarrow> bool" where
  "uniprocessor c t act \<longleftrightarrow> (\<forall>u. in_wait_window (pipe_pcs c u) \<longrightarrow> u = t)"

text \<open>One thread reads and another writes, and the capacity is fixed.\<close>

definition reader_and_writer :: "thread_id \<Rightarrow> thread_id \<Rightarrow> thread_id \<Rightarrow> pipe_action \<Rightarrow> bool" where
  "reader_and_writer rd wr t act =
     (case act of
        Continue \<Rightarrow> True
      | Call_read _ \<Rightarrow> t = rd
      | Drop_read_end \<Rightarrow> t = rd
      | Set_read_nonblocking _ \<Rightarrow> t = rd
      | Call_write _ \<Rightarrow> t = wr
      | Drop_write_end \<Rightarrow> t = wr
      | Set_write_nonblocking _ \<Rightarrow> t = wr
      | Set_capacity _ \<Rightarrow> False)"

inductive pipe_reaches ::
  "(pipe_channel \<Rightarrow> thread_id \<Rightarrow> pipe_action \<Rightarrow> bool) \<Rightarrow> nat \<Rightarrow> pipe_channel \<Rightarrow> bool"
  for allowed :: "pipe_channel \<Rightarrow> thread_id \<Rightarrow> pipe_action \<Rightarrow> bool" and capacity :: nat where
  start: "pipe_channel_with_capacity capacity = Some c \<Longrightarrow> pipe_reaches allowed capacity c"
| step: "pipe_reaches allowed capacity c \<Longrightarrow> allowed c t act \<Longrightarrow> pipe_exec t act c = Next c' \<Longrightarrow>
    pipe_reaches allowed capacity c'"

text \<open>The ring between any two steps: well formed, or left by an exact resize with \<open>write_pos\<close>
  one past the end, where every write of a byte panics.\<close>

definition ring_ok :: "pipe_ring \<Rightarrow> bool" where
  "ring_ok r \<longleftrightarrow> ring_wf r \<or> ring_readable r \<and> write_pos r = length (ring_buf r)"

definition stream_inv :: "pipe_channel \<Rightarrow> bool" where
  "stream_inv c \<longleftrightarrow> ring_ok (pipe_ring_of c) \<and>
     accepted c = delivered c @ ring_contents (pipe_ring_of c)"



section \<open>The byte stream\<close>

lemma ring_ok_readable: "ring_ok r \<Longrightarrow> ring_readable r"
  by (auto simp: ring_ok_def ring_wf_readable)

lemma ring_ok_closed [simp]:
  "ring_ok (r\<lparr>read_closed := b\<rparr>) = ring_ok r" "ring_ok (r\<lparr>write_closed := b\<rparr>) = ring_ok r"
  "ring_contents (r\<lparr>read_closed := b\<rparr>) = ring_contents r"
  "ring_contents (r\<lparr>write_closed := b\<rparr>) = ring_contents r"
  by (simp_all add: ring_ok_def ring_wf_def ring_readable_def ring_contents_def)

lemma read_from_ok:
  assumes "ring_ok r" "read_from r dst = Some (n, dst', r')"
  shows "ring_ok r' \<and> ring_contents r = take n dst' @ ring_contents r'"
proof -
  from ring_get [OF ring_ok_readable [OF assms(1)], of dst] assms(2) have r':
    "n = min (length dst) (byte_count r)"
    "dst' = take (length dst) (ring_contents r) @ drop (byte_count r) dst"
    "ring_readable r'" "length (ring_buf r') = length (ring_buf r)"
    "ring_contents r' = drop (length dst) (ring_contents r)" "write_pos r' = write_pos r"
    "byte_count r' = byte_count r - n" "read_pos r' = (read_pos r + n) mod length (ring_buf r)"
    by auto
  have "ring_ok r'"
    using assms(1) r' ring_wf_after_read [of r n r'] by (auto simp: ring_ok_def)
  moreover have "take n dst' = take (length dst) (ring_contents r)"
    using r'(1,2) by (simp add: min_def)
  ultimately show ?thesis
    by (simp add: r'(5))
qed

lemma write_to_ok:
  assumes "ring_ok r" "write_to r src = Some (n, r')"
  shows "ring_ok r' \<and> ring_contents r' = ring_contents r @ take n src"
proof (cases "ring_wf r")
  case True
  from ring_put [OF this, of src] assms(2) show ?thesis
    by (auto simp: ring_ok_def min_def)
next
  case False
  then have w: "write_pos r = length (ring_buf r)" "ring_readable r"
    using assms(1) by (auto simp: ring_ok_def)
  then have "min (length src) (ring_remaining r) = 0"
    using assms(2) by (cases "take (min (length src) (ring_remaining r)) src")
      (auto simp: write_to_def min_def split: if_splits)
  then have "n = 0 \<and> r' = r"
    using assms(2) by (auto simp: write_to_def)
  then show ?thesis
    using assms(1) by simp
qed

lemma resize_ok:
  assumes "ring_ok r" "set_pipe_capacity r n = Some (res, r')"
  shows "ring_ok r' \<and> ring_contents r' = ring_contents r"
proof (cases "n < byte_count r")
  case True
  then show ?thesis
    using assms by (auto simp: set_pipe_capacity_def resize_ring_def split: if_splits)
next
  case False
  then have r': "r' = r\<lparr>ring_buf := ring_contents r @ replicate (n - byte_count r) 0,
      read_pos := 0, write_pos := byte_count r\<rparr>" and n: "0 < n"
    using assms resize_ring_eq [OF ring_ok_readable [OF assms(1)], of n]
    by (auto simp: set_pipe_capacity_def split: if_splits)
  have "ring_contents r' = ring_contents r"
    by (rule resized_contents) (simp_all add: r')
  then show ?thesis
    using False n by (auto simp: ring_ok_def ring_wf_def ring_readable_def r' le_less)
qed

lemma read_attempt_ok:
  assumes "ring_ok r" "read_attempt r dst = Some (a, r')"
  shows "ring_ok r' \<and> (case a of Must_wait \<Rightarrow> r' = r
    | Returned (n, dst') \<Rightarrow> r' = r \<and> given n dst' = []
    | Notify_and_return (n, dst') \<Rightarrow> ring_contents r = given n dst' @ ring_contents r')"
  using assms read_from_ok [OF assms(1), of dst]
  by (auto simp: read_attempt_def given_def split: if_splits option.splits)

lemma read_end_read_ok:
  assumes "ring_ok r" "read_end_read nb r dst = Some (a, r')"
  shows "ring_ok r' \<and> (case a of Must_wait \<Rightarrow> r' = r
    | Returned (n, dst') \<Rightarrow> r' = r \<and> given n dst' = []
    | Notify_and_return (n, dst') \<Rightarrow> ring_contents r = given n dst' @ ring_contents r')"
  using assms read_attempt_ok [OF assms(1)]
  by (auto simp: read_end_read_def given_def split: if_splits)

lemma write_attempt_ok:
  assumes "ring_ok r" "write_attempt r src = Some (a, r')"
  shows "ring_ok r' \<and> (case a of Must_wait \<Rightarrow> r' = r
    | Returned n \<Rightarrow> r' = r \<and> given n src = []
    | Notify_and_return n \<Rightarrow> ring_contents r' = ring_contents r @ given n src)"
  using assms write_to_ok [OF assms(1), of src]
  by (auto simp: write_attempt_def given_def split: if_splits option.splits)

lemma write_end_write_ok:
  assumes "ring_ok r" "write_end_write nb r src = Some (a, r')"
  shows "ring_ok r' \<and> (case a of Must_wait \<Rightarrow> r' = r
    | Returned n \<Rightarrow> r' = r \<and> given n src = []
    | Notify_and_return n \<Rightarrow> ring_contents r' = ring_contents r @ given n src)"
  using assms write_attempt_ok [OF assms(1)]
  by (auto simp: write_end_write_def given_def split: if_splits)

lemma after_read_stream:
  assumes "stream_inv c" "after_read c t dst res = Next c'"
    and "\<And>a r'. res = Some (a, r') \<Longrightarrow> ring_ok r' \<and> (case a of Must_wait \<Rightarrow> r' = pipe_ring_of c
      | Returned (n, dst') \<Rightarrow> r' = pipe_ring_of c \<and> given n dst' = []
      | Notify_and_return (n, dst') \<Rightarrow>
          ring_contents (pipe_ring_of c) = given n dst' @ ring_contents r')"
  shows "stream_inv c'"
  using assms by (auto simp: after_read_def stream_inv_def split: option.splits attempt.splits)

lemma after_write_stream:
  assumes "stream_inv c" "after_write c t src res = Next c'"
    and "\<And>a r'. res = Some (a, r') \<Longrightarrow> ring_ok r' \<and> (case a of Must_wait \<Rightarrow> r' = pipe_ring_of c
      | Returned n \<Rightarrow> r' = pipe_ring_of c \<and> given n src = []
      | Notify_and_return n \<Rightarrow> ring_contents r' = ring_contents (pipe_ring_of c) @ given n src)"
  shows "stream_inv c'"
  using assms by (auto simp: after_write_def stream_inv_def split: option.splits attempt.splits)

lemma stream_inv_ring_ok: "stream_inv c \<Longrightarrow> ring_ok (pipe_ring_of c)"
  by (simp add: stream_inv_def)

lemma stream_inv_cong:
  "stream_inv c \<Longrightarrow> pipe_ring_of c' = pipe_ring_of c \<Longrightarrow> accepted c' = accepted c \<Longrightarrow>
   delivered c' = delivered c \<Longrightarrow> stream_inv c'"
  by (simp add: stream_inv_def)

lemma pipe_continue_stream:
  assumes "stream_inv c" "pipe_continue c t = Next c'"
  shows "stream_inv c'"
proof (cases "pipe_pcs c t")
  case (Read_woken dst)
  then show ?thesis
    using assms after_read_stream [OF assms(1) _ read_attempt_ok [OF stream_inv_ring_ok [OF assms(1)]]]
    by (simp add: pipe_continue_def)
next
  case (Write_woken src)
  then show ?thesis
    using assms after_write_stream [OF assms(1) _ write_attempt_ok [OF stream_inv_ring_ok [OF assms(1)]]]
    by (simp add: pipe_continue_def)
qed (use assms in \<open>auto simp: pipe_continue_def Let_def stream_inv_def split: prod.splits\<close>)

lemma pipe_exec_stream:
  assumes "stream_inv c" "pipe_exec t act c = Next c'"
  shows "stream_inv c'"
proof (cases act)
  case Continue
  then show ?thesis
    using assms pipe_continue_stream by (simp add: pipe_exec_def)
next
  case (Call_read dst)
  then show ?thesis
    using assms after_read_stream [OF assms(1) _ read_end_read_ok [OF stream_inv_ring_ok [OF assms(1)]]]
    by (simp add: pipe_exec_def split: if_splits)
next
  case (Call_write src)
  then show ?thesis
    using assms after_write_stream [OF assms(1) _ write_end_write_ok [OF stream_inv_ring_ok [OF assms(1)]]]
    by (simp add: pipe_exec_def split: if_splits)
next
  case (Set_capacity n)
  then show ?thesis
    using assms resize_ok [OF stream_inv_ring_ok [OF assms(1)]]
    by (auto simp: pipe_exec_def stream_inv_def split: if_splits option.splits)
qed (use assms in \<open>auto simp: pipe_exec_def stream_inv_def split: if_splits\<close>)

lemma pipe_reaches_stream: "pipe_reaches allowed capacity c \<Longrightarrow> stream_inv c"
proof (induction rule: pipe_reaches.induct)
  case (start c)
  then show ?case
    using ring_wf_new
    by (auto simp: pipe_channel_with_capacity_def stream_inv_def ring_ok_def split: if_splits)
next
  case (step c t act c')
  then show ?case
    using pipe_exec_stream by blast
qed

section \<open>Wake-ups on one processor\<close>

fun reader_pc :: "pipe_pc \<Rightarrow> bool" where
  "reader_pc Pc_idle = True"
| "reader_pc (Read_unlocked dst) = True"
| "reader_pc (Read_parked dst) = True"
| "reader_pc (Read_woken dst) = True"
| "reader_pc Wake_writer = True"
| "reader_pc Wake_all_writers = True"
| "reader_pc _ = False"

fun writer_pc :: "pipe_pc \<Rightarrow> bool" where
  "writer_pc Pc_idle = True"
| "writer_pc (Write_unlocked src) = True"
| "writer_pc (Write_parked src) = True"
| "writer_pc (Write_woken src) = True"
| "writer_pc Wake_reader = True"
| "writer_pc Wake_all_readers = True"
| "writer_pc _ = False"

text \<open>No end sleeps while the ring could serve it, unless the other end still owes it a
  notification.\<close>

definition reader_cause :: "pipe_channel \<Rightarrow> bool" where
  "reader_cause c \<longleftrightarrow> ring_is_empty (pipe_ring_of c) \<and> \<not> write_closed (pipe_ring_of c)"

definition writer_cause :: "pipe_channel \<Rightarrow> bool" where
  "writer_cause c \<longleftrightarrow> ring_is_full (pipe_ring_of c) \<and> \<not> read_closed (pipe_ring_of c)"

definition wake_inv :: "thread_id \<Rightarrow> thread_id \<Rightarrow> pipe_channel \<Rightarrow> bool" where
  "wake_inv rd wr c \<longleftrightarrow>
     (\<forall>t. t \<noteq> rd \<and> t \<noteq> wr \<longrightarrow> pipe_pcs c t = Pc_idle) \<and>
     reader_pc (pipe_pcs c rd) \<and> writer_pc (pipe_pcs c wr) \<and>
     ring_wf (pipe_ring_of c) \<and>
     read_wait c = (if is_read_parked (pipe_pcs c rd) then [rd] else []) \<and>
     write_wait c = (if is_write_parked (pipe_pcs c wr) then [wr] else []) \<and>
     (is_read_parked (pipe_pcs c rd) \<longrightarrow>
        reader_cause c \<or> pipe_pcs c wr = Wake_reader \<or> pipe_pcs c wr = Wake_all_readers) \<and>
     (in_wait_window (pipe_pcs c rd) \<longrightarrow> reader_cause c) \<and>
     (is_write_parked (pipe_pcs c wr) \<longrightarrow>
        writer_cause c \<or> pipe_pcs c rd = Wake_writer \<or> pipe_pcs c rd = Wake_all_writers) \<and>
     (in_wait_window (pipe_pcs c wr) \<longrightarrow> writer_cause c)"

lemma read_attempt_wait:
  assumes "ring_wf r" "read_attempt r dst = Some (a, r')"
  shows "ring_wf r' \<and>
    (a = Must_wait \<longrightarrow> r' = r \<and> ring_is_empty r \<and> \<not> write_closed r) \<and>
    (\<forall>x. a = Returned x \<longrightarrow> r' = r)"
  using assms ring_get [OF ring_wf_readable [OF assms(1)], of dst]
    ring_wf_after_read [OF assms(1), of "min (length dst) (byte_count r)" r']
  by (auto simp: read_attempt_def split: if_splits option.splits)

lemma read_end_read_wait:
  assumes "ring_wf r" "read_end_read nb r dst = Some (a, r')"
  shows "ring_wf r' \<and>
    (a = Must_wait \<longrightarrow> r' = r \<and> ring_is_empty r \<and> \<not> write_closed r) \<and>
    (\<forall>x. a = Returned x \<longrightarrow> r' = r)"
  using assms read_attempt_wait [OF assms(1)] by (auto simp: read_end_read_def split: if_splits)

lemma write_attempt_wait:
  assumes "ring_wf r" "write_attempt r src = Some (a, r')"
  shows "ring_wf r' \<and>
    (a = Must_wait \<longrightarrow> r' = r \<and> ring_is_full r \<and> \<not> read_closed r) \<and>
    (\<forall>x. a = Returned x \<longrightarrow> r' = r)"
  using assms ring_put [OF assms(1), of src]
  by (auto simp: write_attempt_def split: if_splits option.splits)

lemma write_end_write_wait:
  assumes "ring_wf r" "write_end_write nb r src = Some (a, r')"
  shows "ring_wf r' \<and>
    (a = Must_wait \<longrightarrow> r' = r \<and> ring_is_full r \<and> \<not> read_closed r) \<and>
    (\<forall>x. a = Returned x \<longrightarrow> r' = r)"
  using assms write_attempt_wait [OF assms(1)] by (auto simp: write_end_write_def split: if_splits)

lemma wake_inv_reader_move:
  assumes inv: "wake_inv rd wr c" and ne: "rd \<noteq> wr"
    and old: "\<not> is_read_parked (pipe_pcs c rd)" "\<not> in_wait_window (pipe_pcs c wr)"
    and pcs: "pipe_pcs c' = (pipe_pcs c)(rd := pc)"
    and pc: "reader_pc pc" "\<not> is_read_parked pc" "in_wait_window pc \<longrightarrow> reader_cause c'"
    and queues: "read_wait c' = read_wait c" "write_wait c' = write_wait c"
    and ring: "ring_wf (pipe_ring_of c')"
    and owed: "pc = Wake_writer \<or> pc = Wake_all_writers \<or>
      pipe_ring_of c' = pipe_ring_of c \<and> pipe_pcs c rd \<noteq> Wake_writer \<and>
        pipe_pcs c rd \<noteq> Wake_all_writers"
  shows "wake_inv rd wr c'"
proof -
  note i = inv [unfolded wake_inv_def]
  have "writer_cause c' \<or> pc = Wake_writer \<or> pc = Wake_all_writers" if "is_write_parked (pipe_pcs c wr)"
    using i owed that unfolding writer_cause_def by metis
  then show ?thesis
    unfolding wake_inv_def pcs using i ne old pc queues ring by simp
qed

lemma wake_inv_writer_move:
  assumes inv: "wake_inv rd wr c" and ne: "rd \<noteq> wr"
    and old: "\<not> is_write_parked (pipe_pcs c wr)" "\<not> in_wait_window (pipe_pcs c rd)"
    and pcs: "pipe_pcs c' = (pipe_pcs c)(wr := pc)"
    and pc: "writer_pc pc" "\<not> is_write_parked pc" "in_wait_window pc \<longrightarrow> writer_cause c'"
    and queues: "read_wait c' = read_wait c" "write_wait c' = write_wait c"
    and ring: "ring_wf (pipe_ring_of c')"
    and owed: "pc = Wake_reader \<or> pc = Wake_all_readers \<or>
      pipe_ring_of c' = pipe_ring_of c \<and> pipe_pcs c wr \<noteq> Wake_reader \<and>
        pipe_pcs c wr \<noteq> Wake_all_readers"
  shows "wake_inv rd wr c'"
proof -
  note i = inv [unfolded wake_inv_def]
  have "reader_cause c' \<or> pc = Wake_reader \<or> pc = Wake_all_readers" if "is_read_parked (pipe_pcs c rd)"
    using i owed that unfolding reader_cause_def by metis
  then show ?thesis
    unfolding wake_inv_def pcs using i ne old pc queues ring by simp
qed

lemma after_read_wake:
  assumes "wake_inv rd wr c" "rd \<noteq> wr" "pipe_pcs c rd = Pc_idle \<or> pipe_pcs c rd = Read_woken dst"
    and "\<not> in_wait_window (pipe_pcs c wr)" "after_read c rd dst res = Next c'"
    and "\<And>a r'. res = Some (a, r') \<Longrightarrow> ring_wf r' \<and>
      (a = Must_wait \<longrightarrow> r' = pipe_ring_of c \<and> ring_is_empty (pipe_ring_of c) \<and>
        \<not> write_closed (pipe_ring_of c)) \<and>
      (\<forall>x. a = Returned x \<longrightarrow> r' = pipe_ring_of c)"
  shows "wake_inv rd wr c'"
proof -
  obtain a r' where res: "res = Some (a, r')"
    using assms(5) by (cases res) (auto simp: after_read_def)
  note r' = assms(6) [OF res]
  have old: "\<not> is_read_parked (pipe_pcs c rd)" "pipe_pcs c rd \<noteq> Wake_writer"
    "pipe_pcs c rd \<noteq> Wake_all_writers"
    using assms(3) by auto
  define pc where "pc = (case a of Must_wait \<Rightarrow> Read_unlocked dst | Returned _ \<Rightarrow> Pc_idle
    | Notify_and_return _ \<Rightarrow> Wake_writer)"
  have c': "pipe_pcs c' = (pipe_pcs c)(rd := pc)" "read_wait c' = read_wait c"
    "write_wait c' = write_wait c" "pipe_ring_of c' = r'"
    using assms(5) by (auto simp: res after_read_def pc_def split: attempt.splits prod.splits)
  show ?thesis
  proof (rule wake_inv_reader_move [OF assms(1,2) old(1) assms(4) c'(1) _ _ _ c'(2,3)])
    show "reader_pc pc" "\<not> is_read_parked pc"
      by (simp_all add: pc_def split: attempt.splits)
    show "in_wait_window pc \<longrightarrow> reader_cause c'" "ring_wf (pipe_ring_of c')"
      "pc = Wake_writer \<or> pc = Wake_all_writers \<or> pipe_ring_of c' = pipe_ring_of c \<and>
        pipe_pcs c rd \<noteq> Wake_writer \<and> pipe_pcs c rd \<noteq> Wake_all_writers"
      using r' old by (cases a; simp add: pc_def reader_cause_def c'(4))+
  qed
qed

lemma after_write_wake:
  assumes "wake_inv rd wr c" "rd \<noteq> wr" "pipe_pcs c wr = Pc_idle \<or> pipe_pcs c wr = Write_woken src"
    and "\<not> in_wait_window (pipe_pcs c rd)" "after_write c wr src res = Next c'"
    and "\<And>a r'. res = Some (a, r') \<Longrightarrow> ring_wf r' \<and>
      (a = Must_wait \<longrightarrow> r' = pipe_ring_of c \<and> ring_is_full (pipe_ring_of c) \<and>
        \<not> read_closed (pipe_ring_of c)) \<and>
      (\<forall>x. a = Returned x \<longrightarrow> r' = pipe_ring_of c)"
  shows "wake_inv rd wr c'"
proof -
  obtain a r' where res: "res = Some (a, r')"
    using assms(5) by (cases res) (auto simp: after_write_def)
  note r' = assms(6) [OF res]
  have old: "\<not> is_write_parked (pipe_pcs c wr)" "pipe_pcs c wr \<noteq> Wake_reader"
    "pipe_pcs c wr \<noteq> Wake_all_readers"
    using assms(3) by auto
  define pc where "pc = (case a of Must_wait \<Rightarrow> Write_unlocked src | Returned _ \<Rightarrow> Pc_idle
    | Notify_and_return _ \<Rightarrow> Wake_reader)"
  have c': "pipe_pcs c' = (pipe_pcs c)(wr := pc)" "read_wait c' = read_wait c"
    "write_wait c' = write_wait c" "pipe_ring_of c' = r'"
    using assms(5) by (auto simp: res after_write_def pc_def split: attempt.splits)
  show ?thesis
  proof (rule wake_inv_writer_move [OF assms(1,2) old(1) assms(4) c'(1) _ _ _ c'(2,3)])
    show "writer_pc pc" "\<not> is_write_parked pc"
      by (simp_all add: pc_def split: attempt.splits)
    show "in_wait_window pc \<longrightarrow> writer_cause c'" "ring_wf (pipe_ring_of c')"
      "pc = Wake_reader \<or> pc = Wake_all_readers \<or> pipe_ring_of c' = pipe_ring_of c \<and>
        pipe_pcs c wr \<noteq> Wake_reader \<and> pipe_pcs c wr \<noteq> Wake_all_readers"
      using r' old by (cases a; simp add: pc_def writer_cause_def c'(4))+
  qed
qed

lemma wake_inv_ring_wf: "wake_inv rd wr c \<Longrightarrow> ring_wf (pipe_ring_of c)"
  by (simp add: wake_inv_def)

lemma wake_threads_fold:
  "wake_threads [] pcs = pcs" "wake_threads [t] pcs = pcs(t := unpark (pcs t))"
  by (auto simp: wake_threads_def)

lemma not_parked_unpark:
  "\<not> is_write_parked pc \<Longrightarrow> writer_pc pc \<Longrightarrow> unpark pc = pc"
  "\<not> is_read_parked pc \<Longrightarrow> reader_pc pc \<Longrightarrow> unpark pc = pc"
  by (cases pc; simp add: unpark_def)+

lemma unpark_facts:
  "writer_pc pc \<Longrightarrow> writer_pc (unpark pc)" "reader_pc pc \<Longrightarrow> reader_pc (unpark pc)"
  "\<not> is_write_parked (unpark pc)" "\<not> is_read_parked (unpark pc)"
  "in_wait_window (unpark pc) = in_wait_window pc"
  "unpark pc = Wake_reader \<longleftrightarrow> pc = Wake_reader" "unpark pc = Wake_all_readers \<longleftrightarrow> pc = Wake_all_readers"
  "unpark pc = Wake_writer \<longleftrightarrow> pc = Wake_writer" "unpark pc = Wake_all_writers \<longleftrightarrow> pc = Wake_all_writers"
  by (cases pc; simp add: unpark_def)+

lemma writer_notified_wake:
  assumes "wake_inv rd wr c" "rd \<noteq> wr" "\<not> in_wait_window (pipe_pcs c wr)"
    and "pipe_pcs c rd = Wake_writer \<or> pipe_pcs c rd = Wake_all_writers"
  shows "wake_inv rd wr (c\<lparr>write_wait := [],
    pipe_pcs := (pipe_pcs c)(wr := unpark (pipe_pcs c wr), rd := Pc_idle)\<rparr>)"
proof -
  note i = assms(1) [unfolded wake_inv_def]
  have "\<not> is_read_parked (pipe_pcs c rd)"
    using assms(4) by auto
  then show ?thesis
    unfolding wake_inv_def using i assms(2,3) by (simp add: unpark_facts)
qed

lemma reader_notified_wake:
  assumes "wake_inv rd wr c" "rd \<noteq> wr" "\<not> in_wait_window (pipe_pcs c rd)"
    and "pipe_pcs c wr = Wake_reader \<or> pipe_pcs c wr = Wake_all_readers"
  shows "wake_inv rd wr (c\<lparr>read_wait := [],
    pipe_pcs := (pipe_pcs c)(rd := unpark (pipe_pcs c rd), wr := Pc_idle)\<rparr>)"
proof -
  note i = assms(1) [unfolded wake_inv_def]
  have "\<not> is_write_parked (pipe_pcs c wr)"
    using assms(4) by auto
  then show ?thesis
    unfolding wake_inv_def using i assms(2,3) by (simp add: unpark_facts)
qed

lemma reader_continue_wake:
  assumes "wake_inv rd wr c" "rd \<noteq> wr" "\<not> in_wait_window (pipe_pcs c wr)"
    and "pipe_continue c rd = Next c'"
  shows "wake_inv rd wr c'"
proof -
  note i = assms(1) [unfolded wake_inv_def]
  show ?thesis
  proof (cases "pipe_pcs c rd")
    case (Read_woken dst)
    then show ?thesis
      using after_read_wake [OF assms(1,2) _ assms(3) _ read_attempt_wait [OF wake_inv_ring_wf [OF assms(1)]]]
        assms(4) by (simp add: pipe_continue_def)
  next
    case (Read_unlocked dst)
    then have c': "c' = c\<lparr>read_wait := [rd], pipe_pcs := (pipe_pcs c)(rd := Read_parked dst)\<rparr>"
      using assms(4) i by (simp add: pipe_continue_def push_waiter_def prune_stale_waiters_def)
    have "reader_cause c"
      using i Read_unlocked by simp
    then show ?thesis
      unfolding wake_inv_def c' using i Read_unlocked assms(2,3)
      by (simp add: reader_cause_def writer_cause_def)
  next
    case Wake_writer
    then have "c' = c\<lparr>write_wait := [], pipe_pcs := (pipe_pcs c)(wr := unpark (pipe_pcs c wr), rd := Pc_idle)\<rparr>"
      using assms(2,4) i
      by (cases "is_write_parked (pipe_pcs c wr)")
        (auto simp: pipe_continue_def wake_one_eq Let_def wake_threads_fold fun_upd_twist not_parked_unpark)
    then show ?thesis
      using writer_notified_wake [OF assms(1,2,3)] Wake_writer by simp
  next
    case Wake_all_writers
    then have "c' = c\<lparr>write_wait := [], pipe_pcs := (pipe_pcs c)(wr := unpark (pipe_pcs c wr), rd := Pc_idle)\<rparr>"
      using assms(2,4) i
      by (cases "is_write_parked (pipe_pcs c wr)")
        (auto simp: pipe_continue_def wake_all_eq Let_def wake_threads_fold fun_upd_twist not_parked_unpark)
    then show ?thesis
      using writer_notified_wake [OF assms(1,2,3)] Wake_all_writers by simp
  qed (use i assms(4) in \<open>auto simp: pipe_continue_def\<close>)
qed

lemma writer_continue_wake:
  assumes "wake_inv rd wr c" "rd \<noteq> wr" "\<not> in_wait_window (pipe_pcs c rd)"
    and "pipe_continue c wr = Next c'"
  shows "wake_inv rd wr c'"
proof -
  note i = assms(1) [unfolded wake_inv_def]
  show ?thesis
  proof (cases "pipe_pcs c wr")
    case (Write_woken src)
    then show ?thesis
      using after_write_wake [OF assms(1,2) _ assms(3) _ write_attempt_wait [OF wake_inv_ring_wf [OF assms(1)]]]
        assms(4) by (simp add: pipe_continue_def)
  next
    case (Write_unlocked src)
    then have c': "c' = c\<lparr>write_wait := [wr], pipe_pcs := (pipe_pcs c)(wr := Write_parked src)\<rparr>"
      using assms(4) i by (simp add: pipe_continue_def push_waiter_def prune_stale_waiters_def)
    have "writer_cause c"
      using i Write_unlocked by simp
    then show ?thesis
      unfolding wake_inv_def c' using i Write_unlocked assms(2,3)
      by (simp add: reader_cause_def writer_cause_def)
  next
    case Wake_reader
    then have "c' = c\<lparr>read_wait := [], pipe_pcs := (pipe_pcs c)(rd := unpark (pipe_pcs c rd), wr := Pc_idle)\<rparr>"
      using assms(2,4) i
      by (cases "is_read_parked (pipe_pcs c rd)")
        (auto simp: pipe_continue_def wake_one_eq Let_def wake_threads_fold fun_upd_twist not_parked_unpark)
    then show ?thesis
      using reader_notified_wake [OF assms(1,2,3)] Wake_reader by simp
  next
    case Wake_all_readers
    then have "c' = c\<lparr>read_wait := [], pipe_pcs := (pipe_pcs c)(rd := unpark (pipe_pcs c rd), wr := Pc_idle)\<rparr>"
      using assms(2,4) i
      by (cases "is_read_parked (pipe_pcs c rd)")
        (auto simp: pipe_continue_def wake_all_eq Let_def wake_threads_fold fun_upd_twist not_parked_unpark)
    then show ?thesis
      using reader_notified_wake [OF assms(1,2,3)] Wake_all_readers by simp
  qed (use i assms(4) in \<open>auto simp: pipe_continue_def\<close>)
qed

lemma wake_inv_nonblocking [simp]:
  "wake_inv rd wr (c\<lparr>read_nonblocking := b\<rparr>) = wake_inv rd wr c"
  "wake_inv rd wr (c\<lparr>write_nonblocking := b\<rparr>) = wake_inv rd wr c"
  by (simp_all add: wake_inv_def reader_cause_def writer_cause_def)

lemma pipe_exec_wake:
  assumes inv: "wake_inv rd wr c" and ne: "rd \<noteq> wr"
    and sched: "uniprocessor c t act" "reader_and_writer rd wr t act"
    and exec: "pipe_exec t act c = Next c'"
  shows "wake_inv rd wr c'"
proof -
  note i = inv [unfolded wake_inv_def]
  have calm: "\<not> in_wait_window (pipe_pcs c u)" if "u \<noteq> t" for u
    using sched(1) that by (auto simp: uniprocessor_def)
  show ?thesis
  proof (cases act)
    case Continue
    then have cont: "pipe_continue c t = Next c'"
      using exec by (simp add: pipe_exec_def)
    then have "pipe_pcs c t \<noteq> Pc_idle"
      by (auto simp: pipe_continue_def)
    then consider "t = rd" | "t = wr"
      using i by blast
    then show ?thesis
      using reader_continue_wake [OF inv ne] writer_continue_wake [OF inv ne] cont calm ne
      by cases metis+
  next
    case (Call_read dst)
    then have t: "t = rd" "pipe_pcs c rd = Pc_idle"
      "after_read c rd dst (read_end_read (read_nonblocking c) (pipe_ring_of c) dst) = Next c'"
      using sched(2) exec by (auto simp: reader_and_writer_def pipe_exec_def split: if_splits)
    show ?thesis
      by (rule after_read_wake [OF inv ne _ _ t(3) read_end_read_wait [OF wake_inv_ring_wf [OF inv]]])
        (use t(1,2) calm ne in auto)
  next
    case (Call_write src)
    then have t: "t = wr" "pipe_pcs c wr = Pc_idle"
      "after_write c wr src (write_end_write (write_nonblocking c) (pipe_ring_of c) src) = Next c'"
      using sched(2) exec by (auto simp: reader_and_writer_def pipe_exec_def split: if_splits)
    show ?thesis
      by (rule after_write_wake [OF inv ne _ _ t(3) write_end_write_wait [OF wake_inv_ring_wf [OF inv]]])
        (use t(1,2) calm ne in auto)
  next
    case Drop_read_end
    then have t: "t = rd" "pipe_pcs c rd = Pc_idle"
      "c' = c\<lparr>pipe_ring_of := (pipe_ring_of c)\<lparr>read_closed := True\<rparr>,
              pipe_pcs := (pipe_pcs c)(rd := Wake_all_writers)\<rparr>"
      using sched(2) exec by (auto simp: reader_and_writer_def pipe_exec_def split: if_splits)
    show ?thesis
      by (rule wake_inv_reader_move [OF inv ne, where pc = Wake_all_writers])
        (use t calm ne wake_inv_ring_wf [OF inv] in \<open>auto simp: ring_wf_def ring_readable_def\<close>)
  next
    case Drop_write_end
    then have t: "t = wr" "pipe_pcs c wr = Pc_idle"
      "c' = c\<lparr>pipe_ring_of := (pipe_ring_of c)\<lparr>write_closed := True\<rparr>,
              pipe_pcs := (pipe_pcs c)(wr := Wake_all_readers)\<rparr>"
      using sched(2) exec by (auto simp: reader_and_writer_def pipe_exec_def split: if_splits)
    show ?thesis
      by (rule wake_inv_writer_move [OF inv ne, where pc = Wake_all_readers])
        (use t calm ne wake_inv_ring_wf [OF inv] in \<open>auto simp: ring_wf_def ring_readable_def\<close>)
  qed (use sched exec inv in \<open>auto simp: pipe_exec_def reader_and_writer_def split: if_splits\<close>)
qed

text \<open>One reader and one writer on one processor.\<close>

definition spsc :: "thread_id \<Rightarrow> thread_id \<Rightarrow> pipe_channel \<Rightarrow> thread_id \<Rightarrow> pipe_action \<Rightarrow> bool" where
  "spsc rd wr c t act \<longleftrightarrow> uniprocessor c t act \<and> reader_and_writer rd wr t act"

lemma pipe_reaches_wake:
  "pipe_reaches (spsc rd wr) capacity c \<Longrightarrow> rd \<noteq> wr \<Longrightarrow> wake_inv rd wr c"
proof (induction rule: pipe_reaches.induct)
  case (start c)
  then show ?case
    using ring_wf_new by (auto simp: pipe_channel_with_capacity_def wake_inv_def split: if_splits)
next
  case (step c t act c')
  then show ?case
    using pipe_exec_wake [of rd wr c t act c'] by (auto simp: spsc_def)
qed

section \<open>Concrete schedules\<close>

fun trace_allowed ::
  "(pipe_channel \<Rightarrow> thread_id \<Rightarrow> pipe_action \<Rightarrow> bool) \<Rightarrow> pipe_channel \<Rightarrow>
   (thread_id \<times> pipe_action) list \<Rightarrow> bool" where
  "trace_allowed allowed c [] = True"
| "trace_allowed allowed c ((t, act) # rest) =
     (allowed c t act \<and>
      (case pipe_exec t act c of Next c' \<Rightarrow> trace_allowed allowed c' rest | _ \<Rightarrow> True))"

lemma pipe_trace_reaches:
  "pipe_reaches allowed capacity c \<Longrightarrow> trace_allowed allowed c tr \<Longrightarrow> pipe_trace c tr = Next c' \<Longrightarrow>
   pipe_reaches allowed capacity c'"
proof (induction allowed c tr rule: trace_allowed.induct)
  case (2 allowed c t act rest)
  then obtain c1 where c1: "pipe_exec t act c = Next c1"
    by (auto split: pipe_outcome.splits)
  then have "pipe_reaches allowed capacity c1"
    using 2 pipe_reaches.step by auto
  then show ?case
    using 2 c1 by simp
qed simp

definition small_pipe :: pipe_channel where
  "small_pipe = \<lparr>pipe_ring_of = new_ring 2, read_wait = [], write_wait = [],
     read_nonblocking = False, write_nonblocking = False, pipe_pcs = (\<lambda>_. Pc_idle),
     accepted = [], delivered = []\<rparr>"

lemma small_pipe_reached: "pipe_reaches allowed 2 small_pipe"
  by (rule pipe_reaches.start) (simp add: pipe_channel_with_capacity_def small_pipe_def)

lemmas pipe_eval = pipe_exec_def pipe_continue_def after_read_def after_write_def
  read_end_read_def read_attempt_def write_end_write_def write_attempt_def
  ring_is_empty_def ring_is_full_def read_from_def write_to_def ring_remaining_def
  given_def wake_one_eq wake_all_eq wake_threads_def unpark_def push_waiter_def
  prune_stale_waiters_def new_ring_def small_pipe_def Let_def set_pipe_capacity_def
  resize_ring_def numeral_2_eq_2

text \<open>The reader (thread 0) finds the pipe empty and releases the mutex; before it is queued,
  the writer (thread 1) writes a byte and notifies nobody.\<close>

definition lost_wakeup_schedule :: "(thread_id \<times> pipe_action) list" where
  "lost_wakeup_schedule =
     [(0, Call_read [0]), (1, Call_write [7]), (1, Continue), (0, Continue)]"

text \<open>The writer fills the pipe and blocks; the pipe is then enlarged.\<close>

definition resize_schedule :: "(thread_id \<times> pipe_action) list" where
  "resize_schedule =
     [(1, Call_write [1, 2]), (1, Continue), (1, Call_write [3]), (1, Continue), (0, Set_capacity 4)]"

lemma lost_wakeup_run:
  "\<exists>c. pipe_trace small_pipe lost_wakeup_schedule = Next c \<and> pipe_pcs c 0 = Read_parked [0] \<and>
     (\<forall>t. t \<noteq> 0 \<longrightarrow> pipe_pcs c t = Pc_idle) \<and> ring_contents (pipe_ring_of c) = [7]"
  by (simp add: lost_wakeup_schedule_def pipe_eval ring_contents_def)

lemma resize_run:
  "\<exists>c. pipe_trace small_pipe resize_schedule = Next c \<and> pipe_pcs c 1 = Write_parked [3] \<and>
     (\<forall>t. t \<noteq> 1 \<longrightarrow> pipe_pcs c t = Pc_idle) \<and> ring_remaining (pipe_ring_of c) = 2"
  by (simp add: resize_schedule_def pipe_eval)

lemma handover_run:
  "\<exists>c. pipe_trace small_pipe
      [(0, Call_read [0]), (0, Continue), (1, Call_write [7])] = Next c \<and>
    trace_allowed (spsc 0 1) small_pipe
      [(0, Call_read [0]), (0, Continue), (1, Call_write [7])] \<and>
    pipe_pcs c 0 = Read_parked [0] \<and> pipe_pcs c 1 = Wake_reader \<and> \<not> ring_is_empty (pipe_ring_of c)"
  by (simp add: pipe_eval spsc_def uniprocessor_def reader_and_writer_def)






section \<open>Properties\<close>

text \<open>C14: whatever threads use the two ends, on however many processors, and however their
  critical sections, resizes, closes and wake-ups interleave, the bytes the reads delivered
  followed by the unread bytes are exactly the bytes the writes accepted, in order, and the
  unread bytes fit the capacity.\<close>

theorem pipe_stream_interleaved:
  assumes "pipe_reaches allowed capacity c"
  shows "accepted c = delivered c @ ring_contents (pipe_ring_of c) \<and>
    length (ring_contents (pipe_ring_of c)) \<le> pipe_capacity (pipe_ring_of c)"
  using pipe_reaches_stream [OF assms] ring_ok_readable
  by (auto simp: stream_inv_def ring_readable_def pipe_capacity_def)

theorem pipe_stream_interleaved_witness:
  "\<exists>c. pipe_trace small_pipe lost_wakeup_schedule = Next c \<and>
     accepted c = delivered c @ ring_contents (pipe_ring_of c) \<and>
     length (ring_contents (pipe_ring_of c)) \<le> pipe_capacity (pipe_ring_of c)"
proof -
  obtain c where c: "pipe_trace small_pipe lost_wakeup_schedule = Next c"
    using lost_wakeup_run by blast
  have "trace_allowed (\<lambda>_ _ _. True) d tr" for d tr
    by (induction "\<lambda>(_ :: pipe_channel) (_ :: thread_id) (_ :: pipe_action). True" d tr
        rule: trace_allowed.induct) (auto split: pipe_outcome.splits)
  then have "pipe_reaches (\<lambda>_ _ _. True) 2 c"
    using pipe_trace_reaches [OF small_pipe_reached _ c] by blast
  then show ?thesis
    using c pipe_stream_interleaved by blast
qed

text \<open>C16: with one reader and one writer on one processor no wake-up is lost.  A parked reader
  faces an empty pipe whose write end is open, or the writer still owes it a notification; a
  parked writer faces a full pipe whose read end is open, or the reader still owes it one; and
  the two are never parked at once.\<close>

theorem pipe_no_lost_wakeup:
  assumes "pipe_reaches (spsc rd wr) capacity c" "rd \<noteq> wr"
  shows "(is_read_parked (pipe_pcs c rd) \<longrightarrow>
      ring_is_empty (pipe_ring_of c) \<and> \<not> write_closed (pipe_ring_of c) \<or>
      pipe_pcs c wr = Wake_reader \<or> pipe_pcs c wr = Wake_all_readers) \<and>
    (is_write_parked (pipe_pcs c wr) \<longrightarrow>
      ring_is_full (pipe_ring_of c) \<and> \<not> read_closed (pipe_ring_of c) \<or>
      pipe_pcs c rd = Wake_writer \<or> pipe_pcs c rd = Wake_all_writers) \<and>
    \<not> (is_read_parked (pipe_pcs c rd) \<and> is_write_parked (pipe_pcs c wr))"
proof -
  have inv: "wake_inv rd wr c"
    using pipe_reaches_wake assms by blast
  note i = inv [unfolded wake_inv_def reader_cause_def writer_cause_def]
  have "\<not> (ring_is_empty (pipe_ring_of c) \<and> ring_is_full (pipe_ring_of c))"
    using i by (auto simp: ring_is_empty_def ring_is_full_def ring_wf_def ring_readable_def)
  moreover have "pipe_pcs c wr \<noteq> Wake_reader" "pipe_pcs c wr \<noteq> Wake_all_readers"
    if "is_write_parked (pipe_pcs c wr)" using that by auto
  moreover have "pipe_pcs c rd \<noteq> Wake_writer" "pipe_pcs c rd \<noteq> Wake_all_writers"
    if "is_read_parked (pipe_pcs c rd)" using that by auto
  ultimately show ?thesis
    using i by blast
qed

theorem pipe_no_lost_wakeup_witness:
  "\<exists>c. pipe_reaches (spsc 0 1) 2 c \<and> is_read_parked (pipe_pcs c 0) \<and>
     (ring_is_empty (pipe_ring_of c) \<and> \<not> write_closed (pipe_ring_of c) \<or>
      pipe_pcs c 1 = Wake_reader \<or> pipe_pcs c 1 = Wake_all_readers)"
proof -
  obtain c where c: "pipe_trace small_pipe
      [(0, Call_read [0]), (0, Continue), (1, Call_write [7])] = Next c"
    "trace_allowed (spsc 0 1) small_pipe [(0, Call_read [0]), (0, Continue), (1, Call_write [7])]"
    "pipe_pcs c 0 = Read_parked [0]"
    using handover_run by blast
  have "pipe_reaches (spsc 0 1) 2 c"
    using pipe_trace_reaches [OF small_pipe_reached c(2,1)] .
  then show ?thesis
    using pipe_no_lost_wakeup [of 0 1 2 c] c(3) by (intro exI [of _ c]) simp
qed



text \<open>Enlarging a full pipe does not wake the writer that waits for room: it stays parked
  although half of the pipe is free and no thread owes it a notification.\<close>

theorem pipe_resize_no_wakeup:
  "\<exists>c. pipe_trace small_pipe resize_schedule = Next c \<and> is_write_parked (pipe_pcs c 1) \<and>
     \<not> ring_is_full (pipe_ring_of c) \<and> (\<forall>t. t = 1 \<or> pipe_pcs c t = Pc_idle)"
  using resize_run by (auto simp: ring_is_full_def ring_remaining_def)

end
