(* ===== verification/Thread_State.thy ===== *)
theory Thread_State
  imports Kernel_Prelude
begin

text \<open>
  Threads and processes as the scheduler sees them
  (\<open>src/kernel/process/thread/types.rs\<close>, \<open>thread/lifecycle.rs\<close>, \<open>process/lifecycle.rs\<close>):
  their scheduling state and the transitions between the states.  A thread is named by its
  process and thread id; the tables are total functions, and a process's list of thread ids
  says which threads exist.  Ticks are natural numbers, with \<open>saturating_add\<close> where the code
  saturates at \<open>u64::MAX\<close>.  Contexts, kernel stacks, profiling counters and the resources a
  process releases when it ends are left out.
\<close>

section \<open>States\<close>

datatype thread_priority = Idle | Normal | High | Realtime

fun priority_index :: "thread_priority \<Rightarrow> nat" where
  "priority_index Idle = 0"
| "priority_index Normal = 1"
| "priority_index High = 2"
| "priority_index Realtime = 3"

definition THREAD_PRIORITY_COUNT :: nat where
  "THREAD_PRIORITY_COUNT = 4"

instantiation thread_priority :: linorder
begin

definition less_eq_thread_priority :: "thread_priority \<Rightarrow> thread_priority \<Rightarrow> bool" where
  "less_eq_thread_priority p q \<longleftrightarrow> priority_index p \<le> priority_index q"

definition less_thread_priority :: "thread_priority \<Rightarrow> thread_priority \<Rightarrow> bool" where
  "less_thread_priority p q \<longleftrightarrow> priority_index p < priority_index q"

instance
proof
  fix p q :: thread_priority
  show "p \<le> q \<Longrightarrow> q \<le> p \<Longrightarrow> p = q"
    by (cases p; cases q; simp add: less_eq_thread_priority_def)
qed (auto simp: less_eq_thread_priority_def less_thread_priority_def)

end

datatype sched_policy = SchedDefault | SchedFifo | SchedRoundRobin

datatype thread_state = Ready | Running | Waiting | Stopped | Terminated

datatype process_state = PNew | PReady | PRunning | PWaiting | PTerminated

datatype wait_outcome = Outcome_pending | Outcome_completed | Outcome_timed_out

type_synonym process_id = nat
type_synonym thread_key = "process_id \<times> nat"

record thread =
  t_state :: thread_state
  t_priority :: thread_priority
  t_policy :: sched_policy
  t_affinity :: nat
  t_wake_deadline :: nat
  t_outcome :: wait_outcome
  t_stop_pending :: bool
  t_terminate_pending :: bool
  t_boosted :: bool
  t_slice_remaining :: nat
  t_waiting_ticks :: nat
  t_cpu_ticks :: nat
  t_is_user :: bool

record process =
  p_state :: process_state
  p_threads :: "nat list"
  p_next_tid :: nat
  p_has_user_space :: bool

record task_table =
  threads :: "thread_key \<Rightarrow> thread"
  processes :: "process_id \<Rightarrow> process"

section \<open>Transitions\<close>

definition set_thread :: "thread_key \<Rightarrow> (thread \<Rightarrow> thread) \<Rightarrow> 'a task_table_scheme \<Rightarrow> 'a task_table_scheme" where
  "set_thread k f s = s\<lparr>threads := (threads s)(k := f (threads s k))\<rparr>"

definition set_process ::
  "process_id \<Rightarrow> (process \<Rightarrow> process) \<Rightarrow> 'a task_table_scheme \<Rightarrow> 'a task_table_scheme" where
  "set_process pid f s = s\<lparr>processes := (processes s)(pid := f (processes s pid))\<rparr>"

definition state_of :: "'a task_table_scheme \<Rightarrow> thread_key \<Rightarrow> thread_state" where
  "state_of s k = t_state (threads s k)"

definition process_state_of :: "'a task_table_scheme \<Rightarrow> thread_key \<Rightarrow> process_state" where
  "process_state_of s k = p_state (processes s (fst k))"

definition set_process_and_thread_state ::
  "process_state \<Rightarrow> thread_state \<Rightarrow> thread_key \<Rightarrow> 'a task_table_scheme \<Rightarrow>
   bool \<times> 'a task_table_scheme" where
  "set_process_and_thread_state ps ts k s =
     (if state_of s k = Terminated \<or> process_state_of s k = PTerminated then (False, s)
      else (True, set_thread k (\<lambda>t. t\<lparr>t_state := ts\<rparr>)
                    (set_process (fst k) (\<lambda>p. p\<lparr>p_state := ps\<rparr>) s)))"

definition restore_context :: "thread_key \<Rightarrow> 'a task_table_scheme \<Rightarrow> 'a task_table_scheme" where
  "restore_context k s = snd (set_process_and_thread_state PRunning Running k s)"

definition yield_back_to_ready :: "thread_key \<Rightarrow> 'a task_table_scheme \<Rightarrow> 'a task_table_scheme" where
  "yield_back_to_ready k s = snd (set_process_and_thread_state PReady Ready k s)"

text \<open>The deadline is stored plus one, so that zero stands for none.\<close>

definition enter_waiting_state ::
  "nat option \<Rightarrow> thread_key \<Rightarrow> 'a task_table_scheme \<Rightarrow> 'a task_table_scheme" where
  "enter_waiting_state wake_tick k s =
     (case set_process_and_thread_state PWaiting Waiting k s of
        (False, s1) \<Rightarrow> s1
      | (True, s1) \<Rightarrow>
          set_thread k
            (\<lambda>t. t\<lparr>t_wake_deadline := (case wake_tick of None \<Rightarrow> 0 | Some d \<Rightarrow> saturating_add d 1),
                   t_outcome := Outcome_pending\<rparr>) s1)"

definition wake_deadline :: "thread \<Rightarrow> nat option" where
  "wake_deadline t = (if t_wake_deadline t = 0 then None else Some (t_wake_deadline t - 1))"

definition wake_waiter ::
  "wait_outcome \<Rightarrow> thread_key \<Rightarrow> 'a task_table_scheme \<Rightarrow> bool \<times> 'a task_table_scheme" where
  "wake_waiter outcome k s =
     (if state_of s k \<noteq> Waiting then (False, s)
      else if t_stop_pending (threads s k)
      then (True, set_thread k
              (\<lambda>t. t\<lparr>t_stop_pending := False, t_state := Stopped, t_wake_deadline := 0,
                     t_outcome := outcome\<rparr>)
              (set_process (fst k) (\<lambda>p. p\<lparr>p_state := PReady\<rparr>) s))
      else (case set_process_and_thread_state PReady Ready k s of
              (False, s1) \<Rightarrow> (False, s1)
            | (True, s1) \<Rightarrow>
                (True, set_thread k (\<lambda>t. t\<lparr>t_wake_deadline := 0, t_outcome := outcome\<rparr>) s1)))"

definition wake_by_signal :: "thread_key \<Rightarrow> 'a task_table_scheme \<Rightarrow> bool \<times> 'a task_table_scheme" where
  "wake_by_signal = wake_waiter Outcome_completed"

definition wake_by_timeout :: "thread_key \<Rightarrow> 'a task_table_scheme \<Rightarrow> bool \<times> 'a task_table_scheme" where
  "wake_by_timeout = wake_waiter Outcome_timed_out"

definition suspend :: "thread_key \<Rightarrow> 'a task_table_scheme \<Rightarrow> bool \<times> 'a task_table_scheme" where
  "suspend k s =
     (case state_of s k of
        Ready \<Rightarrow> (True, set_thread k (\<lambda>t. t\<lparr>t_state := Stopped\<rparr>) s)
      | Running \<Rightarrow> (True, set_thread k (\<lambda>t. t\<lparr>t_state := Stopped\<rparr>) s)
      | Waiting \<Rightarrow> (True, set_thread k (\<lambda>t. t\<lparr>t_stop_pending := True\<rparr>) s)
      | Stopped \<Rightarrow> (False, s)
      | Terminated \<Rightarrow> (False, s))"

definition resume :: "thread_key \<Rightarrow> 'a task_table_scheme \<Rightarrow> bool \<times> 'a task_table_scheme" where
  "resume k s = set_process_and_thread_state PReady Ready k s"

definition new_thread :: "bool \<Rightarrow> thread" where
  "new_thread user = \<lparr>t_state = Ready, t_priority = Normal, t_policy = SchedDefault, t_affinity = 0,
     t_wake_deadline = 0, t_outcome = Outcome_completed, t_stop_pending = False,
     t_terminate_pending = False, t_boosted = False, t_slice_remaining = 0, t_waiting_ticks = 0,
     t_cpu_ticks = 0, t_is_user = user\<rparr>"

text \<open>\<open>swap_remove\<close>: the last element takes the place of the removed one.\<close>

definition swap_remove :: "nat \<Rightarrow> 'b list \<Rightarrow> 'b list" where
  "swap_remove i xs = butlast (xs[i := last xs])"

fun position :: "('b \<Rightarrow> bool) \<Rightarrow> 'b list \<Rightarrow> nat option" where
  "position P [] = None"
| "position P (x # xs) = (if P x then Some 0 else map_option Suc (position P xs))"

text \<open>\<open>Process::finish_thread_termination\<close> and the state change of \<open>complete_termination\<close>.\<close>

definition finish_thread_termination ::
  "thread_key \<Rightarrow> 'a task_table_scheme \<Rightarrow> bool \<times> 'a task_table_scheme" where
  "finish_thread_termination k s =
     (case position (\<lambda>t. t = snd k) (p_threads (processes s (fst k))) of
        None \<Rightarrow> (False, s)
      | Some i \<Rightarrow>
          (let left = swap_remove i (p_threads (processes s (fst k)));
               s1 = set_process (fst k) (\<lambda>p. p\<lparr>p_threads := left\<rparr>) s
           in if left \<noteq> [] \<or> process_state_of s1 k = PTerminated then (False, s1)
              else (True, set_process (fst k) (\<lambda>p. p\<lparr>p_state := PTerminated\<rparr>) s1)))"

end
