(* ===== verification/Ready_Queue.thy ===== *)
theory Ready_Queue
  imports Thread_State "HOL-Library.Multiset"
begin

text \<open>
  The ready queues and the waiting queue of a scheduler, as the functions of
  \<open>src/kernel/process/scheduler/queue.rs\<close> on lists of threads.  The four ready queues are a
  list indexed by priority; an entry of the waiting queue is a thread and the wait queue its
  timeout has to be removed from.  The first argument of a function that inspects threads is
  the thread table.
\<close>

type_synonym ready_queues = "thread_key list list"
type_synonym timed_waiter = "thread_key \<times> nat option"

definition TIME_SLICE_TICKS :: nat where
  "TIME_SLICE_TICKS = 2"

definition should_dispatch_ready_thread :: "thread_state \<Rightarrow> bool" where
  "should_dispatch_ready_thread st \<longleftrightarrow> st = Ready"

definition should_requeue_simulated_preempted_thread :: "thread_state \<Rightarrow> bool" where
  "should_requeue_simulated_preempted_thread st \<longleftrightarrow>
     \<not> (st = Terminated \<or> st = Waiting \<or> st = Stopped)"

definition thread_has_dispatch_address_space :: "'a task_table_scheme \<Rightarrow> thread_key \<Rightarrow> bool" where
  "thread_has_dispatch_address_space s k \<longleftrightarrow>
     \<not> t_is_user (threads s k) \<or> p_has_user_space (processes s (fst k))"

definition should_preempt_for_time_slice :: "nat \<Rightarrow> bool" where
  "should_preempt_for_time_slice ticks \<longleftrightarrow> TIME_SLICE_TICKS dvd ticks"

definition has_timed_wait_elapsed :: "nat option \<Rightarrow> nat \<Rightarrow> bool" where
  "has_timed_wait_elapsed deadline ticks = (case deadline of None \<Rightarrow> False | Some d \<Rightarrow> d \<le> ticks)"

definition parked_waiter_is_active :: "'a task_table_scheme \<Rightarrow> timed_waiter \<Rightarrow> bool" where
  "parked_waiter_is_active s w \<longleftrightarrow>
     state_of s (fst w) = Waiting \<and> process_state_of s (fst w) \<noteq> PTerminated"

section \<open>The waiting queue\<close>

text \<open>The loop \<open>take_timed_waiters_by_identity\<close>, \<open>take_stale_timed_waiters\<close> and
  \<open>take_elapsed_timed_waiters\<close> share: entries that satisfy \<open>P\<close> are swap-removed and collected.\<close>

lemma length_swap_remove [simp]: "length (swap_remove i xs) = length xs - 1"
  by (simp add: swap_remove_def)

function drain_where :: "('b \<Rightarrow> bool) \<Rightarrow> nat \<Rightarrow> 'b list \<Rightarrow> 'b list \<times> 'b list" where
  "drain_where P i xs =
     (if i < length xs
      then if P (xs ! i)
           then let (taken, rest) = drain_where P i (swap_remove i xs) in (xs ! i # taken, rest)
           else drain_where P (i + 1) xs
      else ([], xs))"
  by pat_completeness auto
termination
  by (relation "measure (\<lambda>(P, i, xs). length xs - i)") auto

declare drain_where.simps [simp del]

definition remove_timed_waiters_by_identity :: "timed_waiter list \<Rightarrow> thread_key \<Rightarrow> timed_waiter list" where
  "remove_timed_waiters_by_identity q k = filter (\<lambda>w. fst w \<noteq> k) q"

definition take_timed_waiters_by_identity ::
  "timed_waiter list \<Rightarrow> thread_key \<Rightarrow> timed_waiter list \<times> timed_waiter list" where
  "take_timed_waiters_by_identity q k = drain_where (\<lambda>w. fst w = k) 0 q"

definition take_stale_timed_waiters ::
  "'a task_table_scheme \<Rightarrow> timed_waiter list \<Rightarrow> timed_waiter list \<times> timed_waiter list" where
  "take_stale_timed_waiters s q = drain_where (\<lambda>w. \<not> parked_waiter_is_active s w) 0 q"

definition take_elapsed_timed_waiters ::
  "'a task_table_scheme \<Rightarrow> nat \<Rightarrow> timed_waiter list \<Rightarrow> timed_waiter list \<times> timed_waiter list" where
  "take_elapsed_timed_waiters s ticks q =
     drain_where (\<lambda>w. has_timed_wait_elapsed (wake_deadline (threads s (fst w))) ticks) 0 q"

section \<open>The ready queues\<close>

definition prune_nondispatchable_ready_threads ::
  "'a task_table_scheme \<Rightarrow> ready_queues \<Rightarrow> nat \<times> ready_queues" where
  "prune_nondispatchable_ready_threads s qs =
     (let kept = map (filter (\<lambda>k. should_dispatch_ready_thread (state_of s k))) qs
      in (sum_list (map length qs) - sum_list (map length kept), kept))"

definition has_dispatchable_ready_thread ::
  "'a task_table_scheme \<Rightarrow> ready_queues \<Rightarrow> bool \<times> ready_queues" where
  "has_dispatchable_ready_thread s qs =
     (let (_, qs') = prune_nondispatchable_ready_threads s qs
      in (list_ex (\<lambda>q. q \<noteq> []) qs', qs'))"

definition remove_queued_thread :: "thread_key \<Rightarrow> ready_queues \<Rightarrow> bool \<times> ready_queues" where
  "remove_queued_thread k qs =
     (list_ex (\<lambda>q. length (filter (\<lambda>j. j \<noteq> k) q) \<noteq> length q) qs,
      map (filter (\<lambda>j. j \<noteq> k)) qs)"

datatype enqueue_outcome = Enqueued | NotReady

definition push_back_at :: "nat \<Rightarrow> thread_key \<Rightarrow> ready_queues \<Rightarrow> ready_queues" where
  "push_back_at p k qs = qs[p := qs ! p @ [k]]"

definition push_front_at :: "nat \<Rightarrow> thread_key \<Rightarrow> ready_queues \<Rightarrow> ready_queues" where
  "push_front_at p k qs = qs[p := k # qs ! p]"

definition enqueue_ready_thread ::
  "'a task_table_scheme \<Rightarrow> thread_key \<Rightarrow> ready_queues \<Rightarrow> enqueue_outcome \<times> ready_queues" where
  "enqueue_ready_thread s k qs =
     (if \<not> should_dispatch_ready_thread (state_of s k) then (NotReady, qs)
      else (Enqueued,
            push_back_at (priority_index (t_priority (threads s k))) k
              (snd (remove_queued_thread k qs))))"

definition requeue_preempted_thread ::
  "'a task_table_scheme \<Rightarrow> thread_key \<Rightarrow> ready_queues \<Rightarrow> bool \<times> ready_queues" where
  "requeue_preempted_thread s k qs =
     (if \<not> should_dispatch_ready_thread (state_of s k) then (False, qs)
      else let qs1 = snd (remove_queued_thread k qs);
               p = priority_index (t_priority (threads s k))
           in (True, if t_policy (threads s k) = SchedFifo
                     then push_front_at p k qs1 else push_back_at p k qs1))"

text \<open>The inner \<open>while\<close> of the dispatch walk, and the walk from \<open>Realtime\<close> down.\<close>

fun pop_dispatchable ::
  "'a task_table_scheme \<Rightarrow> thread_key list \<Rightarrow> thread_key option \<times> thread_key list \<times> nat" where
  "pop_dispatchable s [] = (None, [], 0)"
| "pop_dispatchable s (k # ks) =
     (if should_dispatch_ready_thread (state_of s k) then (Some k, ks, 0)
      else let (r, ks', dropped) = pop_dispatchable s ks in (r, ks', dropped + 1))"

fun take_next_from ::
  "'a task_table_scheme \<Rightarrow> nat \<Rightarrow> ready_queues \<Rightarrow> thread_key option \<times> nat \<times> ready_queues" where
  "take_next_from s 0 qs = (None, 0, qs)"
| "take_next_from s (Suc p) qs =
     (case pop_dispatchable s (qs ! p) of
        (Some k, q, dropped) \<Rightarrow> (Some k, dropped, qs[p := q])
      | (None, q, dropped) \<Rightarrow>
          (let (r, dropped', qs') = take_next_from s p (qs[p := q])
           in (r, dropped + dropped', qs')))"

definition take_next_dispatchable_thread_with_dropped ::
  "'a task_table_scheme \<Rightarrow> ready_queues \<Rightarrow> thread_key option \<times> nat \<times> ready_queues" where
  "take_next_dispatchable_thread_with_dropped s qs = take_next_from s THREAD_PRIORITY_COUNT qs"

definition ready_queue_len :: "ready_queues \<Rightarrow> nat" where
  "ready_queue_len qs = sum_list (map length qs)"

text \<open>The inner loop of \<open>steal_ready_threads\<close>: the stolen and the skipped threads, how many may
  still be stolen, and what is left of the queue.\<close>

fun steal_loop ::
  "'a task_table_scheme \<Rightarrow> nat option \<Rightarrow> nat \<Rightarrow> thread_key list \<Rightarrow>
   thread_key list \<times> thread_key list \<times> nat \<times> thread_key list" where
  "steal_loop s target 0 q = ([], [], 0, q)"
| "steal_loop s target (Suc n) [] = ([], [], Suc n, [])"
| "steal_loop s target (Suc n) (k # q) =
     (let affinity = t_affinity (threads s k)
      in if \<not> (case target of None \<Rightarrow> True | Some c \<Rightarrow> affinity = 0 \<or> affinity = c)
         then let (stolen, skipped, n', q') = steal_loop s target (Suc n) q
              in (stolen, k # skipped, n', q')
         else if should_dispatch_ready_thread (state_of s k)
         then let (stolen, skipped, n', q') = steal_loop s target n q
              in (k # stolen, skipped, n', q')
         else steal_loop s target (Suc n) q)"

fun steal_from ::
  "'a task_table_scheme \<Rightarrow> nat option \<Rightarrow> nat \<Rightarrow> nat \<Rightarrow> ready_queues \<Rightarrow>
   thread_key list \<times> ready_queues" where
  "steal_from s target 0 remaining qs = ([], qs)"
| "steal_from s target (Suc p) remaining qs =
     (let (stolen, skipped, remaining', q) = steal_loop s target remaining (qs ! p);
          qs1 = qs[p := q @ skipped]
      in if remaining' = 0 then (stolen, qs1)
         else let (more, qs2) = steal_from s target p remaining' qs1 in (stolen @ more, qs2))"

definition steal_ready_threads ::
  "'a task_table_scheme \<Rightarrow> ready_queues \<Rightarrow> nat \<Rightarrow> nat option \<Rightarrow> thread_key list \<times> ready_queues" where
  "steal_ready_threads s qs wanted target = steal_from s target THREAD_PRIORITY_COUNT wanted qs"

section \<open>Draining\<close>

lemma take_swap_remove: "i < length xs \<Longrightarrow> take i (swap_remove i xs) = take i xs"
  by (auto simp: swap_remove_def butlast_conv_take min_def)

lemma mset_drop_swap_remove:
  assumes "i < length xs"
  shows "mset (drop i xs) = add_mset (xs ! i) (mset (drop i (swap_remove i xs)))"
proof -
  obtain ys where xs: "drop i xs = xs ! i # ys"
    using assms by (metis Cons_nth_drop_Suc)
  have "drop i (xs[i := last xs]) = (drop i xs)[0 := last xs]"
    using assms by (simp add: drop_update_swap)
  then have "drop i (xs[i := last xs]) = last xs # ys"
    by (simp add: xs)
  moreover have "drop i (butlast zs) = butlast (drop i zs)" for zs :: "'a list"
    by (simp add: drop_butlast)
  ultimately have rem: "drop i (swap_remove i xs) = butlast (last xs # ys)"
    by (simp add: swap_remove_def)
  have last: "last xs = last (xs ! i # ys)"
    using assms xs by (metis last_drop)
  show ?thesis
  proof (cases "ys = []")
    case False
    then have "mset ys = add_mset (last ys) (mset (butlast ys))"
      by (metis append_butlast_last_id mset_append mset.simps union_mset_add_mset_right add.right_neutral)
    then show ?thesis
      using False by (simp add: xs rem last)
  qed (simp add: xs rem)
qed

lemma drain_where_mset:
  "drain_where P i xs = (taken, rest) \<Longrightarrow>
   mset taken = filter_mset P (mset (drop i xs)) \<and>
   mset rest = mset (take i xs) + filter_mset (\<lambda>x. \<not> P x) (mset (drop i xs))"
proof (induction P i xs arbitrary: taken rest rule: drain_where.induct)
  case (1 P i xs)
  show ?case
  proof (cases "i < length xs")
    case in_range: True
    have step: "mset (drop i xs) = add_mset (xs ! i) (mset (drop (Suc i) xs))"
      using in_range by (metis Cons_nth_drop_Suc mset.simps(2))
    show ?thesis
    proof (cases "P (xs ! i)")
      case True
      obtain t r where tr: "drain_where P i (swap_remove i xs) = (t, r)"
        by force
      then have "taken = xs ! i # t" "rest = r"
        using 1(3) in_range True by (simp_all add: drain_where.simps [of P i xs])
      then show ?thesis
        using 1(1) [OF in_range True tr] True
        by (simp add: mset_drop_swap_remove [OF in_range] take_swap_remove [OF in_range])
    next
      case False
      then have "drain_where P (i + 1) xs = (taken, rest)"
        using 1(3) in_range by (simp add: drain_where.simps [of P i xs])
      then show ?thesis
        using 1(2) [OF in_range False] False step in_range
        by (simp add: take_Suc_conv_app_nth)
    qed
  next
    case False
    then show ?thesis
      using 1(3) by (simp add: drain_where.simps [of P i xs])
  qed
qed

lemma drain_where_partition:
  assumes "drain_where P 0 xs = (taken, rest)"
  shows "mset taken = filter_mset P (mset xs)" "mset rest = filter_mset (\<lambda>x. \<not> P x) (mset xs)"
    "set taken = {x \<in> set xs. P x}" "set rest = {x \<in> set xs. \<not> P x}"
proof -
  show m: "mset taken = filter_mset P (mset xs)" "mset rest = filter_mset (\<lambda>x. \<not> P x) (mset xs)"
    using drain_where_mset [OF assms] by simp_all
  show "set taken = {x \<in> set xs. P x}"
    using arg_cong [OF m(1), of set_mset] by simp
  show "set rest = {x \<in> set xs. \<not> P x}"
    using arg_cong [OF m(2), of set_mset] by simp
qed

section \<open>Queue operations as sets and multisets\<close>

definition queued :: "ready_queues \<Rightarrow> thread_key list" where
  "queued qs = concat qs"

lemma set_queued: "set (queued qs) = \<Union> (set ` set qs)"
  by (simp add: queued_def)

lemma mset_queued_update:
  "p < length qs \<Longrightarrow> mset (queued (qs[p := q])) + mset (qs ! p) = mset (queued qs) + mset q"
proof (induction qs arbitrary: p)
  case (Cons r qs)
  then show ?case
    by (cases p) (auto simp: queued_def ac_simps)
qed simp

lemma mset_push_back_at:
  "p < length qs \<Longrightarrow> mset (queued (push_back_at p k qs)) = add_mset k (mset (queued qs))"
  using mset_queued_update [of p qs "qs ! p @ [k]"] by (simp add: push_back_at_def)

lemma mset_push_front_at:
  "p < length qs \<Longrightarrow> mset (queued (push_front_at p k qs)) = add_mset k (mset (queued qs))"
  using mset_queued_update [of p qs "k # qs ! p"] by (simp add: push_front_at_def)

lemma length_push_at [simp]:
  "length (push_back_at p k qs) = length qs" "length (push_front_at p k qs) = length qs"
  by (simp_all add: push_back_at_def push_front_at_def)

lemma queued_filter: "queued (map (filter P) qs) = filter P (queued qs)"
  by (simp add: queued_def filter_concat)

lemma queued_remove: "queued (snd (remove_queued_thread k qs)) = filter (\<lambda>j. j \<noteq> k) (queued qs)"
  by (simp add: remove_queued_thread_def queued_filter)

lemma length_remove_queued [simp]: "length (snd (remove_queued_thread k qs)) = length qs"
  by (simp add: remove_queued_thread_def)

lemma priority_index_less: "priority_index p < 4"
  by (cases p) simp_all

lemma enqueue_ready_thread_spec:
  assumes "length qs = 4"
  shows "enqueue_ready_thread s k qs =
      (if state_of s k = Ready then (Enqueued, snd (enqueue_ready_thread s k qs)) else (NotReady, qs))"
    and "state_of s k = Ready \<Longrightarrow> length (snd (enqueue_ready_thread s k qs)) = 4 \<and>
      mset (queued (snd (enqueue_ready_thread s k qs))) =
        add_mset k (mset (filter (\<lambda>j. j \<noteq> k) (queued qs)))"
  using assms priority_index_less [of "t_priority (threads s k)"]
  by (auto simp: enqueue_ready_thread_def should_dispatch_ready_thread_def mset_push_back_at
      queued_remove)

lemma requeue_preempted_thread_spec:
  assumes "length qs = 4" "state_of s k = Ready"
  shows "fst (requeue_preempted_thread s k qs)"
    and "length (snd (requeue_preempted_thread s k qs)) = 4"
    and "mset (queued (snd (requeue_preempted_thread s k qs))) =
      add_mset k (mset (filter (\<lambda>j. j \<noteq> k) (queued qs)))"
  using assms priority_index_less [of "t_priority (threads s k)"]
  by (auto simp: requeue_preempted_thread_def should_dispatch_ready_thread_def mset_push_back_at
      mset_push_front_at queued_remove Let_def)

lemma queued_fold_remove:
  "queued (fold (\<lambda>k qs. snd (remove_queued_thread k qs)) ks qs) =
     filter (\<lambda>j. j \<notin> set ks) (queued qs)"
  by (induction ks arbitrary: qs) (auto simp: queued_remove intro: filter_cong)

lemma length_fold_remove [simp]:
  "length (fold (\<lambda>k qs. snd (remove_queued_thread k qs)) ks qs) = length qs"
  by (induction ks arbitrary: qs) simp_all

lemma mset_fold_push:
  "p < length qs \<Longrightarrow>
   mset (queued (fold (\<lambda>k qs. push_back_at p k qs) ks qs)) = mset ks + mset (queued qs)"
  by (induction ks arbitrary: qs) (simp_all add: mset_push_back_at)

lemma length_fold_push [simp]: "length (fold (\<lambda>k qs. push_back_at p k qs) ks qs) = length qs"
  by (induction ks arbitrary: qs) simp_all

lemma set_nth_queued: "p < length qs \<Longrightarrow> set (qs ! p) \<subseteq> set (queued qs)"
  unfolding set_queued using nth_mem [of p qs] by blast

lemma distinct_nth_queued: "distinct (queued qs) \<Longrightarrow> p < length qs \<Longrightarrow> distinct (qs ! p)"
  unfolding queued_def by (induction qs arbitrary: p) (auto simp: nth_Cons split: nat.splits)

section \<open>The dispatch walk\<close>

lemma pop_dispatchable_spec:
  "pop_dispatchable s q = (r, q', d) \<Longrightarrow>
   \<exists>D. mset q = (case r of None \<Rightarrow> {#} | Some k \<Rightarrow> {#k#}) + D + mset q' \<and> size D = d \<and>
     (\<forall>j \<in># D. state_of s j \<noteq> Ready) \<and>
     (case r of None \<Rightarrow> q' = [] | Some k \<Rightarrow> state_of s k = Ready)"
proof (induction q arbitrary: r q' d)
  case (Cons k ks)
  show ?case
  proof (cases "state_of s k = Ready")
    case True
    then show ?thesis
      using Cons.prems by (auto simp: should_dispatch_ready_thread_def)
  next
    case False
    obtain r1 q1 d1 where 1: "pop_dispatchable s ks = (r1, q1, d1)"
      by (metis prod_cases3)
    then have eq: "r = r1" "q' = q1" "d = Suc d1"
      using Cons.prems False by (auto simp: should_dispatch_ready_thread_def)
    obtain D where D: "mset ks = (case r1 of None \<Rightarrow> {#} | Some k \<Rightarrow> {#k#}) + D + mset q1" "size D = d1"
      "\<forall>j \<in># D. state_of s j \<noteq> Ready" "case r1 of None \<Rightarrow> q1 = [] | Some k \<Rightarrow> state_of s k = Ready"
      using Cons.IH [OF 1] by blast
    then show ?thesis
      using eq False by (intro exI [of _ "add_mset k D"]) (auto split: option.splits)
  qed
qed simp

lemma take_next_from_spec:
  "take_next_from s n qs = (r, d, qs') \<Longrightarrow> n \<le> length qs \<Longrightarrow>
   length qs' = length qs \<and>
   (\<exists>D. mset (queued qs) = (case r of None \<Rightarrow> {#} | Some k \<Rightarrow> {#k#}) + D + mset (queued qs') \<and>
      size D = d \<and> (\<forall>j \<in># D. state_of s j \<noteq> Ready) \<and>
      (case r of None \<Rightarrow> \<forall>p < n. qs' ! p = [] | Some k \<Rightarrow> state_of s k = Ready))"
proof (induction s n qs arbitrary: r d qs' rule: take_next_from.induct)
  case (2 s p qs)
  obtain r1 q1 d1 where pop: "pop_dispatchable s (qs ! p) = (r1, q1, d1)"
    by (metis prod_cases3)
  obtain D where D: "mset (qs ! p) = (case r1 of None \<Rightarrow> {#} | Some k \<Rightarrow> {#k#}) + D + mset q1"
    "size D = d1" "\<forall>j \<in># D. state_of s j \<noteq> Ready"
    "case r1 of None \<Rightarrow> q1 = [] | Some k \<Rightarrow> state_of s k = Ready"
    using pop_dispatchable_spec [OF pop] by blast
  have p: "p < length qs"
    using "2.prems"(2) by simp
  have upd: "mset (queued (qs[p := q1])) + mset (qs ! p) = mset (queued qs) + mset q1"
    using mset_queued_update [OF p] by blast
  show ?case
  proof (cases r1)
    case (Some k)
    then have eq: "r = Some k" "d = d1" "qs' = qs[p := q1]"
      using "2.prems"(1) pop by simp_all
    have "mset (queued qs) + mset q1 = ({#k#} + D + mset (queued qs')) + mset q1"
      using upd D(1) by (simp add: eq(3) Some ac_simps)
    then have "mset (queued qs) = {#k#} + D + mset (queued qs')"
      by (rule add_right_imp_eq)
    then show ?thesis
      using D eq Some by auto
  next
    case None
    obtain r2 d2 qs2 where rec: "take_next_from s p (qs[p := q1]) = (r2, d2, qs2)"
      by (metis prod_cases3)
    have eq: "r = r2" "d = d1 + d2" "qs' = qs2"
      using "2.prems"(1) pop rec None by simp_all
    have q1: "q1 = []"
      using D(4) None by simp
    obtain E where E: "length qs2 = length qs"
      "mset (queued (qs[p := q1])) = (case r2 of None \<Rightarrow> {#} | Some k \<Rightarrow> {#k#}) + E + mset (queued qs2)"
      "size E = d2" "\<forall>j \<in># E. state_of s j \<noteq> Ready"
      "case r2 of None \<Rightarrow> \<forall>i < p. qs2 ! i = [] | Some k \<Rightarrow> state_of s k = Ready"
      using "2.IH" [OF pop [symmetric] None refl rec] p by auto
    have keep: "qs2 ! p = []" if "r2 = None"
    proof -
      have "take_next_from s i xs = (None, d, ys) \<Longrightarrow> i \<le> p \<Longrightarrow> ys ! p = xs ! p" for i d xs ys
      proof (induction i arbitrary: xs d)
        case (Suc i)
        then show ?case
          by (auto split: prod.splits option.splits)
      qed simp
      from this [OF rec [unfolded that] order_refl] show ?thesis
        using p q1 by simp
    qed
    have "mset (queued qs) = mset (queued (qs[p := q1])) + D"
      using upd D(1) by (simp add: None q1)
    then have "mset (queued qs) = (case r2 of None \<Rightarrow> {#} | Some k \<Rightarrow> {#k#}) + (D + E) + mset (queued qs2)"
      using E(2) by (simp add: ac_simps)
    moreover have "case r2 of None \<Rightarrow> \<forall>i < Suc p. qs2 ! i = [] | Some k \<Rightarrow> state_of s k = Ready"
      using E(5) keep by (cases r2) (auto simp: less_Suc_eq)
    ultimately show ?thesis
      using D(2,3) E(1,3,4) eq by (intro conjI exI [of _ "D + E"]) auto
  qed
qed simp

end
