(* ===== verification/Softirq.thy ===== *)
theory Softirq
  imports Kernel_Prelude
begin

text \<open>
  The deferred interrupts of \<open>src/kernel/softirq.rs\<close>: a mask of pending vectors and a table of
  handlers.  A handler works on the state \<open>'s\<close> of the kernel and on the mask, since it may raise
  vectors itself.
\<close>

unbundle bit_operations_syntax

definition SOFTIRQ_MAX :: nat where
  "SOFTIRQ_MAX = 8"

record 's softirq_table =
  softirq_pending_mask :: u32
  softirq_handlers :: "(nat \<Rightarrow> 's \<times> u32 \<Rightarrow> 's \<times> u32) option list"

definition empty_softirqs :: "'s softirq_table" where
  "empty_softirqs = \<lparr>softirq_pending_mask = 0, softirq_handlers = replicate SOFTIRQ_MAX None\<rparr>"

definition register_softirq ::
  "nat \<Rightarrow> (nat \<Rightarrow> 's \<times> u32 \<Rightarrow> 's \<times> u32) \<Rightarrow> 's softirq_table \<Rightarrow> 's softirq_table" where
  "register_softirq nr handler t =
     (if nr < SOFTIRQ_MAX then t\<lparr>softirq_handlers := (softirq_handlers t)[nr := Some handler]\<rparr> else t)"

definition raise_softirq :: "nat \<Rightarrow> 's softirq_table \<Rightarrow> 's softirq_table" where
  "raise_softirq nr t =
     (if nr < SOFTIRQ_MAX
      then t\<lparr>softirq_pending_mask := softirq_pending_mask t OR push_bit nr 1\<rparr> else t)"

definition softirq_pending :: "'s softirq_table \<Rightarrow> bool" where
  "softirq_pending t \<longleftrightarrow> softirq_pending_mask t \<noteq> 0"

definition process_softirqs :: "'s softirq_table \<Rightarrow> 's \<Rightarrow> 's softirq_table \<times> 's" where
  "process_softirqs t s =
     (let pending = softirq_pending_mask t
      in if pending = 0 then (t, s)
         else let (s', raised) =
                fold (\<lambda>nr x. if pending AND push_bit nr 1 \<noteq> 0
                            then (case softirq_handlers t ! nr of None \<Rightarrow> x | Some h \<Rightarrow> h nr x) else x)
                  [0..<SOFTIRQ_MAX] (s, 0)
              in (t\<lparr>softirq_pending_mask := raised\<rparr>, s'))"

lemma process_softirqs_quiet [simp]: "\<not> softirq_pending t \<Longrightarrow> process_softirqs t s = (t, s)"
  by (simp add: process_softirqs_def softirq_pending_def)

text \<open>A vector raised once runs its handler once, and is then no longer pending.\<close>

lemma push_bit_disjoint: "nr < 32 \<Longrightarrow> n < 32 \<Longrightarrow> (push_bit nr 1 AND push_bit n 1 = (0 :: u32)) \<longleftrightarrow> nr \<noteq> n"
  by (auto simp: bit_eq_iff bit_simps) 

lemma raised_runs_once:
  assumes "\<not> softirq_pending t" "length (softirq_handlers t) = SOFTIRQ_MAX" "nr < SOFTIRQ_MAX"
  shows "process_softirqs (raise_softirq nr (register_softirq nr (\<lambda>n (x, p). (f n x, p)) t)) s =
    (register_softirq nr (\<lambda>n (x, p). (f n x, p)) t, f nr s)"
proof -
  define t' where "t' = register_softirq nr (\<lambda>n (x, p). (f n x, p)) t"
  have t': "softirq_pending_mask t' = 0" "t'\<lparr>softirq_pending_mask := 0\<rparr> = t'"
    using assms(1) by (simp_all add: t'_def register_softirq_def softirq_pending_def)
  define step where "step = (\<lambda>n (x :: 'a \<times> u32). if (push_bit nr 1 :: u32) AND push_bit n 1 \<noteq> 0
      then (case softirq_handlers t' ! n of None \<Rightarrow> x | Some h \<Rightarrow> h n x) else x)"
  have step: "step n (x, p) = (if n = nr then (f nr x, p) else (x, p))" if "n < SOFTIRQ_MAX" for n x p
    using that assms(2,3) push_bit_disjoint [of nr n] by (auto simp: step_def t'_def register_softirq_def SOFTIRQ_MAX_def)
  have "fold step [0..<m] (s, 0) = (if nr < m then (f nr s, 0) else (s, 0))" if "m \<le> SOFTIRQ_MAX" for m
    using that by (induction m) (auto simp: step)
  from this [of SOFTIRQ_MAX] have "fold step [0..<SOFTIRQ_MAX] (s, 0) = (f nr s, 0)"
    using assms(3) by simp
  moreover have "(push_bit nr 1 :: u32) \<noteq> 0"
    using push_bit_disjoint [of nr nr] assms(3) by (auto simp: SOFTIRQ_MAX_def)
  ultimately have "process_softirqs (raise_softirq nr t') s = (t', f nr s)"
    using assms(3) t' by (simp add: process_softirqs_def raise_softirq_def step_def Let_def del: push_bit_of_1 cong: if_cong)
  then show ?thesis
    by (simp add: t'_def)
qed

end
