(* ===== verification/Scheduler.thy ===== *)
theory Scheduler
  imports Ready_Queue Wait_Queue Softirq
begin

text \<open>
  The scheduler of one processor: the blocking and waking of
  \<open>src/kernel/process/scheduler/waker.rs\<close>, the dispatch loop, yielding, sleeping and preemption
  of \<open>dispatch.rs\<close>, the tick of \<open>timer.rs\<close>, placement, stopping and continuing of \<open>spawn.rs\<close>, and
  termination of \<open>terminate.rs\<close>, together with the wait queues
  (\<open>src/kernel/process/wait/queue.rs\<close>) and manual-reset events
  (\<open>wait/event.rs\<close>) they drive.  Wait queues and events are named by numbers; a thread's and a
  process's termination event are given by two functions.  An operation of a thread runs up to the
  context switch that ends it.  Outside work stealing the registry of schedulers is taken to hold
  this one only.  Of the hotspot statistics the four counters of losses are kept.
\<close>

record scheduler = task_table +
  ready_qs :: ready_queues
  waiting_queue :: "timed_waiter list"
  current :: "thread_key option"
  need_resched :: bool
  now :: nat
  wait_queues :: "nat \<Rightarrow> thread_key list"
  signaled :: "nat \<Rightarrow> bool"
  thread_event :: "thread_key \<Rightarrow> nat"
  process_event :: "process_id \<Rightarrow> nat"
  wake_refused_count :: nat
  waiter_lost_count :: nat
  dropped_ready_count :: nat
  dropped_current_count :: nat

definition BOOST_THRESHOLD_TICKS :: nat where
  "BOOST_THRESHOLD_TICKS = 50"

definition BOOST_DURATION_TICKS :: nat where
  "BOOST_DURATION_TICKS = 8"

section \<open>Waking\<close>

definition is_active_waiter :: "scheduler \<Rightarrow> thread_key \<Rightarrow> bool" where
  "is_active_waiter s k \<longleftrightarrow> state_of s k = Waiting \<and> process_state_of s k \<noteq> PTerminated"

definition maybe_set_need_resched :: "thread_key \<Rightarrow> scheduler \<Rightarrow> scheduler" where
  "maybe_set_need_resched k s =
     (case current s of
        None \<Rightarrow> s
      | Some c \<Rightarrow> if t_priority (threads s c) < t_priority (threads s k)
                  then s\<lparr>need_resched := True\<rparr> else s)"

definition enqueue_ready_thread_local :: "thread_key \<Rightarrow> scheduler \<Rightarrow> enqueue_outcome \<times> scheduler" where
  "enqueue_ready_thread_local k s =
     (let (out, qs) = enqueue_ready_thread s k (ready_qs s) in (out, s\<lparr>ready_qs := qs\<rparr>))"

definition park_thread :: "thread_key \<Rightarrow> nat option \<Rightarrow> scheduler \<Rightarrow> scheduler" where
  "park_thread k cleanup s =
     s\<lparr>waiting_queue := remove_timed_waiters_by_identity (waiting_queue s) k @ [(k, cleanup)]\<rparr>"

definition remove_timed_waiter :: "thread_key \<Rightarrow> scheduler \<Rightarrow> scheduler" where
  "remove_timed_waiter k s =
     (let (removed, rest) = take_timed_waiters_by_identity (waiting_queue s) k;
          lost = filter (\<lambda>w. state_of s (fst w) = Waiting \<and>
                   wake_deadline (threads s (fst w)) \<noteq> None \<and>
                   process_state_of s (fst w) \<noteq> PTerminated) removed
      in s\<lparr>waiting_queue := rest, waiter_lost_count := waiter_lost_count s + length lost\<rparr>)"

definition wake_thread :: "thread_key \<Rightarrow> scheduler \<Rightarrow> bool \<times> scheduler" where
  "wake_thread k s =
     (case wake_by_signal k s of
        (False, s1) \<Rightarrow> (False, s1\<lparr>wake_refused_count := wake_refused_count s1 + 1\<rparr>)
      | (True, s1) \<Rightarrow>
          (case enqueue_ready_thread_local k (remove_timed_waiter k s1) of
             (Enqueued, s2) \<Rightarrow> (True, maybe_set_need_resched k s2)
           | (NotReady, s2) \<Rightarrow> (False, s2)))"

fun wake_threads_counted :: "thread_key list \<Rightarrow> scheduler \<Rightarrow> nat \<times> scheduler" where
  "wake_threads_counted [] s = (0, s)"
| "wake_threads_counted (k # ks) s =
     (let (woke, s1) = wake_thread k s;
          (n, s2) = wake_threads_counted ks s1
      in ((if woke then Suc n else n), s2))"

text \<open>\<open>WaitQueue::wake_one\<close>, \<open>wake_all\<close>, and \<open>Event::signal\<close> of a manual-reset event.\<close>

definition queue_wake_one :: "nat \<Rightarrow> scheduler \<Rightarrow> bool \<times> scheduler" where
  "queue_wake_one q s =
     (let (waiters, waking) = wake_one (is_active_waiter s) (wait_queues s q);
          (n, s1) = wake_threads_counted waking (s\<lparr>wait_queues := (wait_queues s)(q := waiters)\<rparr>)
      in (n \<noteq> 0, s1))"

definition queue_wake_all :: "nat \<Rightarrow> scheduler \<Rightarrow> nat \<times> scheduler" where
  "queue_wake_all q s =
     (let (waiters, waking) = wake_all (is_active_waiter s) (wait_queues s q)
      in wake_threads_counted waking (s\<lparr>wait_queues := (wait_queues s)(q := waiters)\<rparr>))"

definition event_signal :: "nat \<Rightarrow> scheduler \<Rightarrow> nat \<times> scheduler" where
  "event_signal q s =
     (let (_, waiters, waking) =
            wake_with (is_active_waiter s) (\<lambda>_ ws. (True, [], ws)) (signaled s q) (wait_queues s q)
      in wake_threads_counted waking
           (s\<lparr>signaled := (signaled s)(q := True), wait_queues := (wait_queues s)(q := waiters)\<rparr>))"

section \<open>Blocking\<close>

text \<open>\<open>block_current_thread_if\<close> up to the switch to the dispatcher: \<open>prepare\<close> runs with the
  current slot empty.\<close>

definition block_current_thread_if ::
  "(thread_key \<Rightarrow> scheduler \<Rightarrow> bool \<times> scheduler) \<Rightarrow> scheduler \<Rightarrow> bool \<times> scheduler" where
  "block_current_thread_if prepare s =
     (case current s of
        None \<Rightarrow> (False, s)
      | Some k \<Rightarrow>
          (case prepare k (s\<lparr>current := None\<rparr>) of
             (False, s1) \<Rightarrow> (False, s1\<lparr>current := Some k\<rparr>)
           | (True, s1) \<Rightarrow> (True, s1)))"

definition sleep_current_thread :: "nat \<Rightarrow> scheduler \<Rightarrow> scheduler" where
  "sleep_current_thread ticks s =
     (let deadline = saturating_add (now s) (max ticks 1)
      in snd (block_current_thread_if
           (\<lambda>k s1. (True, park_thread k None (enter_waiting_state (Some deadline) k s1))) s))"

text \<open>\<open>WaitQueue::block_current\<close> (no deadline) and its timed variant, on wait queue \<open>q\<close>.\<close>

definition block_current_on :: "nat \<Rightarrow> scheduler \<Rightarrow> bool \<times> scheduler" where
  "block_current_on q s =
     block_current_thread_if
       (\<lambda>k s1.
          (let s2 = s1\<lparr>wait_queues := (wait_queues s1)
                 (q := push_waiter (is_active_waiter s1) (wait_queues s1 q) k)\<rparr>
           in (True, park_thread k None (enter_waiting_state None k s2)))) s"

definition block_current_until_on :: "nat \<Rightarrow> nat \<Rightarrow> scheduler \<Rightarrow> bool \<times> scheduler" where
  "block_current_until_on q deadline s =
     block_current_thread_if
       (\<lambda>k s1.
          (let s2 = s1\<lparr>wait_queues := (wait_queues s1)
                 (q := push_waiter (is_active_waiter s1) (wait_queues s1 q) k)\<rparr>
           in (True, park_thread k (Some q) (enter_waiting_state (Some deadline) k s2)))) s"

section \<open>The tick\<close>

definition cleanup_remove_waiter :: "timed_waiter \<Rightarrow> scheduler \<Rightarrow> scheduler" where
  "cleanup_remove_waiter w s =
     (case snd w of
        None \<Rightarrow> s
      | Some q \<Rightarrow> s\<lparr>wait_queues := (wait_queues s)
                     (q := snd (remove_waiters_by_identity (wait_queues s q) (fst w)))\<rparr>)"

definition process_elapsed_timed_waiter :: "timed_waiter \<Rightarrow> scheduler \<Rightarrow> enqueue_outcome \<times> scheduler" where
  "process_elapsed_timed_waiter w s =
     (case wake_by_timeout (fst w) (cleanup_remove_waiter w s) of
        (True, s1) \<Rightarrow> enqueue_ready_thread_local (fst w) s1
      | (False, s1) \<Rightarrow> (NotReady, s1))"

fun process_elapsed_waiters :: "timed_waiter list \<Rightarrow> scheduler \<Rightarrow> nat \<times> scheduler" where
  "process_elapsed_waiters [] s = (0, s)"
| "process_elapsed_waiters (w # ws) s =
     (let (out, s1) = process_elapsed_timed_waiter w s;
          s2 = (if out = Enqueued then maybe_set_need_resched (fst w) s1 else s1);
          (n, s3) = process_elapsed_waiters ws s2
      in ((if out = Enqueued then Suc n else n), s3))"

definition wake_ready_threads :: "nat \<Rightarrow> scheduler \<Rightarrow> nat \<times> scheduler" where
  "wake_ready_threads ticks s =
     (let (stale, q1) = take_stale_timed_waiters s (waiting_queue s);
          (woke, q2) = take_elapsed_timed_waiters s ticks q1
      in process_elapsed_waiters woke (fold cleanup_remove_waiter stale (s\<lparr>waiting_queue := q2\<rparr>)))"

fun age_normal_threads :: "thread_key list \<Rightarrow> scheduler \<Rightarrow> thread_key list \<times> scheduler" where
  "age_normal_threads [] s = ([], s)"
| "age_normal_threads (k # ks) s =
     (let waiting = t_waiting_ticks (threads s k) + 1;
          s1 = set_thread k (\<lambda>t. t\<lparr>t_waiting_ticks := waiting\<rparr>) s;
          (boosted, s2) = age_normal_threads ks s1
      in ((if BOOST_THRESHOLD_TICKS \<le> waiting then k # boosted else boosted), s2))"

definition move_threads :: "thread_key list \<Rightarrow> thread_priority \<Rightarrow> ready_queues \<Rightarrow> ready_queues" where
  "move_threads ks p qs =
     fold (\<lambda>k qs. push_back_at (priority_index p) k qs) ks
       (fold (\<lambda>k qs. snd (remove_queued_thread k qs)) ks qs)"

definition boost_starved_threads :: "scheduler \<Rightarrow> scheduler" where
  "boost_starved_threads s =
     (let (boosted, s1) = age_normal_threads (ready_qs s ! priority_index Normal) s;
          s2 = fold (\<lambda>k s. set_thread k
                 (\<lambda>t. t\<lparr>t_waiting_ticks := 0, t_slice_remaining := BOOST_DURATION_TICKS,
                        t_priority := High, t_boosted := True\<rparr>) s) boosted s1;
          qs2 = move_threads boosted High (ready_qs s2);
          demoted = filter (\<lambda>k. t_boosted (threads s2 k) \<and> t_slice_remaining (threads s2 k) = 0)
                      (qs2 ! priority_index High);
          s3 = fold (\<lambda>k s. set_thread k
                 (\<lambda>t. t\<lparr>t_boosted := False, t_priority := Normal\<rparr>) s) demoted s2;
          qs3 = move_threads demoted Normal qs2
      in s3\<lparr>ready_qs := qs3\<rparr>)"

section \<open>Leaving and taking the processor\<close>

text \<open>\<open>yield_current_thread\<close> and \<open>preempt_current_thread_from_interrupt\<close> up to the switch to the
  dispatcher; they differ in the preemption counters only.\<close>

definition preempt_current_thread_from_interrupt :: "scheduler \<Rightarrow> bool \<times> scheduler" where
  "preempt_current_thread_from_interrupt s =
     (case current s of
        None \<Rightarrow> (False, s)
      | Some k \<Rightarrow>
          (let (some_ready, qs) = has_dispatchable_ready_thread s (ready_qs s);
               s1 = s\<lparr>ready_qs := qs\<rparr>
           in if \<not> some_ready then (False, s1)
              else (let s2 = yield_back_to_ready k (s1\<lparr>current := None\<rparr>);
                        (requeued, qs2) = requeue_preempted_thread s2 k (ready_qs s2);
                        s3 = s2\<lparr>ready_qs := qs2\<rparr>
                    in (True, if requeued then s3
                              else s3\<lparr>dropped_current_count := dropped_current_count s3 + 1\<rparr>))))"

definition yield_current_thread :: "scheduler \<Rightarrow> scheduler" where
  "yield_current_thread s = snd (preempt_current_thread_from_interrupt s)"

text \<open>\<open>Thread::terminate\<close>: the state, the process's bookkeeping, and the signals that wake the
  threads joining the process and the thread.\<close>

definition finish_termination :: "thread_key \<Rightarrow> scheduler \<Rightarrow> scheduler" where
  "finish_termination k s =
     (if state_of s k = Terminated then s
      else let s1 = set_thread k (\<lambda>t. t\<lparr>t_state := Terminated\<rparr>) s;
               (process_ended, s2) = finish_thread_termination k s1;
               s3 = (if process_ended then snd (event_signal (process_event s2 (fst k)) s2) else s2);
               s4 = snd (event_signal (thread_event s3 k) s3)
           in set_thread k (\<lambda>t. t\<lparr>t_wake_deadline := 0, t_outcome := Outcome_completed\<rparr>) s4)"

definition terminate_sibling_threads :: "thread_key \<Rightarrow> scheduler \<Rightarrow> scheduler" where
  "terminate_sibling_threads k s =
     (let sibling = (\<lambda>j. fst j = fst k \<and> snd j \<noteq> snd k);
          to_terminate = filter sibling (concat (ready_qs s)) @
                         filter sibling (map fst (waiting_queue s))
      in fold finish_termination to_terminate
           (s\<lparr>ready_qs := map (filter (\<lambda>j. \<not> sibling j)) (ready_qs s),
              waiting_queue := filter (\<lambda>w. \<not> sibling (fst w)) (waiting_queue s)\<rparr>))"

definition finish_current_thread :: "scheduler \<Rightarrow> thread_key option \<times> scheduler" where
  "finish_current_thread s =
     (case current s of
        None \<Rightarrow> (None, s)
      | Some k \<Rightarrow>
          (Some k,
           remove_timed_waiter k
             (finish_termination k (terminate_sibling_threads k (s\<lparr>current := None\<rparr>)))))"

section \<open>The dispatcher\<close>

text \<open>What the dispatcher works on: the scheduler of its processor, the deferred interrupts, the other
  online processors' ready queues in the order of the registry, and the two slots of the last thread that
  ended.\<close>

record machine =
  sched :: scheduler
  softirqs :: "scheduler softirq_table"
  this_cpu :: nat
  remotes :: "(nat \<times> ready_queues) list"
  dying_thread :: "thread_key option"
  deferred_dying :: "thread_key option"

definition add_ready_threads :: "thread_key list \<Rightarrow> scheduler \<Rightarrow> scheduler" where
  "add_ready_threads ks s =
     fold (\<lambda>k s. s\<lparr>ready_qs := snd (enqueue_ready_thread s k (ready_qs s))\<rparr>) ks s"

text \<open>The scan for the busiest other processor keeps the first of the largest counts.\<close>

definition busiest :: "(nat \<times> ready_queues) list \<Rightarrow> (nat \<times> nat) option" where
  "busiest others =
     fold (\<lambda>(cpu, qs) best.
         case best of
           None \<Rightarrow> Some (cpu, ready_queue_len qs)
         | Some (_, n) \<Rightarrow> if n < ready_queue_len qs then Some (cpu, ready_queue_len qs) else best)
       others None"

definition try_steal_work :: "machine \<Rightarrow> bool \<times> machine" where
  "try_steal_work m =
     (if remotes m = [] then (False, m)
      else case busiest (remotes m) of
        None \<Rightarrow> (False, m)
      | Some (victim, victim_count) \<Rightarrow>
          (case map_of (remotes m) victim of
             None \<Rightarrow> (False, m)
           | Some qs \<Rightarrow>
               (let (stolen, qs') = steal_ready_threads (sched m) qs (max (victim_count div 2) 1) (Some (this_cpu m));
                    m1 = m\<lparr>remotes := map (\<lambda>(cpu, q). (cpu, if cpu = victim then qs' else q)) (remotes m)\<rparr>
                in if stolen = [] then (False, m1)
                   else (True, m1\<lparr>sched := add_ready_threads stolen (sched m1)\<rparr>))))"

text \<open>One round of the loop of \<open>schedule_bare_metal\<close>, up to its \<open>continue\<close>, its \<open>return\<close>, or the switch
  into a thread.  \<open>activate\<close> stands for \<open>activate_address_space_for_thread\<close>.\<close>

datatype dispatch_outcome = Next_round | Switch_to thread_key | Dispatcher_returns

definition dispatch_round :: "(thread_key \<Rightarrow> bool) \<Rightarrow> machine \<Rightarrow> dispatch_outcome \<times> machine" where
  "dispatch_round activate m0 =
     (let (irqs, s) = process_softirqs (softirqs m0) (sched m0);
          m = m0\<lparr>softirqs := irqs, sched := s\<rparr>
      in if (case current s of None \<Rightarrow> False | Some k \<Rightarrow> t_terminate_pending (threads s k))
         then (case finish_current_thread
                 (set_thread (the (current s)) (\<lambda>t. t\<lparr>t_terminate_pending := False\<rparr>) s) of
                 (None, s1) \<Rightarrow> (Next_round, m\<lparr>sched := s1\<rparr>)
               | (Some k, s1) \<Rightarrow> (Next_round, m\<lparr>sched := s1, dying_thread := Some k\<rparr>))
         else let m1 = (case dying_thread m of None \<Rightarrow> m
                        | Some k \<Rightarrow> m\<lparr>dying_thread := None, deferred_dying := Some k\<rparr>)
           in if current s \<noteq> None \<and> \<not> need_resched s then (Dispatcher_returns, m1)
              else (case take_next_dispatchable_thread_with_dropped s (ready_qs s) of
                (next_thread, dropped, qs) \<Rightarrow>
                  (let s1 = s\<lparr>ready_qs := qs, dropped_ready_count := dropped_ready_count s + dropped\<rparr>
                   in case next_thread of
                        None \<Rightarrow>
                          (let (found, m2) = try_steal_work (m1\<lparr>sched := s1\<rparr>)
                           in (if found then Next_round else Dispatcher_returns, m2))
                      | Some k \<Rightarrow>
                          if \<not> (thread_has_dispatch_address_space s1 k \<and> activate k)
                          then (Next_round, m1\<lparr>sched := finish_termination k s1\<rparr>)
                          else (Switch_to k, m1\<lparr>sched :=
                                 (restore_context k s1)\<lparr>current := Some k, need_resched := False\<rparr>\<rparr>))))"

text \<open>Rounds until one switches or returns, and the whole loop: \<open>run\<close> stands for what happens from the
  switch into a thread until control comes back to the dispatcher.  \<open>fuel\<close> bounds the rounds.\<close>

fun dispatch :: "(thread_key \<Rightarrow> bool) \<Rightarrow> nat \<Rightarrow> machine \<Rightarrow> (dispatch_outcome \<times> machine) option" where
  "dispatch activate 0 m = None"
| "dispatch activate (Suc fuel) m =
     (case dispatch_round activate m of
        (Next_round, m') \<Rightarrow> dispatch activate fuel m'
      | (outcome, m') \<Rightarrow> Some (outcome, m'))"

fun schedule_bare_metal ::
  "(thread_key \<Rightarrow> bool) \<Rightarrow> (thread_key \<Rightarrow> machine \<Rightarrow> machine) \<Rightarrow> nat \<Rightarrow> machine \<Rightarrow> machine option" where
  "schedule_bare_metal activate run 0 m = None"
| "schedule_bare_metal activate run (Suc fuel) m =
     (case dispatch_round activate m of
        (Next_round, m') \<Rightarrow> schedule_bare_metal activate run fuel m'
      | (Switch_to k, m') \<Rightarrow> schedule_bare_metal activate run fuel (run k m')
      | (Dispatcher_returns, m') \<Rightarrow> Some m')"

definition process_deferred_dying :: "machine \<Rightarrow> machine" where
  "process_deferred_dying m = m\<lparr>deferred_dying := None\<rparr>"

text \<open>\<open>Thread::set_priority\<close>, \<open>set_sched_policy\<close> and \<open>set_cpu_affinity\<close>: a queued thread stays where it is.\<close>

definition set_priority :: "thread_key \<Rightarrow> thread_priority \<Rightarrow> scheduler \<Rightarrow> scheduler" where
  "set_priority k p s = set_thread k (\<lambda>t. t\<lparr>t_priority := p\<rparr>) s"

definition set_sched_policy :: "thread_key \<Rightarrow> sched_policy \<Rightarrow> scheduler \<Rightarrow> scheduler" where
  "set_sched_policy k policy s = set_thread k (\<lambda>t. t\<lparr>t_policy := policy\<rparr>) s"

definition set_cpu_affinity :: "thread_key \<Rightarrow> nat \<Rightarrow> scheduler \<Rightarrow> scheduler" where
  "set_cpu_affinity k cpu s = set_thread k (\<lambda>t. t\<lparr>t_affinity := cpu\<rparr>) s"

section \<open>The timer interrupt\<close>

definition account_current_tick :: "scheduler \<Rightarrow> scheduler" where
  "account_current_tick s =
     (case current s of
        None \<Rightarrow> s
      | Some k \<Rightarrow>
          set_thread k (\<lambda>t. t\<lparr>t_cpu_ticks := t_cpu_ticks t + 1,
            t_slice_remaining := (if t_boosted t then saturating_sub (t_slice_remaining t) 1
                                  else t_slice_remaining t)\<rparr>) s)"

definition handle_timer_tick_with_preemption :: "nat \<Rightarrow> bool \<Rightarrow> scheduler \<Rightarrow> bool \<times> scheduler" where
  "handle_timer_tick_with_preemption ticks allow_preemption s =
     (let s1 = snd (wake_ready_threads ticks
                 (account_current_tick (boost_starved_threads (s\<lparr>now := ticks\<rparr>))))
      in if \<not> allow_preemption \<or> \<not> should_preempt_for_time_slice ticks then (False, s1)
         else if (case current s1 of None \<Rightarrow> False | Some k \<Rightarrow> t_policy (threads s1 k) = SchedFifo)
         then (False, s1)
         else preempt_current_thread_from_interrupt s1)"

section \<open>Placement, stopping and continuing\<close>

text \<open>A new process (\<open>create_ready_process\<close>), and a new thread of a live process placed in the
  ready queue of its priority (\<open>Thread::new_inner\<close>, \<open>add_thread\<close>, \<open>place_thread\<close>).\<close>

definition create_ready_process :: "process_id \<Rightarrow> bool \<Rightarrow> scheduler \<Rightarrow> scheduler" where
  "create_ready_process pid user_space s =
     set_process pid (\<lambda>_. \<lparr>p_state = PReady, p_threads = [], p_next_tid = 1,
       p_has_user_space = user_space\<rparr>) s"

definition spawn_thread :: "process_id \<Rightarrow> bool \<Rightarrow> scheduler \<Rightarrow> thread_key \<times> scheduler" where
  "spawn_thread pid user s =
     (let k = (pid, p_next_tid (processes s pid));
          s1 = set_thread k (\<lambda>_. new_thread user)
                 (set_process pid (\<lambda>p. p\<lparr>p_next_tid := p_next_tid p + 1\<rparr>) s);
          s2 = (if process_state_of s1 k = PTerminated then finish_termination k s1
                else set_process pid (\<lambda>p. p\<lparr>p_threads := p_threads p @ [snd k]\<rparr>) s1);
          (out, s3) = enqueue_ready_thread_local k s2
      in (k, if out = Enqueued then maybe_set_need_resched k s3 else s3))"

definition stop_threads_of_process :: "process_id \<Rightarrow> scheduler \<Rightarrow> nat \<times> scheduler" where
  "stop_threads_of_process pid s =
     (let mine = (\<lambda>k. fst k = pid);
          ready = filter mine (concat (ready_qs s));
          s1 = fold (\<lambda>k s. snd (suspend k s)) ready
                 (s\<lparr>ready_qs := map (filter (\<lambda>k. \<not> mine k)) (ready_qs s)\<rparr>);
          waiters = filter (\<lambda>w. mine (fst w)) (waiting_queue s1);
          s2 = fold (\<lambda>w s. snd (suspend (fst w) s)) waiters
                 (s1\<lparr>waiting_queue := filter (\<lambda>w. \<not> mine (fst w)) (waiting_queue s1)\<rparr>);
          s3 = fold (\<lambda>w s. snd (wake_by_timeout (fst w) (cleanup_remove_waiter w s))) waiters s2;
          running = (case current s3 of None \<Rightarrow> [] | Some k \<Rightarrow> if mine k then [k] else [])
      in (length ready + length waiters + length running,
          fold (\<lambda>k s. snd (suspend k s)) running s3))"

definition continue_threads_of_process :: "process_id \<Rightarrow> scheduler \<Rightarrow> nat \<times> scheduler" where
  "continue_threads_of_process pid s =
     (let stopped = (\<lambda>s k. fst k = pid \<and> state_of s k = Stopped);
          resume_all = (\<lambda>ks s. fold (\<lambda>k (n, s). if stopped s k then (n + 1, snd (resume k s))
                                                else (n, s)) ks s);
          (n1, s1) = resume_all (concat (ready_qs s)) (0, s);
          (n2, s2) = resume_all (map fst (waiting_queue s1)) (n1, s1)
      in resume_all (case current s2 of None \<Rightarrow> [] | Some k \<Rightarrow> [k]) (n2, s2))"

end
