(* ===== verification/Scheduler_Placement.thy ===== *)
theory Scheduler_Placement
  imports Scheduler
begin

text \<open>
  No thread is lost: the invariant that every live thread is in a ready queue, on the
  processor, or parked in the waiting queue, and that every scheduler operation keeps it.
\<close>

section \<open>The invariant\<close>

definition parked :: "scheduler \<Rightarrow> thread_key list" where
  "parked s = map fst (waiting_queue s)"

text \<open>Threads in \<open>X\<close> are in the hands of the operation in progress and need not be placed.\<close>

definition placed_except :: "thread_key set \<Rightarrow> scheduler \<Rightarrow> bool" where
  "placed_except X s \<longleftrightarrow>
     length (ready_qs s) = 4 \<and>
     distinct (queued (ready_qs s)) \<and> distinct (parked s) \<and>
     (\<forall>k \<in> set (queued (ready_qs s)). state_of s k = Ready \<or> state_of s k = Terminated) \<and>
     (\<forall>k. current s = Some k \<longrightarrow> state_of s k = Running) \<and>
     (\<forall>k. k \<notin> X \<longrightarrow> state_of s k = Ready \<longrightarrow> k \<in> set (queued (ready_qs s))) \<and>
     (\<forall>k. k \<notin> X \<longrightarrow> state_of s k = Running \<longrightarrow> current s = Some k) \<and>
     (\<forall>k. k \<notin> X \<longrightarrow> state_of s k = Waiting \<longrightarrow> k \<in> set (parked s)) \<and>
     (\<forall>k. state_of s k \<noteq> Stopped \<and> \<not> t_stop_pending (threads s k)) \<and>
     (\<forall>k. state_of s k \<noteq> Terminated \<longleftrightarrow> snd k \<in> set (p_threads (processes s (fst k)))) \<and>
     (\<forall>k. state_of s k \<noteq> Terminated \<longrightarrow> process_state_of s k \<noteq> PTerminated) \<and>
     (\<forall>pid. distinct (p_threads (processes s pid)) \<and>
        (\<forall>t \<in> set (p_threads (processes s pid)). t < p_next_tid (processes s pid))) \<and>
     waiter_lost_count s = 0 \<and> dropped_current_count s = 0"

abbreviation placed :: "scheduler \<Rightarrow> bool" where
  "placed \<equiv> placed_except {}"

lemma placedD:
  assumes "placed_except X s"
  shows "length (ready_qs s) = 4" "distinct (queued (ready_qs s))" "distinct (parked s)"
    "k \<in> set (queued (ready_qs s)) \<Longrightarrow> state_of s k = Ready \<or> state_of s k = Terminated"
    "current s = Some k \<Longrightarrow> state_of s k = Running"
    "k \<notin> X \<Longrightarrow> state_of s k = Ready \<Longrightarrow> k \<in> set (queued (ready_qs s))"
    "k \<notin> X \<Longrightarrow> state_of s k = Running \<Longrightarrow> current s = Some k"
    "k \<notin> X \<Longrightarrow> state_of s k = Waiting \<Longrightarrow> k \<in> set (parked s)"
    "state_of s k \<noteq> Stopped" "\<not> t_stop_pending (threads s k)"
    "state_of s k \<noteq> Terminated \<longleftrightarrow> snd k \<in> set (p_threads (processes s (fst k)))"
    "state_of s k \<noteq> Terminated \<Longrightarrow> process_state_of s k \<noteq> PTerminated"
    "distinct (p_threads (processes s pid))"
    "t \<in> set (p_threads (processes s pid)) \<Longrightarrow> t < p_next_tid (processes s pid)"
    "waiter_lost_count s = 0" "dropped_current_count s = 0"
  using assms unfolding placed_except_def by blast+

lemma placedI:
  assumes "length (ready_qs s) = 4" "distinct (queued (ready_qs s))" "distinct (parked s)"
    "\<And>k. k \<in> set (queued (ready_qs s)) \<Longrightarrow> state_of s k = Ready \<or> state_of s k = Terminated"
    "\<And>k. current s = Some k \<Longrightarrow> state_of s k = Running"
    "\<And>k. k \<notin> X \<Longrightarrow> state_of s k = Ready \<Longrightarrow> k \<in> set (queued (ready_qs s))"
    "\<And>k. k \<notin> X \<Longrightarrow> state_of s k = Running \<Longrightarrow> current s = Some k"
    "\<And>k. k \<notin> X \<Longrightarrow> state_of s k = Waiting \<Longrightarrow> k \<in> set (parked s)"
    "\<And>k. state_of s k \<noteq> Stopped" "\<And>k. \<not> t_stop_pending (threads s k)"
    "\<And>k. state_of s k \<noteq> Terminated \<longleftrightarrow> snd k \<in> set (p_threads (processes s (fst k)))"
    "\<And>k. state_of s k \<noteq> Terminated \<Longrightarrow> process_state_of s k \<noteq> PTerminated"
    "\<And>pid. distinct (p_threads (processes s pid))"
    "\<And>pid t. t \<in> set (p_threads (processes s pid)) \<Longrightarrow> t < p_next_tid (processes s pid)"
    "waiter_lost_count s = 0" "dropped_current_count s = 0"
  shows "placed_except X s"
  using assms unfolding placed_except_def by blast

section \<open>Tables\<close>

lemma state_of_set_thread [simp]:
  "state_of (set_thread j f s) k = (if k = j then t_state (f (threads s j)) else state_of s k)"
  by (simp add: state_of_def set_thread_def)

lemma state_of_set_process [simp]: "state_of (set_process pid f s) k = state_of s k"
  by (simp add: state_of_def set_process_def)

lemma process_state_of_set_thread [simp]: "process_state_of (set_thread j f s) k = process_state_of s k"
  by (simp add: process_state_of_def set_thread_def)

lemma process_state_of_set_process [simp]:
  "process_state_of (set_process pid f s) k =
     (if fst k = pid then p_state (f (processes s pid)) else process_state_of s k)"
  by (simp add: process_state_of_def set_process_def)

lemma processes_set [simp]:
  "processes (set_thread j f s) = processes s"
  "processes (set_process pid g s) = (processes s)(pid := g (processes s pid))"
  "threads (set_process pid g s) = threads s"
  "threads (set_thread j f s) = (threads s)(j := f (threads s j))"
  by (simp_all add: set_thread_def set_process_def)

lemma scheduler_fields_set [simp]:
  "ready_qs (set_thread j f s) = ready_qs s" "ready_qs (set_process pid g s) = ready_qs s"
  "waiting_queue (set_thread j f s) = waiting_queue s"
  "waiting_queue (set_process pid g s) = waiting_queue s"
  "current (set_thread j f s) = current s" "current (set_process pid g s) = current s"
  "waiter_lost_count (set_thread j f s) = waiter_lost_count s"
  "waiter_lost_count (set_process pid g s) = waiter_lost_count s"
  "dropped_current_count (set_thread j f s) = dropped_current_count s"
  "dropped_current_count (set_process pid g s) = dropped_current_count s"
  by (simp_all add: set_thread_def set_process_def)

lemma state_of_fields [simp]:
  "state_of (s\<lparr>ready_qs := qs\<rparr>) = state_of s" "state_of (s\<lparr>waiting_queue := w\<rparr>) = state_of s"
  "state_of (s\<lparr>current := c\<rparr>) = state_of s" "state_of (s\<lparr>need_resched := b\<rparr>) = state_of s"
  "state_of (s\<lparr>wait_queues := v\<rparr>) = state_of s" "state_of (s\<lparr>signaled := g\<rparr>) = state_of s"
  "state_of (s\<lparr>waiter_lost_count := n\<rparr>) = state_of s" "state_of (s\<lparr>now := n\<rparr>) = state_of s"
  "state_of (s\<lparr>wake_refused_count := n\<rparr>) = state_of s"
  "state_of (s\<lparr>dropped_ready_count := n\<rparr>) = state_of s"
  "state_of (s\<lparr>dropped_current_count := n\<rparr>) = state_of s"
  by (simp_all add: state_of_def fun_eq_iff)

lemma process_state_of_fields [simp]:
  "process_state_of (s\<lparr>ready_qs := qs\<rparr>) = process_state_of s"
  "process_state_of (s\<lparr>waiting_queue := w\<rparr>) = process_state_of s"
  "process_state_of (s\<lparr>current := c\<rparr>) = process_state_of s"
  "process_state_of (s\<lparr>need_resched := b\<rparr>) = process_state_of s"
  "process_state_of (s\<lparr>wait_queues := v\<rparr>) = process_state_of s"
  "process_state_of (s\<lparr>signaled := g\<rparr>) = process_state_of s"
  "process_state_of (s\<lparr>waiter_lost_count := n\<rparr>) = process_state_of s"
  "process_state_of (s\<lparr>now := n\<rparr>) = process_state_of s"
  "process_state_of (s\<lparr>wake_refused_count := n\<rparr>) = process_state_of s"
  "process_state_of (s\<lparr>dropped_ready_count := n\<rparr>) = process_state_of s"
  "process_state_of (s\<lparr>dropped_current_count := n\<rparr>) = process_state_of s"
  by (simp_all add: process_state_of_def fun_eq_iff)

lemma parked_fields [simp]:
  "parked (s\<lparr>ready_qs := qs\<rparr>) = parked s" "parked (s\<lparr>waiting_queue := w\<rparr>) = map fst w"
  "parked (s\<lparr>current := c\<rparr>) = parked s" "parked (s\<lparr>need_resched := b\<rparr>) = parked s"
  "parked (s\<lparr>wait_queues := v\<rparr>) = parked s" "parked (s\<lparr>signaled := g\<rparr>) = parked s"
  "parked (s\<lparr>waiter_lost_count := n\<rparr>) = parked s" "parked (s\<lparr>now := n\<rparr>) = parked s"
  "parked (s\<lparr>wake_refused_count := n\<rparr>) = parked s" "parked (s\<lparr>dropped_ready_count := n\<rparr>) = parked s"
  "parked (s\<lparr>dropped_current_count := n\<rparr>) = parked s"
  "parked (set_thread j f s) = parked s" "parked (set_process pid h s) = parked s"
  by (simp_all add: parked_def)

text \<open>Fields the invariant does not mention.\<close>

lemma placed_except_irrelevant [simp]:
  "placed_except X (s\<lparr>need_resched := b\<rparr>) = placed_except X s"
  "placed_except X (s\<lparr>wait_queues := v\<rparr>) = placed_except X s"
  "placed_except X (s\<lparr>signaled := g\<rparr>) = placed_except X s"
  "placed_except X (s\<lparr>now := n\<rparr>) = placed_except X s"
  "placed_except X (s\<lparr>wake_refused_count := n\<rparr>) = placed_except X s"
  "placed_except X (s\<lparr>dropped_ready_count := n\<rparr>) = placed_except X s"
  by (simp_all add: placed_except_def)

lemma placed_except_mono: "placed_except X s \<Longrightarrow> X \<subseteq> Y \<Longrightarrow> placed_except Y s"
  unfolding placed_except_def by (elim conjE, intro conjI; (assumption | blast)?)

lemma placed_except_set_thread:
  assumes "\<And>t. t_state (f t) = t_state t" "\<And>t. t_stop_pending (f t) = t_stop_pending t"
  shows "placed_except X (set_thread k f s) = placed_except X s"
proof -
  have st: "state_of (set_thread k f s) = state_of s"
    by (simp add: fun_eq_iff assms(1)) (simp add: state_of_def)
  have sp: "t_stop_pending (threads (set_thread k f s) j) = t_stop_pending (threads s j)" for j
    by (simp add: assms(2))
  have ps: "process_state_of (set_thread k f s) = process_state_of s"
    by (simp add: fun_eq_iff)
  show ?thesis
    unfolding placed_except_def st sp ps by simp
qed

lemma placed_except_fold_set_thread:
  assumes "\<And>t. t_state (f t) = t_state t" "\<And>t. t_stop_pending (f t) = t_stop_pending t"
  shows "placed_except X (fold (\<lambda>k s. set_thread k f s) ks s) = placed_except X s"
  by (induction ks arbitrary: s) (simp_all add: placed_except_set_thread [OF assms])

section \<open>One thread changes place\<close>

lemma placed_move:
  assumes placed: "placed_except X s" and live: "state_of s k \<noteq> Terminated"
    and st: "\<And>j. state_of s' j = (if j = k then ts else state_of s j)"
    and ts: "ts = Ready \<or> ts = Running \<or> ts = Waiting"
    and sp: "\<And>j. t_stop_pending (threads s' j) = t_stop_pending (threads s j)"
    and procs: "\<And>pid. p_threads (processes s' pid) = p_threads (processes s pid)"
      "\<And>pid. p_next_tid (processes s' pid) = p_next_tid (processes s pid)"
      "\<And>j. process_state_of s' j = PTerminated \<Longrightarrow> process_state_of s j = PTerminated"
    and qs: "length (ready_qs s') = 4" "distinct (queued (ready_qs s'))"
      "set (queued (ready_qs s')) =
        (if ts = Ready then insert k (set (queued (ready_qs s))) else set (queued (ready_qs s)) - {k})"
    and wq: "distinct (parked s')" "set (parked s') - {k} = set (parked s) - {k}"
      "ts = Waiting \<Longrightarrow> k \<in> set (parked s')"
    and cur: "current s' =
        (if ts = Running then Some k else if current s = Some k then None else current s)"
      "ts = Running \<Longrightarrow> current s = None \<or> current s = Some k"
    and counts: "waiter_lost_count s' = waiter_lost_count s"
      "dropped_current_count s' = dropped_current_count s"
  shows "placed_except (X - {k}) s'"
proof -
  note p = placedD [OF placed]
  have "j \<in> set (parked s')" if "j \<notin> X - {k}" "state_of s' j = Waiting" for j
  proof (cases "j = k")
    case True
    then show ?thesis using that st [of j] wq(3) by simp
  next
    case False
    then have "j \<in> set (parked s)"
      using that st [of j] p(8) [of j] by simp
    then show ?thesis
      using wq(2) False by blast
  qed
  moreover have "state_of s' j = Running" if "current s' = Some j" for j
    using p(5) [of j] that cur(1) st [of j] by (auto split: if_splits)
  moreover have "current s' = Some j" if "j \<notin> X - {k}" "state_of s' j = Running" for j
    using p(7) [of j] that cur st [of j] by (auto split: if_splits)
  moreover have "j \<in> set (queued (ready_qs s'))" if "j \<notin> X - {k}" "state_of s' j = Ready" for j
    using p(6) [of j] that qs(3) st [of j] by (auto split: if_splits)
  moreover have "state_of s' j = Ready \<or> state_of s' j = Terminated"
    if "j \<in> set (queued (ready_qs s'))" for j
    using p(4) [of j] that qs(3) st [of j] by (auto split: if_splits)
  moreover have "state_of s' j \<noteq> Stopped \<and> \<not> t_stop_pending (threads s' j)" for j
    using p(9,10) [of j] st [of j] ts sp [of j] by auto
  moreover have "(state_of s' j \<noteq> Terminated) = (snd j \<in> set (p_threads (processes s' (fst j))))" for j
    using p(11) [of j] st [of j] ts procs(1) live by (cases "j = k") auto
  moreover have "process_state_of s' j \<noteq> PTerminated" if "state_of s' j \<noteq> Terminated" for j
    using that p(12) [of j] st [of j] procs(3) [of j] live by (cases "j = k") auto
  moreover have "distinct (p_threads (processes s' pid)) \<and>
      (\<forall>t \<in> set (p_threads (processes s' pid)). t < p_next_tid (processes s' pid))" for pid
    using p(13,14) procs(1,2) by auto
  moreover have "waiter_lost_count s' = 0" "dropped_current_count s' = 0"
    using p(15,16) counts by simp_all
  ultimately show ?thesis
    unfolding placed_except_def using qs(1,2) wq(1) by blast
qed

section \<open>Waking\<close>

lemma enqueue_local_ready:
  assumes "length (ready_qs s) = 4" "state_of s k = Ready" "distinct (queued (ready_qs s))"
    and "enqueue_ready_thread_local k s = (out, s')"
  shows "out = Enqueued \<and> s' = s\<lparr>ready_qs := ready_qs s'\<rparr> \<and> length (ready_qs s') = 4 \<and>
    distinct (queued (ready_qs s')) \<and>
    set (queued (ready_qs s')) = insert k (set (queued (ready_qs s)))"
proof -
  let ?qs = "snd (enqueue_ready_thread s k (ready_qs s))"
  have out: "out = Enqueued" "s' = s\<lparr>ready_qs := ?qs\<rparr>"
    using assms(4) enqueue_ready_thread_spec(1) [OF assms(1), of s k] assms(2)
    by (auto simp: enqueue_ready_thread_local_def split: prod.splits)
  have q: "length ?qs = 4"
    "mset (queued ?qs) = mset (k # filter (\<lambda>j. j \<noteq> k) (queued (ready_qs s)))"
    using enqueue_ready_thread_spec(2) [OF assms(1,2)] by auto
  have "set (queued ?qs) = set (k # filter (\<lambda>j. j \<noteq> k) (queued (ready_qs s)))"
    using q(2) mset_eq_setD by blast
  moreover have "distinct (queued ?qs)"
    using mset_eq_imp_distinct_iff [OF q(2)] assms(3) by simp
  ultimately show ?thesis
    using out q(1) by auto
qed

lemma maybe_set_need_resched_cases:
  "maybe_set_need_resched k s = s \<or> maybe_set_need_resched k s = s\<lparr>need_resched := True\<rparr>"
  by (auto simp: maybe_set_need_resched_def split: option.splits)

lemma placed_maybe_set_need_resched [simp]:
  "placed_except X (maybe_set_need_resched k s) = placed_except X s"
  using maybe_set_need_resched_cases [of k s] by (metis placed_except_irrelevant(1))

lemma remove_timed_waiter_spec:
  "distinct (parked s) \<Longrightarrow> state_of s k \<noteq> Waiting \<Longrightarrow>
   \<exists>q. remove_timed_waiter k s = s\<lparr>waiting_queue := q\<rparr> \<and> distinct (map fst q) \<and>
     set (map fst q) = set (parked s) - {k}"
proof -
  assume d: "distinct (parked s)" and st: "state_of s k \<noteq> Waiting"
  obtain removed rest where t: "drain_where (\<lambda>w. fst w = k) 0 (waiting_queue s) = (removed, rest)"
    by force
  note part = drain_where_partition [OF t]
  have "distinct (map fst rest)"
  proof -
    have "mset (map fst rest) = mset (map fst (filter (\<lambda>w. fst w \<noteq> k) (waiting_queue s)))"
      using part(2) by simp
    then show ?thesis
      using d distinct_map_filter unfolding parked_def by (metis mset_eq_imp_distinct_iff)
  qed
  moreover have "set (map fst rest) = set (parked s) - {k}"
    using part(4) by (auto simp: parked_def image_iff)
  moreover have "filter (\<lambda>w. state_of s (fst w) = Waiting \<and> wake_deadline (threads s (fst w)) \<noteq> None \<and>
      process_state_of s (fst w) \<noteq> PTerminated) removed = []"
    using part(3) st by (auto simp: filter_empty_conv)
  ultimately show ?thesis
    using t by (intro exI [of _ rest])
      (simp add: remove_timed_waiter_def take_timed_waiters_by_identity_def)
qed

text \<open>What \<open>wake_waiter\<close> does to a waiting thread of a live process that is not being stopped.\<close>

lemma wake_waiter_waiting:
  assumes "state_of s k = Waiting" "\<not> t_stop_pending (threads s k)" "process_state_of s k \<noteq> PTerminated"
  shows "wake_waiter outcome k s = (True,
    set_thread k (\<lambda>t. t\<lparr>t_wake_deadline := 0, t_outcome := outcome\<rparr>)
      (set_thread k (\<lambda>t. t\<lparr>t_state := Ready\<rparr>) (set_process (fst k) (\<lambda>p. p\<lparr>p_state := PReady\<rparr>) s)))"
  using assms by (simp add: wake_waiter_def set_process_and_thread_state_def)

lemma wake_waiter_not_waiting: "state_of s k \<noteq> Waiting \<Longrightarrow> wake_waiter outcome k s = (False, s)"
  by (simp add: wake_waiter_def)

lemma placed_woken:
  assumes "placed_except X s" "state_of s k = Waiting" "wake_waiter outcome k s = (b, s1)"
    and "s2 = s1\<lparr>waiting_queue := q\<rparr>" "distinct (map fst q)" "set (map fst q) - {k} = set (parked s) - {k}"
    and "enqueue_ready_thread_local k s2 = (out, s3)"
  shows "b \<and> out = Enqueued \<and> placed_except (X - {k}) s3"
proof -
  note p = placedD [OF assms(1)]
  have live: "state_of s k \<noteq> Terminated"
    using assms(2) by simp
  have s1: "b" "s1 = set_thread k (\<lambda>t. t\<lparr>t_wake_deadline := 0, t_outcome := outcome\<rparr>)
      (set_thread k (\<lambda>t. t\<lparr>t_state := Ready\<rparr>) (set_process (fst k) (\<lambda>p. p\<lparr>p_state := PReady\<rparr>) s))"
    using wake_waiter_waiting [OF assms(2) p(10) p(12) [OF live]] assms(3) by simp_all
  have ready: "state_of s2 k = Ready" "ready_qs s2 = ready_qs s"
    by (simp_all add: assms(4) s1)
  have e: "out = Enqueued" "s3 = s2\<lparr>ready_qs := ready_qs s3\<rparr>" "length (ready_qs s3) = 4"
    "distinct (queued (ready_qs s3))"
    "set (queued (ready_qs s3)) = insert k (set (queued (ready_qs s)))"
    using enqueue_local_ready [OF _ ready(1) _ assms(7)] ready(2) p(1,2) by auto
  have cur: "current s \<noteq> Some k"
    using p(5) [of k] assms(2) by auto
  have "placed_except (X - {k}) (s2\<lparr>ready_qs := ready_qs s3\<rparr>)"
    by (rule placed_move [OF assms(1) live, where ts = Ready])
      (use e(3-5) assms(4-6) s1(2) cur in \<open>auto simp: process_state_of_def split: if_splits\<close>)
  then show ?thesis
    using e(1,2) s1(1) by simp
qed

lemma placed_wake_thread:
  assumes "placed_except X s"
  shows "placed_except X (snd (wake_thread k s))"
proof (cases "state_of s k = Waiting")
  case True
  obtain b s1 where w: "wake_waiter Outcome_completed k s = (b, s1)"
    by force
  note p = placedD [OF assms]
  have s1: "b" "state_of s1 k = Ready" "parked s1 = parked s"
    using wake_waiter_waiting [OF True p(10) p(12)] True w by auto
  obtain q where q: "remove_timed_waiter k s1 = s1\<lparr>waiting_queue := q\<rparr>" "distinct (map fst q)"
    "set (map fst q) = set (parked s1) - {k}"
    using remove_timed_waiter_spec [of s1 k] s1 p(3) by auto
  obtain out s3 where e: "enqueue_ready_thread_local k (s1\<lparr>waiting_queue := q\<rparr>) = (out, s3)"
    by force
  have "placed_except (X - {k}) s3" "out = Enqueued"
    using placed_woken [OF assms True w refl q(2) _ e] q(3) s1(3) by auto
  then have "placed_except X s3"
    using placed_except_mono by blast
  then show ?thesis
    using w s1(1) q(1) e \<open>out = Enqueued\<close> by (simp add: wake_thread_def wake_by_signal_def)
next
  case False
  then show ?thesis
    using assms by (simp add: wake_thread_def wake_by_signal_def wake_waiter_not_waiting)
qed

lemma placed_wake_threads_counted:
  "placed_except X s \<Longrightarrow> placed_except X (snd (wake_threads_counted ks s))"
proof (induction ks arbitrary: s)
  case (Cons k ks)
  then show ?case
    using placed_wake_thread [OF Cons.prems, of k]
    by (auto simp: Let_def split: prod.splits) (metis snd_conv)+
qed simp

lemma placed_queue_wake:
  assumes "placed_except X s"
  shows "placed_except X (snd (queue_wake_one q s))" "placed_except X (snd (queue_wake_all q s))"
    "placed_except X (snd (event_signal q s))"
  using placed_wake_threads_counted [of X] assms
  by (simp_all add: queue_wake_one_def queue_wake_all_def event_signal_def wake_with_def
      split: prod.split) (metis placed_except_irrelevant(2) snd_conv)+

section \<open>Blocking\<close>

lemma enter_waiting_state_running:
  assumes "state_of s k \<noteq> Terminated" "process_state_of s k \<noteq> PTerminated"
  shows "\<exists>d. enter_waiting_state wake_tick k s =
    set_thread k (\<lambda>t. t\<lparr>t_wake_deadline := d, t_outcome := Outcome_pending\<rparr>)
      (set_thread k (\<lambda>t. t\<lparr>t_state := Waiting\<rparr>)
        (set_process (fst k) (\<lambda>p. p\<lparr>p_state := PWaiting\<rparr>) s))"
  using assms by (auto simp: enter_waiting_state_def set_process_and_thread_state_def)

lemma placed_parked:
  assumes "placed_except X s" "current s = Some k"
  shows "placed_except (X - {k}) (park_thread k cleanup
    (enter_waiting_state wake_tick k (s\<lparr>current := None, wait_queues := v\<rparr>)))"
proof -
  note p = placedD [OF assms(1)]
  define s1 where s1: "s1 = s\<lparr>current := None, wait_queues := v\<rparr>"
  have run: "state_of s k = Running"
    using p(5) assms(2) by simp
  obtain d where e: "enter_waiting_state wake_tick k s1 =
    set_thread k (\<lambda>t. t\<lparr>t_wake_deadline := d, t_outcome := Outcome_pending\<rparr>)
      (set_thread k (\<lambda>t. t\<lparr>t_state := Waiting\<rparr>)
        (set_process (fst k) (\<lambda>p. p\<lparr>p_state := PWaiting\<rparr>) s1))"
    using enter_waiting_state_running [of s1 k wake_tick] run p(12) [of k] by (auto simp: s1)
  have nq: "k \<notin> set (queued (ready_qs s))"
    using p(4) [of k] run by auto
  have d: "distinct (map fst (remove_timed_waiters_by_identity (waiting_queue s) k @ [(k, cleanup)]))"
    using p(3) by (auto simp: remove_timed_waiters_by_identity_def parked_def distinct_map_filter)
  show ?thesis
    unfolding s1 [symmetric] e park_thread_def
    by (rule placed_move [OF assms(1), where ts = Waiting])
      (use run nq d p(1,2) assms(2) in \<open>auto simp: s1 process_state_of_def parked_def
        remove_timed_waiters_by_identity_def split: if_splits\<close>)
qed

lemma placed_block:
  assumes "placed s"
  shows "placed (sleep_current_thread ticks s)"
    "placed (snd (block_current_on q s))" "placed (snd (block_current_until_on q deadline s))"
proof -
  note park = placed_parked [OF assms, simplified]
  show "placed (sleep_current_thread ticks s)"
    using park [where v = "wait_queues s"]
    by (simp add: sleep_current_thread_def block_current_thread_if_def Let_def assms
        split: option.split)
  show "placed (snd (block_current_on q s))" "placed (snd (block_current_until_on q deadline s))"
    using park by (simp_all add: block_current_on_def block_current_until_on_def
        block_current_thread_if_def Let_def assms split: option.split)
qed

section \<open>Timeouts\<close>

lemma cleanup_remove_waiter_fields:
  "\<exists>v. cleanup_remove_waiter w s = s\<lparr>wait_queues := v\<rparr>"
proof (cases "snd w")
  case None
  then show ?thesis
    by (intro exI [of _ "wait_queues s"]) (simp add: cleanup_remove_waiter_def)
qed (auto simp: cleanup_remove_waiter_def)

lemma fold_cleanup_fields: "\<exists>v. fold cleanup_remove_waiter ws s = s\<lparr>wait_queues := v\<rparr>"
proof (induction ws arbitrary: s)
  case Nil
  then show ?case
    by (intro exI [of _ "wait_queues s"]) simp
next
  case (Cons w ws)
  obtain v where "cleanup_remove_waiter w s = s\<lparr>wait_queues := v\<rparr>"
    using cleanup_remove_waiter_fields by blast
  then show ?case
    using Cons [of "s\<lparr>wait_queues := v\<rparr>"] by auto
qed

lemma placed_elapsed:
  assumes "placed_except X s" "fst w \<in> X" "state_of s (fst w) = Waiting" "fst w \<notin> set (parked s)"
  shows "placed_except (X - {fst w}) (snd (process_elapsed_timed_waiter w s))"
    "\<And>j. j \<noteq> fst w \<Longrightarrow> state_of (snd (process_elapsed_timed_waiter w s)) j = state_of s j"
    "parked (snd (process_elapsed_timed_waiter w s)) = parked s"
proof -
  obtain v where c: "cleanup_remove_waiter w s = s\<lparr>wait_queues := v\<rparr>"
    using cleanup_remove_waiter_fields by blast
  let ?s = "s\<lparr>wait_queues := v\<rparr>"
  have pl: "placed_except X ?s" and wait: "state_of ?s (fst w) = Waiting"
    using assms by simp_all
  note p = placedD [OF pl]
  obtain b s1 where w: "wake_waiter Outcome_timed_out (fst w) ?s = (b, s1)"
    by force
  have s1: "b" "parked s1 = parked s" "\<And>j. j \<noteq> fst w \<Longrightarrow> state_of s1 j = state_of s j"
    using wake_waiter_waiting [OF wait p(10) p(12)] wait w by auto
  obtain out s3 where e: "enqueue_ready_thread_local (fst w) s1 = (out, s3)"
    by force
  have wq: "map fst (waiting_queue s1) = parked s"
    using s1(2) by (simp add: parked_def)
  have same: "s1 = s1\<lparr>waiting_queue := waiting_queue s1\<rparr>"
    by simp
  have "placed_except (X - {fst w}) s3"
    using placed_woken [OF pl wait w same _ _ e] p(3) unfolding wq by simp
  moreover have run: "snd (process_elapsed_timed_waiter w s) = s3"
    using w s1(1) e by (simp add: process_elapsed_timed_waiter_def c wake_by_timeout_def)
  moreover have "s3 = s1\<lparr>ready_qs := ready_qs s3\<rparr>"
    using e by (auto simp: enqueue_ready_thread_local_def split: prod.splits)
  ultimately show "placed_except (X - {fst w}) (snd (process_elapsed_timed_waiter w s))"
    "\<And>j. j \<noteq> fst w \<Longrightarrow> state_of (snd (process_elapsed_timed_waiter w s)) j = state_of s j"
    "parked (snd (process_elapsed_timed_waiter w s)) = parked s"
    using s1(2,3) by (simp_all, metis state_of_fields(1), metis parked_fields(1))
qed

lemma maybe_set_need_resched_view [simp]:
  "state_of (maybe_set_need_resched k s) = state_of s"
  "parked (maybe_set_need_resched k s) = parked s"
  using maybe_set_need_resched_cases [of k s] by (metis state_of_fields(4), metis parked_fields(4))

lemma placed_process_elapsed_waiters:
  "placed_except (set (map fst ws)) s \<Longrightarrow> distinct (map fst ws) \<Longrightarrow>
   (\<And>w. w \<in> set ws \<Longrightarrow> state_of s (fst w) = Waiting \<and> fst w \<notin> set (parked s)) \<Longrightarrow>
   placed (snd (process_elapsed_waiters ws s))"
proof (induction ws arbitrary: s)
  case (Cons w ws)
  obtain out s1 where s1: "process_elapsed_timed_waiter w s = (out, s1)"
    by force
  define s2 where "s2 = (if out = Enqueued then maybe_set_need_resched (fst w) s1 else s1)"
  have "placed_except (set (map fst (w # ws)) - {fst w}) s1"
    "\<And>j. j \<noteq> fst w \<Longrightarrow> state_of s1 j = state_of s j" "parked s1 = parked s"
    using placed_elapsed [OF Cons.prems(1), of w] Cons.prems(3) [of w] s1 by simp_all
  then have "placed_except (set (map fst ws)) s2"
    "\<And>j. j \<noteq> fst w \<Longrightarrow> state_of s2 j = state_of s j" "parked s2 = parked s"
    using Cons.prems(2) by (auto simp: s2_def)
  then have "placed (snd (process_elapsed_waiters ws s2))"
    using Cons.IH [of s2] Cons.prems(2,3) by (metis (no_types, lifting) distinct.simps(2) image_eqI
        list.set_intros(2) list.set_map list.simps(9))
  then show ?case
    using s1 by (cases out) (simp_all add: s2_def Let_def split_beta)
qed simp

lemma placed_wake_ready_threads:
  assumes "placed s"
  shows "placed (snd (wake_ready_threads ticks s))"
proof -
  note p = placedD [OF assms]
  obtain stale q1 where st: "take_stale_timed_waiters s (waiting_queue s) = (stale, q1)"
    by force
  obtain woke q2 where el: "take_elapsed_timed_waiters s ticks q1 = (woke, q2)"
    by force
  note part1 = drain_where_partition [OF st [unfolded take_stale_timed_waiters_def]]
  note part2 = drain_where_partition [OF el [unfolded take_elapsed_timed_waiters_def]]
  obtain v where v: "fold cleanup_remove_waiter stale (s\<lparr>waiting_queue := q2\<rparr>) =
      s\<lparr>waiting_queue := q2, wait_queues := v\<rparr>"
    using fold_cleanup_fields by blast
  have d1: "distinct (map fst q1)"
  proof -
    have "mset (map fst q1) = mset (map fst (filter (\<lambda>w. \<not> \<not> parked_waiter_is_active s w) (waiting_queue s)))"
      using part1(2) by simp
    then show ?thesis
      using p(3) distinct_map_filter unfolding parked_def by (metis mset_eq_imp_distinct_iff)
  qed
  have q1: "mset (map fst q1) = mset (map fst woke @ map fst q2)"
    using part2(1,2) multiset_partition [of "mset q1"] by (metis image_mset_union mset_append mset_map)
  then have d: "distinct (map fst woke)" "distinct (map fst q2)" "set (map fst woke) \<inter> set (map fst q2) = {}"
    using d1 mset_eq_imp_distinct_iff [OF q1] by auto
  have sets: "set (map fst q1) = set (map fst woke) \<union> set (map fst q2)"
    using mset_eq_setD [OF q1] by simp
  have active: "state_of s (fst w) = Waiting" if "w \<in> set woke" for w
    using that part2(3) part1(4) by (auto simp: parked_waiter_is_active_def)
  have kept: "k \<in> set (map fst q1)" if "state_of s k = Waiting" for k
  proof -
    have "k \<in> set (parked s)" "process_state_of s k \<noteq> PTerminated"
      using p(8,12) [of k] that by auto
    then show ?thesis
      using that part1(4) by (auto simp: parked_def parked_waiter_is_active_def image_iff)
  qed
  have "placed_except (set (map fst woke)) (s\<lparr>waiting_queue := q2, wait_queues := v\<rparr>)"
    unfolding placed_except_irrelevant
  proof (rule placedI)
    show "k \<in> set (parked (s\<lparr>waiting_queue := q2\<rparr>))"
      if "k \<notin> set (map fst woke)" "state_of (s\<lparr>waiting_queue := q2\<rparr>) k = Waiting" for k
      using that kept [of k] sets by auto
  qed (simp_all add: d(2) p(1-3,9,10,13,15,16), (use p(4-7,11,12,14) in blast)+)
  then have "placed (snd (process_elapsed_waiters woke (s\<lparr>waiting_queue := q2, wait_queues := v\<rparr>)))"
    by (rule placed_process_elapsed_waiters) (use d active in auto)
  then show ?thesis
    by (simp add: wake_ready_threads_def st el v)
qed

section \<open>The starvation boost\<close>

lemma move_threads_mset:
  assumes "length qs = 4" "distinct (queued qs)" "distinct ks" "set ks \<subseteq> set (queued qs)"
  shows "mset (queued (move_threads ks p qs)) = mset (queued qs) \<and> length (move_threads ks p qs) = 4"
proof -
  have "mset (queued (move_threads ks p qs)) =
      mset ks + mset (filter (\<lambda>j. j \<notin> set ks) (queued qs))"
    using assms(1) priority_index_less [of p]
    by (simp add: move_threads_def mset_fold_push queued_fold_remove)
  also have "mset ks = mset (filter (\<lambda>j. j \<in> set ks) (queued qs))"
  proof (rule set_eq_iff_mset_eq_distinct [THEN iffD1])
    show "set ks = set (filter (\<lambda>j. j \<in> set ks) (queued qs))"
      using assms(4) by auto
  qed (use assms(2,3) in simp_all)
  also have "\<dots> + mset (filter (\<lambda>j. j \<notin> set ks) (queued qs)) = mset (queued qs)"
    using multiset_partition [of "mset (queued qs)" "\<lambda>j. j \<in> set ks"] by simp
  finally show ?thesis
    using assms(1) by (simp add: move_threads_def)
qed

lemma placed_requeue:
  assumes "placed_except X s" "mset (queued qs) = mset (queued (ready_qs s))" "length qs = 4"
  shows "placed_except X (s\<lparr>ready_qs := qs\<rparr>)"
proof -
  note p = placedD [OF assms(1)]
  have set: "set (queued qs) = set (queued (ready_qs s))" "distinct (queued qs)"
    using mset_eq_setD [OF assms(2)] mset_eq_imp_distinct_iff [OF assms(2)] p(2) by auto
  show ?thesis
    by (rule placedI) (simp_all add: assms(3) set p(1-3,9,10,13,15,16), (use p(4-8,11,12,14) in blast)+)
qed

lemma age_normal_threads_spec:
  "placed_except X s \<Longrightarrow> age_normal_threads ks s = (boosted, s') \<Longrightarrow>
   placed_except X s' \<and> ready_qs s' = ready_qs s \<and> set boosted \<subseteq> set ks \<and>
   (distinct ks \<longrightarrow> distinct boosted)"
proof (induction ks arbitrary: s boosted s')
  case (Cons k ks)
  let ?s = "set_thread k (\<lambda>t. t\<lparr>t_waiting_ticks := t_waiting_ticks (threads s k) + 1\<rparr>) s"
  obtain b s2 where b: "age_normal_threads ks ?s = (b, s2)"
    by force
  have "placed_except X ?s"
    using Cons.prems(1) by (simp add: placed_except_set_thread)
  then show ?case
    using Cons.IH [OF _ b] Cons.prems(2) b by (auto simp: Let_def split: if_splits)
qed simp

lemma fold_set_thread_fields [simp]:
  "ready_qs (fold (\<lambda>k s. set_thread k f s) ks s) = ready_qs s"
  by (induction ks arbitrary: s) simp_all

lemma boost_starved_threads_spec:
  assumes "placed_except X s"
  shows "placed_except X (boost_starved_threads s)"
    "mset (queued (ready_qs (boost_starved_threads s))) = mset (queued (ready_qs s))"
proof -
  obtain boosted s1 where age:
    "age_normal_threads (ready_qs s ! priority_index Normal) s = (boosted, s1)"
    by force
  define s2 where "s2 = fold (\<lambda>k s. set_thread k
    (\<lambda>t. t\<lparr>t_waiting_ticks := 0, t_slice_remaining := BOOST_DURATION_TICKS,
           t_priority := High, t_boosted := True\<rparr>) s) boosted s1"
  define qs2 where "qs2 = move_threads boosted High (ready_qs s2)"
  define demoted where "demoted = filter (\<lambda>k. t_boosted (threads s2 k) \<and>
    t_slice_remaining (threads s2 k) = 0) (qs2 ! priority_index High)"
  define s3 where "s3 = fold (\<lambda>k s. set_thread k
    (\<lambda>t. t\<lparr>t_boosted := False, t_priority := Normal\<rparr>) s) demoted s2"
  define qs3 where "qs3 = move_threads demoted Normal qs2"
  note p = placedD [OF assms]
  note age' = age_normal_threads_spec [OF assms age]
  have n: "priority_index q < length (ready_qs s)" for q
    using p(1) priority_index_less [of q] by simp
  have s2: "placed_except X s2" "ready_qs s2 = ready_qs s"
    using age' by (simp_all add: s2_def placed_except_fold_set_thread)
  have b: "distinct boosted" "set boosted \<subseteq> set (queued (ready_qs s))"
    using age' set_nth_queued [OF n] distinct_nth_queued [OF p(2) n] by blast+
  have qs2: "mset (queued qs2) = mset (queued (ready_qs s))" "length qs2 = 4"
    using move_threads_mset [OF p(1,2) b, of High] by (simp_all add: qs2_def s2(2))
  have d2: "distinct (queued qs2)"
    using mset_eq_imp_distinct_iff [OF qs2(1)] p(2) by simp
  have "distinct demoted" "set demoted \<subseteq> set (queued qs2)"
    using distinct_nth_queued [OF d2, of "priority_index High"]
      set_nth_queued [of "priority_index High" qs2] qs2(2) by (auto simp: demoted_def)
  then have qs3: "mset (queued qs3) = mset (queued (ready_qs s))" "length qs3 = 4"
    using move_threads_mset [OF qs2(2) d2, of demoted Normal] qs2(1) by (simp_all add: qs3_def)
  have s3: "placed_except X s3" "ready_qs s3 = ready_qs s"
    using s2 by (simp_all add: s3_def placed_except_fold_set_thread)
  have eq: "boost_starved_threads s = s3\<lparr>ready_qs := qs3\<rparr>"
    by (simp only: boost_starved_threads_def age s2_def qs2_def demoted_def s3_def qs3_def Let_def
        prod.case)
  show "placed_except X (boost_starved_threads s)"
    unfolding eq by (rule placed_requeue) (use s3 qs3 in simp_all)
  show "mset (queued (ready_qs (boost_starved_threads s))) = mset (queued (ready_qs s))"
    by (simp add: eq qs3)
qed

section \<open>Leaving the processor\<close>

lemma placed_prune:
  assumes "placed_except X s"
  shows "placed_except X (s\<lparr>ready_qs := map (filter (\<lambda>k. state_of s k = Ready)) (ready_qs s)\<rparr>)"
proof -
  note p = placedD [OF assms]
  show ?thesis
    by (rule placedI) (simp_all add: queued_filter p(1-3,9,10,13,15,16), (use p(5-8,11,12,14) in blast)+)
qed

lemma placed_preempt:
  assumes "placed s"
  shows "placed (snd (preempt_current_thread_from_interrupt s))"
proof (cases "current s")
  case None
  then show ?thesis
    using assms by (simp add: preempt_current_thread_from_interrupt_def)
next
  case (Some k)
  let ?qs = "map (filter (\<lambda>k. state_of s k = Ready)) (ready_qs s)"
  let ?s1 = "s\<lparr>ready_qs := ?qs\<rparr>"
  have pruned: "has_dispatchable_ready_thread s (ready_qs s) = (list_ex (\<lambda>q. q \<noteq> []) ?qs, ?qs)"
    by (simp add: has_dispatchable_ready_thread_def prune_nondispatchable_ready_threads_def
        should_dispatch_ready_thread_def Let_def)
  have s1: "placed ?s1"
    using placed_prune [OF assms] .
  note p = placedD [OF s1]
  have run: "state_of s k = Running" "process_state_of s k \<noteq> PTerminated"
    using p(5) [of k] p(12) [of k] Some by simp_all
  let ?s2 = "yield_back_to_ready k (?s1\<lparr>current := None\<rparr>)"
  have s2: "?s2 = set_thread k (\<lambda>t. t\<lparr>t_state := Ready\<rparr>)
      (set_process (fst k) (\<lambda>p. p\<lparr>p_state := PReady\<rparr>) (?s1\<lparr>current := None\<rparr>))"
    using run by (simp add: yield_back_to_ready_def set_process_and_thread_state_def)
  have ready: "state_of ?s2 k = Ready" "length (ready_qs ?s2) = 4" "ready_qs ?s2 = ?qs"
    using p(1) by (simp_all add: s2)
  let ?q = "snd (requeue_preempted_thread ?s2 k (ready_qs ?s2))"
  note rq = requeue_preempted_thread_spec [OF ready(2,1)]
  have q: "mset (queued ?q) = mset (k # filter (\<lambda>j. j \<noteq> k) (queued ?qs))"
    using rq(3) ready(3) by simp
  have "placed_except ({} - {k}) (?s2\<lparr>ready_qs := ?q\<rparr>)"
  proof (rule placed_move [OF s1, where ts = Ready])
    show "distinct (queued (ready_qs (?s2\<lparr>ready_qs := ?q\<rparr>)))"
      using mset_eq_imp_distinct_iff [OF q] p(2) by simp
    show "set (queued (ready_qs (?s2\<lparr>ready_qs := ?q\<rparr>))) = (if Ready = Ready
        then insert k (set (queued (ready_qs ?s1))) else set (queued (ready_qs ?s1)) - {k})"
      using mset_eq_setD [OF q] by auto
    show "length (ready_qs (?s2\<lparr>ready_qs := ?q\<rparr>)) = 4"
      using rq(2) by simp
  qed (use run Some p(3) in \<open>auto simp: s2 process_state_of_def split: if_splits\<close>)
  then show ?thesis
    using Some s1 pruned rq(1)
    by (simp add: preempt_current_thread_from_interrupt_def Let_def split_beta)
qed

section \<open>Termination\<close>

lemma placed_except_terminated:
  assumes "placed_except X s" "state_of s k = Terminated"
  shows "placed_except (X - {k}) s"
proof -
  note p = placedD [OF assms(1)]
  show ?thesis
  proof (rule placedI)
    fix j assume "j \<notin> X - {k}"
    then have "j \<notin> X \<or> j = k"
      by blast
    then show "state_of s j = Ready \<Longrightarrow> j \<in> set (queued (ready_qs s))"
      "state_of s j = Running \<Longrightarrow> current s = Some j"
      "state_of s j = Waiting \<Longrightarrow> j \<in> set (parked s)"
      using p(6-8) [of j] assms(2) by auto
  qed (simp_all add: p(1-3,9,10,13,15,16), (use p(4,5,11,12,14) in blast)+)
qed

lemma current_wake [simp]:
  "current (snd (wake_waiter outcome k s)) = current s"
  "current (remove_timed_waiter k s) = current s"
  "current (snd (enqueue_ready_thread_local k s)) = current s"
  "current (maybe_set_need_resched k s) = current s"
  by (auto simp: wake_waiter_def set_process_and_thread_state_def remove_timed_waiter_def
      enqueue_ready_thread_local_def maybe_set_need_resched_def split_beta split: option.splits)

lemma current_wake_thread [simp]: "current (snd (wake_thread k s)) = current s"
proof -
  obtain b s1 where "wake_waiter Outcome_completed k s = (b, s1)" by force
  moreover obtain out s2 where "enqueue_ready_thread_local k (remove_timed_waiter k s1) = (out, s2)" by force
  ultimately show ?thesis
    using current_wake(1) [of Outcome_completed k s]
      current_wake(3) [of k "remove_timed_waiter k s1"]
    by (simp add: wake_thread_def wake_by_signal_def split: bool.split enqueue_outcome.split)
qed

lemma current_event_signal [simp]: "current (snd (event_signal q s)) = current s"
proof -
  have "current (snd (wake_threads_counted ks s)) = current s" for ks s
    by (induction ks arbitrary: s) (simp_all add: Let_def split_beta)
  then show ?thesis
    by (simp add: event_signal_def wake_with_def)
qed

lemma state_of_wake_thread: "state_of s j \<noteq> Waiting \<Longrightarrow> state_of (snd (wake_thread k s)) j = state_of s j"
proof (cases "state_of s k = Waiting")
  case True
  assume j: "state_of s j \<noteq> Waiting"
  obtain b s1 where w: "wake_waiter Outcome_completed k s = (b, s1)" by force
  then have s1: "state_of s1 j = state_of s j"
    using j True by (auto simp: wake_waiter_def set_process_and_thread_state_def split: if_splits)
  obtain out s2 where e: "enqueue_ready_thread_local k (remove_timed_waiter k s1) = (out, s2)" by force
  then have "state_of s2 j = state_of s1 j"
    by (auto simp: enqueue_ready_thread_local_def remove_timed_waiter_def split: prod.splits)
  then show ?thesis
    using w e s1 by (simp add: wake_thread_def wake_by_signal_def split: bool.split enqueue_outcome.split)
qed (simp add: wake_thread_def wake_by_signal_def wake_waiter_not_waiting)

lemma state_of_event_signal:
  "state_of s j \<noteq> Waiting \<Longrightarrow> state_of (snd (event_signal q s)) j = state_of s j"
proof -
  have "state_of s j \<noteq> Waiting \<Longrightarrow> state_of (snd (wake_threads_counted ks s)) j = state_of s j" for ks s
    by (induction ks arbitrary: s) (simp_all add: Let_def split_beta state_of_wake_thread)
  then show "state_of s j \<noteq> Waiting \<Longrightarrow> state_of (snd (event_signal q s)) j = state_of s j"
    by (simp add: event_signal_def wake_with_def)
qed

lemma position_eq: "position P xs = Some i \<Longrightarrow> i < length xs \<and> P (xs ! i)"
  by (induction xs arbitrary: i) (auto split: if_splits)

lemma position_None: "position P xs = None \<Longrightarrow> x \<in> set xs \<Longrightarrow> \<not> P x"
  by (induction xs) (auto split: if_splits)

lemma mset_swap_remove: "i < length xs \<Longrightarrow> add_mset (xs ! i) (mset (swap_remove i xs)) = mset xs"
  using mset_drop_swap_remove [of i xs] take_swap_remove [of i xs]
    append_take_drop_id [of i xs] append_take_drop_id [of i "swap_remove i xs"]
  by (metis mset_append union_mset_add_mset_right)

lemma finish_thread_termination_spec:
  assumes "distinct (p_threads (processes s (fst k)))" "snd k \<in> set (p_threads (processes s (fst k)))"
    and "finish_thread_termination k s = (ended, s')"
  shows "\<exists>left st. s' = set_process (fst k) (\<lambda>p. p\<lparr>p_threads := left, p_state := st\<rparr>) s \<and>
    distinct left \<and> set left = set (p_threads (processes s (fst k))) - {snd k} \<and>
    (left \<noteq> [] \<longrightarrow> st = p_state (processes s (fst k)))"
proof -
  let ?ts = "p_threads (processes s (fst k))"
  obtain i where i: "position (\<lambda>t. t = snd k) ?ts = Some i"
    using assms(2) position_None [of "\<lambda>t. t = snd k" ?ts] by (cases "position (\<lambda>t. t = snd k) ?ts") auto
  have at: "i < length ?ts" "?ts ! i = snd k"
    using position_eq [OF i] by auto
  let ?left = "swap_remove i ?ts"
  have m: "mset (snd k # ?left) = mset ?ts"
    using mset_swap_remove [OF at(1)] at(2) by simp
  have d: "distinct ?left" "snd k \<notin> set ?left"
    using mset_eq_imp_distinct_iff [OF m] assms(1) by simp_all
  have "set ?left = set ?ts - {snd k}"
    using mset_eq_setD [OF m] d(2) by auto
  moreover have "s' = set_process (fst k) (\<lambda>p. p\<lparr>p_threads := ?left,
      p_state := (if ?left \<noteq> [] \<or> process_state_of s k = PTerminated then p_state (processes s (fst k))
                  else PTerminated)\<rparr>) s"
    using assms(3) i by (auto simp: finish_thread_termination_def Let_def set_process_def process_state_of_def
        split: if_splits)
  ultimately show ?thesis
    using d(1) by (intro exI conjI) (assumption | simp)+
qed

lemma finish_thread_termination_view:
  "ready_qs (snd (finish_thread_termination k s)) = ready_qs s"
  "parked (snd (finish_thread_termination k s)) = parked s"
  "current (snd (finish_thread_termination k s)) = current s"
  "state_of (snd (finish_thread_termination k s)) = state_of s"
  by (simp_all add: finish_thread_termination_def Let_def fun_eq_iff split: option.split)

lemma placed_finish_prefix:
  assumes "placed_except X s" "current s \<noteq> Some k" "state_of s k \<noteq> Terminated"
    and f: "finish_thread_termination k (set_thread k (\<lambda>t. t\<lparr>t_state := Terminated\<rparr>) s) = (ended, s2)"
  shows "placed_except (X - {k}) s2"
proof -
  note p = placedD [OF assms(1)]
  let ?s1 = "set_thread k (\<lambda>t. t\<lparr>t_state := Terminated\<rparr>) s"
  obtain left st where s2: "s2 = set_process (fst k) (\<lambda>p. p\<lparr>p_threads := left, p_state := st\<rparr>) ?s1"
    "distinct left" "set left = set (p_threads (processes s (fst k))) - {snd k}"
    "left \<noteq> [] \<longrightarrow> st = p_state (processes s (fst k))"
    using finish_thread_termination_spec [OF _ _ f] p(13) [of "fst k"] p(11) [of k] assms(3) by auto
  show ?thesis
  proof (rule placedI)
    fix j
    show "state_of s2 j \<noteq> Terminated \<longleftrightarrow> snd j \<in> set (p_threads (processes s2 (fst j)))"
      using p(11) [of j] s2(3) by (auto simp: s2(1) prod_eq_iff)
    show "process_state_of s2 j \<noteq> PTerminated" if "state_of s2 j \<noteq> Terminated"
    proof -
      have j: "state_of s j \<noteq> Terminated" "j \<noteq> k"
        using that by (auto simp: s2(1) split: if_splits)
      have "st = p_state (processes s (fst k))" if "fst j = fst k"
      proof -
        have "snd j \<noteq> snd k" "snd j \<in> set (p_threads (processes s (fst k)))"
          using that j p(11) [of j] by (simp_all add: prod_eq_iff)
        then have "snd j \<in> set left"
          using s2(3) by blast
        then show ?thesis
          using s2(4) by force
      qed
      then show ?thesis
        using p(12) [of j] j by (auto simp: s2(1) process_state_of_def)
    qed
    show "state_of s2 j = Ready \<or> state_of s2 j = Terminated" if "j \<in> set (queued (ready_qs s2))"
      using that p(4) [of j] by (auto simp: s2(1))
    show "state_of s2 j = Running" if "current s2 = Some j"
      using that p(5) [of j] assms(2) by (auto simp: s2(1))
    show "j \<in> set (queued (ready_qs s2))" if "j \<notin> X - {k}" "state_of s2 j = Ready"
      using that p(6) [of j] by (auto simp: s2(1) split: if_splits)
    show "current s2 = Some j" if "j \<notin> X - {k}" "state_of s2 j = Running"
      using that p(7) [of j] by (auto simp: s2(1) split: if_splits)
    show "j \<in> set (parked s2)" if "j \<notin> X - {k}" "state_of s2 j = Waiting"
      using that p(8) [of j] by (auto simp: s2(1) split: if_splits)
    show "state_of s2 j \<noteq> Stopped" "\<not> t_stop_pending (threads s2 j)"
      using p(9,10) [of j] by (auto simp: s2(1))
  next
    fix pid t
    show "distinct (p_threads (processes s2 pid))"
      using p(13) [of pid] s2(2) by (simp add: s2(1))
    show "t < p_next_tid (processes s2 pid)" if "t \<in> set (p_threads (processes s2 pid))"
      using that p(14) [of t pid] s2(3) by (auto simp: s2(1) split: if_splits)
  qed (simp_all add: s2(1) p(1-3,15,16))
qed

lemma placed_finish_termination:
  assumes "placed_except X s" "current s \<noteq> Some k"
  shows "placed_except (X - {k}) (finish_termination k s) \<and>
    current (finish_termination k s) = current s \<and> state_of (finish_termination k s) k = Terminated"
proof (cases "state_of s k = Terminated")
  case True
  then show ?thesis
    using placed_except_terminated [OF assms(1)] by (simp add: finish_termination_def)
next
  case False
  let ?s1 = "set_thread k (\<lambda>t. t\<lparr>t_state := Terminated\<rparr>) s"
  obtain ended s2 where f: "finish_thread_termination k ?s1 = (ended, s2)"
    by force
  have pl: "placed_except (X - {k}) s2"
    using placed_finish_prefix [OF assms False f] .
  have gone2: "current s2 = current s" "state_of s2 k = Terminated"
    using finish_thread_termination_view [of k ?s1] f by simp_all
  define s3 where "s3 = (if ended then snd (event_signal (process_event s2 (fst k)) s2) else s2)"
  define s4 where "s4 = snd (event_signal (thread_event s3 k) s3)"
  have s4: "placed_except (X - {k}) s4" "current s4 = current s"
    using pl gone2(1) by (simp_all add: s4_def s3_def placed_queue_wake)
  have gone: "state_of s4 k = Terminated"
    using gone2(2) by (simp add: s4_def s3_def state_of_event_signal)
  have "finish_termination k s =
    set_thread k (\<lambda>t. t\<lparr>t_wake_deadline := 0, t_outcome := Outcome_completed\<rparr>) s4"
    using False f by (simp add: finish_termination_def s3_def s4_def Let_def)
  then show ?thesis
    using s4 gone by (simp add: placed_except_set_thread) (simp add: state_of_def)
qed

lemma placed_fold_finish:
  "placed_except (X \<union> set ks) s \<Longrightarrow> current s = None \<Longrightarrow>
   placed_except X (fold finish_termination ks s) \<and> current (fold finish_termination ks s) = None"
proof (induction ks arbitrary: s)
  case (Cons k ks)
  have "placed_except ((X \<union> set (k # ks)) - {k}) (finish_termination k s)"
    "current (finish_termination k s) = None"
    using placed_finish_termination [OF Cons.prems(1), of k] Cons.prems(2) by simp_all
  then show ?case
    using Cons.IH [of "finish_termination k s"]
      placed_except_mono [of "(X \<union> set (k # ks)) - {k}" "finish_termination k s" "X \<union> set ks"] by auto
qed simp

lemma placed_vacate:
  assumes "placed s" "current s = Some k"
  shows "placed_except {k} (s\<lparr>current := None\<rparr>)"
proof -
  note p = placedD [OF assms(1)]
  show ?thesis
  proof (rule placedI)
    show "current (s\<lparr>current := None\<rparr>) = Some j"
      if "j \<notin> {k}" "state_of (s\<lparr>current := None\<rparr>) j = Running" for j
      using that p(7) [of j] assms(2) by simp
  qed (simp_all add: p(1-3,9,10,13,15,16), (use p(4,6,8,11,12,14) in blast)+)
qed

lemma placed_terminate_siblings:
  assumes "placed_except {k} s" "current s = None"
  shows "placed_except {k} (terminate_sibling_threads k s) \<and> current (terminate_sibling_threads k s) = None"
proof -
  define sibling where "sibling j \<longleftrightarrow> fst j = fst k \<and> snd j \<noteq> snd k" for j :: thread_key
  define ks where "ks = filter sibling (queued (ready_qs s)) @ filter sibling (parked s)"
  define s1 where "s1 = s\<lparr>ready_qs := map (filter (\<lambda>j. \<not> sibling j)) (ready_qs s),
    waiting_queue := filter (\<lambda>w. \<not> sibling (fst w)) (waiting_queue s)\<rparr>"
  note p = placedD [OF assms(1)]
  have q: "queued (ready_qs s1) = filter (\<lambda>j. \<not> sibling j) (queued (ready_qs s))"
    by (simp add: s1_def queued_filter)
  have w: "set (parked s1) = {j \<in> set (parked s). \<not> sibling j}" "distinct (parked s1)"
    using p(3) by (auto simp: s1_def parked_def distinct_map_filter)
  have "placed_except ({k} \<union> set ks) s1"
  proof (rule placedI)
    fix j assume j: "j \<notin> {k} \<union> set ks"
    show "j \<in> set (queued (ready_qs s1))" if "state_of s1 j = Ready"
      using that j p(6) [of j] unfolding q by (auto simp: s1_def ks_def)
    show "j \<in> set (parked s1)" if "state_of s1 j = Waiting"
      using that j p(8) [of j] unfolding w by (auto simp: s1_def ks_def)
    show "current s1 = Some j" if "state_of s1 j = Running"
      using that j p(7) [of j] by (auto simp: s1_def)
  next
    show "state_of s1 j = Ready \<or> state_of s1 j = Terminated" if "j \<in> set (queued (ready_qs s1))" for j
      using that p(4) [of j] unfolding q by (simp add: s1_def)
    show "distinct (queued (ready_qs s1))" "distinct (parked s1)"
      using p(2) w(2) by (simp_all add: q)
  qed (simp_all add: s1_def p(1,9,10,13,15,16) assms(2), (use p(11,12,14) in blast)+)
  moreover have "current s1 = None"
    using assms(2) by (simp add: s1_def)
  ultimately have "placed_except {k} (fold finish_termination ks s1) \<and>
      current (fold finish_termination ks s1) = None"
    by (rule placed_fold_finish)
  moreover have "sibling = (\<lambda>j. fst j = fst k \<and> snd j \<noteq> snd k)"
    by (simp add: fun_eq_iff sibling_def)
  ultimately show ?thesis
    by (simp add: terminate_sibling_threads_def ks_def s1_def Let_def queued_def parked_def)
qed

lemma placed_finish_current:
  assumes "placed s"
  shows "placed (snd (finish_current_thread s)) \<and> current (snd (finish_current_thread s)) = None"
proof (cases "current s")
  case None
  then show ?thesis
    using assms by (simp add: finish_current_thread_def)
next
  case (Some k)
  let ?s1 = "terminate_sibling_threads k (s\<lparr>current := None\<rparr>)"
  let ?s2 = "finish_termination k ?s1"
  have "placed_except {k} ?s1 \<and> current ?s1 = None"
    using placed_terminate_siblings [OF placed_vacate [OF assms Some]] by simp
  then have s2: "placed ?s2" "current ?s2 = None" "state_of ?s2 k = Terminated"
    using placed_finish_termination [of "{k}" ?s1 k] by simp_all
  note p = placedD [OF s2(1)]
  obtain q where q: "remove_timed_waiter k ?s2 = ?s2\<lparr>waiting_queue := q\<rparr>" "distinct (map fst q)"
    "set (map fst q) = set (parked ?s2) - {k}"
    using remove_timed_waiter_spec [OF p(3), of k] s2(3) by auto
  have "placed (?s2\<lparr>waiting_queue := q\<rparr>)"
  proof (rule placedI)
    show "j \<in> set (parked (?s2\<lparr>waiting_queue := q\<rparr>))"
      if "state_of (?s2\<lparr>waiting_queue := q\<rparr>) j = Waiting" for j
      using that p(8) [of j] s2(3) q(3) by (cases "j = k") simp_all
  qed (simp_all add: q(2) p(1-3,9,10,13,15,16), (use p(4-7,11,12,14) in blast)+)
  then show ?thesis
    using Some s2(2) by (simp add: finish_current_thread_def q(1))
qed

section \<open>Dispatching\<close>

lemma take_next_placed:
  assumes "placed s" "take_next_dispatchable_thread_with_dropped s (ready_qs s) = (r, d, qs)"
  shows "placed_except (case r of None \<Rightarrow> {} | Some k \<Rightarrow> {k}) (s\<lparr>ready_qs := qs\<rparr>) \<and>
    (case r of None \<Rightarrow> queued qs = [] | Some k \<Rightarrow> state_of s k = Ready \<and> k \<notin> set (queued qs))"
proof -
  note p = placedD [OF assms(1)]
  obtain D where D: "length qs = 4"
    "mset (queued (ready_qs s)) = (case r of None \<Rightarrow> {#} | Some k \<Rightarrow> {#k#}) + D + mset (queued qs)"
    "\<forall>j \<in># D. state_of s j \<noteq> Ready"
    "case r of None \<Rightarrow> \<forall>p < 4. qs ! p = [] | Some k \<Rightarrow> state_of s k = Ready"
    using take_next_from_spec [OF assms(2) [unfolded take_next_dispatchable_thread_with_dropped_def
          THREAD_PRIORITY_COUNT_def]] p(1) by auto
  obtain ds where ds: "D = mset ds"
    by (metis ex_mset)
  let ?r = "case r of None \<Rightarrow> [] | Some k \<Rightarrow> [k]"
  have "mset (queued (ready_qs s)) = mset (?r @ ds @ queued qs)"
    using D(2) by (auto simp: ds split: option.splits)
  note dist = mset_eq_imp_distinct_iff [OF this] and sets = mset_eq_setD [OF this]
  have d: "distinct (?r @ ds @ queued qs)"
    using dist p(2) by simp
  have "placed_except (set ?r) (s\<lparr>ready_qs := qs\<rparr>)"
  proof (rule placedI)
    show "j \<in> set (queued (ready_qs (s\<lparr>ready_qs := qs\<rparr>)))"
      if "j \<notin> set ?r" "state_of (s\<lparr>ready_qs := qs\<rparr>) j = Ready" for j
      using that p(6) [of j] sets D(3) by (auto simp: ds)
    show "state_of (s\<lparr>ready_qs := qs\<rparr>) j = Ready \<or> state_of (s\<lparr>ready_qs := qs\<rparr>) j = Terminated"
      if "j \<in> set (queued (ready_qs (s\<lparr>ready_qs := qs\<rparr>)))" for j
      using that p(4) [of j] sets by auto
    show "distinct (queued (ready_qs (s\<lparr>ready_qs := qs\<rparr>)))"
      using d by simp
  qed (simp_all add: D(1) p(1-3,9,10,13,15,16), (use p(4-8,11,12,14) in blast)+)
  moreover have "queued qs = []" if "r = None"
    using D(1,4) that by (auto simp: queued_def in_set_conv_nth)
  ultimately show ?thesis
    using D(4) d by (auto split: option.splits)
qed

lemma take_next_subset:
  assumes "placed s" "take_next_dispatchable_thread_with_dropped s (ready_qs s) = (r, d, qs)"
  shows "set (queued qs) \<subseteq> set (queued (ready_qs s)) \<and>
    (\<forall>k. r = Some k \<longrightarrow> k \<in> set (queued (ready_qs s)))"
proof -
  obtain D where "mset (queued (ready_qs s)) =
      (case r of None \<Rightarrow> {#} | Some k \<Rightarrow> {#k#}) + D + mset (queued qs)"
    using take_next_from_spec [OF assms(2) [unfolded take_next_dispatchable_thread_with_dropped_def
          THREAD_PRIORITY_COUNT_def]] placedD(1) [OF assms(1)] by auto
  from arg_cong [OF this, of set_mset] show ?thesis
    by (auto split: option.splits)
qed

text \<open>A machine with one processor and no deferred interrupt waiting.\<close>

definition uniprocessor_machine :: "machine \<Rightarrow> bool" where
  "uniprocessor_machine m \<longleftrightarrow> remotes m = [] \<and> \<not> softirq_pending (softirqs m)"

text \<open>A round that starts with an empty current slot.\<close>

lemma dispatch_round_vacant:
  assumes "uniprocessor_machine m" "current (sched m) = None"
    and "take_next_dispatchable_thread_with_dropped (sched m) (ready_qs (sched m)) = (next_thread, d, qs)"
  defines "s1 \<equiv> (sched m)\<lparr>ready_qs := qs, dropped_ready_count := dropped_ready_count (sched m) + d\<rparr>"
  shows "\<exists>m'. uniprocessor_machine m' \<and> dispatch_round activate m =
     (case next_thread of
        None \<Rightarrow> (Dispatcher_returns, m'\<lparr>sched := s1\<rparr>)
      | Some k \<Rightarrow>
          if \<not> (thread_has_dispatch_address_space s1 k \<and> activate k)
          then (Next_round, m'\<lparr>sched := finish_termination k s1\<rparr>)
          else (Switch_to k, m'\<lparr>sched := (restore_context k s1)\<lparr>current := Some k, need_resched := False\<rparr>\<rparr>))"
  using assms
  by (intro exI [of _ "case dying_thread m of None \<Rightarrow> m
      | Some k \<Rightarrow> m\<lparr>dying_thread := None, deferred_dying := Some k\<rparr>"])
    (auto simp: dispatch_round_def uniprocessor_machine_def try_steal_work_def s1_def Let_def split: option.split)

lemma uniprocessor_machine_sched [simp]: "uniprocessor_machine (m\<lparr>sched := s\<rparr>) = uniprocessor_machine m"
  by (simp add: uniprocessor_machine_def)

lemma dispatch_placed:
  "placed (sched m) \<Longrightarrow> current (sched m) = None \<Longrightarrow> uniprocessor_machine m \<Longrightarrow>
   dispatch activate fuel m = Some (r, m') \<Longrightarrow>
   placed (sched m') \<and> uniprocessor_machine m' \<and>
   (case r of Switch_to k \<Rightarrow> current (sched m') = Some k
    | Dispatcher_returns \<Rightarrow> current (sched m') = None \<and> queued (ready_qs (sched m')) = []
    | Next_round \<Rightarrow> False)"
proof (induction fuel arbitrary: m)
  case (Suc fuel)
  let ?s = "sched m"
  obtain next_thread d qs where t:
    "take_next_dispatchable_thread_with_dropped ?s (ready_qs ?s) = (next_thread, d, qs)"
    by (metis prod_cases3)
  let ?s1 = "?s\<lparr>ready_qs := qs, dropped_ready_count := dropped_ready_count ?s + d\<rparr>"
  note tn = take_next_placed [OF Suc.prems(1) t]
  obtain n where n: "uniprocessor_machine n" and round: "dispatch_round activate m =
     (case next_thread of
        None \<Rightarrow> (Dispatcher_returns, n\<lparr>sched := ?s1\<rparr>)
      | Some k \<Rightarrow>
          if \<not> (thread_has_dispatch_address_space ?s1 k \<and> activate k)
          then (Next_round, n\<lparr>sched := finish_termination k ?s1\<rparr>)
          else (Switch_to k, n\<lparr>sched := (restore_context k ?s1)\<lparr>current := Some k, need_resched := False\<rparr>\<rparr>))"
    using dispatch_round_vacant [OF Suc.prems(3,2) t] by blast
  show ?case
  proof (cases next_thread)
    case None
    then show ?thesis
      using Suc.prems(2,4) tn n round by auto
  next
    case (Some k)
    have s1: "placed_except {k} ?s1" "state_of ?s1 k = Ready" "k \<notin> set (queued (ready_qs ?s1))"
      "current ?s1 = None"
      using tn Some Suc.prems(2) by simp_all
    show ?thesis
    proof (cases "thread_has_dispatch_address_space ?s1 k \<and> activate k")
      case True
      note p = placedD [OF s1(1)]
      have rc: "restore_context k ?s1 = set_thread k (\<lambda>t. t\<lparr>t_state := Running\<rparr>)
          (set_process (fst k) (\<lambda>p. p\<lparr>p_state := PRunning\<rparr>) ?s1)"
        using p(12) [of k] s1(2) by (simp add: restore_context_def set_process_and_thread_state_def)
      let ?s2 = "(restore_context k ?s1)\<lparr>current := Some k\<rparr>"
      have "placed_except ({k} - {k}) ?s2"
        by (rule placed_move [OF s1(1), where ts = Running])
          (use s1 p(1-3) in \<open>auto simp: rc process_state_of_def split: if_splits\<close>)
      moreover have "m' = n\<lparr>sched := ?s2\<lparr>need_resched := False\<rparr>\<rparr>" "r = Switch_to k"
        using Suc.prems(4) Some True round by auto
      ultimately show ?thesis
        using n by simp
    next
      case False
      let ?m2 = "n\<lparr>sched := finish_termination k ?s1\<rparr>"
      have "dispatch activate fuel ?m2 = Some (r, m')"
        using Suc.prems(4) Some False round by auto
      moreover have "placed (sched ?m2)" "current (sched ?m2) = None"
        using placed_finish_termination [OF s1(1), of k] s1(4) by simp_all
      ultimately show ?thesis
        using Suc.IH [of ?m2] n by simp
    qed
  qed
qed simp

section \<open>New threads and the tick\<close>

lemma placed_create_process:
  assumes "placed s" "p_threads (processes s pid) = []"
  shows "placed (create_ready_process pid user_space s)"
proof -
  note p = placedD [OF assms(1)]
  let ?s = "create_ready_process pid user_space s"
  have procs: "p_threads (processes ?s q) = p_threads (processes s q)" for q
    using assms(2) by (simp add: create_ready_process_def)
  have st: "state_of ?s = state_of s"
    by (simp add: fun_eq_iff create_ready_process_def)
  show ?thesis
  proof (rule placedI)
    show "process_state_of ?s j \<noteq> PTerminated" if "state_of ?s j \<noteq> Terminated" for j
      using that p(11,12) [of j] assms(2) unfolding st by (auto simp: create_ready_process_def)
    show "t < p_next_tid (processes ?s q)" if "t \<in> set (p_threads (processes ?s q))" for t q
      using that p(14) [of t q] assms(2) unfolding procs by (auto simp: create_ready_process_def)
  qed (simp_all add: st procs p(1-3,9,10,13,15,16),
      simp_all add: create_ready_process_def p(1-3,9,10,13,15,16), (use p(4-8,11) in blast)+)
qed

lemma placed_spawn_thread:
  assumes "placed s" "p_state (processes s pid) \<noteq> PTerminated"
  shows "placed (snd (spawn_thread pid user s))"
proof -
  note p = placedD [OF assms(1)]
  define k where "k = (pid, p_next_tid (processes s pid))"
  define s2 where "s2 = set_process pid (\<lambda>p. p\<lparr>p_threads := p_threads p @ [snd k]\<rparr>)
    (set_thread k (\<lambda>_. new_thread user) (set_process pid (\<lambda>p. p\<lparr>p_next_tid := p_next_tid p + 1\<rparr>) s))"
  have fresh: "snd k \<notin> set (p_threads (processes s pid))"
    using p(14) [of "snd k" pid] by (auto simp: k_def)
  then have old: "state_of s k = Terminated"
    using p(11) [of k] by (auto simp: k_def)
  have "placed_except {k} s2"
  proof (rule placedI)
    fix j
    show "state_of s2 j \<noteq> Terminated \<longleftrightarrow> snd j \<in> set (p_threads (processes s2 (fst j)))"
      using p(11) [of j] by (auto simp: s2_def k_def new_thread_def prod_eq_iff)
    show "process_state_of s2 j \<noteq> PTerminated" if "state_of s2 j \<noteq> Terminated"
      using that p(12) [of j] assms(2) by (auto simp: s2_def process_state_of_def k_def split: if_splits)
    show "state_of s2 j = Ready \<or> state_of s2 j = Terminated" if "j \<in> set (queued (ready_qs s2))"
      using that p(4) [of j] by (auto simp: s2_def new_thread_def)
    show "state_of s2 j = Running" if "current s2 = Some j"
      using that p(5) [of j] old by (auto simp: s2_def)
    show "state_of s2 j \<noteq> Stopped" "\<not> t_stop_pending (threads s2 j)"
      using p(9,10) [of j] by (auto simp: s2_def new_thread_def)
    assume "j \<notin> {k}"
    then show "j \<in> set (queued (ready_qs s2))" if "state_of s2 j = Ready"
      using that p(6) [of j] by (simp add: s2_def)
    show "current s2 = Some j" if "state_of s2 j = Running"
      using that \<open>j \<notin> {k}\<close> p(7) [of j] by (simp add: s2_def)
    show "j \<in> set (parked s2)" if "state_of s2 j = Waiting"
      using that \<open>j \<notin> {k}\<close> p(8) [of j] by (simp add: s2_def)
  next
    fix q t
    show "distinct (p_threads (processes s2 q))"
      using p(13) [of q] fresh by (auto simp: s2_def)
    show "t < p_next_tid (processes s2 q)" if "t \<in> set (p_threads (processes s2 q))"
      using that p(14) [of t q] by (auto simp: s2_def k_def split: if_splits)
  qed (simp_all add: s2_def p(1-3,15,16))
  note p2 = placedD [OF this]
  have ready: "state_of s2 k = Ready"
    by (simp add: s2_def new_thread_def)
  obtain out s3 where e: "enqueue_ready_thread_local k s2 = (out, s3)"
    by force
  have e': "out = Enqueued" "s3 = s2\<lparr>ready_qs := ready_qs s3\<rparr>" "length (ready_qs s3) = 4"
    "distinct (queued (ready_qs s3))" "set (queued (ready_qs s3)) = insert k (set (queued (ready_qs s2)))"
    using enqueue_local_ready [OF p2(1) ready p2(2) e] by auto
  have "placed_except ({k} - {k}) (s2\<lparr>ready_qs := ready_qs s3\<rparr>)"
    by (rule placed_move [OF \<open>placed_except {k} s2\<close>, where ts = Ready])
      (use ready e'(3-5) p2(3) p2(5) [of k] in auto)
  moreover have "snd (spawn_thread pid user s) = maybe_set_need_resched k s3"
    using assms(2) e e'(1) by (simp add: spawn_thread_def k_def s2_def Let_def process_state_of_def)
  ultimately show ?thesis
    using e'(2) by simp
qed

lemma placed_timer_tick:
  assumes "placed s"
  shows "placed (snd (handle_timer_tick_with_preemption ticks allow s))"
proof -
  have acc: "placed_except X (account_current_tick s) = placed_except X s" for X s
    by (simp add: account_current_tick_def placed_except_set_thread split: option.split)
  let ?s = "snd (wake_ready_threads ticks
    (account_current_tick (boost_starved_threads (s\<lparr>now := ticks\<rparr>))))"
  have "placed ?s"
    by (rule placed_wake_ready_threads) (simp add: acc boost_starved_threads_spec(1) assms)
  then show ?thesis
    using placed_preempt by (simp add: handle_timer_tick_with_preemption_def Let_def)
qed

section \<open>Reachable states\<close>

definition new_scheduler :: "(thread_key \<Rightarrow> nat) \<Rightarrow> (process_id \<Rightarrow> nat) \<Rightarrow> scheduler" where
  "new_scheduler thread_events process_events =
     \<lparr>threads = (\<lambda>_. (new_thread False)\<lparr>t_state := Terminated\<rparr>),
      processes = (\<lambda>_. \<lparr>p_state = PNew, p_threads = [], p_next_tid = 0, p_has_user_space = False\<rparr>),
      ready_qs = replicate THREAD_PRIORITY_COUNT [], waiting_queue = [], current = None,
      need_resched = False, now = 0, wait_queues = (\<lambda>_. []), signaled = (\<lambda>_. False),
      thread_event = thread_events, process_event = process_events,
      wake_refused_count = 0, waiter_lost_count = 0, dropped_ready_count = 0,
      dropped_current_count = 0\<rparr>"

inductive sched_reachable :: "scheduler \<Rightarrow> bool" where
  boot: "sched_reachable (new_scheduler thread_events process_events)"
| create: "sched_reachable s \<Longrightarrow> p_next_tid (processes s pid) = 0 \<Longrightarrow>
    sched_reachable (create_ready_process pid user_space s)"
| spawn: "sched_reachable s \<Longrightarrow> p_state (processes s pid) \<noteq> PTerminated \<Longrightarrow>
    sched_reachable (snd (spawn_thread pid user s))"
| dispatch: "sched_reachable (sched m) \<Longrightarrow> current (sched m) = None \<Longrightarrow> uniprocessor_machine m \<Longrightarrow>
    dispatch activate fuel m = Some (r, m') \<Longrightarrow> sched_reachable (sched m')"
| yield: "sched_reachable s \<Longrightarrow> sched_reachable (yield_current_thread s)"
| sleep: "sched_reachable s \<Longrightarrow> sched_reachable (sleep_current_thread ticks s)"
| block: "sched_reachable s \<Longrightarrow> sched_reachable (snd (block_current_on q s))"
| block_until: "sched_reachable s \<Longrightarrow> sched_reachable (snd (block_current_until_on q deadline s))"
| wake_one: "sched_reachable s \<Longrightarrow> sched_reachable (snd (queue_wake_one q s))"
| wake_all: "sched_reachable s \<Longrightarrow> sched_reachable (snd (queue_wake_all q s))"
| signal: "sched_reachable s \<Longrightarrow> sched_reachable (snd (event_signal q s))"
| tick: "sched_reachable s \<Longrightarrow>
    sched_reachable (snd (handle_timer_tick_with_preemption ticks allow s))"
| exit: "sched_reachable s \<Longrightarrow> sched_reachable (snd (finish_current_thread s))"
| priority: "sched_reachable s \<Longrightarrow> sched_reachable (set_priority k p s)"
| policy: "sched_reachable s \<Longrightarrow> sched_reachable (set_sched_policy k policy s)"
| affinity: "sched_reachable s \<Longrightarrow> sched_reachable (set_cpu_affinity k cpu s)"

lemma sched_reachable_placed: "sched_reachable s \<Longrightarrow> placed s"
proof (induction rule: sched_reachable.induct)
  case boot
  show ?case
    by (rule placedI) (simp_all add: new_scheduler_def THREAD_PRIORITY_COUNT_def state_of_def
        new_thread_def queued_def parked_def)
next
  case (create s pid user_space)
  have "p_threads (processes s pid) = []"
    using placedD(14) [OF create.IH, of _ pid] create.hyps(2) by (cases "p_threads (processes s pid)") auto
  then show ?case
    using placed_create_process [OF create.IH] by simp
next
  case (dispatch m activate fuel r m')
  then show ?case
    using dispatch_placed by blast
qed (simp_all add: placed_spawn_thread placed_block placed_queue_wake placed_timer_tick
    placed_finish_current placed_preempt yield_current_thread_def placed_except_set_thread
    set_priority_def set_sched_policy_def set_cpu_affinity_def)

end
