(* ===== verification/Scheduler_Properties.thy ===== *)
theory Scheduler_Properties
  imports Scheduler_Placement
begin

text \<open>
  The properties of the scheduler: no thread is lost, dispatching by priority and its
  termination, the starvation boost, work stealing, and what stopping and continuing a
  process does to the invariant.
\<close>

section \<open>The choice of the next thread\<close>

lemma pop_dispatchable_find:
  "pop_dispatchable s q = (r, q', d) \<Longrightarrow> r = find (\<lambda>k. state_of s k = Ready) q"
  by (induction q arbitrary: r q' d)
    (auto simp: should_dispatch_ready_thread_def split: if_splits prod.splits)

lemma take_next_from_find:
  "take_next_from s n qs = (r, d, qs') \<Longrightarrow> n \<le> length qs \<Longrightarrow>
   (case r of
      None \<Rightarrow> \<forall>p < n. find (\<lambda>k. state_of s k = Ready) (qs ! p) = None
    | Some k \<Rightarrow> \<exists>p < n. find (\<lambda>k. state_of s k = Ready) (qs ! p) = Some k \<and>
        (\<forall>p'. p < p' \<and> p' < n \<longrightarrow> find (\<lambda>k. state_of s k = Ready) (qs ! p') = None))"
proof (induction s n qs arbitrary: r d qs' rule: take_next_from.induct)
  case (2 s p qs)
  obtain r1 q1 d1 where pop: "pop_dispatchable s (qs ! p) = (r1, q1, d1)"
    by (metis prod_cases3)
  note r1 = pop_dispatchable_find [OF pop]
  show ?case
  proof (cases r1)
    case (Some k)
    then have "r = Some k"
      using "2.prems"(1) pop by simp
    moreover have "find (\<lambda>k. state_of s k = Ready) (qs ! p) = Some k"
      using r1 Some by simp
    ultimately show ?thesis
      by (auto intro!: exI [of _ p])
  next
    case None
    obtain r2 d2 qs2 where rec: "take_next_from s p (qs[p := q1]) = (r2, d2, qs2)"
      by (metis prod_cases3)
    have eq: "r = r2"
      using "2.prems"(1) pop rec None by simp
    let ?F = "\<lambda>q. find (\<lambda>k. state_of s k = Ready) q"
    have here: "?F (qs ! p) = None"
      using r1 None by simp
    have same: "qs[p := q1] ! i = qs ! i" if "i < p" for i
      using that by simp
    note IH = "2.IH" [OF pop [symmetric] None refl rec]
    show ?thesis
    proof (cases r2)
      case None
      then have "?F (qs ! i) = None" if "i < p" for i
        using IH "2.prems"(2) same [OF that] that by auto
      then show ?thesis
        using here eq None by (auto simp: less_Suc_eq)
    next
      case (Some k)
      then obtain i where i: "i < p" "?F (qs[p := q1] ! i) = Some k"
        "\<forall>j. i < j \<and> j < p \<longrightarrow> ?F (qs[p := q1] ! j) = None"
        using IH "2.prems"(2) by auto
      then have "?F (qs ! i) = Some k" "?F (qs ! j) = None" if "i < j" "j < Suc p" for j
        using that same here by (auto simp: less_Suc_eq)
      then show ?thesis
        using eq Some i(1,2) same by (auto intro!: exI [of _ i])
    qed
  qed
qed simp

section \<open>The dispatcher returns\<close>

text \<open>The live threads an iteration of the dispatcher can still come across.\<close>

definition at_hand :: "scheduler \<Rightarrow> thread_key set" where
  "at_hand s = {k \<in> set (queued (ready_qs s)) \<union> set (parked s). state_of s k \<noteq> Terminated}"

lemma finite_at_hand [simp]: "finite (at_hand s)"
  by (simp add: at_hand_def)

lemma at_hand_wake_thread:
  assumes "placed_except X s" "\<And>j. j \<in> X \<Longrightarrow> state_of s j \<noteq> Waiting"
  shows "at_hand (snd (wake_thread k s)) \<subseteq> at_hand s"
    "\<And>j. j \<in> X \<Longrightarrow> state_of (snd (wake_thread k s)) j \<noteq> Waiting"
proof -
  show "state_of (snd (wake_thread k s)) j \<noteq> Waiting" if "j \<in> X" for j
    using assms(2) [OF that] state_of_wake_thread by simp
  show "at_hand (snd (wake_thread k s)) \<subseteq> at_hand s"
  proof (cases "state_of s k = Waiting")
    case True
    note p = placedD [OF assms(1)]
    obtain b s1 where w: "wake_waiter Outcome_completed k s = (b, s1)" by force
    have s1: "b" "state_of s1 k = Ready" "parked s1 = parked s" "ready_qs s1 = ready_qs s"
      "\<And>j. j \<noteq> k \<Longrightarrow> state_of s1 j = state_of s j"
      using wake_waiter_waiting [OF True p(10) p(12)] True w by auto
    obtain q where q: "remove_timed_waiter k s1 = s1\<lparr>waiting_queue := q\<rparr>"
      "set (map fst q) = set (parked s1) - {k}"
      using remove_timed_waiter_spec [of s1 k] s1 p(3) by auto
    obtain out s3 where e: "enqueue_ready_thread_local k (s1\<lparr>waiting_queue := q\<rparr>) = (out, s3)"
      by force
    have s3: "out = Enqueued" "s3 = s1\<lparr>waiting_queue := q, ready_qs := ready_qs s3\<rparr>"
      "set (queued (ready_qs s3)) = insert k (set (queued (ready_qs s)))"
      using enqueue_local_ready [OF _ _ _ e] s1 p(1,2) by auto
    have k: "k \<in> at_hand s"
      using True p(8) [of k] assms(2) [of k] by (auto simp: at_hand_def)
    have wk: "snd (wake_thread k s) = maybe_set_need_resched k s3"
      using w s1(1) q(1) e s3(1) by (simp add: wake_thread_def wake_by_signal_def)
    have rq: "ready_qs (maybe_set_need_resched k s3) = ready_qs s3"
      using maybe_set_need_resched_cases [of k s3] by (metis scheduler.select_convs(1) scheduler.surjective scheduler.update_convs(4))
    have st: "state_of s3 j = state_of s1 j" "parked s3 = map fst q" for j
      using s3(2) by (metis state_of_fields(1,2), metis parked_fields(1,2))
    show ?thesis
    proof
      fix j assume "j \<in> at_hand (snd (wake_thread k s))"
      then show "j \<in> at_hand s"
        using k s1(3,5) s3(3) q(2) st by (cases "j = k") (auto simp: at_hand_def wk rq)
    qed
  next
    case False
    then show ?thesis
      by (simp add: wake_thread_def wake_by_signal_def wake_waiter_not_waiting at_hand_def)
  qed
qed

lemma at_hand_wake_threads_counted:
  "placed_except X s \<Longrightarrow> (\<And>j. j \<in> X \<Longrightarrow> state_of s j \<noteq> Waiting) \<Longrightarrow>
   at_hand (snd (wake_threads_counted ks s)) \<subseteq> at_hand s"
proof (induction ks arbitrary: s)
  case (Cons k ks)
  have "at_hand (snd (wake_threads_counted ks (snd (wake_thread k s)))) \<subseteq> at_hand (snd (wake_thread k s))"
    using Cons.IH placed_wake_thread [OF Cons.prems(1)] at_hand_wake_thread(2) [OF Cons.prems] by blast
  then show ?case
    using at_hand_wake_thread(1) [OF Cons.prems, of k] by (simp add: Let_def split_beta)
qed simp

lemma at_hand_event_signal:
  assumes "placed_except X s" "\<And>j. j \<in> X \<Longrightarrow> state_of s j \<noteq> Waiting"
  shows "at_hand (snd (event_signal q s)) \<subseteq> at_hand s"
proof -
  let ?s = "s\<lparr>signaled := (signaled s)(q := True), wait_queues := (wait_queues s)(q := [])\<rparr>"
  have "at_hand (snd (wake_threads_counted ks ?s)) \<subseteq> at_hand ?s" for ks
    using at_hand_wake_threads_counted [of X ?s] assms by simp
  moreover have "at_hand ?s = at_hand s"
    by (simp add: at_hand_def)
  ultimately show ?thesis
    by (simp add: event_signal_def wake_with_def)
qed

lemma at_hand_finish_termination:
  assumes "placed_except {k} s" "current s \<noteq> Some k" "state_of s k \<noteq> Terminated"
  shows "at_hand (finish_termination k s) \<subseteq> at_hand s - {k}"
proof -
  let ?s1 = "set_thread k (\<lambda>t. t\<lparr>t_state := Terminated\<rparr>) s"
  obtain ended s2 where f: "finish_thread_termination k ?s1 = (ended, s2)"
    by force
  define s3 where "s3 = (if ended then snd (event_signal (process_event s2 (fst k)) s2) else s2)"
  define s4 where "s4 = snd (event_signal (thread_event s3 k) s3)"
  have eq: "finish_termination k s =
      set_thread k (\<lambda>t. t\<lparr>t_wake_deadline := 0, t_outcome := Outcome_completed\<rparr>) s4"
    using assms(3) f by (simp add: finish_termination_def s3_def s4_def Let_def)
  have s2: "ready_qs s2 = ready_qs s" "parked s2 = parked s"
    "\<And>j. state_of s2 j = (if j = k then Terminated else state_of s j)"
    using finish_thread_termination_view [of k ?s1] f by simp_all
  have pl2: "placed s2"
    using placed_finish_prefix [OF assms f] by simp
  have pl3: "placed s3"
    using pl2 by (simp add: s3_def placed_queue_wake)
  have "at_hand s4 \<subseteq> at_hand s3" "at_hand s3 \<subseteq> at_hand s2"
    using at_hand_event_signal [OF pl3] at_hand_event_signal [OF pl2] by (simp_all add: s4_def s3_def)
  moreover have "at_hand s2 \<subseteq> at_hand s - {k}"
    using s2 by (auto simp: at_hand_def)
  moreover have "at_hand (finish_termination k s) = at_hand s4"
    unfolding eq by (auto simp: at_hand_def) (simp_all add: state_of_def split: if_splits)
  ultimately show ?thesis
    by blast
qed

lemma dispatch_returns:
  "placed (sched m) \<Longrightarrow> current (sched m) = None \<Longrightarrow> uniprocessor_machine m \<Longrightarrow> card (at_hand (sched m)) < fuel \<Longrightarrow>
   \<exists>r m'. dispatch activate fuel m = Some (r, m')"
proof (induction fuel arbitrary: m)
  case (Suc fuel)
  let ?s = "sched m"
  obtain next_thread d qs where t:
    "take_next_dispatchable_thread_with_dropped ?s (ready_qs ?s) = (next_thread, d, qs)"
    by (metis prod_cases3)
  let ?s1 = "?s\<lparr>ready_qs := qs, dropped_ready_count := dropped_ready_count ?s + d\<rparr>"
  note tn = take_next_placed [OF Suc.prems(1) t]
  obtain n where n: "uniprocessor_machine n" and round: "dispatch_round activate m =
     (case next_thread of
        None \<Rightarrow> (Dispatcher_returns, n\<lparr>sched := ?s1\<rparr>)
      | Some k \<Rightarrow>
          if \<not> (thread_has_dispatch_address_space ?s1 k \<and> activate k)
          then (Next_round, n\<lparr>sched := finish_termination k ?s1\<rparr>)
          else (Switch_to k, n\<lparr>sched := (restore_context k ?s1)\<lparr>current := Some k, need_resched := False\<rparr>\<rparr>))"
    using dispatch_round_vacant [OF Suc.prems(3,2) t] by blast
  show ?case
  proof (cases next_thread)
    case None
    then show ?thesis
      using round by simp
  next
    case (Some k)
    have s1: "placed_except {k} ?s1" "state_of ?s1 k = Ready" "current ?s1 = None"
      using tn Some Suc.prems(2) by simp_all
    show ?thesis
    proof (cases "thread_has_dispatch_address_space ?s1 k \<and> activate k")
      case True
      then show ?thesis
        using round Some by simp
    next
      case False
      let ?s2 = "finish_termination k ?s1"
      have s2: "placed ?s2" "current ?s2 = None"
        using placed_finish_termination [OF s1(1), of k] s1(3) by simp_all
      have "at_hand ?s2 \<subseteq> at_hand ?s1 - {k}"
        using at_hand_finish_termination [OF s1(1)] s1(2,3) by simp
      moreover have "at_hand ?s1 \<subseteq> at_hand ?s" "k \<in> at_hand ?s"
        using take_next_subset [OF Suc.prems(1) t] Some s1(2) by (auto simp: at_hand_def)
      ultimately have "at_hand ?s2 \<subset> at_hand ?s"
        by blast
      then have "card (at_hand ?s2) < card (at_hand ?s)"
        by (rule psubset_card_mono [rotated]) simp
      then have "\<exists>r m'. dispatch activate fuel (n\<lparr>sched := ?s2\<rparr>) = Some (r, m')"
        using Suc.IH [of "n\<lparr>sched := ?s2\<rparr>"] s2 n Suc.prems(4) by simp
      then show ?thesis
        using round Some False by simp
    qed
  qed
qed simp

lemma dispatch_prefix:
  "dispatch activate fuel m = Some (r, m') \<Longrightarrow>
   \<exists>n \<le> fuel. \<forall>run f. schedule_bare_metal activate run (n + f) m =
     (case r of Switch_to k \<Rightarrow> schedule_bare_metal activate run f (run k m') | _ \<Rightarrow> Some m')"
proof (induction fuel arbitrary: m)
  case (Suc fuel)
  obtain out m1 where round: "dispatch_round activate m = (out, m1)"
    by force
  show ?case
  proof (cases out)
    case Next_round
    then obtain n where "n \<le> fuel" "\<forall>run f. schedule_bare_metal activate run (n + f) m1 =
        (case r of Switch_to k \<Rightarrow> schedule_bare_metal activate run f (run k m') | _ \<Rightarrow> Some m')"
      using Suc round by force
    then show ?thesis
      using round Next_round by (intro exI [of _ "Suc n"]) simp
  qed (use Suc.prems round in \<open>auto intro!: exI [of _ "Suc 0"]\<close>)
qed simp

lemma dispatch_activated:
  "dispatch activate fuel m = Some (r, m') \<Longrightarrow> case r of Switch_to k \<Rightarrow> activate k | _ \<Rightarrow> True"
proof (induction fuel arbitrary: m)
  case (Suc fuel)
  obtain out m1 where round: "dispatch_round activate m = (out, m1)"
    by force
  have "case out of Switch_to k \<Rightarrow> activate k | _ \<Rightarrow> True"
    using round by (auto simp: dispatch_round_def Let_def split: if_splits option.splits prod.splits)
  then show ?case
    using Suc round by (auto split: dispatch_outcome.splits)
qed simp

section \<open>Stealing\<close>

lemma steal_loop_spec:
  "steal_loop s target n q = (stolen, skipped, n', q') \<Longrightarrow>
   \<exists>D. mset q = mset stolen + mset skipped + D + mset q' \<and> (\<forall>j \<in># D. state_of s j \<noteq> Ready) \<and>
     n = length stolen + n' \<and>
     (\<forall>k \<in> set stolen. state_of s k = Ready \<and>
        (case target of None \<Rightarrow> True | Some c \<Rightarrow> t_affinity (threads s k) = 0 \<or> t_affinity (threads s k) = c))"
proof (induction s target n q arbitrary: stolen skipped n' q' rule: steal_loop.induct)
  case (3 s target n k q)
  let ?ok = "case target of None \<Rightarrow> True
    | Some c \<Rightarrow> t_affinity (threads s k) = 0 \<or> t_affinity (threads s k) = c"
  consider "\<not> ?ok" | "?ok" "state_of s k = Ready" | "?ok" "state_of s k \<noteq> Ready"
    by blast
  then show ?case
  proof cases
    case 1
    obtain st sk m r where rec: "steal_loop s target (Suc n) q = (st, sk, m, r)"
      by (metis prod_cases4)
    have eq: "stolen = st" "skipped = k # sk" "n' = m" "q' = r"
      using "3.prems" rec 1 by simp_all
    show ?thesis
      using "3.IH"(1) [OF refl 1 rec] unfolding eq by auto
  next
    case 2
    obtain st sk m r where rec: "steal_loop s target n q = (st, sk, m, r)"
      by (metis prod_cases4)
    have eq: "stolen = k # st" "skipped = sk" "n' = m" "q' = r"
      using "3.prems" rec 2 by (simp_all add: should_dispatch_ready_thread_def)
    show ?thesis
      using "3.IH"(2) [OF refl _ _ rec] 2 unfolding eq by (auto simp: should_dispatch_ready_thread_def)
  next
    case 3
    have rec: "steal_loop s target (Suc n) q = (stolen, skipped, n', q')"
      using "3.prems" 3 by (simp add: should_dispatch_ready_thread_def)
    obtain D where D: "mset q = mset stolen + mset skipped + D + mset q'"
      "\<forall>j \<in># D. state_of s j \<noteq> Ready" "Suc n = length stolen + n'"
      "\<forall>k \<in> set stolen. state_of s k = Ready \<and>
        (case target of None \<Rightarrow> True | Some c \<Rightarrow> t_affinity (threads s k) = 0 \<or> t_affinity (threads s k) = c)"
      using "3.IH"(3) [OF refl _ _ rec] 3 by (auto simp: should_dispatch_ready_thread_def)
    then show ?thesis
      using 3 by (intro exI [of _ "add_mset k D"]) auto
  qed
qed simp_all

lemma steal_from_spec:
  "steal_from s target p n qs = (stolen, qs') \<Longrightarrow> p \<le> length qs \<Longrightarrow>
   length qs' = length qs \<and> length stolen \<le> n \<and>
   (\<exists>D. mset (queued qs) = mset stolen + D + mset (queued qs') \<and>
      (\<forall>j \<in># D. state_of s j \<noteq> Ready)) \<and>
   (\<forall>k \<in> set stolen. state_of s k = Ready \<and>
      (case target of None \<Rightarrow> True | Some c \<Rightarrow> t_affinity (threads s k) = 0 \<or> t_affinity (threads s k) = c))"
proof (induction s target p n qs arbitrary: stolen qs' rule: steal_from.induct)
  case (2 s target p n qs)
  obtain st sk m q where l: "steal_loop s target n (qs ! p) = (st, sk, m, q)"
    by (metis prod_cases4)
  obtain D where D: "mset (qs ! p) = mset st + mset sk + D + mset q" "\<forall>j \<in># D. state_of s j \<noteq> Ready"
    "n = length st + m"
    "\<forall>k \<in> set st. state_of s k = Ready \<and>
      (case target of None \<Rightarrow> True | Some c \<Rightarrow> t_affinity (threads s k) = 0 \<or> t_affinity (threads s k) = c)"
    using steal_loop_spec [OF l] by blast
  let ?qs = "qs[p := q @ sk]"
  have "mset (queued ?qs) + mset (qs ! p) = mset (queued qs) + mset (q @ sk)"
    using mset_queued_update [of p qs "q @ sk"] "2.prems"(2) by simp
  then have "mset (queued qs) + (mset q + mset sk) = (mset st + D + mset (queued ?qs)) + (mset q + mset sk)"
    by (simp add: D(1) ac_simps)
  then have m1: "mset (queued qs) = mset st + D + mset (queued ?qs)"
    by (rule add_right_imp_eq)
  show ?case
  proof (cases "m = 0")
    case True
    then have "stolen = st" "qs' = ?qs"
      using "2.prems"(1) l by simp_all
    then show ?thesis
      using m1 D(2-4) by auto
  next
    case False
    obtain more qs2 where rec: "steal_from s target p m ?qs = (more, qs2)"
      by force
    then have eq: "stolen = st @ more" "qs' = qs2"
      using "2.prems"(1) l False by simp_all
    obtain E where E: "length qs2 = length qs" "length more \<le> m"
      "mset (queued ?qs) = mset more + E + mset (queued qs2)" "\<forall>j \<in># E. state_of s j \<noteq> Ready"
      "\<forall>k \<in> set more. state_of s k = Ready \<and>
        (case target of None \<Rightarrow> True | Some c \<Rightarrow> t_affinity (threads s k) = 0 \<or> t_affinity (threads s k) = c)"
      using "2.IH" [OF l [symmetric] refl refl refl refl False rec] "2.prems"(2) by auto
    have "mset (queued qs) = mset stolen + (D + E) + mset (queued qs')"
      using m1 E(3) by (simp add: eq ac_simps)
    moreover have "\<forall>j \<in># D + E. state_of s j \<noteq> Ready"
      using D(2) E(4) by auto
    ultimately show ?thesis
      using D(3,4) E(1,2,5) unfolding eq by (auto intro!: exI [of _ "D + E"])
  qed
qed auto

section \<open>Stopping and continuing\<close>

lemma suspend_view:
  "ready_qs (snd (suspend k s)) = ready_qs s" "waiting_queue (snd (suspend k s)) = waiting_queue s"
  "current (snd (suspend k s)) = current s"
  "state_of (snd (suspend k s)) j =
     (if j = k \<and> (state_of s k = Ready \<or> state_of s k = Running) then Stopped else state_of s j)"
  "t_stop_pending (threads (snd (suspend k s)) j) =
     (if j = k \<and> state_of s k = Waiting then True else t_stop_pending (threads s j))"
  by (auto simp: suspend_def state_of_def set_thread_def split: thread_state.split)

lemma fold_suspend_view:
  "ready_qs (fold (\<lambda>k s. snd (suspend k s)) ks s) = ready_qs s"
  "waiting_queue (fold (\<lambda>k s. snd (suspend k s)) ks s) = waiting_queue s"
  "current (fold (\<lambda>k s. snd (suspend k s)) ks s) = current s"
  by (induction ks arbitrary: s) (simp_all add: suspend_view)

lemma fold_suspend_state:
  fixes s :: scheduler
  shows "state_of (fold (\<lambda>k s. snd (suspend k s)) ks s) j =
     (if j \<in> set ks \<and> (state_of s j = Ready \<or> state_of s j = Running) then Stopped else state_of s j)"
  "t_stop_pending (threads (fold (\<lambda>k s. snd (suspend k s)) ks s) j) =
     (if j \<in> set ks \<and> state_of s j = Waiting then True else t_stop_pending (threads s j))"
  by (induction ks arbitrary: s) (auto simp: suspend_view)

lemma cleanup_wake_view:
  "ready_qs (snd (wake_by_timeout k (cleanup_remove_waiter w s))) = ready_qs s"
  "waiting_queue (snd (wake_by_timeout k (cleanup_remove_waiter w s))) = waiting_queue s"
  "current (snd (wake_by_timeout k (cleanup_remove_waiter w s))) = current s"
  "state_of s k = Waiting \<longrightarrow> t_stop_pending (threads s k) \<Longrightarrow>
   state_of (snd (wake_by_timeout k (cleanup_remove_waiter w s))) j =
     (if j = k \<and> state_of s k = Waiting then Stopped else state_of s j)"
  "state_of s k = Waiting \<longrightarrow> t_stop_pending (threads s k) \<Longrightarrow> j \<noteq> k \<Longrightarrow>
   t_stop_pending (threads (snd (wake_by_timeout k (cleanup_remove_waiter w s))) j) =
     t_stop_pending (threads s j)"
proof -
  obtain v where "cleanup_remove_waiter w s = s\<lparr>wait_queues := v\<rparr>"
    using cleanup_remove_waiter_fields by blast
  then show
    "ready_qs (snd (wake_by_timeout k (cleanup_remove_waiter w s))) = ready_qs s"
    "waiting_queue (snd (wake_by_timeout k (cleanup_remove_waiter w s))) = waiting_queue s"
    "current (snd (wake_by_timeout k (cleanup_remove_waiter w s))) = current s"
    "state_of s k = Waiting \<longrightarrow> t_stop_pending (threads s k) \<Longrightarrow>
     state_of (snd (wake_by_timeout k (cleanup_remove_waiter w s))) j =
       (if j = k \<and> state_of s k = Waiting then Stopped else state_of s j)"
    "state_of s k = Waiting \<longrightarrow> t_stop_pending (threads s k) \<Longrightarrow> j \<noteq> k \<Longrightarrow>
     t_stop_pending (threads (snd (wake_by_timeout k (cleanup_remove_waiter w s))) j) =
       t_stop_pending (threads s j)"
    by (auto simp: wake_by_timeout_def wake_waiter_def set_process_and_thread_state_def)
qed

lemma fold_wake_view:
  "ready_qs (fold (\<lambda>w s. snd (wake_by_timeout (fst w) (cleanup_remove_waiter w s))) ws s) = ready_qs s"
  "waiting_queue (fold (\<lambda>w s. snd (wake_by_timeout (fst w) (cleanup_remove_waiter w s))) ws s) =
     waiting_queue s"
  "current (fold (\<lambda>w s. snd (wake_by_timeout (fst w) (cleanup_remove_waiter w s))) ws s) = current s"
  by (induction ws arbitrary: s) (simp_all add: cleanup_wake_view)

lemma fold_wake_state:
  "(\<forall>w \<in> set ws. state_of s (fst w) = Waiting \<longrightarrow> t_stop_pending (threads s (fst w))) \<Longrightarrow>
   state_of (fold (\<lambda>w s. snd (wake_by_timeout (fst w) (cleanup_remove_waiter w s))) ws s) j =
     (if j \<in> fst ` set ws \<and> state_of s j = Waiting then Stopped else state_of s j)"
proof (induction ws arbitrary: s)
  case (Cons w ws)
  let ?s = "snd (wake_by_timeout (fst w) (cleanup_remove_waiter w s))"
  have pend: "state_of s (fst w) = Waiting \<longrightarrow> t_stop_pending (threads s (fst w))"
    using Cons.prems by simp
  note view = cleanup_wake_view(4,5) [OF pend]
  have "\<forall>v \<in> set ws. state_of ?s (fst v) = Waiting \<longrightarrow> t_stop_pending (threads ?s (fst v))"
  proof (intro ballI impI)
    fix v assume v: "v \<in> set ws" "state_of ?s (fst v) = Waiting"
    then have "fst v \<noteq> fst w" "state_of s (fst v) = Waiting"
      by (auto simp: view(1) split: if_splits)
    then show "t_stop_pending (threads ?s (fst v))"
      using view(2) Cons.prems v(1) by auto
  qed
  from Cons.IH [OF this] show ?case
    by (auto simp: view(1))
qed simp

lemma fold_map_fst: "fold (\<lambda>w s. f (fst w) s) ws s = fold f (map fst ws) s"
  by (induction ws arbitrary: s) simp_all

lemma stop_view:
  assumes "placed s" "\<And>k. current s = Some k \<Longrightarrow> fst k \<noteq> pid"
    and "stop_threads_of_process pid s = (n, s')"
  shows "set (queued (ready_qs s')) = {k \<in> set (queued (ready_qs s)). fst k \<noteq> pid}"
    "set (parked s') = {k \<in> set (parked s). fst k \<noteq> pid}" "current s' = current s"
    "fst k = pid \<Longrightarrow> state_of s k \<noteq> Terminated \<Longrightarrow> state_of s' k = Stopped"
proof -
  note p = placedD [OF assms(1)]
  define ready where "ready = filter (\<lambda>k. fst k = pid) (concat (ready_qs s))"
  define s0 where "s0 = s\<lparr>ready_qs := map (filter (\<lambda>k. fst k \<noteq> pid)) (ready_qs s)\<rparr>"
  define s1 where "s1 = fold (\<lambda>k s. snd (suspend k s)) ready s0"
  define waiters where "waiters = filter (\<lambda>w. fst (fst w) = pid) (waiting_queue s1)"
  define s1' where "s1' = s1\<lparr>waiting_queue := filter (\<lambda>w. fst (fst w) \<noteq> pid) (waiting_queue s1)\<rparr>"
  define s2 where "s2 = fold (\<lambda>k s. snd (suspend k s)) (map fst waiters) s1'"
  define s3 where "s3 = fold (\<lambda>w s. snd (wake_by_timeout (fst w) (cleanup_remove_waiter w s))) waiters s2"
  have s1: "ready_qs s1 = ready_qs s0" "waiting_queue s1 = waiting_queue s" "current s1 = current s"
    by (simp_all add: s1_def fold_suspend_view s0_def)
  have s2: "ready_qs s2 = ready_qs s0" "waiting_queue s2 = waiting_queue s1'" "current s2 = current s"
    using s1 by (simp_all add: s2_def fold_suspend_view s1'_def)
  have s3: "ready_qs s3 = ready_qs s0" "waiting_queue s3 = waiting_queue s1'" "current s3 = current s"
    using s2 by (simp_all add: s3_def fold_wake_view)
  have "s' = s3"
    using assms(2,3) s3(3) unfolding stop_threads_of_process_def
    by (auto simp: Let_def ready_def [symmetric] s0_def [symmetric] s1_def [symmetric]
        waiters_def [symmetric] s1'_def [symmetric] s2_def [symmetric] s3_def [symmetric]
        fold_map_fst [of "\<lambda>k s. snd (suspend k s)"] split: option.splits)
  then show "set (queued (ready_qs s')) = {k \<in> set (queued (ready_qs s)). fst k \<noteq> pid}"
    "set (parked s') = {k \<in> set (parked s). fst k \<noteq> pid}" "current s' = current s"
    using s3 s1(2) by (auto simp: s0_def queued_filter parked_def s1'_def)
  show "state_of s' k = Stopped" if kk: "fst k = pid" "state_of s k \<noteq> Terminated"
  proof -
    have st1: "state_of s1 j = (if j \<in> set ready \<and> (state_of s j = Ready \<or> state_of s j = Running)
        then Stopped else state_of s j)" for j
      by (auto simp: s1_def fold_suspend_state s0_def)
    have keys: "fst ` set waiters = {j \<in> set (parked s). fst j = pid}"
      by (auto simp: waiters_def s1(2) parked_def)
    have st2: "state_of s2 j = state_of s1 j"
      "state_of s2 j = Waiting \<Longrightarrow> j \<in> fst ` set waiters \<Longrightarrow> t_stop_pending (threads s2 j)" for j
    proof -
      have "\<not> (j \<in> fst ` set waiters \<and> (state_of s1 j = Ready \<or> state_of s1 j = Running))"
      proof
        assume j: "j \<in> fst ` set waiters \<and> (state_of s1 j = Ready \<or> state_of s1 j = Running)"
        then have pid: "fst j = pid"
          using keys by simp
        have "state_of s j = Ready \<or> state_of s j = Running" "j \<notin> set ready"
          using j st1 [of j] by (auto split: if_splits)
        then have "state_of s j = Running"
          using p(6) [of j] pid by (auto simp: ready_def queued_def)
        then show False
          using p(7) [of j] assms(2) pid by simp
      qed
      then show "state_of s2 j = state_of s1 j"
        by (auto simp: s2_def fold_suspend_state s1'_def)
      then show "state_of s2 j = Waiting \<Longrightarrow> j \<in> fst ` set waiters \<Longrightarrow> t_stop_pending (threads s2 j)"
        by (simp add: s2_def fold_suspend_state s1'_def)
    qed
    have st3: "state_of s3 j = (if j \<in> fst ` set waiters \<and> state_of s2 j = Waiting then Stopped
        else state_of s2 j)" for j
      unfolding s3_def by (rule fold_wake_state) (use st2(2) in force)
    consider "state_of s k = Ready" | "state_of s k = Waiting" | "state_of s k = Running"
      using kk(2) p(9) [of k] by (cases "state_of s k") auto
    then show ?thesis
    proof cases
      case 1
      then have "k \<in> set ready"
        using p(6) [of k] kk(1) by (auto simp: ready_def queued_def)
      then show ?thesis
        using 1 st1 st2(1) st3 \<open>s' = s3\<close> by simp
    next
      case 2
      then have "k \<in> fst ` set waiters"
        using p(8) [of k] kk(1) keys by simp
      then show ?thesis
        using 2 st1 st2(1) st3 \<open>s' = s3\<close> by simp
    next
      case 3
      then show ?thesis
        using p(7) [of k] assms(2) kk(1) by simp
    qed
  qed
qed

lemma continue_nothing_queued:
  assumes "\<forall>k \<in> set (queued (ready_qs s)) \<union> set (parked s). fst k \<noteq> pid"
    and "\<And>k. current s = Some k \<Longrightarrow> fst k \<noteq> pid"
  shows "continue_threads_of_process pid s = (0, s)"
proof -
  let ?f = "\<lambda>k (n, s). if fst k = pid \<and> state_of s k = Stopped then (n + 1, snd (resume k s)) else (n, s)"
  have skip: "fold ?f ks (n, s) = (n, s)" if "\<forall>k \<in> set ks. fst k \<noteq> pid" for ks n
    using that by (induction ks) simp_all
  have 1: "fold ?f (concat (ready_qs s)) (0, s) = (0, s)" "fold ?f (map fst (waiting_queue s)) (0, s) = (0, s)"
    using assms(1) by (intro skip; auto simp: queued_def parked_def)+
  have 2: "fold ?f (case current s of None \<Rightarrow> [] | Some k \<Rightarrow> [k]) (0, s) = (0, s)"
    by (rule skip) (use assms(2) in \<open>cases "current s"; simp\<close>)
  show ?thesis
    unfolding continue_threads_of_process_def Let_def 1 prod.case using 2 by simp
qed

section \<open>Timeouts\<close>

lemma elapsed_waiter_state:
  assumes "\<not> t_stop_pending (threads s k)" "process_state_of s k \<noteq> PTerminated"
    and "state_of s k = Waiting \<or> state_of s k = Ready"
  shows "state_of (snd (process_elapsed_timed_waiter w s)) k =
      (if fst w = k then Ready else state_of s k) \<and>
    \<not> t_stop_pending (threads (snd (process_elapsed_timed_waiter w s)) k) \<and>
    process_state_of (snd (process_elapsed_timed_waiter w s)) k \<noteq> PTerminated"
proof -
  obtain v where c: "cleanup_remove_waiter w s = s\<lparr>wait_queues := v\<rparr>"
    using cleanup_remove_waiter_fields by blast
  show ?thesis
    using assms
    by (auto simp: process_elapsed_timed_waiter_def c wake_by_timeout_def wake_waiter_def
        set_process_and_thread_state_def state_of_def process_state_of_def set_thread_def set_process_def
        enqueue_ready_thread_local_def split: prod.splits)
qed

lemma process_elapsed_waiters_state:
  "\<not> t_stop_pending (threads s k) \<Longrightarrow> process_state_of s k \<noteq> PTerminated \<Longrightarrow>
   state_of s k = Waiting \<or> state_of s k = Ready \<Longrightarrow>
   state_of (snd (process_elapsed_waiters ws s)) k =
     (if k \<in> fst ` set ws then Ready else state_of s k)"
proof (induction ws arbitrary: s)
  case (Cons w ws)
  obtain out s1 where s1: "process_elapsed_timed_waiter w s = (out, s1)"
    by force
  note st = elapsed_waiter_state [OF Cons.prems, of w, unfolded s1 snd_conv]
  obtain r where "(if out = Enqueued then maybe_set_need_resched (fst w) s1 else s1) = s1\<lparr>need_resched := r\<rparr>"
    by (cases "out = Enqueued \<and> (maybe_set_need_resched (fst w) s1 \<noteq> s1)")
      (use maybe_set_need_resched_cases [of "fst w" s1] in \<open>auto intro: that [of True] that [of "need_resched s1"]\<close>)
  moreover have "state_of (snd (process_elapsed_waiters ws (s1\<lparr>need_resched := r\<rparr>))) k =
      (if k \<in> fst ` set ws then Ready else state_of s1 k)"
    using Cons.IH [of "s1\<lparr>need_resched := r\<rparr>"] st Cons.prems(3) by (auto simp: process_state_of_def)
  ultimately show ?case
    using st s1 by (auto simp: Let_def split_beta)
qed simp

lemma age_normal_threads_view:
  "age_normal_threads ks s = (boosted, s') \<Longrightarrow>
   t_state (threads s' k) = t_state (threads s k) \<and>
   t_wake_deadline (threads s' k) = t_wake_deadline (threads s k) \<and>
   waiting_queue s' = waiting_queue s \<and> current s' = current s"
proof (induction ks arbitrary: s boosted s')
  case (Cons j ks)
  obtain b s2 where b: "age_normal_threads ks
      (set_thread j (\<lambda>t. t\<lparr>t_waiting_ticks := t_waiting_ticks (threads s j) + 1\<rparr>) s) = (b, s2)"
    by force
  show ?case
    using Cons.IH [OF b] Cons.prems b by (auto simp: Let_def set_thread_def)
qed simp

lemma fold_set_thread_view:
  assumes "\<And>t. t_state (f t) = t_state t" "\<And>t. t_wake_deadline (f t) = t_wake_deadline t"
  shows "t_state (threads (fold (\<lambda>k s. set_thread k f s) ks s) k) = t_state (threads s k)"
    "t_wake_deadline (threads (fold (\<lambda>k s. set_thread k f s) ks s) k) = t_wake_deadline (threads s k)"
  using assms by (induction ks arbitrary: s) (simp_all add: set_thread_def)

lemma fold_set_thread_queues:
  "waiting_queue (fold (\<lambda>k s. set_thread k f s) ks s) = waiting_queue s"
  "current (fold (\<lambda>k s. set_thread k f s) ks s) = current s"
  by (induction ks arbitrary: s) (simp_all add: set_thread_def)

lemma boost_starved_threads_shape:
  obtains boosted demoted s1 qs where
    "age_normal_threads (ready_qs s ! priority_index Normal) s = (boosted, s1)"
    "boost_starved_threads s =
       (fold (\<lambda>k s. set_thread k (\<lambda>t. t\<lparr>t_boosted := False, t_priority := Normal\<rparr>) s) demoted
         (fold (\<lambda>k s. set_thread k
            (\<lambda>t. t\<lparr>t_waiting_ticks := 0, t_slice_remaining := BOOST_DURATION_TICKS,
                   t_priority := High, t_boosted := True\<rparr>) s) boosted s1))\<lparr>ready_qs := qs\<rparr>"
proof -
  obtain boosted s1 where age:
    "age_normal_threads (ready_qs s ! priority_index Normal) s = (boosted, s1)"
    by force
  show ?thesis
    by (rule that [OF age]) (simp only: boost_starved_threads_def age Let_def prod.case)
qed

lemma boost_view:
  "state_of (boost_starved_threads s) k = state_of s k"
  "wake_deadline (threads (boost_starved_threads s) k) = wake_deadline (threads s k)"
  "waiting_queue (boost_starved_threads s) = waiting_queue s"
  "current (boost_starved_threads s) = current s"
proof -
  obtain boosted demoted s1 qs where
    age: "age_normal_threads (ready_qs s ! priority_index Normal) s = (boosted, s1)" and
    eq: "boost_starved_threads s =
       (fold (\<lambda>k s. set_thread k (\<lambda>t. t\<lparr>t_boosted := False, t_priority := Normal\<rparr>) s) demoted
         (fold (\<lambda>k s. set_thread k
            (\<lambda>t. t\<lparr>t_waiting_ticks := 0, t_slice_remaining := BOOST_DURATION_TICKS,
                   t_priority := High, t_boosted := True\<rparr>) s) boosted s1))\<lparr>ready_qs := qs\<rparr>"
    by (rule boost_starved_threads_shape)
  note v = age_normal_threads_view [OF age]
  show "state_of (boost_starved_threads s) k = state_of s k"
    "wake_deadline (threads (boost_starved_threads s) k) = wake_deadline (threads s k)"
    "waiting_queue (boost_starved_threads s) = waiting_queue s"
    "current (boost_starved_threads s) = current s"
    unfolding eq state_of_def wake_deadline_def
    by (simp_all add: v fold_set_thread_view fold_set_thread_queues)
qed

lemma account_view:
  "state_of (account_current_tick s) k = state_of s k"
  "wake_deadline (threads (account_current_tick s) k) = wake_deadline (threads s k)"
  "waiting_queue (account_current_tick s) = waiting_queue s"
  by (simp_all add: account_current_tick_def state_of_def wake_deadline_def set_thread_def
      split: option.split)

lemma wake_ready_threads_wakes:
  assumes "placed s" "state_of s k = Waiting" "wake_deadline (threads s k) = Some d" "d \<le> ticks"
  shows "state_of (snd (wake_ready_threads ticks s)) k = Ready"
proof -
  note p = placedD [OF assms(1)]
  obtain stale q1 where st: "take_stale_timed_waiters s (waiting_queue s) = (stale, q1)"
    by force
  obtain woke q2 where el: "take_elapsed_timed_waiters s ticks q1 = (woke, q2)"
    by force
  note part1 = drain_where_partition [OF st [unfolded take_stale_timed_waiters_def]]
  note part2 = drain_where_partition [OF el [unfolded take_elapsed_timed_waiters_def]]
  obtain v where v: "fold cleanup_remove_waiter stale (s\<lparr>waiting_queue := q2\<rparr>) =
      s\<lparr>waiting_queue := q2, wait_queues := v\<rparr>"
    using fold_cleanup_fields by blast
  have alive: "process_state_of s k \<noteq> PTerminated"
    using p(12) [of k] assms(2) by simp
  obtain w where w: "w \<in> set (waiting_queue s)" "fst w = k"
    using p(8) [of k] assms(2) by (auto simp: parked_def)
  then have "w \<in> set q1"
    using part1(4) assms(2) alive by (simp add: parked_waiter_is_active_def)
  then have "k \<in> fst ` set woke"
    using part2(3) assms(3,4) w(2) by (auto simp: has_timed_wait_elapsed_def)
  then show ?thesis
    using process_elapsed_waiters_state [of "s\<lparr>waiting_queue := q2, wait_queues := v\<rparr>" k woke]
      p(10) [of k] alive assms(2)
    by (simp add: wake_ready_threads_def st el v process_state_of_def)
qed

lemma preempt_keeps_ready:
  "state_of s k = Ready \<Longrightarrow> state_of (snd (preempt_current_thread_from_interrupt s)) k = Ready"
  by (auto simp: preempt_current_thread_from_interrupt_def Let_def split_beta yield_back_to_ready_def
      set_process_and_thread_state_def state_of_def set_thread_def set_process_def process_state_of_def
      has_dispatchable_ready_thread_def split: option.split)

lemma tick_wakes:
  assumes "placed s" "state_of s k = Waiting" "wake_deadline (threads s k) = Some d" "d \<le> ticks"
  shows "state_of (snd (handle_timer_tick_with_preemption ticks allow s)) k = Ready"
proof -
  let ?s = "account_current_tick (boost_starved_threads (s\<lparr>now := ticks\<rparr>))"
  have "placed ?s"
    using assms(1) boost_starved_threads_spec(1) [of "{}" "s\<lparr>now := ticks\<rparr>"]
    by (simp add: account_current_tick_def placed_except_set_thread split: option.split)
  then have "state_of (snd (wake_ready_threads ticks ?s)) k = Ready"
    by (rule wake_ready_threads_wakes) (use assms in \<open>simp_all add: account_view boost_view\<close>)
  then show ?thesis
    using preempt_keeps_ready by (simp add: handle_timer_tick_with_preemption_def Let_def)
qed

section \<open>Example schedulers\<close>

text \<open>Process 2 with threads 1 (running), 2 (ready) and 3, which waits for event 22, the end of
  thread 2; and process 3 with one ready thread when \<open>other\<close> is set.\<close>

definition example_thread :: "thread_state \<Rightarrow> thread" where
  "example_thread st = (new_thread False)\<lparr>t_state := st\<rparr>"

definition example_process :: "process_state \<Rightarrow> nat list \<Rightarrow> nat \<Rightarrow> process" where
  "example_process st ts n =
     \<lparr>p_state = st, p_threads = ts, p_next_tid = n, p_has_user_space = False\<rparr>"

definition example_scheduler :: "bool \<Rightarrow> scheduler" where
  "example_scheduler other =
     \<lparr>threads = (\<lambda>_. example_thread Terminated)
        ((2, 1) := example_thread Running, (2, 2) := example_thread Ready,
         (2, 3) := (example_thread Waiting)\<lparr>t_wake_deadline := 8\<rparr>,
         (3, 1) := example_thread (if other then Ready else Terminated)),
      processes = (\<lambda>_. example_process PNew [] 0)
        (2 := example_process PRunning [1, 2, 3] 4, 3 := example_process PReady (if other then [1] else []) 2),
      ready_qs = [[], (2, 2) # (if other then [(3, 1)] else []), [], []],
      waiting_queue = [((2, 3), Some 22)], current = Some (2, 1),
      need_resched = False, now = 0, wait_queues = (\<lambda>_. [])(22 := [(2, 3)]), signaled = (\<lambda>_. False),
      thread_event = (\<lambda>(pid, tid). 10 * pid + tid), process_event = (\<lambda>pid. 10 * pid),
      wake_refused_count = 0, waiter_lost_count = 0, dropped_ready_count = 0,
      dropped_current_count = 0\<rparr>"

lemmas example_defs = example_scheduler_def example_thread_def example_process_def new_thread_def

lemma example_scheduler_placed: "placed (example_scheduler other)"
  by (rule placedI)
    (auto simp: example_defs state_of_def process_state_of_def queued_def parked_def split: if_splits)

definition example_reachable :: scheduler where
  "example_reachable = snd (spawn_thread 2 False (create_ready_process 2 False
     (new_scheduler (\<lambda>(pid, tid). 10 * pid + tid) (\<lambda>pid. 10 * pid))))"

lemma example_reachable: "sched_reachable example_reachable"
  unfolding example_reachable_def
  by (intro sched_reachable.spawn sched_reachable.create sched_reachable.boot)
    (simp_all add: new_scheduler_def create_ready_process_def set_process_def)

lemma count_distinct: "distinct xs \<Longrightarrow> x \<in> set xs \<Longrightarrow> count (mset xs) x = 1"
  by (metis distinct_count_atmost_1)

lemmas termination_defs = finish_current_thread_def terminate_sibling_threads_def finish_termination_def
  remove_timed_waiter_def take_timed_waiters_by_identity_def drain_where.simps
  finish_thread_termination_def set_thread_def set_process_def state_of_def process_state_of_def
  event_signal_def wake_with_def prune_stale_waiters_def is_active_waiter_def wake_thread_def
  wake_by_signal_def wake_waiter_def set_process_and_thread_state_def enqueue_ready_thread_local_def
  enqueue_ready_thread_def should_dispatch_ready_thread_def remove_queued_thread_def push_back_at_def
  maybe_set_need_resched_def swap_remove_def Let_def

section \<open>Properties\<close>

text \<open>C3: On a single processor no thread is lost: in every state that booting, creating processes and
  threads, dispatching, yielding, sleeping, blocking with or without a deadline, waking, signalling, the
  timer tick, the exit of the running thread, and changes of priority, policy and affinity lead to, a thread
  that is ready stands in the ready queues exactly once, a waiting thread is parked exactly once, a thread
  is running exactly when it is the current one, the ready queues hold ready threads and leftovers of
  terminated ones only, and the counters of lost waiters and of dropped running threads are still zero.
  Stopping and continuing a process and killing it from outside are not among these operations, and the
  counter of dropped queue entries is not bounded: it counts the leftovers.\<close>

theorem scheduler_no_thread_lost:
  assumes "sched_reachable s"
  shows "(state_of s k = Ready \<longrightarrow> count (mset (queued (ready_qs s))) k = 1) \<and>
    (state_of s k = Waiting \<longrightarrow> count (mset (parked s)) k = 1) \<and>
    (state_of s k = Running \<longleftrightarrow> current s = Some k) \<and>
    (k \<in> set (queued (ready_qs s)) \<longrightarrow> state_of s k = Ready \<or> state_of s k = Terminated) \<and>
    waiter_lost_count s = 0 \<and> dropped_current_count s = 0"
proof -
  note p = placedD [OF sched_reachable_placed [OF assms]]
  have "count (mset (queued (ready_qs s))) k = 1" if "state_of s k = Ready"
    using count_distinct [OF p(2)] p(6) [of k] that by blast
  moreover have "count (mset (parked s)) k = 1" if "state_of s k = Waiting"
    using count_distinct [OF p(3)] p(8) [of k] that by blast
  ultimately show ?thesis
    using p(4) [of k] p(5) [of k] p(7) [of k] p(15,16) by auto
qed

theorem scheduler_no_thread_lost_witness:
  "sched_reachable example_reachable \<and> state_of example_reachable (2, 1) = Ready \<and>
   count (mset (queued (ready_qs example_reachable))) (2, 1) = 1"
  using scheduler_no_thread_lost [OF example_reachable, of "(2, 1)"] example_reachable
  by (simp add: example_reachable_def spawn_thread_def create_ready_process_def new_scheduler_def
      new_thread_def THREAD_PRIORITY_COUNT_def numeral_eq_Suc termination_defs)

text \<open>C25: The dispatcher takes the first ready thread of the highest priority that has one, drops
  only entries that are no longer ready, and reports how many it dropped; it finds none only when
  no queue holds a ready thread.\<close>

theorem dispatch_takes_highest_priority:
  assumes "length (ready_qs s) = THREAD_PRIORITY_COUNT"
    and "take_next_dispatchable_thread_with_dropped s (ready_qs s) = (next_thread, dropped, qs)"
  shows "(\<exists>D. mset (queued (ready_qs s)) =
        (case next_thread of None \<Rightarrow> {#} | Some k \<Rightarrow> {#k#}) + D + mset (queued qs) \<and>
        size D = dropped \<and> (\<forall>j \<in># D. state_of s j \<noteq> Ready)) \<and>
    (case next_thread of
       None \<Rightarrow> \<forall>k \<in> set (queued (ready_qs s)). state_of s k \<noteq> Ready
     | Some k \<Rightarrow> \<exists>p < THREAD_PRIORITY_COUNT.
         find (\<lambda>j. state_of s j = Ready) (ready_qs s ! p) = Some k \<and>
         (\<forall>p' < THREAD_PRIORITY_COUNT. p < p' \<longrightarrow>
            (\<forall>j \<in> set (ready_qs s ! p'). state_of s j \<noteq> Ready)))"
proof -
  note t = assms(2) [unfolded take_next_dispatchable_thread_with_dropped_def]
  note spec = take_next_from_spec [OF t] take_next_from_find [OF t]
  show ?thesis
  proof (cases next_thread)
    case None
    have "state_of s k \<noteq> Ready" if "k \<in> set (queued (ready_qs s))" for k
    proof -
      obtain q where "q \<in> set (ready_qs s)" "k \<in> set q"
        using \<open>k \<in> set (queued (ready_qs s))\<close> by (auto simp: set_queued)
      then obtain p where p: "p < length (ready_qs s)" "k \<in> set (ready_qs s ! p)"
        by (metis in_set_conv_nth)
      then have "find (\<lambda>j. state_of s j = Ready) (ready_qs s ! p) = None"
        using spec(2) assms(1) None by simp
      then show ?thesis
        using p(2) unfolding find_None_iff by blast
    qed
    then show ?thesis
      using spec(1) assms(1) None by auto
  next
    case (Some k)
    then show ?thesis
      using spec assms(1) by (auto simp: find_None_iff)
  qed
qed

theorem dispatch_takes_highest_priority_witness:
  "take_next_dispatchable_thread_with_dropped (example_scheduler False) (ready_qs (example_scheduler False)) =
     (Some (2, 2), 0, [[], [], [], []]) \<and>
   (\<exists>p < THREAD_PRIORITY_COUNT.
      find (\<lambda>j. state_of (example_scheduler False) j = Ready) (ready_qs (example_scheduler False) ! p) = Some (2, 2))"
proof -
  have "take_next_dispatchable_thread_with_dropped (example_scheduler False) (ready_qs (example_scheduler False)) =
     (Some (2, 2), 0, [[], [], [], []])" "length (ready_qs (example_scheduler False)) = THREAD_PRIORITY_COUNT"
    by (simp_all add: take_next_dispatchable_thread_with_dropped_def THREAD_PRIORITY_COUNT_def numeral_eq_Suc
        example_defs state_of_def should_dispatch_ready_thread_def)
  then show ?thesis
    using dispatch_takes_highest_priority [of "example_scheduler False" "Some (2, 2)" 0 "[[], [], [], []]"]
    by auto
qed

text \<open>C27: On a single processor with no deferred interrupt waiting, the dispatcher does not spin: from
  every reachable state with an empty current slot, its loop leaves the dispatcher in at most one round
  more than there are live threads in the queues, whatever the address-space activation answers.  It leaves
  by switching into a thread, which is then current, running and had its address space activated, or by
  returning with all the ready queues empty; and that is what the whole loop does first, whatever the
  thread then does before it comes back to the dispatcher.\<close>

theorem dispatcher_returns:
  assumes "sched_reachable (sched m)" "current (sched m) = None" "uniprocessor_machine m"
  shows "\<exists>r m' n. n \<le> Suc (card (at_hand (sched m))) \<and>
    (\<forall>run f. schedule_bare_metal activate run (n + f) m =
       (case r of Switch_to k \<Rightarrow> schedule_bare_metal activate run f (run k m') | _ \<Rightarrow> Some m')) \<and>
    (case r of
       Switch_to k \<Rightarrow> current (sched m') = Some k \<and> state_of (sched m') k = Running \<and> activate k
     | Dispatcher_returns \<Rightarrow> current (sched m') = None \<and> queued (ready_qs (sched m')) = []
     | Next_round \<Rightarrow> False)"
proof -
  have placed: "placed (sched m)"
    using sched_reachable_placed [OF assms(1)] .
  obtain r m' where d: "dispatch activate (Suc (card (at_hand (sched m)))) m = Some (r, m')"
    using dispatch_returns [OF placed assms(2,3)] by blast
  have "case r of Switch_to k \<Rightarrow> state_of (sched m') k = Running | _ \<Rightarrow> True"
    using dispatch_placed [OF placed assms(2,3) d] placedD(5) by (auto split: dispatch_outcome.splits)
  then show ?thesis
    using dispatch_placed [OF placed assms(2,3) d] dispatch_prefix [OF d] dispatch_activated [OF d]
    by (intro exI [of _ r] exI [of _ m']) (auto split: dispatch_outcome.splits)
qed

theorem dispatcher_returns_witness:
  "\<exists>m' n. schedule_bare_metal (\<lambda>_. False) (\<lambda>_ m. m) n
      \<lparr>sched = example_reachable, softirqs = empty_softirqs, this_cpu = 0, remotes = [],
       dying_thread = None, deferred_dying = None\<rparr> = Some m' \<and> queued (ready_qs (sched m')) = []"
proof -
  let ?m = "\<lparr>sched = example_reachable, softirqs = empty_softirqs, this_cpu = 0, remotes = [],
       dying_thread = None, deferred_dying = None\<rparr> :: machine"
  have c: "current example_reachable = None"
    by (simp add: example_reachable_def spawn_thread_def create_ready_process_def new_scheduler_def
      new_thread_def THREAD_PRIORITY_COUNT_def numeral_eq_Suc termination_defs)
  have u: "uniprocessor_machine ?m"
    by (simp add: uniprocessor_machine_def empty_softirqs_def softirq_pending_def)
  obtain r m' n where rn: "\<forall>run f. schedule_bare_metal (\<lambda>_. False) run (n + f) ?m =
       (case r of Switch_to k \<Rightarrow> schedule_bare_metal (\<lambda>_. False) run f (run k m') | _ \<Rightarrow> Some m')"
      "case r of Switch_to k \<Rightarrow> current (sched m') = Some k \<and> state_of (sched m') k = Running \<and> False
        | Dispatcher_returns \<Rightarrow> current (sched m') = None \<and> queued (ready_qs (sched m')) = []
        | Next_round \<Rightarrow> False"
    using dispatcher_returns [of ?m "\<lambda>_. False"] example_reachable c u by auto
  then have r: "r = Dispatcher_returns" "queued (ready_qs (sched m')) = []"
    by (cases r; simp)+
  have "schedule_bare_metal (\<lambda>_. False) (\<lambda>_ m. m) (n + 0) ?m = Some m'"
    using rn(1) [rule_format, of "\<lambda>_ m. m" 0] r(1) by simp
  then show ?thesis
    using r(2) by blast
qed

text \<open>No timed wait is missed: from any state that satisfies the placement invariant, the
  tick that reaches a waiting thread's deadline makes the thread ready, puts it in the ready queues
  exactly once, and keeps the invariant.\<close>

lemma timeout_wakes:
  assumes "placed s" "state_of s k = Waiting"
    and "wake_deadline (threads s k) = Some d" "d \<le> ticks"
    and "handle_timer_tick_with_preemption ticks allow s = (preempted, s')"
  shows "state_of s' k = Ready \<and> count (mset (queued (ready_qs s'))) k = 1 \<and> placed s'"
proof -
  have s': "s' = snd (handle_timer_tick_with_preemption ticks allow s)"
    by (simp add: assms(5))
  have "placed s'" "state_of s' k = Ready"
    unfolding s' by (rule placed_timer_tick [OF assms(1)], rule tick_wakes [OF assms(1-4)])
  then show ?thesis
    using count_distinct [OF placedD(2)] placedD(6) [of "{}" s' k] by blast
qed

lemma timeout_wakes_witness:
  "\<exists>preempted s'. handle_timer_tick_with_preemption 7 False (example_scheduler False) = (preempted, s') \<and>
     state_of s' (2, 3) = Ready"
proof -
  obtain preempted s' where t: "handle_timer_tick_with_preemption 7 False (example_scheduler False) = (preempted, s')"
    by force
  have "state_of (example_scheduler False) (2, 3) = Waiting"
    "wake_deadline (threads (example_scheduler False) (2, 3)) = Some 7"
    by (simp_all add: example_defs state_of_def wake_deadline_def)
  then have "state_of s' (2, 3) = Ready"
    using timeout_wakes [OF example_scheduler_placed _ _ _ t, of "(2, 3)" 7] by simp
  then show ?thesis
    using t by blast
qed

text \<open>The starvation boost moves threads between priority queues without losing, duplicating
  or changing the state of any, and keeps the placement invariant.\<close>

lemma boost_loses_no_thread:
  assumes "placed s"
  shows "mset (queued (ready_qs (boost_starved_threads s))) = mset (queued (ready_qs s)) \<and>
    state_of (boost_starved_threads s) k = state_of s k \<and>
    current (boost_starved_threads s) = current s \<and> placed (boost_starved_threads s)"
  using boost_starved_threads_spec [OF assms] boost_view by simp

lemma boost_loses_no_thread_witness:
  "placed (example_scheduler True) \<and>
   mset (queued (ready_qs (boost_starved_threads (example_scheduler True)))) = {#(2, 2), (3, 1)#}"
  using boost_loses_no_thread [OF example_scheduler_placed, of True "(2, 2)"] example_scheduler_placed [of True]
  by (simp add: example_scheduler_def [of True] queued_def)

text \<open>Work stealing splits the victim's ready threads: what is stolen and what stays make up
  the queues it had, less entries that were no longer ready; at most the wanted number is stolen,
  and every stolen thread is ready and may run on the target processor.\<close>

lemma steal_partitions:
  assumes "length qs = THREAD_PRIORITY_COUNT" "steal_ready_threads s qs wanted target = (stolen, qs')"
  shows "length qs' = THREAD_PRIORITY_COUNT \<and> length stolen \<le> wanted \<and>
    (\<exists>D. mset (queued qs) = mset stolen + D + mset (queued qs') \<and> (\<forall>j \<in># D. state_of s j \<noteq> Ready)) \<and>
    (\<forall>k \<in> set stolen. state_of s k = Ready \<and>
       (case target of None \<Rightarrow> True
        | Some c \<Rightarrow> t_affinity (threads s k) = 0 \<or> t_affinity (threads s k) = c))"
  using steal_from_spec [OF assms(2) [unfolded steal_ready_threads_def]] assms(1) by simp

lemma steal_partitions_witness:
  "\<exists>D. mset (queued [[], [(2, 2), (3, 1)], [], []]) =
     mset [(2, 2)] + D + mset (queued [[], [(3, 1)], [], []]) \<and>
     (\<forall>j \<in># D. state_of (example_scheduler True) j \<noteq> Ready)"
proof -
  have "steal_ready_threads (example_scheduler True) [[], [(2, 2), (3, 1)], [], []] 1 None =
      ([(2, 2)], [[], [(3, 1)], [], []])"
    by (simp add: steal_ready_threads_def THREAD_PRIORITY_COUNT_def numeral_eq_Suc example_defs state_of_def
        should_dispatch_ready_thread_def)
  from steal_partitions [OF _ this] show ?thesis
    by (simp add: THREAD_PRIORITY_COUNT_def)
qed

text \<open>C35: Stopping a process that is not running and continuing it again strands its threads.
  \<open>stop_threads_of_process\<close> stops every live thread and takes it out of the ready and waiting
  queues; \<open>continue_threads_of_process\<close> looks for stopped threads in those queues and the current
  slot only, so it finds none and changes nothing: the threads stay stopped.\<close>

theorem stop_continue_strands:
  assumes "placed s" "\<And>c. current s = Some c \<Longrightarrow> fst c \<noteq> pid"
    and "stop_threads_of_process pid s = (n, s')"
    and "fst k = pid" "state_of s k \<noteq> Terminated"
  shows "state_of s' k = Stopped \<and> continue_threads_of_process pid s' = (0, s')"
proof
  note view = stop_view [OF assms(1-3)]
  show "state_of s' k = Stopped"
    using view(4) assms(4,5) by blast
  show "continue_threads_of_process pid s' = (0, s')"
    by (rule continue_nothing_queued) (use view(1-3) assms(2) in auto)
qed

theorem stop_continue_strands_witness:
  "\<exists>n s'. stop_threads_of_process 3 (example_scheduler True) = (n, s') \<and>
     state_of (example_scheduler True) (3, 1) = Ready \<and>
     state_of s' (3, 1) = Stopped \<and> continue_threads_of_process 3 s' = (0, s')"
proof -
  obtain n s' where stop: "stop_threads_of_process 3 (example_scheduler True) = (n, s')"
    by force
  have "state_of (example_scheduler True) (3, 1) = Ready"
    by (simp add: example_defs state_of_def)
  moreover have "state_of s' (3, 1) = Stopped \<and> continue_threads_of_process 3 s' = (0, s')"
    by (rule stop_continue_strands [OF example_scheduler_placed _ stop])
      (auto simp: example_defs state_of_def)
  ultimately show ?thesis
    using stop by blast
qed

text \<open>Stopping the process of the running thread does not hold: with another process's thread
  ready, the next preemption makes the stopped thread ready and queues it again.\<close>

lemma stop_of_running_undone:
  "let s1 = snd (stop_threads_of_process 2 (example_scheduler True));
       s2 = snd (preempt_current_thread_from_interrupt s1)
   in state_of s1 (2, 1) = Stopped \<and> state_of s2 (2, 1) = Ready \<and> (2, 1) \<in> set (queued (ready_qs s2))"
  by (simp add: stop_threads_of_process_def suspend_def wake_by_timeout_def cleanup_remove_waiter_def
      remove_waiters_by_identity_def preempt_current_thread_from_interrupt_def
      has_dispatchable_ready_thread_def prune_nondispatchable_ready_threads_def yield_back_to_ready_def
      requeue_preempted_thread_def queued_def push_front_at_def example_defs termination_defs)

text \<open>The end of a process leaves a terminated thread in the ready queues.  While thread 1
  terminates its siblings, the end of thread 2 wakes thread 3, which was waiting for it, and queues
  it; thread 3 is terminated next, and its entry stays behind for the dispatcher to drop.\<close>

lemma sibling_join_leaves_stale_entry:
  "placed (example_scheduler False) \<and>
   (let s' = snd (finish_current_thread (example_scheduler False))
    in ready_qs s' = [[], [(2, 3)], [], []] \<and> state_of s' (2, 3) = Terminated \<and>
       take_next_dispatchable_thread_with_dropped s' (ready_qs s') = (None, 1, [[], [], [], []]))"
proof
  show "placed (example_scheduler False)"
    by (rule example_scheduler_placed)
  have "ready_qs (snd (finish_current_thread (example_scheduler False))) = [[], [(2, 3)], [], []]"
    "state_of (snd (finish_current_thread (example_scheduler False))) (2, 3) = Terminated"
    by (simp_all add: example_defs termination_defs)
  then show "let s' = snd (finish_current_thread (example_scheduler False))
    in ready_qs s' = [[], [(2, 3)], [], []] \<and> state_of s' (2, 3) = Terminated \<and>
       take_next_dispatchable_thread_with_dropped s' (ready_qs s') = (None, 1, [[], [], [], []])"
    by (simp add: take_next_dispatchable_thread_with_dropped_def THREAD_PRIORITY_COUNT_def numeral_eq_Suc
        should_dispatch_ready_thread_def)
qed

end
