(* ===== verification/Slot_Pool.thy ===== *)
theory Slot_Pool
  imports Kernel_Prelude
begin

text \<open>
  The pool of numbered, reference-counted regions (\<open>src/memory/slot_pool.rs\<close>), one definition per
  atomic operation: the load, compare-exchange and store of \<open>claim\<close>, the \<open>fetch_add\<close> of
  \<open>retain\<close>, the \<open>fetch_sub\<close> and \<open>fetch_and\<close> of \<open>release\<close>.  Any number of processors run the
  calls; \<open>pool_step\<close> interleaves their atomic operations.  \<open>held\<close> counts, per region, the address
  spaces that hold it: it is what the clients have, and the code never reads it.
\<close>

unbundle bit_operations_syntax

record slot_pool =
  taken :: u64
  references :: "nat list"

definition new_pool :: "nat \<Rightarrow> slot_pool" where
  "new_pool COUNT = \<lparr>taken = 0, references = replicate COUNT 0\<rparr>"

definition slot_mask :: "nat \<Rightarrow> u64" where
  "slot_mask index = push_bit index 1"

section \<open>The calls\<close>

text \<open>The scan of \<open>claim\<close> over one snapshot of the taken set.\<close>

fun find_free :: "nat list \<Rightarrow> u64 \<Rightarrow> nat option" where
  "find_free [] snapshot = None"
| "find_free (index # rest) snapshot =
     (if snapshot AND slot_mask index = 0 then Some index else find_free rest snapshot)"

datatype claim_round = Full | Retry | Won nat

definition claim_exchange :: "u64 \<Rightarrow> slot_pool \<Rightarrow> claim_round \<times> slot_pool" where
  "claim_exchange snapshot p =
     (case find_free [0..<length (references p)] snapshot of
        None \<Rightarrow> (Full, p)
      | Some index \<Rightarrow>
          if taken p = snapshot then (Won index, p\<lparr>taken := snapshot OR slot_mask index\<rparr>)
          else (Retry, p))"

definition claim_store :: "nat \<Rightarrow> slot_pool \<Rightarrow> slot_pool" where
  "claim_store index p = p\<lparr>references := (references p)[index := 1]\<rparr>"

text \<open>\<open>claim\<close> run without interference.\<close>

definition claim :: "slot_pool \<Rightarrow> nat option \<times> slot_pool" where
  "claim p =
     (case claim_exchange (taken p) p of
        (Won index, p1) \<Rightarrow> (Some index, claim_store index p1)
      | (_, p1) \<Rightarrow> (None, p1))"

definition retain :: "nat \<Rightarrow> slot_pool \<Rightarrow> slot_pool" where
  "retain index p =
     (if index < length (references p)
      then p\<lparr>references := (references p)[index := wrapping_add (references p ! index) 1]\<rparr>
      else p)"

text \<open>The first half answers whether the region goes back to the pool.\<close>

definition release_drop :: "nat \<Rightarrow> slot_pool \<Rightarrow> bool \<times> slot_pool" where
  "release_drop index p =
     (if index < length (references p)
      then let previous = references p ! index
           in (previous \<le> 1,
               p\<lparr>references := (references p)[index := wrapping_add previous (USIZE_LIMIT - 1)]\<rparr>)
      else (False, p))"

definition release_clear :: "nat \<Rightarrow> slot_pool \<Rightarrow> slot_pool" where
  "release_clear index p = p\<lparr>taken := taken p AND NOT (slot_mask index)\<rparr>"

definition release :: "nat \<Rightarrow> slot_pool \<Rightarrow> slot_pool" where
  "release index p =
     (case release_drop index p of (freed, p1) \<Rightarrow> if freed then release_clear index p1 else p1)"

definition is_taken :: "nat \<Rightarrow> slot_pool \<Rightarrow> bool" where
  "is_taken index p \<longleftrightarrow> index < length (references p) \<and> taken p AND slot_mask index \<noteq> 0"

definition holders :: "nat \<Rightarrow> slot_pool \<Rightarrow> nat" where
  "holders index p = (if index < length (references p) then references p ! index else 0)"

section \<open>Interleaving\<close>

datatype pool_pc = Outside | Loaded u64 | Storing nat | Clearing nat

record pool_system =
  pool :: slot_pool
  pcs :: "nat \<Rightarrow> pool_pc"
  held :: "nat \<Rightarrow> nat"

inductive pool_step :: "pool_system \<Rightarrow> pool_system \<Rightarrow> bool" where
  load: "pcs s t = Outside \<Longrightarrow> pool_step s (s\<lparr>pcs := (pcs s)(t := Loaded (taken (pool s)))\<rparr>)"
| full: "pcs s t = Loaded snapshot \<Longrightarrow> claim_exchange snapshot (pool s) = (Full, p) \<Longrightarrow>
    pool_step s (s\<lparr>pool := p, pcs := (pcs s)(t := Outside)\<rparr>)"
| retry: "pcs s t = Loaded snapshot \<Longrightarrow> claim_exchange snapshot (pool s) = (Retry, p) \<Longrightarrow>
    pool_step s (s\<lparr>pool := p, pcs := (pcs s)(t := Outside)\<rparr>)"
| won: "pcs s t = Loaded snapshot \<Longrightarrow> claim_exchange snapshot (pool s) = (Won index, p) \<Longrightarrow>
    pool_step s (s\<lparr>pool := p, pcs := (pcs s)(t := Storing index)\<rparr>)"
| store: "pcs s t = Storing index \<Longrightarrow>
    pool_step s (s\<lparr>pool := claim_store index (pool s), pcs := (pcs s)(t := Outside),
      held := (held s)(index := held s index + 1)\<rparr>)"
| retain: "pcs s t = Outside \<Longrightarrow> 0 < held s index \<Longrightarrow> held s index + 1 < USIZE_LIMIT \<Longrightarrow>
    pool_step s (s\<lparr>pool := retain index (pool s), held := (held s)(index := held s index + 1)\<rparr>)"
| drop: "pcs s t = Outside \<Longrightarrow> 0 < held s index \<Longrightarrow> release_drop index (pool s) = (freed, p) \<Longrightarrow>
    pool_step s (s\<lparr>pool := p, pcs := (pcs s)(t := (if freed then Clearing index else Outside)),
      held := (held s)(index := held s index - 1)\<rparr>)"
| clear: "pcs s t = Clearing index \<Longrightarrow>
    pool_step s (s\<lparr>pool := release_clear index (pool s), pcs := (pcs s)(t := Outside)\<rparr>)"

inductive pool_reachable :: "nat \<Rightarrow> pool_system \<Rightarrow> bool" for COUNT where
  start: "pool_reachable COUNT \<lparr>pool = new_pool COUNT, pcs = (\<lambda>_. Outside), held = (\<lambda>_. 0)\<rparr>"
| step: "pool_reachable COUNT s \<Longrightarrow> pool_step s s' \<Longrightarrow> pool_reachable COUNT s'"

text \<open>What the pool promises: regions with their numbers of holders.\<close>

inductive spec_step :: "nat \<Rightarrow> (nat \<Rightarrow> nat) \<Rightarrow> (nat \<Rightarrow> nat) \<Rightarrow> bool" for COUNT where
  spec_claim: "index < COUNT \<Longrightarrow> h index = 0 \<Longrightarrow> spec_step COUNT h (h(index := 1))"
| spec_retain: "index < COUNT \<Longrightarrow> 0 < h index \<Longrightarrow> spec_step COUNT h (h(index := h index + 1))"
| spec_release: "index < COUNT \<Longrightarrow> 0 < h index \<Longrightarrow> spec_step COUNT h (h(index := h index - 1))"

section \<open>The bitmap\<close>

lemma slot_mask_clear: "index < 64 \<Longrightarrow> w AND slot_mask index = 0 \<longleftrightarrow> \<not> bit w index"
  using and_exp_eq_0_iff_not_bit [of w index] by (simp add: slot_mask_def push_bit_eq_mult)

lemma bit_set_slot: "i < 64 \<Longrightarrow> bit (w OR slot_mask i) j \<longleftrightarrow> bit w j \<or> i = j"
  by (auto simp: slot_mask_def bit_or_iff bit_push_bit_iff bit_1_iff bit_exp_iff)

lemma bit_clear_slot: "j < 64 \<Longrightarrow> bit (w AND NOT (slot_mask i)) j \<longleftrightarrow> bit w j \<and> i \<noteq> j"
  by (auto simp: slot_mask_def bit_and_iff bit_not_iff bit_push_bit_iff bit_1_iff bit_exp_iff)

lemma find_free_Some:
  "find_free is w = Some i \<Longrightarrow> \<forall>j \<in> set is. j < 64 \<Longrightarrow> i \<in> set is \<and> \<not> bit w i"
  by (induction "is") (auto simp: slot_mask_clear split: if_splits)

lemma find_free_None:
  "find_free is w = None \<Longrightarrow> \<forall>j \<in> set is. j < 64 \<Longrightarrow> \<forall>j \<in> set is. bit w j"
  by (induction "is") (auto simp: slot_mask_clear split: if_splits)

section \<open>The invariant\<close>

definition owner :: "pool_system \<Rightarrow> nat \<Rightarrow> nat \<Rightarrow> bool" where
  "owner s t index \<longleftrightarrow> pcs s t = Storing index \<or> pcs s t = Clearing index"

definition pool_inv :: "nat \<Rightarrow> pool_system \<Rightarrow> bool" where
  "pool_inv COUNT s \<longleftrightarrow>
     length (references (pool s)) = COUNT \<and>
     (\<forall>i < COUNT. bit (taken (pool s)) i \<longleftrightarrow> 0 < held s i \<or> (\<exists>t. owner s t i)) \<and>
     (\<forall>t u i. owner s t i \<longrightarrow> owner s u i \<longrightarrow> t = u) \<and>
     (\<forall>t i. owner s t i \<longrightarrow> i < COUNT \<and> held s i = 0) \<and>
     (\<forall>i. held s i \<noteq> 0 \<longrightarrow> i < COUNT \<and> references (pool s) ! i = held s i \<and> held s i < USIZE_LIMIT)"

lemma pool_inv_start:
  "pool_inv COUNT \<lparr>pool = new_pool COUNT, pcs = (\<lambda>_. Outside), held = (\<lambda>_. 0)\<rparr>"
  by (simp add: pool_inv_def new_pool_def owner_def)

lemma pool_invD:
  assumes "pool_inv COUNT s"
  shows "length (references (pool s)) = COUNT"
    "i < COUNT \<Longrightarrow> bit (taken (pool s)) i \<longleftrightarrow> 0 < held s i \<or> (\<exists>t. owner s t i)"
    "owner s t i \<Longrightarrow> owner s u i \<Longrightarrow> t = u" "owner s t i \<Longrightarrow> i < COUNT" "owner s t i \<Longrightarrow> held s i = 0"
    "held s i \<noteq> 0 \<Longrightarrow> i < COUNT" "held s i \<noteq> 0 \<Longrightarrow> references (pool s) ! i = held s i"
    "held s i \<noteq> 0 \<Longrightarrow> held s i < USIZE_LIMIT"
  using assms unfolding pool_inv_def by blast+

lemma pool_inv_quiet:
  assumes "pool_inv COUNT s" "pool s' = pool s" "held s' = held s" "\<And>t i. owner s' t i \<longleftrightarrow> owner s t i"
  shows "pool_inv COUNT s'"
  using assms(1) unfolding pool_inv_def assms(2-4) .

lemma pool_inv_step:
  assumes "pool_inv COUNT s" "pool_step s s'" "COUNT \<le> 64"
  shows "pool_inv COUNT s'"
  using assms(2,1)
proof cases
  case (load t)
  then show ?thesis
    by (intro pool_inv_quiet [OF assms(1)]) (auto simp: owner_def)
next
  case (full t snapshot p)
  then have "p = pool s"
    by (auto simp: claim_exchange_def split: option.splits if_splits)
  then show ?thesis
    using full by (intro pool_inv_quiet [OF assms(1)]) (auto simp: owner_def)
next
  case (retry t snapshot p)
  then have "p = pool s"
    by (auto simp: claim_exchange_def split: option.splits if_splits)
  then show ?thesis
    using retry by (intro pool_inv_quiet [OF assms(1)]) (auto simp: owner_def)
next
  case (won t snapshot index p)
  note i = pool_invD [OF assms(1)]
  have p: "find_free [0..<COUNT] (taken (pool s)) = Some index"
    "p = (pool s)\<lparr>taken := taken (pool s) OR slot_mask index\<rparr>"
    using won(3) i(1) by (auto simp: claim_exchange_def split: option.splits if_splits)
  have index: "index < COUNT" "\<not> bit (taken (pool s)) index"
    using find_free_Some [OF p(1)] assms(3) by auto
  have own: "owner s' u j \<longleftrightarrow> u = t \<and> j = index \<or> owner s u j" for u j
    using won(1,2) by (auto simp: owner_def)
  have free: "held s index = 0" "\<not> owner s u index" for u
    using i(2) [OF index(1)] index(2) by auto
  show ?thesis
    unfolding pool_inv_def
    using i own free index assms(3) p(2) won(1) bit_set_slot [of index "taken (pool s)"] by auto
next
  case (store t index)
  note i = pool_invD [OF assms(1)]
  have o: "owner s t index"
    using store(2) by (simp add: owner_def)
  have own: "owner s' u j \<longleftrightarrow> u \<noteq> t \<and> owner s u j" for u j
    using store(1) by (auto simp: owner_def)
  have own': "owner s' u j \<longleftrightarrow> j \<noteq> index \<and> owner s u j" for u j
    using own i(3) [OF o] store(2) by (auto simp: owner_def)
  show ?thesis
    unfolding pool_inv_def
    using i own' o store(1) by (auto simp: claim_store_def nth_list_update)
next
  case (retain t index)
  note i = pool_invD [OF assms(1)]
  have own: "owner s' u j \<longleftrightarrow> owner s u j" for u j
    using retain(1) by (auto simp: owner_def)
  show ?thesis
    unfolding pool_inv_def
    using i own retain by (auto simp: retain_def nth_list_update wrapping_add_def)
next
  case (drop t index freed p)
  note i = pool_invD [OF assms(1)]
  have index: "index < COUNT" "references (pool s) ! index = held s index" "held s index < USIZE_LIMIT"
    using i(6-8) [of index] drop(3) by auto
  have p: "freed \<longleftrightarrow> held s index \<le> 1"
    "p = (pool s)\<lparr>references := (references (pool s))[index := held s index - 1]\<rparr>"
    using drop(3,4) index i(1) by (auto simp: release_drop_def wrapping_add_def Let_def mod_if)
  have own: "owner s' u j \<longleftrightarrow> owner s u j \<or> freed \<and> u = t \<and> j = index" for u j
    using drop(1,2) by (auto simp: owner_def)
  have free: "\<not> owner s u index" for u
    using i(5) drop(3) by fastforce
  show ?thesis
    unfolding pool_inv_def
    using i own free index less_imp_diff_less [OF index(3), of 1] p drop(1,3)
    by (auto simp: nth_list_update)
next
  case (clear t index)
  note i = pool_invD [OF assms(1)]
  have o: "owner s t index"
    using clear(2) by (simp add: owner_def)
  have own: "owner s' u j \<longleftrightarrow> u \<noteq> t \<and> owner s u j" for u j
    using clear(1) by (auto simp: owner_def)
  have own': "owner s' u j \<longleftrightarrow> j \<noteq> index \<and> owner s u j" for u j
    using own i(3) [OF o] clear(2) by (auto simp: owner_def)
  show ?thesis
    unfolding pool_inv_def
    using i own' o clear(1) assms(3) bit_clear_slot [of _ "taken (pool s)" index]
    by (auto simp: release_clear_def)
qed

lemma pool_reachable_inv: "pool_reachable COUNT s \<Longrightarrow> COUNT \<le> 64 \<Longrightarrow> pool_inv COUNT s"
  by (induction rule: pool_reachable.induct) (auto intro: pool_inv_start pool_inv_step)

lemma is_taken_iff:
  assumes "pool_inv COUNT s" "COUNT \<le> 64" "i < COUNT"
  shows "is_taken i (pool s) \<longleftrightarrow> 0 < held s i \<or> (\<exists>t. owner s t i)"
proof -
  have "i < 64"
    using assms(2,3) by simp
  then show ?thesis
    using pool_invD(1,2) [OF assms(1)] assms(3) by (simp add: is_taken_def slot_mask_clear)
qed

section \<open>Properties\<close>

text \<open>A claim under way: processor 0 has won region 0 of a pool of two and stores its count.\<close>

definition example_claim :: "pool_pc \<Rightarrow> slot_pool \<Rightarrow> (nat \<Rightarrow> nat) \<Rightarrow> pool_system" where
  "example_claim pc p h = \<lparr>pool = p, pcs = (\<lambda>_. Outside)(0 := pc), held = h\<rparr>"

lemma example_claim_reachable:
  "pool_reachable 2 (example_claim (Storing 0) \<lparr>taken = 1, references = [0, 0]\<rparr> (\<lambda>_. 0))"
  "pool_step (example_claim (Storing 0) \<lparr>taken = 1, references = [0, 0]\<rparr> (\<lambda>_. 0))
     (example_claim Outside \<lparr>taken = 1, references = [1, 0]\<rparr> ((\<lambda>_. 0)(0 := 1)))"
proof -
  let ?p = "new_pool 2"
  have "pool_reachable 2 (example_claim Outside ?p (\<lambda>_. 0))"
    using pool_reachable.start [of 2] by (simp add: example_claim_def fun_upd_idem)
  moreover have "pool_step (example_claim Outside ?p (\<lambda>_. 0)) (example_claim (Loaded 0) ?p (\<lambda>_. 0))"
    using pool_step.load [of "example_claim Outside ?p (\<lambda>_. 0)" 0] by (simp add: example_claim_def new_pool_def)
  moreover have "pool_step (example_claim (Loaded 0) ?p (\<lambda>_. 0))
      (example_claim (Storing 0) \<lparr>taken = 1, references = [0, 0]\<rparr> (\<lambda>_. 0))"
    using pool_step.won [of "example_claim (Loaded 0) ?p (\<lambda>_. 0)" 0 0 0 "\<lparr>taken = 1, references = [0, 0]\<rparr>"]
    by (simp add: example_claim_def new_pool_def claim_exchange_def slot_mask_def numeral_2_eq_2)
  ultimately show "pool_reachable 2 (example_claim (Storing 0) \<lparr>taken = 1, references = [0, 0]\<rparr> (\<lambda>_. 0))"
    using pool_reachable.step by blast
  show "pool_step (example_claim (Storing 0) \<lparr>taken = 1, references = [0, 0]\<rparr> (\<lambda>_. 0))
     (example_claim Outside \<lparr>taken = 1, references = [1, 0]\<rparr> ((\<lambda>_. 0)(0 := 1)))"
    using pool_step.store [of "example_claim (Storing 0) \<lparr>taken = 1, references = [0, 0]\<rparr> (\<lambda>_. 0)" 0 0]
    by (simp add: example_claim_def claim_store_def)
qed

text \<open>C18: Under every interleaving of claims, retains and releases by any number of processors,
  every step of the pool either leaves the holders alone or is a step of the specification: a claim
  gives a region nobody holds and makes its claimant the only holder, a retain adds a holder to a
  held region, a release takes one away.\<close>

theorem slot_pool_refines:
  assumes "COUNT \<le> 64" "pool_reachable COUNT s" "pool_step s s'"
  shows "held s' = held s \<or> spec_step COUNT (held s) (held s')"
proof -
  note i = pool_invD [OF pool_reachable_inv [OF assms(2,1)]]
  from assms(3) show ?thesis
  proof cases
    case (store t index)
    then have "index < COUNT" "held s index = 0"
      using i(4,5) [of t index] by (simp_all add: owner_def)
    then show ?thesis
      using store(1) spec_step.spec_claim [of index COUNT "held s"] by simp
  next
    case (retain t index)
    then show ?thesis
      using i(6) [of index] spec_step.spec_retain [of index COUNT "held s"] by simp
  next
    case (drop t index freed p)
    then show ?thesis
      using i(6) [of index] spec_step.spec_release [of index COUNT "held s"] by simp
  qed simp_all
qed

theorem slot_pool_refines_witness:
  "spec_step 2 (\<lambda>_. 0) ((\<lambda>_. 0)(0 := 1))"
proof -
  have "(\<lambda>_ :: nat. 0 :: nat)(0 := 1) \<noteq> (\<lambda>_. 0)"
    by (simp add: fun_eq_iff)
  then show ?thesis
    using slot_pool_refines [OF _ example_claim_reachable(1,2)] by (simp add: example_claim_def)
qed

text \<open>A held region is marked taken and its counter is its number of holders, under every
  interleaving; and once no call is in progress the regions marked taken are exactly the held ones,
  so that no region leaks, and a claim fails only when every region is held.\<close>

lemma slot_pool_counts:
  assumes "COUNT \<le> 64" "pool_reachable COUNT s"
  shows "(0 < held s i \<longrightarrow> is_taken i (pool s) \<and> holders i (pool s) = held s i) \<and>
    ((\<forall>t. pcs s t = Outside) \<longrightarrow>
       (is_taken i (pool s) \<longleftrightarrow> 0 < held s i) \<and>
       (fst (claim (pool s)) = None \<longrightarrow> i < COUNT \<longrightarrow> 0 < held s i))"
proof -
  note inv = pool_reachable_inv [OF assms(2,1)]
  note i = pool_invD [OF inv]
  have held: "is_taken i (pool s) \<and> holders i (pool s) = held s i" if "0 < held s i"
    using that i(1) i(6,7) [of i] is_taken_iff [OF inv assms(1), of i] by (simp add: holders_def)
  have quiet: "is_taken i (pool s) \<longleftrightarrow> 0 < held s i" if "\<forall>t. pcs s t = Outside"
  proof (cases "i < COUNT")
    case True
    then show ?thesis
      using that is_taken_iff [OF inv assms(1)] by (simp add: owner_def)
  next
    case False
    then show ?thesis
      using i(1) i(6) [of i] by (auto simp: is_taken_def)
  qed
  have "is_taken i (pool s)" if "fst (claim (pool s)) = None" "i < COUNT"
  proof -
    have "find_free [0..<COUNT] (taken (pool s)) = None"
      using that(1) i(1) by (auto simp: claim_def claim_exchange_def split: option.splits)
    then have "bit (taken (pool s)) i"
      using find_free_None [of "[0..<COUNT]" "taken (pool s)"] assms(1) that(2) by auto
    then show ?thesis
      using i(2) [OF that(2)] is_taken_iff [OF inv assms(1) that(2)] by simp
  qed
  then show ?thesis
    using held quiet by blast
qed

lemma slot_pool_counts_witness:
  "is_taken 0 \<lparr>taken = 1, references = [1, 0]\<rparr> \<and> holders 0 \<lparr>taken = 1, references = [1, 0]\<rparr> = 1"
  using slot_pool_counts [OF _ pool_reachable.step [OF example_claim_reachable], of 0]
  by (simp add: example_claim_def)

end
