(* ===== verification/Path_Normalization.thy ===== *)
theory Path_Normalization
  imports Kernel_Prelude "HOL-Library.Sublist"
begin

text \<open>
  Path normalisation (\<open>src/fs/path.rs\<close>) and the operations on normalised paths
  (\<open>src/fs/filesystem/path_helpers.rs\<close>), with the resolution of mounts
  (\<open>src/fs/filesystem/resolve.rs\<close>).  A \<open>str\<close> is the list of its Unicode scalar values;
  the tests the code makes on bytes concern ASCII values only, which UTF-8 encodes as themselves
  and never inside another character.
\<close>

type_synonym ustring = "nat list"

definition slash :: nat where
  "slash = 0x2F"

section \<open>The string operations\<close>

definition is_whitespace :: "nat \<Rightarrow> bool" where
  "is_whitespace c \<longleftrightarrow>
     9 \<le> c \<and> c \<le> 13 \<or> c \<in> {0x20, 0x85, 0xA0, 0x1680, 0x2028, 0x2029, 0x202F, 0x205F, 0x3000} \<or>
     0x2000 \<le> c \<and> c \<le> 0x200A"

definition trim :: "ustring \<Rightarrow> ustring" where
  "trim s = rev (dropWhile is_whitespace (rev (dropWhile is_whitespace s)))"

definition trim_start_slashes :: "ustring \<Rightarrow> ustring" where
  "trim_start_slashes s = dropWhile (\<lambda>c. c = slash) s"

fun split_slash :: "ustring \<Rightarrow> ustring list" where
  "split_slash [] = [[]]"
| "split_slash (c # s) =
     (if c = slash then [] # split_slash s
      else case split_slash s of [] \<Rightarrow> [[c]] | part # parts \<Rightarrow> (c # part) # parts)"

fun strip_prefix :: "ustring \<Rightarrow> ustring \<Rightarrow> ustring option" where
  "strip_prefix s [] = Some s"
| "strip_prefix [] (p # ps) = None"
| "strip_prefix (c # s) (p # ps) = (if c = p then strip_prefix s ps else None)"

definition starts_with :: "ustring \<Rightarrow> ustring \<Rightarrow> bool" where
  "starts_with s p \<longleftrightarrow> strip_prefix s p \<noteq> None"

definition ends_with_slash :: "ustring \<Rightarrow> bool" where
  "ends_with_slash s \<longleftrightarrow> s \<noteq> [] \<and> last s = slash"

section \<open>Normalisation\<close>

definition is_ascii_alphabetic :: "nat \<Rightarrow> bool" where
  "is_ascii_alphabetic c \<longleftrightarrow> 0x41 \<le> c \<and> c \<le> 0x5A \<or> 0x61 \<le> c \<and> c \<le> 0x7A"

definition has_drive_prefix :: "ustring \<Rightarrow> bool" where
  "has_drive_prefix path \<longleftrightarrow> 2 \<le> length path \<and> is_ascii_alphabetic (path ! 0) \<and> path ! 1 = 0x3A"

definition reject_drive_prefixed_path :: "ustring \<Rightarrow> unit result" where
  "reject_drive_prefixed_path path = (if has_drive_prefix path then Inl InvalidArgument else Inr ())"

definition is_absolute :: "ustring \<Rightarrow> bool" where
  "is_absolute path = starts_with path [slash]"

definition join_paths :: "ustring \<Rightarrow> ustring \<Rightarrow> ustring" where
  "join_paths base relative =
     (if ends_with_slash base then base else base @ [slash]) @ trim_start_slashes relative"

definition build_normalized_path :: "ustring list \<Rightarrow> ustring" where
  "build_normalized_path parts =
     (if parts = [] then [slash] else concat (map (\<lambda>part. slash # part) parts))"

definition DOT :: ustring where
  "DOT = [0x2E]"

definition DOT_DOT :: ustring where
  "DOT_DOT = [0x2E, 0x2E]"

definition push_part :: "ustring list \<Rightarrow> ustring \<Rightarrow> ustring list" where
  "push_part parts part =
     (if part = [] \<or> part = DOT then parts
      else if part = DOT_DOT then butlast parts
      else parts @ [part])"

definition collect_parts :: "ustring \<Rightarrow> ustring list" where
  "collect_parts path = foldl push_part [] (split_slash path)"

definition normalize_absolute_path :: "ustring \<Rightarrow> ustring result" where
  "normalize_absolute_path path =
     bind_result (reject_drive_prefixed_path path) (\<lambda>_.
       if \<not> starts_with path [slash] then Inl InvalidArgument
       else Inr (build_normalized_path (collect_parts (trim_start_slashes path))))"

definition sanitize_path_input :: "ustring \<Rightarrow> ustring result" where
  "sanitize_path_input path =
     (let trimmed = trim path
      in if trimmed = [] then Inl InvalidArgument
         else if list_ex (\<lambda>c. c < 0x20 \<or> c = 0x7F) trimmed then Inl InvalidArgument
         else if starts_with trimmed [slash, slash, 0x3F, slash] then Inl InvalidArgument
         else if 0x5C \<in> set trimmed then Inl InvalidArgument
         else Inr trimmed)"

definition sanitize_normalizable_path :: "ustring \<Rightarrow> ustring result" where
  "sanitize_normalizable_path path =
     bind_result (sanitize_path_input path) (\<lambda>trimmed.
       bind_result (reject_drive_prefixed_path trimmed) (\<lambda>_. Inr trimmed))"

definition sanitize_absolute_cwd :: "ustring \<Rightarrow> ustring result" where
  "sanitize_absolute_cwd cwd = bind_result (sanitize_normalizable_path cwd) normalize_absolute_path"

definition normalize_path :: "ustring \<Rightarrow> ustring \<Rightarrow> ustring result" where
  "normalize_path path cwd =
     bind_result (sanitize_normalizable_path path) (\<lambda>raw.
       bind_result (sanitize_absolute_cwd cwd) (\<lambda>cwd'.
         if is_absolute raw then normalize_absolute_path raw
         else normalize_absolute_path (join_paths cwd' raw)))"

section \<open>Normalised paths\<close>

definition matches_mount :: "ustring \<Rightarrow> ustring \<Rightarrow> bool" where
  "matches_mount path mount \<longleftrightarrow>
     (if path = mount then True
      else if ends_with_slash mount \<or> mount = [slash] then starts_with path mount
      else case strip_prefix path mount of None \<Rightarrow> False | Some rest \<Rightarrow> starts_with rest [slash])"

definition single_path_component :: "ustring \<Rightarrow> ustring option" where
  "single_path_component component =
     (if component \<noteq> [] \<and> slash \<notin> set component then Some component else None)"

definition is_valid_child_name :: "ustring \<Rightarrow> bool" where
  "is_valid_child_name name =
     (case single_path_component name of
        None \<Rightarrow> False
      | Some component \<Rightarrow> component \<noteq> DOT \<and> component \<noteq> DOT_DOT)"

definition direct_mount_child_name :: "ustring \<Rightarrow> ustring \<Rightarrow> ustring option" where
  "direct_mount_child_name parent mount_path =
     (if parent = [slash]
      then Option.bind (strip_prefix mount_path [slash]) single_path_component
      else Option.bind (strip_prefix mount_path parent) (\<lambda>rest.
             Option.bind (strip_prefix rest [slash]) single_path_component))"

definition join_normalized_child :: "ustring \<Rightarrow> ustring \<Rightarrow> ustring" where
  "join_normalized_child parent child_name =
     (if parent = [slash] then slash # child_name else parent @ [slash] @ child_name)"

definition probe_child_normalized_path :: "ustring \<Rightarrow> ustring \<Rightarrow> ustring result" where
  "probe_child_normalized_path normalized_dir probe_name =
     (if \<not> is_valid_child_name probe_name then Inl InvalidArgument
      else Inr (join_normalized_child normalized_dir probe_name))"

text \<open>\<open>rsplit_once('/')\<close>, of which the code uses the first half.\<close>

definition rsplit_once_slash :: "ustring \<Rightarrow> ustring option" where
  "rsplit_once_slash s =
     (if slash \<in> set s then Some (rev (tl (dropWhile (\<lambda>c. c \<noteq> slash) (rev s)))) else None)"

definition parent_normalized_path :: "ustring \<Rightarrow> ustring option" where
  "parent_normalized_path normalized =
     (if normalized = [slash] then None
      else Option.bind (rsplit_once_slash normalized) (\<lambda>parent.
             Some (if parent = [] then [slash] else parent)))"

definition path_is_descendant_of :: "ustring \<Rightarrow> ustring \<Rightarrow> bool" where
  "path_is_descendant_of path root =
     (case strip_prefix path root of None \<Rightarrow> False | Some remainder \<Rightarrow> starts_with remainder [slash])"

definition path_is_exact_or_child_of :: "ustring \<Rightarrow> ustring \<Rightarrow> bool" where
  "path_is_exact_or_child_of path root \<longleftrightarrow> path = root \<or> path_is_descendant_of path root"

section \<open>Strings\<close>

lemma strip_prefix_Some_iff: "strip_prefix s p = Some r \<longleftrightarrow> s = p @ r"
  by (induction s p rule: strip_prefix.induct) auto

lemma strip_prefix_None_iff: "strip_prefix s p = None \<longleftrightarrow> (\<nexists>r. s = p @ r)"
  using strip_prefix_Some_iff by (metis not_Some_eq)

lemma starts_with_iff: "starts_with s p \<longleftrightarrow> prefix p s"
  by (auto simp: starts_with_def strip_prefix_None_iff prefix_def)

lemma split_slash_not_Nil [simp]: "split_slash s \<noteq> []"
  by (cases s) (auto split: list.split)

lemma split_slash_no_slash: "part \<in> set (split_slash s) \<Longrightarrow> slash \<notin> set part \<and> set part \<subseteq> set s"
  by (induction s arbitrary: part) (fastforce split: if_splits list.splits)+

lemma split_slash_append:
  "split_slash (s @ slash # t) = split_slash s @ split_slash t"
proof (induction s)
  case (Cons c s)
  then show ?case
    by (cases "split_slash s") (auto split: list.split)
qed simp

lemma split_slash_single: "slash \<notin> set s \<Longrightarrow> split_slash s = [s]"
  by (induction s) auto

section \<open>Normal forms\<close>

definition normal_part :: "ustring \<Rightarrow> bool" where
  "normal_part p \<longleftrightarrow> p \<noteq> [] \<and> p \<noteq> DOT \<and> p \<noteq> DOT_DOT \<and> slash \<notin> set p"

lemma push_part_normal:
  "list_all normal_part parts \<Longrightarrow> slash \<notin> set part \<Longrightarrow> list_all normal_part (push_part parts part)"
  by (auto simp: push_part_def normal_part_def list_all_iff dest: in_set_butlastD)

lemma foldl_push_normal:
  "list_all normal_part parts \<Longrightarrow> \<forall>part \<in> set new. slash \<notin> set part \<Longrightarrow>
   list_all normal_part (foldl push_part parts new)"
  by (induction new arbitrary: parts) (simp_all add: push_part_normal)

lemma collect_parts_normal: "list_all normal_part (collect_parts path)"
  unfolding collect_parts_def by (rule foldl_push_normal) (auto dest: split_slash_no_slash)

lemma push_part_chars: "set (concat (push_part parts part)) \<subseteq> set (concat parts) \<union> set part"
  by (auto simp: push_part_def dest: in_set_butlastD)

lemma foldl_push_chars:
  "set (concat (foldl push_part parts new)) \<subseteq> set (concat parts) \<union> set (concat new)"
proof (induction new arbitrary: parts)
  case (Cons part new)
  show ?case
    using Cons.IH [of "push_part parts part"] push_part_chars [of parts part] by auto
qed simp

lemma collect_parts_chars: "set (concat (collect_parts path)) \<subseteq> set path"
proof -
  have "set (concat (split_slash path)) \<subseteq> set path"
    using split_slash_no_slash [of _ path] by auto
  then show ?thesis
    using foldl_push_chars [of "[]" "split_slash path"] by (simp add: collect_parts_def subset_iff)
qed

lemma foldl_push_all: "list_all normal_part new \<Longrightarrow> foldl push_part parts new = parts @ new"
proof (induction new arbitrary: parts)
  case (Cons part new)
  then have "push_part parts part = parts @ [part]"
    by (auto simp: push_part_def normal_part_def)
  then show ?case
    using Cons by simp
qed simp

lemma collect_trim_slashes: "collect_parts (trim_start_slashes s) = collect_parts s"
proof (induction s)
  case (Cons c s)
  then show ?case
    by (auto simp: collect_parts_def trim_start_slashes_def push_part_def)
qed (simp add: trim_start_slashes_def)

lemma collect_parts_append:
  "collect_parts (s @ slash # t) = foldl push_part (collect_parts s) (split_slash t)"
  by (simp add: collect_parts_def split_slash_append)

text \<open>The components of a normalised path can be read back from it.\<close>

lemma collect_build: "list_all normal_part parts \<Longrightarrow> collect_parts (build_normalized_path parts) = parts"
proof (induction parts rule: rev_induct)
  case Nil
  then show ?case
    by (simp add: build_normalized_path_def collect_parts_def push_part_def)
next
  case (snoc part parts)
  have part: "normal_part part" "split_slash part = [part]"
    using snoc.prems by (auto simp: normal_part_def split_slash_single)
  show ?case
  proof (cases "parts = []")
    case True
    then show ?thesis
      using part by (simp add: build_normalized_path_def collect_parts_def push_part_def normal_part_def)
  next
    case False
    then have "build_normalized_path (parts @ [part]) = build_normalized_path parts @ slash # part"
      by (simp add: build_normalized_path_def)
    then show ?thesis
      using snoc part by (simp add: collect_parts_append push_part_def normal_part_def)
  qed
qed

lemma build_inj:
  "list_all normal_part ps \<Longrightarrow> list_all normal_part qs \<Longrightarrow>
   build_normalized_path ps = build_normalized_path qs \<longleftrightarrow> ps = qs"
  using collect_build by metis

section \<open>What normalisation computes\<close>

definition acceptable :: "ustring \<Rightarrow> bool" where
  "acceptable s \<longleftrightarrow> trim s \<noteq> [] \<and> (\<forall>c \<in> set (trim s). 0x20 \<le> c \<and> c \<noteq> 0x7F \<and> c \<noteq> 0x5C) \<and>
     \<not> prefix [slash, slash, 0x3F, slash] (trim s) \<and> \<not> has_drive_prefix (trim s)"

lemma sanitize_eq:
  "sanitize_normalizable_path s = (if acceptable s then Inr (trim s) else Inl InvalidArgument)"
proof -
  define t where "t = trim s"
  define P where "P \<longleftrightarrow> prefix [slash, slash, 0x3F, slash] t"
  define D where "D \<longleftrightarrow> has_drive_prefix t"
  have ex: "list_ex (\<lambda>c. c < 0x20 \<or> c = 0x7F) t \<longleftrightarrow> \<not> (\<forall>c \<in> set t. 0x20 \<le> c \<and> c \<noteq> 0x7F)"
    unfolding list_ex_iff not_less [symmetric] by blast
  have all: "(\<forall>c \<in> set t. 0x20 \<le> c \<and> c \<noteq> 0x7F \<and> c \<noteq> 0x5C) \<longleftrightarrow>
      (\<forall>c \<in> set t. 0x20 \<le> c \<and> c \<noteq> 0x7F) \<and> 0x5C \<notin> set t"
    by auto
  show ?thesis
    unfolding sanitize_normalizable_path_def sanitize_path_input_def reject_drive_prefixed_path_def
      acceptable_def starts_with_iff Let_def t_def [symmetric] P_def [symmetric] D_def [symmetric] ex all
    by (cases "\<forall>c \<in> set t. 0x20 \<le> c \<and> c \<noteq> 0x7F"; cases P; cases "has_drive_prefix t") (simp_all add: D_def)
qed

lemma slash_not_alphabetic [simp]: "\<not> is_ascii_alphabetic slash"
  by (simp add: is_ascii_alphabetic_def slash_def)

lemma normalize_absolute_eq:
  "normalize_absolute_path s =
     (if prefix [slash] s then Inr (build_normalized_path (collect_parts s)) else Inl InvalidArgument)"
proof (cases "prefix [slash] s")
  case True
  then obtain t where "s = slash # t"
    by (auto simp: prefix_def)
  then show ?thesis
    by (simp add: normalize_absolute_path_def reject_drive_prefixed_path_def has_drive_prefix_def
        starts_with_iff collect_trim_slashes)
next
  case False
  then show ?thesis
    by (simp add: normalize_absolute_path_def reject_drive_prefixed_path_def starts_with_iff)
qed

lemma collect_build_collect [simp]:
  "collect_parts (build_normalized_path (collect_parts s)) = collect_parts s"
  by (simp add: collect_build collect_parts_normal)

lemma build_slash: "prefix [slash] (build_normalized_path parts)"
  by (cases parts) (simp_all add: build_normalized_path_def)

lemma collect_join:
  assumes "\<not> prefix [slash] rel"
  shows "collect_parts (join_paths (build_normalized_path parts) rel) =
    foldl push_part (collect_parts (build_normalized_path parts)) (split_slash rel)"
proof -
  have rel: "trim_start_slashes rel = rel"
    using assms by (cases rel) (auto simp: trim_start_slashes_def)
  show ?thesis
  proof (cases "ends_with_slash (build_normalized_path parts)")
    case True
    then obtain base where base: "build_normalized_path parts = base @ [slash]"
      by (metis append_butlast_last_id ends_with_slash_def)
    have "collect_parts (base @ [slash]) = collect_parts base"
      using collect_parts_append [of base "[]"] by (simp add: push_part_def)
    then show ?thesis
      using True rel base by (simp add: join_paths_def collect_parts_append)
  next
    case False
    then show ?thesis
      using rel by (simp add: join_paths_def collect_parts_append)
  qed
qed

text \<open>The walk a path describes, one component at a time, from a directory given by its
  components.\<close>

fun walk :: "ustring list \<Rightarrow> ustring list \<Rightarrow> ustring list" where
  "walk dir [] = dir"
| "walk dir (part # rest) =
     (if part \<in> {[], DOT} then walk dir rest
      else if part = DOT_DOT then walk (butlast dir) rest
      else walk (dir @ [part]) rest)"

lemma foldl_push_walk: "foldl push_part dir parts = walk dir parts"
  by (induction dir parts rule: walk.induct) (auto simp: push_part_def)

lemma normalize_path_eq:
  "normalize_path path cwd =
     (if acceptable path \<and> acceptable cwd \<and> prefix [slash] (trim cwd)
      then Inr (build_normalized_path
             (walk (if prefix [slash] (trim path) then [] else walk [] (split_slash (trim cwd)))
                (split_slash (trim path))))
      else Inl InvalidArgument)"
proof (cases "acceptable path \<and> acceptable cwd \<and> prefix [slash] (trim cwd)")
  case True
  have join: "prefix [slash] (join_paths (build_normalized_path parts) rel)" for parts rel
    using build_slash [of parts] by (auto simp: join_paths_def prefix_def)
  show ?thesis
  proof (cases "prefix [slash] (trim path)")
    case abs: True
    then show ?thesis
      using True by (simp add: normalize_path_def sanitize_eq sanitize_absolute_cwd_def normalize_absolute_eq
          is_absolute_def starts_with_iff collect_parts_def foldl_push_walk)
  next
    case False
    then show ?thesis
      using True collect_join [OF False, of "collect_parts (trim cwd)"] join
      by (simp add: normalize_path_def sanitize_eq sanitize_absolute_cwd_def normalize_absolute_eq
          is_absolute_def starts_with_iff) (simp add: collect_parts_def foldl_push_walk)
  qed
next
  case False
  then show ?thesis
    by (auto simp: normalize_path_def sanitize_eq sanitize_absolute_cwd_def normalize_absolute_eq)
qed

lemma walk_normal:
  "list_all normal_part dir \<Longrightarrow> list_all normal_part (walk dir (split_slash s))"
  unfolding foldl_push_walk [symmetric] by (rule foldl_push_normal) (auto dest: split_slash_no_slash)

lemma walk_chars:
  "set (concat (walk dir (split_slash s))) \<subseteq> set (concat dir) \<union> set s"
proof -
  have "set (concat (split_slash s)) \<subseteq> set s"
    using split_slash_no_slash [of _ s] by auto
  then show ?thesis
    using foldl_push_chars [of dir "split_slash s"] unfolding foldl_push_walk by blast
qed

lemma set_build: "set (build_normalized_path parts) = insert slash (set (concat parts))"
  by (auto simp: build_normalized_path_def)

section \<open>Normalised paths by their components\<close>

lemma build_Cons: "parts \<noteq> [] \<Longrightarrow> build_normalized_path (p # parts) = slash # p @ build_normalized_path parts"
  by (simp add: build_normalized_path_def)

lemma build_append:
  "ps \<noteq> [] \<Longrightarrow> qs \<noteq> [] \<Longrightarrow> build_normalized_path (ps @ qs) = build_normalized_path ps @ build_normalized_path qs"
  by (simp add: build_normalized_path_def)

lemma prefix_of_render:
  assumes "list_all normal_part ps" "list_all normal_part ms" "ms \<noteq> []"
    and "concat (map (\<lambda>p. slash # p) ps) = concat (map (\<lambda>p. slash # p) ms) @ rest"
    and "rest = [] \<or> hd rest = slash"
  shows "prefix ms ps \<and> rest = concat (map (\<lambda>p. slash # p) (drop (length ms) ps))"
  using assms
proof (induction ms arbitrary: ps)
  case (Cons m ms)
  obtain p ps' where ps: "ps = p # ps'"
    using Cons.prems(4) by (cases ps) auto
  let ?r = "\<lambda>ps. concat (map (\<lambda>p. slash # p) ps)"
  have eq: "p @ ?r ps' = m @ ?r ms @ rest"
    using Cons.prems(4) ps by simp
  have ns: "slash \<notin> set p" "slash \<notin> set m"
    using Cons.prems(1,2) ps by (auto simp: normal_part_def)
  have hd: "?r xs = [] \<or> hd (?r xs) = slash" for xs
    by (cases xs) auto
  have tail: "?r ms @ rest = [] \<or> hd (?r ms @ rest) = slash"
    using hd [of ms] Cons.prems(5) by (cases "?r ms") auto
  have "takeWhile (\<lambda>c. c \<noteq> slash) (p @ ?r ps') = p"
    using ns(1) hd [of ps'] by (cases "?r ps'") (auto simp: takeWhile_append)
  moreover have "takeWhile (\<lambda>c. c \<noteq> slash) (m @ ?r ms @ rest) = m"
    using ns(2) tail by (cases "?r ms @ rest") (auto simp: takeWhile_append)
  ultimately have pm: "p = m"
    using eq by simp
  then have rec: "?r ps' = ?r ms @ rest"
    using eq by simp
  show ?case
  proof (cases "ms = []")
    case True
    then show ?thesis
      using pm ps rec by simp
  next
    case False
    then show ?thesis
      using Cons.IH [of ps'] Cons.prems(1,2,5) rec pm ps by simp
  qed
qed simp

lemma strip_build:
  assumes "list_all normal_part ps" "list_all normal_part ms" "ms \<noteq> []"
  shows "strip_prefix (build_normalized_path ps) (build_normalized_path ms) = Some rest \<and>
      (rest = [] \<or> hd rest = slash) \<longleftrightarrow>
    prefix ms ps \<and> rest = concat (map (\<lambda>p. slash # p) (drop (length ms) ps))"
proof
  assume l: "strip_prefix (build_normalized_path ps) (build_normalized_path ms) = Some rest \<and>
      (rest = [] \<or> hd rest = slash)"
  then have eq: "build_normalized_path ps = build_normalized_path ms @ rest"
    by (simp add: strip_prefix_Some_iff)
  have "ps \<noteq> []"
  proof
    assume "ps = []"
    then have "concat (map (\<lambda>p. slash # p) ms) @ rest = [slash]"
      using eq assms(3) by (simp add: build_normalized_path_def)
    then show False
      using assms(2,3) by (cases ms) (auto simp: normal_part_def)
  qed
  then have "concat (map (\<lambda>p. slash # p) ps) = concat (map (\<lambda>p. slash # p) ms) @ rest"
    using eq assms(3) by (simp add: build_normalized_path_def)
  then show "prefix ms ps \<and> rest = concat (map (\<lambda>p. slash # p) (drop (length ms) ps))"
    using prefix_of_render [OF assms] l by blast
next
  assume r: "prefix ms ps \<and> rest = concat (map (\<lambda>p. slash # p) (drop (length ms) ps))"
  then obtain qs where qs: "ps = ms @ qs"
    by (auto simp: prefix_def)
  have "rest = [] \<or> hd rest = slash"
    using r by (cases "drop (length ms) ps") auto
  then show "strip_prefix (build_normalized_path ps) (build_normalized_path ms) = Some rest \<and>
      (rest = [] \<or> hd rest = slash)"
    using r qs assms(3) by (simp add: strip_prefix_Some_iff build_normalized_path_def)
qed

lemma render_Nil_iff: "concat (map (\<lambda>p. slash # p) ps) = [] \<longleftrightarrow> ps = []"
  by (cases ps) auto

lemma prefix_slash_iff: "prefix [slash] s \<longleftrightarrow> s \<noteq> [] \<and> hd s = slash"
  by (cases s) auto

lemma normal_part_ends: "normal_part p \<Longrightarrow> p \<noteq> [] \<and> hd p \<noteq> slash \<and> last p \<noteq> slash"
  unfolding normal_part_def by (metis hd_in_set last_in_set)

lemma descendant_components:
  assumes "list_all normal_part ps" "list_all normal_part ms"
  shows "path_is_descendant_of (build_normalized_path ps) (build_normalized_path ms) \<longleftrightarrow>
    ms \<noteq> [] \<and> strict_prefix ms ps"
proof (cases "ms = []")
  case True
  have "\<not> prefix [slash] rest" if "build_normalized_path ps = slash # rest" for rest
    using that assms(1) by (cases ps) (auto simp: build_normalized_path_def prefix_slash_iff dest: normal_part_ends)
  then show ?thesis
    using True by (auto simp: path_is_descendant_of_def build_normalized_path_def [of "[]"] starts_with_iff
        strip_prefix_Some_iff split: option.split)
next
  case False
  note sb = strip_build [OF assms False]
  have "path_is_descendant_of (build_normalized_path ps) (build_normalized_path ms) \<longleftrightarrow>
      (\<exists>rest. strip_prefix (build_normalized_path ps) (build_normalized_path ms) = Some rest \<and>
         rest \<noteq> [] \<and> hd rest = slash)"
    by (auto simp: path_is_descendant_of_def starts_with_iff prefix_slash_iff split: option.split)
  also have "\<dots> \<longleftrightarrow> prefix ms ps \<and> concat (map (\<lambda>p. slash # p) (drop (length ms) ps)) \<noteq> []"
    using sb by blast
  also have "\<dots> \<longleftrightarrow> strict_prefix ms ps"
    by (auto simp: render_Nil_iff strict_prefix_def prefix_def)
  finally show ?thesis
    using False by simp
qed

lemma build_ends_slash: "list_all normal_part ms \<Longrightarrow> ends_with_slash (build_normalized_path ms) \<longleftrightarrow> ms = []"
proof (cases ms rule: rev_cases)
  case (snoc ys y)
  assume "list_all normal_part ms"
  then have "y \<noteq> []" "last y \<noteq> slash"
    using snoc normal_part_ends [of y] by auto
  then show ?thesis
    using snoc by (simp add: ends_with_slash_def build_normalized_path_def)
qed (simp add: ends_with_slash_def build_normalized_path_def)

lemma matches_mount_components:
  assumes "list_all normal_part ps" "list_all normal_part ms"
  shows "matches_mount (build_normalized_path ps) (build_normalized_path ms) \<longleftrightarrow> prefix ms ps"
proof (cases "ms = []")
  case True
  then show ?thesis
    using build_slash [of ps] by (simp add: matches_mount_def starts_with_iff build_normalized_path_def [of "[]"])
next
  case False
  then have "\<not> ends_with_slash (build_normalized_path ms)" "build_normalized_path ms \<noteq> [slash]"
    using build_ends_slash [OF assms(2)] by (auto simp: ends_with_slash_def)
  then have "matches_mount (build_normalized_path ps) (build_normalized_path ms) \<longleftrightarrow>
      ps = ms \<or> path_is_descendant_of (build_normalized_path ps) (build_normalized_path ms)"
    using build_inj [OF assms] by (auto simp: matches_mount_def path_is_descendant_of_def)
  then show ?thesis
    using descendant_components [OF assms] False by (auto simp: strict_prefix_def)
qed

lemma parent_build:
  assumes "list_all normal_part ps"
  shows "parent_normalized_path (build_normalized_path ps) =
    (if ps = [] then None else Some (build_normalized_path (butlast ps)))"
proof (cases ps rule: rev_cases)
  case Nil
  then show ?thesis
    by (simp add: parent_normalized_path_def build_normalized_path_def)
next
  case (snoc qs p)
  let ?r = "concat (map (\<lambda>p. slash # p) qs)"
  have p: "slash \<notin> set p" "p \<noteq> []"
    using assms snoc by (auto simp: normal_part_def)
  have b: "build_normalized_path ps = ?r @ slash # p"
    using snoc by (simp add: build_normalized_path_def)
  have "dropWhile (\<lambda>c. c \<noteq> slash) (rev (?r @ slash # p)) = slash # rev ?r"
  proof -
    have "dropWhile (\<lambda>c. c \<noteq> slash) (rev p @ slash # rev ?r) = slash # rev ?r"
      using p(1) by (subst dropWhile_append2) auto
    then show ?thesis
      by simp
  qed
  then have split: "rsplit_once_slash (build_normalized_path ps) = Some ?r"
    by (simp add: rsplit_once_slash_def b)
  have "build_normalized_path ps \<noteq> [slash]"
    using p(2) unfolding b by (cases ?r) auto
  then show ?thesis
    using split snoc by (simp add: parent_normalized_path_def build_normalized_path_def [of qs] render_Nil_iff)
qed

lemma join_build:
  "normal_part p \<Longrightarrow> list_all normal_part ps \<Longrightarrow>
   join_normalized_child (build_normalized_path ps) p = build_normalized_path (ps @ [p])"
  using build_ends_slash [of ps]
  by (cases "ps = []") (auto simp: join_normalized_child_def build_normalized_path_def ends_with_slash_def)

lemma valid_child_iff: "is_valid_child_name p \<longleftrightarrow> normal_part p"
  by (auto simp: is_valid_child_name_def single_path_component_def normal_part_def)

section \<open>Mount resolution\<close>

text \<open>\<open>FileSystem::resolve_mount_entry\<close>, over the mount table in its iteration order.  The code
  compares lengths in bytes; the prefixes it compares are prefixes of one path, so that their lengths
  in characters are in the same order.\<close>

fun best_mount ::
  "ustring \<Rightarrow> (ustring \<times> 'm) list \<Rightarrow> (ustring \<times> 'm) option \<Rightarrow> (ustring \<times> 'm) option" where
  "best_mount path [] best = best"
| "best_mount path ((pre, mount) # mounts) best =
     best_mount path mounts
       (if matches_mount path pre
        then case best of
               None \<Rightarrow> Some (pre, mount)
             | Some (best_prefix, _) \<Rightarrow>
                 if length pre \<le> length best_prefix then best else Some (pre, mount)
        else best)"

definition relative_to_mount :: "ustring \<Rightarrow> ustring \<Rightarrow> ustring" where
  "relative_to_mount path pre =
     (if path = pre then [slash]
      else let rest = drop (length pre) path
           in if starts_with rest [slash] then rest else slash # rest)"

definition resolve_mount_entry :: "(ustring \<times> 'm) list \<Rightarrow> ustring \<Rightarrow> ('m \<times> ustring) option" where
  "resolve_mount_entry mounts path =
     map_option (\<lambda>(pre, mount). (mount, relative_to_mount path pre)) (best_mount path mounts None)"

lemma length_render: "list_all normal_part qs \<Longrightarrow> 2 * length qs \<le> length (concat (map (\<lambda>p. slash # p) qs))"
proof (induction qs)
  case (Cons p qs)
  then have "1 \<le> length p"
    by (cases p) (auto simp: normal_part_def)
  then show ?case
    using Cons by simp
qed simp

lemma length_build_prefix:
  assumes "list_all normal_part ms" "prefix ns ms"
  shows "length (build_normalized_path ns) \<le> length (build_normalized_path ms)"
    "length (build_normalized_path ms) \<le> length (build_normalized_path ns) \<Longrightarrow> ns = ms"
proof -
  obtain qs where qs: "ms = ns @ qs"
    using assms(2) by (auto simp: prefix_def)
  define l where "l = (\<lambda>xs. length (concat (map (\<lambda>p. slash # p) xs)))"
  have len: "length (build_normalized_path xs) = (if xs = [] then 1 else l xs)" for xs
    by (simp add: build_normalized_path_def l_def)
  have app: "l (ns @ qs) = l ns + l qs"
    by (simp add: l_def)
  have "list_all normal_part ns" "list_all normal_part qs"
    using assms(1) qs by simp_all
  then have "2 * length ns \<le> l ns" "2 * length qs \<le> l qs"
    using length_render [of ns] length_render [of qs] by (simp_all only: l_def)
  then have pos: "ns \<noteq> [] \<Longrightarrow> 2 \<le> l ns" "qs \<noteq> [] \<Longrightarrow> 2 \<le> l qs"
    using length_greater_0_conv [of ns] length_greater_0_conv [of qs] by linarith+
  show "length (build_normalized_path ns) \<le> length (build_normalized_path ms)"
    using pos unfolding len qs app by (cases "qs = []"; cases "ns = []") (auto simp: app)
  show "ns = ms" if "length (build_normalized_path ms) \<le> length (build_normalized_path ns)"
  proof (rule ccontr)
    assume "ns \<noteq> ms"
    then have "qs \<noteq> []"
      using qs by auto
    then show False
      using that pos unfolding len qs app by (cases "ns = []") (auto simp: app l_def)
  qed
qed

definition mount_keys_normal :: "(ustring \<times> 'm) list \<Rightarrow> bool" where
  "mount_keys_normal mounts \<longleftrightarrow>
     (\<forall>e \<in> set mounts. list_all normal_part (collect_parts (fst e)) \<and>
        fst e = build_normalized_path (collect_parts (fst e)))"

definition longest_match :: "ustring list \<Rightarrow> (ustring \<times> 'm) set \<Rightarrow> (ustring \<times> 'm) option \<Rightarrow> bool" where
  "longest_match ps mounts best =
     (case best of
        None \<Rightarrow> \<forall>e \<in> mounts. \<not> prefix (collect_parts (fst e)) ps
      | Some b \<Rightarrow> b \<in> mounts \<and> prefix (collect_parts (fst b)) ps \<and>
          (\<forall>e \<in> mounts. prefix (collect_parts (fst e)) ps \<longrightarrow>
             prefix (collect_parts (fst e)) (collect_parts (fst b))))"

lemma best_mount_longest:
  assumes "list_all normal_part ps" "mount_keys_normal (mounts0 @ mounts)"
    and "longest_match ps (set mounts0) (best)"
  shows "longest_match ps (set (mounts0 @ mounts)) (best_mount (build_normalized_path ps) mounts best)"
  using assms
proof (induction mounts arbitrary: mounts0 best)
  case (Cons e mounts)
  obtain pre m where e: "e = (pre, m)"
    by force
  have norm: "list_all normal_part (collect_parts pre)" "pre = build_normalized_path (collect_parts pre)"
    using Cons.prems(2) e by (auto simp: mount_keys_normal_def)
  have match: "matches_mount (build_normalized_path ps) pre \<longleftrightarrow> prefix (collect_parts pre) ps"
    using matches_mount_components [OF assms(1) norm(1)] norm(2) by simp
  have keys: "mount_keys_normal ((mounts0 @ [e]) @ mounts)"
    using Cons.prems(2) by simp
  show ?case
  proof (cases "prefix (collect_parts pre) ps")
    case False
    have "longest_match ps (set ((mounts0 @ [e]) @ mounts)) (best_mount (build_normalized_path ps) mounts best)"
      by (rule Cons.IH [OF Cons.prems(1) keys]) (use Cons.prems(3) False e in \<open>auto simp: longest_match_def split: option.splits\<close>)
    then show ?thesis
      using match False e by simp
  next
    case True
    define best' where "best' = (case best of None \<Rightarrow> Some (pre, m)
      | Some (best_prefix, _) \<Rightarrow> if length pre \<le> length best_prefix then best else Some (pre, m))"
    have "longest_match ps (set (mounts0 @ [e])) (best')"
    proof (cases best)
      case None
      then show ?thesis
        using Cons.prems(3) True e by (auto simp: best'_def longest_match_def)
    next
      case (Some b)
      have b: "b \<in> set mounts0" "prefix (collect_parts (fst b)) ps"
        and longest: "\<And>e. e \<in> set mounts0 \<Longrightarrow> prefix (collect_parts (fst e)) ps \<Longrightarrow>
          prefix (collect_parts (fst e)) (collect_parts (fst b))"
        using Cons.prems(3) Some by (auto simp: longest_match_def)
      have bnorm: "list_all normal_part (collect_parts (fst b))" "fst b = build_normalized_path (collect_parts (fst b))"
        using Cons.prems(2) b(1) by (auto simp: mount_keys_normal_def)
      have cmp: "prefix (collect_parts pre) (collect_parts (fst b)) \<or> prefix (collect_parts (fst b)) (collect_parts pre)"
        using True b(2) prefix_same_cases by blast
      show ?thesis
      proof (cases "length pre \<le> length (fst b)")
        case short: True
        have "prefix (collect_parts pre) (collect_parts (fst b))"
          using cmp length_build_prefix(2) [OF norm(1)] short norm(2) bnorm(2) by metis
        then show ?thesis
          using short Some b longest e by (auto simp: best'_def longest_match_def split: prod.split)
      next
        case False
        have "prefix (collect_parts (fst b)) (collect_parts pre)"
          using cmp length_build_prefix(1) [OF bnorm(1)] False norm(2) bnorm(2) by metis
        then show ?thesis
          using False Some True longest e prefix_order.trans by (fastforce simp: best'_def longest_match_def split: prod.split)
      qed
    qed
    then have "longest_match ps (set ((mounts0 @ [e]) @ mounts)) (best_mount (build_normalized_path ps) mounts best')"
      by (rule Cons.IH [OF Cons.prems(1) keys])
    moreover have "best_mount (build_normalized_path ps) (e # mounts) best = best_mount (build_normalized_path ps) mounts best'"
      using match True e by (simp add: best'_def)
    ultimately show ?thesis
      by simp
  qed
qed simp

lemma relative_to_mount_build:
  assumes "list_all normal_part ps" "list_all normal_part ms" "prefix ms ps"
  shows "relative_to_mount (build_normalized_path ps) (build_normalized_path ms) =
    build_normalized_path (drop (length ms) ps)"
proof -
  obtain qs where qs: "ps = ms @ qs"
    using assms(3) by (auto simp: prefix_def)
  consider "qs = []" | "qs \<noteq> []" "ms = []" | "qs \<noteq> []" "ms \<noteq> []"
    by blast
  then show ?thesis
  proof cases
    case 1
    then show ?thesis
      using qs by (simp add: relative_to_mount_def build_normalized_path_def)
  next
    case 2
    then obtain q qs' where q: "qs = q # qs'"
      by (cases qs) auto
    then have nq: "normal_part q"
      using assms(1) qs by simp
    have "build_normalized_path ps \<noteq> [slash]" "drop 1 (build_normalized_path ps) = q @ concat (map (\<lambda>p. slash # p) qs')"
      using 2 qs q normal_part_ends [OF nq] by (simp_all add: build_normalized_path_def)
    moreover have "\<not> prefix [slash] (q @ concat (map (\<lambda>p. slash # p) qs'))"
      using normal_part_ends [OF nq] by (cases q) (auto simp: prefix_slash_iff)
    ultimately show ?thesis
      using 2 qs q by (simp add: relative_to_mount_def build_normalized_path_def starts_with_iff Let_def)
  next
    case 3
    have ne: "build_normalized_path ps \<noteq> build_normalized_path ms"
      using build_inj [OF assms(1,2)] qs 3 by simp
    have "drop (length (build_normalized_path ms)) (build_normalized_path ps) = build_normalized_path qs"
      using build_append [of ms qs] 3 qs by simp
    then show ?thesis
      using ne build_slash [of qs] qs 3 by (simp add: relative_to_mount_def starts_with_iff Let_def)
  qed
qed

section \<open>Normalising twice\<close>

definition render_length :: "ustring list \<Rightarrow> nat" where
  "render_length parts = length (concat (map (\<lambda>p. slash # p) parts))"

lemma render_length_simps [simp]:
  "render_length [] = 0" "render_length (p # ps) = Suc (length p) + render_length ps"
  "render_length (ps @ qs) = render_length ps + render_length qs"
  by (simp_all add: render_length_def)

lemma render_length_push: "render_length (push_part dir part) \<le> render_length dir + Suc (length part)"
proof -
  have "render_length (butlast dir) \<le> render_length dir"
    by (cases dir rule: rev_cases) simp_all
  then show ?thesis
    by (auto simp: push_part_def)
qed

lemma render_length_foldl: "render_length (foldl push_part dir parts) \<le> render_length dir + render_length parts"
proof (induction parts arbitrary: dir)
  case (Cons part parts)
  show ?case
    using Cons.IH [of "push_part dir part"] render_length_push [of dir part] by simp
qed simp

lemma render_length_split: "render_length (split_slash s) = Suc (length s)"
proof (induction s)
  case (Cons c s)
  then show ?case
    by (cases "split_slash s") (auto split: list.split)
qed simp

lemma length_build_collect:
  assumes "prefix [slash] t"
  shows "length (build_normalized_path (collect_parts t)) \<le> length t"
proof -
  obtain t' where t: "t = slash # t'"
    using assms by (auto simp: prefix_def)
  have "render_length (collect_parts t) \<le> Suc (length t')"
    using render_length_foldl [of "[]" "split_slash t'"] by (simp add: t collect_parts_def push_part_def render_length_split)
  then show ?thesis
    by (simp add: t build_normalized_path_def render_length_def)
qed

lemma trim_end: "prefix [slash] s \<Longrightarrow> prefix [slash] (trim s) \<and> prefix (trim s) s"
proof -
  assume "prefix [slash] s"
  then obtain t where s: "s = slash # t"
    by (auto simp: prefix_def)
  have ns: "\<not> is_whitespace slash"
    by (simp add: is_whitespace_def slash_def)
  have eq: "trim s = rev (dropWhile is_whitespace (rev t @ [slash]))"
    using s ns by (simp add: trim_def)
  show ?thesis
  proof (cases "\<forall>c \<in> set t. is_whitespace c")
    case True
    then have "dropWhile is_whitespace (rev t @ [slash]) = dropWhile is_whitespace [slash]"
      by (subst dropWhile_append2) auto
    then have "trim s = [slash]"
      using eq ns by simp
    then show ?thesis
      using s by simp
  next
    case False
    then have d: "dropWhile is_whitespace (rev t @ [slash]) = dropWhile is_whitespace (rev t) @ [slash]"
      by (auto simp: dropWhile_append)
    have "suffix (dropWhile is_whitespace (rev t)) (rev t)"
      by (rule suffix_dropWhile)
    then have "prefix (rev (dropWhile is_whitespace (rev t))) t"
      by (simp add: suffix_to_prefix)
    then show ?thesis
      using eq d s by simp
  qed
qed

lemma normal_acceptable:
  assumes "list_all normal_part ps" "\<forall>c \<in> set (build_normalized_path ps). 0x20 \<le> c \<and> c \<noteq> 0x7F \<and> c \<noteq> 0x5C"
  shows "acceptable (build_normalized_path ps)"
proof -
  note t = trim_end [OF build_slash [of ps]]
  have sub: "set (trim (build_normalized_path ps)) \<subseteq> set (build_normalized_path ps)"
    using t by (auto simp: set_mono_prefix)
  have "\<not> prefix [slash, slash] (build_normalized_path ps)"
    using assms(1) normal_part_ends by (cases ps) (auto simp: build_normalized_path_def prefix_Cons prefix_slash_iff)
  then have "\<not> prefix [slash, slash, 0x3F, slash] (trim (build_normalized_path ps))"
    using t prefix_order.trans by (metis (no_types, lifting) append_Cons append_Nil prefixI)
  moreover have "\<not> has_drive_prefix (trim (build_normalized_path ps))"
  proof -
    obtain u where "trim (build_normalized_path ps) = slash # u"
      using t by (auto simp: prefix_def)
    then show ?thesis
      by (simp add: has_drive_prefix_def)
  qed
  ultimately show ?thesis
    using sub assms(2) t by (auto simp: acceptable_def)
qed

lemma normalize_path_form:
  assumes "normalize_path path cwd = Inr r"
  obtains ps where "r = build_normalized_path ps" "list_all normal_part ps"
    "\<forall>c \<in> set r. 0x20 \<le> c \<and> c \<noteq> 0x7F \<and> c \<noteq> 0x5C"
proof -
  let ?dir = "if prefix [slash] (trim path) then [] else walk [] (split_slash (trim cwd))"
  let ?ps = "walk ?dir (split_slash (trim path))"
  have ok: "acceptable path" "acceptable cwd" "r = build_normalized_path ?ps"
    using assms by (auto simp: normalize_path_eq split: if_splits)
  have "list_all normal_part ?dir"
    using walk_normal [of "[]"] by simp
  then have n: "list_all normal_part ?ps"
    by (rule walk_normal)
  have "set (concat ?dir) \<subseteq> set (trim cwd)"
    using walk_chars [of "[]" "trim cwd"] by simp
  then have "set r \<subseteq> insert slash (set (trim cwd) \<union> set (trim path))"
    using walk_chars [of ?dir "trim path"] unfolding ok(3) set_build by blast
  moreover have "\<forall>c \<in> insert slash (set (trim cwd) \<union> set (trim path)). 0x20 \<le> c \<and> c \<noteq> 0x7F \<and> c \<noteq> 0x5C"
    using ok(1,2) by (auto simp: acceptable_def slash_def)
  ultimately have "\<forall>c \<in> set r. 0x20 \<le> c \<and> c \<noteq> 0x7F \<and> c \<noteq> 0x5C"
    by blast
  then show thesis
    using that ok(3) n by blast
qed

section \<open>Properties\<close>

text \<open>C20: Normalisation is the walk the path describes: it fails, with \<open>InvalidArgument\<close>, exactly
  when the path or the working directory is empty, carries a control character, a backslash, a drive
  prefix or the prefix \<open>//?/\<close>, or when the working directory is not absolute; otherwise it gives the
  directory reached from the root, or for a relative path from the working directory, with parents
  clamped at the root.\<close>

theorem normalize_path_walks:
  "normalize_path path cwd =
     (if acceptable path \<and> acceptable cwd \<and> prefix [slash] (trim cwd)
      then Inr (build_normalized_path
             (walk (if prefix [slash] (trim path) then [] else walk [] (split_slash (trim cwd)))
                (split_slash (trim path))))
      else Inl InvalidArgument)"
  by (rule normalize_path_eq)

text \<open>A normalised path is absolute, its components are neither empty nor a dot nor a double
  dot and hold no slash, no character of it is a control character or a backslash, and its components
  can be read back from it.\<close>

lemma normalize_path_normal_form:
  assumes "normalize_path path cwd = Inr r"
  shows "prefix [slash] r \<and> list_all normal_part (collect_parts r) \<and>
    build_normalized_path (collect_parts r) = r \<and> (\<forall>c \<in> set r. 0x20 \<le> c \<and> c \<noteq> 0x7F \<and> c \<noteq> 0x5C)"
proof -
  obtain ps where "r = build_normalized_path ps" "list_all normal_part ps"
    "\<forall>c \<in> set r. 0x20 \<le> c \<and> c \<noteq> 0x7F \<and> c \<noteq> 0x5C"
    by (rule normalize_path_form [OF assms])
  then show ?thesis
    using build_slash [of ps] by (simp add: collect_build)
qed

lemmas path_eval = normalize_path_def sanitize_normalizable_path_def sanitize_path_input_def
  reject_drive_prefixed_path_def has_drive_prefix_def is_ascii_alphabetic_def sanitize_absolute_cwd_def
  normalize_absolute_path_def is_absolute_def join_paths_def build_normalized_path_def collect_parts_def
  push_part_def trim_start_slashes_def ends_with_slash_def starts_with_def trim_def is_whitespace_def
  slash_def DOT_def DOT_DOT_def Let_def acceptable_def normal_part_def mount_keys_normal_def
  resolve_mount_entry_def relative_to_mount_def matches_mount_def

text \<open>\<open>../x /.\<close> from \<open>/a/b\<close> is \<open>/a/x\<close> with a blank at its end, and that is \<open>/a/x\<close>.\<close>

lemma example_path:
  "normalize_path ([46, 46, 47, 120, 32, 47, 46]) ([47, 97, 47, 98]) = Inr ([47, 97, 47, 120, 32])"
  "normalize_path ([47, 97, 47, 120, 32]) ([47]) = Inr ([47, 97, 47, 120])"
  by (simp_all add: path_eval)

lemma normalize_path_normal_form_witness:
  "normalize_path ([46, 46, 47, 120, 32, 47, 46]) ([47, 97, 47, 98]) = Inr ([47, 97, 47, 120, 32]) \<and>
   list_all normal_part (collect_parts ([47, 97, 47, 120, 32]))"
  using normalize_path_normal_form [OF example_path(1)] example_path(1) by blast

text \<open>Normalising a normalised path gives it back exactly when it does not end in white space:
  a path whose last component ends in white space, which normalisation can produce, names another
  file when it is normalised once more.\<close>

lemma normalize_path_twice:
  assumes "normalize_path path cwd = Inr r" "acceptable cwd'" "prefix [slash] (trim cwd')"
  shows "normalize_path r cwd' = Inr r \<longleftrightarrow> trim r = r"
proof -
  obtain ps where ps: "r = build_normalized_path ps" "list_all normal_part ps"
    "\<forall>c \<in> set r. 0x20 \<le> c \<and> c \<noteq> 0x7F \<and> c \<noteq> 0x5C"
    by (rule normalize_path_form [OF assms(1)])
  have acc: "acceptable r"
    using normal_acceptable ps by simp
  have t: "prefix [slash] (trim r)" "prefix (trim r) r"
    using trim_end build_slash [of ps] ps(1) by auto
  have eq: "normalize_path r cwd' = Inr (build_normalized_path (collect_parts (trim r)))"
    using acc assms(2,3) t(1) by (simp add: normalize_path_eq collect_parts_def foldl_push_walk)
  show ?thesis
  proof
    assume "normalize_path r cwd' = Inr r"
    then have "length r \<le> length (trim r)"
      using eq length_build_collect [OF t(1)] by simp
    moreover obtain zs where zs: "r = trim r @ zs"
      using t(2) by (auto simp: prefix_def)
    then have "length r = length (trim r) + length zs"
      by (metis length_append)
    ultimately show "trim r = r"
      using zs by simp
  next
    assume "trim r = r"
    then show "normalize_path r cwd' = Inr r"
      using eq ps by (simp add: collect_build)
  qed
qed

lemma normalize_path_twice_witness:
  "normalize_path ([46, 46, 47, 120, 32, 47, 46]) ([47, 97, 47, 98]) = Inr ([47, 97, 47, 120, 32]) \<and>
   normalize_path ([47, 97, 47, 120, 32]) ([47]) \<noteq> Inr ([47, 97, 47, 120, 32])"
proof -
  have "acceptable ([47])" "prefix [slash] (trim ([47]))" "trim ([47, 97, 47, 120, 32]) \<noteq> [47, 97, 47, 120, 32]"
    by (simp_all add: path_eval)
  then show ?thesis
    using normalize_path_twice [OF example_path(1), of "[47]"] example_path(1) by simp
qed

text \<open>On normalised paths the string tests of the filesystem are tests on components: a mount
  covers exactly the paths that start with its components, a path is below another exactly when it
  properly extends its components, except that nothing counts as below the root; the parent of a path
  drops its last component, and joining a valid child name and taking the parent gives the directory
  back.\<close>

lemma normalized_paths_by_components:
  assumes "list_all normal_part ps" "list_all normal_part ms"
  shows "(matches_mount (build_normalized_path ps) (build_normalized_path ms) \<longleftrightarrow> prefix ms ps) \<and>
    (path_is_descendant_of (build_normalized_path ps) (build_normalized_path ms) \<longleftrightarrow>
       ms \<noteq> [] \<and> strict_prefix ms ps) \<and>
    parent_normalized_path (build_normalized_path ps) =
      (if ps = [] then None else Some (build_normalized_path (butlast ps))) \<and>
    (\<forall>child. probe_child_normalized_path (build_normalized_path ps) child =
       (if normal_part child then Inr (build_normalized_path (ps @ [child])) else Inl InvalidArgument)) \<and>
    (\<forall>child. normal_part child \<longrightarrow>
       parent_normalized_path (join_normalized_child (build_normalized_path ps) child) =
         Some (build_normalized_path ps))"
  using assms matches_mount_components descendant_components parent_build [OF assms(1)]
    parent_build [of "ps @ [child]" for child]
  by (auto simp: probe_child_normalized_path_def valid_child_iff join_build)

lemma normalized_paths_by_components_witness:
  "matches_mount (build_normalized_path [[100, 97, 116, 97], [120]]) (build_normalized_path [[100, 97, 116, 97]]) \<and>
   \<not> path_is_descendant_of (build_normalized_path [[100, 97, 116, 97]]) (build_normalized_path [])"
proof -
  have "list_all normal_part [[100, 97, 116, 97], [120]]" "list_all normal_part [[100, 97, 116, 97]]"
    by (simp_all add: path_eval)
  then show ?thesis
    using normalized_paths_by_components [of "[[100, 97, 116, 97], [120]]" "[[100, 97, 116, 97]]"]
      normalized_paths_by_components [of "[[100, 97, 116, 97]]" "[]"] by simp
qed

text \<open>Mount resolution finds the mount with the longest matching path, whatever the order of the
  table, and the path within the mounted filesystem is what is left of the components; it finds none
  only when no mount covers the path.\<close>

lemma mount_resolution_longest:
  assumes "list_all normal_part ps" "mount_keys_normal mounts"
  shows "case resolve_mount_entry mounts (build_normalized_path ps) of
      None \<Rightarrow> \<forall>e \<in> set mounts. \<not> prefix (collect_parts (fst e)) ps
    | Some (mount, relative) \<Rightarrow>
        \<exists>ms. (build_normalized_path ms, mount) \<in> set mounts \<and> prefix ms ps \<and>
          relative = build_normalized_path (drop (length ms) ps) \<and>
          (\<forall>e \<in> set mounts. prefix (collect_parts (fst e)) ps \<longrightarrow> prefix (collect_parts (fst e)) ms)"
proof -
  have long: "longest_match ps (set mounts) (best_mount (build_normalized_path ps) mounts None)"
    using best_mount_longest [OF assms(1), of "[]" mounts None] assms(2) by (simp add: longest_match_def)
  show ?thesis
  proof (cases "best_mount (build_normalized_path ps) mounts None")
    case None
    then show ?thesis
      using long by (simp add: resolve_mount_entry_def longest_match_def)
  next
    case (Some b)
    let ?ms = "collect_parts (fst b)"
    have b: "b \<in> set mounts" "prefix ?ms ps" "list_all normal_part ?ms" "fst b = build_normalized_path ?ms"
      using long Some assms(2) by (auto simp: longest_match_def mount_keys_normal_def)
    have "resolve_mount_entry mounts (build_normalized_path ps) =
        Some (snd b, build_normalized_path (drop (length ?ms) ps))"
      using Some b relative_to_mount_build [OF assms(1) b(3,2)] by (simp add: resolve_mount_entry_def split_beta)
    moreover have "(build_normalized_path ?ms, snd b) \<in> set mounts"
      using b(1,4) by (metis prod.collapse)
    ultimately show ?thesis
      using b(2) long Some by (auto simp: longest_match_def intro!: exI [of _ ?ms])
  qed
qed

lemma mount_resolution_longest_witness:
  "resolve_mount_entry [([47], 0 :: nat), ([47, 100, 97, 116, 97], 1)]
     (build_normalized_path [[100, 97, 116, 97], [120]]) = Some (1, [47, 120]) \<and>
   (\<exists>ms. (build_normalized_path ms, 1 :: nat) \<in> set [([47], 0), ([47, 100, 97, 116, 97], 1)] \<and>
      prefix ms [[100, 97, 116, 97], [120]])"
proof -
  have r: "resolve_mount_entry [([47], 0 :: nat), ([47, 100, 97, 116, 97], 1)]
     (build_normalized_path [[100, 97, 116, 97], [120]]) = Some (1, [47, 120])"
    by (simp add: path_eval)
  have "list_all normal_part [[100, 97, 116, 97], [120]]"
    "mount_keys_normal [([47], 0 :: nat), ([47, 100, 97, 116, 97], 1)]"
    by (simp_all add: path_eval)
  from mount_resolution_longest [OF this] show ?thesis
    unfolding r by auto
qed

end
