(* ===== verification/Security_Token.thy ===== *)
theory Security_Token
  imports Path_Normalization
begin

text \<open>
  Who a request runs as and what it may do: the security token
  (\<open>src/kernel/security/token.rs\<close>), mandatory access control
  (\<open>src/kernel/security/mac/\<close>) and the discretionary permissions of a node
  (\<open>src/fs/vfs/types.rs\<close>).  A denial of mandatory access control also appends a record to the
  audit log; the records a decision appends are part of its result.
\<close>

unbundle bit_operations_syntax

section \<open>The token\<close>

datatype integrity_level = Integrity_System | Integrity_High | Integrity_Medium | Integrity_Low

fun integrity_rank :: "integrity_level \<Rightarrow> nat" where
  "integrity_rank Integrity_System = 0"
| "integrity_rank Integrity_High = 1"
| "integrity_rank Integrity_Medium = 2"
| "integrity_rank Integrity_Low = 3"

record security_token =
  user_id :: u32
  primary_group_id :: u32
  integrity :: integrity_level
  elevated :: bool
  recovery :: bool
  supplementary_group_ids :: "u32 list"
  authenticated :: bool
  provisioned :: bool
  mac_type :: u32

abbreviation "ROOT_USER_ID \<equiv> 0 :: u32"
abbreviation "ROOT_GROUP_ID \<equiv> 0 :: u32"
abbreviation "DEFAULT_GUEST_USER_ID \<equiv> 1000 :: u32"
abbreviation "DEFAULT_GUEST_GROUP_ID \<equiv> 1000 :: u32"
abbreviation "MAC_TYPE_UNLABELED \<equiv> 0 :: u32"
abbreviation "MAC_TYPE_SYSTEM \<equiv> 1 :: u32"
abbreviation "MAC_TYPE_APPS \<equiv> 2 :: u32"
abbreviation "MAC_TYPE_USER \<equiv> 3 :: u32"
abbreviation "MAC_TYPE_UNTRUSTED \<equiv> 4 :: u32"
abbreviation "MAC_TYPE_NETWORK \<equiv> 5 :: u32"
abbreviation "MAC_TYPE_DEVICE \<equiv> 6 :: u32"
abbreviation "MAC_TYPE_TMP \<equiv> 7 :: u32"

definition token_new :: "u32 \<Rightarrow> u32 \<Rightarrow> integrity_level \<Rightarrow> security_token" where
  "token_new uid gid level =
     \<lparr>user_id = uid, primary_group_id = gid, integrity = level, elevated = False, recovery = False,
      supplementary_group_ids = [], authenticated = False, provisioned = False,
      mac_type = MAC_TYPE_USER\<rparr>"

definition with_elevation :: "security_token \<Rightarrow> security_token" where
  "with_elevation t = t\<lparr>elevated := True\<rparr>"

definition with_recovery :: "security_token \<Rightarrow> security_token" where
  "with_recovery t = t\<lparr>elevated := True, recovery := True\<rparr>"

definition with_authentication :: "security_token \<Rightarrow> security_token" where
  "with_authentication t = t\<lparr>authenticated := True\<rparr>"

definition with_provisioning :: "security_token \<Rightarrow> security_token" where
  "with_provisioning t = t\<lparr>provisioned := True\<rparr>"

definition with_mac_type :: "u32 \<Rightarrow> security_token \<Rightarrow> security_token" where
  "with_mac_type m t = t\<lparr>mac_type := m\<rparr>"

definition with_supplementary_groups :: "u32 list \<Rightarrow> security_token \<Rightarrow> security_token" where
  "with_supplementary_groups groups t = t\<lparr>supplementary_group_ids := groups\<rparr>"

definition token_root :: security_token where
  "token_root = with_mac_type MAC_TYPE_SYSTEM (with_supplementary_groups [ROOT_GROUP_ID]
     (with_elevation (token_new ROOT_USER_ID ROOT_GROUP_ID Integrity_High)))"

definition token_guest :: security_token where
  "token_guest = with_mac_type MAC_TYPE_UNTRUSTED
     (token_new DEFAULT_GUEST_USER_ID DEFAULT_GUEST_GROUP_ID Integrity_Medium)"

definition token_system :: security_token where
  "token_system =
     \<lparr>user_id = ROOT_USER_ID, primary_group_id = ROOT_GROUP_ID, integrity = Integrity_System,
      elevated = True, recovery = False, supplementary_group_ids = [ROOT_GROUP_ID],
      authenticated = False, provisioned = False, mac_type = MAC_TYPE_SYSTEM\<rparr>"

definition token_provisioned :: "u32 \<Rightarrow> u32 \<Rightarrow> integrity_level \<Rightarrow> security_token" where
  "token_provisioned uid gid level =
     with_provisioning (with_mac_type MAC_TYPE_SYSTEM (with_elevation (token_new uid gid level)))"

definition is_superuser :: "security_token \<Rightarrow> bool" where
  "is_superuser t \<longleftrightarrow> user_id t = ROOT_USER_ID"

definition is_system :: "security_token \<Rightarrow> bool" where
  "is_system t \<longleftrightarrow> user_id t = ROOT_USER_ID \<and> integrity t = Integrity_System"

definition is_kernel_token :: "security_token \<Rightarrow> bool" where
  "is_kernel_token t \<longleftrightarrow> is_system t \<and> \<not> provisioned t"

definition dominates_integrity :: "security_token \<Rightarrow> integrity_level \<Rightarrow> bool" where
  "dominates_integrity t other \<longleftrightarrow> integrity_rank (integrity t) \<le> integrity_rank other"

definition is_admin_mode :: "security_token \<Rightarrow> bool" where
  "is_admin_mode t \<longleftrightarrow> elevated t \<or> is_system t"

definition is_recovery_mode :: "security_token \<Rightarrow> bool" where
  "is_recovery_mode t = recovery t"

fun group_listed :: "u32 list \<Rightarrow> u32 \<Rightarrow> bool" where
  "group_listed [] group_id = False"
| "group_listed (g # gs) group_id = (if g = group_id then True else group_listed gs group_id)"

definition belongs_to_group :: "security_token \<Rightarrow> u32 \<Rightarrow> bool" where
  "belongs_to_group t group_id =
     (if primary_group_id t = group_id then True
      else group_listed (supplementary_group_ids t) group_id)"

definition may_manage_system_tree :: "security_token \<Rightarrow> bool" where
  "may_manage_system_tree t = is_admin_mode t"

definition may_bypass_discretionary_permissions :: "security_token \<Rightarrow> bool" where
  "may_bypass_discretionary_permissions t =
     (if is_kernel_token t then True
      else (is_superuser t \<or> is_admin_mode t) \<and> authenticated t)"

definition may_bypass_read_only_mounts :: "security_token \<Rightarrow> bool" where
  "may_bypass_read_only_mounts t = is_recovery_mode t"

section \<open>Mandatory access control\<close>

abbreviation "MAC_CLASS_FILE \<equiv> 1 :: u32"
abbreviation "MAC_CLASS_DIR \<equiv> 2 :: u32"
abbreviation "MAC_CLASS_PROCESS \<equiv> 3 :: u32"
abbreviation "MAC_CLASS_NETWORK \<equiv> 4 :: u32"
abbreviation "MAC_PERM_READ \<equiv> 1 :: u32"
abbreviation "MAC_PERM_WRITE \<equiv> 2 :: u32"
abbreviation "MAC_PERM_EXEC \<equiv> 4 :: u32"
abbreviation "MAC_PERM_SEARCH \<equiv> 64 :: u32"

record mac_rule =
  r_subject :: u32
  r_object :: u32
  r_class :: u32
  r_perms :: u32

record mac_policy =
  rules :: "mac_rule list"
  default_deny :: bool
  enabled :: bool

record mac_state =
  policy :: mac_policy
  path_types :: "ustring \<rightharpoonup> u32"

text \<open>Subject, object, class, permissions and user of a denial, as its audit record carries them.\<close>

type_synonym mac_denial = "u32 \<times> u32 \<times> u32 \<times> u32 \<times> u32"

definition new_mac_policy :: mac_policy where
  "new_mac_policy = \<lparr>rules = [], default_deny = True, enabled = False\<rparr>"

definition add_rule :: "mac_rule \<Rightarrow> bool \<Rightarrow> mac_policy \<Rightarrow> mac_policy" where
  "add_rule rule replace p =
     p\<lparr>rules := (if replace
        then filter (\<lambda>r. \<not> (r_subject r = r_subject rule \<and> r_object r = r_object rule \<and>
                          r_class r = r_class rule)) (rules p)
        else rules p) @ [rule]\<rparr>"

fun some_rule_allows :: "mac_rule list \<Rightarrow> u32 \<Rightarrow> u32 \<Rightarrow> u32 \<Rightarrow> u32 \<Rightarrow> bool" where
  "some_rule_allows [] subject obj class perms = False"
| "some_rule_allows (r # rs) subject obj class perms =
     (if r_subject r = subject \<and> r_object r = obj \<and> r_class r = class \<and> r_perms r AND perms = perms
      then True else some_rule_allows rs subject obj class perms)"

definition decision :: "mac_policy \<Rightarrow> u32 \<Rightarrow> u32 \<Rightarrow> u32 \<Rightarrow> u32 \<Rightarrow> bool option" where
  "decision p subject obj class perms =
     (if \<not> enabled p then None
      else if some_rule_allows (rules p) subject obj class perms then Some True
      else Some (\<not> default_deny p))"

definition mac_decide ::
  "mac_state \<Rightarrow> u32 \<Rightarrow> u32 \<Rightarrow> u32 \<Rightarrow> u32 \<Rightarrow> u32 \<Rightarrow> unit result \<times> mac_denial list" where
  "mac_decide st subject obj class perms uid =
     (if decision (policy st) subject obj class perms = Some False
      then (Inl PermissionDenied, [(subject, obj, class, perms, uid)])
      else (Inr (), []))"

definition SYSTEM_PATH :: ustring where
  "SYSTEM_PATH = [47, 115, 121, 115, 116, 101, 109]"

definition APPS_PATH :: ustring where
  "APPS_PATH = [47, 97, 112, 112, 115]"

definition DATA_ROOT_PATH :: ustring where
  "DATA_ROOT_PATH = [47, 100, 97, 116, 97]"

definition DEV_PATH :: ustring where
  "DEV_PATH = [47, 100, 101, 118]"

definition TEMP_MOUNT_PATH :: ustring where
  "TEMP_MOUNT_PATH = [47, 116, 109, 112]"

definition object_type_for_path :: "mac_state \<Rightarrow> ustring \<Rightarrow> u32" where
  "object_type_for_path st normalized =
     (case path_types st normalized of
        Some t \<Rightarrow> t
      | None \<Rightarrow>
          if path_is_exact_or_child_of normalized SYSTEM_PATH then MAC_TYPE_SYSTEM
          else if path_is_exact_or_child_of normalized APPS_PATH then MAC_TYPE_APPS
          else if path_is_exact_or_child_of normalized DATA_ROOT_PATH then MAC_TYPE_USER
          else if path_is_exact_or_child_of normalized DEV_PATH then MAC_TYPE_DEVICE
          else if path_is_exact_or_child_of normalized TEMP_MOUNT_PATH then MAC_TYPE_TMP
          else MAC_TYPE_UNLABELED)"

definition check_file ::
  "mac_state \<Rightarrow> u32 \<Rightarrow> ustring \<Rightarrow> u32 \<Rightarrow> u32 \<Rightarrow> u32 \<Rightarrow> unit result \<times> mac_denial list" where
  "check_file st subject normalized class perms audit_uid =
     mac_decide st subject (object_type_for_path st normalized) class perms audit_uid"

definition check_process ::
  "mac_state \<Rightarrow> u32 \<Rightarrow> u32 \<Rightarrow> u32 \<Rightarrow> u32 \<Rightarrow> unit result \<times> mac_denial list" where
  "check_process st subject target perms audit_uid =
     mac_decide st subject target MAC_CLASS_PROCESS perms audit_uid"

definition check_network :: "mac_state \<Rightarrow> u32 \<Rightarrow> u32 \<Rightarrow> u32 \<Rightarrow> unit result \<times> mac_denial list" where
  "check_network st subject perms audit_uid =
     mac_decide st subject MAC_TYPE_NETWORK MAC_CLASS_NETWORK perms audit_uid"

definition set_path_type :: "ustring \<Rightarrow> u32 \<Rightarrow> mac_state \<Rightarrow> mac_state" where
  "set_path_type normalized m st = st\<lparr>path_types := (path_types st)(normalized \<mapsto> m)\<rparr>"

section \<open>Discretionary permissions\<close>

datatype node_kind = Directory | File | Device | Symlink

abbreviation "ACCESS_READ_BIT \<equiv> 4 :: u16"
abbreviation "ACCESS_WRITE_BIT \<equiv> 2 :: u16"
abbreviation "ACCESS_EXECUTE_BIT \<equiv> 1 :: u16"
abbreviation "MODE_ACCESS_MASK \<equiv> 7 :: u16"
abbreviation "MAX_PERMISSION_MODE \<equiv> 511 :: u16"

record security_descriptor =
  owner_uid :: u32
  owner_gid :: u32
  mode :: u16

definition sd_root :: "u16 \<Rightarrow> security_descriptor" where
  "sd_root m = \<lparr>owner_uid = ROOT_USER_ID, owner_gid = ROOT_GROUP_ID, mode = m\<rparr>"

definition sd_guest :: "u16 \<Rightarrow> security_descriptor" where
  "sd_guest m = \<lparr>owner_uid = DEFAULT_GUEST_USER_ID, owner_gid = DEFAULT_GUEST_GROUP_ID, mode = m\<rparr>"

text \<open>Modes are octal in the code: 0o755, 0o644, 0o660, 0o777.\<close>

fun default_mode_for_kind :: "node_kind \<Rightarrow> u16" where
  "default_mode_for_kind Directory = 493"
| "default_mode_for_kind File = 420"
| "default_mode_for_kind Device = 432"
| "default_mode_for_kind Symlink = 511"

definition root_for_kind :: "node_kind \<Rightarrow> security_descriptor" where
  "root_for_kind kind = sd_root (default_mode_for_kind kind)"

definition owner_mode_bits :: "security_descriptor \<Rightarrow> u16" where
  "owner_mode_bits sd = drop_bit 6 (mode sd) AND MODE_ACCESS_MASK"

definition group_mode_bits :: "security_descriptor \<Rightarrow> u16" where
  "group_mode_bits sd = drop_bit 3 (mode sd) AND MODE_ACCESS_MASK"

definition other_mode_bits :: "security_descriptor \<Rightarrow> u16" where
  "other_mode_bits sd = mode sd AND MODE_ACCESS_MASK"

definition granted_mode_bits_for :: "security_descriptor \<Rightarrow> security_token \<Rightarrow> u16" where
  "granted_mode_bits_for sd t =
     (if user_id t = owner_uid sd then owner_mode_bits sd
      else if belongs_to_group t (owner_gid sd) then group_mode_bits sd
      else other_mode_bits sd)"

record access_query_result =
  granted_mode_bits :: u16
  allowed :: bool
  can_read :: bool
  can_write :: bool
  can_execute :: bool
  bypasses_discretionary_permissions :: bool

definition candidate_mode_bits :: "security_descriptor \<Rightarrow> security_token \<Rightarrow> u16" where
  "candidate_mode_bits sd t =
     (let bits = (if may_bypass_discretionary_permissions t then MODE_ACCESS_MASK
                  else granted_mode_bits_for sd t)
      in if integrity t = Integrity_Low then bits AND NOT ACCESS_WRITE_BIT else bits)"

definition access_query_for :: "security_descriptor \<Rightarrow> u16 \<Rightarrow> security_token \<Rightarrow> access_query_result" where
  "access_query_for sd required t =
     (let bits = candidate_mode_bits sd t
      in \<lparr>granted_mode_bits = bits, allowed = (required AND NOT bits = 0),
          can_read = (bits AND ACCESS_READ_BIT \<noteq> 0), can_write = (bits AND ACCESS_WRITE_BIT \<noteq> 0),
          can_execute = (bits AND ACCESS_EXECUTE_BIT \<noteq> 0),
          bypasses_discretionary_permissions = may_bypass_discretionary_permissions t\<rparr>)"

record security_descriptor_update =
  upd_owner_uid :: "u32 option"
  upd_owner_gid :: "u32 option"
  upd_mode :: "u16 option"

definition apply_update :: "security_descriptor \<Rightarrow> security_descriptor_update \<Rightarrow> security_descriptor result" where
  "apply_update sd update =
     (let updated_mode = (case upd_mode update of Some m \<Rightarrow> m | None \<Rightarrow> mode sd)
      in if updated_mode AND NOT MAX_PERMISSION_MODE \<noteq> 0 then Inl InvalidArgument
         else Inr \<lparr>owner_uid = (case upd_owner_uid update of Some u \<Rightarrow> u | None \<Rightarrow> owner_uid sd),
                   owner_gid = (case upd_owner_gid update of Some g \<Rightarrow> g | None \<Rightarrow> owner_gid sd),
                   mode = updated_mode\<rparr>)"

section \<open>Properties\<close>

lemma some_rule_allows_iff:
  "some_rule_allows rs subject obj class perms \<longleftrightarrow>
   (\<exists>r \<in> set rs. r_subject r = subject \<and> r_object r = obj \<and> r_class r = class \<and>
      r_perms r AND perms = perms)"
  by (induction rs) auto

lemma group_listed_iff: "group_listed gs g \<longleftrightarrow> g \<in> set gs"
  by (induction gs) auto

text \<open>Mandatory access control, once enforced, allows a request exactly when some rule for its
  subject, object and class grants every permission asked for, or the default is to allow; the order
  of the rules does not matter.  Everything else is denied with one audit record, and while the
  policy is not enforced nothing is denied.\<close>

lemma mac_decide_iff:
  "mac_decide st subject obj class perms uid =
     (if enabled (policy st) \<and> default_deny (policy st) \<and>
         \<not> (\<exists>r \<in> set (rules (policy st)). r_subject r = subject \<and> r_object r = obj \<and>
               r_class r = class \<and> r_perms r AND perms = perms)
      then (Inl PermissionDenied, [(subject, obj, class, perms, uid)]) else (Inr (), []))"
  unfolding some_rule_allows_iff [symmetric] by (auto simp: mac_decide_def decision_def)

end
