(* ===== verification/Access_Control.thy ===== *)
theory Access_Control
  imports Security_Token
begin

text \<open>
  Authorisation of filesystem requests (\<open>src/fs/filesystem/security.rs\<close>,
  \<open>security_helpers.rs\<close>, \<open>access_helpers.rs\<close>): the descriptor a path has by its place in the
  layout, the effective access of a token after the mount's and the mandatory policy's say, opening
  a node, mutating a directory, and changing a descriptor.  A mounted filesystem is an object behind
  a trait; what authorisation asks of it, its \<open>stat\<close> and whether it stores descriptors, are fields of
  the mount point, and the number of entries of a merged directory listing is a parameter.
\<close>

unbundle bit_operations_syntax

section \<open>Paths and their descriptors\<close>

definition DATA_USERS_ROOT_PATH :: ustring where
  "DATA_USERS_ROOT_PATH = [47, 100, 97, 116, 97, 47, 117, 115, 101, 114, 115]"

definition DATA_CREDENTIAL_ROOT_PATH :: ustring where
  "DATA_CREDENTIAL_ROOT_PATH = [47, 100, 97, 116, 97, 47, 101, 116, 99]"

text \<open>\<open>/system/dev/\<close> followed by the name of the device.\<close>

definition SYSTEM_DEV_PREFIX :: ustring where
  "SYSTEM_DEV_PREFIX = [47, 115, 121, 115, 116, 101, 109, 47, 100, 101, 118, 47]"

definition public_device_paths :: "ustring list" where
  "public_device_paths = map (\<lambda>name. SYSTEM_DEV_PREFIX @ name)
     [[99, 111, 110, 115, 111, 108, 101], [115, 116, 100, 105, 110], [115, 116, 100, 111, 117, 116], [115, 116, 100, 101, 114, 114], [110, 117, 108, 108], [122, 101, 114, 111]]"

definition system_device_paths :: "ustring list" where
  "system_device_paths = map (\<lambda>name. SYSTEM_DEV_PREFIX @ name)
     [[100, 101, 98, 117, 103], [115, 101, 114, 105, 97, 108, 48], [107, 101, 121, 98, 111, 97, 114, 100], [107, 101, 121, 98, 111, 97, 114, 100, 45, 114, 97, 119]]"

datatype permission_mutation_scope = SystemManaged | DataBoundary | UserData

definition permission_mutation_scope_for_path :: "ustring \<Rightarrow> permission_mutation_scope" where
  "permission_mutation_scope_for_path normalized =
     (if normalized = [slash] \<or> path_is_exact_or_child_of normalized SYSTEM_PATH \<or>
         path_is_exact_or_child_of normalized APPS_PATH
      then SystemManaged
      else if normalized = DATA_ROOT_PATH \<or> normalized = DATA_USERS_ROOT_PATH \<or>
              path_is_exact_or_child_of normalized DATA_CREDENTIAL_ROOT_PATH
      then DataBoundary
      else if path_is_descendant_of normalized DATA_ROOT_PATH \<or>
              path_is_exact_or_child_of normalized TEMP_MOUNT_PATH
      then UserData
      else SystemManaged)"

definition requires_recovery_mode :: "permission_mutation_scope \<Rightarrow> bool" where
  "requires_recovery_mode scope \<longleftrightarrow> scope = SystemManaged"

definition requires_privileged_actor :: "permission_mutation_scope \<Rightarrow> bool" where
  "requires_privileged_actor scope \<longleftrightarrow> scope \<noteq> UserData"

definition allows_unprivileged_owned_mode_change :: "permission_mutation_scope \<Rightarrow> bool" where
  "allows_unprivileged_owned_mode_change scope \<longleftrightarrow> scope = UserData"

definition update_changes_ownership :: "security_descriptor \<Rightarrow> security_descriptor_update \<Rightarrow> bool" where
  "update_changes_ownership current update \<longleftrightarrow>
     (case upd_owner_uid update of Some u \<Rightarrow> u \<noteq> owner_uid current | None \<Rightarrow> False) \<or>
     (case upd_owner_gid update of Some g \<Rightarrow> g \<noteq> owner_gid current | None \<Rightarrow> False)"

datatype storage_zone = Zone_System | Zone_Apps | Zone_Data

definition is_data_system_boundary_directory :: "ustring \<Rightarrow> bool" where
  "is_data_system_boundary_directory normalized \<longleftrightarrow>
     normalized = DATA_ROOT_PATH \<or> normalized = DATA_USERS_ROOT_PATH"

definition default_security_zone_for_path :: "ustring \<Rightarrow> storage_zone option" where
  "default_security_zone_for_path normalized =
     (if path_is_exact_or_child_of normalized SYSTEM_PATH then Some Zone_System
      else if path_is_exact_or_child_of normalized APPS_PATH then Some Zone_Apps
      else if path_is_descendant_of normalized DATA_ROOT_PATH then Some Zone_Data
      else None)"

text \<open>Modes 0o755, 0o644, 0o660 and 0o644 in the system zones, 0o775 and 0o664 in the data zone.\<close>

fun zone_mode_for_kind :: "storage_zone \<Rightarrow> node_kind \<Rightarrow> u16" where
  "zone_mode_for_kind Zone_Data kind = (if kind = Directory then 509 else 436)"
| "zone_mode_for_kind _ kind =
     (case kind of Directory \<Rightarrow> 493 | File \<Rightarrow> 420 | Device \<Rightarrow> 432 | Symlink \<Rightarrow> 420)"

definition zone_security_descriptor :: "storage_zone \<Rightarrow> node_kind \<Rightarrow> security_descriptor" where
  "zone_security_descriptor zone kind =
     (if zone = Zone_Data then sd_guest (zone_mode_for_kind zone kind)
      else sd_root (zone_mode_for_kind zone kind))"

definition device_mode_for_path :: "ustring \<Rightarrow> u16 option" where
  "device_mode_for_path normalized =
     (if normalized \<in> set public_device_paths then Some 438
      else if normalized \<in> set system_device_paths then Some 432 else None)"

definition default_security_descriptor_for_path :: "ustring \<Rightarrow> node_kind \<Rightarrow> security_descriptor" where
  "default_security_descriptor_for_path normalized kind =
     (if normalized = [slash] \<or> is_data_system_boundary_directory normalized then sd_root 493
      else if path_is_exact_or_child_of normalized DATA_CREDENTIAL_ROOT_PATH
      then (if kind = Directory then sd_root 448 else sd_root 384)
      else case (if kind = Device then device_mode_for_path normalized else None) of
             Some m \<Rightarrow> sd_root m
           | None \<Rightarrow>
               (case default_security_zone_for_path normalized of
                  Some zone \<Rightarrow> zone_security_descriptor zone kind
                | None \<Rightarrow>
                    if path_is_exact_or_child_of normalized TEMP_MOUNT_PATH
                    then sd_guest (if kind = Directory then 511 else 438)
                    else root_for_kind kind))"

section \<open>The filesystem as authorisation sees it\<close>

text \<open>The timestamps of \<open>Metadata\<close> take no part in authorisation and are left out.\<close>

record metadata =
  kind :: node_kind
  size :: nat
  security :: security_descriptor

datatype mutation_support = LayoutDerivedOnly | PersistentReadOnly | Persistent

definition provides_persistent_metadata :: "mutation_support \<Rightarrow> bool" where
  "provides_persistent_metadata support \<longleftrightarrow> support \<noteq> LayoutDerivedOnly"

definition supports_persistent_updates :: "mutation_support \<Rightarrow> bool" where
  "supports_persistent_updates support \<longleftrightarrow> support = Persistent"

record mount_point =
  m_stat :: "ustring \<Rightarrow> metadata result"
  m_support :: mutation_support
  m_flags :: u32

record file_system =
  mounted_fs :: "(ustring \<times> mount_point) list"
  root_len :: nat
  dir_len :: "ustring \<Rightarrow> nat result"

definition with_default_security :: "ustring \<Rightarrow> metadata \<Rightarrow> metadata" where
  "with_default_security normalized md =
     md\<lparr>security := default_security_descriptor_for_path normalized (kind md)\<rparr>"

definition with_mount_effective_security :: "ustring \<Rightarrow> mutation_support \<Rightarrow> metadata \<Rightarrow> metadata" where
  "with_mount_effective_security normalized support md =
     (if provides_persistent_metadata support then md else with_default_security normalized md)"

definition require_mount_entry :: "file_system \<Rightarrow> ustring \<Rightarrow> (mount_point \<times> ustring) result" where
  "require_mount_entry fs path =
     (case resolve_mount_entry (mounted_fs fs) path of None \<Rightarrow> Inl NotFound | Some e \<Rightarrow> Inr e)"

definition stat_normalized_path :: "file_system \<Rightarrow> ustring \<Rightarrow> metadata result" where
  "stat_normalized_path fs normalized =
     (if normalized = [slash]
      then Inr (with_default_security normalized
             \<lparr>kind = Directory, size = root_len fs, security = root_for_kind Directory\<rparr>)
      else bind_result (require_mount_entry fs normalized) (\<lambda>(mount, relative).
        bind_result (m_stat mount relative) (\<lambda>md0.
          let md = with_mount_effective_security normalized (m_support mount) md0
          in if kind md \<noteq> Directory then Inr md
             else bind_result (dir_len fs normalized) (\<lambda>n.
               Inr (with_mount_effective_security normalized (m_support mount)
                      \<lparr>kind = Directory, size = n, security = security md\<rparr>)))))"

section \<open>Access\<close>

abbreviation "HANDLE_RIGHT_READ \<equiv> 1 :: u32"
abbreviation "HANDLE_RIGHT_WRITE \<equiv> 2 :: u32"
abbreviation "MOUNT_READ_ONLY \<equiv> 1 :: u32"

definition required_open_access :: "node_kind \<Rightarrow> u32 \<Rightarrow> u16" where
  "required_open_access k desired =
     (let r1 = (if desired AND HANDLE_RIGHT_READ \<noteq> 0 then ACCESS_READ_BIT else 0);
          r2 = (if desired AND HANDLE_RIGHT_WRITE \<noteq> 0 then r1 OR ACCESS_WRITE_BIT else r1)
      in if k = Directory \<and> r2 \<noteq> 0 then r2 OR ACCESS_EXECUTE_BIT else r2)"

definition open_requires_mount_write_access :: "node_kind \<Rightarrow> u16 \<Rightarrow> bool" where
  "open_requires_mount_write_access k required \<longleftrightarrow> required AND ACCESS_WRITE_BIT \<noteq> 0 \<and> k \<noteq> Device"

definition mount_is_ordinary_writable :: "u32 \<Rightarrow> bool" where
  "mount_is_ordinary_writable flags \<longleftrightarrow> flags AND MOUNT_READ_ONLY = 0"

definition mount_allows_write_for_security_token :: "u32 \<Rightarrow> security_token \<Rightarrow> bool" where
  "mount_allows_write_for_security_token flags t \<longleftrightarrow>
     mount_is_ordinary_writable flags \<or> may_bypass_read_only_mounts t"

definition path_write_access_visible :: "file_system \<Rightarrow> ustring \<Rightarrow> security_token \<Rightarrow> bool" where
  "path_write_access_visible fs normalized t =
     (case resolve_mount_entry (mounted_fs fs) normalized of
        Some (mount, _) \<Rightarrow> mount_allows_write_for_security_token (m_flags mount) t
      | None \<Rightarrow> True)"

definition require_mount_write_access :: "file_system \<Rightarrow> ustring \<Rightarrow> security_token \<Rightarrow> unit result" where
  "require_mount_write_access fs normalized t =
     (case resolve_mount_entry (mounted_fs fs) normalized of
        None \<Rightarrow> Inr ()
      | Some (mount, _) \<Rightarrow>
          if \<not> mount_allows_write_for_security_token (m_flags mount) t then Inl PermissionDenied
          else Inr ())"

definition mac_perms_for :: "node_kind \<Rightarrow> u16 \<Rightarrow> u32" where
  "mac_perms_for k required =
     (let p1 = (if required AND ACCESS_READ_BIT \<noteq> 0 then MAC_PERM_READ else 0);
          p2 = (if required AND ACCESS_WRITE_BIT \<noteq> 0 then p1 OR MAC_PERM_WRITE else p1)
      in if required AND ACCESS_EXECUTE_BIT \<noteq> 0
         then p2 OR (if k = Directory then MAC_PERM_SEARCH else MAC_PERM_EXEC) else p2)"

definition mac_class_for :: "node_kind \<Rightarrow> u32" where
  "mac_class_for k = (if k = Directory then MAC_CLASS_DIR else MAC_CLASS_FILE)"

definition effective_access ::
  "file_system \<Rightarrow> mac_state \<Rightarrow> ustring \<Rightarrow> metadata \<Rightarrow> u16 \<Rightarrow> security_token \<Rightarrow>
   access_query_result \<times> mac_denial list" where
  "effective_access fs mac normalized md required t =
     (let a0 = access_query_for (security md) required t;
          a1 = (if kind md \<noteq> Device \<and> can_write a0 \<and> \<not> path_write_access_visible fs normalized t
                then let bits = granted_mode_bits a0 AND NOT ACCESS_WRITE_BIT
                     in a0\<lparr>granted_mode_bits := bits, can_write := False,
                           allowed := (required AND NOT bits = 0)\<rparr>
                else a0)
      in if \<not> allowed a1 then (a1, [])
         else case check_file mac (mac_type t) normalized (mac_class_for (kind md))
                     (mac_perms_for (kind md) required) (user_id t) of
                (Inr _, log) \<Rightarrow> (a1, log)
              | (Inl _, log) \<Rightarrow>
                  (a1\<lparr>allowed := False, granted_mode_bits := 0, can_read := False,
                      can_write := False, can_execute := False\<rparr>, log))"

definition authorized_existing_open_metadata_for ::
  "file_system \<Rightarrow> mac_state \<Rightarrow> ustring \<Rightarrow> u32 \<Rightarrow> security_token \<Rightarrow>
   (metadata \<times> u16) result \<times> mac_denial list" where
  "authorized_existing_open_metadata_for fs mac normalized desired t =
     (case stat_normalized_path fs normalized of
        Inl e \<Rightarrow> (Inl e, [])
      | Inr md \<Rightarrow>
          (let required = required_open_access (kind md) desired;
               (access, log) = effective_access fs mac normalized md required t
           in (if \<not> allowed access then Inl PermissionDenied else Inr (md, required), log)))"

definition authorize_existing_open ::
  "file_system \<Rightarrow> mac_state \<Rightarrow> ustring \<Rightarrow> u32 \<Rightarrow> security_token \<Rightarrow> unit result \<times> mac_denial list" where
  "authorize_existing_open fs mac normalized desired t =
     (let (r, log) = authorized_existing_open_metadata_for fs mac normalized desired t
      in (bind_result r (\<lambda>(md, required).
            if open_requires_mount_write_access (kind md) required
            then require_mount_write_access fs normalized t else Inr ()), log))"

definition authorize_directory_access ::
  "file_system \<Rightarrow> mac_state \<Rightarrow> ustring \<Rightarrow> u16 \<Rightarrow> security_token \<Rightarrow> unit result \<times> mac_denial list" where
  "authorize_directory_access fs mac normalized required t =
     (case stat_normalized_path fs normalized of
        Inl e \<Rightarrow> (Inl e, [])
      | Inr md \<Rightarrow>
          if kind md \<noteq> Directory then (Inl InvalidArgument, [])
          else (let (access, log) = effective_access fs mac normalized md required t
                in (if \<not> allowed access then Inl PermissionDenied else Inr (), log)))"

definition authorize_parent_directory_mutation ::
  "file_system \<Rightarrow> mac_state \<Rightarrow> ustring \<Rightarrow> security_token \<Rightarrow> unit result \<times> mac_denial list" where
  "authorize_parent_directory_mutation fs mac normalized t =
     (case parent_normalized_path normalized of
        None \<Rightarrow> (Inl InvalidArgument, [])
      | Some parent \<Rightarrow>
          (case require_mount_write_access fs normalized t of
             Inl e \<Rightarrow> (Inl e, [])
           | Inr _ \<Rightarrow> authorize_directory_access fs mac parent
                        (ACCESS_WRITE_BIT OR ACCESS_EXECUTE_BIT) t))"

fun authorize_namespace_mutation_targets ::
  "file_system \<Rightarrow> mac_state \<Rightarrow> ustring list \<Rightarrow> security_token \<Rightarrow> unit result \<times> mac_denial list" where
  "authorize_namespace_mutation_targets fs mac [] t = (Inr (), [])"
| "authorize_namespace_mutation_targets fs mac (p # ps) t =
     (case authorize_parent_directory_mutation fs mac p t of
        (Inl e, log) \<Rightarrow> (Inl e, log)
      | (Inr _, log) \<Rightarrow>
          (let (r, log') = authorize_namespace_mutation_targets fs mac ps t in (r, log @ log')))"

definition authorize_security_descriptor_update ::
  "file_system \<Rightarrow> ustring \<Rightarrow> security_descriptor \<Rightarrow> security_descriptor_update \<Rightarrow> security_token \<Rightarrow>
   permission_mutation_scope result" where
  "authorize_security_descriptor_update fs normalized current update t =
     bind_result (require_mount_write_access fs normalized t) (\<lambda>_.
       let scope = permission_mutation_scope_for_path normalized
       in if is_kernel_token t then Inr scope
          else if requires_recovery_mode scope
          then if is_recovery_mode t then Inr scope else Inl PermissionDenied
          else if requires_privileged_actor scope
          then if is_admin_mode t \<or> is_recovery_mode t then Inr scope else Inl PermissionDenied
          else if is_admin_mode t \<or> is_recovery_mode t then Inr scope
          else if \<not> allows_unprivileged_owned_mode_change scope \<or> user_id t \<noteq> owner_uid current \<or>
                  update_changes_ownership current update
          then Inl PermissionDenied
          else Inr scope)"

record planned_update =
  planned_current :: security_descriptor
  planned_updated :: security_descriptor
  planned_scope :: permission_mutation_scope
  planned_support :: mutation_support

definition security_descriptor_mutation_support :: "file_system \<Rightarrow> ustring \<Rightarrow> mutation_support" where
  "security_descriptor_mutation_support fs normalized =
     (case resolve_mount_entry (mounted_fs fs) normalized of
        Some (mount, _) \<Rightarrow> m_support mount | None \<Rightarrow> LayoutDerivedOnly)"

definition plan_security_descriptor_update ::
  "file_system \<Rightarrow> ustring \<Rightarrow> security_descriptor_update \<Rightarrow> security_token \<Rightarrow> planned_update result" where
  "plan_security_descriptor_update fs normalized update t =
     bind_result (stat_normalized_path fs normalized) (\<lambda>md.
       bind_result (authorize_security_descriptor_update fs normalized (security md) update t) (\<lambda>scope.
         bind_result (apply_update (security md) update) (\<lambda>updated.
           Inr \<lparr>planned_current = security md, planned_updated = updated, planned_scope = scope,
                planned_support = security_descriptor_mutation_support fs normalized\<rparr>)))"

definition require_persistent_backend_update :: "planned_update \<Rightarrow> planned_update result" where
  "require_persistent_backend_update planned =
     (if supports_persistent_updates (planned_support planned) then Inr planned else Inl Unsupported)"

definition preflight_persistent_security_descriptor_update ::
  "file_system \<Rightarrow> ustring \<Rightarrow> security_descriptor_update \<Rightarrow> security_token \<Rightarrow> planned_update result" where
  "preflight_persistent_security_descriptor_update fs normalized update t =
     bind_result (plan_security_descriptor_update fs normalized update t) require_persistent_backend_update"

section \<open>Permission bits\<close>

lemma drop_write:
  fixes r b w :: u16
  shows "r AND (NOT b OR w) = 0 \<longleftrightarrow> r AND NOT b = 0 \<and> r AND w = 0"
  by (simp add: bit.conj_disj_distrib or_eq_0_iff)

lemma no_write_no_request:
  fixes r b w :: u16
  assumes "b AND w = 0" "r AND NOT b = 0"
  shows "r AND w = 0"
proof -
  have "r AND w = (r AND NOT b) AND w OR (r AND (b AND w))"
    by (rule bit_eqI) (auto simp: bit_simps)
  then show ?thesis
    using assms by simp
qed

section \<open>What effective access grants\<close>

definition access_permitted ::
  "file_system \<Rightarrow> mac_state \<Rightarrow> ustring \<Rightarrow> metadata \<Rightarrow> u16 \<Rightarrow> security_token \<Rightarrow> bool" where
  "access_permitted fs mac normalized md required t \<longleftrightarrow>
     required AND NOT (candidate_mode_bits (security md) t) = 0 \<and>
     (required AND ACCESS_WRITE_BIT = 0 \<or> kind md = Device \<or> path_write_access_visible fs normalized t) \<and>
     fst (check_file mac (mac_type t) normalized (mac_class_for (kind md))
            (mac_perms_for (kind md) required) (user_id t)) = Inr ()"

lemma effective_access_allowed:
  "allowed (fst (effective_access fs mac normalized md required t)) \<longleftrightarrow>
   access_permitted fs mac normalized md required t"
proof -
  let ?bits = "candidate_mode_bits (security md) t"
  define a1 where "a1 = (if kind md \<noteq> Device \<and> can_write (access_query_for (security md) required t) \<and>
        \<not> path_write_access_visible fs normalized t
      then let bits = granted_mode_bits (access_query_for (security md) required t) AND NOT ACCESS_WRITE_BIT
           in (access_query_for (security md) required t)\<lparr>granted_mode_bits := bits, can_write := False,
                 allowed := (required AND NOT bits = 0)\<rparr>
      else access_query_for (security md) required t)"
  define m where "m = check_file mac (mac_type t) normalized (mac_class_for (kind md))
    (mac_perms_for (kind md) required) (user_id t)"
  have a1: "allowed a1 \<longleftrightarrow> required AND NOT ?bits = 0 \<and>
      (required AND ACCESS_WRITE_BIT = 0 \<or> kind md = Device \<or> path_write_access_visible fs normalized t)"
    using no_write_no_request [of ?bits ACCESS_WRITE_BIT required]
    by (auto simp: a1_def access_query_for_def Let_def drop_write)
  have "effective_access fs mac normalized md required t =
      (if \<not> allowed a1 then (a1, [])
       else case m of (Inr _, log) \<Rightarrow> (a1, log)
            | (Inl _, log) \<Rightarrow> (a1\<lparr>allowed := False, granted_mode_bits := 0, can_read := False,
                  can_write := False, can_execute := False\<rparr>, log))"
    unfolding effective_access_def a1_def m_def Let_def ..
  then have "allowed (fst (effective_access fs mac normalized md required t)) \<longleftrightarrow> allowed a1 \<and> fst m = Inr ()"
    by (auto split: prod.split sum.split)
  then show ?thesis
    by (auto simp: a1 m_def access_permitted_def)
qed

lemma require_mount_write_iff:
  "require_mount_write_access fs normalized t = Inr () \<longleftrightarrow> path_write_access_visible fs normalized t"
  by (auto simp: require_mount_write_access_def path_write_access_visible_def split: option.split)

lemma authorize_existing_open_ok:
  "fst (authorize_existing_open fs mac normalized desired t) = Inr () \<longleftrightarrow>
   (\<exists>md. stat_normalized_path fs normalized = Inr md \<and>
      access_permitted fs mac normalized md (required_open_access (kind md) desired) t)"
proof (cases "stat_normalized_path fs normalized")
  case (Inl e)
  then show ?thesis
    by (simp add: authorize_existing_open_def authorized_existing_open_metadata_for_def)
next
  case (Inr md)
  let ?req = "required_open_access (kind md) desired"
  have "fst (authorize_existing_open fs mac normalized desired t) =
      (if \<not> access_permitted fs mac normalized md ?req t then Inl PermissionDenied
       else if open_requires_mount_write_access (kind md) ?req then require_mount_write_access fs normalized t
       else Inr ())"
    using effective_access_allowed [of fs mac normalized md ?req t] Inr
    by (simp add: authorize_existing_open_def authorized_existing_open_metadata_for_def Let_def split_beta)
  moreover have "access_permitted fs mac normalized md ?req t \<Longrightarrow>
      open_requires_mount_write_access (kind md) ?req \<Longrightarrow> path_write_access_visible fs normalized t"
    by (simp add: access_permitted_def open_requires_mount_write_access_def)
  ultimately show ?thesis
    using Inr require_mount_write_iff by auto
qed

section \<open>Layout-derived descriptors\<close>

lemma stat_layout_derived:
  assumes "\<not> provides_persistent_metadata (security_descriptor_mutation_support fs normalized)" "stat_normalized_path fs normalized = Inr md"
  shows "security md = default_security_descriptor_for_path normalized (kind md)"
proof (cases "normalized = [slash]")
  case True
  then show ?thesis
    using assms(2) by (auto simp: stat_normalized_path_def with_default_security_def)
next
  case False
  obtain mount rel where m: "resolve_mount_entry (mounted_fs fs) normalized = Some (mount, rel)"
    using assms(2) False
    by (auto simp: stat_normalized_path_def require_mount_entry_def bind_result_Inr_iff split: option.splits)
  have "\<not> provides_persistent_metadata (m_support mount)"
    using assms(1) m by (simp add: security_descriptor_mutation_support_def)
  then show ?thesis
    using assms(2) m False
    by (auto simp: stat_normalized_path_def require_mount_entry_def bind_result_Inr_iff Let_def
        with_mount_effective_security_def with_default_security_def split: if_splits)
qed

section \<open>Unprivileged tokens\<close>

definition unprivileged :: "security_token \<Rightarrow> bool" where
  "unprivileged t \<longleftrightarrow> user_id t \<noteq> ROOT_USER_ID \<and> \<not> belongs_to_group t ROOT_GROUP_ID \<and>
     \<not> (is_admin_mode t \<and> authenticated t)"

lemma unprivileged_bits:
  assumes "unprivileged t"
  shows "candidate_mode_bits (sd_root m) t =
    (if integrity t = Integrity_Low then (m AND MODE_ACCESS_MASK) AND NOT ACCESS_WRITE_BIT
     else m AND MODE_ACCESS_MASK)"
  using assms
  by (auto simp: unprivileged_def candidate_mode_bits_def sd_root_def granted_mode_bits_for_def
      other_mode_bits_def may_bypass_discretionary_permissions_def is_kernel_token_def is_system_def
      is_superuser_def)

lemma request_refused:
  fixes r b c w :: u16
  assumes "b AND w = 0" "r AND w \<noteq> 0"
  shows "r AND NOT b \<noteq> 0" "r AND NOT (b AND c) \<noteq> 0"
proof -
  have "(b AND c) AND w = (b AND w) AND c"
    by (simp only: ac_simps)
  then have "(b AND c) AND w = 0"
    using assms(1) by simp
  then show "r AND NOT b \<noteq> 0" "r AND NOT (b AND c) \<noteq> 0"
    using no_write_no_request [of b w r] no_write_no_request [of "b AND c" w r] assms by (iprover+)
qed

lemma unprivileged_refused:
  assumes "unprivileged t" "security md = sd_root m" "(m AND MODE_ACCESS_MASK) AND w = 0" "required AND w \<noteq> 0"
  shows "\<not> access_permitted fs mac normalized md required t"
proof -
  have "required AND NOT (candidate_mode_bits (security md) t) \<noteq> 0"
    unfolding assms(2) unprivileged_bits [OF assms(1)]
    using request_refused [OF assms(3,4)] by (cases "integrity t = Integrity_Low") (simp_all del: bit.de_Morgan_conj)
  then show ?thesis
    by (simp add: access_permitted_def)
qed

lemma required_open_bits:
  "desired AND HANDLE_RIGHT_WRITE \<noteq> 0 \<Longrightarrow> required_open_access k desired AND ACCESS_WRITE_BIT \<noteq> 0"
  "desired AND HANDLE_RIGHT_READ \<noteq> 0 \<Longrightarrow> required_open_access k desired AND ACCESS_READ_BIT \<noteq> 0"
  by (auto simp: required_open_access_def Let_def)

lemma default_descriptor_system:
  assumes "path_is_exact_or_child_of p SYSTEM_PATH \<or> path_is_exact_or_child_of p APPS_PATH" "k \<noteq> Device"
  shows "\<exists>m. default_security_descriptor_for_path p k = sd_root m \<and> (m AND MODE_ACCESS_MASK) AND ACCESS_WRITE_BIT = 0"
proof -
  consider "p = [slash] \<or> is_data_system_boundary_directory p"
    | "\<not> (p = [slash] \<or> is_data_system_boundary_directory p)" "path_is_exact_or_child_of p DATA_CREDENTIAL_ROOT_PATH"
    | "\<not> (p = [slash] \<or> is_data_system_boundary_directory p)" "\<not> path_is_exact_or_child_of p DATA_CREDENTIAL_ROOT_PATH"
    by blast
  then show ?thesis
  proof cases
    case 3
    have zone: "\<exists>z. default_security_zone_for_path p = Some z \<and> z \<noteq> Zone_Data"
      using assms(1) by (auto simp: default_security_zone_for_path_def)
    then obtain z where z: "default_security_zone_for_path p = Some z" "z \<noteq> Zone_Data"
      by blast
    have "default_security_descriptor_for_path p k = sd_root (zone_mode_for_kind z k)"
      using 3 z assms(2) by (simp add: default_security_descriptor_for_path_def zone_security_descriptor_def)
    moreover have "(zone_mode_for_kind z k AND MODE_ACCESS_MASK) AND ACCESS_WRITE_BIT = 0"
      using z(2) assms(2) by (cases z; cases k) simp_all
    ultimately show ?thesis
      by blast
  qed (auto simp: default_security_descriptor_for_path_def)
qed

lemma default_descriptor_credentials:
  assumes "path_is_exact_or_child_of p DATA_CREDENTIAL_ROOT_PATH"
  shows "\<exists>m. default_security_descriptor_for_path p k = sd_root m \<and> m AND MODE_ACCESS_MASK = 0"
proof -
  have "p = DATA_CREDENTIAL_ROOT_PATH \<or> (\<exists>r. p = DATA_CREDENTIAL_ROOT_PATH @ r \<and> prefix [slash] r)"
    using assms by (auto simp: path_is_exact_or_child_of_def path_is_descendant_of_def strip_prefix_Some_iff
        starts_with_iff split: option.splits)
  then have "p \<noteq> [slash] \<and> \<not> is_data_system_boundary_directory p"
    by (auto simp: DATA_CREDENTIAL_ROOT_PATH_def is_data_system_boundary_directory_def DATA_ROOT_PATH_def
        DATA_USERS_ROOT_PATH_def)
  then show ?thesis
    using assms by (auto simp: default_security_descriptor_for_path_def)
qed

section \<open>Properties\<close>

definition example_fs :: file_system where
  "example_fs =
     \<lparr>mounted_fs = [([slash],
        \<lparr>m_stat = (\<lambda>_. Inr \<lparr>kind = File, size = 0, security = sd_root 420\<rparr>), m_support = LayoutDerivedOnly,
         m_flags = 0\<rparr>)],
      root_len = 0, dir_len = (\<lambda>_. Inr 0)\<rparr>"

definition example_mac :: mac_state where
  "example_mac = \<lparr>policy = new_mac_policy, path_types = (\<lambda>_. None)\<rparr>"

text \<open>The rules an open is held to, right by right.  \<open>n\<close> is the number of a permission bit of the class the token
  falls into: 2 to read, 1 to write, 0 to execute or search.\<close>

definition may_use_bit :: "security_token \<Rightarrow> security_descriptor \<Rightarrow> nat \<Rightarrow> bool" where
  "may_use_bit t sd n \<longleftrightarrow>
     user_id t = ROOT_USER_ID \<and> integrity t = Integrity_System \<and> \<not> provisioned t \<or>
     (user_id t = ROOT_USER_ID \<or> elevated t) \<and> authenticated t \<or>
     bit (mode sd) (n + (if user_id t = owner_uid sd then 6
       else if owner_gid sd \<in> insert (primary_group_id t) (set (supplementary_group_ids t)) then 3 else 0))"

definition policy_allows :: "mac_state \<Rightarrow> u32 \<Rightarrow> u32 \<Rightarrow> u32 \<Rightarrow> (u32 \<Rightarrow> bool) \<Rightarrow> bool" where
  "policy_allows mac subject obj class grants \<longleftrightarrow>
     \<not> enabled (policy mac) \<or> \<not> default_deny (policy mac) \<or>
     (\<exists>r \<in> set (rules (policy mac)). r_subject r = subject \<and> r_object r = obj \<and> r_class r = class \<and> grants (r_perms r))"

lemma candidate_bit:
  assumes "n < 3"
  shows "bit (candidate_mode_bits sd t) n \<longleftrightarrow> may_use_bit t sd n \<and> (n = 1 \<longrightarrow> integrity t \<noteq> Integrity_Low)"
proof -
  have m: "bit (MODE_ACCESS_MASK) n" "bit ACCESS_WRITE_BIT n \<longleftrightarrow> n = 1" "n < LENGTH(16)"
    using assms by (auto simp: less_Suc_eq numeral_3_eq_3)
  have g: "bit (granted_mode_bits_for sd t) n \<longleftrightarrow> bit (mode sd) (n + (if user_id t = owner_uid sd then 6
      else if owner_gid sd \<in> insert (primary_group_id t) (set (supplementary_group_ids t)) then 3 else 0))"
    using m by (auto simp: granted_mode_bits_for_def owner_mode_bits_def group_mode_bits_def other_mode_bits_def bit_simps
        belongs_to_group_def group_listed_iff add.commute)
  have b: "may_bypass_discretionary_permissions t \<longleftrightarrow>
      user_id t = ROOT_USER_ID \<and> integrity t = Integrity_System \<and> \<not> provisioned t \<or>
      (user_id t = ROOT_USER_ID \<or> elevated t) \<and> authenticated t"
    by (auto simp: may_bypass_discretionary_permissions_def is_kernel_token_def is_system_def is_superuser_def is_admin_mode_def)
  show ?thesis
    unfolding candidate_mode_bits_def may_use_bit_def Let_def b [symmetric] disj_assoc [symmetric] g [symmetric]
    using m by (auto simp: bit_simps)
qed

lemma candidate_bits:
  "bit (candidate_mode_bits sd t) 2 \<longleftrightarrow> may_use_bit t sd 2"
  "bit (candidate_mode_bits sd t) 1 \<longleftrightarrow> may_use_bit t sd 1 \<and> integrity t \<noteq> Integrity_Low"
  "bit (candidate_mode_bits sd t) 0 \<longleftrightarrow> may_use_bit t sd 0"
  by (simp_all only: candidate_bit) simp_all

lemma covered_bit:
  fixes b :: u16
  shows "4 AND NOT b = 0 \<longleftrightarrow> bit b 2" "2 AND NOT b = 0 \<longleftrightarrow> bit b 1" "1 AND NOT b = 0 \<longleftrightarrow> bit b 0"
proof -
  have "push_bit n 1 AND NOT b = 0 \<longleftrightarrow> bit b n" if "n < 16" for n
    using that by (auto intro!: bit_eqI simp: bit_simps dest: arg_cong [where f = "\<lambda>x. bit x n"])
  from this [of 2] this [of 1] this [of 0] show
    "4 AND NOT b = 0 \<longleftrightarrow> bit b 2" "2 AND NOT b = 0 \<longleftrightarrow> bit b 1" "1 AND NOT b = 0 \<longleftrightarrow> bit b 0"
    by (simp_all add: push_bit_eq_mult)
qed

lemma covered_disj:
  fixes a b c :: "u16"
  shows "(a OR c) AND NOT b = 0 \<longleftrightarrow> a AND NOT b = 0 \<and> c AND NOT b = 0"
  by (simp add: bit.conj_disj_distrib2 or_eq_0_iff)

lemma perms_disj:
  fixes a b c :: u32
  shows "c AND (a OR b) = a OR b \<longleftrightarrow> c AND a = a \<and> c AND b = b"
  by (auto simp: bit_eq_iff bit_simps)

lemma required_open_eq:
  "required_open_access k desired =
     (if desired AND HANDLE_RIGHT_READ \<noteq> 0 then 4 else 0) OR (if desired AND HANDLE_RIGHT_WRITE \<noteq> 0 then 2 else 0) OR
     (if k = Directory \<and> (desired AND HANDLE_RIGHT_READ \<noteq> 0 \<or> desired AND HANDLE_RIGHT_WRITE \<noteq> 0) then 1 else 0)"
  "mac_perms_for k (required_open_access k desired) =
     (if desired AND HANDLE_RIGHT_READ \<noteq> 0 then MAC_PERM_READ else 0) OR (if desired AND HANDLE_RIGHT_WRITE \<noteq> 0 then MAC_PERM_WRITE else 0) OR
     (if k = Directory \<and> (desired AND HANDLE_RIGHT_READ \<noteq> 0 \<or> desired AND HANDLE_RIGHT_WRITE \<noteq> 0) then MAC_PERM_SEARCH else 0)"
proof -
  define rd wr where "rd \<longleftrightarrow> desired AND HANDLE_RIGHT_READ \<noteq> 0" and "wr \<longleftrightarrow> desired AND HANDLE_RIGHT_WRITE \<noteq> 0"
  have "required_open_access k desired =
      (if rd then 4 else 0) OR (if wr then 2 else 0) OR (if k = Directory \<and> (rd \<or> wr) then 1 else 0)"
    unfolding required_open_access_def Let_def rd_def [symmetric] wr_def [symmetric] by (cases rd; cases wr) simp_all
  moreover have "mac_perms_for k ((if rd then 4 else 0) OR (if wr then 2 else 0) OR (if k = Directory \<and> (rd \<or> wr) then 1 else 0)) =
      (if rd then MAC_PERM_READ else 0) OR (if wr then MAC_PERM_WRITE else 0) OR (if k = Directory \<and> (rd \<or> wr) then MAC_PERM_SEARCH else 0)"
    unfolding mac_perms_for_def Let_def by (cases rd; cases wr; cases "k = Directory") simp_all
  ultimately show
    "required_open_access k desired =
       (if desired AND HANDLE_RIGHT_READ \<noteq> 0 then 4 else 0) OR (if desired AND HANDLE_RIGHT_WRITE \<noteq> 0 then 2 else 0) OR
       (if k = Directory \<and> (desired AND HANDLE_RIGHT_READ \<noteq> 0 \<or> desired AND HANDLE_RIGHT_WRITE \<noteq> 0) then 1 else 0)"
    "mac_perms_for k (required_open_access k desired) =
       (if desired AND HANDLE_RIGHT_READ \<noteq> 0 then MAC_PERM_READ else 0) OR (if desired AND HANDLE_RIGHT_WRITE \<noteq> 0 then MAC_PERM_WRITE else 0) OR
       (if k = Directory \<and> (desired AND HANDLE_RIGHT_READ \<noteq> 0 \<or> desired AND HANDLE_RIGHT_WRITE \<noteq> 0) then MAC_PERM_SEARCH else 0)"
    unfolding rd_def [symmetric] wr_def [symmetric] by simp_all
qed

lemma covered_if:
  fixes a b :: u16 and c d :: u32
  shows "(if p then a else 0) AND NOT b = 0 \<longleftrightarrow> (p \<longrightarrow> a AND NOT b = 0)" "c AND (if p then d else 0) = (if p then d else 0) \<longleftrightarrow> (p \<longrightarrow> c AND d = d)"
  by simp_all

lemma required_covered:
  "required_open_access k desired AND NOT b = 0 \<longleftrightarrow>
     (desired AND HANDLE_RIGHT_READ \<noteq> 0 \<longrightarrow> bit b 2) \<and> (desired AND HANDLE_RIGHT_WRITE \<noteq> 0 \<longrightarrow> bit b 1) \<and>
     (k = Directory \<and> (desired AND HANDLE_RIGHT_READ \<noteq> 0 \<or> desired AND HANDLE_RIGHT_WRITE \<noteq> 0) \<longrightarrow> bit b 0)"
  unfolding required_open_eq(1) covered_disj covered_if covered_bit conj_assoc ..

lemma required_write: "required_open_access k desired AND ACCESS_WRITE_BIT = 0 \<longleftrightarrow> desired AND HANDLE_RIGHT_WRITE = 0"
proof -
  have "((if rd then 4 else 0) OR (if wr then 2 else 0) OR (if d then 1 else 0)) AND ACCESS_WRITE_BIT = 0 \<longleftrightarrow> \<not> wr" for rd wr d
    by (cases rd; cases wr; cases d) simp_all
  then show ?thesis
    unfolding required_open_eq(1) by blast
qed

lemma mac_perms_granted:
  "c AND mac_perms_for k (required_open_access k desired) = mac_perms_for k (required_open_access k desired) \<longleftrightarrow>
     (desired AND HANDLE_RIGHT_READ \<noteq> 0 \<longrightarrow> c AND MAC_PERM_READ = MAC_PERM_READ) \<and>
     (desired AND HANDLE_RIGHT_WRITE \<noteq> 0 \<longrightarrow> c AND MAC_PERM_WRITE = MAC_PERM_WRITE) \<and>
     (k = Directory \<and> (desired AND HANDLE_RIGHT_READ \<noteq> 0 \<or> desired AND HANDLE_RIGHT_WRITE \<noteq> 0) \<longrightarrow>
        c AND MAC_PERM_SEARCH = MAC_PERM_SEARCH)"
  unfolding required_open_eq(2) perms_disj covered_if conj_assoc ..

lemma check_file_ok:
  "fst (check_file mac subject normalized class perms uid) = Inr () \<longleftrightarrow>
     policy_allows mac subject (object_type_for_path mac normalized) class (\<lambda>c. c AND perms = perms)"
  unfolding check_file_def mac_decide_iff policy_allows_def by auto

lemma mount_visible:
  "path_write_access_visible fs normalized t \<longleftrightarrow>
     (case resolve_mount_entry (mounted_fs fs) normalized of
        None \<Rightarrow> True | Some (mount, _) \<Rightarrow> m_flags mount AND MOUNT_READ_ONLY = 0 \<or> recovery t)"
  by (simp add: path_write_access_visible_def mount_allows_write_for_security_token_def mount_is_ordinary_writable_def
      may_bypass_read_only_mounts_def is_recovery_mode_def split: option.split)

text \<open>C29: An existing node may be opened exactly when it is found and every right asked for is given by all
  three policies.  To read, the token needs the read bit of its class, to write the write bit and an
  integrity above low, and for a directory the search bit as well; the kernel's token and an
  authenticated root or elevated token have every bit.  A write to anything but a device needs a mount
  that is not read-only, or recovery mode.  Enforced mandatory access control that denies by default
  needs one rule for the token's type, the object's type and the node's class that grants every right
  asked for.\<close>

theorem open_authorized_iff:
  "fst (authorize_existing_open fs mac normalized desired t) = Inr () \<longleftrightarrow>
   (\<exists>md. stat_normalized_path fs normalized = Inr md \<and>
      (desired AND 1 \<noteq> 0 \<longrightarrow> may_use_bit t (security md) 2) \<and>
      (desired AND 2 \<noteq> 0 \<longrightarrow> may_use_bit t (security md) 1 \<and> integrity t \<noteq> Integrity_Low) \<and>
      (kind md = Directory \<and> (desired AND 1 \<noteq> 0 \<or> desired AND 2 \<noteq> 0) \<longrightarrow> may_use_bit t (security md) 0) \<and>
      (desired AND 2 \<noteq> 0 \<and> kind md \<noteq> Device \<longrightarrow>
        (case resolve_mount_entry (mounted_fs fs) normalized of
           None \<Rightarrow> True | Some (mount, _) \<Rightarrow> m_flags mount AND 1 = 0 \<or> recovery t)) \<and>
      policy_allows mac (mac_type t) (object_type_for_path mac normalized) (if kind md = Directory then 2 else 1)
        (\<lambda>perms. (desired AND 1 \<noteq> 0 \<longrightarrow> perms AND 1 = 1) \<and> (desired AND 2 \<noteq> 0 \<longrightarrow> perms AND 2 = 2) \<and>
           (kind md = Directory \<and> (desired AND 1 \<noteq> 0 \<or> desired AND 2 \<noteq> 0) \<longrightarrow> perms AND 64 = 64)))"
proof -
  have v: "(desired AND 2 = 0 \<or> kind md = Device \<or> path_write_access_visible fs normalized t) \<longleftrightarrow>
      (desired AND 2 \<noteq> 0 \<and> kind md \<noteq> Device \<longrightarrow>
        (case resolve_mount_entry (mounted_fs fs) normalized of
           None \<Rightarrow> True | Some (mount, _) \<Rightarrow> m_flags mount AND 1 = 0 \<or> recovery t))" for md
    unfolding mount_visible by blast
  show ?thesis
    unfolding authorize_existing_open_ok access_permitted_def required_covered required_write check_file_ok mac_perms_granted mac_class_for_def
      candidate_bits v conj_assoc ..
qed

theorem open_authorized_iff_witness:
  "fst (authorize_existing_open example_fs example_mac TEMP_MOUNT_PATH 3 token_guest) = Inr ()"
proof -
  have r: "resolve_mount_entry (mounted_fs example_fs) TEMP_MOUNT_PATH = Some (snd (hd (mounted_fs example_fs)), TEMP_MOUNT_PATH)"
    by (simp add: resolve_mount_entry_def example_fs_def matches_mount_def starts_with_def ends_with_slash_def
        slash_def TEMP_MOUNT_PATH_def relative_to_mount_def Let_def)
  have d: "default_security_descriptor_for_path TEMP_MOUNT_PATH File = sd_guest 438"
    by (simp add: default_security_descriptor_for_path_def is_data_system_boundary_directory_def DATA_ROOT_PATH_def
        DATA_USERS_ROOT_PATH_def DATA_CREDENTIAL_ROOT_PATH_def SYSTEM_PATH_def APPS_PATH_def slash_def TEMP_MOUNT_PATH_def
        path_is_exact_or_child_of_def path_is_descendant_of_def starts_with_def default_security_zone_for_path_def)
  have "stat_normalized_path example_fs TEMP_MOUNT_PATH = Inr \<lparr>kind = File, size = 0, security = sd_guest 438\<rparr>"
    using r d by (simp add: stat_normalized_path_def require_mount_entry_def slash_def TEMP_MOUNT_PATH_def
        with_mount_effective_security_def provides_persistent_metadata_def with_default_security_def example_fs_def Let_def)
  then show ?thesis
    unfolding open_authorized_iff r
    by (simp add: may_use_bit_def policy_allows_def example_mac_def new_mac_policy_def token_guest_def token_new_def with_mac_type_def
        sd_guest_def example_fs_def)
qed

text \<open>C10: On a volume without stored descriptors, a token that is neither root nor in the root group and
  has not authenticated as administrator gets no write access to a path under \<open>/system\<close> or \<open>/apps\<close> except to
  devices, and neither read nor write access to a path under \<open>/data/etc\<close>.  Only the volume the path lies on
  has to be without descriptors.  The prefixes are compared exactly, upper and lower case apart, and an
  open that asks for neither right is not covered.\<close>

theorem unprivileged_confined:
  assumes "unprivileged t" "\<not> provides_persistent_metadata (security_descriptor_mutation_support fs normalized)"
    and "(path_is_exact_or_child_of normalized SYSTEM_PATH \<or> path_is_exact_or_child_of normalized APPS_PATH) \<and>
         desired AND HANDLE_RIGHT_WRITE \<noteq> 0 \<and>
         (\<forall>md. stat_normalized_path fs normalized = Inr md \<longrightarrow> kind md \<noteq> Device) \<or>
       path_is_exact_or_child_of normalized DATA_CREDENTIAL_ROOT_PATH \<and>
         (desired AND HANDLE_RIGHT_READ \<noteq> 0 \<or> desired AND HANDLE_RIGHT_WRITE \<noteq> 0)"
  shows "fst (authorize_existing_open fs mac normalized desired t) \<noteq> Inr ()"
proof
  assume "fst (authorize_existing_open fs mac normalized desired t) = Inr ()"
  then obtain md where md: "stat_normalized_path fs normalized = Inr md"
    "access_permitted fs mac normalized md (required_open_access (kind md) desired) t"
    unfolding authorize_existing_open_ok by blast
  note sec = stat_layout_derived [OF assms(2) md(1)]
  from assms(3) show False
  proof
    assume a: "(path_is_exact_or_child_of normalized SYSTEM_PATH \<or> path_is_exact_or_child_of normalized APPS_PATH) \<and>
         desired AND HANDLE_RIGHT_WRITE \<noteq> 0 \<and>
         (\<forall>md. stat_normalized_path fs normalized = Inr md \<longrightarrow> kind md \<noteq> Device)"
    then obtain m where m: "security md = sd_root m" "(m AND MODE_ACCESS_MASK) AND ACCESS_WRITE_BIT = 0"
      using default_descriptor_system [of normalized "kind md"] md(1) sec by auto
    then show False
      using unprivileged_refused [OF assms(1) m] required_open_bits(1) a md(2) by blast
  next
    assume a: "path_is_exact_or_child_of normalized DATA_CREDENTIAL_ROOT_PATH \<and>
         (desired AND HANDLE_RIGHT_READ \<noteq> 0 \<or> desired AND HANDLE_RIGHT_WRITE \<noteq> 0)"
    then obtain m where m: "security md = sd_root m" "m AND MODE_ACCESS_MASK = 0"
      using default_descriptor_credentials [of normalized "kind md"] sec by auto
    then have "(m AND MODE_ACCESS_MASK) AND w = 0" for w
      by simp
    then show False
      using unprivileged_refused [OF assms(1) m(1)] required_open_bits a md(2) by blast
  qed
qed

lemma guest_unprivileged: "unprivileged token_guest"
  by (simp add: unprivileged_def token_guest_def with_mac_type_def token_new_def belongs_to_group_def)

theorem unprivileged_confined_witness:
  "unprivileged token_guest \<and>
   fst (authorize_existing_open example_fs example_mac DATA_CREDENTIAL_ROOT_PATH HANDLE_RIGHT_READ token_guest) \<noteq> Inr ()"
proof -
  have "security_descriptor_mutation_support example_fs DATA_CREDENTIAL_ROOT_PATH = LayoutDerivedOnly"
    by (simp add: security_descriptor_mutation_support_def resolve_mount_entry_def example_fs_def matches_mount_def starts_with_def
        ends_with_slash_def slash_def DATA_CREDENTIAL_ROOT_PATH_def relative_to_mount_def Let_def)
  then show ?thesis
    using guest_unprivileged
      unprivileged_confined [OF guest_unprivileged, of example_fs DATA_CREDENTIAL_ROOT_PATH HANDLE_RIGHT_READ example_mac]
    by (simp add: path_is_exact_or_child_of_def provides_persistent_metadata_def)
qed

text \<open>The rule that closes \<open>/data/etc\<close> compares names exactly: \<open>/data/etc/s\<close> belongs to root with
  mode 0o600, and \<open>/data/ETC/s\<close>, the same file where the data volume is mounted case-insensitive
  (\<open>src/fs/layout.rs\<close>), has the guest's descriptor, so that on a volume without stored descriptors
  the guest may open it for writing.\<close>

lemma credential_rule_case:
  "default_security_descriptor_for_path (DATA_CREDENTIAL_ROOT_PATH @ [47, 115]) File = sd_root 384 \<and>
   default_security_descriptor_for_path (DATA_ROOT_PATH @ [47, 69, 84, 67, 47, 115]) File = sd_guest 436 \<and>
   fst (authorize_existing_open example_fs example_mac (DATA_ROOT_PATH @ [47, 69, 84, 67, 47, 115])
          HANDLE_RIGHT_WRITE token_guest) = Inr ()"
proof -
  let ?p = "DATA_ROOT_PATH @ [47, 69, 84, 67, 47, 115]"
  have d: "default_security_descriptor_for_path ?p File = sd_guest 436"
    by (simp add: default_security_descriptor_for_path_def is_data_system_boundary_directory_def DATA_ROOT_PATH_def
        DATA_USERS_ROOT_PATH_def DATA_CREDENTIAL_ROOT_PATH_def SYSTEM_PATH_def APPS_PATH_def slash_def
        path_is_exact_or_child_of_def path_is_descendant_of_def starts_with_def default_security_zone_for_path_def
        zone_security_descriptor_def)
  have r: "resolve_mount_entry (mounted_fs example_fs) ?p =
      Some (snd (hd (mounted_fs example_fs)), ?p)"
    by (simp add: resolve_mount_entry_def example_fs_def matches_mount_def starts_with_def ends_with_slash_def
        slash_def DATA_ROOT_PATH_def relative_to_mount_def Let_def)
  have s: "stat_normalized_path example_fs ?p = Inr \<lparr>kind = File, size = 0, security = sd_guest 436\<rparr>"
    using r d by (simp add: stat_normalized_path_def require_mount_entry_def slash_def DATA_ROOT_PATH_def
        with_mount_effective_security_def provides_persistent_metadata_def with_default_security_def
        example_fs_def Let_def)
  have "fst (authorize_existing_open example_fs example_mac ?p HANDLE_RIGHT_WRITE token_guest) = Inr ()"
    unfolding authorize_existing_open_ok access_permitted_def path_write_access_visible_def r s
    by (simp add: check_file_def mac_decide_def decision_def example_mac_def new_mac_policy_def example_fs_def
        mount_allows_write_for_security_token_def mount_is_ordinary_writable_def required_open_access_def
        candidate_mode_bits_def token_guest_def token_new_def with_mac_type_def granted_mode_bits_for_def
        sd_guest_def owner_mode_bits_def may_bypass_discretionary_permissions_def is_kernel_token_def is_system_def
        is_superuser_def is_admin_mode_def Let_def)
  moreover have "default_security_descriptor_for_path (DATA_CREDENTIAL_ROOT_PATH @ [47, 115]) File = sd_root 384"
    by (simp add: default_security_descriptor_for_path_def is_data_system_boundary_directory_def DATA_ROOT_PATH_def
        DATA_USERS_ROOT_PATH_def DATA_CREDENTIAL_ROOT_PATH_def slash_def path_is_exact_or_child_of_def
        path_is_descendant_of_def starts_with_def)
  ultimately show ?thesis
    using d by blast
qed

lemma authorized_update:
  assumes "authorize_security_descriptor_update fs normalized current update t = Inr scope"
    and "\<not> is_admin_mode t" "\<not> is_recovery_mode t"
  shows "scope = UserData" "user_id t = owner_uid current" "\<not> update_changes_ownership current update"
    "path_write_access_visible fs normalized t"
proof -
  have nk: "\<not> is_kernel_token t"
    using assms(2) by (simp add: is_kernel_token_def is_admin_mode_def)
  show "scope = UserData" "user_id t = owner_uid current" "\<not> update_changes_ownership current update"
    using assms nk
    by (auto simp: authorize_security_descriptor_update_def bind_result_Inr_iff Let_def requires_recovery_mode_def
        requires_privileged_actor_def allows_unprivileged_owned_mode_change_def split: if_splits)
  show "path_write_access_visible fs normalized t"
    using assms(1) require_mount_write_iff
    by (simp add: authorize_security_descriptor_update_def bind_result_Inr_iff)
qed

lemma apply_update_keeps_owner:
  assumes "apply_update current update = Inr updated" "\<not> update_changes_ownership current update"
  shows "owner_uid updated = owner_uid current" "owner_gid updated = owner_gid current"
    "mode updated AND NOT MAX_PERMISSION_MODE = 0"
  using assms
  by (auto simp: apply_update_def update_changes_ownership_def Let_def split: if_splits option.splits)

lemmas example_path_defs = SYSTEM_PATH_def APPS_PATH_def DATA_ROOT_PATH_def DATA_USERS_ROOT_PATH_def
  DATA_CREDENTIAL_ROOT_PATH_def TEMP_MOUNT_PATH_def slash_def path_is_exact_or_child_of_def
  path_is_descendant_of_def starts_with_def

text \<open>Changing a descriptor cannot be used to gain a file.  Whatever update a token without
  administrator or recovery mode gets past the check and through to a volume that stores
  descriptors is to a file of its own, in user data, on a mount writable for it; the owner and group
  stay as they were and the new mode has permission bits only.\<close>

lemma descriptor_update_confined:
  assumes "preflight_persistent_security_descriptor_update fs normalized update t = Inr planned"
    and "\<not> is_admin_mode t" "\<not> is_recovery_mode t"
  shows "planned_scope planned = UserData \<and> user_id t = owner_uid (planned_current planned) \<and>
    path_write_access_visible fs normalized t \<and> planned_support planned = Persistent \<and>
    owner_uid (planned_updated planned) = owner_uid (planned_current planned) \<and>
    owner_gid (planned_updated planned) = owner_gid (planned_current planned) \<and>
    mode (planned_updated planned) AND NOT MAX_PERMISSION_MODE = 0"
proof -
  have "plan_security_descriptor_update fs normalized update t = Inr planned" and p: "planned_support planned = Persistent"
    using assms(1)
    by (auto simp: preflight_persistent_security_descriptor_update_def require_persistent_backend_update_def
        supports_persistent_updates_def bind_result_Inr_iff split: if_splits)
  then obtain md :: metadata and scope updated where a:
    "authorize_security_descriptor_update fs normalized (security md) update t = Inr scope"
    "apply_update (security md) update = Inr updated"
    and q: "planned = \<lparr>planned_current = security md, planned_updated = updated, planned_scope = scope,
                planned_support = security_descriptor_mutation_support fs normalized\<rparr>"
    unfolding plan_security_descriptor_update_def bind_result_Inr_iff by blast
  show ?thesis
    using authorized_update [OF a(1) assms(2,3)] apply_update_keeps_owner [OF a(2)] p by (simp add: q)
qed

definition example_data_fs :: file_system where
  "example_data_fs = \<lparr>mounted_fs = [(DATA_ROOT_PATH,
      \<lparr>m_stat = (\<lambda>_. Inr \<lparr>kind = File, size = 5, security = sd_guest 436\<rparr>), m_support = Persistent, m_flags = 0\<rparr>)],
    root_len = 1, dir_len = (\<lambda>_. Inr 0)\<rparr>"

lemma descriptor_update_confined_witness:
  "\<exists>planned. preflight_persistent_security_descriptor_update example_data_fs (DATA_ROOT_PATH @ [47, 120])
     \<lparr>upd_owner_uid = None, upd_owner_gid = None, upd_mode = Some 384\<rparr> token_guest = Inr planned \<and>
   mode (planned_updated planned) = 384 \<and> planned_scope planned = UserData"
proof -
  let ?upd = "\<lparr>upd_owner_uid = None, upd_owner_gid = None, upd_mode = Some (384 :: u16)\<rparr>"
  let ?p = "DATA_ROOT_PATH @ [47, 120]"
  let ?planned = "\<lparr>planned_current = sd_guest 436, planned_updated = sd_guest 384, planned_scope = UserData,
    planned_support = Persistent\<rparr>"
  have r: "resolve_mount_entry (mounted_fs example_data_fs) ?p = Some (snd (hd (mounted_fs example_data_fs)), [47, 120])"
    by (simp add: resolve_mount_entry_def example_data_fs_def matches_mount_def ends_with_slash_def
        relative_to_mount_def Let_def example_path_defs)
  have s: "stat_normalized_path example_data_fs ?p = Inr \<lparr>kind = File, size = 5, security = sd_guest 436\<rparr>"
    using r by (simp add: stat_normalized_path_def require_mount_entry_def DATA_ROOT_PATH_def slash_def
        with_mount_effective_security_def provides_persistent_metadata_def example_data_fs_def Let_def)
  have a: "authorize_security_descriptor_update example_data_fs ?p (sd_guest 436) ?upd token_guest = Inr UserData"
    unfolding authorize_security_descriptor_update_def require_mount_write_access_def r
    by (simp add: example_data_fs_def mount_allows_write_for_security_token_def mount_is_ordinary_writable_def
        permission_mutation_scope_for_path_def requires_recovery_mode_def requires_privileged_actor_def
        allows_unprivileged_owned_mode_change_def update_changes_ownership_def sd_guest_def token_guest_def
        token_new_def with_mac_type_def Let_def example_path_defs)
  have pre: "preflight_persistent_security_descriptor_update example_data_fs ?p ?upd token_guest = Inr ?planned"
    unfolding preflight_persistent_security_descriptor_update_def plan_security_descriptor_update_def s
    using a r by (simp add: apply_update_def sd_guest_def security_descriptor_mutation_support_def
        require_persistent_backend_update_def supports_persistent_updates_def example_data_fs_def)
  have "\<not> is_admin_mode token_guest" "\<not> is_recovery_mode token_guest"
    by (simp_all add: is_admin_mode_def is_recovery_mode_def is_system_def token_guest_def token_new_def with_mac_type_def)
  then have "planned_scope ?planned = UserData"
    using descriptor_update_confined [OF pre] by blast
  then show ?thesis
    using pre by (intro exI [of _ ?planned]) (simp add: sd_guest_def)
qed

end
