(* ===== verification/Heap_Tlsf.thy ===== *)
theory Heap_Tlsf
  imports Kernel_Prelude "HOL-Library.Monad_Syntax" "HOL-Library.Log_Nat"
begin

text \<open>
  The kernel heap, a two-level segregated-fit allocator (\<open>src/memory/heap/tlsf.rs\<close>,
  \<open>src/memory/heap/allocator.rs\<close>): block headers, free lists, bitmaps, splitting and coalescing, on
  an explicit memory.  The memory is a map from the addresses of the heap's 8-byte words to their
  contents; the allocator reads and writes whole words only.  Every operation is a partial function:
  \<open>None\<close> is a panic of the checked build (a failed \<open>debug_assert\<close>, \<open>validate_block\<close>, an index out of
  range, a damaged canary), an access outside the heap or not to a whole word, or a loop that does
  not end.  The profiler's counters, the operation trace and the printed diagnostics are left out, as
  is the audit build's walk after each operation; the allocator's lock makes every call atomic.
\<close>

unbundle bit_operations_syntax

section \<open>Constants\<close>

definition KERNEL_HEAP_SIZE :: nat where "KERNEL_HEAP_SIZE = 67108864"
definition HEAP_BLOCK_ALIGNMENT :: nat where "HEAP_BLOCK_ALIGNMENT = 16"
definition FL_MIN :: nat where "FL_MIN = 5"
definition FL_MAX :: nat where "FL_MAX = 26"
definition FL_COUNT :: nat where "FL_COUNT = FL_MAX - FL_MIN + 1"
definition SL_COUNT :: nat where "SL_COUNT = 32"
definition SL_INDEX_LOG2 :: nat where "SL_INDEX_LOG2 = 5"
definition FREE_LISTS_COUNT :: nat where "FREE_LISTS_COUNT = FL_COUNT * SL_COUNT"
definition HEADER_SIZE :: nat where "HEADER_SIZE = 16"
definition FREE_NEXT_OFFSET :: nat where "FREE_NEXT_OFFSET = HEADER_SIZE"
definition MIN_FREE_BLOCK :: nat where "MIN_FREE_BLOCK = 32"
definition CANARY_SIZE :: nat where "CANARY_SIZE = 8"
definition CANARY_VALUE :: nat where "CANARY_VALUE = 0xC0DEC0DEC0DEC0DE"
definition FRESH_ZERO_BYTES :: nat where "FRESH_ZERO_BYTES = 2048"

named_theorems heap_consts \<open>the constants of the kernel heap\<close>

declare KERNEL_HEAP_SIZE_def [heap_consts] HEAP_BLOCK_ALIGNMENT_def [heap_consts] FL_MIN_def [heap_consts]
  FL_MAX_def [heap_consts] FL_COUNT_def [heap_consts] SL_COUNT_def [heap_consts]
  SL_INDEX_LOG2_def [heap_consts] FREE_LISTS_COUNT_def [heap_consts] HEADER_SIZE_def [heap_consts]
  FREE_NEXT_OFFSET_def [heap_consts] MIN_FREE_BLOCK_def [heap_consts] CANARY_SIZE_def [heap_consts]
  FRESH_ZERO_BYTES_def [heap_consts]

section \<open>State\<close>

text \<open>\<open>AllocatorState\<close>, with the address of the static \<open>KERNEL_HEAP\<close> and the heap's memory.\<close>

record heap =
  heap_base :: nat
  heap_start :: nat
  heap_end :: nat
  available :: nat
  initialized :: bool
  fl_bitmap :: u32
  sl_bitmaps :: "u32 list"
  free_lists :: "nat list"
  memory :: "nat \<Rightarrow> nat"

definition new_heap :: "nat \<Rightarrow> heap" where
  "new_heap base =
     \<lparr>heap_base = base, heap_start = 0, heap_end = 0, available = 0, initialized = False,
      fl_bitmap = 0, sl_bitmaps = replicate FL_COUNT 0, free_lists = replicate FREE_LISTS_COUNT 0,
      memory = (\<lambda>_. 0)\<rparr>"

definition word_at :: "heap \<Rightarrow> nat \<Rightarrow> bool" where
  "word_at h a \<longleftrightarrow> 8 dvd a \<and> heap_base h \<le> a \<and> a + 8 \<le> heap_base h + KERNEL_HEAP_SIZE"

definition load :: "heap \<Rightarrow> nat \<Rightarrow> nat option" where
  "load h a = (if word_at h a then Some (memory h a) else None)"

definition store :: "nat \<Rightarrow> nat \<Rightarrow> heap \<Rightarrow> heap option" where
  "store a v h = (if word_at h a then Some (h\<lparr>memory := (memory h)(a := v)\<rparr>) else None)"

text \<open>\<open>write_bytes(start, 0, end - start)\<close>, over whole words.\<close>

definition zero_words :: "nat \<Rightarrow> nat \<Rightarrow> heap \<Rightarrow> heap option" where
  "zero_words lo hi h =
     (if word_at h lo \<and> word_at h (hi - 8)
      then Some (h\<lparr>memory := (\<lambda>a. if lo \<le> a \<and> a < hi then 0 else memory h a)\<rparr>)
      else None)"

section \<open>Utility\<close>

text \<open>\<open>x & !(align - 1)\<close> on 64 bits.\<close>

definition align_up :: "nat \<Rightarrow> nat \<Rightarrow> nat option" where
  "align_up value align =
     map_option (\<lambda>aligned. aligned AND (USIZE_LIMIT - align)) (checked_add value (align - 1))"

definition wrapping_sub :: "nat \<Rightarrow> nat \<Rightarrow> nat" where
  "wrapping_sub a b = (a + (USIZE_LIMIT - b)) mod USIZE_LIMIT"

section \<open>Raw block accessors\<close>

text \<open>\<open>raw & !BLOCK_USED_FLAG\<close> and \<open>raw | BLOCK_USED_FLAG\<close>.\<close>

definition without_flag :: "nat \<Rightarrow> nat" where
  "without_flag raw = raw - raw mod 2"

definition with_flag :: "nat \<Rightarrow> nat" where
  "with_flag raw = raw - raw mod 2 + 1"

definition block_raw_size :: "heap \<Rightarrow> nat \<Rightarrow> nat option" where
  "block_raw_size h block = load h block"

definition block_size :: "heap \<Rightarrow> nat \<Rightarrow> nat option" where
  "block_size h block = map_option without_flag (block_raw_size h block)"

definition block_set_size :: "nat \<Rightarrow> nat \<Rightarrow> heap \<Rightarrow> heap option" where
  "block_set_size block len h =
     do { raw \<leftarrow> block_raw_size h block;
          store block (if raw mod 2 = 0 then len else with_flag len) h }"

definition block_is_used :: "heap \<Rightarrow> nat \<Rightarrow> bool option" where
  "block_is_used h block = map_option (\<lambda>raw. raw mod 2 \<noteq> 0) (block_raw_size h block)"

definition block_set_used :: "nat \<Rightarrow> heap \<Rightarrow> heap option" where
  "block_set_used block h = do { raw \<leftarrow> block_raw_size h block; store block (with_flag raw) h }"

definition block_clear_used :: "nat \<Rightarrow> heap \<Rightarrow> heap option" where
  "block_clear_used block h = do { raw \<leftarrow> block_raw_size h block; store block (without_flag raw) h }"

definition block_prev_phys :: "heap \<Rightarrow> nat \<Rightarrow> nat option" where
  "block_prev_phys h block = load h (block + 8)"

definition block_set_prev_phys :: "nat \<Rightarrow> nat \<Rightarrow> heap \<Rightarrow> heap option" where
  "block_set_prev_phys block prev h = store (block + 8) prev h"

definition block_set_prev_phys_of_next :: "nat \<Rightarrow> nat \<Rightarrow> heap \<Rightarrow> heap option" where
  "block_set_prev_phys_of_next block new_prev h =
     do { size \<leftarrow> block_size h block;
          let next = wrapping_add block size;
          let limit = wrapping_add (heap_base h) KERNEL_HEAP_SIZE;
          if next < limit
          then if next mod HEAP_BLOCK_ALIGNMENT \<noteq> 0 then None
               else do { write_addr \<leftarrow> checked_add next 8;
                         if limit < write_addr then None
                         else block_set_prev_phys next new_prev h }
          else Some h }"

definition block_next_free :: "heap \<Rightarrow> nat \<Rightarrow> nat option" where
  "block_next_free h block = load h (block + FREE_NEXT_OFFSET)"

definition block_set_next_free :: "nat \<Rightarrow> nat \<Rightarrow> heap \<Rightarrow> heap option" where
  "block_set_next_free block next h = store (block + FREE_NEXT_OFFSET) next h"

section \<open>Size classes\<close>

definition mapping :: "nat \<Rightarrow> (nat \<times> nat) option" where
  "mapping len =
     (if len < 2 ^ FL_MIN then None
      else let fl = floorlog 2 len - 1;
               shift = fl - SL_INDEX_LOG2;
               sl = (drop_bit shift len XOR push_bit SL_INDEX_LOG2 1) AND (SL_COUNT - 1)
           in Some (fl, sl))"

definition list_index :: "nat \<Rightarrow> nat \<Rightarrow> nat option" where
  "list_index fl sl =
     (if FL_MIN \<le> fl \<and> fl \<le> FL_MAX \<and> sl < SL_COUNT then Some ((fl - FL_MIN) * SL_COUNT + sl) else None)"

section \<open>Canaries\<close>

definition canary_write :: "nat \<Rightarrow> heap \<Rightarrow> heap option" where
  "canary_write block_start h =
     do { size \<leftarrow> block_size h block_start;
          store (wrapping_sub (wrapping_add block_start size) CANARY_SIZE) CANARY_VALUE h }"

text \<open>The defects reported, by the check that found them.\<close>

datatype defect_reason =
  Canary_No_Room | Canary_Overwritten | Bounds_Not_Initialised | Block_Not_Aligned | Block_Below_Minimum
  | Size_Not_Aligned | Block_Past_End | Prev_Phys_Wrong | Walk_Off_End

type_synonym heap_defect = "nat \<times> defect_reason"

definition canary_check :: "heap \<Rightarrow> nat \<Rightarrow> (heap_defect + unit) option" where
  "canary_check h block_start =
     do { size \<leftarrow> block_size h block_start;
          if size < CANARY_SIZE then Some (Inl (block_start, Canary_No_Room))
          else do { found \<leftarrow> load h (wrapping_sub (wrapping_add block_start size) CANARY_SIZE);
                    Some (if found \<noteq> CANARY_VALUE then Inl (block_start, Canary_Overwritten) else Inr ()) } }"

section \<open>The walk over the heap\<close>

partial_function (option) check_blocks ::
  "heap \<Rightarrow> nat \<Rightarrow> nat option \<Rightarrow> (heap_defect + nat) option" where
  "check_blocks h block previous =
     (if heap_end h \<le> block then Some (Inr block)
      else if block mod HEAP_BLOCK_ALIGNMENT \<noteq> 0 then Some (Inl (block, Block_Not_Aligned))
      else do { size \<leftarrow> block_size h block;
        if size < MIN_FREE_BLOCK then Some (Inl (block, Block_Below_Minimum))
        else if size mod HEAP_BLOCK_ALIGNMENT \<noteq> 0 then Some (Inl (block, Size_Not_Aligned))
        else let next = wrapping_add block size
          in if heap_end h < next then Some (Inl (block, Block_Past_End))
          else do {
            next_ok \<leftarrow> (if next < heap_end h
                       then map_option (\<lambda>p. p = block) (block_prev_phys h next) else Some True);
            if \<not> next_ok then Some (Inl (next, Prev_Phys_Wrong))
            else do {
              this_ok \<leftarrow> (case previous of None \<Rightarrow> Some True
                         | Some q \<Rightarrow> map_option (\<lambda>p. p = q) (block_prev_phys h block));
              if \<not> this_ok then Some (Inl (block, Prev_Phys_Wrong))
              else check_blocks h next (Some block) } } })"

definition check_invariants :: "heap \<Rightarrow> (heap_defect + unit) option" where
  "check_invariants h =
     (if heap_start h = 0 \<or> heap_end h \<le> heap_start h then Some (Inl (heap_start h, Bounds_Not_Initialised))
      else map_option (\<lambda>r. case r of Inl d \<Rightarrow> Inl d
             | Inr block \<Rightarrow> if block \<noteq> heap_end h then Inl (block, Walk_Off_End) else Inr ())
           (check_blocks h (heap_start h) None))"

definition validate_block :: "heap \<Rightarrow> nat \<Rightarrow> (nat \<times> nat) option" where
  "validate_block h block =
     (if block = 0 then None
      else if block < heap_start h \<or> heap_end h \<le> block then None
      else if block mod HEAP_BLOCK_ALIGNMENT \<noteq> 0 then None
      else do { size \<leftarrow> block_size h block;
        if size < MIN_FREE_BLOCK then None
        else if heap_end h < wrapping_add block size then None
        else do { (fl, sl) \<leftarrow> mapping size;
                  if FL_MIN \<le> fl \<and> fl \<le> FL_MAX then Some (fl, sl) else None } })"

section \<open>Free lists\<close>

definition zero_fresh_header_region :: "nat \<Rightarrow> heap \<Rightarrow> heap option" where
  "zero_fresh_header_region block h =
     do { size \<leftarrow> block_size h block;
          let zero_start = block + HEADER_SIZE + 8;
          let zero_end = min (block + FRESH_ZERO_BYTES) (block + size);
          if zero_start < zero_end then zero_words zero_start zero_end h else Some h }"

definition set_class_bits :: "nat \<Rightarrow> nat \<Rightarrow> heap \<Rightarrow> heap" where
  "set_class_bits fl sl h =
     h\<lparr>fl_bitmap := fl_bitmap h OR push_bit (fl - FL_MIN) 1,
       sl_bitmaps := (sl_bitmaps h)[fl - FL_MIN := sl_bitmaps h ! (fl - FL_MIN) OR push_bit sl 1]\<rparr>"

definition insert_free_block :: "nat \<Rightarrow> heap \<Rightarrow> heap option" where
  "insert_free_block block h =
     do { used \<leftarrow> block_is_used h block;
          if used then None
          else do { size \<leftarrow> block_size h block;
            if size < MIN_FREE_BLOCK then Some h
            else do { (fl, sl) \<leftarrow> validate_block h block;
              idx \<leftarrow> list_index fl sl;
              h1 \<leftarrow> block_set_next_free block (free_lists h ! idx) h;
              h2 \<leftarrow> zero_fresh_header_region block h1;
              Some (set_class_bits fl sl (h2\<lparr>free_lists := (free_lists h2)[idx := block]\<rparr>)) } } }"

partial_function (option) unlink :: "nat \<Rightarrow> nat \<Rightarrow> nat \<Rightarrow> nat \<Rightarrow> heap \<Rightarrow> heap option" where
  "unlink idx block prev current h =
     (if current = 0 then Some h
      else do { _ \<leftarrow> validate_block h current;
        next \<leftarrow> block_next_free h current;
        if current = block
        then if prev = 0 then Some (h\<lparr>free_lists := (free_lists h)[idx := next]\<rparr>)
             else block_set_next_free prev next h
        else unlink idx block current next h })"

definition clear_class_bits :: "nat \<Rightarrow> nat \<Rightarrow> heap \<Rightarrow> heap" where
  "clear_class_bits fl sl h =
     (let bits = sl_bitmaps h ! (fl - FL_MIN) AND NOT (push_bit sl 1);
          h1 = h\<lparr>sl_bitmaps := (sl_bitmaps h)[fl - FL_MIN := bits]\<rparr>
      in if bits = 0 then h1\<lparr>fl_bitmap := fl_bitmap h1 AND NOT (push_bit (fl - FL_MIN) 1)\<rparr> else h1)"

definition remove_free_block :: "nat \<Rightarrow> heap \<Rightarrow> heap option" where
  "remove_free_block block h =
     do { size \<leftarrow> block_size h block;
          if size < MIN_FREE_BLOCK then Some h
          else do { (fl, sl) \<leftarrow> validate_block h block;
            idx \<leftarrow> list_index fl sl;
            h1 \<leftarrow> unlink idx block 0 (free_lists h ! idx) h;
            Some (if free_lists h1 ! idx = 0 then clear_class_bits fl sl h1 else h1) } }"

text \<open>The walk of every free list, whose panics are \<open>None\<close>; the bits of a word that are set are
  visited from the lowest.\<close>

function scan_list :: "heap \<Rightarrow> nat \<Rightarrow> nat \<Rightarrow> unit option" where
  "scan_list h current depth =
     (if current = 0 then Some ()
      else if 10000 < depth + 1 then None
      else do { _ \<leftarrow> validate_block h current;
                next \<leftarrow> block_next_free h current;
                scan_list h next (depth + 1) })"
  by pat_completeness auto
termination
  by (relation "measure (\<lambda>(h, current, depth). 10001 - depth)") auto

declare scan_list.simps [simp del]

definition set_bits_of :: "u32 \<Rightarrow> nat list" where
  "set_bits_of w = filter (bit w) [0..<32]"

definition scan_free_lists :: "heap \<Rightarrow> unit option" where
  "scan_free_lists h =
     (if list_all (\<lambda>fl_bit. FL_COUNT \<le> fl_bit \<or>
           list_all (\<lambda>sl. SL_COUNT \<le> sl \<or>
               (case list_index (fl_bit + FL_MIN) sl of None \<Rightarrow> False
                | Some idx \<Rightarrow> scan_list h (free_lists h ! idx) 0 \<noteq> None))
             (set_bits_of (sl_bitmaps h ! fl_bit)))
         (set_bits_of (fl_bitmap h))
      then Some () else None)"

definition trailing_zeros :: "u32 \<Rightarrow> nat" where
  "trailing_zeros w = (case List.find (bit w) [0..<32] of Some i \<Rightarrow> i | None \<Rightarrow> 32)"

definition find_suitable_block :: "heap \<Rightarrow> nat \<Rightarrow> nat option" where
  "find_suitable_block h min_size =
     do { (fl, sl) \<leftarrow> (if min_size < 2 ^ FL_MIN then Some (FL_MIN, 0) else mapping min_size);
          let start_fl = min (max fl FL_MIN) FL_MAX;
          let fl_idx = start_fl - FL_MIN;
          let sl_mask = sl_bitmaps h ! fl_idx AND NOT (push_bit sl 1 - 1);
          if sl_mask \<noteq> 0
          then do { idx \<leftarrow> list_index start_fl (trailing_zeros sl_mask); Some (free_lists h ! idx) }
          else let valid_bits_mask = push_bit FL_COUNT 1 - 1;
                   search_mask = NOT (push_bit (fl_idx + 1) 1 - 1);
                   fl_mask = fl_bitmap h AND valid_bits_mask AND search_mask
            in if fl_mask \<noteq> 0
               then let next_fl_bit = trailing_zeros fl_mask;
                        sl_mask = sl_bitmaps h ! next_fl_bit
                    in if sl_mask \<noteq> 0
                       then do { idx \<leftarrow> list_index (next_fl_bit + FL_MIN) (trailing_zeros sl_mask);
                                 Some (free_lists h ! idx) }
                       else Some 0
               else Some 0 }"

section \<open>Coalescing\<close>

definition validate_coalesce_neighbour :: "heap \<Rightarrow> nat \<Rightarrow> nat \<Rightarrow> nat \<Rightarrow> nat option option" where
  "validate_coalesce_neighbour h candidate predecessor limit =
     (if candidate mod HEAP_BLOCK_ALIGNMENT \<noteq> 0 then Some None
      else do { size \<leftarrow> block_size h candidate;
        if size < MIN_FREE_BLOCK then Some None
        else if limit < wrapping_add candidate size then Some None
        else do { prev \<leftarrow> block_prev_phys h candidate;
                  Some (if prev \<noteq> predecessor then None else Some size) } })"

text \<open>The two halves of \<open>coalesce\<close>: each gives the block merged so far, as address and size.\<close>

definition merge_previous :: "nat \<Rightarrow> nat \<Rightarrow> heap \<Rightarrow> (nat \<times> nat \<times> heap) option" where
  "merge_previous start len h =
     (if heap_start h < start
      then do { prev \<leftarrow> block_prev_phys h start;
        if heap_start h \<le> prev \<and> prev < start
        then do { prev_size \<leftarrow> block_size h prev;
          used \<leftarrow> block_is_used h prev;
          if wrapping_add prev prev_size = start \<and> \<not> used \<and> prev mod HEAP_BLOCK_ALIGNMENT = 0 \<and>
             MIN_FREE_BLOCK \<le> prev_size
          then do { h1 \<leftarrow> remove_free_block prev h; Some (prev, wrapping_add len prev_size, h1) }
          else Some (start, len, h) }
        else Some (start, len, h) }
      else Some (start, len, h))"

definition merge_next :: "nat \<Rightarrow> nat \<Rightarrow> heap \<Rightarrow> (nat \<times> heap) option" where
  "merge_next start len h =
     (let next = wrapping_add start len
      in if next < heap_end h
         then do { used \<leftarrow> block_is_used h next;
           if used then Some (len, h)
           else do { r \<leftarrow> validate_coalesce_neighbour h next start (heap_end h);
             case r of None \<Rightarrow> Some (len, h)
             | Some next_size \<Rightarrow>
                 do { h1 \<leftarrow> remove_free_block next h; Some (wrapping_add len next_size, h1) } } }
         else Some (len, h))"

definition coalesce :: "nat \<Rightarrow> heap \<Rightarrow> (nat \<times> heap) option" where
  "coalesce block h =
     do { size0 \<leftarrow> block_size h block;
          (start, size1, h1) \<leftarrow> merge_previous block size0 h;
          (size2, h2) \<leftarrow> merge_next start size1 h1;
          h3 \<leftarrow> block_set_size start size2 h2;
          h4 \<leftarrow> block_clear_used start h3;
          h5 \<leftarrow> block_set_prev_phys_of_next start start h4;
          Some (start, h5) }"

end
