(* ===== verification/Heap_Allocator.thy ===== *)
theory Heap_Allocator
  imports Heap_Tlsf
begin

text \<open>
  The operations of \<open>KernelGlobalAllocator\<close> (\<open>src/memory/heap/allocator.rs\<close>): initialising the
  heap, allocating with a layout and freeing.  A null pointer is 0.
\<close>

unbundle bit_operations_syntax

section \<open>Initialisation\<close>

definition initialize :: "heap \<Rightarrow> heap option" where
  "initialize h =
     (let start = heap_base h;
          h0 = h\<lparr>heap_start := start, heap_end := start + KERNEL_HEAP_SIZE, available := KERNEL_HEAP_SIZE,
                initialized := True\<rparr>
      in if start mod HEAP_BLOCK_ALIGNMENT \<noteq> 0 then None
         else do { h1 \<leftarrow> block_set_size start KERNEL_HEAP_SIZE h0;
                   h2 \<leftarrow> block_clear_used start h1;
                   h3 \<leftarrow> block_set_prev_phys start 0 h2;
                   insert_free_block start h3 })"

definition with_state :: "(heap \<Rightarrow> 'r option) \<Rightarrow> heap \<Rightarrow> 'r option" where
  "with_state callback h = do { h1 \<leftarrow> (if initialized h then Some h else initialize h); callback h1 }"

definition ensure_init :: "heap \<Rightarrow> heap option" where
  "ensure_init h = with_state Some h"

section \<open>Allocation\<close>

text \<open>The bytes a block must have room for: the payload and its canary.\<close>

definition reserved_size :: "nat \<Rightarrow> nat" where
  "reserved_size req = saturating_add (max req 1) CANARY_SIZE"

definition initial_min_block_size :: "nat \<Rightarrow> nat \<Rightarrow> nat" where
  "initial_min_block_size reserved align =
     (let end_round = wrapping_sub HEAP_BLOCK_ALIGNMENT (wrapping_add HEADER_SIZE reserved) mod HEAP_BLOCK_ALIGNMENT
      in saturating_add (saturating_add (saturating_add HEADER_SIZE reserved)
           (saturating_sub align HEAP_BLOCK_ALIGNMENT)) end_round)"

text \<open>Where the allocation lies in a block: payload, header and end; \<open>None\<close> where an address
  overflows.\<close>

definition placement :: "nat \<Rightarrow> nat \<Rightarrow> nat \<Rightarrow> (nat \<times> nat \<times> nat) option" where
  "placement candidate reserved align =
     do { payload_start \<leftarrow> align_up (candidate + HEADER_SIZE) align;
          alloc_header_start \<leftarrow> (if payload_start < HEADER_SIZE then None else Some (payload_start - HEADER_SIZE));
          a \<leftarrow> checked_add alloc_header_start HEADER_SIZE;
          b \<leftarrow> checked_add a reserved;
          alloc_end \<leftarrow> align_up b HEAP_BLOCK_ALIGNMENT;
          Some (payload_start, alloc_header_start, alloc_end) }"

text \<open>The prefix becomes a free block, is absorbed with a forwarding pointer, or is empty: the block
  that is allocated and its size.\<close>

definition carve_prefix :: "nat \<Rightarrow> nat \<Rightarrow> nat \<Rightarrow> heap \<Rightarrow> (nat \<times> nat \<times> heap) option" where
  "carve_prefix candidate alloc_header_start allocation_end h =
     (let prefix_size = wrapping_sub alloc_header_start candidate
      in if MIN_FREE_BLOCK \<le> prefix_size
         then do { h1 \<leftarrow> block_set_size candidate prefix_size h;
                   h2 \<leftarrow> block_clear_used candidate h1;
                   h3 \<leftarrow> insert_free_block candidate h2;
                   let allocated_size = wrapping_sub allocation_end alloc_header_start;
                   h4 \<leftarrow> block_set_size alloc_header_start allocated_size h3;
                   h5 \<leftarrow> block_set_used alloc_header_start h4;
                   Some (alloc_header_start, allocated_size, h5) }
         else if 0 < prefix_size
         then do { let allocated_size = wrapping_sub allocation_end candidate;
                   h1 \<leftarrow> block_set_size candidate allocated_size h;
                   h2 \<leftarrow> block_set_used candidate h1;
                   h3 \<leftarrow> store alloc_header_start candidate h2;
                   Some (candidate, allocated_size, h3) }
         else do { let allocated_size = wrapping_sub allocation_end alloc_header_start;
                   h1 \<leftarrow> block_set_size alloc_header_start allocated_size h;
                   h2 \<leftarrow> block_set_used alloc_header_start h1;
                   Some (alloc_header_start, allocated_size, h2) })"

definition carve_suffix :: "nat \<Rightarrow> nat \<Rightarrow> nat \<Rightarrow> heap \<Rightarrow> heap option" where
  "carve_suffix alloc_end suffix_size alloc_start h =
     do { h1 \<leftarrow> block_set_size alloc_end suffix_size h;
          h2 \<leftarrow> block_clear_used alloc_end h1;
          h3 \<leftarrow> block_set_prev_phys alloc_end alloc_start h2;
          insert_free_block alloc_end h3 }"

definition carve ::
  "nat \<Rightarrow> nat \<Rightarrow> nat \<Rightarrow> nat \<Rightarrow> heap \<Rightarrow> heap option" where
  "carve candidate block_end alloc_header_start alloc_end h =
     (let prefix_created = MIN_FREE_BLOCK \<le> wrapping_sub alloc_header_start candidate;
          suffix_size = wrapping_sub block_end alloc_end;
          suffix_created = MIN_FREE_BLOCK \<le> suffix_size;
          allocation_end = (if suffix_created then alloc_end else block_end)
      in do { (alloc_start, allocated_size, h1) \<leftarrow> carve_prefix candidate alloc_header_start allocation_end h;
              h2 \<leftarrow> (if suffix_created then carve_suffix alloc_end suffix_size alloc_start h1 else Some h1);
              h3 \<leftarrow> (if prefix_created then block_set_prev_phys alloc_header_start candidate h2 else Some h2);
              h4 \<leftarrow> (if suffix_created then block_set_prev_phys_of_next alloc_end alloc_end h3
                    else if block_end < heap_end h3 then block_set_prev_phys block_end alloc_start h3
                    else Some h3);
              h5 \<leftarrow> canary_write alloc_start h4;
              Some (h5\<lparr>available := saturating_sub (available h5) allocated_size\<rparr>) })"

text \<open>The smallest size past the class of a block that was too tight.\<close>

definition next_class_min :: "nat \<Rightarrow> nat option" where
  "next_class_min candidate_size =
     do { (fl, sl) \<leftarrow> mapping candidate_size;
          let sl_step = push_bit (saturating_sub fl SL_INDEX_LOG2) (1 :: nat);
          Some (if sl + 1 < SL_COUNT then push_bit fl 1 + (sl + 1) * sl_step else push_bit (fl + 1) 1) }"

partial_function (option) search_block :: "nat \<Rightarrow> nat \<Rightarrow> nat \<Rightarrow> heap \<Rightarrow> (nat \<times> heap) option" where
  "search_block reserved align min_block_size h =
     do { candidate \<leftarrow> find_suitable_block h min_block_size;
          if candidate = 0 then Some (0, h)
          else do { h1 \<leftarrow> remove_free_block candidate h;
            candidate_size \<leftarrow> block_size h1 candidate;
            let block_end = saturating_add candidate candidate_size;
            case placement candidate reserved align of
              None \<Rightarrow> do { h2 \<leftarrow> insert_free_block candidate h1; Some (0, h2) }
            | Some (payload_start, alloc_header_start, alloc_end) \<Rightarrow>
                if block_end < alloc_end
                then do { h2 \<leftarrow> insert_free_block candidate h1;
                          size2 \<leftarrow> block_size h2 candidate;
                          next_min \<leftarrow> next_class_min size2;
                          search_block reserved align next_min h2 }
                else do { h2 \<leftarrow> carve candidate block_end alloc_header_start alloc_end h1;
                          Some (payload_start, h2) } } }"

definition allocate_locked :: "nat \<Rightarrow> nat \<Rightarrow> heap \<Rightarrow> (nat \<times> heap) option" where
  "allocate_locked layout_size layout_align h =
     (let reserved = reserved_size layout_size;
          align = max layout_align HEAP_BLOCK_ALIGNMENT
      in search_block reserved align (initial_min_block_size reserved align) h)"

section \<open>Deallocation\<close>

text \<open>The header of the block a payload belongs to, through the forwarding pointer if there is
  one.\<close>

definition header_of :: "heap \<Rightarrow> nat \<Rightarrow> nat \<Rightarrow> nat option" where
  "header_of h payload_start nominal =
     (if heap_start h \<le> nominal \<and> nominal < heap_end h
      then do { fwd \<leftarrow> load h nominal;
        if heap_start h \<le> fwd \<and> fwd < nominal \<and> fwd mod HEAP_BLOCK_ALIGNMENT = 0 \<and>
           nominal = wrapping_add fwd HEAP_BLOCK_ALIGNMENT
        then do { size \<leftarrow> block_size h fwd;
          let limit = wrapping_add fwd size;
          used \<leftarrow> block_is_used h fwd;
          Some (if used \<and> HEADER_SIZE \<le> size \<and> fwd \<le> payload_start \<and> payload_start < limit \<and>
                   limit \<le> heap_end h
                then fwd else nominal) }
        else Some nominal }
      else Some nominal)"

definition free_block :: "nat \<Rightarrow> nat \<Rightarrow> heap \<Rightarrow> heap option" where
  "free_block header_start len h =
     do { let h0 = h\<lparr>available := saturating_add (available h) len\<rparr>;
          h1 \<leftarrow> block_clear_used header_start h0;
          (block, h2) \<leftarrow> coalesce header_start h1;
          insert_free_block block h2 }"

definition deallocate_locked :: "nat \<Rightarrow> heap \<Rightarrow> (bool \<times> heap) option" where
  "deallocate_locked ptr h =
     (if ptr = 0 then Some (False, h)
      else if ptr < HEADER_SIZE then Some (False, h)
      else do { header_start \<leftarrow> header_of h ptr (ptr - HEADER_SIZE);
        if \<not> (heap_start h \<le> header_start \<and> header_start < heap_end h) then Some (False, h)
        else do { size \<leftarrow> block_size h header_start;
          if size = 0 \<or> size < HEADER_SIZE then Some (False, h)
          else do { used \<leftarrow> block_is_used h header_start;
            if \<not> used then Some (False, h)
            else do { check \<leftarrow> canary_check h header_start;
              case check of
                Inl _ \<Rightarrow> None
              | Inr _ \<Rightarrow> do { h1 \<leftarrow> free_block header_start size h; Some (True, h1) } } } } })"

definition alloc :: "nat \<Rightarrow> nat \<Rightarrow> heap \<Rightarrow> (nat \<times> heap) option" where
  "alloc layout_size layout_align h = with_state (allocate_locked layout_size layout_align) h"

definition dealloc :: "nat \<Rightarrow> heap \<Rightarrow> heap option" where
  "dealloc ptr h = with_state (\<lambda>h. map_option snd (deallocate_locked ptr h)) h"

section \<open>Reports\<close>

definition bounds :: "heap \<Rightarrow> (nat \<times> nat) option" where
  "bounds h = with_state (\<lambda>h. Some (heap_start h, heap_end h)) h"

definition remaining :: "heap \<Rightarrow> nat option" where
  "remaining h = with_state (\<lambda>h. Some (available h)) h"

definition verify_heap_integrity :: "heap \<Rightarrow> unit option" where
  "verify_heap_integrity h = with_state scan_free_lists h"

end
