(* ===== verification/Heap_Lists.thy ===== *)
theory Heap_Lists
  imports Heap_Allocator
begin

text \<open>
  The free lists of the kernel heap: the size classes and their bounds, the chains the lists make in
  memory, the agreement of lists and bitmaps, and that inserting, removing and searching keep it.
\<close>

unbundle bit_operations_syntax

section \<open>Size classes\<close>

definition class_min :: "nat \<Rightarrow> nat" where
  "class_min i = (32 + i mod 32) * 2 ^ (i div 32)"

definition class_of :: "nat \<Rightarrow> nat" where
  "class_of s = (case mapping s of None \<Rightarrow> 0 | Some (fl, sl) \<Rightarrow> (fl - 5) * 32 + sl)"

lemma class_min_Suc: "class_min (Suc i) = (33 + i mod 32) * 2 ^ (i div 32)"
proof (cases "i mod 32 = 31")
  case True
  then have "Suc i mod 32 = 0" "Suc i div 32 = Suc (i div 32)"
    by (simp_all add: mod_Suc div_Suc)
  then show ?thesis
    using True by (simp add: class_min_def)
next
  case False
  then have "Suc i mod 32 = Suc (i mod 32)" "Suc i div 32 = i div 32"
    by (simp_all add: mod_Suc div_Suc)
  then show ?thesis
    by (simp add: class_min_def)
qed

lemma class_min_less: "i < j \<Longrightarrow> class_min i < class_min j"
proof (induction j rule: less_Suc_induct)
  case (1 i)
  have "(32 + i mod 32) * 2 ^ (i div 32) < (33 + i mod 32) * 2 ^ (i div 32 :: nat)"
    by simp
  then show ?case
    unfolding class_min_Suc by (simp add: class_min_def)
qed auto

lemma class_min_mono: "i \<le> j \<Longrightarrow> class_min i \<le> class_min j"
  using class_min_less [of i j] by (cases "i = j") auto

lemma class_min_0 [simp]: "class_min 0 = 32"
  by (simp add: class_min_def)

lemma sl_bits: "(drop_bit k (s :: nat) XOR push_bit 5 1) AND 31 = s div 2 ^ k mod 32"
proof -
  have "(drop_bit k s XOR push_bit 5 1) AND 31 = take_bit 5 (drop_bit k s XOR push_bit 5 1)"
    by (simp add: take_bit_eq_mask mask_eq_exp_minus_1)
  also have "\<dots> = take_bit 5 (drop_bit k s) XOR take_bit 5 (push_bit 5 1)"
    by simp
  also have "\<dots> = take_bit 5 (drop_bit k s)"
    by simp
  finally show ?thesis
    by (simp add: take_bit_eq_mod drop_bit_eq_div)
qed

lemma mapping_props:
  assumes "32 \<le> s"
  obtains fl sl where "mapping s = Some (fl, sl)" "5 \<le> fl" "sl < 32"
    "(32 + sl) * 2 ^ (fl - 5) \<le> s" "s < (33 + sl) * 2 ^ (fl - 5)"
    "2 ^ fl \<le> s" "s < 2 ^ (fl + 1)"
proof -
  define fl where "fl = floorlog 2 s - 1"
  have pos: "0 < floorlog 2 s"
    using assms floorlog_eq_zero_iff [of 2 s] by (simp add: neq0_conv [symmetric] del: neq0_conv)
  have lo: "2 ^ fl \<le> s" and hi: "s < 2 ^ (fl + 1)"
    using floorlog_bounds [of s 2] assms pos by (auto simp: fl_def)
  have fl5: "5 \<le> fl"
  proof (rule ccontr)
    assume "\<not> 5 \<le> fl"
    then have "2 ^ (fl + 1) \<le> (2 :: nat) ^ 5"
      by (intro power_increasing) auto
    then show False
      using hi assms by simp
  qed
  define q where "q = s div 2 ^ (fl - 5)"
  have e: "(2 :: nat) ^ fl = 32 * 2 ^ (fl - 5)" "(2 :: nat) ^ (fl + 1) = 64 * 2 ^ (fl - 5)"
  proof -
    have "(2 :: nat) ^ fl = 2 ^ (5 + (fl - 5))"
      using fl5 by simp
    then show "(2 :: nat) ^ fl = 32 * 2 ^ (fl - 5)"
      by (simp only: power_add) simp
    then show "(2 :: nat) ^ (fl + 1) = 64 * 2 ^ (fl - 5)"
      by simp
  qed
  have "32 \<le> q"
    using lo unfolding q_def e by (simp add: less_eq_div_iff_mult_less_eq)
  moreover have "q < 64"
    using hi unfolding q_def e by (simp add: div_less_iff_less_mult)
  ultimately have qm: "q mod 32 = q - 32"
    using mod_less [of "q - 32" 32] mod_add_self2 [of "q - 32" 32] by simp
  have m: "mapping s = Some (fl, q mod 32)"
    using assms sl_bits [of "fl - 5" s] by (simp add: mapping_def fl_def q_def heap_consts Let_def)
  have q: "q * 2 ^ (fl - 5) \<le> s" "s < (q + 1) * 2 ^ (fl - 5)"
    unfolding q_def using div_times_less_eq_dividend [of s "2 ^ (fl - 5)"] dividend_less_div_times [of "2 ^ (fl - 5)" s]
    by simp_all
  have "32 + q mod 32 = q" "33 + q mod 32 = q + 1" "q mod 32 < 32"
    using \<open>32 \<le> q\<close> qm by auto
  then show thesis
    using that [OF m fl5] q lo hi by metis
qed

lemma class_of_bounds:
  assumes "32 \<le> s"
  shows "class_min (class_of s) \<le> s" "s < class_min (Suc (class_of s))"
proof -
  obtain fl sl where m: "mapping s = Some (fl, sl)" "5 \<le> fl" "sl < 32"
    and b: "(32 + sl) * 2 ^ (fl - 5) \<le> s" "s < (33 + sl) * 2 ^ (fl - 5)"
    using mapping_props [OF assms] by metis
  have c: "class_of s = (fl - 5) * 32 + sl" "class_of s mod 32 = sl" "class_of s div 32 = fl - 5"
    using m by (simp_all add: class_of_def)
  show "class_min (class_of s) \<le> s" "s < class_min (Suc (class_of s))"
    using b unfolding class_min_Suc unfolding class_min_def c(2,3) .
qed

lemma class_of_le_iff: "32 \<le> s \<Longrightarrow> i \<le> class_of s \<longleftrightarrow> class_min i \<le> s"
  using class_of_bounds [of s] class_min_mono [of i "class_of s"] class_min_mono [of "Suc (class_of s)" i]
  by (metis le_trans not_less_eq_eq linorder_not_less)

lemma class_of_mono: "32 \<le> s \<Longrightarrow> s \<le> t \<Longrightarrow> class_of s \<le> class_of t"
  using class_of_le_iff [of t "class_of s"] class_of_bounds [of s] by simp

lemma class_min_672: "class_min 672 = 67108864"
  by (simp add: class_min_def)

lemma class_of_heap: "32 \<le> s \<Longrightarrow> s \<le> KERNEL_HEAP_SIZE \<Longrightarrow> class_of s \<le> 672"
  using class_of_le_iff [of s 673] class_min_less [of 672 673] class_min_672
  by (simp add: heap_consts not_less_eq_eq [symmetric] flip: not_less_eq_eq)

lemma class_of_class_min: "class_of (class_min i) = i"
proof -
  have "32 \<le> class_min i"
    using class_min_mono [of 0 i] by simp
  then show ?thesis
    using class_of_le_iff [of "class_min i" i] class_of_le_iff [of "class_min i" "Suc i"] class_min_less [of i "Suc i"]
    by (simp add: le_antisym not_less_eq_eq)
qed

lemma next_class_min_eq:
  assumes "32 \<le> s"
  shows "next_class_min s = Some (class_min (Suc (class_of s)))"
proof -
  obtain fl sl where m: "mapping s = Some (fl, sl)" "5 \<le> fl" "sl < 32"
    using mapping_props [OF assms] by metis
  have c: "class_of s = (fl - 5) * 32 + sl" "class_of s mod 32 = sl" "class_of s div 32 = fl - 5"
    using m by (simp_all add: class_of_def)
  have e: "(2 :: nat) ^ fl = 32 * 2 ^ (fl - 5)"
  proof -
    have "(2 :: nat) ^ fl = 2 ^ (5 + (fl - 5))"
      using m(2) by simp
    then show ?thesis
      by (simp only: power_add) simp
  qed
  have n: "class_min (Suc (class_of s)) = (33 + sl) * 2 ^ (fl - 5)"
    unfolding class_min_Suc c(2,3) ..
  show ?thesis
  proof (cases "sl + 1 < 32")
    case True
    then show ?thesis
      using m e by (simp add: next_class_min_def n heap_consts saturating_sub_def push_bit_eq_mult algebra_simps)
  next
    case False
    then have "sl = 31"
      using m by simp
    then show ?thesis
      using m e by (simp add: next_class_min_def n heap_consts saturating_sub_def push_bit_eq_mult)
  qed
qed

lemma list_index_class:
  assumes "32 \<le> s" "s \<le> KERNEL_HEAP_SIZE"
  obtains fl sl where "mapping s = Some (fl, sl)" "5 \<le> fl" "fl \<le> 26" "sl < 32"
    "list_index fl sl = Some (class_of s)" "class_of s = (fl - 5) * 32 + sl"
proof -
  obtain fl sl where m: "mapping s = Some (fl, sl)" "5 \<le> fl" "sl < 32" "2 ^ fl \<le> s"
    using mapping_props [OF assms(1)] by metis
  have "fl \<le> 26"
  proof (rule ccontr)
    assume "\<not> fl \<le> 26"
    then have "(2 :: nat) ^ 27 \<le> 2 ^ fl"
      by (intro power_increasing) auto
    then show False
      using m(4) assms(2) by (simp add: heap_consts)
  qed
  then show thesis
    using that m by (simp add: class_of_def list_index_def heap_consts)
qed

section \<open>Alignment\<close>

lemma and_mask_align:
  assumes "k \<le> 64" "x < USIZE_LIMIT"
  shows "x AND (USIZE_LIMIT - 2 ^ k) = x - x mod 2 ^ k"
proof -
  have "USIZE_LIMIT - 2 ^ k = push_bit k (mask (64 - k))"
    using assms(1) by (simp add: push_bit_eq_mult mask_eq_exp_minus_1 diff_mult_distrib flip: power_add)
  then have "x AND (USIZE_LIMIT - 2 ^ k) = push_bit k (take_bit (64 - k) (drop_bit k x))"
    by (auto intro!: bit_eqI simp: bit_simps)
  also have "take_bit (64 - k) (drop_bit k x) = take_bit 64 x div 2 ^ k"
    using assms(1) take_bit_drop_bit [of "64 - k" k x] by (simp add: drop_bit_eq_div [of _ "take_bit 64 x"])
  also have "take_bit 64 x = x"
    using assms(2) by (simp add: take_bit_nat_eq_self_iff)
  finally show ?thesis
    by (simp add: push_bit_eq_mult minus_mod_eq_div_mult)
qed

lemma align_up_Some:
  assumes "k < 64" "align_up x (2 ^ k) = Some y"
  shows "x \<le> y" "y < x + 2 ^ k" "2 ^ k dvd y" "y < USIZE_LIMIT"
proof -
  let ?z = "x + (2 ^ k - 1)"
  have z: "?z < USIZE_LIMIT" "y = ?z - ?z mod 2 ^ k"
    using assms and_mask_align [of k ?z] by (auto simp: align_up_def)
  have "?z mod 2 ^ k < 2 ^ k"
    by simp
  moreover have "?z mod 2 ^ k \<le> ?z"
    by simp
  moreover have "1 \<le> (2 :: nat) ^ k"
    by simp
  ultimately show "x \<le> y" "y < x + 2 ^ k" "y < USIZE_LIMIT"
    using z by linarith+
  show "2 ^ k dvd y"
    unfolding z(2) minus_mod_eq_mult_div by simp
qed

lemma align_up_eq:
  assumes "k < 64" "x + (2 ^ k - 1) < USIZE_LIMIT"
  shows "align_up x (2 ^ k) = Some ((x + (2 ^ k - 1)) div 2 ^ k * 2 ^ k)"
  using assms and_mask_align [of k "x + (2 ^ k - 1)"] by (simp add: align_up_def checked_add_def minus_mod_eq_div_mult)

section \<open>Free lists\<close>

definition heap_geometry :: "heap \<Rightarrow> bool" where
  "heap_geometry h \<longleftrightarrow> initialized h \<and> heap_start h = heap_base h \<and> heap_end h = heap_base h + KERNEL_HEAP_SIZE \<and>
     16 dvd heap_base h \<and> 0 < heap_base h \<and> heap_base h + KERNEL_HEAP_SIZE < USIZE_LIMIT \<and>
     length (free_lists h) = 704 \<and> length (sl_bitmaps h) = 22"

definition block_at :: "heap \<Rightarrow> nat \<Rightarrow> nat \<Rightarrow> bool" where
  "block_at h b s \<longleftrightarrow> heap_base h \<le> b \<and> b + s \<le> heap_base h + KERNEL_HEAP_SIZE \<and> 16 dvd b \<and> 16 dvd s \<and> 32 \<le> s"

text \<open>The list of blocks a chain of free blocks passes through.\<close>

fun chain :: "(nat \<Rightarrow> nat) \<Rightarrow> nat \<Rightarrow> nat list \<Rightarrow> bool" where
  "chain m a [] \<longleftrightarrow> a = 0"
| "chain m a (x # xs) \<longleftrightarrow> a = x \<and> x \<noteq> 0 \<and> chain m (m (x + 16)) xs"

definition apart :: "nat \<times> nat \<Rightarrow> nat \<times> nat \<Rightarrow> bool" where
  "apart x y \<longleftrightarrow> fst x + snd x \<le> fst y \<or> fst y + snd y \<le> fst x"

definition lists_ok :: "heap \<Rightarrow> (nat \<times> nat) set \<Rightarrow> bool" where
  "lists_ok h F \<longleftrightarrow>
     (\<forall>x \<in> F. block_at h (fst x) (snd x) \<and> memory h (fst x) = snd x) \<and>
     (\<forall>x \<in> F. \<forall>y \<in> F. x \<noteq> y \<longrightarrow> apart x y) \<and>
     (\<forall>i < 704. \<exists>xs. chain (memory h) (free_lists h ! i) xs \<and> set xs = {b. \<exists>s. (b, s) \<in> F \<and> class_of s = i}) \<and>
     (\<forall>i < 22. \<forall>j < 32. bit (sl_bitmaps h ! i) j \<longleftrightarrow> free_lists h ! (i * 32 + j) \<noteq> 0) \<and>
     (\<forall>i < 22. bit (fl_bitmap h) i \<longleftrightarrow> sl_bitmaps h ! i \<noteq> 0)"

text \<open>The second heap differs from the first in the words of \<open>W\<close>, in the free lists and in the
  bitmaps only.\<close>

definition same_but :: "nat set \<Rightarrow> heap \<Rightarrow> heap \<Rightarrow> bool" where
  "same_but W h h' \<longleftrightarrow> heap_base h' = heap_base h \<and> heap_start h' = heap_start h \<and> heap_end h' = heap_end h \<and>
     available h' = available h \<and> initialized h' = initialized h \<and>
     length (free_lists h') = length (free_lists h) \<and> length (sl_bitmaps h') = length (sl_bitmaps h) \<and>
     (\<forall>a. a \<notin> W \<longrightarrow> memory h' a = memory h a)"

lemma same_but_refl [simp]: "same_but W h h"
  by (simp add: same_but_def)

lemma same_but_trans: "same_but W h h' \<Longrightarrow> same_but W' h' h'' \<Longrightarrow> same_but (W \<union> W') h h''"
  by (auto simp: same_but_def)

lemma same_but_mono: "same_but W h h' \<Longrightarrow> W \<subseteq> W' \<Longrightarrow> same_but W' h h'"
  by (auto simp: same_but_def)

lemma same_but_memory: "same_but W h h' \<Longrightarrow> a \<notin> W \<Longrightarrow> memory h' a = memory h a"
  by (simp add: same_but_def)

lemma same_but_geometry: "same_but W h h' \<Longrightarrow> heap_geometry h \<Longrightarrow> heap_geometry h'"
  by (simp add: same_but_def heap_geometry_def)

lemma same_but_block_at: "same_but W h h' \<Longrightarrow> block_at h' b s = block_at h b s"
  by (simp add: same_but_def block_at_def)

lemma same_but_word_at: "same_but W h h' \<Longrightarrow> word_at h' a = word_at h a"
  by (simp add: same_but_def word_at_def)

lemma block_at_words:
  assumes "block_at h b s"
  shows "word_at h b" "word_at h (b + 8)" "word_at h (b + 16)" "word_at h (b + s - 8)"
proof -
  obtain q r where "b = 16 * q" "s = 16 * r"
    using assms by (auto simp: block_at_def elim!: dvdE)
  moreover have "8 dvd (16 * q :: nat)" "8 dvd 16 * q + (8 :: nat)" "8 dvd 16 * q + (16 :: nat)"
    by presburger+
  moreover have "8 dvd (16 * q + 16 * r - 8 :: nat)"
    by presburger
  ultimately show "word_at h b" "word_at h (b + 8)" "word_at h (b + 16)" "word_at h (b + s - 8)"
    using assms unfolding block_at_def word_at_def by (simp_all, linarith)
qed

lemma block_at_even: "block_at h b s \<Longrightarrow> s mod 2 = 0"
  by (auto simp: block_at_def elim!: dvdE)

lemma block_at_pos: "heap_geometry h \<Longrightarrow> block_at h b s \<Longrightarrow> b \<noteq> 0"
  by (auto simp: block_at_def heap_geometry_def)

lemma block_at_size: "block_at h b s \<Longrightarrow> s \<le> KERNEL_HEAP_SIZE"
  by (auto simp: block_at_def)

lemma chain_frame: "(\<And>x. x \<in> set xs \<Longrightarrow> m' (x + 16) = m (x + 16)) \<Longrightarrow> chain m' a xs = chain m a xs"
  by (induction xs arbitrary: a) simp_all

lemma chain_unique: "chain m a xs \<Longrightarrow> chain m a ys \<Longrightarrow> xs = ys"
proof (induction xs arbitrary: a ys)
  case Nil
  then show ?case
    by (cases ys) auto
next
  case (Cons x xs)
  then show ?case
    by (cases ys) auto
qed

lemma chain_append: "chain m a (us @ vs) \<Longrightarrow> \<exists>c. chain m c vs"
  by (induction us arbitrary: a) auto

lemma chain_distinct: "chain m a xs \<Longrightarrow> distinct xs"
proof (induction xs arbitrary: a)
  case (Cons x xs)
  have "x \<notin> set xs"
  proof
    assume "x \<in> set xs"
    then obtain us vs where xs: "xs = us @ x # vs"
      by (meson split_list)
    have "chain m (m (x + 16)) (us @ x # vs)"
      using Cons.prems xs by simp
    then obtain c where "chain m c (x # vs)"
      using chain_append by blast
    then have "chain m (m (x + 16)) vs"
      by simp
    then have "vs = us @ x # vs"
      using Cons.prems xs chain_unique by auto
    then show False
      by (metis Cons_eq_appendI append_self_conv2 length_Cons length_append not_add_less2 not_less_eq lessI)
  qed
  then show ?case
    using Cons by auto
qed simp

lemma chain_0_iff: "chain m a xs \<Longrightarrow> a = 0 \<longleftrightarrow> xs = []"
  by (cases xs) auto

lemma chain_head: "chain m a xs \<Longrightarrow> a \<noteq> 0 \<Longrightarrow> a \<in> set xs"
  by (cases xs) auto

section \<open>Reading a block\<close>

lemma block_size_at:
  "word_at h b \<Longrightarrow> memory h b = s + of_bool u \<Longrightarrow> s mod 2 = 0 \<Longrightarrow> block_size h b = Some s"
  by (auto simp: block_size_def block_raw_size_def load_def without_flag_def)

lemma block_is_used_at:
  "word_at h b \<Longrightarrow> memory h b = s + of_bool u \<Longrightarrow> s mod 2 = 0 \<Longrightarrow> block_is_used h b = Some u"
  by (cases u) (auto simp: block_is_used_def block_raw_size_def load_def mod_Suc)

lemma wrapping_add_heap:
  assumes "heap_geometry h" "b + s \<le> heap_base h + KERNEL_HEAP_SIZE"
  shows "wrapping_add b s = b + s"
  using assms by (simp add: wrapping_add_def heap_geometry_def)

lemma validate_block_at:
  assumes "heap_geometry h" "block_at h b s" "memory h b = s + of_bool u"
  shows "validate_block h b = mapping s"
proof -
  obtain fl sl where m: "mapping s = Some (fl, sl)" "5 \<le> fl" "fl \<le> 26"
    using list_index_class [OF _ block_at_size [OF assms(2)]] assms(2) unfolding block_at_def by blast
  have "block_size h b = Some s"
    using block_size_at [OF block_at_words(1) [OF assms(2)] assms(3) block_at_even [OF assms(2)]] .
  moreover have "wrapping_add b s = b + s"
    using wrapping_add_heap assms(1,2) by (simp add: block_at_def)
  ultimately show ?thesis
    using assms(1,2) m by (auto simp: validate_block_def heap_geometry_def block_at_def heap_consts mod_eq_0_iff_dvd)
qed

lemma lists_okD:
  assumes "lists_ok h F"
  shows "(b, s) \<in> F \<Longrightarrow> block_at h b s" "(b, s) \<in> F \<Longrightarrow> memory h b = s"
    "x \<in> F \<Longrightarrow> y \<in> F \<Longrightarrow> x \<noteq> y \<Longrightarrow> apart x y"
    "i < 704 \<Longrightarrow> \<exists>xs. chain (memory h) (free_lists h ! i) xs \<and> set xs = {b. \<exists>s. (b, s) \<in> F \<and> class_of s = i}"
    "i < 22 \<Longrightarrow> j < 32 \<Longrightarrow> bit (sl_bitmaps h ! i) j \<longleftrightarrow> free_lists h ! (i * 32 + j) \<noteq> 0"
    "i < 22 \<Longrightarrow> bit (fl_bitmap h) i \<longleftrightarrow> sl_bitmaps h ! i \<noteq> 0"
  using assms unfolding lists_ok_def by (fastforce, fastforce, blast, blast, blast, blast)

lemma apart_sym: "apart x y \<Longrightarrow> apart y x"
  by (auto simp: apart_def)

lemma not_apart_self: "block_at h b s \<Longrightarrow> block_at h' b t \<Longrightarrow> \<not> apart (b, s) (b, t)"
  by (auto simp: apart_def block_at_def)

lemma apart_next:
  "block_at h b s \<Longrightarrow> block_at h c t \<Longrightarrow> apart (b, s) (c, t) \<Longrightarrow> k < 32 \<Longrightarrow> c + k \<notin> {b..<b + s}"
  by (auto simp: apart_def block_at_def)

text \<open>Lists survive writes that spare the headers and links of the blocks in them.\<close>

lemma lists_ok_frame:
  assumes "lists_ok h F" "same_but W h h'" "free_lists h' = free_lists h" "sl_bitmaps h' = sl_bitmaps h"
    "fl_bitmap h' = fl_bitmap h"
    and "\<And>b s. (b, s) \<in> F \<Longrightarrow> b \<notin> W \<and> b + 16 \<notin> W"
  shows "lists_ok h' F"
proof -
  have m: "memory h' b = memory h b" "memory h' (b + 16) = memory h (b + 16)" if "(b, s) \<in> F" for b s
    using assms(2,6) that same_but_memory by blast+
  have c: "\<exists>xs. chain (memory h') (free_lists h' ! i) xs \<and> set xs = {b. \<exists>s. (b, s) \<in> F \<and> class_of s = i}"
    if lt: "i < 704" for i
  proof -
    obtain xs where xs: "chain (memory h) (free_lists h ! i) xs" "set xs = {b. \<exists>s. (b, s) \<in> F \<and> class_of s = i}"
      using lists_okD(4) [OF assms(1) lt] by blast
    then have "chain (memory h') (free_lists h ! i) xs = chain (memory h) (free_lists h ! i) xs"
      using m by (intro chain_frame) auto
    then show ?thesis
      using xs assms(3) by auto
  qed
  show ?thesis
    unfolding lists_ok_def same_but_block_at [OF assms(2)] assms(3-5)
    using lists_okD [OF assms(1)] m c assms(3) by (auto 0 3)
qed

section \<open>Bitmaps\<close>

lemma index_unique:
  fixes i j i' j' :: nat
  assumes "j < 32" "j' < 32"
  shows "i * 32 + j = i' * 32 + j' \<longleftrightarrow> i = i' \<and> j = j'"
proof
  assume e: "i * 32 + j = i' * 32 + j'"
  then have "(i * 32 + j) div 32 = (i' * 32 + j') div 32" "(i * 32 + j) mod 32 = (i' * 32 + j') mod 32"
    by simp_all
  then show "i = i' \<and> j = j'"
    using assms by simp
qed auto

lemma word_zero_iff_bits: "(w :: u32) = 0 \<longleftrightarrow> (\<forall>j < 32. \<not> bit w j)"
  using bit_imp_le_length [of w] by (auto simp: bit_eq_iff)

definition bitmaps_ok :: "heap \<Rightarrow> bool" where
  "bitmaps_ok h \<longleftrightarrow>
     (\<forall>i < 22. \<forall>j < 32. bit (sl_bitmaps h ! i) j \<longleftrightarrow> free_lists h ! (i * 32 + j) \<noteq> 0) \<and>
     (\<forall>i < 22. bit (fl_bitmap h) i \<longleftrightarrow> sl_bitmaps h ! i \<noteq> 0)"

lemma set_class_bits_ok:
  assumes "bitmaps_ok h" "length (sl_bitmaps h) = 22" "length (free_lists h) = 704" "i < 22" "j < 32" "b \<noteq> 0"
  shows "bitmaps_ok (set_class_bits (i + 5) j (h\<lparr>free_lists := (free_lists h)[i * 32 + j := b]\<rparr>))"
proof -
  have sl: "bit (sl_bitmaps h ! i') j' \<longleftrightarrow> free_lists h ! (i' * 32 + j') \<noteq> 0" if "i' < 22" "j' < 32" for i' j'
    using assms(1) that by (simp add: bitmaps_ok_def)
  have fl: "bit (fl_bitmap h) i' \<longleftrightarrow> sl_bitmaps h ! i' \<noteq> 0" if "i' < 22" for i'
    using assms(1) that by (simp add: bitmaps_ok_def)
  have nz: "sl_bitmaps h ! i OR push_bit j 1 \<noteq> 0"
  proof
    assume "sl_bitmaps h ! i OR push_bit j 1 = 0"
    then have "\<not> bit (sl_bitmaps h ! i OR push_bit j 1) j"
      by simp
    then show False
      using assms(5) by (simp add: bit_simps)
  qed
  show ?thesis
    unfolding bitmaps_ok_def
  proof (intro conjI allI impI)
    fix i' j' :: nat
    assume "i' < 22" "j' < 32"
    moreover have "i * 32 + j < 704" "i' * 32 + j' < 704"
      using assms(4,5) \<open>i' < 22\<close> \<open>j' < 32\<close> by linarith+
    ultimately show "bit (sl_bitmaps (set_class_bits (i + 5) j (h\<lparr>free_lists := (free_lists h)[i * 32 + j := b]\<rparr>)) ! i') j' \<longleftrightarrow>
        free_lists (set_class_bits (i + 5) j (h\<lparr>free_lists := (free_lists h)[i * 32 + j := b]\<rparr>)) ! (i' * 32 + j') \<noteq> 0"
      using assms(2-6) sl [of i' j'] index_unique [OF assms(5) \<open>j' < 32\<close>, of i i']
      by (auto simp: set_class_bits_def nth_list_update heap_consts bit_simps)
  next
    fix i' :: nat
    assume "i' < 22"
    then show "bit (fl_bitmap (set_class_bits (i + 5) j (h\<lparr>free_lists := (free_lists h)[i * 32 + j := b]\<rparr>))) i' \<longleftrightarrow>
        sl_bitmaps (set_class_bits (i + 5) j (h\<lparr>free_lists := (free_lists h)[i * 32 + j := b]\<rparr>)) ! i' \<noteq> 0"
      using assms(2-6) fl [of i'] nz by (auto simp: set_class_bits_def nth_list_update heap_consts bit_simps)
  qed
qed

lemma clear_class_bits_ok:
  assumes "length (sl_bitmaps h) = 22" "i < 22" "j < 32" "free_lists h ! (i * 32 + j) = 0"
    and sl: "\<And>i' j'. i' < 22 \<Longrightarrow> j' < 32 \<Longrightarrow> (i', j') \<noteq> (i, j) \<Longrightarrow>
      bit (sl_bitmaps h ! i') j' \<longleftrightarrow> free_lists h ! (i' * 32 + j') \<noteq> 0"
    and fl: "\<And>i'. i' < 22 \<Longrightarrow> bit (fl_bitmap h) i' \<longleftrightarrow> sl_bitmaps h ! i' \<noteq> 0"
    and set: "sl_bitmaps h ! i \<noteq> 0"
  shows "bitmaps_ok (clear_class_bits (i + 5) j h)"
  unfolding bitmaps_ok_def
proof (intro conjI allI impI)
  have slb: "sl_bitmaps (clear_class_bits (i + 5) j h) = (sl_bitmaps h)[i := sl_bitmaps h ! i AND NOT (push_bit j 1)]"
    by (simp add: clear_class_bits_def heap_consts Let_def)
  fix i' j' :: nat
  assume "i' < 22" "j' < 32"
  then show "bit (sl_bitmaps (clear_class_bits (i + 5) j h) ! i') j' \<longleftrightarrow>
      free_lists (clear_class_bits (i + 5) j h) ! (i' * 32 + j') \<noteq> 0"
    using assms(1-4) sl [of i' j']
    unfolding slb by (cases "i' = i"; cases "j' = j") (auto simp: clear_class_bits_def heap_consts Let_def bit_simps)
next
  fix i' :: nat
  assume "i' < 22"
  then show "bit (fl_bitmap (clear_class_bits (i + 5) j h)) i' \<longleftrightarrow> sl_bitmaps (clear_class_bits (i + 5) j h) ! i' \<noteq> 0"
    using assms(1-4) fl [of i'] set
    by (cases "i' = i") (auto simp: clear_class_bits_def heap_consts Let_def bit_simps)
qed

lemma class_bits_memory [simp]:
  "memory (set_class_bits fl sl h) = memory h" "free_lists (set_class_bits fl sl h) = free_lists h"
  "memory (clear_class_bits fl sl h) = memory h" "free_lists (clear_class_bits fl sl h) = free_lists h"
  by (simp_all add: set_class_bits_def clear_class_bits_def Let_def)

lemma class_bits_same_but [simp]:
  "same_but W h (set_class_bits fl sl h') = same_but W h h'"
  "same_but W h (clear_class_bits fl sl h') = same_but W h h'"
  "same_but W h (h'\<lparr>free_lists := (free_lists h')[k := v]\<rparr>) = same_but W h h'"
  by (simp_all add: same_but_def set_class_bits_def clear_class_bits_def Let_def)

lemma lists_ok_bitmaps: "lists_ok h F \<Longrightarrow> bitmaps_ok h"
  by (simp add: lists_ok_def bitmaps_ok_def)

lemma lists_okI:
  assumes "\<And>b s. (b, s) \<in> F \<Longrightarrow> block_at h b s" "\<And>b s. (b, s) \<in> F \<Longrightarrow> memory h b = s"
    "\<And>x y. x \<in> F \<Longrightarrow> y \<in> F \<Longrightarrow> x \<noteq> y \<Longrightarrow> apart x y"
    "\<And>i. i < 704 \<Longrightarrow> \<exists>xs. chain (memory h) (free_lists h ! i) xs \<and> set xs = {b. \<exists>s. (b, s) \<in> F \<and> class_of s = i}"
    "bitmaps_ok h"
  shows "lists_ok h F"
  unfolding lists_ok_def using assms unfolding bitmaps_ok_def by auto

section \<open>Insertion\<close>

lemma zero_fresh_header_region_at:
  assumes "heap_geometry h" "block_at h b s" "memory h b = s"
  shows "zero_fresh_header_region b h =
    Some (h\<lparr>memory := (\<lambda>a. if b + 24 \<le> a \<and> a < min (b + 2048) (b + s) then 0 else memory h a)\<rparr>)"
proof -
  obtain q r where qr: "b = 16 * q" "s = 16 * r" "2 \<le> r"
    using assms(2) by (auto simp: block_at_def elim!: dvdE)
  have "word_at h (b + 24)"
    using assms(2) qr by (simp add: word_at_def block_at_def)
  moreover have "word_at h (min (b + 2048) (b + s) - 8)"
  proof (cases "s \<le> 2048")
    case True
    then show ?thesis
      using block_at_words(4) [OF assms(2)] by simp
  next
    case False
    then have "8 dvd (b + 2048 - 8)"
      using qr by presburger
    then show ?thesis
      using assms(2) False by (simp add: word_at_def block_at_def)
  qed
  moreover have "b + 24 < min (b + 2048) (b + s)"
    using assms(2) by (simp add: block_at_def)
  moreover have "block_size h b = Some s"
    using block_size_at [OF block_at_words(1) [OF assms(2)], of s False] assms(3) block_at_even [OF assms(2)] by simp
  ultimately show ?thesis
    by (simp add: zero_fresh_header_region_def zero_words_def heap_consts Let_def add.assoc)
qed

lemma insert_free_block_ok:
  assumes g: "heap_geometry h" and l: "lists_ok h F" and b: "block_at h b s" and mb: "memory h b = s"
    and ap: "\<And>y. y \<in> F \<Longrightarrow> apart (b, s) y"
  obtains h' where "insert_free_block b h = Some h'" "lists_ok h' (insert (b, s) F)" "same_but {b + 16..<b + s} h h'"
proof -
  let ?idx = "class_of s"
  obtain fl sl where m: "mapping s = Some (fl, sl)" "5 \<le> fl" "fl \<le> 26" "sl < 32"
    "list_index fl sl = Some ?idx" "?idx = (fl - 5) * 32 + sl"
    using list_index_class [OF _ block_at_size [OF b]] b unfolding block_at_def by blast
  define i where "i = fl - 5"
  have i: "i < 22" "fl = i + 5" "?idx = i * 32 + sl" "?idx < 704"
    using m by (auto simp: i_def)
  define h1 where "h1 = h\<lparr>memory := (memory h)(b + 16 := free_lists h ! ?idx)\<rparr>"
  have s32: "32 \<le> s"
    using b by (simp add: block_at_def)
  have g1: "heap_geometry h1" "block_at h1 b s" "memory h1 b = s"
    using g b mb by (simp_all add: h1_def heap_geometry_def block_at_def)
  define h2 where "h2 = h1\<lparr>memory := (\<lambda>a. if b + 24 \<le> a \<and> a < min (b + 2048) (b + s) then 0 else memory h1 a)\<rparr>"
  define h' where "h' = set_class_bits fl sl (h2\<lparr>free_lists := (free_lists h2)[?idx := b]\<rparr>)"
  have w: "word_at h b" "word_at h (b + 16)"
    using block_at_words [OF b] by simp_all
  have "insert_free_block b h = Some h'"
    using validate_block_at [OF g b, of False] zero_fresh_header_region_at [OF g1, folded h2_def] m(1-5) s32 mb w block_at_even [OF b]
      block_is_used_at [OF w(1), of s False] block_size_at [OF w(1), of s False]
    by (simp add: insert_free_block_def block_set_next_free_def store_def heap_consts h1_def [symmetric]
        h'_def)
  moreover have sb: "same_but {b + 16..<b + s} h h'"
    using s32 by (auto simp: h'_def h2_def h1_def same_but_def set_class_bits_def)
  moreover have "lists_ok h' (insert (b, s) F)"
  proof (rule lists_okI)
    have other: "block_at h c t" "memory h' c = t" "memory h' (c + 16) = memory h (c + 16)" "c \<noteq> b" if "(c, t) \<in> F" for c t
    proof -
      show ct: "block_at h c t"
        using lists_okD(1) [OF l that] .
      have "c \<notin> {b..<b + s}" "c + 16 \<notin> {b..<b + s}"
        using apart_next [OF b ct ap [OF that], of 0] apart_next [OF b ct ap [OF that], of 16] by simp_all
      then show "memory h' c = t" "memory h' (c + 16) = memory h (c + 16)"
        using same_but_memory [OF sb] lists_okD(2) [OF l that] by auto
      show "c \<noteq> b"
        using ap [OF that] ct b not_apart_self by blast
    qed
    have mb': "memory h' b = s" "memory h' (b + 16) = free_lists h ! ?idx"
      using mb by (simp_all add: h'_def h2_def h1_def)
    show "block_at h' c t" if "(c, t) \<in> insert (b, s) F" for c t
      using that b other same_but_block_at [OF sb] by auto
    show "memory h' c = t" if "(c, t) \<in> insert (b, s) F" for c t
      using that mb' other by auto
    show "apart x y" if "x \<in> insert (b, s) F" "y \<in> insert (b, s) F" "x \<noteq> y" for x y
      using that ap apart_sym lists_okD(3) [OF l] by blast
    have lists: "free_lists h' = (free_lists h)[?idx := b]"
      by (simp add: h'_def h2_def h1_def)
    have len: "length (free_lists h) = 704" "length (sl_bitmaps h) = 22"
      using g by (simp_all add: heap_geometry_def)
    show "\<exists>xs. chain (memory h') (free_lists h' ! k) xs \<and> set xs = {c. \<exists>t. (c, t) \<in> insert (b, s) F \<and> class_of t = k}"
      if lt: "k < 704" for k
    proof -
      obtain xs where xs: "chain (memory h) (free_lists h ! k) xs" "set xs = {c. \<exists>t. (c, t) \<in> F \<and> class_of t = k}"
        using lists_okD(4) [OF l lt] by blast
      have c: "chain (memory h') (free_lists h ! k) xs"
        using xs other(3) by (subst chain_frame [of xs "memory h'" "memory h"]) auto
      show ?thesis
      proof (cases "k = ?idx")
        case True
        have "chain (memory h') (free_lists h' ! k) (b # xs)"
          using c True lists len i(4) mb'(2) block_at_pos [OF g b] by simp
        then show ?thesis
          using xs(2) True by (intro exI [of _ "b # xs"]) auto
      next
        case False
        then show ?thesis
          using xs(2) c lists by (intro exI [of _ xs]) auto
      qed
    qed
    have "bitmaps_ok h2"
      using lists_ok_bitmaps [OF l] by (simp add: h2_def h1_def bitmaps_ok_def)
    then show "bitmaps_ok h'"
      using set_class_bits_ok [of h2 i sl b] len i m(4) block_at_pos [OF g b]
      by (simp add: h'_def) (simp add: h2_def h1_def)
  qed
  ultimately show thesis
    using that by blast
qed

section \<open>Removal\<close>

definition unlinked :: "nat \<Rightarrow> nat \<Rightarrow> nat \<Rightarrow> heap \<Rightarrow> heap" where
  "unlinked idx p next h =
     (if p = 0 then h\<lparr>free_lists := (free_lists h)[idx := next]\<rparr>
      else h\<lparr>memory := (memory h)(p + 16 := next)\<rparr>)"

lemma unlink_chain:
  assumes "heap_geometry h" "chain (memory h) current (us @ block # vs)" "block \<notin> set us"
    and "\<And>x. x \<in> set (us @ block # vs) \<Longrightarrow> \<exists>s. block_at h x s \<and> memory h x = s"
    and "prev = 0 \<or> (\<exists>s. block_at h prev s)"
  shows "unlink idx block prev current h = Some (unlinked idx (last (prev # us)) (memory h (block + 16)) h)"
  using assms(2-5)
proof (induction us arbitrary: prev current)
  case Nil
  then obtain s where b: "block_at h block s" "memory h block = s"
    by auto
  obtain fl sl where "mapping s = Some (fl, sl)"
    using mapping_props [of s] b(1) unfolding block_at_def by metis
  then have v: "validate_block h current = Some (fl, sl)"
    using Nil validate_block_at [OF assms(1) b(1), of False] b(2) by simp
  have c: "current = block" "current \<noteq> 0"
    using Nil by auto
  show ?case
  proof (cases "prev = 0")
    case True
    then show ?thesis
      using c v block_at_words [OF b(1)]
      by (simp add: unlink.simps block_next_free_def load_def heap_consts unlinked_def)
  next
    case False
    then have "word_at h (prev + 16)"
      using Nil.prems(4) block_at_words by auto
    then show ?thesis
      using False c v block_at_words [OF b(1)]
      by (simp add: unlink.simps block_next_free_def block_set_next_free_def load_def store_def heap_consts unlinked_def)
  qed
next
  case (Cons u us)
  obtain s where b: "block_at h u s" "memory h u = s"
    using Cons.prems(3) by auto
  obtain fl sl where "mapping s = Some (fl, sl)"
    using mapping_props [of s] b(1) unfolding block_at_def by metis
  then have v: "validate_block h current = Some (fl, sl)"
    using Cons.prems(1) validate_block_at [OF assms(1) b(1), of False] b(2) by simp
  have "unlink idx block prev current h = unlink idx block u (memory h (u + 16)) h"
    using Cons.prems(1,2) v block_at_words [OF b(1)]
    by (subst unlink.simps) (auto simp: block_next_free_def load_def heap_consts)
  also have "\<dots> = Some (unlinked idx (last (u # us)) (memory h (block + 16)) h)"
    using Cons.prems b by (intro Cons.IH) auto
  finally show ?case
    by simp
qed

lemma chain_unlinked:
  assumes "chain m a (us @ b # vs)" "us \<noteq> []" "distinct (us @ b # vs)"
  shows "chain (m(last us + 16 := m (b + 16))) a (us @ vs)"
  using assms
proof (induction us arbitrary: a)
  case (Cons u us)
  show ?case
  proof (cases "us = []")
    case True
    have "chain (m(u + 16 := m (b + 16))) (m (b + 16)) vs = chain m (m (b + 16)) vs"
      using Cons.prems True by (intro chain_frame) auto
    then show ?thesis
      using Cons.prems True by (simp add: fun_upd_def)
  next
    case False
    then have "last us \<noteq> u"
      using Cons.prems last_in_set [OF False] by auto
    then show ?thesis
      using Cons False by auto
  qed
qed simp

lemma remove_free_block_ok:
  assumes g: "heap_geometry h" and l: "lists_ok h F" and f: "(b, s) \<in> F"
  obtains h' where "remove_free_block b h = Some h'" "lists_ok h' (F - {(b, s)})"
    "same_but {x + 16 | x. \<exists>t. (x, t) \<in> F} h h'"
proof -
  let ?idx = "class_of s"
  let ?W = "{x + 16 | x. \<exists>t. (x, t) \<in> F}"
  have b: "block_at h b s" "memory h b = s"
    using lists_okD(1,2) [OF l f] by auto
  obtain fl sl where m: "mapping s = Some (fl, sl)" "5 \<le> fl" "fl \<le> 26" "sl < 32"
    "list_index fl sl = Some ?idx" "?idx = (fl - 5) * 32 + sl"
    using list_index_class [OF _ block_at_size [OF b(1)]] b(1) unfolding block_at_def by blast
  define i where "i = fl - 5"
  have i: "i < 22" "fl = i + 5" "?idx = i * 32 + sl" "?idx < 704"
    using m by (auto simp: i_def)
  have len: "length (free_lists h) = 704" "length (sl_bitmaps h) = 22"
    using g by (simp_all add: heap_geometry_def)
  obtain xs where xs: "chain (memory h) (free_lists h ! ?idx) xs" "set xs = {c. \<exists>t. (c, t) \<in> F \<and> class_of t = ?idx}"
    using lists_okD(4) [OF l i(4)] by blast
  have uniq: "t = t'" if "(c, t) \<in> F" "(c, t') \<in> F" for c t t'
    using lists_okD(3) [OF l that] lists_okD(1) [OF l that(1)] lists_okD(1) [OF l that(2)] not_apart_self by blast
  have "b \<in> set xs"
    using xs(2) f by auto
  then obtain us vs where uv: "xs = us @ b # vs" "b \<notin> set us"
    by (meson split_list_first)
  have d: "distinct (us @ b # vs)"
    using chain_distinct xs(1) uv(1) by blast
  define p where "p = last (0 # us)"
  define h1 where "h1 = unlinked ?idx p (memory h (b + 16)) h"
  have blocks: "\<exists>t. block_at h x t \<and> memory h x = t" if "x \<in> set xs" for x
    using that xs(2) lists_okD(1,2) [OF l] by blast
  have un: "unlink ?idx b 0 (free_lists h ! ?idx) h = Some h1"
    using unlink_chain [OF g, of "free_lists h ! ?idx" us b vs 0 ?idx] xs(1) uv blocks
    by (simp add: h1_def p_def)
  have pF: "p = 0 \<longleftrightarrow> us = []" "p \<noteq> 0 \<Longrightarrow> p \<in> set us"
  proof -
    have "\<forall>x \<in> set us. x \<noteq> 0"
      using blocks block_at_pos [OF g] uv(1) by (metis UnCI set_append)
    then show "p = 0 \<longleftrightarrow> us = []" "p \<noteq> 0 \<Longrightarrow> p \<in> set us"
      using last_in_set [of us] by (auto simp: p_def split: if_splits)
  qed
  have pidx: "\<exists>t. (p, t) \<in> F \<and> class_of t = ?idx" if "p \<noteq> 0"
    using pF(2) [OF that] uv(1) xs(2) by auto
  have sb: "same_but ?W h h1"
    using pidx by (auto simp: h1_def unlinked_def same_but_def)
  have ch: "chain (memory h1) (free_lists h1 ! ?idx) (us @ vs)"
  proof (cases "us = []")
    case True
    then show ?thesis
      using xs(1) uv(1) pF(1) len i(4) by (simp add: h1_def unlinked_def)
  next
    case False
    then show ?thesis
      using chain_unlinked [OF xs(1) [unfolded uv(1)] False d] pF(1) by (simp add: h1_def unlinked_def p_def)
  qed
  have setuv: "set (us @ vs) = {c. \<exists>t. (c, t) \<in> F - {(b, s)} \<and> class_of t = ?idx}"
  proof -
    have "set (us @ vs) = set xs - {b}"
      using uv d by auto
    also have "\<dots> = {c. \<exists>t. (c, t) \<in> F - {(b, s)} \<and> class_of t = ?idx}"
      unfolding xs(2) using uniq f by auto
    finally show ?thesis .
  qed
  have ch_other: "\<exists>ys. chain (memory h1) (free_lists h1 ! k) ys \<and> set ys = {c. \<exists>t. (c, t) \<in> F - {(b, s)} \<and> class_of t = k}"
    if k: "k < 704" "k \<noteq> ?idx" for k
  proof -
    obtain ys where ys: "chain (memory h) (free_lists h ! k) ys" "set ys = {c. \<exists>t. (c, t) \<in> F \<and> class_of t = k}"
      using lists_okD(4) [OF l k(1)] by blast
    have "p \<notin> set ys" if "p \<noteq> 0"
      using pidx [OF that] ys(2) uniq k(2) by blast
    then have "chain (memory h1) (free_lists h ! k) ys = chain (memory h) (free_lists h ! k) ys"
      by (intro chain_frame) (auto simp: h1_def unlinked_def)
    moreover have "free_lists h1 ! k = free_lists h ! k"
      using k(2) by (simp add: h1_def unlinked_def)
    moreover have "{c. \<exists>t. (c, t) \<in> F \<and> class_of t = k} = {c. \<exists>t. (c, t) \<in> F - {(b, s)} \<and> class_of t = k}"
      using k(2) by auto
    ultimately show ?thesis
      using ys by auto
  qed
  have bits: "bit (sl_bitmaps h1 ! i') j' \<longleftrightarrow> free_lists h1 ! (i' * 32 + j') \<noteq> 0"
    if "i' < 22" "j' < 32" "(i', j') \<noteq> (i, sl)" for i' j'
  proof -
    have "i' * 32 + j' \<noteq> ?idx"
      using that index_unique [OF that(2) m(4), of i' i] i(3) by auto
    then show ?thesis
      using lists_okD(5) [OF l that(1,2)] by (simp add: h1_def unlinked_def)
  qed
  have flb: "bit (fl_bitmap h1) i' \<longleftrightarrow> sl_bitmaps h1 ! i' \<noteq> 0" if "i' < 22" for i'
    using lists_okD(6) [OF l that] by (simp add: h1_def unlinked_def)
  have set: "bit (sl_bitmaps h1 ! i) sl"
    using lists_okD(5) [OF l i(1) m(4)] xs(1) uv(1) i(3) chain_0_iff by (fastforce simp: h1_def unlinked_def)
  define h' where "h' = (if free_lists h1 ! ?idx = 0 then clear_class_bits fl sl h1 else h1)"
  have mem: "memory h' = memory h1" "free_lists h' = free_lists h1"
    by (simp_all add: h'_def)
  have sb': "same_but ?W h h'"
    using sb by (simp add: h'_def)
  have "remove_free_block b h = Some h'"
    using validate_block_at [OF g b(1), of False] b m(1,5) un block_size_at [OF block_at_words(1) [OF b(1)], of s False]
      block_at_even [OF b(1)]
    by (simp add: remove_free_block_def h'_def block_at_def heap_consts)
  moreover have "lists_ok h' (F - {(b, s)})"
  proof (rule lists_okI)
    show "block_at h' c t" "memory h' c = t" if "(c, t) \<in> F - {(b, s)}" for c t
    proof -
      have ct: "(c, t) \<in> F"
        using that by simp
      show "block_at h' c t"
        using lists_okD(1) [OF l ct] same_but_block_at [OF sb'] by simp
      have "c \<notin> ?W"
      proof
        assume "c \<in> ?W"
        then obtain x t' where x: "(x, t') \<in> F" "c = x + 16"
          by blast
        then have "apart (x, t') (c, t)"
          using lists_okD(3) [OF l x(1) ct] by auto
        then show False
          using lists_okD(1) [OF l x(1)] lists_okD(1) [OF l ct] x(2) by (auto simp: apart_def block_at_def)
      qed
      then show "memory h' c = t"
        using same_but_memory [OF sb'] lists_okD(2) [OF l ct] by simp
    qed
    show "apart x y" if "x \<in> F - {(b, s)}" "y \<in> F - {(b, s)}" "x \<noteq> y" for x y
      using that lists_okD(3) [OF l] by blast
    show "\<exists>ys. chain (memory h') (free_lists h' ! k) ys \<and> set ys = {c. \<exists>t. (c, t) \<in> F - {(b, s)} \<and> class_of t = k}"
      if "k < 704" for k
      using ch setuv ch_other [OF that] unfolding mem by (cases "k = ?idx") blast+
    show "bitmaps_ok h'"
    proof (cases "free_lists h1 ! ?idx = 0")
      case True
      have "bitmaps_ok (clear_class_bits (i + 5) sl h1)"
        using set by (intro clear_class_bits_ok [OF _ i(1) m(4) _ bits flb]) (use True i(3) len in \<open>auto simp: h1_def unlinked_def\<close>)
      then show ?thesis
        using True i(2) by (simp add: h'_def)
    next
      case False
      have "bit (sl_bitmaps h1 ! i') j' \<longleftrightarrow> free_lists h1 ! (i' * 32 + j') \<noteq> 0" if "i' < 22" "j' < 32" for i' j'
        using bits [OF that] set False i(3) by (cases "(i', j') = (i, sl)") auto
      then show ?thesis
        using False flb by (simp add: h'_def bitmaps_ok_def)
    qed
  qed
  ultimately show thesis
    using that sb' by blast
qed

section \<open>Search\<close>

lemma trailing_zeros_bit:
  assumes "w \<noteq> 0"
  shows "trailing_zeros w < 32" "bit w (trailing_zeros w)" "\<And>j. j < trailing_zeros w \<Longrightarrow> \<not> bit w j"
proof -
  obtain i where i: "List.find (bit w) [0..<32] = Some i"
  proof (cases "List.find (bit w) [0..<32]")
    case None
    then have "\<forall>j < 32. \<not> bit w j"
      by (auto simp: find_None_iff)
    then show thesis
      using assms word_zero_iff_bits by blast
  qed (use that in blast)
  then obtain k where k: "k < 32" "bit w ([0..<32] ! k)" "i = [0..<32] ! k" "\<And>j. j < k \<Longrightarrow> \<not> bit w ([0..<32] ! j)"
    by (auto simp: find_Some_iff)
  then have "trailing_zeros w = k" "bit w k" "\<And>j. j < k \<Longrightarrow> \<not> bit w j"
    using i by (auto simp: trailing_zeros_def)
  then show "trailing_zeros w < 32" "bit w (trailing_zeros w)" "\<And>j. j < trailing_zeros w \<Longrightarrow> \<not> bit w j"
    using k(1) by auto
qed

lemma bit_low_mask: "k < 32 \<Longrightarrow> bit ((push_bit k 1 :: u32) - 1) j \<longleftrightarrow> j < k"
  using bit_mask_iff [where 'a = u32, of k j] by (auto simp: mask_eq_exp_minus_1 push_bit_eq_mult)

text \<open>The class the search starts from.\<close>

definition start_class :: "nat \<Rightarrow> nat" where
  "start_class s = (case mapping s of None \<Rightarrow> 0 | Some (fl, sl) \<Rightarrow> (min fl 26 - 5) * 32 + sl)"

lemma start_class_eq:
  assumes "32 \<le> s" "s < 2 * KERNEL_HEAP_SIZE"
  shows "start_class s = class_of s"
proof -
  obtain fl sl where m: "mapping s = Some (fl, sl)" "2 ^ fl \<le> s"
    using mapping_props [OF assms(1)] by metis
  have "fl \<le> 26"
  proof (rule ccontr)
    assume "\<not> fl \<le> 26"
    then have "(2 :: nat) ^ 27 \<le> 2 ^ fl"
      by (intro power_increasing) auto
    then show False
      using m(2) assms(2) by (simp add: heap_consts)
  qed
  then show ?thesis
    using m(1) by (simp add: start_class_def class_of_def)
qed

lemma start_class_large:
  assumes "2 * KERNEL_HEAP_SIZE \<le> s"
  shows "672 \<le> start_class s"
proof -
  obtain fl sl where m: "mapping s = Some (fl, sl)" "s < 2 ^ (fl + 1)"
  proof (rule mapping_props)
    show "32 \<le> s"
      using assms by (simp add: heap_consts)
  qed (use that in blast)
  have "26 \<le> fl"
  proof (rule ccontr)
    assume "\<not> 26 \<le> fl"
    then have "(2 :: nat) ^ (fl + 1) \<le> 2 ^ 26"
      by (intro power_increasing) auto
    then show False
      using m(2) assms by (simp add: heap_consts)
  qed
  then show ?thesis
    using m(1) by (simp add: start_class_def)
qed

lemma find_suitable_block_ok:
  assumes "bitmaps_ok h" "32 \<le> s"
  obtains c where "find_suitable_block h s = Some c"
    "c = 0 \<Longrightarrow> \<forall>i. start_class s \<le> i \<and> i < 704 \<longrightarrow> free_lists h ! i = 0"
    "c \<noteq> 0 \<Longrightarrow> \<exists>i. start_class s \<le> i \<and> i < 704 \<and> c = free_lists h ! i"
proof -
  obtain fl sl where m: "mapping s = Some (fl, sl)" "5 \<le> fl" "sl < 32"
    using mapping_props [OF assms(2)] by metis
  define i0 where "i0 = min fl 26 - 5"
  have i0: "i0 < 22" "start_class s = i0 * 32 + sl" "min (max fl 5) 26 = i0 + 5"
    using m by (auto simp: i0_def start_class_def)
  have slb: "bit (sl_bitmaps h ! i) j \<longleftrightarrow> free_lists h ! (i * 32 + j) \<noteq> 0" if "i < 22" "j < 32" for i j
    using assms(1) that by (simp add: bitmaps_ok_def)
  have flb: "bit (fl_bitmap h) i \<longleftrightarrow> sl_bitmaps h ! i \<noteq> 0" if "i < 22" for i
    using assms(1) that by (simp add: bitmaps_ok_def)
  define sm where "sm = sl_bitmaps h ! i0 AND NOT (push_bit sl 1 - 1)"
  define fm where "fm = fl_bitmap h AND (push_bit 22 1 - 1) AND NOT (push_bit (i0 + 1) 1 - 1)"
  have smb: "bit sm j \<longleftrightarrow> bit (sl_bitmaps h ! i0) j \<and> sl \<le> j" if "j < 32" for j
    using that bit_low_mask [OF m(3), of j] by (auto simp: sm_def bit_and_iff bit_not_iff)
  have fmb: "bit fm i \<longleftrightarrow> bit (fl_bitmap h) i \<and> i < 22 \<and> i0 < i" if "i < 32" for i
    using that bit_low_mask [of 22 i] bit_low_mask [of "i0 + 1" i] i0(1)
    by (auto simp: fm_def bit_and_iff bit_not_iff)
  have idx: "i * 32 + j < 704" if "i < 22" "j < 32" for i j :: nat
    using that by linarith
  have F: "find_suitable_block h s =
     (if sm \<noteq> 0 then do { idx \<leftarrow> list_index (i0 + 5) (trailing_zeros sm); Some (free_lists h ! idx) }
      else if fm \<noteq> 0 then (if sl_bitmaps h ! trailing_zeros fm \<noteq> 0
             then do { idx \<leftarrow> list_index (trailing_zeros fm + 5) (trailing_zeros (sl_bitmaps h ! trailing_zeros fm));
                       Some (free_lists h ! idx) } else Some 0)
      else Some 0)"
    using m i0 assms(2) unfolding find_suitable_block_def sm_def fm_def heap_consts by (simp add: Let_def)
  consider (same) "sm \<noteq> 0" | (higher) "sm = 0" "fm \<noteq> 0" | (none) "sm = 0" "fm = 0"
    by blast
  then show thesis
  proof cases
    case same
    let ?j = "trailing_zeros sm"
    have j: "?j < 32" "bit sm ?j"
      using trailing_zeros_bit [OF same] by auto
    have "list_index (i0 + 5) ?j = Some (i0 * 32 + ?j)"
      using i0(1) j(1) by (simp add: list_index_def heap_consts)
    then have "find_suitable_block h s = Some (free_lists h ! (i0 * 32 + ?j))"
      using F same by simp
    moreover have "sl \<le> ?j" "free_lists h ! (i0 * 32 + ?j) \<noteq> 0"
      using smb [OF j(1)] j slb [OF i0(1) j(1)] by auto
    ultimately show thesis
      using that i0 idx [OF i0(1) j(1)] by fastforce
  next
    case higher
    let ?i = "trailing_zeros fm"
    let ?j = "trailing_zeros (sl_bitmaps h ! ?i)"
    have i: "?i < 22" "i0 < ?i" "bit (fl_bitmap h) ?i"
      using trailing_zeros_bit [OF higher(2)] fmb by auto
    then have nz: "sl_bitmaps h ! ?i \<noteq> 0"
      using flb by simp
    then have j: "?j < 32" "free_lists h ! (?i * 32 + ?j) \<noteq> 0"
      using trailing_zeros_bit [OF nz] slb [OF i(1)] by auto
    have "list_index (?i + 5) ?j = Some (?i * 32 + ?j)"
      using i(1) j(1) by (simp add: list_index_def heap_consts)
    then have "find_suitable_block h s = Some (free_lists h ! (?i * 32 + ?j))"
      using F higher nz by simp
    moreover have "start_class s \<le> ?i * 32 + ?j"
      using i(2) i0(2) m(3) by linarith
    ultimately show thesis
      using that j idx [OF i(1) j(1)] by fastforce
  next
    case none
    have "free_lists h ! k = 0" if k: "start_class s \<le> k" "k < 704" for k
    proof (rule ccontr)
      assume "free_lists h ! k \<noteq> 0"
      moreover have kk: "k div 32 < 22" "k mod 32 < 32" "k div 32 * 32 + k mod 32 = k"
        using k(2) by auto
      ultimately have b: "bit (sl_bitmaps h ! (k div 32)) (k mod 32)"
        using slb [OF kk(1,2)] by simp
      show False
      proof (cases "k div 32 = i0")
        case True
        then have "sl \<le> k mod 32"
          using k(1) i0(2) kk(3) by linarith
        then show False
          using smb [OF kk(2)] b True none(1) by simp
      next
        case False
        then have "i0 < k div 32"
          using k(1) i0(2) kk(3) m(3) by linarith
        moreover have "bit (fl_bitmap h) (k div 32)"
          using flb [OF kk(1)] b by auto
        ultimately show False
          using fmb [of "k div 32"] kk(1) none(2) by simp
      qed
    qed
    then show thesis
      using that F none by simp
  qed
qed

lemma found_block:
  assumes "heap_geometry h" "lists_ok h F" "c = free_lists h ! i" "i < 704" "c \<noteq> 0"
  obtains s where "(c, s) \<in> F" "class_of s = i"
proof -
  obtain xs where "chain (memory h) c xs" "set xs = {b. \<exists>s. (b, s) \<in> F \<and> class_of s = i}"
    using lists_okD(4) [OF assms(2,4)] assms(3) by auto
  then show thesis
    using chain_head [of "memory h" c xs] assms(5) that by auto
qed

lemma empty_lists:
  assumes "lists_ok h F" "(b, s) \<in> F" "free_lists h ! class_of s = 0" "class_of s < 704"
  shows False
proof -
  obtain xs where "chain (memory h) 0 xs" "set xs = {b. \<exists>t. (b, t) \<in> F \<and> class_of t = class_of s}"
    using lists_okD(4) [OF assms(1,4)] assms(3) by auto
  then show False
    using assms(2) chain_0_iff by fastforce
qed

end
