(* ===== verification/Heap_Blocks.thy ===== *)
theory Heap_Blocks
  imports Heap_Lists
begin

text \<open>
  The physical blocks of the kernel heap: how they tile it, what an allocated block holds, and that
  carving an allocation out of a free block keeps the heap well formed.
\<close>

unbundle bit_operations_syntax

section \<open>The blocks of the heap\<close>

text \<open>A block: its address, its size and its owner, the payload address and requested size of the
  allocation it was given to, or none for a free block.\<close>

type_synonym block = "nat \<times> nat \<times> (nat \<times> nat) option"

text \<open>The blocks tile the range from \<open>a\<close> to \<open>e\<close>, each recording its size, its state and the block before
  it in its header.\<close>

fun phys :: "(nat \<Rightarrow> nat) \<Rightarrow> nat \<Rightarrow> nat \<Rightarrow> block list \<Rightarrow> nat \<Rightarrow> bool" where
  "phys m p a [] e \<longleftrightarrow> a = e"
| "phys m p a ((b, s, w) # bs) e \<longleftrightarrow>
     b = a \<and> m a = s + of_bool (w \<noteq> None) \<and> m (a + 8) = p \<and> 16 dvd a \<and> 16 dvd s \<and> 32 \<le> s \<and>
     phys m a (a + s) bs e"

text \<open>The payload of an allocated block lies in it, before the canary, and is found from the header or
  through the forwarding pointer.\<close>

definition owner_ok :: "(nat \<Rightarrow> nat) \<Rightarrow> block \<Rightarrow> bool" where
  "owner_ok m x \<longleftrightarrow> (case x of (b, s, w) \<Rightarrow> case w of None \<Rightarrow> True
     | Some (p, n) \<Rightarrow> (p = b + 16 \<or> p = b + 32 \<and> m (b + 16) = b) \<and> p + n + 8 \<le> b + s \<and>
         m (b + s - 8) = CANARY_VALUE)"

definition free_set :: "block list \<Rightarrow> (nat \<times> nat) set" where
  "free_set bs = {(b, s). (b, s, None) \<in> set bs}"

definition free_bytes :: "block list \<Rightarrow> nat" where
  "free_bytes bs = sum_list (map (\<lambda>(b, s, w). if w = None then s else 0) bs)"

definition heap_ok :: "heap \<Rightarrow> block list \<Rightarrow> bool" where
  "heap_ok h bs \<longleftrightarrow> heap_geometry h \<and> phys (memory h) 0 (heap_base h) bs (heap_end h) \<and>
     (\<forall>x \<in> set bs. owner_ok (memory h) x) \<and> lists_ok h (free_set bs) \<and> available h = free_bytes bs"

definition last_addr :: "nat \<Rightarrow> block list \<Rightarrow> nat" where
  "last_addr p bs = (if bs = [] then p else fst (last bs))"

lemma last_addr_simps [simp]:
  "last_addr p [] = p" "last_addr p ((b, s, w) # bs) = last_addr b bs" "last_addr p (xs @ [(b, s, w)]) = b"
  by (simp_all add: last_addr_def)

lemma phys_append:
  "phys m p a (xs @ ys) e \<longleftrightarrow> (\<exists>c. phys m p a xs c \<and> phys m (last_addr p xs) c ys e)"
  by (induction m p a xs e rule: phys.induct) auto

lemma phys_le: "phys m p a bs e \<Longrightarrow> a \<le> e"
  by (induction m p a bs e rule: phys.induct) auto

lemma phys_bounds: "phys m p a bs e \<Longrightarrow> (b, s, w) \<in> set bs \<Longrightarrow> a \<le> b \<and> b + s \<le> e \<and> 16 dvd b \<and> 16 dvd s \<and> 32 \<le> s"
proof (induction m p a bs e rule: phys.induct)
  case (2 m p a b' s' w' bs e)
  then show ?case
    using phys_le [of m a "a + s'" bs e] by auto
qed simp

lemma phys_header: "phys m p a bs e \<Longrightarrow> (b, s, w) \<in> set bs \<Longrightarrow> m b = s + of_bool (w \<noteq> None)"
  by (induction m p a bs e rule: phys.induct) auto

lemma phys_frame:
  "(\<And>b s w. (b, s, w) \<in> set bs \<Longrightarrow> m' b = m b \<and> m' (b + 8) = m (b + 8)) \<Longrightarrow> phys m' p a bs e = phys m p a bs e"
proof (induction m p a bs e rule: phys.induct)
  case (2 m p a b s w bs e)
  have "m' b = m b" "m' (b + 8) = m (b + 8)"
    using 2(2) [of b s w] by simp_all
  moreover have "phys m' a (a + s) bs e = phys m a (a + s) bs e"
    using 2 by (meson list.set_intros(2))
  ultimately show ?case
    by auto
qed simp

lemma phys_apart:
  "phys m p a bs e \<Longrightarrow> (b, s, w) \<in> set bs \<Longrightarrow> (c, t, v) \<in> set bs \<Longrightarrow> (b, s, w) \<noteq> (c, t, v) \<Longrightarrow> apart (b, s) (c, t)"
proof (induction m p a bs e rule: phys.induct)
  case (2 m p a b' s' w' bs e)
  then show ?case
    using phys_bounds [of m a "a + s'" bs e] unfolding apart_def by fastforce
qed simp

lemma phys_split_apart:
  assumes "phys m p a (xs @ (b, s, w) # ys) e"
  shows "(c, t, v) \<in> set xs \<Longrightarrow> c + t \<le> b" "(c, t, v) \<in> set ys \<Longrightarrow> b + s \<le> c"
proof -
  have x: "phys m p a xs b" "phys m b (b + s) ys e"
    using assms by (auto simp: phys_append)
  show "(c, t, v) \<in> set xs \<Longrightarrow> c + t \<le> b" "(c, t, v) \<in> set ys \<Longrightarrow> b + s \<le> c"
    using phys_bounds [OF x(1)] phys_bounds [OF x(2)] by auto
qed

lemma phys_block_at:
  assumes "heap_geometry h" "phys m 0 (heap_base h) bs (heap_end h)" "(b, s, w) \<in> set bs"
  shows "block_at h b s"
  using assms phys_bounds [OF assms(2,3)] by (auto simp: block_at_def heap_geometry_def)

text \<open>A new block before the first one of a range.\<close>

lemma phys_new_prev:
  assumes "phys m p a bs e" "bs \<noteq> [] \<Longrightarrow> m' (a + 8) = p'"
    and "\<And>b s w. (b, s, w) \<in> set bs \<Longrightarrow> m' b = m b" "\<And>b s w. (b, s, w) \<in> set bs \<Longrightarrow> b \<noteq> a \<Longrightarrow> m' (b + 8) = m (b + 8)"
  shows "phys m' p' a bs e"
proof (cases bs)
  case (Cons x ys)
  obtain b s w where x: "x = (b, s, w)"
    by (cases x)
  have ys: "phys m a (a + s) ys e"
    using assms(1) Cons x by simp
  have "phys m' a (a + s) ys e = phys m a (a + s) ys e"
  proof (rule phys_frame)
    fix c t v
    assume c: "(c, t, v) \<in> set ys"
    then have "a + s \<le> c" "0 < s"
      using phys_bounds [OF ys c] assms(1) Cons x by auto
    then show "m' c = m c \<and> m' (c + 8) = m (c + 8)"
      using assms(3,4) [of c t v] c Cons by auto
  qed
  moreover have "m' b = m b" "m' (a + 8) = p'"
    using assms(2) assms(3) [of b s w] Cons x by auto
  ultimately show ?thesis
    using assms(1) Cons x ys by simp
qed (use assms in simp)

lemma free_set_append [simp]: "free_set (xs @ ys) = free_set xs \<union> free_set ys"
  by (auto simp: free_set_def)

lemma free_set_Cons [simp]:
  "free_set ((b, s, None) # ys) = insert (b, s) (free_set ys)"
  "free_set ((b, s, Some w) # ys) = free_set ys" "free_set [] = {}"
  by (auto simp: free_set_def)

lemma free_bytes_simps [simp]:
  "free_bytes [] = 0" "free_bytes ((b, s, None) # bs) = s + free_bytes bs"
  "free_bytes ((b, s, Some w) # bs) = free_bytes bs" "free_bytes (xs @ ys) = free_bytes xs + free_bytes ys"
  by (simp_all add: free_bytes_def)

lemma free_set_mem: "(b, s) \<in> free_set bs \<longleftrightarrow> (b, s, None) \<in> set bs"
  by (simp add: free_set_def)

text \<open>Writes inside free blocks, behind their headers, change nothing the allocator relies on.\<close>

definition free_words :: "block list \<Rightarrow> nat set" where
  "free_words bs = (\<Union>(b, s) \<in> free_set bs. {b + 16..<b + s})"

lemma links_free_words:
  assumes "phys m p a bs e"
  shows "{x + 16 | x. \<exists>t. (x, t) \<in> free_set bs} \<subseteq> free_words bs"
proof
  fix y
  assume "y \<in> {x + 16 | x. \<exists>t. (x, t) \<in> free_set bs}"
  then obtain x t where x: "y = x + 16" "(x, t) \<in> free_set bs"
    by blast
  then have "32 \<le> t"
    using phys_bounds [OF assms] by (auto simp: free_set_mem)
  then have "y \<in> {x + 16..<x + t}"
    using x by simp
  then show "y \<in> free_words bs"
    unfolding free_words_def using x(2) by blast
qed

lemma free_words_not_header:
  assumes "phys m p a bs e" "(b, s, w) \<in> set bs" "k < 16"
  shows "b + k \<notin> free_words bs"
proof
  assume "b + k \<in> free_words bs"
  then obtain c t where c: "(c, t, None) \<in> set bs" "c + 16 \<le> b + k" "b + k < c + t"
    by (auto simp: free_words_def free_set_mem)
  have "(b, s, w) = (c, t, None) \<or> apart (b, s) (c, t)"
    using phys_apart [OF assms(1,2) c(1)] by blast
  then show False
    using c assms(3) phys_bounds [OF assms(1,2)] phys_bounds [OF assms(1) c(1)] by (auto simp: apart_def)
qed

lemma free_words_not_used:
  assumes "phys m p a bs e" "(b, s, Some w) \<in> set bs" "b \<le> x" "x < b + s"
  shows "x \<notin> free_words bs"
proof
  assume "x \<in> free_words bs"
  then obtain c t where c: "(c, t, None) \<in> set bs" "c + 16 \<le> x" "x < c + t"
    by (auto simp: free_words_def free_set_mem)
  have "apart (b, s) (c, t)"
    using phys_apart [OF assms(1,2) c(1)] by blast
  then show False
    using c assms(3,4) by (auto simp: apart_def)
qed

lemma free_writes:
  assumes "phys (memory h) p a bs e" "\<forall>x \<in> set bs. owner_ok (memory h) x" "same_but W h h'" "W \<subseteq> free_words bs"
  shows "phys (memory h') p a bs e" "\<forall>x \<in> set bs. owner_ok (memory h') x"
proof -
  have m: "memory h' x = memory h x" if "x \<notin> free_words bs" for x
    using same_but_memory [OF assms(3)] assms(4) that by blast
  have "memory h' b = memory h b \<and> memory h' (b + 8) = memory h (b + 8)" if "(b, s, w) \<in> set bs" for b s w
    using m free_words_not_header [OF assms(1) that, of 0] free_words_not_header [OF assms(1) that, of 8] by simp
  then show "phys (memory h') p a bs e"
    using phys_frame [of bs "memory h'" "memory h" p a e] assms(1) by blast
  show "\<forall>x \<in> set bs. owner_ok (memory h') x"
  proof
    fix x
    assume x: "x \<in> set bs"
    obtain b s w where e: "x = (b, s, w)"
      by (cases x)
    show "owner_ok (memory h') x"
    proof (cases w)
      case (Some w')
      have s: "32 \<le> s"
        using phys_bounds [OF assms(1)] x e by auto
      then have "memory h' (b + 16) = memory h (b + 16)" "memory h' (b + s - 8) = memory h (b + s - 8)"
        using m free_words_not_used [OF assms(1), of b s w'] x e Some by auto
      then show ?thesis
        using assms(2) x e Some by (auto simp: owner_ok_def)
    qed (simp add: owner_ok_def e)
  qed
qed

section \<open>Single writes\<close>

definition put :: "nat \<Rightarrow> nat \<Rightarrow> heap \<Rightarrow> heap" where
  "put a v h = h\<lparr>memory := (memory h)(a := v)\<rparr>"

lemma put_simps [simp]:
  "memory (put a v h) = (memory h)(a := v)" "heap_base (put a v h) = heap_base h"
  "initialized (put a v h) = initialized h" "heap_start (put a v h) = heap_start h" "heap_end (put a v h) = heap_end h" "available (put a v h) = available h"
  "free_lists (put a v h) = free_lists h" "sl_bitmaps (put a v h) = sl_bitmaps h" "fl_bitmap (put a v h) = fl_bitmap h"
  "word_at (put a v h) x = word_at h x" "block_at (put a v h) b s = block_at h b s"
  "heap_geometry (put a v h) = heap_geometry h"
  by (simp_all add: put_def word_at_def block_at_def heap_geometry_def)

lemma same_but_put: "same_but {a} h (put a v h)"
  by (simp add: same_but_def put_def)

lemma same_but_put': "same_but W h h' \<Longrightarrow> a \<in> W \<Longrightarrow> same_but W h (put a v h')"
  by (auto simp: same_but_def put_def)

lemma store_put: "word_at h a \<Longrightarrow> store a v h = Some (put a v h)"
  by (simp add: store_def put_def)

lemma set_size_clear:
  assumes "word_at h b" "s mod 2 = 0"
  shows "Option.bind (block_set_size b s h) (\<lambda>h1. Option.bind (block_clear_used b h1) f) = f (put b s h)"
proof -
  have "without_flag (with_flag s) = s" "without_flag s = s"
    using assms(2) by (simp_all add: without_flag_def with_flag_def mod_Suc)
  then show ?thesis
    using assms(1)
    by (cases "memory h b mod 2 = 0")
      (simp_all add: block_set_size_def block_clear_used_def block_raw_size_def load_def store_def word_at_def put_def)
qed

lemma set_size_used:
  assumes "word_at h b" "s mod 2 = 0"
  shows "Option.bind (block_set_size b s h) (\<lambda>h1. Option.bind (block_set_used b h1) f) = f (put b (s + 1) h)"
proof -
  have "with_flag (with_flag s) = s + 1" "with_flag s = s + 1"
    using assms(2) by (simp_all add: with_flag_def mod_Suc)
  then show ?thesis
    using assms(1)
    by (cases "memory h b mod 2 = 0")
      (simp_all add: block_set_size_def block_set_used_def block_raw_size_def load_def store_def word_at_def put_def)
qed

lemma lists_ok_put:
  assumes "lists_ok h F" "a mod 16 = 8 \<or> (\<forall>(b, s) \<in> F. a \<notin> {b..<b + s})"
  shows "lists_ok (put a v h) F"
proof (rule lists_ok_frame [OF assms(1) same_but_put])
  fix b s
  assume bs: "(b, s) \<in> F"
  then have b: "16 dvd b" "32 \<le> s"
    using lists_okD(1) [OF assms(1)] by (auto simp: block_at_def)
  from assms(2) show "b \<notin> {a} \<and> b + 16 \<notin> {a}"
  proof
    assume "a mod 16 = 8"
    moreover have "b mod 16 = 0" "(b + 16) mod 16 = 0"
      using b(1) by (simp_all add: mod_eq_0_iff_dvd)
    ultimately show ?thesis
      by (metis singletonD zero_neq_numeral)
  next
    assume "\<forall>(b, s) \<in> F. a \<notin> {b..<b + s}"
    then show ?thesis
      using bs b(2) by auto
  qed
qed simp_all

lemma wrapping_sub_le: "y \<le> x \<Longrightarrow> x < USIZE_LIMIT \<Longrightarrow> wrapping_sub x y = x - y"
proof -
  assume a: "y \<le> x" "x < USIZE_LIMIT"
  then have "x + (USIZE_LIMIT - y) = USIZE_LIMIT + (x - y)"
    by linarith
  then show ?thesis
    unfolding wrapping_sub_def using a by (metis less_imp_diff_less mod_add_self1 mod_less)
qed

section \<open>Carving an allocation out of a free block\<close>

text \<open>A free block that left its list, and where an allocation goes in it.\<close>

definition room :: "heap \<Rightarrow> nat \<Rightarrow> nat \<Rightarrow> nat \<Rightarrow> nat \<Rightarrow> bool" where
  "room h c s ah ae \<longleftrightarrow> heap_geometry h \<and> block_at h c s \<and> c \<le> ah \<and> 16 dvd ah \<and> 16 dvd ae \<and> ah + 32 \<le> ae \<and> ae \<le> c + s"

definition alloc_limit :: "nat \<Rightarrow> nat \<Rightarrow> nat \<Rightarrow> nat" where
  "alloc_limit c s ae = (if 32 \<le> c + s - ae then ae else c + s)"

definition alloc_from :: "nat \<Rightarrow> nat \<Rightarrow> nat" where
  "alloc_from c ah = (if 32 \<le> ah - c then ah else c)"

lemma roomD:
  assumes "room h c s ah ae"
  shows "heap_geometry h" "block_at h c s" "c \<le> ah" "16 dvd ah" "16 dvd ae" "ah + 32 \<le> ae" "ae \<le> c + s"
    "16 dvd c" "16 dvd s" "c + s < USIZE_LIMIT" "16 dvd alloc_limit c s ae" "ah + 32 \<le> alloc_limit c s ae"
    "alloc_limit c s ae \<le> c + s" "16 dvd alloc_from c ah" "alloc_from c ah \<le> ah" "c \<le> alloc_from c ah"
    "16 dvd (ah - c)" "16 dvd (alloc_limit c s ae - alloc_from c ah)" "16 dvd (c + s - ae)"
  using assms by (auto simp: room_def block_at_def heap_geometry_def alloc_limit_def alloc_from_def intro: dvd_diff_nat)

lemma room_same_but: "same_but W h h' \<Longrightarrow> room h c s ah ae \<Longrightarrow> room h' c s ah ae"
  by (simp add: room_def same_but_block_at same_but_geometry)

lemma room_words:
  assumes "room h c s ah ae" "c \<le> a" "a < c + s" "8 dvd a"
  shows "word_at h a"
proof -
  obtain q r where "c = 16 * q" "s = 16 * r" "a = 8 * (a div 8)"
    using roomD(8,9) [OF assms(1)] assms(4) by (auto elim!: dvdE)
  then have "a + 8 \<le> c + s"
    using assms(3) by presburger
  then show ?thesis
    using roomD(2) [OF assms(1)] assms by (simp add: word_at_def block_at_def)
qed

lemma even_of_16: "16 dvd (x :: nat) \<Longrightarrow> x mod 2 = 0"
  by (auto elim!: dvdE)

lemma eight_of_16: "16 dvd (x :: nat) \<Longrightarrow> 8 dvd x" "16 dvd x \<Longrightarrow> 8 dvd x + 8"
  by (auto elim!: dvdE)

lemma carve_prefix_ok:
  assumes r: "room h c s ah ae" and l: "lists_ok h F" and ap: "\<And>y. y \<in> F \<Longrightarrow> apart (c, s) y"
  obtains h1 where "carve_prefix c ah (alloc_limit c s ae) h =
      Some (alloc_from c ah, alloc_limit c s ae - alloc_from c ah, h1)"
    "lists_ok h1 (F \<union> (if 32 \<le> ah - c then {(c, ah - c)} else {}))" "same_but {c..<ah + 8} h h1"
    "memory h1 (alloc_from c ah) = alloc_limit c s ae - alloc_from c ah + 1"
    "32 \<le> ah - c \<Longrightarrow> memory h1 c = ah - c" "alloc_from c ah \<noteq> ah \<Longrightarrow> memory h1 ah = c \<and> ah = c + 16"
    "memory h1 (c + 8) = memory h (c + 8)"
proof -
  note R = roomD [OF r]
  let ?af = "alloc_limit c s ae"
  have lim: "ah < USIZE_LIMIT" "?af < USIZE_LIMIT"
    using R by linarith+
  have w: "word_at h c" "word_at h ah"
    using room_words [OF r] R eight_of_16 by auto
  have sub: "wrapping_sub ah c = ah - c" "wrapping_sub ?af ah = ?af - ah" "wrapping_sub ?af c = ?af - c"
    using wrapping_sub_le R lim by auto
  have even: "(ah - c) mod 2 = 0" "(?af - ah) mod 2 = 0" "(?af - c) mod 2 = 0"
    using R even_of_16 by (auto intro!: even_of_16 dvd_diff_nat)
  have away: "\<forall>(b, t) \<in> F. a \<notin> {b..<b + t}" if "c \<le> a" "a < c + s" for a
    using ap that by (fastforce simp: apart_def)
  have inside: "c < c + s" "c \<le> ah" "ah < c + s"
    using R by linarith+
  consider (pre) "32 \<le> ah - c" | (gap) "0 < ah - c" "ah - c < 32" | (none) "ah = c"
    using R(3) by linarith
  then show thesis
  proof cases
    case pre
    define h0 where "h0 = put c (ah - c) h"
    have g0: "heap_geometry h0" "block_at h0 c (ah - c)" "memory h0 c = ah - c"
      using R pre by (auto simp: h0_def block_at_def)
    have l0: "lists_ok h0 F"
      unfolding h0_def using inside by (intro lists_ok_put [OF l] disjI2 away) simp_all
    have ap0: "apart (c, ah - c) y" if "y \<in> F" for y
      using ap [OF that] R by (auto simp: apart_def)
    obtain h1 where h1: "insert_free_block c h0 = Some h1" "lists_ok h1 (insert (c, ah - c) F)"
      "same_but {c + 16..<c + (ah - c)} h0 h1"
      using insert_free_block_ok [OF g0(1) l0 g0(2,3) ap0] by blast
    define h2 where "h2 = put ah (?af - ah + 1) h1"
    have w1: "word_at h1 ah"
      using w same_but_word_at [OF h1(3)] by (simp add: h0_def)
    have "carve_prefix c ah ?af h = Some (ah, ?af - ah, h2)"
      using pre sub even w w1 h1(1)
      by (simp add: carve_prefix_def heap_consts set_size_clear set_size_used h0_def [symmetric] h2_def Let_def)
    moreover have "lists_ok h2 (insert (c, ah - c) F)"
      unfolding h2_def using away [of ah] inside by (intro lists_ok_put [OF h1(2)] disjI2) auto
    moreover have "same_but {c..<ah + 8} h h2"
      unfolding h2_def
    proof (rule same_but_put')
      have "same_but ({c} \<union> {c + 16..<c + (ah - c)}) h h1"
        using same_but_trans [OF same_but_put h1(3) [unfolded h0_def]] .
      then show "same_but {c..<ah + 8} h h1"
        using R pre by (elim same_but_mono) auto
    qed (use inside in simp)
    moreover have "memory h2 c = ah - c" "memory h2 (c + 8) = memory h (c + 8)"
      using same_but_memory [OF h1(3)] pre by (auto simp: h2_def h0_def)
    moreover have "memory h2 ah = ?af - ah + 1"
      by (simp add: h2_def)
    moreover have "alloc_from c ah = ah"
      using pre by (simp add: alloc_from_def)
    ultimately show thesis
      using pre by (intro that [of h2]) simp_all
  next
    case gap
    have ah: "ah = c + 16"
    proof -
      obtain k where "ah - c = 16 * k"
        using R(17) by (auto elim!: dvdE)
      then show ?thesis
        using gap R(3) by simp
    qed
    define h2 where "h2 = put ah c (put c (?af - c + 1) h)"
    have "carve_prefix c ah ?af h = Some (c, ?af - c, h2)"
      using gap sub even w by (simp add: carve_prefix_def heap_consts set_size_used store_put h2_def Let_def)
    moreover have "lists_ok h2 F"
      unfolding h2_def using inside by (intro lists_ok_put [OF lists_ok_put [OF l]] disjI2 away) simp_all
    moreover have "same_but {c..<ah + 8} h h2"
      unfolding h2_def by (intro same_but_put' same_but_refl) (use inside in simp_all)
    moreover have "memory h2 ah = c" "memory h2 c = ?af - c + 1" "memory h2 (c + 8) = memory h (c + 8)"
      using ah by (simp_all add: h2_def)
    moreover have "alloc_from c ah = c"
      using gap by (simp add: alloc_from_def)
    ultimately show thesis
      using gap ah by (intro that [of h2]) simp_all
  next
    case none
    define h2 where "h2 = put c (?af - c + 1) h"
    have "carve_prefix c ah ?af h = Some (c, ?af - c, h2)"
      using none sub even w by (simp add: carve_prefix_def heap_consts set_size_used h2_def Let_def)
    moreover have "lists_ok h2 F"
      unfolding h2_def using inside by (intro lists_ok_put [OF l] disjI2 away) simp_all
    moreover have "same_but {c..<ah + 8} h h2"
      unfolding h2_def by (intro same_but_put' same_but_refl) (use inside in simp_all)
    moreover have "memory h2 c = ?af - c + 1" "memory h2 (c + 8) = memory h (c + 8)"
      by (simp_all add: h2_def)
    moreover have "alloc_from c ah = c"
      using none by (simp add: alloc_from_def)
    ultimately show thesis
      using none by (intro that [of h2]) simp_all
  qed
qed

lemma carve_suffix_ok:
  assumes r: "room h c s ah ae" and l: "lists_ok h F" and ap: "\<And>y. y \<in> F \<Longrightarrow> apart (ae, c + s - ae) y"
    and big: "32 \<le> c + s - ae"
  obtains h1 where "carve_suffix ae (c + s - ae) a0 h = Some h1" "lists_ok h1 (insert (ae, c + s - ae) F)"
    "same_but {ae..<c + s} h h1" "memory h1 ae = c + s - ae" "memory h1 (ae + 8) = a0"
proof -
  note R = roomD [OF r]
  let ?ss = "c + s - ae"
  have w: "word_at h ae" "word_at h (ae + 8)"
    using room_words [OF r] R big eight_of_16 by auto
  define h0 where "h0 = put (ae + 8) a0 (put ae ?ss h)"
  have g0: "heap_geometry h0" "block_at h0 ae ?ss" "memory h0 ae = ?ss"
    using R big by (auto simp: h0_def block_at_def)
  have "lists_ok (put ae ?ss h) F"
    using ap big by (intro lists_ok_put l) (fastforce simp: apart_def)
  then have l0: "lists_ok h0 F"
    unfolding h0_def using R(5) by (elim lists_ok_put) (auto elim!: dvdE)
  obtain h1 where h1: "insert_free_block ae h0 = Some h1" "lists_ok h1 (insert (ae, ?ss) F)"
    "same_but {ae + 16..<ae + ?ss} h0 h1"
    using insert_free_block_ok [OF g0(1) l0 g0(2,3) ap] by blast
  have "carve_suffix ae ?ss a0 h = Some h1"
    using w h1(1) R(19) even_of_16
    by (simp add: carve_suffix_def set_size_clear block_set_prev_phys_def store_put h0_def)
  moreover have "same_but {ae..<c + s} h h1"
  proof -
    have "same_but {ae..<c + s} h h0"
      unfolding h0_def by (intro same_but_put' same_but_refl) (use big in auto)
    then have "same_but ({ae..<c + s} \<union> {ae + 16..<ae + ?ss}) h h1"
      using same_but_trans h1(3) by blast
    then show ?thesis
      by (rule same_but_mono) auto
  qed
  moreover have "memory h1 ae = ?ss" "memory h1 (ae + 8) = a0"
    using same_but_memory [OF h1(3)] by (auto simp: h0_def)
  ultimately show thesis
    using that h1(2) by blast
qed

lemma set_prev_of_next:
  assumes "heap_geometry h" "block_at h b s" "memory h b = s + of_bool u"
  shows "block_set_prev_phys_of_next b q h = Some (if b + s < heap_end h then put (b + s + 8) q h else h)"
proof -
  have g: "heap_end h = heap_base h + KERNEL_HEAP_SIZE" "16 dvd heap_end h" "heap_end h < USIZE_LIMIT"
    using assms(1) by (auto simp: heap_geometry_def heap_consts)
  have b: "b + s \<le> heap_end h" "16 dvd b + s" "heap_base h \<le> b"
    using assms(2) g(1) by (auto simp: block_at_def)
  have sz: "block_size h b = Some s"
    using block_size_at [OF block_at_words(1) [OF assms(2)] assms(3) block_at_even [OF assms(2)]] .
  have wa: "wrapping_add b s = b + s" "wrapping_add (heap_base h) KERNEL_HEAP_SIZE = heap_end h"
    using wrapping_add_heap [OF assms(1)] b(1) g(1) by auto
  show ?thesis
  proof (cases "b + s < heap_end h")
    case True
    have "b + s + 16 \<le> heap_end h"
      using True b(2) g(2) by (auto elim!: dvdE)
    moreover have "8 dvd b + s + 8"
      using eight_of_16(2) [OF b(2)] .
    ultimately have "word_at h (b + s + 8)" "b + s + 8 \<le> heap_end h" "b + s + 8 < USIZE_LIMIT"
      using b(3) g by (auto simp: word_at_def)
    then show ?thesis
      using True sz wa b(2)
      by (simp add: block_set_prev_phys_of_next_def block_set_prev_phys_def store_put heap_consts Let_def checked_add_def)
  qed (use sz wa in \<open>simp add: block_set_prev_phys_of_next_def Let_def\<close>)
qed

lemma canary_write_at:
  assumes "heap_geometry h" "block_at h b s" "memory h b = s + of_bool u"
  shows "canary_write b h = Some (put (b + s - 8) CANARY_VALUE h)"
proof -
  have sz: "block_size h b = Some s"
    using block_size_at [OF block_at_words(1) [OF assms(2)] assms(3) block_at_even [OF assms(2)]] .
  have wa: "wrapping_add b s = b + s"
    using wrapping_add_heap [OF assms(1)] assms(2) by (simp add: block_at_def)
  have "b + s < USIZE_LIMIT" "8 \<le> b + s"
    using assms(1,2) by (auto simp: block_at_def heap_geometry_def)
  then have "wrapping_sub (b + s) 8 = b + s - 8"
    by (intro wrapping_sub_le)
  then show ?thesis
    using sz wa block_at_words(4) [OF assms(2)] by (simp add: canary_write_def heap_consts store_put)
qed

lemma not_16_of_8: "16 dvd (x :: nat) \<Longrightarrow> (x + 8) mod 16 = 8" "16 dvd x \<Longrightarrow> 16 \<le> x \<Longrightarrow> (x - 8) mod 16 = 8"
proof -
  assume "16 dvd x"
  then obtain k where k: "x = 16 * k"
    by (elim dvdE)
  then show "(x + 8) mod 16 = 8"
    by simp
  assume "16 \<le> x"
  then obtain j where "k = Suc j"
    using k by (cases k) auto
  then show "(x - 8) mod 16 = 8"
    using k by simp
qed

lemma carve_ok:
  assumes r: "room h c s ah ae" and l: "lists_ok h F" and ap: "\<And>y. y \<in> F \<Longrightarrow> apart (c, s) y"
  defines "af \<equiv> alloc_limit c s ae" and "a0 \<equiv> alloc_from c ah"
  obtains h' where "carve c (c + s) ah ae h = Some h'"
    "lists_ok h' (F \<union> (if 32 \<le> ah - c then {(c, ah - c)} else {}) \<union> (if 32 \<le> c + s - ae then {(ae, c + s - ae)} else {}))"
    "heap_geometry h'" "heap_base h' = heap_base h" "available h' = available h - (af - a0)"
    "\<And>a. a \<notin> {c..<c + s} \<Longrightarrow> a \<noteq> c + s + 8 \<Longrightarrow> memory h' a = memory h a"
    "c + s < heap_end h \<Longrightarrow> memory h' (c + s + 8) = (if 32 \<le> c + s - ae then ae else a0)"
    "memory h' a0 = af - a0 + 1" "memory h' (af - 8) = CANARY_VALUE" "memory h' (c + 8) = memory h (c + 8)"
    "32 \<le> ah - c \<Longrightarrow> memory h' c = ah - c \<and> memory h' (ah + 8) = c" "a0 \<noteq> ah \<Longrightarrow> memory h' ah = c \<and> ah = c + 16"
    "32 \<le> c + s - ae \<Longrightarrow> memory h' ae = c + s - ae \<and> memory h' (ae + 8) = a0"
proof -
  note R = roomD [OF r, folded af_def a0_def]
  let ?P = "if 32 \<le> ah - c then {(c, ah - c)} else {}"
  let ?S = "if 32 \<le> c + s - ae then {(ae, c + s - ae)} else {}"
  obtain hA where A: "carve_prefix c ah af h = Some (a0, af - a0, hA)" "lists_ok hA (F \<union> ?P)" "same_but {c..<ah + 8} h hA"
    "memory hA a0 = af - a0 + 1" "32 \<le> ah - c \<Longrightarrow> memory hA c = ah - c" "a0 \<noteq> ah \<Longrightarrow> memory hA ah = c \<and> ah = c + 16"
    "memory hA (c + 8) = memory h (c + 8)"
    by (rule carve_prefix_ok [OF r l ap, folded af_def a0_def]) (assumption, rule that)
  have rA: "room hA c s ah ae"
    using room_same_but [OF A(3) r] .
  obtain hB where B: "(if 32 \<le> c + s - ae then carve_suffix ae (c + s - ae) a0 hA else Some hA) = Some hB"
    "lists_ok hB (F \<union> ?P \<union> ?S)" "same_but {ae..<c + s} hA hB"
    "32 \<le> c + s - ae \<Longrightarrow> memory hB ae = c + s - ae \<and> memory hB (ae + 8) = a0"
  proof (cases "32 \<le> c + s - ae")
    case True
    have "apart (ae, c + s - ae) y" if "y \<in> F \<union> ?P" for y
      using ap [of y] that R by (auto simp: apart_def split: if_splits)
    then obtain hB where "carve_suffix ae (c + s - ae) a0 hA = Some hB" "lists_ok hB (insert (ae, c + s - ae) (F \<union> ?P))"
      "same_but {ae..<c + s} hA hB" "memory hB ae = c + s - ae" "memory hB (ae + 8) = a0"
      using carve_suffix_ok [OF rA A(2) _ True, of a0] by blast
    then show thesis
      using True by (intro that [of hB]) simp_all
  qed (use that A(2) in simp)
  have rB: "room hB c s ah ae"
    using room_same_but [OF B(3) rA] .
  define hC where "hC = (if 32 \<le> ah - c then put (ah + 8) c hB else hB)"
  define q where "q = (if 32 \<le> c + s - ae then ae else a0)"
  define hD where "hD = (if c + s < heap_end h then put (c + s + 8) q hC else hC)"
  define hE where "hE = put (af - 8) CANARY_VALUE hD"
  have endB: "heap_end hB = heap_end h" "heap_base hB = heap_base h" "available hB = available h"
    using A(3) B(3) by (simp_all add: same_but_def)
  have memB: "memory hB a = memory hA a" if "a < ae" for a
    using same_but_memory [OF B(3)] that by simp
  have gB: "heap_geometry hB" "block_at hB c s"
    using roomD [OF rB] by auto
  have gC: "heap_geometry hC" "\<And>x y. block_at hC x y = block_at hB x y" "heap_end hC = heap_end h"
    using gB endB by (simp_all add: hC_def)
  have gD: "heap_geometry hD" "\<And>x y. block_at hD x y = block_at hB x y"
    using gC by (simp_all add: hD_def)
  have order: "a0 < ae" "c \<le> a0" "a0 + 32 \<le> af" "af \<le> c + s" "c + 8 < ah + 16" "ah + 8 < ae" "ae \<le> af"
    using R by (auto simp: af_def alloc_limit_def)
  have a0: "memory hB a0 = af - a0 + 1"
    using memB [OF order(1)] A(4) by simp
  have p8: "(ah + 8) mod 16 = 8" "(c + s + 8) mod 16 = 8" "(af - 8) mod 16 = 8" "(c + 8) mod 16 = 8" "(ae + 8) mod 16 = 8"
    using not_16_of_8 R order by auto
  have p0: "c mod 16 = 0" "ah mod 16 = 0" "a0 mod 16 = 0" "ae mod 16 = 0"
    using R by (simp_all add: mod_eq_0_iff_dvd)
  have ne: "x \<noteq> y" if "x mod 16 = 8" "y mod 16 = 0" for x y :: nat
    using that by auto
  have stepC: "(if 32 \<le> ah - c then block_set_prev_phys ah c hB else Some hB) = Some hC"
  proof -
    have "word_at hB (ah + 8)"
      using room_words [OF rB, of "ah + 8"] R order eight_of_16 by auto
    then show ?thesis
      by (simp add: hC_def block_set_prev_phys_def store_put)
  qed
  have stepD: "(if 32 \<le> c + s - ae then block_set_prev_phys_of_next ae ae hC
                else if c + s < heap_end hC then block_set_prev_phys (c + s) a0 hC else Some hC) = Some hD"
  proof (cases "32 \<le> c + s - ae")
    case True
    have "memory hC ae = c + s - ae"
      using B(4) [OF True] ne [OF p8(1) p0(4)] by (simp add: hC_def)
    moreover have "block_at hC ae (c + s - ae)"
      using gB(2) R True unfolding gC(2) by (auto simp: block_at_def)
    ultimately show ?thesis
      using set_prev_of_next [OF gC(1), of ae "c + s - ae" False ae] True R(7) by (simp add: hD_def q_def gC(3))
  next
    case False
    have "word_at hC (c + s + 8)" if "c + s < heap_end h"
    proof -
      have "heap_end h = heap_base h + KERNEL_HEAP_SIZE" "16 dvd heap_end h" "16 dvd c + s"
        using R(1,2) by (auto simp: heap_geometry_def block_at_def heap_consts)
      moreover have "c + s + 16 \<le> heap_end h"
        using that calculation by (auto elim!: dvdE)
      ultimately show ?thesis
        using R(2) eight_of_16(2) [of "c + s"] endB(2) by (auto simp: word_at_def block_at_def hC_def)
    qed
    then show ?thesis
      using False by (simp add: hD_def q_def gC(3) block_set_prev_phys_def store_put)
  qed
  have a0D: "memory hD a0 = af - a0 + 1"
    using a0 ne [OF p8(1) p0(3)] ne [OF p8(2) p0(3)] by (auto simp: hD_def hC_def)
  have blkD: "block_at hD a0 (af - a0)"
    using gB(2) R order unfolding gD(2) by (auto simp: block_at_def)
  have stepE: "canary_write a0 hD = Some hE"
    using canary_write_at [OF gD(1) blkD, of True] a0D order by (simp add: hE_def)
  have sub: "wrapping_sub ah c = ah - c" "wrapping_sub (c + s) ae = c + s - ae"
    using R by (auto intro!: wrapping_sub_le)
  define h' where "h' = hE\<lparr>available := available hE - (af - a0)\<rparr>"
  have "carve c (c + s) ah ae h = Some h'"
    using A(1) B(1) stepC stepD stepE sub
    by (simp add: carve_def heap_consts Let_def af_def alloc_limit_def h'_def saturating_sub_def)
  moreover have "lists_ok h' (F \<union> ?P \<union> ?S)"
  proof -
    define G where "G = F \<union> ?P \<union> ?S"
    have "lists_ok hB G"
      using B(2) unfolding G_def .
    then have "lists_ok hC G"
      using lists_ok_put p8(1) by (simp add: hC_def)
    then have "lists_ok hD G"
      using lists_ok_put p8(2) by (simp add: hD_def)
    then have "lists_ok hE G"
      using lists_ok_put p8(3) by (simp add: hE_def)
    then show ?thesis
      unfolding G_def [symmetric] by (simp add: h'_def lists_ok_def block_at_def)
  qed
  moreover have "heap_geometry h'"
    using gD(1) by (simp add: h'_def hE_def heap_geometry_def)
  moreover have "heap_base h' = heap_base h" "available h' = available h - (af - a0)"
    using endB by (simp_all add: h'_def hE_def hD_def hC_def)
  moreover have "memory h' a = memory h a" if a: "a \<notin> {c..<c + s}" "a \<noteq> c + s + 8" for a
  proof -
    have "memory hB a = memory h a"
      using same_but_memory [OF B(3), of a] same_but_memory [OF A(3), of a] a order by auto
    moreover have "a \<noteq> ah + 8" "a \<noteq> af - 8"
      using a R order by auto
    ultimately show ?thesis
      using a(2) by (simp add: h'_def hE_def hD_def hC_def)
  qed
  moreover have "memory h' (c + s + 8) = q" if "c + s < heap_end h"
    using that order by (auto simp: h'_def hE_def hD_def)
  moreover have "memory h' a0 = af - a0 + 1"
    using a0D ne [OF p8(3) p0(3)] by (auto simp: h'_def hE_def)
  moreover have "memory h' (af - 8) = CANARY_VALUE"
    by (simp add: h'_def hE_def)
  moreover have "memory h' (c + 8) = memory h (c + 8)"
  proof -
    have "memory hB (c + 8) = memory h (c + 8)"
      using memB [of "c + 8"] A(7) R by simp
    moreover have "c + 8 \<noteq> af - 8" "32 \<le> ah - c \<longrightarrow> c + 8 \<noteq> ah + 8" "c + 8 \<noteq> c + s + 8"
      using order R by auto
    ultimately show ?thesis
      by (simp add: h'_def hE_def hD_def hC_def)
  qed
  moreover have "memory h' c = ah - c \<and> memory h' (ah + 8) = c" if pre: "32 \<le> ah - c"
  proof -
    have "a0 = ah"
      using pre by (simp add: a0_def alloc_from_def)
    then have "ah + 8 \<noteq> af - 8" "ah + 8 \<noteq> c + s + 8"
      using order by auto
    moreover have "memory hB c = ah - c"
      using A(5) [OF pre] memB [of c] order by simp
    ultimately show ?thesis
      using pre ne [OF p8(1) p0(1)] ne [OF p8(2) p0(1)] ne [OF p8(3) p0(1)]
      by (auto simp: h'_def hE_def hD_def hC_def)
  qed
  moreover have "memory h' ah = c \<and> ah = c + 16" if "a0 \<noteq> ah"
    using A(6) [OF that] memB [of ah] order ne [OF p8(1) p0(2)] ne [OF p8(2) p0(2)] ne [OF p8(3) p0(2)]
    by (auto simp: h'_def hE_def hD_def hC_def)
  moreover have "memory h' ae = c + s - ae \<and> memory h' (ae + 8) = a0" if suf: "32 \<le> c + s - ae"
  proof -
    have "af = ae"
      using suf by (simp add: af_def alloc_limit_def)
    then have "ae + 8 \<noteq> af - 8" "ae + 8 \<noteq> ah + 8" "ae + 8 \<noteq> c + s + 8"
      using order suf by auto
    then show ?thesis
      using B(4) [OF suf] ne [OF p8(1) p0(4)] ne [OF p8(2) p0(4)] ne [OF p8(3) p0(4)]
      by (auto simp: h'_def hE_def hD_def hC_def)
  qed
  ultimately show thesis
    unfolding q_def by (rule that)
qed

definition carved :: "nat \<Rightarrow> nat \<Rightarrow> nat \<Rightarrow> nat \<Rightarrow> nat \<Rightarrow> block list" where
  "carved c s ah ae n =
     (if 32 \<le> ah - c then [(c, ah - c, None)] else []) @
     (alloc_from c ah, alloc_limit c s ae - alloc_from c ah, Some (ah + 16, n)) #
     (if 32 \<le> c + s - ae then [(ae, c + s - ae, None)] else [])"

lemma carved_free:
  "free_set (carved c s ah ae n) =
     (if 32 \<le> ah - c then {(c, ah - c)} else {}) \<union> (if 32 \<le> c + s - ae then {(ae, c + s - ae)} else {})"
  by (simp add: carved_def)

lemma carved_bytes:
  assumes "room h c s ah ae"
  shows "free_bytes (carved c s ah ae n) + (alloc_limit c s ae - alloc_from c ah) = s"
  using roomD [OF assms] by (auto simp: carved_def alloc_limit_def alloc_from_def)

lemma carved_last: "last_addr p (carved c s ah ae n) = (if 32 \<le> c + s - ae then ae else alloc_from c ah)"
  by (auto simp: carved_def last_addr_def)

text \<open>Heaps that agree on the bytes of every allocated block behind its header.\<close>

definition same_payloads :: "block list \<Rightarrow> heap \<Rightarrow> heap \<Rightarrow> bool" where
  "same_payloads bs h h' \<longleftrightarrow>
     (\<forall>b s w a. (b, s, Some w) \<in> set bs \<and> b + 16 \<le> a \<and> a < b + s \<longrightarrow> memory h' a = memory h a)"

lemma same_payloads_owner:
  assumes "same_payloads bs h h'" "owner_ok (memory h) (b, s, w)" "(b, s, w) \<in> set bs" "32 \<le> s"
  shows "owner_ok (memory h') (b, s, w)"
proof (cases w)
  case (Some v)
  then have "memory h' (b + 16) = memory h (b + 16)" "memory h' (b + s - 8) = memory h (b + s - 8)"
    using assms(1) [unfolded same_payloads_def, rule_format, of b s v "b + 16"]
      assms(1) [unfolded same_payloads_def, rule_format, of b s v "b + s - 8"] assms(3,4) by simp_all
  then show ?thesis
    using assms(2) Some by (auto simp: owner_ok_def)
qed (simp add: owner_ok_def)

lemma same_payloads_trans: "same_payloads bs h h' \<Longrightarrow> same_payloads bs h' h'' \<Longrightarrow> same_payloads bs h h''"
  by (auto simp: same_payloads_def)

lemma carve_heap_ok:
  assumes r: "room h c s ah ae" and ph: "phys (memory h) 0 (heap_base h) (xs @ (c, s, None) # ys) (heap_end h)"
    and ow: "\<forall>x \<in> set (xs @ ys). owner_ok (memory h) x" and l: "lists_ok h (free_set (xs @ ys))"
    and av: "available h = free_bytes (xs @ (c, s, None) # ys)" and n: "ah + 16 + n + 8 \<le> ae"
  obtains h' where "carve c (c + s) ah ae h = Some h'" "heap_ok h' (xs @ carved c s ah ae n @ ys)"
    "same_payloads (xs @ ys) h h'" "heap_base h' = heap_base h"
proof -
  note R = roomD [OF r]
  let ?af = "alloc_limit c s ae" and ?a0 = "alloc_from c ah"
  have split: "phys (memory h) 0 (heap_base h) xs c" "memory h (c + 8) = last_addr 0 xs"
    "phys (memory h) c (c + s) ys (heap_end h)"
    using ph by (auto simp: phys_append)
  have ap: "apart (c, s) y" if "y \<in> free_set (xs @ ys)" for y
    using that phys_split_apart [OF ph] by (cases y) (auto simp: free_set_def apart_def)
  obtain h' where H: "carve c (c + s) ah ae h = Some h'"
    "lists_ok h' (free_set (xs @ ys) \<union> (if 32 \<le> ah - c then {(c, ah - c)} else {}) \<union>
       (if 32 \<le> c + s - ae then {(ae, c + s - ae)} else {}))"
    "heap_geometry h'" "heap_base h' = heap_base h" "available h' = available h - (?af - ?a0)"
    and same: "\<And>a. a \<notin> {c..<c + s} \<Longrightarrow> a \<noteq> c + s + 8 \<Longrightarrow> memory h' a = memory h a"
    and nx: "c + s < heap_end h \<Longrightarrow> memory h' (c + s + 8) = (if 32 \<le> c + s - ae then ae else ?a0)"
    and own: "memory h' ?a0 = ?af - ?a0 + 1" "memory h' (?af - 8) = CANARY_VALUE" "memory h' (c + 8) = memory h (c + 8)"
    and pre: "32 \<le> ah - c \<Longrightarrow> memory h' c = ah - c \<and> memory h' (ah + 8) = c"
    and fwd: "?a0 \<noteq> ah \<Longrightarrow> memory h' ah = c \<and> ah = c + 16"
    and suf: "32 \<le> c + s - ae \<Longrightarrow> memory h' ae = c + s - ae \<and> memory h' (ae + 8) = ?a0"
    by (rule carve_ok [OF r l ap]) (assumption, rule that)
  have end': "heap_end h' = heap_end h"
    using H(3,4) R(1) by (simp add: heap_geometry_def)
  have sp: "same_payloads (xs @ ys) h h'"
    unfolding same_payloads_def
  proof (intro allI impI)
    fix b t w a
    assume a: "(b, t, Some w) \<in> set (xs @ ys) \<and> b + 16 \<le> a \<and> a < b + t"
    then have "b + t \<le> c \<or> c + s \<le> b"
      using phys_split_apart [OF ph] by auto
    then show "memory h' a = memory h a"
      using a by (intro same) auto
  qed
  have "heap_ok h' (xs @ carved c s ah ae n @ ys)"
    unfolding heap_ok_def end' H(4)
  proof (intro conjI)
    show "heap_geometry h'"
      by (rule H(3))
    have "phys (memory h') 0 (heap_base h) xs c = phys (memory h) 0 (heap_base h) xs c"
    proof (rule phys_frame)
      fix b t w
      assume "(b, t, w) \<in> set xs"
      then have "b + t \<le> c" "32 \<le> t"
        using phys_bounds [OF split(1)] by auto
      then show "memory h' b = memory h b \<and> memory h' (b + 8) = memory h (b + 8)"
        by (intro conjI same) auto
    qed
    moreover have "phys (memory h') (last_addr 0 xs) c (carved c s ah ae n) (c + s)"
    proof -
      have "?a0 = (if 32 \<le> ah - c then ah else c)" "?af = (if 32 \<le> c + s - ae then ae else c + s)"
        by (simp_all add: alloc_from_def alloc_limit_def)
      then show ?thesis
        using own pre suf split(2) R unfolding carved_def by auto
    qed
    moreover have "phys (memory h') (if 32 \<le> c + s - ae then ae else ?a0) (c + s) ys (heap_end h)"
    proof (rule phys_new_prev [OF split(3)])
      assume "ys \<noteq> []"
      then obtain b t w zs where y: "ys = (b, t, w) # zs"
        by (cases ys) auto
      then have "c + s < heap_end h"
        using phys_bounds [OF split(3), of b t w] by auto
      then show "memory h' (c + s + 8) = (if 32 \<le> c + s - ae then ae else ?a0)"
        by (rule nx)
    next
      fix b t w
      assume y: "(b, t, w) \<in> set ys"
      then have b: "c + s \<le> b" "16 dvd b"
        using phys_bounds [OF split(3)] by auto
      moreover have "(c + s + 8) mod 16 = 8"
        using not_16_of_8(1) R(8,9) by auto
      ultimately have "b \<noteq> c + s + 8"
        by (auto simp: mod_eq_0_iff_dvd [symmetric])
      then show "memory h' b = memory h b"
        using b by (intro same) auto
      show "memory h' (b + 8) = memory h (b + 8)" if "b \<noteq> c + s"
        using b that by (intro same) auto
    qed
    ultimately show "phys (memory h') 0 (heap_base h) (xs @ carved c s ah ae n @ ys) (heap_end h)"
      using split(1) unfolding phys_append carved_last by blast
    show "\<forall>x \<in> set (xs @ carved c s ah ae n @ ys). owner_ok (memory h') x"
    proof
      fix x
      assume "x \<in> set (xs @ carved c s ah ae n @ ys)"
      then consider "x \<in> set (xs @ ys)" | "x \<in> set (carved c s ah ae n)"
        by auto
      then show "owner_ok (memory h') x"
      proof cases
        case 1
        obtain b t w where x: "x = (b, t, w)"
          by (cases x)
        have "32 \<le> t"
          using phys_bounds [OF ph, of b t w] 1 x by auto
        then show ?thesis
          using same_payloads_owner [OF sp] ow 1 x by blast
      next
        case 2
        have "ah + 16 + n + 8 \<le> ?a0 + (?af - ?a0)" "?a0 + (?af - ?a0) - 8 = ?af - 8"
          using R n by (auto simp: alloc_limit_def)
        moreover have "ah + 16 = ?a0 + 16 \<or> ah + 16 = ?a0 + 32 \<and> memory h' (?a0 + 16) = ?a0"
        proof (cases "?a0 = ah")
          case False
          then have "?a0 = c"
            by (simp add: alloc_from_def split: if_splits)
          then show ?thesis
            using fwd [OF False] by auto
        qed simp
        ultimately show ?thesis
          using 2 own(2) by (auto simp: carved_def owner_ok_def split: if_splits)
      qed
    qed
    have "free_set (xs @ carved c s ah ae n @ ys) = free_set (xs @ ys) \<union> (if 32 \<le> ah - c then {(c, ah - c)} else {}) \<union>
       (if 32 \<le> c + s - ae then {(ae, c + s - ae)} else {})"
      unfolding free_set_append carved_free by auto
    then show "lists_ok h' (free_set (xs @ carved c s ah ae n @ ys))"
      using H(2) by simp
    show "available h' = free_bytes (xs @ carved c s ah ae n @ ys)"
      using H(5) av carved_bytes [OF r, of n] by simp
  qed
  then show thesis
    using that H(1,4) sp by blast
qed

end
