(* ===== verification/Heap_Allocation.thy ===== *)
theory Heap_Allocation
  imports Heap_Blocks
begin

text \<open>
  Allocating and freeing in the kernel heap: the layouts Rust admits and where an allocation lies in
  a block, that the search through the size classes ends and carves a block or leaves the heap as it
  was, and that freeing merges the block with a neighbour and keeps the heap well formed.
\<close>

unbundle bit_operations_syntax

section \<open>Where an allocation goes\<close>

text \<open>What \<open>Layout\<close> guarantees: a power of two as alignment, and a size below \<open>isize::MAX\<close>.\<close>

definition layout_ok :: "nat \<Rightarrow> nat \<Rightarrow> bool" where
  "layout_ok n align \<longleftrightarrow> (\<exists>k < 64. align = 2 ^ k) \<and> n < 2 ^ 63"

lemma layout_align:
  assumes "layout_ok n align"
  obtains k where "4 \<le> k" "k < 64" "max align HEAP_BLOCK_ALIGNMENT = 2 ^ k"
proof -
  obtain k where k: "k < 64" "align = 2 ^ k"
    using assms by (auto simp: layout_ok_def)
  show thesis
  proof (cases "4 \<le> k")
    case True
    then have "(2 :: nat) ^ 4 \<le> 2 ^ k"
      by (intro power_increasing) auto
    then show thesis
      using that [of k] True k by (simp add: heap_consts)
  next
    case False
    then have "(2 :: nat) ^ k \<le> 2 ^ 4"
      by (intro power_increasing) auto
    then show thesis
      using that [of 4] k by (simp add: heap_consts)
  qed
qed

lemma layout_reserved: "layout_ok n align \<Longrightarrow> reserved_size n = max n 1 + 8"
  by (simp add: layout_ok_def reserved_size_def saturating_add_def heap_consts)

lemma placement_Some:
  assumes "placement c reserved (2 ^ k) = Some (ps, ah, ae)" "4 \<le> k" "k < 64" "16 dvd c" "9 \<le> reserved"
  shows "ps = ah + 16" "c \<le> ah" "16 dvd ah" "16 dvd ae" "ah + 32 \<le> ae" "ps + reserved \<le> ae" "2 ^ k dvd ps"
    "ps + 16 \<le> c + 16 + 2 ^ k" "ae < ps + reserved + 16"
proof -
  have p: "align_up (c + 16) (2 ^ k) = Some ps" "16 \<le> ps" "ah = ps - 16" "align_up (ps + reserved) (2 ^ 4) = Some ae"
    using assms(1) by (auto simp: placement_def heap_consts bind_eq_Some_conv split: if_splits)
  have a: "c + 16 \<le> ps" "ps < c + 16 + 2 ^ k" "2 ^ k dvd ps"
    using align_up_Some [OF assms(3) p(1)] by auto
  have e: "ps + reserved \<le> ae" "ae < ps + reserved + 16" "16 dvd ae"
    using align_up_Some [OF _ p(4)] by auto
  have k16: "16 dvd (2 :: nat) ^ k"
    using le_imp_power_dvd [OF assms(2), of "2 :: nat"] by simp
  then have ps16: "16 dvd ps"
    using a(3) dvd_trans by blast
  show "ps = ah + 16" "c \<le> ah" "16 dvd ah" "16 dvd ae" "ps + reserved \<le> ae" "2 ^ k dvd ps" "ae < ps + reserved + 16"
    using p a e ps16 by auto
  obtain x y z w where "ps = 16 * x" "ae = 16 * y" "(2 :: nat) ^ k = 16 * z" "c = 16 * w"
    using ps16 e(3) k16 assms(4) by (auto elim!: dvdE)
  moreover from this have "x < y" "x < w + 1 + z"
    using e(1) a(2) assms(5) by linarith+
  ultimately show "ah + 32 \<le> ae" "ps + 16 \<le> c + 16 + 2 ^ k"
    using p(2,3) by linarith+
qed

lemma min_block_size:
  assumes "9 \<le> reserved" "reserved < 2 ^ 63 + 8" "4 \<le> k" "k < 64"
  shows "initial_min_block_size reserved (2 ^ k) = min (reserved + 2 ^ k + (16 - reserved mod 16) mod 16) (USIZE_LIMIT - 1)"
proof -
  have "wrapping_sub 16 (wrapping_add 16 reserved) mod 16 = (16 - reserved mod 16) mod 16"
  proof -
    have w: "wrapping_add 16 reserved = 16 + reserved"
      using assms(2) by (simp add: wrapping_add_def)
    have "wrapping_sub 16 (16 + reserved) = USIZE_LIMIT - reserved"
      using assms(1,2) by (simp add: wrapping_sub_def)
    moreover have "(USIZE_LIMIT - reserved) mod 16 = (16 - reserved mod 16) mod 16"
    proof -
      obtain q where q: "reserved = 16 * q + reserved mod 16"
        by (metis div_mult_mod_eq mult.commute)
      have "q \<le> 1152921504606846975"
        using q assms(2) by simp
      then obtain d where d: "1152921504606846975 = q + d"
        using le_Suc_ex by blast
      have "USIZE_LIMIT - reserved = 16 * d + (16 - reserved mod 16)"
        using q d mod_less_divisor [of 16 reserved] by linarith
      then show ?thesis
        by (simp only: mod_mult_self4)
    qed
    ultimately show ?thesis
      by (simp add: w)
  qed
  moreover have "16 \<le> (2 :: nat) ^ k" "(2 :: nat) ^ k \<le> 2 ^ 63"
    using power_increasing [of 4 k "2 :: nat"] power_increasing [of k 63 "2 :: nat"] assms(3,4) by auto
  ultimately show ?thesis
    using assms(1,2) by (simp add: initial_min_block_size_def heap_consts saturating_add_def saturating_sub_def Let_def)
      (simp add: min_def)
qed

lemma min_block_size_ge:
  assumes "9 \<le> reserved" "reserved < 2 ^ 63 + 8" "4 \<le> k" "k < 64"
  shows "32 \<le> initial_min_block_size reserved (2 ^ k)"
proof -
  have "16 \<le> reserved + (16 - reserved mod 16) mod 16"
  proof (cases "16 \<le> reserved")
    case False
    then show ?thesis
      using assms(1) by simp
  qed simp
  moreover have "16 \<le> (2 :: nat) ^ k"
    using power_increasing [of 4 k "2 :: nat"] assms(3) by auto
  ultimately show ?thesis
    unfolding min_block_size [OF assms] by simp
qed

lemma too_tight:
  assumes "placement c reserved (2 ^ k) = Some (ps, ah, ae)" "c + s < ae" "4 \<le> k" "k < 64" "16 dvd c" "9 \<le> reserved"
    "reserved < 2 ^ 63 + 8" "s \<le> KERNEL_HEAP_SIZE"
  shows "s < initial_min_block_size reserved (2 ^ k)"
proof -
  note P = placement_Some [OF assms(1,3,4,5,6)]
  have "ae = ps + reserved + (16 - reserved mod 16) mod 16"
  proof -
    obtain x y where xy: "ah = 16 * x" "ae = 16 * y"
      using P(3,4) by (auto elim!: dvdE)
    obtain q where q: "reserved = 16 * q + reserved mod 16"
      by (metis div_mult_mod_eq mult.commute)
    show ?thesis
    proof (cases "reserved mod 16 = 0")
      case True
      then have "y = x + q + 1"
        using P(1,6,9) xy q by linarith
      then show ?thesis
        using P(1) xy q True by simp
    next
      case False
      then have "y = x + q + 2"
        using P(1,6,9) xy q mod_less_divisor [of 16 reserved] by linarith
      moreover have "(16 - reserved mod 16) mod 16 = 16 - reserved mod 16"
        using False by (intro mod_less) auto
      ultimately show ?thesis
        using P(1) xy q mod_less_divisor [of 16 reserved] by linarith
    qed
  qed
  then have "s < reserved + 2 ^ k + (16 - reserved mod 16) mod 16"
    using assms(2) P(8) by linarith
  then show ?thesis
    unfolding min_block_size [OF assms(6,7,3,4)] using assms(8) by (simp add: heap_consts)
qed

section \<open>Allocation\<close>

lemma free_set_split:
  assumes "phys m p a (xs @ (c, s, None) # ys) e"
  shows "free_set (xs @ (c, s, None) # ys) - {(c, s)} = free_set (xs @ ys)" "(c, s) \<notin> free_set (xs @ ys)"
proof -
  have "32 \<le> s"
    using phys_bounds [OF assms, of c s None] by simp
  then show n: "(c, s) \<notin> free_set (xs @ ys)"
    using phys_split_apart [OF assms, of c s None] by (auto simp: free_set_def)
  then show "free_set (xs @ (c, s, None) # ys) - {(c, s)} = free_set (xs @ ys)"
    by auto
qed

lemma same_but_payloads:
  assumes "phys m p a bs e" "same_but W h h'" "W \<subseteq> free_words bs"
  shows "same_payloads bs h h'"
  unfolding same_payloads_def
proof (intro allI impI)
  fix b s w x
  assume x: "(b, s, Some w) \<in> set bs \<and> b + 16 \<le> x \<and> x < b + s"
  then have "x \<notin> free_words bs"
    using free_words_not_used [OF assms(1), of b s w x] by auto
  then show "memory h' x = memory h x"
    using same_but_memory [OF assms(2)] assms(3) by blast
qed

lemma same_but_available: "same_but W h h' \<Longrightarrow> available h' = available h"
  by (simp add: same_but_def)

text \<open>A free block is taken out of its list, and put back.\<close>

lemma take_free_block:
  assumes ok: "heap_ok h (xs @ (c, s, None) # ys)"
  obtains h1 where "remove_free_block c h = Some h1" "lists_ok h1 (free_set (xs @ ys))"
    "same_but (free_words (xs @ (c, s, None) # ys)) h h1"
proof -
  let ?bs = "xs @ (c, s, None) # ys"
  have ph: "phys (memory h) 0 (heap_base h) ?bs (heap_end h)" and g: "heap_geometry h" and l: "lists_ok h (free_set ?bs)"
    using ok by (auto simp: heap_ok_def)
  obtain h1 where h1: "remove_free_block c h = Some h1" "lists_ok h1 (free_set ?bs - {(c, s)})"
    "same_but {x + 16 | x. \<exists>t. (x, t) \<in> free_set ?bs} h h1"
    using remove_free_block_ok [OF g l, of c s] by auto
  show thesis
    using that [OF h1(1)] h1(2) same_but_mono [OF h1(3) links_free_words [OF ph]] free_set_split(1) [OF ph] by metis
qed

lemma taken_block:
  assumes ok: "heap_ok h (xs @ (c, s, None) # ys)" and sb: "same_but (free_words (xs @ (c, s, None) # ys)) h h1"
  shows "heap_geometry h1" "heap_base h1 = heap_base h" "heap_end h1 = heap_end h"
    "phys (memory h1) 0 (heap_base h) (xs @ (c, s, None) # ys) (heap_end h)"
    "\<forall>x \<in> set (xs @ (c, s, None) # ys). owner_ok (memory h1) x" "available h1 = available h"
    "same_payloads (xs @ (c, s, None) # ys) h h1" "block_at h1 c s" "memory h1 c = s" "block_size h1 c = Some s"
proof -
  let ?bs = "xs @ (c, s, None) # ys"
  have o: "heap_geometry h" "phys (memory h) 0 (heap_base h) ?bs (heap_end h)" "\<forall>x \<in> set ?bs. owner_ok (memory h) x"
    using ok by (auto simp: heap_ok_def)
  show g: "heap_geometry h1" and bse: "heap_base h1 = heap_base h" "heap_end h1 = heap_end h" and "available h1 = available h"
    using same_but_geometry [OF sb o(1)] sb by (auto simp: same_but_def)
  show ph: "phys (memory h1) 0 (heap_base h) ?bs (heap_end h)" and "\<forall>x \<in> set ?bs. owner_ok (memory h1) x"
    using free_writes [OF o(2,3) sb] by auto
  show "same_payloads ?bs h h1"
    using same_but_payloads [OF o(2) sb] by simp
  show b: "block_at h1 c s"
    using phys_block_at [OF g, of "memory h1" ?bs c s None] ph bse by simp
  show m: "memory h1 c = s"
    using phys_header [OF ph, of c s None] by simp
  show "block_size h1 c = Some s"
    using block_size_at [OF block_at_words(1) [OF b], of s False] m block_at_even [OF b] by simp
qed

lemma put_back:
  assumes ok: "heap_ok h (xs @ (c, s, None) # ys)" and l: "lists_ok h1 (free_set (xs @ ys))"
    and sb: "same_but (free_words (xs @ (c, s, None) # ys)) h h1"
  obtains h2 where "insert_free_block c h1 = Some h2" "heap_ok h2 (xs @ (c, s, None) # ys)"
    "same_payloads (xs @ (c, s, None) # ys) h h2" "heap_base h2 = heap_base h" "block_size h2 c = Some s"
proof -
  let ?bs = "xs @ (c, s, None) # ys"
  note T = taken_block [OF ok sb]
  have ap: "apart (c, s) y" if "y \<in> free_set (xs @ ys)" for y
    using that phys_split_apart [OF T(4)] by (cases y) (auto simp: free_set_def apart_def)
  obtain h2 where h2: "insert_free_block c h1 = Some h2" "lists_ok h2 (insert (c, s) (free_set (xs @ ys)))"
    "same_but {c + 16..<c + s} h1 h2"
    by (rule insert_free_block_ok [OF T(1) l T(8,9) ap]) (assumption, rule that)
  have sub: "{c + 16..<c + s} \<subseteq> free_words ?bs"
    by (auto simp: free_words_def free_set_def)
  have g2: "heap_geometry h2" "heap_base h2 = heap_base h" "heap_end h2 = heap_end h" "available h2 = available h"
    using same_but_geometry [OF h2(3) T(1)] h2(3) T by (auto simp: same_but_def)
  have "phys (memory h2) 0 (heap_base h) ?bs (heap_end h)" "\<forall>x \<in> set ?bs. owner_ok (memory h2) x"
    using free_writes [OF T(4,5) h2(3) sub] by auto
  moreover have "free_set ?bs = insert (c, s) (free_set (xs @ ys))"
    by auto
  ultimately have ok2: "heap_ok h2 ?bs"
    using ok g2 h2(2) by (simp add: heap_ok_def)
  have "same_payloads ?bs h1 h2"
    using same_but_payloads [OF T(4) h2(3) sub] .
  then have "same_payloads ?bs h h2"
    using same_payloads_trans T(7) by blast
  moreover have "block_size h2 c = Some s"
    using taken_block(10) [OF ok2 same_but_refl] .
  ultimately show thesis
    using that h2(1) ok2 g2(2) by blast
qed

text \<open>What a search leaves behind when it fails, and when it makes an allocation of \<open>n\<close> bytes at
  \<open>p\<close>.\<close>

definition allocation_failed :: "nat \<Rightarrow> nat \<Rightarrow> block list \<Rightarrow> heap \<Rightarrow> heap \<Rightarrow> bool" where
  "allocation_failed lo need bs h h' \<longleftrightarrow> heap_ok h' bs \<and> same_payloads bs h h' \<and>
     (heap_base h + 3 * KERNEL_HEAP_SIZE < USIZE_LIMIT \<longrightarrow>
       (\<forall>b t. (b, t) \<in> free_set bs \<and> lo \<le> class_of t \<longrightarrow> class_of t \<le> class_of need))"

definition allocation_made :: "nat \<Rightarrow> nat \<Rightarrow> nat \<Rightarrow> block list \<Rightarrow> heap \<Rightarrow> nat \<Rightarrow> heap \<Rightarrow> bool" where
  "allocation_made reserved align n bs h p h' \<longleftrightarrow>
     (\<exists>xs c s ys ah ae. bs = xs @ (c, s, None) # ys \<and> room h c s ah ae \<and> placement c reserved align = Some (p, ah, ae) \<and>
        ah + 16 + reserved \<le> ae \<and> align dvd p \<and> p = ah + 16 \<and> heap_ok h' (xs @ carved c s ah ae n @ ys) \<and> same_payloads (xs @ ys) h h')"

lemma allocation_made_later:
  assumes "allocation_made reserved align n bs h2 p h'" "same_payloads bs h h2" "heap_base h2 = heap_base h" "heap_geometry h"
  shows "allocation_made reserved align n bs h p h'"
proof -
  obtain xs c s ys ah ae where z: "bs = xs @ (c, s, None) # ys" "room h2 c s ah ae"
    "placement c reserved align = Some (p, ah, ae)" "ah + 16 + reserved \<le> ae" "align dvd p" "p = ah + 16"
    "heap_ok h' (xs @ carved c s ah ae n @ ys)" "same_payloads (xs @ ys) h2 h'"
    using assms(1) unfolding allocation_made_def by blast
  have "same_payloads (xs @ ys) h h2"
    using assms(2) z(1) by (auto simp: same_payloads_def)
  then have "same_payloads (xs @ ys) h h'"
    using z(8) same_payloads_trans by blast
  moreover have "room h c s ah ae"
    using z(2) assms(3,4) by (auto simp: room_def block_at_def)
  ultimately show ?thesis
    unfolding allocation_made_def using z by blast
qed

lemma placement_fits:
  assumes "placement c reserved (2 ^ k) = None" "4 \<le> k" "k < 64" "9 \<le> reserved" "reserved < 2 ^ 63 + 8"
    and top: "c + 2 * KERNEL_HEAP_SIZE < USIZE_LIMIT"
  shows "KERNEL_HEAP_SIZE \<le> initial_min_block_size reserved (2 ^ k)"
proof (rule ccontr)
  assume "\<not> KERNEL_HEAP_SIZE \<le> initial_min_block_size reserved (2 ^ k)"
  then have small: "reserved + 2 ^ k < KERNEL_HEAP_SIZE"
    unfolding min_block_size [OF assms(4,5,2,3)] by (auto simp: heap_consts)
  have "align_up (c + 16) (2 ^ k) \<noteq> None"
    using align_up_eq [OF assms(3), of "c + 16"] small top by (simp add: heap_consts)
  then obtain ps where ps: "align_up (c + 16) (2 ^ k) = Some ps"
    by blast
  then have b: "c + 16 \<le> ps" "ps < c + 16 + 2 ^ k"
    using align_up_Some [OF assms(3) ps] by auto
  have "align_up (ps + reserved) (2 ^ 4) \<noteq> None"
    using align_up_eq [of 4 "ps + reserved"] small top b by (simp add: heap_consts)
  moreover have "checked_add ps reserved = Some (ps + reserved)" "checked_add (ps - 16) 16 = Some ps"
    using b small top by (simp_all add: heap_consts checked_add_def)
  ultimately show False
    using assms(1) ps b by (auto simp: placement_def heap_consts simp del: checked_add_Some_iff)
qed

lemma search_block_ok:
  assumes lay: "9 \<le> reserved" "reserved < 2 ^ 63 + 8" "4 \<le> k" "k < 64" "n + 8 \<le> reserved"
    and ok: "heap_ok h bs" and min: "32 \<le> m"
  shows "\<exists>p h'. search_block reserved (2 ^ k) m h = Some (p, h') \<and> heap_base h' = heap_base h \<and>
    (p = 0 \<and> allocation_failed (start_class m) (initial_min_block_size reserved (2 ^ k)) bs h h' \<or>
     allocation_made reserved (2 ^ k) n bs h p h')"
  using ok min
proof (induction "704 - start_class m" arbitrary: m h rule: less_induct)
  case less
  let ?need = "initial_min_block_size reserved (2 ^ k)"
  have g: "heap_geometry h" and l: "lists_ok h (free_set bs)" and ph: "phys (memory h) 0 (heap_base h) bs (heap_end h)"
    using less.prems(1) by (auto simp: heap_ok_def)
  have sizes: "32 \<le> t \<and> t \<le> KERNEL_HEAP_SIZE" if "(b, t) \<in> free_set bs" for b t
    using lists_okD(1) [OF l that] by (auto simp: block_at_def)
  obtain c where c: "find_suitable_block h m = Some c"
    "c = 0 \<Longrightarrow> \<forall>i. start_class m \<le> i \<and> i < 704 \<longrightarrow> free_lists h ! i = 0"
    "c \<noteq> 0 \<Longrightarrow> \<exists>i. start_class m \<le> i \<and> i < 704 \<and> c = free_lists h ! i"
    by (rule find_suitable_block_ok [OF lists_ok_bitmaps [OF l] less.prems(2)]) (rule that)
  show ?case
  proof (cases "c = 0")
    case True
    have none_left: "False" if t: "(b, t) \<in> free_set bs" "start_class m \<le> class_of t" for b t
    proof -
      have "class_of t \<le> 672"
        using class_of_heap sizes [OF t(1)] by simp
      then have "class_of t < 704"
        by simp
      moreover from this have "free_lists h ! class_of t = 0"
        using c(2) [OF True] t(2) by simp
      ultimately show False
        using empty_lists [OF l t(1)] by simp
    qed
    have "allocation_failed (start_class m) ?need bs h h"
      unfolding allocation_failed_def using less.prems(1) none_left by (auto simp: same_payloads_def)
    moreover have "search_block reserved (2 ^ k) m h = Some (0, h)"
      using c(1) True by (subst search_block.simps) simp
    ultimately show ?thesis
      by blast
  next
    case False
    obtain i where i: "start_class m \<le> i" "i < 704" "c = free_lists h ! i"
      using c(3) [OF False] by blast
    obtain s where s: "(c, s) \<in> free_set bs" "class_of s = i"
      using found_block [OF g l i(3,2) False] .
    have "(c, s, None) \<in> set bs"
      using s(1) by (simp add: free_set_def)
    then obtain xs ys where bs: "bs = xs @ (c, s, None) # ys"
      by (meson split_list)
    note ok = less.prems(1) [unfolded bs]
    obtain h1 where h1: "remove_free_block c h = Some h1" "lists_ok h1 (free_set (xs @ ys))" "same_but (free_words bs) h h1"
      by (rule take_free_block [OF ok, folded bs]) (rule that)
    note T = taken_block [OF ok h1(3) [unfolded bs]]
    have c16: "16 dvd c" "c + s < USIZE_LIMIT" "c < heap_end h"
      using T(1,3,8) by (auto simp: block_at_def heap_geometry_def)
    have sat: "saturating_add c s = c + s"
      using c16 by (simp add: saturating_add_def)
    obtain h2 where h2: "insert_free_block c h1 = Some h2" "heap_ok h2 bs" "same_payloads bs h h2"
      "heap_base h2 = heap_base h" "block_size h2 c = Some s"
      by (rule put_back [OF ok h1(2) h1(3) [unfolded bs], folded bs]) (rule that)
    show ?thesis
    proof (cases "placement c reserved (2 ^ k)")
      case None
      have "class_of t \<le> class_of ?need" if t: "heap_base h + 3 * KERNEL_HEAP_SIZE < USIZE_LIMIT" "(b, t) \<in> free_set bs" for b t
      proof -
        have "c + 2 * KERNEL_HEAP_SIZE < USIZE_LIMIT"
          using t(1) c16(3) g by (simp add: heap_geometry_def)
        then have "KERNEL_HEAP_SIZE \<le> ?need"
          using placement_fits [OF None lay(3,4,1,2)] by simp
        then show ?thesis
          using class_of_mono [of t ?need] sizes [OF t(2)] by linarith
      qed
      then have "allocation_failed (start_class m) ?need bs h h2"
        unfolding allocation_failed_def using h2(2,3) by blast
      moreover have "search_block reserved (2 ^ k) m h = Some (0, h2)"
        using c(1) False h1(1) T(10) None h2(1) sat by (subst search_block.simps) simp
      ultimately show ?thesis
        using h2(4) by blast
    next
      case (Some v)
      obtain ps ah ae where v: "placement c reserved (2 ^ k) = Some (ps, ah, ae)"
        using Some by (cases v) auto
      note P = placement_Some [OF v lay(3,4) c16(1) lay(1)]
      show ?thesis
      proof (cases "c + s < ae")
        case True
        have sl: "32 \<le> s" "s \<le> KERNEL_HEAP_SIZE"
          using sizes [OF s(1)] by auto
        have tight: "s < ?need"
          using too_tight [OF v True lay(3,4) c16(1) lay(1,2) sl(2)] .
        let ?m = "class_min (Suc (class_of s))"
        have idx: "class_of s \<le> 672"
          using class_of_heap [OF sl] .
        have m32: "32 \<le> ?m"
          using class_min_mono [of 0 "Suc (class_of s)"] by simp
        have "?m \<le> class_min 673"
          using class_min_mono idx by simp
        also have "\<dots> < 2 * KERNEL_HEAP_SIZE"
          by (simp add: class_min_def heap_consts)
        finally have st: "start_class ?m = Suc (class_of s)"
          using start_class_eq [OF m32] class_of_class_min by simp
        have "704 - start_class ?m < 704 - start_class m"
          using st i s(2) idx by linarith
        then obtain p h' where R: "search_block reserved (2 ^ k) ?m h2 = Some (p, h')" "heap_base h' = heap_base h2"
          "p = 0 \<and> allocation_failed (start_class ?m) ?need bs h2 h' \<or> allocation_made reserved (2 ^ k) n bs h2 p h'"
          using less.hyps [OF _ h2(2) m32] by blast
        have step: "search_block reserved (2 ^ k) m h = Some (p, h')"
          using c(1) False h1(1) T(10) v True h2(1,5) sat next_class_min_eq [OF sl(1)] R(1)
          by (subst search_block.simps) simp
        from R(3) show ?thesis
        proof
          assume z: "p = 0 \<and> allocation_failed (start_class ?m) ?need bs h2 h'"
          have "class_of t \<le> class_of ?need"
            if t: "heap_base h + 3 * KERNEL_HEAP_SIZE < USIZE_LIMIT" "(b, t) \<in> free_set bs" for b t
          proof (cases "Suc (class_of s) \<le> class_of t")
            case True
            then show ?thesis
              using z t h2(4) st unfolding allocation_failed_def by auto
          next
            case False
            then have "class_of t \<le> class_of s"
              by simp
            also have "\<dots> \<le> class_of ?need"
              using class_of_mono [OF sl(1)] tight by simp
            finally show ?thesis .
          qed
          moreover have "heap_ok h' bs" "same_payloads bs h h'"
            using z h2(3) same_payloads_trans unfolding allocation_failed_def by blast+
          ultimately have "allocation_failed (start_class m) ?need bs h h'"
            unfolding allocation_failed_def by blast
          then show ?thesis
            using step z R(2) h2(4) by auto
        next
          assume "allocation_made reserved (2 ^ k) n bs h2 p h'"
          then have "allocation_made reserved (2 ^ k) n bs h p h'"
            using allocation_made_later h2(3,4) g by blast
          then show ?thesis
            using step R(2) h2(4) by auto
        qed
      next
        case fits: False
        have rm: "room h1 c s ah ae"
          using T(1,8) P fits by (simp add: room_def)
        have ow: "\<forall>x \<in> set (xs @ ys). owner_ok (memory h1) x"
          using T(5) by auto
        have av: "available h1 = free_bytes (xs @ (c, s, None) # ys)"
          using T(6) ok by (simp add: heap_ok_def)
        have ph1: "phys (memory h1) 0 (heap_base h1) (xs @ (c, s, None) # ys) (heap_end h1)"
          using T(2,3,4) by simp
        have n: "ah + 16 + n + 8 \<le> ae"
          using P(1,6) lay(5) by simp
        obtain h' where h': "carve c (c + s) ah ae h1 = Some h'" "heap_ok h' (xs @ carved c s ah ae n @ ys)"
          "same_payloads (xs @ ys) h1 h'" "heap_base h' = heap_base h1"
          by (rule carve_heap_ok [OF rm ph1 ow h1(2) av n]) (rule that)
        have "same_payloads (xs @ ys) h h1"
          using T(7) by (auto simp: same_payloads_def)
        then have sp: "same_payloads (xs @ ys) h h'"
          using same_payloads_trans h'(3) by blast
        have "room h c s ah ae"
          using rm T(2) g by (auto simp: room_def block_at_def)
        then have "allocation_made reserved (2 ^ k) n bs h ps h'"
          unfolding allocation_made_def using bs v P h'(2) sp by blast
        moreover have "search_block reserved (2 ^ k) m h = Some (ps, h')"
          using c(1) False h1(1) T(10) v fits h'(1) sat by (subst search_block.simps) simp
        ultimately show ?thesis
          using h'(4) T(2) by auto
      qed
    qed
  qed
qed

section \<open>Joining neighbours\<close>

definition total_bytes :: "block list \<Rightarrow> nat" where
  "total_bytes bs = sum_list (map (\<lambda>(b, s, w). s) bs)"

lemma total_bytes_simps [simp]:
  "total_bytes [] = 0" "total_bytes ((b, s, w) # bs) = s + total_bytes bs"
  "total_bytes (xs @ ys) = total_bytes xs + total_bytes ys"
  by (simp_all add: total_bytes_def)

lemma phys_total: "phys m p a bs e \<Longrightarrow> a + total_bytes bs = e"
  by (induction m p a bs e rule: phys.induct) auto

lemma phys_total_16: "phys m p a bs e \<Longrightarrow> 16 dvd total_bytes bs"
  by (induction m p a bs e rule: phys.induct) auto

lemma free_le_total: "free_bytes bs \<le> total_bytes bs"
  by (induction bs) (auto simp: free_bytes_def split: option.splits)

text \<open>The blocks \<open>mid\<close>, none of them in a list, become one free block.\<close>

lemma join_ok:
  assumes g: "heap_geometry h" and ph: "phys (memory h) 0 (heap_base h) (us @ mid @ vs) (heap_end h)"
    and mid: "mid = (a, t0, w0) # rest" "t = total_bytes mid"
    and ow: "\<forall>x \<in> set (us @ vs). owner_ok (memory h) x" and l: "lists_ok h (free_set (us @ vs))"
  obtains h1 h2 where "\<And>f. Option.bind (block_set_size a t h) (\<lambda>h3. Option.bind (block_clear_used a h3)
      (\<lambda>h4. Option.bind (block_set_prev_phys_of_next a a h4) f)) = f h1"
    "insert_free_block a h1 = Some h2" "phys (memory h2) 0 (heap_base h) (us @ (a, t, None) # vs) (heap_end h)"
    "\<forall>x \<in> set (us @ (a, t, None) # vs). owner_ok (memory h2) x" "lists_ok h2 (free_set (us @ (a, t, None) # vs))"
    "heap_geometry h2" "heap_base h2 = heap_base h" "available h2 = available h" "same_payloads (us @ vs) h h2"
proof -
  obtain c where c: "phys (memory h) 0 (heap_base h) us a" "phys (memory h) (last_addr 0 us) a mid c"
    "phys (memory h) (last_addr (last_addr 0 us) mid) c vs (heap_end h)"
    using ph mid(1) by (auto simp: phys_append)
  have ct: "c = a + t"
    using phys_total [OF c(2)] mid(2) by simp
  have a: "16 dvd a" "16 dvd t" "32 \<le> t" "memory h (a + 8) = last_addr 0 us"
    using c(2) phys_total_16 [OF c(2)] mid by auto
  have le: "heap_base h \<le> a" "a + t \<le> heap_end h"
    using phys_le [OF c(1)] phys_le [OF c(3)] ct by auto
  have blk: "block_at h a t"
    using a le g by (auto simp: block_at_def heap_geometry_def)
  have before: "b + s \<le> a \<and> 32 \<le> s" if "(b, s, w) \<in> set us" for b s w
    using phys_bounds [OF c(1) that] by auto
  have after: "a + t \<le> b \<and> 16 dvd b \<and> 32 \<le> s" if "(b, s, w) \<in> set vs" for b s w
    using phys_bounds [OF c(3) that] ct by auto
  define h0 where "h0 = put a t h"
  define h1 where "h1 = (if a + t < heap_end h then put (a + t + 8) a h0 else h0)"
  have g0: "heap_geometry h0" "block_at h0 a t" "memory h0 a = t + of_bool False"
    using g blk by (simp_all add: h0_def)
  have steps: "Option.bind (block_set_size a t h) (\<lambda>h3. Option.bind (block_clear_used a h3)
      (\<lambda>h4. Option.bind (block_set_prev_phys_of_next a a h4) f)) = f h1" for f
    using set_prev_of_next [OF g0, of a] block_at_words(1) [OF blk] even_of_16 [OF a(2)]
    by (simp add: set_size_clear h0_def [symmetric] h1_def) (simp add: h0_def)
  have p8: "(a + t + 8) mod 16 = 8"
    using not_16_of_8(1) [of "a + t"] a by simp
  have away: "\<forall>(b, s) \<in> free_set (us @ vs). a \<notin> {b..<b + s}"
  proof clarify
    fix b s
    assume "(b, s) \<in> free_set (us @ vs)" "a \<in> {b..<b + s}"
    then show False
      using before [of b s None] after [of b s None] a(3) by (auto simp: free_set_def)
  qed
  have l1: "lists_ok h1 (free_set (us @ vs))"
    unfolding h1_def h0_def using lists_ok_put [OF lists_ok_put [OF l disjI2 [OF away]] disjI1 [OF p8]]
      lists_ok_put [OF l disjI2 [OF away]] by simp
  have g1: "heap_geometry h1" "block_at h1 a t" "heap_base h1 = heap_base h" "heap_end h1 = heap_end h"
    "available h1 = available h"
    using g0 by (auto simp: h1_def h0_def)
  have ne: "a + t + 8 \<noteq> a" "a + t + 8 \<noteq> a + 8"
    using a(3) by auto
  have m1: "memory h1 a = t" "memory h1 (a + 8) = last_addr 0 us"
    "\<And>x. x \<noteq> a \<Longrightarrow> x \<noteq> a + t + 8 \<Longrightarrow> memory h1 x = memory h x"
    "a + t < heap_end h \<Longrightarrow> memory h1 (a + t + 8) = a"
    using ne a(4) by (auto simp: h1_def h0_def)
  have ap: "apart (a, t) y" if "y \<in> free_set (us @ vs)" for y
    using that before after by (cases y) (fastforce simp: free_set_def apart_def)
  obtain h2 where h2: "insert_free_block a h1 = Some h2" "lists_ok h2 (insert (a, t) (free_set (us @ vs)))"
    "same_but {a + 16..<a + t} h1 h2"
    by (rule insert_free_block_ok [OF g1(1) l1 g1(2) m1(1) ap]) (assumption, rule that)
  have m2: "memory h2 x = memory h x" if "x \<notin> {a..<a + t}" "x \<noteq> a + t + 8" for x
    using same_but_memory [OF h2(3), of x] m1(3) [of x] that a(3) by fastforce
  have hd: "memory h2 a = t" "memory h2 (a + 8) = last_addr 0 us" "a + t < heap_end h \<Longrightarrow> memory h2 (a + t + 8) = a"
    using same_but_memory [OF h2(3)] m1 by auto
  have "phys (memory h2) 0 (heap_base h) us a = phys (memory h) 0 (heap_base h) us a"
  proof (rule phys_frame)
    fix b s w
    assume "(b, s, w) \<in> set us"
    then show "memory h2 b = memory h b \<and> memory h2 (b + 8) = memory h (b + 8)"
      using before by (intro conjI m2) fastforce+
  qed
  moreover have "phys (memory h2) a (a + t) vs (heap_end h)"
  proof (rule phys_new_prev [OF c(3) [unfolded ct]])
    assume "vs \<noteq> []"
    then obtain b s w zs where "vs = (b, s, w) # zs"
      by (cases vs) auto
    then have "a + t < heap_end h"
      using phys_bounds [OF c(3), of b s w] ct by auto
    then show "memory h2 (a + t + 8) = a"
      by (rule hd(3))
  next
    fix b s w
    assume v: "(b, s, w) \<in> set vs"
    have "b \<noteq> a + t + 8"
      using after [OF v] p8 by (auto simp: mod_eq_0_iff_dvd [symmetric])
    then show "memory h2 b = memory h b"
      using after [OF v] by (intro m2) auto
    show "memory h2 (b + 8) = memory h (b + 8)" if "b \<noteq> a + t"
      using after [OF v] that by (intro m2) auto
  qed
  ultimately have ph2: "phys (memory h2) 0 (heap_base h) (us @ (a, t, None) # vs) (heap_end h)"
    using c(1) hd(1,2) a by (auto simp: phys_append)
  have sp: "same_payloads (us @ vs) h h2"
    unfolding same_payloads_def
  proof (intro allI impI)
    fix b s w x
    assume x: "(b, s, Some w) \<in> set (us @ vs) \<and> b + 16 \<le> x \<and> x < b + s"
    then have "b + s \<le> a \<or> a + t \<le> b"
      using before after by auto
    then show "memory h2 x = memory h x"
      using x by (intro m2) auto
  qed
  have ow2: "\<forall>x \<in> set (us @ (a, t, None) # vs). owner_ok (memory h2) x"
  proof
    fix x
    assume x: "x \<in> set (us @ (a, t, None) # vs)"
    obtain b s w where e: "x = (b, s, w)"
      by (cases x)
    show "owner_ok (memory h2) x"
    proof (cases "x = (a, t, None)")
      case False
      then have x: "(b, s, w) \<in> set (us @ vs)"
        using x e by auto
      then have "32 \<le> s"
        using before after by auto
      then show ?thesis
        using same_payloads_owner [OF sp _ x] ow x e by blast
    qed (simp add: owner_ok_def)
  qed
  have "free_set (us @ (a, t, None) # vs) = insert (a, t) (free_set (us @ vs))"
    by auto
  then have l2: "lists_ok h2 (free_set (us @ (a, t, None) # vs))"
    using h2(2) by simp
  have g2: "heap_geometry h2" "heap_base h2 = heap_base h" "available h2 = available h"
    using same_but_geometry [OF h2(3) g1(1)] h2(3) g1 by (auto simp: same_but_def)
  show thesis
    by (rule that [OF steps h2(1) ph2 ow2 l2 g2 sp])
qed

section \<open>Freeing\<close>

text \<open>A block marked free that is in no list.\<close>

definition floating :: "heap \<Rightarrow> block list \<Rightarrow> nat \<Rightarrow> nat \<Rightarrow> block list \<Rightarrow> bool" where
  "floating h xs b s ys \<longleftrightarrow> heap_geometry h \<and> phys (memory h) 0 (heap_base h) (xs @ (b, s, None) # ys) (heap_end h) \<and>
     (\<forall>x \<in> set (xs @ ys). owner_ok (memory h) x) \<and> lists_ok h (free_set (xs @ ys))"

text \<open>What freeing a block makes of its neighbours: it joins the block before it if that is free, and
  only otherwise the block after it.\<close>

definition coalesced :: "block list \<Rightarrow> nat \<Rightarrow> nat \<Rightarrow> block list \<Rightarrow> block list" where
  "coalesced xs b s ys =
     (if xs \<noteq> [] \<and> snd (snd (last xs)) = None
      then butlast xs @ (fst (last xs), fst (snd (last xs)) + s, None) # ys
      else case ys of (nb, ns, None) # ys' \<Rightarrow> xs @ (b, s + ns, None) # ys' | _ \<Rightarrow> xs @ (b, s, None) # ys)"

lemma floatingD:
  assumes "floating h xs b s ys"
  shows "heap_geometry h" "phys (memory h) 0 (heap_base h) (xs @ (b, s, None) # ys) (heap_end h)"
    "\<forall>x \<in> set (xs @ ys). owner_ok (memory h) x" "lists_ok h (free_set (xs @ ys))"
    "memory h (b + 8) = last_addr 0 xs" "memory h b = s" "block_at h b s"
proof -
  show g: "heap_geometry h" and p: "phys (memory h) 0 (heap_base h) (xs @ (b, s, None) # ys) (heap_end h)"
    and "\<forall>x \<in> set (xs @ ys). owner_ok (memory h) x" "lists_ok h (free_set (xs @ ys))"
    using assms by (simp_all add: floating_def)
  show "memory h (b + 8) = last_addr 0 xs" "memory h b = s"
    using p by (auto simp: phys_append)
  show "block_at h b s"
    using phys_block_at [OF g p, of b s None] by simp
qed

lemma floating_remove:
  assumes f: "floating h xs b s ys" and c: "(c, t) \<in> free_set (xs @ ys)"
  obtains h1 where "remove_free_block c h = Some h1" "lists_ok h1 (free_set (xs @ ys) - {(c, t)})"
    "heap_geometry h1" "heap_base h1 = heap_base h" "heap_end h1 = heap_end h" "available h1 = available h"
    "phys (memory h1) 0 (heap_base h) (xs @ (b, s, None) # ys) (heap_end h)"
    "\<forall>x \<in> set (xs @ ys). owner_ok (memory h1) x" "same_payloads (xs @ ys) h h1"
proof -
  note D = floatingD [OF f]
  let ?bs = "xs @ (b, s, None) # ys"
  obtain h1 where h1: "remove_free_block c h = Some h1" "lists_ok h1 (free_set (xs @ ys) - {(c, t)})"
    "same_but {x + 16 | x. \<exists>t. (x, t) \<in> free_set (xs @ ys)} h h1"
    by (rule remove_free_block_ok [OF D(1,4) c]) (rule that)
  have "free_set (xs @ ys) \<subseteq> free_set ?bs"
    by auto
  then have "{x + 16 | x. \<exists>t. (x, t) \<in> free_set (xs @ ys)} \<subseteq> {x + 16 | x. \<exists>t. (x, t) \<in> free_set ?bs}"
    by blast
  then have sb: "same_but (free_words ?bs) h h1"
    by (rule same_but_mono [OF h1(3) subset_trans [OF _ links_free_words [OF D(2)]]])
  have own: "\<forall>x \<in> set ?bs. owner_ok (memory h) x"
    using D(3) by (auto simp: owner_ok_def)
  have "phys (memory h1) 0 (heap_base h) ?bs (heap_end h)" "\<forall>x \<in> set ?bs. owner_ok (memory h1) x"
    using free_writes [OF D(2) own sb] by auto
  moreover have "same_payloads (xs @ ys) h h1"
    using same_but_payloads [OF D(2) sb] by (auto simp: same_payloads_def)
  moreover have "heap_geometry h1" "heap_base h1 = heap_base h" "heap_end h1 = heap_end h" "available h1 = available h"
    using same_but_geometry [OF sb D(1)] sb by (simp_all add: same_but_def)
  ultimately show thesis
    using that [OF h1(1,2)] by auto
qed

lemma merge_previous_none:
  assumes f: "floating h xs b s ys" and n: "xs \<noteq> [] \<Longrightarrow> snd (snd (last xs)) \<noteq> None"
  shows "merge_previous b s h = Some (b, s, h)"
proof (cases "xs = []")
  case True
  then have "b = heap_base h" "heap_start h = heap_base h"
    using floatingD(1,2) [OF f] by (auto simp: heap_geometry_def)
  then show ?thesis
    by (simp add: merge_previous_def)
next
  case False
  note D = floatingD [OF f]
  obtain us c t w where xs: "xs = us @ [(c, t, w)]"
    using False by (metis rev_exhaust prod_cases3)
  obtain v where w: "w = Some v"
    using n False xs by auto
  have mem: "(c, t, w) \<in> set (xs @ (b, s, None) # ys)"
    using xs by simp
  have B: "block_at h c t" "memory h c = t + of_bool True" "t mod 2 = 0"
    using phys_block_at [OF D(1,2) mem] phys_header [OF D(2) mem] w block_at_even by auto
  have "block_size h c = Some t" "block_is_used h c = Some True"
    using block_size_at [OF block_at_words(1) [OF B(1)] B(2,3)] block_is_used_at [OF block_at_words(1) [OF B(1)] B(2,3)] .
  then show ?thesis
    using D(5) xs block_at_words(2) [OF D(7)] by (simp add: merge_previous_def block_prev_phys_def load_def)
qed

lemma merge_previous_some:
  assumes f: "floating h (us @ [(c, t, None)]) b s ys"
  obtains h1 where "merge_previous b s h = Some (c, s + t, h1)" "lists_ok h1 (free_set (us @ ys))"
    "heap_geometry h1" "heap_base h1 = heap_base h" "heap_end h1 = heap_end h" "available h1 = available h"
    "phys (memory h1) 0 (heap_base h) (us @ [(c, t, None), (b, s, None)] @ ys) (heap_end h)"
    "\<forall>x \<in> set (us @ ys). owner_ok (memory h1) x" "same_payloads (us @ ys) h h1"
proof -
  note D = floatingD [OF f]
  let ?xs = "us @ [(c, t, None)]"
  let ?bs = "?xs @ (b, s, None) # ys"
  have mem: "(c, t, None) \<in> set ?bs"
    by simp
  have B: "block_at h c t" "memory h c = t + of_bool False" "t mod 2 = 0"
    using phys_block_at [OF D(1,2) mem] phys_header [OF D(2) mem] block_at_even by auto
  have rd: "block_size h c = Some t" "block_is_used h c = Some False"
    using block_size_at [OF block_at_words(1) [OF B(1)] B(2,3)] block_is_used_at [OF block_at_words(1) [OF B(1)] B(2,3)] .
  have ct: "c + t = b"
    using D(2) by (auto simp: phys_append)
  have b: "heap_start h \<le> c" "c < b" "b + s < USIZE_LIMIT" "32 \<le> t" "c mod 16 = 0" "heap_start h < b"
    using B(1) D(1,7) ct by (auto simp: block_at_def heap_geometry_def)
  have wa: "wrapping_add c t = b" "wrapping_add s t = s + t"
    using ct b by (simp_all add: wrapping_add_def)
  have nd: "(c, t) \<notin> free_set (us @ ys)"
  proof -
    have "phys (memory h) 0 (heap_base h) (us @ (c, t, None) # (b, s, None) # ys) (heap_end h)"
      using D(2) by simp
    from free_set_split(2) [OF this] show ?thesis
      by (auto simp: free_set_def)
  qed
  have set: "free_set (?xs @ ys) - {(c, t)} = free_set (us @ ys)"
    using nd by auto
  obtain h1 where h1: "remove_free_block c h = Some h1" "lists_ok h1 (free_set (?xs @ ys) - {(c, t)})"
    "heap_geometry h1" "heap_base h1 = heap_base h" "heap_end h1 = heap_end h" "available h1 = available h"
    "phys (memory h1) 0 (heap_base h) ?bs (heap_end h)"
    "\<forall>x \<in> set (?xs @ ys). owner_ok (memory h1) x" "same_payloads (?xs @ ys) h h1"
    by (rule floating_remove [OF f, of c t]) (simp, rule that)
  have "merge_previous b s h = Some (c, s + t, h1)"
    using D(5) rd wa b h1(1) block_at_words(2) [OF D(7)]
    by (simp add: merge_previous_def block_prev_phys_def load_def heap_consts)
  then show thesis
    using that h1 set by (auto simp: same_payloads_def)
qed

lemma merge_next_none:
  assumes g: "heap_geometry h" and ph: "phys (memory h) 0 (heap_base h) (us @ mid @ vs) (heap_end h)"
    and mid: "mid = (a, t0, w0) # rest" "t = total_bytes mid"
    and n: "vs = [] \<or> snd (snd (hd vs)) \<noteq> None \<or> rest \<noteq> []"
  shows "merge_next a t h = Some (t, h)"
proof -
  obtain c where c: "phys (memory h) (last_addr 0 us) a mid c" "phys (memory h) (last_addr (last_addr 0 us) mid) c vs (heap_end h)"
    using ph mid(1) by (auto simp: phys_append)
  have ct: "c = a + t"
    using phys_total [OF c(1)] mid(2) by simp
  have wa: "wrapping_add a t = a + t"
    using wrapping_add_heap [OF g] phys_le [OF c(2)] ct g by (simp add: heap_geometry_def)
  show ?thesis
  proof (cases vs)
    case Nil
    then show ?thesis
      using c(2) ct wa by (simp add: merge_next_def)
  next
    case (Cons x ys)
    obtain b s w where x: "x = (b, s, w)"
      by (cases x)
    have b: "b = a + t" "memory h (b + 8) = last_addr a rest"
      using c(2) Cons x mid(1) ct by simp_all
    have mem: "(b, s, w) \<in> set (us @ mid @ vs)"
      using Cons x by simp
    have B: "block_at h b s" "memory h b = s + of_bool (w \<noteq> None)" "s mod 2 = 0"
      using phys_block_at [OF g ph mem] phys_header [OF ph mem] block_at_even by auto
    have rd: "block_size h b = Some s" "block_is_used h b = Some (w \<noteq> None)"
      using block_size_at [OF block_at_words(1) [OF B(1)] B(2,3)] block_is_used_at [OF block_at_words(1) [OF B(1)] B(2,3)] .
    have lt: "b < heap_end h"
      using B(1) g by (auto simp: block_at_def heap_geometry_def)
    have "last_addr a rest \<noteq> a" if r: "rest \<noteq> []"
    proof -
      have "phys (memory h) a (a + t0) rest c" "32 \<le> t0"
        using c(1) mid(1) by simp_all
      moreover obtain b' s' w' where "last rest = (b', s', w')"
        by (cases "last rest")
      moreover from this have "(b', s', w') \<in> set rest"
        using last_in_set [OF r] by simp
      ultimately have "a + t0 \<le> fst (last rest)" "32 \<le> t0"
        using phys_bounds [of "memory h" a "a + t0" rest c b' s' w'] by auto
      then show ?thesis
        using r by (simp add: last_addr_def)
    qed
    then have "validate_coalesce_neighbour h b a (heap_end h) = Some None" if "w = None"
      using n that Cons x b(2) rd block_at_words(2) [OF B(1)] B(1)
      by (auto simp: validate_coalesce_neighbour_def block_prev_phys_def load_def)
    then show ?thesis
      using wa lt rd b(1) unfolding merge_next_def Let_def by (cases "w = None") auto
  qed
qed

lemma merge_next_some:
  assumes f: "floating h xs b s ((c, t, None) # vs)"
  obtains h1 where "merge_next b s h = Some (s + t, h1)" "lists_ok h1 (free_set (xs @ vs))"
    "heap_geometry h1" "heap_base h1 = heap_base h" "heap_end h1 = heap_end h" "available h1 = available h"
    "phys (memory h1) 0 (heap_base h) (xs @ [(b, s, None), (c, t, None)] @ vs) (heap_end h)"
    "\<forall>x \<in> set (xs @ vs). owner_ok (memory h1) x" "same_payloads (xs @ vs) h h1"
proof -
  note D = floatingD [OF f]
  let ?ys = "(c, t, None) # vs"
  let ?bs = "xs @ (b, s, None) # ?ys"
  have mem: "(c, t, None) \<in> set ?bs"
    by simp
  have B: "block_at h c t" "memory h c = t + of_bool False" "t mod 2 = 0"
    using phys_block_at [OF D(1,2) mem] phys_header [OF D(2) mem] block_at_even by auto
  have rd: "block_size h c = Some t" "block_is_used h c = Some False"
    using block_size_at [OF block_at_words(1) [OF B(1)] B(2,3)] block_is_used_at [OF block_at_words(1) [OF B(1)] B(2,3)] .
  have bs: "b + s = c" "memory h (c + 8) = b"
    using D(2) by (auto simp: phys_append)
  have c: "c < heap_end h" "c + t < USIZE_LIMIT" "c + t \<le> heap_end h" "32 \<le> t" "c mod 16 = 0"
    using B(1) D(1) by (auto simp: block_at_def heap_geometry_def)
  have wa: "wrapping_add b s = c" "wrapping_add c t = c + t" "wrapping_add s t = s + t"
    using bs c by (simp_all add: wrapping_add_def)
  have nd: "(c, t) \<notin> free_set (xs @ vs)"
  proof -
    have "phys (memory h) 0 (heap_base h) ((xs @ [(b, s, None)]) @ (c, t, None) # vs) (heap_end h)"
      using D(2) by simp
    from free_set_split(2) [OF this] show ?thesis
      by (auto simp: free_set_def)
  qed
  have set: "free_set (xs @ ?ys) - {(c, t)} = free_set (xs @ vs)"
    using nd by auto
  obtain h1 where h1: "remove_free_block c h = Some h1" "lists_ok h1 (free_set (xs @ ?ys) - {(c, t)})"
    "heap_geometry h1" "heap_base h1 = heap_base h" "heap_end h1 = heap_end h" "available h1 = available h"
    "phys (memory h1) 0 (heap_base h) ?bs (heap_end h)"
    "\<forall>x \<in> set (xs @ ?ys). owner_ok (memory h1) x" "same_payloads (xs @ ?ys) h h1"
    by (rule floating_remove [OF f, of c t]) (simp, rule that)
  have "validate_coalesce_neighbour h c b (heap_end h) = Some (Some t)"
    using rd wa c bs(2) block_at_words(2) [OF B(1)]
    by (simp add: validate_coalesce_neighbour_def block_prev_phys_def load_def heap_consts)
  then have "merge_next b s h = Some (s + t, h1)"
    using rd wa c(1) h1(1) by (simp add: merge_next_def Let_def)
  then show thesis
    using that h1 set by (auto simp: same_payloads_def)
qed

definition heap_shape :: "heap \<Rightarrow> block list \<Rightarrow> bool" where
  "heap_shape h bs \<longleftrightarrow> heap_geometry h \<and> phys (memory h) 0 (heap_base h) bs (heap_end h) \<and>
     (\<forall>x \<in> set bs. owner_ok (memory h) x) \<and> lists_ok h (free_set bs)"

lemma heap_ok_shape: "heap_ok h bs \<longleftrightarrow> heap_shape h bs \<and> available h = free_bytes bs"
  by (auto simp: heap_ok_def heap_shape_def)

definition join_result :: "nat \<Rightarrow> heap \<Rightarrow> block list \<Rightarrow> block list \<Rightarrow> heap \<Rightarrow> bool" where
  "join_result b h others bs h2 \<longleftrightarrow>
     (\<exists>blk h1. coalesce b h = Some (blk, h1) \<and> insert_free_block blk h1 = Some h2) \<and> heap_shape h2 bs \<and>
     heap_base h2 = heap_base h \<and> available h2 = available h \<and> same_payloads others h h2"

lemma join_blocks:
  assumes h1: "heap_geometry h1" "phys (memory h1) 0 (heap_base h1) (us @ mid @ vs) (heap_end h1)"
    "\<forall>x \<in> set (us @ vs). owner_ok (memory h1) x" "lists_ok h1 (free_set (us @ vs))"
    and mid: "mid = (a, t0, w0) # rest" "t = total_bytes mid"
    and run: "block_size h b = Some s" "merge_previous b s h = Some (a, s', h')" "merge_next a s' h' = Some (t, h1)"
    and same: "heap_base h1 = heap_base h" "available h1 = available h" "same_payloads (us @ vs) h h1"
  shows "\<exists>h2. join_result b h (us @ vs) (us @ (a, t, None) # vs) h2"
proof -
  obtain j h2 where j: "\<And>f :: heap \<Rightarrow> (nat \<times> heap) option. Option.bind (block_set_size a t h1) (\<lambda>h3. Option.bind (block_clear_used a h3)
      (\<lambda>h4. Option.bind (block_set_prev_phys_of_next a a h4) f)) = f j"
    and h2: "insert_free_block a j = Some h2" "phys (memory h2) 0 (heap_base h1) (us @ (a, t, None) # vs) (heap_end h1)"
    "\<forall>x \<in> set (us @ (a, t, None) # vs). owner_ok (memory h2) x" "lists_ok h2 (free_set (us @ (a, t, None) # vs))"
    "heap_geometry h2" "heap_base h2 = heap_base h1" "available h2 = available h1" "same_payloads (us @ vs) h1 h2"
    by (rule join_ok [OF h1(1,2) mid h1(3,4)]) (rule that)
  have "heap_end h2 = heap_end h1"
    using h2(5,6) h1(1) by (simp add: heap_geometry_def)
  then have "heap_shape h2 (us @ (a, t, None) # vs)"
    using h2 unfolding heap_shape_def by simp
  moreover have "coalesce b h = Some (a, j)"
    using run j by (simp add: coalesce_def)
  moreover have "same_payloads (us @ vs) h h2"
    by (rule same_payloads_trans [OF same(3) h2(8)])
  ultimately have "join_result b h (us @ vs) (us @ (a, t, None) # vs) h2"
    unfolding join_result_def using h2(1,6,7) same(1,2) by simp
  then show ?thesis
    by blast
qed

lemma coalesce_floating:
  assumes f: "floating h xs b s ys"
  shows "\<exists>h2. join_result b h (xs @ ys) (coalesced xs b s ys) h2"
proof -
  note D = floatingD [OF f]
  have sz: "block_size h b = Some s"
    using block_size_at [OF block_at_words(1) [OF D(7)], of s False] D(6) block_at_even [OF D(7)] by simp
  consider (prev) us c t where "xs = us @ [(c, t, None)]"
    | (next_) c t vs where "xs \<noteq> [] \<Longrightarrow> snd (snd (last xs)) \<noteq> None" "ys = (c, t, None) # vs"
    | (alone) "xs \<noteq> [] \<Longrightarrow> snd (snd (last xs)) \<noteq> None" "ys = [] \<or> snd (snd (hd ys)) \<noteq> None"
  proof (cases "xs \<noteq> [] \<and> snd (snd (last xs)) = None")
    case True
    then have "xs = butlast xs @ [(fst (last xs), fst (snd (last xs)), None)]"
      by (metis append_butlast_last_id prod.collapse)
    then show thesis
      using prev by blast
  next
    case False
    show thesis
    proof (cases "ys \<noteq> [] \<and> snd (snd (hd ys)) = None")
      case True
      then have "ys = (fst (hd ys), fst (snd (hd ys)), None) # tl ys"
        by (metis list.collapse prod.collapse)
      then show thesis
        using False by (intro next_) auto
    next
      case F2: False
      show thesis
        by (rule alone) (use False F2 in auto)
    qed
  qed
  then show ?thesis
  proof cases
    case prev
    obtain h1 where h1: "merge_previous b s h = Some (c, s + t, h1)" "lists_ok h1 (free_set (us @ ys))"
      "heap_geometry h1" "heap_base h1 = heap_base h" "heap_end h1 = heap_end h" "available h1 = available h"
      "phys (memory h1) 0 (heap_base h) (us @ [(c, t, None), (b, s, None)] @ ys) (heap_end h)"
      "\<forall>x \<in> set (us @ ys). owner_ok (memory h1) x" "same_payloads (us @ ys) h h1"
      by (rule merge_previous_some [OF f [unfolded prev]]) (rule that)
    have ph: "phys (memory h1) 0 (heap_base h1) (us @ [(c, t, None), (b, s, None)] @ ys) (heap_end h1)"
      using h1(4,5,7) by simp
    have mn: "merge_next c (s + t) h1 = Some (s + t, h1)"
      by (rule merge_next_none [OF h1(3) ph refl]) simp_all
    have "\<exists>h2. join_result b h (us @ ys) (us @ (c, s + t, None) # ys) h2"
      by (rule join_blocks [OF h1(3) ph h1(8,2) refl _ sz h1(1) mn h1(4,6,9)]) simp
    moreover have "same_payloads (xs @ ys) h h2 = same_payloads (us @ ys) h h2" for h2
      by (auto simp: prev same_payloads_def)
    ultimately show ?thesis
      by (simp add: join_result_def coalesced_def prev add.commute)
  next
    case next_
    have mp: "merge_previous b s h = Some (b, s, h)"
      by (rule merge_previous_none [OF f next_(1)])
    obtain h1 where h1: "merge_next b s h = Some (s + t, h1)" "lists_ok h1 (free_set (xs @ vs))"
      "heap_geometry h1" "heap_base h1 = heap_base h" "heap_end h1 = heap_end h" "available h1 = available h"
      "phys (memory h1) 0 (heap_base h) (xs @ [(b, s, None), (c, t, None)] @ vs) (heap_end h)"
      "\<forall>x \<in> set (xs @ vs). owner_ok (memory h1) x" "same_payloads (xs @ vs) h h1"
      by (rule merge_next_some [OF f [unfolded next_(2)]]) (rule that)
    have ph: "phys (memory h1) 0 (heap_base h1) (xs @ [(b, s, None), (c, t, None)] @ vs) (heap_end h1)"
      using h1(4,5,7) by simp
    have "\<exists>h2. join_result b h (xs @ vs) (xs @ (b, s + t, None) # vs) h2"
      by (rule join_blocks [OF h1(3) ph h1(8,2) refl _ sz mp h1(1) h1(4,6,9)]) simp
    moreover have "same_payloads (xs @ ys) h h2 = same_payloads (xs @ vs) h h2" for h2
      by (auto simp: next_(2) same_payloads_def)
    moreover have "coalesced xs b s ys = xs @ (b, s + t, None) # vs"
      using next_ by (auto simp: coalesced_def)
    ultimately show ?thesis
      by (simp add: join_result_def)
  next
    case alone
    have mp: "merge_previous b s h = Some (b, s, h)"
      by (rule merge_previous_none [OF f alone(1)])
    have ph: "phys (memory h) 0 (heap_base h) (xs @ [(b, s, None)] @ ys) (heap_end h)"
      using D(2) by simp
    have mn: "merge_next b s h = Some (s, h)"
      by (rule merge_next_none [OF D(1) ph refl]) (use alone(2) in auto)
    have "\<exists>h2. join_result b h (xs @ ys) (xs @ (b, s, None) # ys) h2"
      by (rule join_blocks [OF D(1) ph D(3,4) refl _ sz mp mn]) (simp_all add: same_payloads_def)
    moreover have "coalesced xs b s ys = xs @ (b, s, None) # ys"
      using alone by (cases ys) (auto simp: coalesced_def split: option.split)
    ultimately show ?thesis
      by simp
  qed
qed

lemma coalesced_bytes:
  "free_bytes (coalesced xs b s ys) = free_bytes (xs @ ys) + s" "total_bytes (coalesced xs b s ys) = total_bytes (xs @ ys) + s"
proof -
  have "free_bytes (coalesced xs b s ys) = free_bytes (xs @ ys) + s \<and>
      total_bytes (coalesced xs b s ys) = total_bytes (xs @ ys) + s"
  proof (cases "xs \<noteq> [] \<and> snd (snd (last xs)) = None")
    case True
    then have "xs = butlast xs @ [(fst (last xs), fst (snd (last xs)), None)]"
      by (metis append_butlast_last_id prod.collapse)
    then have "free_bytes xs = free_bytes (butlast xs) + fst (snd (last xs))"
      "total_bytes xs = total_bytes (butlast xs) + fst (snd (last xs))"
      by (metis add.right_neutral free_bytes_simps(1,2,4), metis add.right_neutral total_bytes_simps)
    then show ?thesis
      using True by (simp add: coalesced_def)
  next
    case False
    then show ?thesis
      by (auto simp: coalesced_def split: list.split option.split)
  qed
  then show "free_bytes (coalesced xs b s ys) = free_bytes (xs @ ys) + s" "total_bytes (coalesced xs b s ys) = total_bytes (xs @ ys) + s"
    by simp_all
qed

lemma same_payloads_owners:
  assumes sp: "same_payloads bs h h'" and ph: "phys m p a bs' e" and "set bs \<subseteq> set bs'" "\<forall>x \<in> set bs. owner_ok (memory h) x"
  shows "\<forall>x \<in> set bs. owner_ok (memory h') x"
proof
  fix x
  assume x: "x \<in> set bs"
  obtain b s w where e: "x = (b, s, w)"
    by (cases x)
  have "32 \<le> s"
    using phys_bounds [OF ph, of b s w] assms(3) x e by auto
  then show "owner_ok (memory h') x"
    using same_payloads_owner [OF sp] assms(4) x e by blast
qed

lemma header_of_owner:
  assumes g: "heap_geometry h" and blk: "block_at h b s" and m: "memory h b = s + 1"
    and ow: "owner_ok (memory h) (b, s, Some (p, n))"
  shows "header_of h p (p - 16) = Some b" "16 \<le> p" "p \<noteq> 0"
proof -
  have s: "s mod 16 = 0" "b mod 16 = 0" "32 \<le> s" "heap_base h \<le> b" "b + s \<le> heap_end h" "heap_start h = heap_base h"
    "s mod 2 = 0" "b + s < USIZE_LIMIT"
    using g blk block_at_even [OF blk] by (auto simp: block_at_def heap_geometry_def)
  have m1: "memory h b = s + of_bool True"
    using m by simp
  have rd: "block_size h b = Some s" "block_is_used h b = Some True"
    using block_size_at [OF block_at_words(1) [OF blk] m1 s(7)] block_is_used_at [OF block_at_words(1) [OF blk] m1 s(7)] .
  have wa: "wrapping_add b 16 = b + 16" "wrapping_add b s = b + s"
    using s by (simp_all add: wrapping_add_def)
  have odd: "(s + 1) mod 16 \<noteq> 0"
    using s(1) by (simp add: mod_Suc)
  from ow consider "p = b + 16" | "p = b + 32" "memory h (b + 16) = b" "p + n + 8 \<le> b + s"
    by (auto simp: owner_ok_def)
  then have "header_of h p (p - 16) = Some b \<and> 16 \<le> p"
  proof cases
    case 1
    then show ?thesis
      using m odd block_at_words(1) [OF blk] by (simp add: header_of_def load_def heap_consts)
  next
    case 2
    have e: "p - 16 = b + 16"
      using 2(1) by simp
    show ?thesis
      unfolding header_of_def e load_def heap_consts
      using 2 s rd wa block_at_words(3) [OF blk] by (simp add: Let_def)
  qed
  then show "header_of h p (p - 16) = Some b" "16 \<le> p" "p \<noteq> 0"
    by auto
qed

lemma deallocate_ok:
  assumes ok: "heap_ok h (xs @ (b, s, Some (p, n)) # ys)"
  shows "\<exists>h'. deallocate_locked p h = Some (True, h') \<and> heap_ok h' (coalesced xs b s ys) \<and>
    same_payloads (xs @ ys) h h' \<and> heap_base h' = heap_base h"
proof -
  let ?bs = "xs @ (b, s, Some (p, n)) # ys"
  have g: "heap_geometry h" and ph: "phys (memory h) 0 (heap_base h) ?bs (heap_end h)"
    and ow: "\<forall>x \<in> set ?bs. owner_ok (memory h) x" and l: "lists_ok h (free_set ?bs)"
    and av: "available h = free_bytes ?bs"
    using ok by (auto simp: heap_ok_def)
  have blk: "block_at h b s"
    using phys_block_at [OF g ph, of b s "Some (p, n)"] by simp
  have m: "memory h b = s + 1"
    using phys_header [OF ph, of b s "Some (p, n)"] by simp
  have owb: "owner_ok (memory h) (b, s, Some (p, n))"
    using ow by simp
  note H = header_of_owner [OF g blk m owb]
  have s: "32 \<le> s" "s mod 2 = 0" "heap_base h \<le> b" "b < heap_end h" "heap_start h = heap_base h" "b + s < USIZE_LIMIT"
    using blk g block_at_even [OF blk] by (auto simp: block_at_def heap_geometry_def)
  have m1: "memory h b = s + of_bool True"
    using m by simp
  have rd: "block_size h b = Some s" "block_is_used h b = Some True"
    using block_size_at [OF block_at_words(1) [OF blk] m1 s(2)] block_is_used_at [OF block_at_words(1) [OF blk] m1 s(2)] .
  have "wrapping_sub (wrapping_add b s) 8 = b + s - 8"
    using s by (simp add: wrapping_add_def wrapping_sub_le)
  then have can: "canary_check h b = Some (Inr ())"
    using rd(1) s(1) owb block_at_words(4) [OF blk] by (simp add: canary_check_def load_def owner_ok_def heap_consts)
  have total: "free_bytes (xs @ ys) + s \<le> KERNEL_HEAP_SIZE"
    using phys_total [OF ph] free_le_total [of "xs @ ys"] g by (simp add: heap_geometry_def)
  have sat: "saturating_add (available h) s = available h + s"
    using total av by (simp add: saturating_add_def heap_consts)
  define h0 where "h0 = h\<lparr>available := available h + s\<rparr>"
  define h1 where "h1 = put b s h0"
  have clr: "block_clear_used b h0 = Some h1"
    using block_at_words(1) [OF blk] m s(2)
    by (simp add: block_clear_used_def block_raw_size_def load_def store_put without_flag_def h1_def h0_def word_at_def mod_Suc)
  have f: "floating h1 xs b s ys"
    unfolding floating_def
  proof (intro conjI)
    show "heap_geometry h1"
      using g by (simp add: h1_def h0_def heap_geometry_def)
    have fr: "memory h1 x = memory h x" if "x \<noteq> b" for x
      using that by (simp add: h1_def h0_def)
    have eq: "heap_base h1 = heap_base h" "heap_end h1 = heap_end h"
      by (simp_all add: h1_def h0_def)
    have sp: "phys (memory h) 0 (heap_base h) xs b" "phys (memory h) b (b + s) ys (heap_end h)"
      "memory h (b + 8) = last_addr 0 xs" "16 dvd b" "16 dvd s"
      using ph by (auto simp: phys_append)
    have "phys (memory h1) 0 (heap_base h) xs b = phys (memory h) 0 (heap_base h) xs b"
      using phys_bounds [OF sp(1)] by (intro phys_frame conjI fr) fastforce+
    moreover have "phys (memory h1) b (b + s) ys (heap_end h) = phys (memory h) b (b + s) ys (heap_end h)"
      using phys_bounds [OF sp(2)] s(1) by (intro phys_frame conjI fr) fastforce+
    moreover have "memory h1 b = s" "memory h1 (b + 8) = last_addr 0 xs"
      using sp(3) by (simp_all add: h1_def h0_def)
    ultimately show "phys (memory h1) 0 (heap_base h1) (xs @ (b, s, None) # ys) (heap_end h1)"
      using sp s(1) unfolding eq by (auto simp: phys_append)
    have "same_payloads (xs @ ys) h h1"
      unfolding same_payloads_def using phys_split_apart [OF ph] s(1) by (intro allI impI fr) fastforce
    then show "\<forall>x \<in> set (xs @ ys). owner_ok (memory h1) x"
      by (rule same_payloads_owners [OF _ ph]) (use ow in auto)
    have l0: "lists_ok h0 (free_set (xs @ ys))"
      using l by (simp add: h0_def lists_ok_def block_at_def)
    have away: "\<forall>(c, t) \<in> free_set (xs @ ys). b \<notin> {c..<c + t}"
      using phys_split_apart [OF ph] s(1) by (fastforce simp: free_set_def)
    show "lists_ok h1 (free_set (xs @ ys))"
      unfolding h1_def by (rule lists_ok_put [OF l0 disjI2 [OF away]])
  qed
  obtain h2 where j: "join_result b h1 (xs @ ys) (coalesced xs b s ys) h2"
    using coalesce_floating [OF f] by blast
  have "free_block b s h = Some h2"
    using j sat clr unfolding join_result_def by (auto simp: free_block_def h0_def Let_def)
  then have "deallocate_locked p h = Some (True, h2)"
    using H rd can s by (simp add: deallocate_locked_def heap_consts)
  moreover have "available h2 = free_bytes (coalesced xs b s ys)"
    using j av unfolding join_result_def coalesced_bytes by (simp add: h1_def h0_def)
  moreover have "same_payloads (xs @ ys) h h1"
    unfolding same_payloads_def using phys_split_apart [OF ph] s(1)
    by (intro allI impI) (fastforce simp: h1_def h0_def)
  ultimately show ?thesis
    using j same_payloads_trans unfolding join_result_def heap_ok_shape by (auto simp: h1_def h0_def)
qed

end
