(* ===== verification/Heap_Safety.thy ===== *)
theory Heap_Safety
  imports Heap_Allocation
begin

text \<open>
  The kernel heap under any use by its clients: the initial heap, the allocator's own check of its
  blocks, the interface of an allocator and its proof for this one, and the properties of the heap.
\<close>

unbundle bit_operations_syntax

section \<open>The initial heap\<close>

definition base_ok :: "nat \<Rightarrow> bool" where
  "base_ok base \<longleftrightarrow> 16 dvd base \<and> 0 < base \<and> base + KERNEL_HEAP_SIZE < USIZE_LIMIT"

lemma initialize_ok:
  assumes "base_ok base"
  shows "\<exists>h. initialize (new_heap base) = Some h \<and> heap_base h = base \<and> heap_ok h [(base, KERNEL_HEAP_SIZE, None)]"
proof -
  define h0 where "h0 = (new_heap base)\<lparr>heap_start := base, heap_end := base + KERNEL_HEAP_SIZE,
    available := KERNEL_HEAP_SIZE, initialized := True\<rparr>"
  define h1 where "h1 = put (base + 8) 0 (put base KERNEL_HEAP_SIZE h0)"
  have g0: "heap_geometry h0"
    using assms by (simp add: h0_def new_heap_def heap_geometry_def base_ok_def heap_consts)
  have b0: "block_at h0 base KERNEL_HEAP_SIZE" "heap_base h0 = base"
    using assms by (auto simp: h0_def new_heap_def block_at_def base_ok_def heap_consts)
  have g1: "heap_geometry h1" "block_at h1 base KERNEL_HEAP_SIZE" "memory h1 base = KERNEL_HEAP_SIZE"
    "memory h1 (base + 8) = 0" "heap_base h1 = base" "heap_end h1 = base + KERNEL_HEAP_SIZE" "available h1 = KERNEL_HEAP_SIZE"
    using g0 b0 by (simp_all add: h1_def h0_def)
  have l1: "lists_ok h1 {}"
    unfolding lists_ok_def
  proof (intro conjI allI impI)
    fix i :: nat
    assume "i < 704"
    then show "\<exists>xs. chain (memory h1) (free_lists h1 ! i) xs \<and> set xs = {b. \<exists>s. (b, s) \<in> {} \<and> class_of s = i}"
      by (intro exI [of _ "[]"]) (simp add: h1_def h0_def new_heap_def heap_consts)
  qed (simp_all add: h1_def h0_def new_heap_def heap_consts)
  obtain h where h: "insert_free_block base h1 = Some h" "lists_ok h (insert (base, KERNEL_HEAP_SIZE) {})"
    "same_but {base + 16..<base + KERNEL_HEAP_SIZE} h1 h"
    by (rule insert_free_block_ok [OF g1(1) l1 g1(2,3)]) (simp, rule that)
  have "initialize (new_heap base) = Some h"
  proof -
    have "word_at h0 base" "word_at h0 (base + 8)" "KERNEL_HEAP_SIZE mod 2 = 0" "base mod 16 = 0"
      using block_at_words [OF b0(1)] assms by (simp_all add: heap_consts base_ok_def mod_eq_0_iff_dvd)
    then show ?thesis
      using h(1) unfolding initialize_def h1_def
      by (simp add: Let_def h0_def [symmetric] set_size_clear block_set_prev_phys_def store_put heap_consts(2)
          new_heap_def [of base, THEN arg_cong [of _ _ heap_base]])
  qed
  moreover have "heap_ok h [(base, KERNEL_HEAP_SIZE, None)]"
  proof -
    have "heap_geometry h" "heap_base h = base" "heap_end h = base + KERNEL_HEAP_SIZE" "available h = KERNEL_HEAP_SIZE"
      using same_but_geometry [OF h(3) g1(1)] h(3) g1 by (auto simp: same_but_def)
    moreover have "memory h base = KERNEL_HEAP_SIZE" "memory h (base + 8) = 0"
      using same_but_memory [OF h(3)] g1 by auto
    moreover have "16 dvd base" "16 dvd KERNEL_HEAP_SIZE" "32 \<le> KERNEL_HEAP_SIZE"
      using assms by (simp_all add: base_ok_def heap_consts)
    ultimately show ?thesis
      using h(2) by (simp add: heap_ok_def owner_ok_def)
  qed
  moreover have "heap_base h = base"
    using h(3) g1(5) by (simp add: same_but_def)
  ultimately show ?thesis
    by blast
qed

section \<open>The walk\<close>

lemma check_blocks_ok:
  assumes "heap_geometry h" "phys (memory h) p a bs (heap_end h)" "heap_base h \<le> a" "prev = None \<or> prev = Some p"
  shows "check_blocks h a prev = Some (Inr (heap_end h))"
  using assms(2-4)
proof (induction bs arbitrary: p a prev)
  case Nil
  then show ?case
    by (subst check_blocks.simps) simp
next
  case (Cons x bs)
  obtain b s w where x: "x = (b, s, w)"
    by (cases x)
  have p: "b = a" "memory h a = s + of_bool (w \<noteq> None)" "memory h (a + 8) = p" "16 dvd a" "16 dvd s" "32 \<le> s"
    "phys (memory h) a (a + s) bs (heap_end h)"
    using Cons.prems(1) x by auto
  have le: "a + s \<le> heap_end h"
    using phys_le [OF p(7)] .
  have B: "block_at h a s"
    using p le Cons.prems(2) assms(1) by (simp add: block_at_def heap_geometry_def)
  have rd: "block_size h a = Some s"
    using block_size_at [OF block_at_words(1) [OF B] p(2) block_at_even [OF B]] .
  have wa: "wrapping_add a s = a + s"
    using wrapping_add_heap [OF assms(1)] le assms(1) by (simp add: heap_geometry_def)
  have this_ok: "(case prev of None \<Rightarrow> Some True | Some q \<Rightarrow> map_option (\<lambda>p. p = q) (block_prev_phys h a)) = Some True"
    using Cons.prems(3) p(3) block_at_words(2) [OF B] by (auto simp: block_prev_phys_def load_def)
  have next_ok: "(if a + s < heap_end h then map_option (\<lambda>p. p = a) (block_prev_phys h (a + s)) else Some True) = Some True"
  proof (cases bs)
    case Nil
    then show ?thesis
      using p(7) by simp
  next
    case (Cons y ys)
    obtain c t v where y: "y = (c, t, v)"
      by (cases y)
    have "memory h (a + s + 8) = a" "16 dvd a + s" "16 dvd t" "32 \<le> t" "phys (memory h) (a + s) (a + s + t) ys (heap_end h)"
      using p(7) Cons y by auto
    moreover from this have "block_at h (a + s) t"
      using phys_le [of "memory h" "a + s" "a + s + t" ys "heap_end h"] Cons.prems(2) assms(1)
      by (simp add: block_at_def heap_geometry_def)
    ultimately show ?thesis
      using block_at_words(2) [of h "a + s" t] by (simp add: block_prev_phys_def load_def)
  qed
  have "check_blocks h a prev = check_blocks h (a + s) (Some a)"
    using p(4,5,6) le rd wa next_ok this_ok
    by (subst check_blocks.simps) (simp add: heap_consts Let_def mod_eq_0_iff_dvd)
  also have "\<dots> = Some (Inr (heap_end h))"
    using Cons.prems(2) by (intro Cons.IH [OF p(7)]) auto
  finally show ?case .
qed

lemma check_invariants_ok: "heap_ok h bs \<Longrightarrow> check_invariants h = Some (Inr ())"
  using check_blocks_ok [of h 0 "heap_base h" bs None]
  by (auto simp: check_invariants_def heap_ok_def heap_geometry_def heap_consts)

section \<open>Clients\<close>

text \<open>The heap and the live allocations, address and size: allocating, freeing, and a client writing
  into the words of its allocation.\<close>

inductive heap_reachable :: "nat \<Rightarrow> heap \<Rightarrow> (nat \<times> nat) set \<Rightarrow> bool" for base where
  start: "initialize (new_heap base) = Some h \<Longrightarrow> heap_reachable base h {}"
| alloc: "heap_reachable base h A \<Longrightarrow> layout_ok n align \<Longrightarrow> alloc n align h = Some (p, h') \<Longrightarrow>
    heap_reachable base h' (if p = 0 then A else insert (p, n) A)"
| free: "heap_reachable base h A \<Longrightarrow> (p, n) \<in> A \<Longrightarrow> dealloc p h = Some h' \<Longrightarrow> heap_reachable base h' (A - {(p, n)})"
| client: "heap_reachable base h A \<Longrightarrow> (p, n) \<in> A \<Longrightarrow> 8 dvd a \<Longrightarrow> p \<le> a \<Longrightarrow> a < p + n \<Longrightarrow>
    heap_reachable base (h\<lparr>memory := (memory h)(a := v)\<rparr>) A"

definition live :: "block list \<Rightarrow> (nat \<times> nat) set" where
  "live bs = {(p, n). \<exists>b s. (b, s, Some (p, n)) \<in> set bs}"

lemma live_simps [simp]:
  "live [] = {}" "live ((b, s, None) # bs) = live bs" "live ((b, s, Some (p, n)) # bs) = insert (p, n) (live bs)"
  "live (xs @ ys) = live xs \<union> live ys"
  by (auto simp: live_def)

lemma live_carved: "live (carved c s ah ae n) = {(ah + 16, n)}"
  by (simp add: carved_def)

lemma live_coalesced: "live (coalesced xs b s ys) = live (xs @ ys)"
proof (cases "xs \<noteq> [] \<and> snd (snd (last xs)) = None")
  case True
  then have "xs = butlast xs @ [(fst (last xs), fst (snd (last xs)), None)]"
    by (metis append_butlast_last_id prod.collapse)
  then have "live xs = live (butlast xs)"
    by (metis live_simps(1,2,4) sup_bot_right)
  then show ?thesis
    using True by (simp add: coalesced_def)
qed (auto simp: coalesced_def split: list.split option.split)

text \<open>Every payload lies in the heap, apart from every other.\<close>

lemma live_apart:
  assumes "heap_ok h bs" "(b, s, Some (p, n)) \<in> set bs" "(b', s', Some (p', n')) \<in> set bs"
    "(b, s, Some (p, n)) \<noteq> (b', s', Some (p', n'))"
  shows "p + n + 8 \<le> p' \<or> p' + n' + 8 \<le> p"
proof -
  have ph: "phys (memory h) 0 (heap_base h) bs (heap_end h)" and ow: "\<forall>x \<in> set bs. owner_ok (memory h) x"
    using assms(1) by (auto simp: heap_ok_def)
  have "apart (b, s) (b', s')"
    using phys_apart [OF ph assms(2,3,4)] .
  moreover have "b \<le> p" "p + n + 8 \<le> b + s" "b' \<le> p'" "p' + n' + 8 \<le> b' + s'"
    using ow assms(2,3) by (fastforce simp: owner_ok_def)+
  ultimately show ?thesis
    by (auto simp: apart_def)
qed

lemma live_in_heap:
  assumes "heap_ok h bs" "(b, s, Some (p, n)) \<in> set bs"
  shows "heap_base h + 16 \<le> p" "p + n + 8 \<le> heap_base h + KERNEL_HEAP_SIZE"
proof -
  have ph: "phys (memory h) 0 (heap_base h) bs (heap_end h)" and ow: "owner_ok (memory h) (b, s, Some (p, n))"
    and g: "heap_geometry h"
    using assms by (auto simp: heap_ok_def)
  then show "heap_base h + 16 \<le> p" "p + n + 8 \<le> heap_base h + KERNEL_HEAP_SIZE"
    using phys_bounds [OF ph assms(2)] by (auto simp: owner_ok_def heap_geometry_def)
qed

lemma client_write_ok:
  assumes ok: "heap_ok h bs" and p: "(p, n) \<in> live bs" and a: "8 dvd a" "p \<le> a" "a < p + n"
  shows "heap_ok (put a v h) bs"
proof -
  have g: "heap_geometry h" and ph: "phys (memory h) 0 (heap_base h) bs (heap_end h)"
    and ow: "\<forall>x \<in> set bs. owner_ok (memory h) x" and l: "lists_ok h (free_set bs)" and av: "available h = free_bytes bs"
    using ok by (auto simp: heap_ok_def)
  obtain b s where b: "(b, s, Some (p, n)) \<in> set bs"
    using p by (auto simp: live_def)
  have pb: "p = b + 16 \<or> p = b + 32 \<and> memory h (b + 16) = b" "p + n + 8 \<le> b + s"
    using ow b by (fastforce simp: owner_ok_def)+
  have outside: "a \<notin> {c..<c + t}" if "(c, t, w) \<in> set bs" "(c, t, w) \<noteq> (b, s, Some (p, n))" for c t w
    using phys_apart [OF ph that(1) b that(2)] a pb by (auto simp: apart_def)
  have s: "32 \<le> s" "16 dvd b" "16 dvd s"
    using phys_bounds [OF ph b] by auto
  show ?thesis
    unfolding heap_ok_def put_simps
  proof (intro conjI g av)
    show "phys ((memory h)(a := v)) 0 (heap_base h) bs (heap_end h)"
    proof (subst phys_frame [where m = "memory h"])
      fix c t w
      assume c: "(c, t, w) \<in> set bs"
      then have "c \<noteq> a" "c + 8 \<noteq> a"
        using outside [OF c] phys_bounds [OF ph c] a pb by (cases "(c, t, w) = (b, s, Some (p, n))"; auto)+
      then show "((memory h)(a := v)) c = memory h c \<and> ((memory h)(a := v)) (c + 8) = memory h (c + 8)"
        by simp
    qed (rule ph)
    show "\<forall>x \<in> set bs. owner_ok ((memory h)(a := v)) x"
    proof
      fix x
      assume x: "x \<in> set bs"
      obtain c t w where e: "x = (c, t, w)"
        by (cases x)
      have t: "32 \<le> t"
        using phys_bounds [OF ph] x e by auto
      show "owner_ok ((memory h)(a := v)) x"
      proof (cases "x = (b, s, Some (p, n))")
        case True
        have "8 dvd b + s - 8"
          using s by (auto elim!: dvdE)
        then have "a \<noteq> b + s - 8" "p = b + 32 \<Longrightarrow> a \<noteq> b + 16"
          using a pb by auto
        moreover have "owner_ok (memory h) x"
          using ow x by blast
        ultimately show ?thesis
          using True by (auto simp: owner_ok_def)
      next
        case False
        then have "a \<noteq> c + 16" "a \<noteq> c + t - 8"
          using outside [of c t w] x e t by auto
        moreover have "owner_ok (memory h) x"
          using ow x by blast
        ultimately show ?thesis
          using e by (auto simp: owner_ok_def split: option.splits)
      qed
    qed
    have "\<forall>(c, t) \<in> free_set bs. a \<notin> {c..<c + t}"
      using outside by (auto simp: free_set_def)
    then show "lists_ok (put a v h) (free_set bs)"
      by (intro lists_ok_put [OF l disjI2])
  qed
qed

lemma alloc_ok:
  assumes ok: "heap_ok h bs" and lay: "layout_ok n align"
  shows "\<exists>p h'. alloc n align h = Some (p, h') \<and> heap_base h' = heap_base h \<and>
    (p = 0 \<and> allocation_failed (start_class (initial_min_block_size (reserved_size n) (max align HEAP_BLOCK_ALIGNMENT)))
        (initial_min_block_size (reserved_size n) (max align HEAP_BLOCK_ALIGNMENT)) bs h h' \<or>
     allocation_made (reserved_size n) (max align HEAP_BLOCK_ALIGNMENT) n bs h p h')"
proof -
  obtain k where k: "4 \<le> k" "k < 64" "max align HEAP_BLOCK_ALIGNMENT = 2 ^ k"
    using layout_align [OF lay] .
  have r: "9 \<le> reserved_size n" "reserved_size n < 2 ^ 63 + 8" "n + 8 \<le> reserved_size n"
    using layout_reserved [OF lay] lay by (auto simp: layout_ok_def)
  have "initialized h"
    using ok by (simp add: heap_ok_def heap_geometry_def)
  then show ?thesis
    using search_block_ok [OF r(1,2) k(1,2) r(3) ok min_block_size_ge [OF r(1,2) k(1,2)]] k(3)
    by (simp add: alloc_def with_state_def allocate_locked_def Let_def)
qed

lemma dealloc_ok:
  assumes ok: "heap_ok h (xs @ (b, s, Some (p, n)) # ys)"
  shows "\<exists>h'. dealloc p h = Some h' \<and> heap_ok h' (coalesced xs b s ys) \<and> same_payloads (xs @ ys) h h' \<and>
    heap_base h' = heap_base h"
proof -
  have "initialized h"
    using ok by (simp add: heap_ok_def heap_geometry_def)
  then show ?thesis
    using deallocate_ok [OF ok] by (auto simp: dealloc_def with_state_def)
qed

lemma live_split:
  assumes "heap_ok h bs" "(p, n) \<in> live bs"
  obtains xs b s ys where "bs = xs @ (b, s, Some (p, n)) # ys" "live bs - {(p, n)} = live (xs @ ys)"
proof -
  obtain b s where "(b, s, Some (p, n)) \<in> set bs"
    using assms(2) by (auto simp: live_def)
  then obtain xs ys where bs: "bs = xs @ (b, s, Some (p, n)) # ys"
    by (meson split_list)
  have "(p, n) \<notin> live (xs @ ys)"
  proof
    assume "(p, n) \<in> live (xs @ ys)"
    then obtain c t where c: "(c, t, Some (p, n)) \<in> set (xs @ ys)"
      by (auto simp: live_def)
    have ph: "phys (memory h) 0 (heap_base h) bs (heap_end h)"
      using assms(1) by (simp add: heap_ok_def)
    have "32 \<le> s"
      using phys_bounds [OF ph, of b s] bs by auto
    then have "(b, s, Some (p, n)) \<noteq> (c, t, Some (p, n))"
      using c phys_split_apart [OF ph [unfolded bs], of c t "Some (p, n)"] by auto
    then show False
      using live_apart [OF assms(1), of b s p n c t p n] c bs by auto
  qed
  then show thesis
    using that [OF bs] bs by auto
qed

lemma reachable_ok:
  assumes "heap_reachable base h A" "base_ok base"
  shows "\<exists>bs. heap_ok h bs \<and> live bs = A \<and> heap_base h = base"
  using assms(1)
proof (induction rule: heap_reachable.induct)
  case (start h)
  then show ?case
    using initialize_ok [OF assms(2)] by (intro exI [of _ "[(base, KERNEL_HEAP_SIZE, None)]"]) auto
next
  case (alloc h A n align p h')
  then obtain bs where bs: "heap_ok h bs" "live bs = A" "heap_base h = base"
    by blast
  from alloc_ok [OF bs(1) alloc.hyps(2)] alloc.hyps(3) bs(3) have b: "heap_base h' = base"
    and c: "p = 0 \<and> heap_ok h' bs \<or> allocation_made (reserved_size n) (max align HEAP_BLOCK_ALIGNMENT) n bs h p h'"
    by (auto simp: allocation_failed_def)
  from c show ?case
  proof
    assume "p = 0 \<and> heap_ok h' bs"
    then show ?thesis
      using bs b by auto
  next
    assume "allocation_made (reserved_size n) (max align HEAP_BLOCK_ALIGNMENT) n bs h p h'"
    then obtain xs c s ys ah ae where m: "bs = xs @ (c, s, None) # ys" "p = ah + 16"
      "heap_ok h' (xs @ carved c s ah ae n @ ys)"
      unfolding allocation_made_def by blast
    have "live (xs @ carved c s ah ae n @ ys) = insert (p, n) A" "p \<noteq> 0"
      using bs(2) m(1,2) by (auto simp: live_carved)
    then show ?thesis
      using m(3) b by auto
  qed
next
  case (free h A p n h')
  then obtain bs where bs: "heap_ok h bs" "live bs = A" "heap_base h = base"
    by blast
  obtain xs b s ys where sp: "bs = xs @ (b, s, Some (p, n)) # ys" "live bs - {(p, n)} = live (xs @ ys)"
    using live_split [OF bs(1)] free.hyps(2) bs(2) by blast
  show ?case
    using dealloc_ok [OF bs(1) [unfolded sp(1)]] free.hyps(3) sp(2) bs(2,3) live_coalesced by auto
next
  case (client h A p n a v)
  then obtain bs where bs: "heap_ok h bs" "live bs = A" "heap_base h = base"
    by blast
  then show ?case
    using client_write_ok [OF bs(1), of p n a v] client.hyps by (auto simp: put_def)
qed

section \<open>The interface of the allocator\<close>

text \<open>What a client of an allocator relies on, over the live allocations: a request never fails to
  return; what it returns is null or an aligned address apart from every live allocation; a live
  allocation can be freed; and neither touches the contents of the others.\<close>

definition contents_kept :: "(nat \<times> nat) set \<Rightarrow> (nat \<Rightarrow> nat) \<Rightarrow> (nat \<Rightarrow> nat) \<Rightarrow> bool" where
  "contents_kept A m m' \<longleftrightarrow> (\<forall>q k x. (q, k) \<in> A \<and> q \<le> x \<and> x < q + k \<longrightarrow> m' x = m x)"

definition fresh_for :: "nat \<Rightarrow> nat \<Rightarrow> (nat \<times> nat) set \<Rightarrow> bool" where
  "fresh_for p n A \<longleftrightarrow> (\<forall>q k. (q, k) \<in> A \<longrightarrow> p + n + 8 \<le> q \<or> q + k + 8 \<le> p)"

inductive others ::
  "(nat \<Rightarrow> nat \<Rightarrow> 'h \<Rightarrow> (nat \<times> 'h) option) \<Rightarrow> (nat \<Rightarrow> 'h \<Rightarrow> 'h option) \<Rightarrow> nat \<times> nat \<Rightarrow>
     'h \<Rightarrow> (nat \<times> nat) set \<Rightarrow> 'h \<Rightarrow> (nat \<times> nat) set \<Rightarrow> bool" for acquire release own h A where
  none: "others acquire release own h A h A"
| get: "others acquire release own h A h1 A1 \<Longrightarrow> layout_ok n align \<Longrightarrow> acquire n align h1 = Some (p, h2) \<Longrightarrow>
    others acquire release own h A h2 (if p = 0 then A1 else insert (p, n) A1)"
| put: "others acquire release own h A h1 A1 \<Longrightarrow> (p, n) \<in> A1 \<Longrightarrow> (p, n) \<noteq> own \<Longrightarrow> release p h1 = Some h2 \<Longrightarrow>
    others acquire release own h A h2 (A1 - {(p, n)})"

locale block_allocator =
  fixes state_ok :: "'h \<Rightarrow> (nat \<times> nat) set \<Rightarrow> bool"
    and acquire :: "nat \<Rightarrow> nat \<Rightarrow> 'h \<Rightarrow> (nat \<times> 'h) option"
    and release :: "nat \<Rightarrow> 'h \<Rightarrow> 'h option"
    and contents :: "'h \<Rightarrow> nat \<Rightarrow> nat"
  assumes acquire_law: "state_ok h A \<Longrightarrow> layout_ok n align \<Longrightarrow>
      \<exists>p h'. acquire n align h = Some (p, h') \<and> contents_kept A (contents h) (contents h') \<and>
        (p = 0 \<and> state_ok h' A \<or> p \<noteq> 0 \<and> state_ok h' (insert (p, n) A) \<and> align dvd p \<and> fresh_for p n A)"
    and release_law: "state_ok h A \<Longrightarrow> (p, n) \<in> A \<Longrightarrow>
      \<exists>h'. release p h = Some h' \<and> state_ok h' (A - {(p, n)}) \<and> contents_kept (A - {(p, n)}) (contents h) (contents h')"
begin

lemma acquire_ok:
  assumes "state_ok h A" "layout_ok n align" "acquire n align h = Some (p, h')"
  shows "state_ok h' (if p = 0 then A else insert (p, n) A)" "contents_kept A (contents h) (contents h')"
  using acquire_law [OF assms(1,2)] assms(3) by auto

lemma release_ok:
  assumes "state_ok h A" "(p, n) \<in> A" "release p h = Some h'"
  shows "state_ok h' (A - {(p, n)})" "contents_kept (A - {(p, n)}) (contents h) (contents h')"
  using release_law [OF assms(1,2)] assms(3) by auto

lemma others_keep:
  assumes "others acquire release (q, m) h A h' A'" "state_ok h A" "(q, m) \<in> A"
  shows "state_ok h' A' \<and> (q, m) \<in> A' \<and> (\<forall>x. q \<le> x \<and> x < q + m \<longrightarrow> contents h' x = contents h x)"
  using assms(1)
proof (induction rule: others.induct)
  case none
  then show ?case
    using assms(2,3) by simp
next
  case (get h1 A1 n align p h2)
  then show ?case
    using acquire_ok [of h1 A1 n align p h2] by (auto simp: contents_kept_def)
next
  case (put h1 A1 p n h2)
  then have "(q, m) \<in> A1 - {(p, n)}"
    by auto
  then show ?case
    using put release_ok [of h1 A1 p n h2] unfolding contents_kept_def by metis
qed

end

definition heap_state :: "nat \<Rightarrow> heap \<Rightarrow> (nat \<times> nat) set \<Rightarrow> bool" where
  "heap_state base h A \<longleftrightarrow> (\<exists>bs. heap_ok h bs \<and> live bs = A \<and> heap_base h = base)"

lemma payload_bounds:
  assumes "heap_ok h bs" "(b, s, Some (p, n)) \<in> set bs"
  shows "b + 16 \<le> p" "p + n + 8 \<le> b + s"
proof -
  have "owner_ok (memory h) (b, s, Some (p, n))"
    using assms by (simp add: heap_ok_def)
  then show "b + 16 \<le> p" "p + n + 8 \<le> b + s"
    by (auto simp: owner_ok_def)
qed

lemma same_payloads_contents:
  assumes "heap_ok h bs" "set cs \<subseteq> set bs" "same_payloads cs h h'"
  shows "contents_kept (live cs) (memory h) (memory h')"
  unfolding contents_kept_def
proof (intro allI impI, elim conjE)
  fix q k x
  assume q: "(q, k) \<in> live cs" "q \<le> x" "x < q + k"
  then obtain b s where b: "(b, s, Some (q, k)) \<in> set cs"
    by (auto simp: live_def)
  then have "b + 16 \<le> q" "q + k + 8 \<le> b + s"
    using payload_bounds [OF assms(1), of b s q k] assms(2) by auto
  then have "b + 16 \<le> x" "x < b + s"
    using q by auto
  then show "memory h' x = memory h x"
    using assms(3) b unfolding same_payloads_def by blast
qed

lemma heap_acquire:
  assumes "heap_state base h A" "layout_ok n align"
  shows "\<exists>p h'. alloc n align h = Some (p, h') \<and> contents_kept A (memory h) (memory h') \<and>
    (p = 0 \<and> heap_state base h' A \<or> p \<noteq> 0 \<and> heap_state base h' (insert (p, n) A) \<and> align dvd p \<and> fresh_for p n A)"
proof -
  obtain bs where bs: "heap_ok h bs" "live bs = A" "heap_base h = base"
    using assms(1) by (auto simp: heap_state_def)
  obtain p h' where r: "alloc n align h = Some (p, h')" "heap_base h' = base"
    "p = 0 \<and> heap_ok h' bs \<and> same_payloads bs h h' \<or>
     allocation_made (reserved_size n) (max align HEAP_BLOCK_ALIGNMENT) n bs h p h'"
    using alloc_ok [OF bs(1) assms(2)] bs(3) unfolding allocation_failed_def by auto
  from r(3) show ?thesis
  proof
    assume "p = 0 \<and> heap_ok h' bs \<and> same_payloads bs h h'"
    then show ?thesis
      using r bs same_payloads_contents [OF bs(1) subset_refl] by (auto simp: heap_state_def)
  next
    assume "allocation_made (reserved_size n) (max align HEAP_BLOCK_ALIGNMENT) n bs h p h'"
    then obtain xs c s ys ah ae where m: "bs = xs @ (c, s, None) # ys" "p = ah + 16" "max align HEAP_BLOCK_ALIGNMENT dvd p"
      "heap_ok h' (xs @ carved c s ah ae n @ ys)" "same_payloads (xs @ ys) h h'" "room h c s ah ae"
      "ah + 16 + reserved_size n \<le> ae"
      unfolding allocation_made_def by blast
    let ?bs' = "xs @ carved c s ah ae n @ ys"
    have lv: "live ?bs' = insert (p, n) A" "live (xs @ ys) = A"
      using bs(2) m(1,2) by (auto simp: live_carved)
    have k: "contents_kept A (memory h) (memory h')"
      using same_payloads_contents [OF bs(1) _ m(5)] lv(2) m(1) by auto
    obtain k where "4 \<le> k" "k < 64" "max align HEAP_BLOCK_ALIGNMENT = 2 ^ k"
      using layout_align [OF assms(2)] .
    moreover have "align dvd max align HEAP_BLOCK_ALIGNMENT"
    proof -
      obtain j where "align = 2 ^ j"
        using assms(2) by (auto simp: layout_ok_def)
      moreover have "(2 :: nat) ^ j \<le> 2 ^ 4 \<Longrightarrow> (2 :: nat) ^ j dvd 2 ^ 4"
        by (intro le_imp_power_dvd) (metis one_less_numeral_iff power_le_imp_le_exp semiring_norm(76))
      ultimately show ?thesis
        by (auto simp: max_def heap_consts)
    qed
    ultimately have al: "align dvd p"
      using m(3) dvd_trans by blast
    have pn: "c \<le> p" "p + n + 8 \<le> c + s"
      using m(2,6,7) layout_reserved [OF assms(2)] by (auto simp: room_def)
    have ph: "phys (memory h) 0 (heap_base h) (xs @ (c, s, None) # ys) (heap_end h)"
      using bs(1) m(1) by (auto simp: heap_ok_def)
    have "fresh_for p n A"
      unfolding fresh_for_def
    proof (intro allI impI)
      fix q j
      assume "(q, j) \<in> A"
      then obtain b t where b: "(b, t, Some (q, j)) \<in> set (xs @ ys)"
        using lv(2) by (auto simp: live_def)
      then have "b + t \<le> c \<or> c + s \<le> b"
        using phys_split_apart [OF ph] by auto
      moreover have "b \<le> q" "q + j + 8 \<le> b + t"
        using payload_bounds [OF bs(1), of b t q j] b m(1) by auto
      ultimately show "p + n + 8 \<le> q \<or> q + j + 8 \<le> p"
        using pn by linarith
    qed
    then show ?thesis
      using r m(2,4) k al lv by (auto simp: heap_state_def)
  qed
qed

lemma heap_release:
  assumes "heap_state base h A" "(p, n) \<in> A"
  shows "\<exists>h'. dealloc p h = Some h' \<and> heap_state base h' (A - {(p, n)}) \<and>
    contents_kept (A - {(p, n)}) (memory h) (memory h')"
proof -
  obtain bs where bs: "heap_ok h bs" "live bs = A" "heap_base h = base"
    using assms(1) by (auto simp: heap_state_def)
  obtain xs b s ys where sp: "bs = xs @ (b, s, Some (p, n)) # ys" "live bs - {(p, n)} = live (xs @ ys)"
    using live_split [OF bs(1)] assms(2) bs(2) by blast
  obtain h' where h': "dealloc p h = Some h'" "heap_ok h' (coalesced xs b s ys)" "same_payloads (xs @ ys) h h'"
    "heap_base h' = heap_base h"
    using dealloc_ok [OF bs(1) [unfolded sp(1)]] by blast
  have "contents_kept (live (xs @ ys)) (memory h) (memory h')"
    using same_payloads_contents [OF bs(1) _ h'(3)] sp(1) by auto
  then show ?thesis
    using h' sp(2) bs(2,3) by (auto simp: heap_state_def live_coalesced)
qed

interpretation kernel_heap: block_allocator "heap_state base" alloc dealloc memory for base
  by unfold_locales (rule heap_acquire heap_release; assumption)+

lemma reachable_state: "heap_reachable base h A \<Longrightarrow> base_ok base \<Longrightarrow> heap_state base h A"
  using reachable_ok by (simp add: heap_state_def)

section \<open>Walking the blocks\<close>

text \<open>The blocks of a heap, found from its memory alone.\<close>

inductive block_start :: "heap \<Rightarrow> nat \<Rightarrow> bool" for h where
  first: "block_start h (heap_start h)"
| step: "block_start h b \<Longrightarrow> b < heap_end h \<Longrightarrow> block_size h b = Some s \<Longrightarrow> block_start h (b + s)"

definition free_block_at :: "heap \<Rightarrow> nat \<Rightarrow> nat \<Rightarrow> bool" where
  "free_block_at h b s \<longleftrightarrow>
     block_start h b \<and> b < heap_end h \<and> block_is_used h b = Some False \<and> block_size h b = Some s"

lemma block_reads:
  assumes "heap_ok h bs" "(b, s, w) \<in> set bs"
  shows "block_size h b = Some s" "block_is_used h b = Some (w \<noteq> None)" "b < heap_end h" "b + s \<le> heap_end h"
proof -
  have ph: "phys (memory h) 0 (heap_base h) bs (heap_end h)" and g: "heap_geometry h"
    using assms(1) by (auto simp: heap_ok_def)
  have B: "block_at h b s"
    using phys_block_at [OF g ph assms(2)] .
  have m: "memory h b = s + of_bool (w \<noteq> None)"
    using phys_header [OF ph assms(2)] .
  show "block_size h b = Some s"
    using block_size_at [OF block_at_words(1) [OF B] m block_at_even [OF B]] .
  show "block_is_used h b = Some (w \<noteq> None)"
    using block_at_words(1) [OF B] block_at_even [OF B] m
    by (auto simp: block_is_used_def block_raw_size_def load_def)
  show "b < heap_end h" "b + s \<le> heap_end h"
    using phys_bounds [OF ph assms(2)] by auto
qed

lemma block_start_upto:
  assumes "heap_ok h (xs @ ys)"
  shows "\<exists>c. block_start h c \<and> phys (memory h) (last_addr 0 xs) c ys (heap_end h)"
  using assms
proof (induction xs arbitrary: ys rule: rev_induct)
  case Nil
  then show ?case
    by (auto simp: heap_ok_def heap_geometry_def intro!: exI [of _ "heap_start h"] first)
next
  case (snoc x xs)
  obtain b s w where x: "x = (b, s, w)"
    by (cases x)
  obtain c where c: "block_start h c" "phys (memory h) (last_addr 0 xs) c ((b, s, w) # ys) (heap_end h)"
    using snoc.IH [of "x # ys"] snoc.prems x by auto
  have "block_size h b = Some s" "b < heap_end h"
    using block_reads [OF snoc.prems, of b s w] x by auto
  then have "block_start h (c + s)"
    using c by (intro step) auto
  then show ?case
    using c x by auto
qed

lemma block_start_in:
  assumes ok: "heap_ok h bs" and "block_start h b"
  shows "b = heap_end h \<or> (\<exists>s w. (b, s, w) \<in> set bs)"
  using assms(2)
proof (induction rule: block_start.induct)
  case first
  have "phys (memory h) 0 (heap_base h) bs (heap_end h)" "heap_start h = heap_base h"
    using ok by (auto simp: heap_ok_def heap_geometry_def)
  then show ?case
    by (cases bs) (auto, metis)
next
  case (step b s)
  then obtain s' w where b: "(b, s', w) \<in> set bs"
    by auto
  then have s: "s' = s"
    using block_reads(1) [OF ok b] step.hyps(3) by simp
  obtain xs ys where bs: "bs = xs @ (b, s, w) # ys"
    using b s by (meson split_list)
  then have "phys (memory h) b (b + s) ys (heap_end h)"
    using ok by (auto simp: heap_ok_def phys_append)
  then show ?case
    using bs by (cases ys) (auto, metis)
qed

lemma free_block_at_iff:
  assumes "heap_ok h bs"
  shows "free_block_at h b s \<longleftrightarrow> (b, s, None) \<in> set bs"
proof
  assume f: "free_block_at h b s"
  then obtain t w where t: "(b, t, w) \<in> set bs"
    using block_start_in [OF assms, of b] by (auto simp: free_block_at_def)
  then show "(b, s, None) \<in> set bs"
    using f block_reads(1,2) [OF assms t] by (cases w) (auto simp: free_block_at_def)
next
  assume b: "(b, s, None) \<in> set bs"
  then obtain xs ys where bs: "bs = xs @ (b, s, None) # ys"
    by (meson split_list)
  then have "block_start h b"
    using block_start_upto [of h xs "(b, s, None) # ys"] assms by auto
  then show "free_block_at h b s"
    using block_reads [OF assms b] by (simp add: free_block_at_def)
qed

lemma free_bytes_sum: "phys m p a bs e \<Longrightarrow> free_bytes bs = (\<Sum>(b, s) \<in> free_set bs. s)"
proof (induction m p a bs e rule: phys.induct)
  case (2 m p a b s w bs e)
  have ph: "phys m a (a + s) bs e" "0 < s" "b = a"
    using 2(2) by auto
  have "finite (free_set bs)"
    by (rule finite_subset [of _ "(\<lambda>(b, s, w). (b, s)) ` set bs"]) (force simp: free_set_def)+
  moreover have "(b, s) \<notin> free_set bs"
    using phys_bounds [OF ph(1), of b s None] ph(2,3) by (auto simp: free_set_def)
  moreover have "free_set ((b, s, w) # bs) = (if w = None then insert (b, s) (free_set bs) else free_set bs)"
    by (auto simp: free_set_def)
  ultimately show ?case
    using 2(1) ph by (simp add: free_bytes_def)
qed (simp add: free_bytes_def free_set_def)

lemma live_empty_bytes: "live bs = {} \<Longrightarrow> free_bytes bs = total_bytes bs"
proof (induction bs)
  case (Cons x bs)
  obtain b s w where x: "x = (b, s, w)"
    by (cases x)
  then have "w = None" "live bs = {}"
    using Cons.prems by (cases w; auto)+
  then show ?case
    using Cons.IH x by (simp add: free_bytes_def)
qed (simp add: free_bytes_def)

lemma class_step: "class_of t \<le> class_of s \<Longrightarrow> 32 \<le> s \<Longrightarrow> 32 \<le> t \<Longrightarrow> 32 * t < 33 * s"
proof -
  assume a: "class_of t \<le> class_of s" "32 \<le> s" "32 \<le> t"
  let ?i = "class_of s"
  have "t < class_min (Suc ?i)"
    using class_of_bounds(2) [OF a(3)] class_min_mono [of "Suc (class_of t)" "Suc ?i"] a(1) by simp
  also have "class_min (Suc ?i) = (33 + ?i mod 32) * 2 ^ (?i div 32)"
    by (rule class_min_Suc)
  finally have "32 * t < (32 * (33 + ?i mod 32)) * 2 ^ (?i div 32)"
    by (simp only: mult.assoc)
  also have "\<dots> \<le> (33 * (32 + ?i mod 32)) * 2 ^ (?i div 32)"
    by (intro mult_right_mono) auto
  also have "\<dots> = 33 * class_min ?i"
    by (simp add: class_min_def)
  also have "\<dots> \<le> 33 * s"
    using class_of_bounds(1) [OF a(2)] by simp
  finally show ?thesis .
qed

lemma alloc_null_small:
  assumes ok: "heap_ok h bs" and lay: "layout_ok n align" and null: "alloc n align h = Some (0, h')"
    and low: "heap_base h + 3 * KERNEL_HEAP_SIZE < USIZE_LIMIT" and t: "(b, t, None) \<in> set bs"
  shows "32 * t < 33 * initial_min_block_size (reserved_size n) (max align HEAP_BLOCK_ALIGNMENT)"
proof -
  let ?need = "initial_min_block_size (reserved_size n) (max align HEAP_BLOCK_ALIGNMENT)"
  obtain k where k: "4 \<le> k" "k < 64" "max align HEAP_BLOCK_ALIGNMENT = 2 ^ k"
    using layout_align [OF lay] .
  have r: "9 \<le> reserved_size n" "reserved_size n < 2 ^ 63 + 8"
    using layout_reserved [OF lay] lay by (auto simp: layout_ok_def)
  have need: "32 \<le> ?need"
    using min_block_size_ge [OF r k(1,2)] k(3) by simp
  have "\<not> allocation_made (reserved_size n) (max align HEAP_BLOCK_ALIGNMENT) n bs h 0 h'"
    by (simp add: allocation_made_def)
  then have "allocation_failed (start_class ?need) ?need bs h h'"
    using alloc_ok [OF ok lay] null by auto
  then have f: "start_class ?need \<le> class_of t \<longrightarrow> class_of t \<le> class_of ?need"
    using low t unfolding allocation_failed_def free_set_def by blast
  have "phys (memory h) 0 (heap_base h) bs (heap_end h)" "heap_geometry h"
    using ok by (auto simp: heap_ok_def)
  then have s: "32 \<le> t" "t \<le> KERNEL_HEAP_SIZE"
    using phys_bounds [of "memory h" 0 "heap_base h" bs "heap_end h" b t None] t by (auto simp: heap_geometry_def)
  show ?thesis
  proof (cases "?need < 2 * KERNEL_HEAP_SIZE")
    case True
    then have "class_of t \<le> class_of ?need"
      using f start_class_eq [OF need] by auto
    then show ?thesis
      using class_step need s(1) by blast
  next
    case False
    then show ?thesis
      using s by linarith
  qed
qed

section \<open>The scan of the free lists\<close>

lemma scan_list_chain:
  assumes "heap_geometry h" "chain (memory h) a xs"
    "\<And>b. b \<in> set xs \<Longrightarrow> \<exists>s. block_at h b s \<and> memory h b = s" "d \<le> 10000"
  shows "scan_list h a d \<noteq> None \<longleftrightarrow> length xs + d \<le> 10000"
  using assms(2-4)
proof (induction xs arbitrary: a d)
  case Nil
  then show ?case
    by (subst scan_list.simps) simp
next
  case (Cons x xs)
  obtain s where s: "block_at h x s" "memory h x = s"
    using Cons.prems(2) [of x] by auto
  obtain r where r: "mapping s = Some r"
    using mapping_props s(1) unfolding block_at_def by (metis option.exhaust)
  have v: "validate_block h x = Some r"
    using validate_block_at [OF assms(1) s(1), of False] s(2) r by simp
  have n: "block_next_free h x = Some (memory h (x + 16))"
    using block_at_words(3) [OF s(1)] by (simp add: block_next_free_def load_def heap_consts)
  have "scan_list h (memory h (x + 16)) (d + 1) \<noteq> None \<longleftrightarrow> length xs + (d + 1) \<le> 10000" if "d < 10000"
    using Cons.prems that by (intro Cons.IH) auto
  then show ?case
    using Cons.prems v n by (subst scan_list.simps) (cases "d < 10000"; simp)
qed

lemma scan_free_lists_iff:
  assumes ok: "heap_ok h bs"
  shows "scan_free_lists h \<noteq> None \<longleftrightarrow> (\<forall>i < 704. card {b. \<exists>s. free_block_at h b s \<and> class_of s = i} \<le> 10000)"
proof -
  have g: "heap_geometry h" and l: "lists_ok h (free_set bs)"
    using ok by (auto simp: heap_ok_def)
  have one: "scan_list h (free_lists h ! i) 0 \<noteq> None \<longleftrightarrow> card {b. \<exists>s. free_block_at h b s \<and> class_of s = i} \<le> 10000"
    if i: "i < 704" for i
  proof -
    obtain xs where xs: "chain (memory h) (free_lists h ! i) xs" "set xs = {b. \<exists>s. (b, s) \<in> free_set bs \<and> class_of s = i}"
      using lists_okD(4) [OF l i] by blast
    have "\<exists>s. block_at h b s \<and> memory h b = s" if "b \<in> set xs" for b
      using lists_okD(1,2) [OF l] that xs(2) by blast
    moreover have "card {b. \<exists>s. free_block_at h b s \<and> class_of s = i} = length xs"
      using distinct_card [OF chain_distinct [OF xs(1)]] xs(2) free_block_at_iff [OF ok] by (simp add: free_set_def)
    ultimately show ?thesis
      using scan_list_chain [OF g xs(1), of 0] by simp
  qed
  have empty: "scan_list h 0 0 \<noteq> None"
    by (subst scan_list.simps) simp
  have "scan_free_lists h \<noteq> None \<longleftrightarrow> (\<forall>i < 22. bit (fl_bitmap h) i \<longrightarrow>
      (\<forall>j < 32. bit (sl_bitmaps h ! i) j \<longrightarrow> scan_list h (free_lists h ! (i * 32 + j)) 0 \<noteq> None))"
  proof -
    have bits: "list_all P (set_bits_of w) \<longleftrightarrow> (\<forall>j < 32. bit w j \<longrightarrow> P j)" for P w
      by (auto simp: set_bits_of_def list_all_iff)
    have upto: "(\<forall>i < 32. bit w i \<longrightarrow> k \<le> i \<or> P i) \<longleftrightarrow> (\<forall>i < k. bit w i \<longrightarrow> P i)" if "k \<le> 32" for w :: u32 and k P
      using that by (meson leD leI order_less_le_trans)
    have idx: "list_index (i + FL_MIN) j = Some (i * 32 + j)" if "i < 22" "j < 32" for i j
      using that by (simp add: list_index_def heap_consts)
    have k: "FL_COUNT = 22" "SL_COUNT = 32"
      by (simp_all add: heap_consts)
    have "scan_free_lists h \<noteq> None \<longleftrightarrow> (\<forall>i < 22. bit (fl_bitmap h) i \<longrightarrow> (\<forall>j < 32. bit (sl_bitmaps h ! i) j \<longrightarrow>
        (case list_index (i + FL_MIN) j of None \<Rightarrow> False | Some idx \<Rightarrow> scan_list h (free_lists h ! idx) 0 \<noteq> None)))"
      unfolding scan_free_lists_def bits k upto [OF order_refl] by (subst upto) simp_all
    then show ?thesis
      using idx by simp
  qed
  also have "\<dots> \<longleftrightarrow> (\<forall>i < 22. \<forall>j < 32. scan_list h (free_lists h ! (i * 32 + j)) 0 \<noteq> None)"
    using lists_okD(5,6) [OF l] empty word_zero_iff_bits by metis
  also have "\<dots> \<longleftrightarrow> (\<forall>i < 704. scan_list h (free_lists h ! i) 0 \<noteq> None)"
  proof (intro iffI allI impI)
    fix i :: nat
    assume a: "\<forall>i < 22. \<forall>j < 32. scan_list h (free_lists h ! (i * 32 + j)) 0 \<noteq> None" and "i < 704"
    then have "i div 32 < 22" "i mod 32 < 32"
      by auto
    then have "scan_list h (free_lists h ! (i div 32 * 32 + i mod 32)) 0 \<noteq> None"
      using a by blast
    then show "scan_list h (free_lists h ! i) 0 \<noteq> None"
      by simp
  qed auto
  finally show ?thesis
    using one by auto
qed

section \<open>A run\<close>

text \<open>Four allocations of 100 bytes at the start of the heap, on a concrete base address.\<close>

lemma alloc_100:
  assumes ok: "heap_ok h (xs @ [(c, s, None)])" and xs: "free_set xs = {}" and s: "1000 \<le> s"
    and low: "heap_base h + 3 * KERNEL_HEAP_SIZE < USIZE_LIMIT"
  shows "\<exists>h'. alloc 100 8 h = Some (c + 16, h') \<and>
    heap_ok h' (xs @ [(c, 128, Some (c + 16, 100)), (c + 128, s - 128, None)]) \<and> heap_base h' = heap_base h"
proof -
  have lay: "layout_ok 100 8"
    by (auto simp: layout_ok_def intro: exI [of _ 3])
  have res: "reserved_size 100 = 108" "max 8 HEAP_BLOCK_ALIGNMENT = 2 ^ 4"
    by (simp_all add: reserved_size_def saturating_add_def heap_consts)
  have need: "initial_min_block_size 108 (2 ^ 4) = 128"
    by (subst min_block_size) auto
  have null: "alloc 100 8 h \<noteq> Some (0, h')" for h'
    using alloc_null_small [OF ok lay _ low, of h' c s] s need by (auto simp: res)
  obtain p h' where h': "alloc 100 8 h = Some (p, h')" "heap_base h' = heap_base h"
    "allocation_made 108 (2 ^ 4) 100 (xs @ [(c, s, None)]) h p h'"
    using alloc_ok [OF ok lay] null unfolding res by blast
  obtain us d t vs ah ae where m: "xs @ [(c, s, None)] = us @ (d, t, None) # vs"
    "placement d 108 (2 ^ 4) = Some (p, ah, ae)" "heap_ok h' (us @ carved d t ah ae 100 @ vs)"
    using h'(3) unfolding allocation_made_def by blast
  have us: "us = xs" "d = c" "t = s" "vs = []"
  proof -
    have "vs = []"
    proof (cases vs rule: rev_cases)
      case (snoc ws w)
      then have "xs = us @ (d, t, None) # ws"
        using m(1) by simp
      then show ?thesis
        using xs by (auto simp: free_set_def)
    qed
    then show "us = xs" "d = c" "t = s" "vs = []"
      using m(1) by auto
  qed
  have c16: "16 dvd c" "c + s \<le> heap_end h" "heap_end h = heap_base h + KERNEL_HEAP_SIZE"
    using ok by (auto simp: heap_ok_def phys_append heap_geometry_def)
  note P = placement_Some [OF m(2) [unfolded us], simplified, OF c16(1)]
  have "ah < c + 16" "ae < ah + 140" "ah + 124 \<le> ae"
    using P(1,6,8,9) by linarith+
  moreover obtain x y z where xyz: "c = 16 * x" "ah = 16 * y" "ae = 16 * z"
    using P(3,4) c16(1) by (auto elim!: dvdE)
  ultimately have "y < x + 1" "z < y + 9" "y + 7 < z"
    by linarith+
  then have "p = c + 16 \<and> ah = c \<and> ae = c + 128"
    using P(1,2) xyz by simp
  moreover have "carved c s c (c + 128) 100 = [(c, 128, Some (c + 16, 100)), (c + 128, s - 128, None)]"
    using s by (simp add: carved_def alloc_from_def alloc_limit_def)
  ultimately show ?thesis
    using h' m(3) unfolding us by auto
qed

lemma four_allocations:
  "\<exists>h. heap_reachable 4096 h {(4112, 100), (4240, 100), (4368, 100), (4496, 100)} \<and>
     heap_ok h [(4096, 128, Some (4112, 100)), (4224, 128, Some (4240, 100)), (4352, 128, Some (4368, 100)),
       (4480, 128, Some (4496, 100)), (4608, 67108352, None)]"
proof -
  have lay: "layout_ok 100 8"
    by (auto simp: layout_ok_def intro: exI [of _ 3])
  have fs: "free_set [] = {}" "\<And>b s v bs. free_set ((b, s, Some v) # bs) = free_set bs"
    by (auto simp: free_set_def)
  obtain h0 where h0: "initialize (new_heap 4096) = Some h0" "heap_base h0 = 4096"
    "heap_ok h0 ([] @ [(4096, 67108864, None)])"
    using initialize_ok [of 4096] by (auto simp: base_ok_def heap_consts)
  have r0: "heap_reachable 4096 h0 {}"
    using h0(1) by (rule heap_reachable.start)
  obtain h1 where h1: "alloc 100 8 h0 = Some (4112, h1)" "heap_base h1 = 4096"
    "heap_ok h1 ([(4096, 128, Some (4112, 100))] @ [(4224, 67108736, None)])"
    using alloc_100 [OF h0(3)] h0(2) by (auto simp: fs heap_consts)
  have r1: "heap_reachable 4096 h1 {(4112, 100)}"
    using heap_reachable.alloc [OF r0 lay h1(1)] by simp
  obtain h2 where h2: "alloc 100 8 h1 = Some (4240, h2)" "heap_base h2 = 4096"
    "heap_ok h2 ([(4096, 128, Some (4112, 100)), (4224, 128, Some (4240, 100))] @ [(4352, 67108608, None)])"
    using alloc_100 [OF h1(3)] h1(2) by (auto simp: fs heap_consts)
  have r2: "heap_reachable 4096 h2 {(4112, 100), (4240, 100)}"
    using heap_reachable.alloc [OF r1 lay h2(1)] by (simp add: insert_commute)
  obtain h3 where h3: "alloc 100 8 h2 = Some (4368, h3)" "heap_base h3 = 4096"
    "heap_ok h3 ([(4096, 128, Some (4112, 100)), (4224, 128, Some (4240, 100)), (4352, 128, Some (4368, 100))] @
       [(4480, 67108480, None)])"
    using alloc_100 [OF h2(3)] h2(2) by (auto simp: fs heap_consts)
  have r3: "heap_reachable 4096 h3 {(4112, 100), (4240, 100), (4368, 100)}"
    using heap_reachable.alloc [OF r2 lay h3(1)] by (simp add: insert_commute)
  obtain h4 where h4: "alloc 100 8 h3 = Some (4496, h4)"
    "heap_ok h4 [(4096, 128, Some (4112, 100)), (4224, 128, Some (4240, 100)), (4352, 128, Some (4368, 100)),
       (4480, 128, Some (4496, 100)), (4608, 67108352, None)]"
    using alloc_100 [OF h3(3)] h3(2) by (auto simp: fs heap_consts)
  have "heap_reachable 4096 h4 {(4112, 100), (4240, 100), (4368, 100), (4496, 100)}"
    using heap_reachable.alloc [OF r3 lay h4(1)] by (simp add: insert_commute)
  then show ?thesis
    using h4(2) by blast
qed

lemma heap_state_bounds:
  assumes "heap_state base h A" "(p, n) \<in> A"
  shows "base + HEADER_SIZE \<le> p \<and> p + n + CANARY_SIZE \<le> base + KERNEL_HEAP_SIZE"
proof -
  obtain bs where bs: "heap_ok h bs" "live bs = A" "heap_base h = base"
    using assms(1) by (auto simp: heap_state_def)
  then obtain b s where "(b, s, Some (p, n)) \<in> set bs"
    using assms(2) by (auto simp: live_def)
  then show ?thesis
    using live_in_heap [OF bs(1)] bs(3) by (auto simp: heap_consts)
qed

section \<open>Properties\<close>

text \<open>C4: however clients have used the heap, a request for any layout Rust admits returns, without
  a panic, an access outside the heap or an endless loop; it returns null or an address aligned as asked,
  whose bytes lie in the heap and apart from every live allocation, and it keeps the contents of all of them.\<close>

theorem heap_alloc_safe:
  assumes "base_ok base" "heap_reachable base h A" "layout_ok n align"
  shows "\<exists>p h'. alloc n align h = Some (p, h') \<and>
    (p \<noteq> 0 \<longrightarrow> align dvd p \<and> base + HEADER_SIZE \<le> p \<and> p + n + CANARY_SIZE \<le> base + KERNEL_HEAP_SIZE \<and>
       (\<forall>(q, m) \<in> A. p + n \<le> q \<or> q + m \<le> p)) \<and>
    (\<forall>(q, m) \<in> A. \<forall>x. q \<le> x \<and> x < q + m \<longrightarrow> memory h' x = memory h x)"
proof -
  obtain p h' where r: "alloc n align h = Some (p, h')" "contents_kept A (memory h) (memory h')"
    "p = 0 \<and> heap_state base h' A \<or>
     p \<noteq> 0 \<and> heap_state base h' (insert (p, n) A) \<and> align dvd p \<and> fresh_for p n A"
    using kernel_heap.acquire_law [OF reachable_state [OF assms(2,1)] assms(3)] by blast
  have "base + HEADER_SIZE \<le> p \<and> p + n + CANARY_SIZE \<le> base + KERNEL_HEAP_SIZE" if "p \<noteq> 0"
    using r(3) that heap_state_bounds [of base h' "insert (p, n) A" p n] by blast
  moreover have "\<forall>(q, m) \<in> A. p + n \<le> q \<or> q + m \<le> p" if "p \<noteq> 0"
  proof -
    have f: "fresh_for p n A"
      using r(3) that by blast
    have "p + n \<le> q \<or> q + m \<le> p" if "(q, m) \<in> A" for q m
      using f that unfolding fresh_for_def by (meson add_leD1)
    then show ?thesis
      by blast
  qed
  moreover have "\<forall>(q, m) \<in> A. \<forall>x. q \<le> x \<and> x < q + m \<longrightarrow> memory h' x = memory h x"
    using r(2) by (auto simp: contents_kept_def)
  ultimately show ?thesis
    using r(1,3) by blast
qed

theorem heap_alloc_safe_witness:
  "\<exists>h p h'. heap_reachable 4096 h {(4112, 100), (4240, 100), (4368, 100), (4496, 100)} \<and>
     alloc 40 64 h = Some (p, h') \<and>
     (p \<noteq> 0 \<longrightarrow> 64 dvd p \<and> 4112 \<le> p \<and> (p + 40 \<le> 4112 \<or> 4212 \<le> p)) \<and> memory h' 4112 = memory h 4112"
proof -
  obtain h where h: "heap_reachable 4096 h {(4112, 100), (4240, 100), (4368, 100), (4496, 100)}"
    using four_allocations by blast
  have "base_ok 4096" "layout_ok 40 64"
    by (auto simp: base_ok_def layout_ok_def heap_consts intro: exI [of _ 6])
  from heap_alloc_safe [OF this(1) h this(2)] obtain p h' where r: "alloc 40 64 h = Some (p, h')"
    "p \<noteq> 0 \<longrightarrow> 64 dvd p \<and> 4096 + HEADER_SIZE \<le> p \<and> (p + 40 \<le> 4112 \<or> 4112 + 100 \<le> p)"
    "\<forall>x. 4112 \<le> x \<and> x < 4112 + 100 \<longrightarrow> memory h' x = memory h x"
    by (simp only: insert_iff ball_simps prod.case) blast
  from r(2) have "p \<noteq> 0 \<longrightarrow> 64 dvd p \<and> 4112 \<le> p \<and> (p + 40 \<le> 4112 \<or> 4212 \<le> p)"
    by (simp add: heap_consts)
  then show ?thesis
    using h r(1,3) by auto
qed

text \<open>C11: freeing any live allocation returns, without a panic, a damaged canary or an endless loop, and
  keeps the contents of every other live allocation.\<close>

theorem heap_free_safe:
  assumes "base_ok base" "heap_reachable base h A" "(p, n) \<in> A"
  shows "\<exists>h'. deallocate_locked p h = Some (True, h') \<and> dealloc p h = Some h' \<and>
    (\<forall>(q, m) \<in> A - {(p, n)}. \<forall>x. q \<le> x \<and> x < q + m \<longrightarrow> memory h' x = memory h x)"
proof -
  obtain h' where r: "dealloc p h = Some h'" "contents_kept (A - {(p, n)}) (memory h) (memory h')"
    using kernel_heap.release_law [OF reachable_state [OF assms(2,1)] assms(3)] by blast
  obtain bs where bs: "heap_ok h bs" "live bs = A"
    using reachable_ok [OF assms(2,1)] by blast
  have "(p, n) \<in> live bs"
    using bs(2) assms(3) by simp
  then obtain xs b s ys where split: "bs = xs @ (b, s, Some (p, n)) # ys"
    by (rule live_split [OF bs(1)]) (rule that)
  have "\<exists>h'. deallocate_locked p h = Some (True, h')"
    using deallocate_ok [OF bs(1) [unfolded split]] by blast
  moreover have "initialized h"
    using bs(1) by (simp add: heap_ok_def heap_geometry_def)
  ultimately have "deallocate_locked p h = Some (True, h')"
    using r(1) by (auto simp: dealloc_def with_state_def)
  then show ?thesis
    using r by (auto simp: contents_kept_def)
qed

theorem heap_free_safe_witness:
  "\<exists>h h'. heap_reachable 4096 h {(4112, 100), (4240, 100), (4368, 100), (4496, 100)} \<and>
     deallocate_locked 4240 h = Some (True, h') \<and> memory h' 4368 = memory h 4368"
proof -
  obtain h where h: "heap_reachable 4096 h {(4112, 100), (4240, 100), (4368, 100), (4496, 100)}"
    using four_allocations by blast
  have "base_ok 4096"
    by (simp add: base_ok_def heap_consts)
  then obtain h' where r: "deallocate_locked 4240 h = Some (True, h')"
    "\<forall>(q, m) \<in> {(4112, 100), (4240, 100), (4368, 100), (4496, 100)} - {(4240, 100)}.
       \<forall>x. q \<le> x \<and> x < q + m \<longrightarrow> memory h' x = memory h x"
    using heap_free_safe [OF _ h, of 4240 100] by auto
  have "memory h' 4368 = memory h 4368"
    using bspec [OF r(2), of "(4368, 100)"] by simp
  then show ?thesis
    using h r(1) by blast
qed

text \<open>C12: in every state clients can reach, the allocator's own check of the block chain passes, the free
  byte count is the sum of the sizes of the free blocks found by walking the heap, and it is the whole heap
  once every allocation has been freed.\<close>

theorem heap_walk_passes:
  assumes "base_ok base" "heap_reachable base h A"
  shows "check_invariants h = Some (Inr ()) \<and> available h = (\<Sum>(b, s) | free_block_at h b s. s) \<and>
    (A = {} \<longrightarrow> available h = KERNEL_HEAP_SIZE)"
proof -
  obtain bs where bs: "heap_ok h bs" "live bs = A" "heap_base h = base"
    using reachable_ok [OF assms(2,1)] by blast
  have ph: "phys (memory h) 0 (heap_base h) bs (heap_end h)" "available h = free_bytes bs" "heap_geometry h"
    using bs(1) by (auto simp: heap_ok_def)
  have "free_set bs = {(b, s). free_block_at h b s}"
    by (simp add: free_block_at_iff [OF bs(1)] free_set_def)
  then have "available h = (\<Sum>(b, s) | free_block_at h b s. s)"
    using ph(2) free_bytes_sum [OF ph(1)] by simp
  moreover have "A = {} \<longrightarrow> available h = KERNEL_HEAP_SIZE"
    using live_empty_bytes [of bs] bs(2) ph phys_total [OF ph(1)] by (simp add: heap_geometry_def)
  ultimately show ?thesis
    using check_invariants_ok [OF bs(1)] by blast
qed

theorem heap_walk_passes_witness:
  "\<exists>h. heap_reachable 4096 h {(4112, 100), (4240, 100), (4368, 100), (4496, 100)} \<and>
     check_invariants h = Some (Inr ())"
proof -
  obtain h where h: "heap_reachable 4096 h {(4112, 100), (4240, 100), (4368, 100), (4496, 100)}"
    using four_allocations by blast
  have "base_ok 4096"
    by (simp add: base_ok_def heap_consts)
  then show ?thesis
    using heap_walk_passes [OF _ h] h by blast
qed

text \<open>C33: an allocation comes back null only if no free block is larger, by a thirty-second or more, than
  the request with its header, canary and alignment slack.\<close>

theorem heap_alloc_complete:
  assumes "base_ok base" "base + 3 * KERNEL_HEAP_SIZE < USIZE_LIMIT" "heap_reachable base h A" "layout_ok n align"
    "alloc n align h = Some (0, h')" "free_block_at h b s"
  shows "32 * s < 33 * initial_min_block_size (reserved_size n) (max align HEAP_BLOCK_ALIGNMENT)"
proof -
  obtain bs where bs: "heap_ok h bs" "heap_base h = base"
    using reachable_ok [OF assms(3,1)] by blast
  then show ?thesis
    using alloc_null_small [OF bs(1) assms(4,5)] assms(2,6) free_block_at_iff [OF bs(1)] by simp
qed

theorem heap_alloc_complete_witness:
  "\<exists>h h'. heap_reachable 4096 h {(4112, 100), (4240, 100), (4368, 100), (4496, 100)} \<and>
     alloc 1073741824 8 h = Some (0, h') \<and> free_block_at h 4608 67108352 \<and>
     32 * 67108352 < 33 * initial_min_block_size (reserved_size 1073741824) (max 8 HEAP_BLOCK_ALIGNMENT)"
proof -
  obtain h where h: "heap_reachable 4096 h {(4112, 100), (4240, 100), (4368, 100), (4496, 100)}"
    and ok: "heap_ok h [(4096, 128, Some (4112, 100)), (4224, 128, Some (4240, 100)), (4352, 128, Some (4368, 100)),
       (4480, 128, Some (4496, 100)), (4608, 67108352, None)]"
    using four_allocations by blast
  have base: "base_ok 4096" "(4096 :: nat) + 3 * KERNEL_HEAP_SIZE < USIZE_LIMIT"
    by (simp_all add: base_ok_def heap_consts)
  have lay: "layout_ok 1073741824 8"
    by (auto simp: layout_ok_def intro: exI [of _ 3])
  obtain p h' where r: "alloc 1073741824 8 h = Some (p, h')"
    "p \<noteq> 0 \<longrightarrow> p + 1073741824 + CANARY_SIZE \<le> 4096 + KERNEL_HEAP_SIZE"
    using kernel_heap.acquire_law [OF reachable_state [OF h base(1)] lay] heap_state_bounds by blast
  then have null: "alloc 1073741824 8 h = Some (0, h')"
    by (cases "p = 0") (auto simp: heap_consts)
  have f: "free_block_at h 4608 67108352"
    using free_block_at_iff [OF ok] by simp
  show ?thesis
    using h null f heap_alloc_complete [OF base h lay null f] by blast
qed

text \<open>Freeing a block between two free neighbours merges it with the one before it only: the heap is
  left with two adjacent free blocks.  Here the first and the third of four allocations have been freed
  before the second.\<close>

lemma free_leaves_adjacent_blocks:
  "\<exists>h h'. heap_reachable 4096 h {(4240, 100), (4496, 100)} \<and> free_block_at h 4096 128 \<and> free_block_at h 4352 128 \<and>
     dealloc 4240 h = Some h' \<and> free_block_at h' 4096 256 \<and> free_block_at h' 4352 128"
proof -
  obtain h0 where h0: "heap_reachable 4096 h0 {(4112, 100), (4240, 100), (4368, 100), (4496, 100)}"
    "heap_ok h0 ([] @ (4096, 128, Some (4112, 100)) # [(4224, 128, Some (4240, 100)), (4352, 128, Some (4368, 100)),
       (4480, 128, Some (4496, 100)), (4608, 67108352, None)])"
    using four_allocations by auto
  obtain h1 where h1: "dealloc 4112 h0 = Some h1"
    "heap_ok h1 ([(4096, 128, None), (4224, 128, Some (4240, 100))] @ (4352, 128, Some (4368, 100)) #
       [(4480, 128, Some (4496, 100)), (4608, 67108352, None)])"
    using dealloc_ok [OF h0(2)] by (auto simp: coalesced_def)
  have r1: "heap_reachable 4096 h1 {(4240, 100), (4368, 100), (4496, 100)}"
    using heap_reachable.free [OF h0(1) _ h1(1), of 100] by (simp add: insert_Diff_if)
  obtain h2 where h2: "dealloc 4368 h1 = Some h2"
    "heap_ok h2 ([(4096, 128, None)] @ (4224, 128, Some (4240, 100)) # [(4352, 128, None),
       (4480, 128, Some (4496, 100)), (4608, 67108352, None)])"
    using dealloc_ok [OF h1(2)] by (auto simp: coalesced_def)
  have r2: "heap_reachable 4096 h2 {(4240, 100), (4496, 100)}"
    using heap_reachable.free [OF r1 _ h2(1), of 100] by (simp add: insert_Diff_if)
  obtain h3 where h3: "dealloc 4240 h2 = Some h3"
    "heap_ok h3 [(4096, 256, None), (4352, 128, None), (4480, 128, Some (4496, 100)), (4608, 67108352, None)]"
    using dealloc_ok [OF h2(2)] by (auto simp: coalesced_def)
  have "free_block_at h2 4096 128" "free_block_at h2 4352 128" "free_block_at h3 4096 256" "free_block_at h3 4352 128"
    using free_block_at_iff [OF h2(2)] free_block_at_iff [OF h3(2)] by simp_all
  then show ?thesis
    using r2 h3(1) by blast
qed

text \<open>C31: whatever sequence of allocations and of frees of other allocations the rest of the kernel makes,
  an allocation that is not freed stays live and its contents stay as they were.\<close>

theorem heap_contents_survive:
  assumes "base_ok base" "heap_reachable base h A" "(q, m) \<in> A" "others alloc dealloc (q, m) h A h' A'"
  shows "(q, m) \<in> A' \<and> (\<forall>x. q \<le> x \<and> x < q + m \<longrightarrow> memory h' x = memory h x)"
  using kernel_heap.others_keep [OF assms(4) reachable_state [OF assms(2,1)] assms(3)] by blast

theorem heap_contents_survive_witness:
  "\<exists>h h'. heap_reachable 4096 h {(4112, 100), (4240, 100), (4368, 100), (4496, 100)} \<and>
     others alloc dealloc (4368, 100) h {(4112, 100), (4240, 100), (4368, 100), (4496, 100)} h'
       {(4112, 100), (4368, 100), (4496, 100)} \<and> memory h' 4376 = memory h 4376"
proof -
  let ?A = "{(4112, 100), (4240, 100), (4368, 100), (4496, 100)} :: (nat \<times> nat) set"
  obtain h where h: "heap_reachable 4096 h ?A"
    using four_allocations by blast
  have base: "base_ok 4096"
    by (simp add: base_ok_def heap_consts)
  obtain h' where h': "dealloc 4240 h = Some h'"
    using kernel_heap.release_law [OF reachable_state [OF h base], of 4240 100] by auto
  have "others alloc dealloc (4368, 100) h ?A h' (?A - {(4240, 100)})"
    by (rule others.put [where ?h1.0 = h and ?A1.0 = ?A]) (simp_all add: others.none h')
  then have o: "others alloc dealloc (4368, 100) h ?A h' {(4112, 100), (4368, 100), (4496, 100)}"
    by (simp add: insert_Diff_if)
  then have "memory h' 4376 = memory h 4376"
    using heap_contents_survive [OF base h _ o] by simp
  then show ?thesis
    using h o by blast
qed

end
