(* ===== verification/Ip_Packet.thy ===== *)
theory Ip_Packet
  imports Kernel_Prelude
begin

text \<open>
  IP packets on the wire (\<open>src/network/internet/ipv4.rs\<close>, \<open>ipv6.rs\<close>): big-endian fields, the internet
  checksum, parsing and building of IPv4 and IPv6 packets, and the splitting of an IPv6 packet into
  fragments.  A packet is a list of bytes; an address is the list of its bytes, four or sixteen.
\<close>

unbundle bit_operations_syntax

section \<open>Big-endian fields\<close>

definition u16_from_be :: "u8 \<Rightarrow> u8 \<Rightarrow> u16" where
  "u16_from_be a b = push_bit 8 (ucast a) OR ucast b"

definition u16_to_be :: "u16 \<Rightarrow> u8 list" where
  "u16_to_be w = [ucast (drop_bit 8 w), ucast w]"

definition u32_from_be :: "u8 \<Rightarrow> u8 \<Rightarrow> u8 \<Rightarrow> u8 \<Rightarrow> u32" where
  "u32_from_be a b c d = push_bit 24 (ucast a) OR push_bit 16 (ucast b) OR push_bit 8 (ucast c) OR ucast d"

definition u32_to_be :: "u32 \<Rightarrow> u8 list" where
  "u32_to_be w = [ucast (drop_bit 24 w), ucast (drop_bit 16 w), ucast (drop_bit 8 w), ucast w]"

section \<open>IPv4\<close>

type_synonym ipv4_addr = "u8 list"

definition IPV4_MIN_HEADER_SIZE :: nat where "IPV4_MIN_HEADER_SIZE = 20"
definition IPV4_VERSION_IHL :: u8 where "IPV4_VERSION_IHL = 0x45"
definition IP_FLAG_DF :: u16 where "IP_FLAG_DF = 0x4000"

datatype ip_protocol = Icmp | Igmp | Tcp | Udp | Dccp | Esp | Ah | Sctp | Unknown u8

definition protocol_from_u8 :: "u8 \<Rightarrow> ip_protocol" where
  "protocol_from_u8 v =
     (if v = 1 then Icmp else if v = 2 then Igmp else if v = 6 then Tcp else if v = 17 then Udp
      else if v = 33 then Dccp else if v = 50 then Esp else if v = 51 then Ah else if v = 132 then Sctp
      else Unknown v)"

fun protocol_to_u8 :: "ip_protocol \<Rightarrow> u8" where
  "protocol_to_u8 Icmp = 1"
| "protocol_to_u8 Igmp = 2"
| "protocol_to_u8 Tcp = 6"
| "protocol_to_u8 Udp = 17"
| "protocol_to_u8 Dccp = 33"
| "protocol_to_u8 Esp = 50"
| "protocol_to_u8 Ah = 51"
| "protocol_to_u8 Sctp = 132"
| "protocol_to_u8 (Unknown v) = v"

record ipv4_header =
  total_length :: u16
  identification :: u16
  flags_fragment_offset :: u16
  ttl :: u8
  protocol :: ip_protocol
  header_checksum :: u16
  source :: ipv4_addr
  destination :: ipv4_addr

record ipv4_packet =
  header :: ipv4_header
  payload :: "u8 list"

section \<open>The internet checksum\<close>

fun checksum_add :: "u32 \<Rightarrow> u8 list \<Rightarrow> u32" where
  "checksum_add acc (a # b # rest) = checksum_add (acc + ucast (u16_from_be a b)) rest"
| "checksum_add acc [a] = acc + ucast (u16_from_be a 0)"
| "checksum_add acc [] = acc"

lemma unat_drop_bit_div: "unat (drop_bit k (x :: 'a::len word)) = unat x div 2 ^ k"
  unfolding unat_drop_bit_eq by (simp add: drop_bit_eq_div)

text \<open>Adding the carries back in makes the sum smaller, so the loop ends.\<close>

lemma fold_step_unat:
  "unat ((acc AND 0xFFFF) + drop_bit 16 (acc :: u32)) = unat acc mod 65536 + unat acc div 65536"
proof -
  have "acc AND 0xFFFF = take_bit 16 acc"
    by (simp add: take_bit_eq_mask mask_eq_exp_minus_1)
  then have "unat (acc AND 0xFFFF) = unat acc mod 65536"
    by (simp only: unsigned_take_bit_eq) (simp add: take_bit_eq_mod)
  moreover have "unat (drop_bit 16 acc) = unat acc div 65536"
    unfolding unat_drop_bit_div by simp
  moreover have "unat acc < 4294967296"
    using unsigned_less [of acc] by simp
  ultimately show ?thesis
    by (subst unat_add_lem [THEN iffD1]) (auto simp: less_mult_imp_div_less)
qed

function fold_carries :: "u32 \<Rightarrow> u32" where
  "fold_carries acc =
     (if drop_bit 16 acc \<noteq> 0 then fold_carries ((acc AND 0xFFFF) + drop_bit 16 acc) else acc)"
  by pat_completeness auto
termination
proof (relation "measure unat")
  fix acc :: u32
  assume "drop_bit 16 acc \<noteq> 0"
  then have "unat (drop_bit 16 acc) \<noteq> 0"
    by (simp only: unat_eq_0 not_False_eq_True)
  then have "unat acc div 65536 \<noteq> 0"
    unfolding unat_drop_bit_div by simp
  then have "unat acc mod 65536 + unat acc div 65536 < unat acc"
    using div_mult_mod_eq [of "unat acc" 65536] by linarith
  then show "((acc AND 0xFFFF) + drop_bit 16 acc, acc) \<in> measure unat"
    by (simp add: fold_step_unat)
qed simp

declare fold_carries.simps [simp del]

definition checksum_finalize :: "u32 \<Rightarrow> u16" where
  "checksum_finalize acc = NOT (ucast (fold_carries acc))"

definition compute_checksum :: "u8 list \<Rightarrow> u16" where
  "compute_checksum data = checksum_finalize (checksum_add 0 data)"

definition pseudo_header :: "ipv4_addr \<Rightarrow> ipv4_addr \<Rightarrow> u8 \<Rightarrow> u16 \<Rightarrow> u8 list" where
  "pseudo_header src dst proto segment_len =
     [src ! 0, src ! 1, src ! 2, src ! 3, dst ! 0, dst ! 1, dst ! 2, dst ! 3, 0, proto,
      ucast (drop_bit 8 segment_len), ucast segment_len]"

definition pseudo_header_checksum_add :: "u32 \<Rightarrow> ipv4_addr \<Rightarrow> ipv4_addr \<Rightarrow> u8 \<Rightarrow> u16 \<Rightarrow> u32" where
  "pseudo_header_checksum_add acc src dst proto segment_len =
     checksum_add acc (pseudo_header src dst proto segment_len)"

definition pseudo_header_checksum_input :: "ipv4_addr \<Rightarrow> ipv4_addr \<Rightarrow> u8 \<Rightarrow> u8 list \<Rightarrow> u8 list" where
  "pseudo_header_checksum_input src dst proto segment =
     pseudo_header src dst proto (of_nat (length segment)) @ segment"

section \<open>Parsing and building IPv4 packets\<close>

definition header_fields :: "u8 list \<Rightarrow> ipv4_header" where
  "header_fields data =
     \<lparr>total_length = u16_from_be (data ! 2) (data ! 3),
      identification = u16_from_be (data ! 4) (data ! 5),
      flags_fragment_offset = u16_from_be (data ! 6) (data ! 7),
      ttl = data ! 8,
      protocol = protocol_from_u8 (data ! 9),
      header_checksum = u16_from_be (data ! 10) (data ! 11),
      source = take 4 (drop 12 data),
      destination = take 4 (drop 16 data)\<rparr>"

definition parse_packet :: "u8 list \<Rightarrow> ipv4_packet result" where
  "parse_packet data =
     (if length data < IPV4_MIN_HEADER_SIZE then Inl InvalidArgument
      else let version = drop_bit 4 (data ! 0); ihl = data ! 0 AND 0x0F
        in if version \<noteq> 4 then Inl Unsupported
        else if ihl < 5 then Inl Unsupported
        else let header_len = unat ihl * 4; len = u16_from_be (data ! 2) (data ! 3)
          in if length data < header_len then Inl InvalidArgument
          else if length data < unat len then Inl InvalidArgument
          else if compute_checksum (take header_len data) \<noteq> 0 then Inl DeviceError
          else Inr \<lparr>header = header_fields data, payload = take (unat len - header_len) (drop header_len data)\<rparr>)"

definition header_bytes :: "ipv4_header \<Rightarrow> u16 \<Rightarrow> u8 list" where
  "header_bytes h len =
     [IPV4_VERSION_IHL, 0] @ u16_to_be len @ u16_to_be (identification h) @
     u16_to_be (IP_FLAG_DF OR (flags_fragment_offset h AND 0x1FFF)) @
     [ttl h, protocol_to_u8 (protocol h)] @ [0, 0] @ source h @ destination h"

definition build_packet :: "ipv4_header \<Rightarrow> u8 list \<Rightarrow> u8 list" where
  "build_packet h data =
     (let len = of_nat (IPV4_MIN_HEADER_SIZE + length data) :: u16;
          buf = header_bytes h len @ data;
          checksum = compute_checksum (take IPV4_MIN_HEADER_SIZE buf)
      in buf[10 := ucast (drop_bit 8 checksum), 11 := ucast checksum])"

definition parse_ipv4_header :: "u8 list \<Rightarrow> (ipv4_header \<times> nat) option" where
  "parse_ipv4_header data =
     (if length data < IPV4_MIN_HEADER_SIZE then None
      else if drop_bit 4 (data ! 0) \<noteq> 4 then None
      else let header_len = unat (data ! 0 AND 0x0F) * 4
        in if header_len < IPV4_MIN_HEADER_SIZE \<or> length data < header_len then None
           else Some (header_fields data, header_len))"

definition multicast_mac_from_ipv4 :: "ipv4_addr \<Rightarrow> u8 list" where
  "multicast_mac_from_ipv4 addr = [0x01, 0x00, 0x5E, addr ! 1 AND 0x7F, addr ! 2, addr ! 3]"

section \<open>IPv6\<close>

type_synonym ipv6_addr = "u8 list"

definition IPV6_HEADER_SIZE :: nat where "IPV6_HEADER_SIZE = 40"
definition IPV6_VERSION_TC1 :: u8 where "IPV6_VERSION_TC1 = 0x60"
definition FRAGMENT_HEADER_SIZE :: nat where "FRAGMENT_HEADER_SIZE = 8"

datatype ipv6_next_header =
  NH_HopByHop | NH_Tcp | NH_Udp | NH_Dccp | NH_Routing | NH_Fragment | NH_Esp | NH_Ah | NH_Icmpv6
  | NH_NoNextHeader | NH_DestinationOptions | NH_Unknown u8

definition next_header_from_u8 :: "u8 \<Rightarrow> ipv6_next_header" where
  "next_header_from_u8 v =
     (if v = 0 then NH_HopByHop else if v = 6 then NH_Tcp else if v = 17 then NH_Udp
      else if v = 33 then NH_Dccp else if v = 43 then NH_Routing else if v = 44 then NH_Fragment
      else if v = 50 then NH_Esp else if v = 51 then NH_Ah else if v = 58 then NH_Icmpv6
      else if v = 59 then NH_NoNextHeader else if v = 60 then NH_DestinationOptions else NH_Unknown v)"

fun next_header_to_u8 :: "ipv6_next_header \<Rightarrow> u8" where
  "next_header_to_u8 NH_HopByHop = 0"
| "next_header_to_u8 NH_Tcp = 6"
| "next_header_to_u8 NH_Udp = 17"
| "next_header_to_u8 NH_Dccp = 33"
| "next_header_to_u8 NH_Routing = 43"
| "next_header_to_u8 NH_Fragment = 44"
| "next_header_to_u8 NH_Esp = 50"
| "next_header_to_u8 NH_Ah = 51"
| "next_header_to_u8 NH_Icmpv6 = 58"
| "next_header_to_u8 NH_NoNextHeader = 59"
| "next_header_to_u8 NH_DestinationOptions = 60"
| "next_header_to_u8 (NH_Unknown v) = v"

record ipv6_header =
  traffic_class :: u8
  flow_label :: u32
  payload_length :: u16
  next_header :: ipv6_next_header
  hop_limit :: u8
  source6 :: ipv6_addr
  destination6 :: ipv6_addr

record ipv6_packet =
  header6 :: ipv6_header
  payload6 :: "u8 list"

record ipv6_fragment_header =
  frag_next_header :: ipv6_next_header
  fragment_offset :: u16
  more_fragments :: bool
  frag_identification :: u32

definition build_fragment_header :: "u8 \<Rightarrow> u16 \<Rightarrow> bool \<Rightarrow> u32 \<Rightarrow> u8 list" where
  "build_fragment_header nh offset more_follow ident =
     (let offset_field = push_bit 3 (offset AND 0x1FFF) OR (if more_follow then 1 else 0)
      in [nh, 0] @ u16_to_be offset_field @ u32_to_be ident)"

definition parse_fragment_header :: "u8 list \<Rightarrow> (ipv6_fragment_header \<times> nat) result" where
  "parse_fragment_header data =
     (if length data < FRAGMENT_HEADER_SIZE then Inl InvalidArgument
      else let offset_field = u16_from_be (data ! 2) (data ! 3)
        in Inr (\<lparr>frag_next_header = next_header_from_u8 (data ! 0),
                 fragment_offset = drop_bit 3 offset_field AND 0x1FFF,
                 more_fragments = (offset_field AND 1 \<noteq> 0),
                 frag_identification = u32_from_be (data ! 4) (data ! 5) (data ! 6) (data ! 7)\<rparr>,
               FRAGMENT_HEADER_SIZE))"

definition ipv6_pseudo_header_checksum_add :: "u32 \<Rightarrow> ipv6_addr \<Rightarrow> ipv6_addr \<Rightarrow> u8 \<Rightarrow> u32 \<Rightarrow> u32" where
  "ipv6_pseudo_header_checksum_add acc src dst nh upper_layer_len =
     checksum_add (checksum_add (checksum_add (checksum_add acc src) dst) (u32_to_be upper_layer_len)) [0, 0, 0, nh]"

definition ipv6_pseudo_header_checksum_input :: "ipv6_addr \<Rightarrow> ipv6_addr \<Rightarrow> u8 \<Rightarrow> u8 list \<Rightarrow> u8 list" where
  "ipv6_pseudo_header_checksum_input src dst nh segment =
     src @ dst @ u32_to_be (of_nat (length segment)) @ [0, 0, 0, nh] @ segment"

definition ipv6_parse_packet :: "u8 list \<Rightarrow> ipv6_packet result" where
  "ipv6_parse_packet data =
     (if length data < IPV6_HEADER_SIZE then Inl InvalidArgument
      else if drop_bit 4 (data ! 0) \<noteq> 6 then Inl Unsupported
      else let len = u16_from_be (data ! 4) (data ! 5); total_expected = IPV6_HEADER_SIZE + unat len
        in if length data < total_expected then Inl InvalidArgument
           else Inr \<lparr>header6 =
               \<lparr>traffic_class = push_bit 4 (data ! 0 AND 0x0F) OR (drop_bit 4 (data ! 1) AND 0x0F),
                flow_label = push_bit 16 (ucast (data ! 1) AND 0x0F) OR push_bit 8 (ucast (data ! 2)) OR ucast (data ! 3),
                payload_length = len,
                next_header = next_header_from_u8 (data ! 6),
                hop_limit = data ! 7,
                source6 = take 16 (drop 8 data),
                destination6 = take 16 (drop 24 data)\<rparr>,
               payload6 = take (unat len) (drop IPV6_HEADER_SIZE data)\<rparr>)"

definition ipv6_build_packet :: "ipv6_header \<Rightarrow> u8 list \<Rightarrow> u8 list" where
  "ipv6_build_packet h data =
     [IPV6_VERSION_TC1 OR (drop_bit 4 (traffic_class h) AND 0x0F),
      push_bit 4 (traffic_class h AND 0x0F) OR (ucast (drop_bit 16 (flow_label h)) AND 0x0F),
      ucast (drop_bit 8 (flow_label h)), ucast (flow_label h)] @
     u16_to_be (of_nat (length data)) @ [next_header_to_u8 (next_header h), hop_limit h] @
     source6 h @ destination6 h @ data"

text \<open>The loop of \<open>fragment_packet\<close>, from an offset on; \<open>chunk\<close> is positive.\<close>

definition fragment_wire :: "ipv6_header \<Rightarrow> u8 list \<Rightarrow> nat \<Rightarrow> nat \<Rightarrow> u32 \<Rightarrow> u8 list" where
  "fragment_wire h data offset len ident =
     (let more_follow = offset + len < length data;
          frag_header = build_fragment_header (next_header_to_u8 (next_header h)) (of_nat (offset div 8)) more_follow ident;
          combined = frag_header @ take len (drop offset data)
      in ipv6_build_packet (h\<lparr>next_header := NH_Fragment, payload_length := 0\<rparr>) combined)"

function fragments_from :: "ipv6_header \<Rightarrow> u8 list \<Rightarrow> nat \<Rightarrow> u32 \<Rightarrow> nat \<Rightarrow> u8 list list" where
  "fragments_from h data chunk ident offset =
     (if chunk = 0 \<or> length data \<le> offset then []
      else let len = min (length data - offset) chunk
        in fragment_wire h data offset len ident # fragments_from h data chunk ident (offset + len))"
  by pat_completeness auto
termination
  by (relation "measure (\<lambda>(h, data, chunk, ident, offset). length data - offset)") auto

declare fragments_from.simps [simp del]

definition fragment_packet :: "ipv6_header \<Rightarrow> u8 list \<Rightarrow> nat \<Rightarrow> u32 \<Rightarrow> u8 list list option" where
  "fragment_packet h data mtu ident =
     (if mtu < IPV6_HEADER_SIZE + FRAGMENT_HEADER_SIZE then None
      else let usable = mtu - (IPV6_HEADER_SIZE + FRAGMENT_HEADER_SIZE)
        in if length data \<le> usable then None
           else let chunk = usable - usable mod 8
             in if chunk = 0 then None else Some (fragments_from h data chunk ident 0))"

definition solicited_node_multicast :: "ipv6_addr \<Rightarrow> ipv6_addr" where
  "solicited_node_multicast target =
     [0xff, 0x02, 0, 0, 0, 0, 0, 0, 0, 0, 0, 0x01, 0xff, target ! 13, target ! 14, target ! 15]"

definition link_local_from_mac :: "u8 list \<Rightarrow> ipv6_addr" where
  "link_local_from_mac mac =
     [0xfe, 0x80, 0, 0, 0, 0, 0, 0, mac ! 0 XOR 0x02, mac ! 1, mac ! 2, 0xff, 0xfe, mac ! 3, mac ! 4, mac ! 5]"

definition multicast_mac_from_ipv6 :: "ipv6_addr \<Rightarrow> u8 list" where
  "multicast_mac_from_ipv6 ip = [0x33, 0x33, ip ! 12, ip ! 13, ip ! 14, ip ! 15]"

end
