(* ===== verification/Ip_Packet_Proofs.thy ===== *)
theory Ip_Packet_Proofs
  imports Ip_Packet
begin

text \<open>
  IP packets: the internet checksum as arithmetic modulo 65535, and that parsing inverts building for
  IPv4 packets, IPv6 packets and IPv6 fragment headers.
\<close>

unbundle bit_operations_syntax

section \<open>Big-endian fields\<close>

lemma byte_less: "unat (a :: u8) < 256"
  using unsigned_less [of a] by simp

lemma u16_less: "unat (b :: u16) < 65536"
  using unsigned_less [of b] by simp

lemma u32_less: "unat (c :: u32) < U32_LIMIT"
  using unsigned_less [of c] by simp

lemma u16_from_to_be [simp]: "u16_from_be (ucast (drop_bit 8 w)) (ucast w) = w"
  by (rule bit_word_eqI) (auto simp: u16_from_be_def bit_simps)

lemma u32_from_to_be [simp]:
  "u32_from_be (ucast (drop_bit 24 w)) (ucast (drop_bit 16 w)) (ucast (drop_bit 8 w)) (ucast w) = w"
proof (rule bit_word_eqI)
  fix n :: nat
  consider "n < 8" | "8 \<le> n" "n < 16" | "16 \<le> n" "n < 24" | "24 \<le> n"
    by linarith
  then show "bit (u32_from_be (ucast (drop_bit 24 w)) (ucast (drop_bit 16 w)) (ucast (drop_bit 8 w)) (ucast w)) n = bit w n"
    if "n < LENGTH(32)"
    using that by cases (auto simp: u32_from_be_def bit_simps)
qed

lemma unat_u16_from_be: "unat (u16_from_be a b) = unat a * 256 + unat b"
proof -
  have d: "u16_from_be a b = push_bit 8 (ucast a) + ucast b"
    unfolding u16_from_be_def by (subst disjunctive_add) (auto simp: bit_simps dest: bit_imp_le_length)
  have a: "unat a < 256" "unat b < 256"
    using byte_less by auto
  have u: "unat (ucast x :: u16) = unat x" for x :: u8
    using byte_less [of x] by (simp add: unsigned_ucast_eq take_bit_nat_eq_self_iff)
  have p: "unat (push_bit 8 (ucast a) :: u16) = unat a * 256"
    unfolding unsigned_push_bit_eq u using a(1) by (simp add: push_bit_eq_mult take_bit_nat_eq_self_iff)
  show ?thesis
    unfolding d by (subst unat_add_lem [THEN iffD1]) (use a in \<open>auto simp: p u\<close>)
qed

lemma length_to_be [simp]: "length (u16_to_be w) = 2" "length (u32_to_be v) = 4"
  by (simp_all add: u16_to_be_def u32_to_be_def)

section \<open>The checksum\<close>

text \<open>The sum of the 16-bit words of a list of bytes, as a natural number.\<close>

fun word_sum :: "u8 list \<Rightarrow> nat" where
  "word_sum (a # b # rest) = unat a * 256 + unat b + word_sum rest"
| "word_sum [a] = unat a * 256"
| "word_sum [] = 0"

lemma word_sum_le: "word_sum d \<le> 65535 * length d"
proof (induction d rule: word_sum.induct)
  case (1 a b rest)
  then show ?case
    using byte_less [of a] byte_less [of b] by simp
next
  case (2 a)
  then show ?case
    using byte_less [of a] by simp
qed simp

lemma unat_checksum_add: "unat (checksum_add acc d) = (unat acc + word_sum d) mod U32_LIMIT"
proof (induction acc d rule: checksum_add.induct)
  case (1 acc a b rest)
  have u: "unat (ucast (u16_from_be a b) :: u32) = unat a * 256 + unat b"
    using byte_less [of a] byte_less [of b]
    by (simp add: unsigned_ucast_eq unat_u16_from_be take_bit_nat_eq_self_iff)
  show ?case
    by (simp add: 1 unat_word_ariths u) (simp add: mod_add_left_eq add.assoc)
next
  case (2 acc a)
  have u: "unat (ucast (u16_from_be a 0) :: u32) = unat a * 256"
    using byte_less [of a] by (simp add: unsigned_ucast_eq unat_u16_from_be take_bit_nat_eq_self_iff)
  show ?case
    by (simp add: unat_word_ariths u)
next
  case (3 acc)
  then show ?case
    using u32_less [of acc] by simp
qed

lemma fold_carries_props:
  "unat (fold_carries x) < 65536 \<and> unat (fold_carries x) mod 65535 = unat x mod 65535 \<and>
   (unat (fold_carries x) = 0 \<longleftrightarrow> unat x = 0)"
proof (induction x rule: fold_carries.induct)
  case (1 x)
  have d: "drop_bit 16 x \<noteq> 0 \<longleftrightarrow> unat x div 65536 \<noteq> 0"
    unfolding unat_eq_0 [symmetric] unat_drop_bit_div by simp
  show ?case
  proof (cases "drop_bit 16 x \<noteq> 0")
    case True
    have "(unat x mod 65536 + unat x div 65536) mod 65535 = unat x mod 65535"
    proof -
      have "unat x = 65535 * (unat x div 65536) + (unat x mod 65536 + unat x div 65536)"
        using div_mult_mod_eq [of "unat x" 65536] by linarith
      then show ?thesis
        by (metis mod_mult_self4)
    qed
    moreover have "unat x mod 65536 + unat x div 65536 \<noteq> 0"
      using True d by simp
    moreover have "unat x \<noteq> 0"
      using True d by auto
    ultimately show ?thesis
      using 1 [OF True] True by (subst (1 2 3) fold_carries.simps) (simp add: fold_step_unat)
  next
    case False
    then show ?thesis
      using d by (subst (1 2 3) fold_carries.simps) (auto simp: div_eq_0_iff)
  qed
qed

lemma unat_not_u16: "unat (NOT w :: u16) = 65535 - unat w"
proof -
  have "NOT w = 65535 - w"
    by (simp add: not_eq_complement)
  moreover have "w \<le> 65535"
    using u16_less [of w] by (simp add: word_le_nat_alt)
  ultimately show ?thesis
    by (simp add: unat_sub)
qed

lemma unat_checksum_finalize: "unat (checksum_finalize x) = 65535 - unat (fold_carries x)"
proof -
  have "unat (ucast (fold_carries x) :: u16) = unat (fold_carries x)"
    using fold_carries_props [of x] by (simp add: unsigned_ucast_eq take_bit_nat_eq_self_iff)
  then show ?thesis
    unfolding checksum_finalize_def by (simp add: unat_not_u16)
qed

lemma checksum_zero_iff:
  assumes "word_sum d < U32_LIMIT"
  shows "compute_checksum d = 0 \<longleftrightarrow> word_sum d \<noteq> 0 \<and> word_sum d mod 65535 = 0"
proof -
  let ?f = "unat (fold_carries (checksum_add 0 d))"
  have "unat (checksum_add 0 d) = word_sum d"
    using assms by (simp add: unat_checksum_add)
  then have f: "?f < 65536" "?f mod 65535 = word_sum d mod 65535" "?f = 0 \<longleftrightarrow> word_sum d = 0"
    using fold_carries_props [of "checksum_add 0 d"] by simp_all
  have "compute_checksum d = 0 \<longleftrightarrow> unat (compute_checksum d) = 0"
    by (simp only: unat_eq_0)
  also have "\<dots> \<longleftrightarrow> ?f = 65535"
    using f(1) by (simp add: compute_checksum_def unat_checksum_finalize) linarith
  also have "\<dots> \<longleftrightarrow> word_sum d \<noteq> 0 \<and> word_sum d mod 65535 = 0"
  proof
    assume "?f = 65535"
    then show "word_sum d \<noteq> 0 \<and> word_sum d mod 65535 = 0"
      using f by simp
  next
    assume "word_sum d \<noteq> 0 \<and> word_sum d mod 65535 = 0"
    then have "?f \<noteq> 0" "65535 dvd ?f"
      using f by (auto simp: dvd_eq_mod_eq_0)
    then show "?f = 65535"
      using f(1) by (auto elim!: dvdE)
  qed
  finally show ?thesis .
qed

text \<open>The checksum of a list with a zero checksum field, stored into that field, makes the whole
  check.\<close>

lemma checksum_completes:
  assumes "word_sum d \<noteq> 0" "word_sum d + 65535 < U32_LIMIT" "word_sum d' = word_sum d + unat (compute_checksum d)"
  shows "compute_checksum d' = 0"
proof -
  let ?f = "unat (fold_carries (checksum_add 0 d))"
  have s: "unat (checksum_add 0 d) = word_sum d"
    using assms(2) by (simp add: unat_checksum_add)
  then have f: "?f < 65536" "?f mod 65535 = word_sum d mod 65535"
    using fold_carries_props [of "checksum_add 0 d"] by simp_all
  have c: "unat (compute_checksum d) = 65535 - ?f"
    by (simp add: compute_checksum_def unat_checksum_finalize)
  have "(word_sum d + (65535 - ?f)) mod 65535 = 0"
  proof (cases "?f = 65535")
    case True
    then show ?thesis
      using f(2) by simp
  next
    case False
    then have "?f = word_sum d mod 65535"
      using f by simp
    then have "word_sum d + (65535 - ?f) = 65535 * (word_sum d div 65535) + 65535"
      using div_mult_mod_eq [of "word_sum d" 65535] f(1) False by linarith
    then show ?thesis
      by simp
  qed
  then show ?thesis
    using assms c by (subst checksum_zero_iff) auto
qed

lemma word_sum_update:
  assumes "i < length d"
  shows "int (word_sum (d[i := b])) = int (word_sum d) + (int (unat b) - int (unat (d ! i))) * (if even i then 256 else 1)"
  using assms
proof (induction d arbitrary: i rule: word_sum.induct)
  case (1 x y rest)
  show ?case
  proof (cases i)
    case (Suc j)
    then show ?thesis
      using 1 by (cases j) auto
  qed simp
qed auto

section \<open>IPv4 packets\<close>

lemma protocol_from_to: "protocol_from_u8 (protocol_to_u8 (protocol_from_u8 v)) = protocol_from_u8 v"
  by (simp add: protocol_from_u8_def)

text \<open>A header as the parser gives it: addresses of four bytes and a protocol read from its number.\<close>

definition header_ok :: "ipv4_header \<Rightarrow> bool" where
  "header_ok h \<longleftrightarrow> length (source h) = 4 \<and> length (destination h) = 4 \<and>
     protocol_from_u8 (protocol_to_u8 (protocol h)) = protocol h"

lemma list4: "length xs = 4 \<Longrightarrow> \<exists>a b c d. xs = [a, b, c, d]"
  by (auto simp: numeral_eq_Suc length_Suc_conv)

lemma build_packet_shape:
  assumes "header_ok h"
  obtains c where "build_packet h data = [IPV4_VERSION_IHL, 0] @ u16_to_be (of_nat (20 + length data)) @
      u16_to_be (identification h) @ u16_to_be (IP_FLAG_DF OR (flags_fragment_offset h AND 0x1FFF)) @
      [ttl h, protocol_to_u8 (protocol h)] @ u16_to_be c @ source h @ destination h @ data"
    "compute_checksum (take 20 (build_packet h data)) = 0"
proof -
  obtain s0 s1 s2 s3 where s: "source h = [s0, s1, s2, s3]"
    using assms list4 [of "source h"] by (auto simp: header_ok_def)
  obtain d0 d1 d2 d3 where d: "destination h = [d0, d1, d2, d3]"
    using assms list4 [of "destination h"] by (auto simp: header_ok_def)
  let ?n = "of_nat (20 + length data) :: u16"
  let ?hd = "header_bytes h ?n"
  define c where "c = compute_checksum ?hd"
  have len: "length ?hd = 20"
    by (simp add: header_bytes_def s d)
  have b: "build_packet h data = [IPV4_VERSION_IHL, 0] @ u16_to_be ?n @
      u16_to_be (identification h) @ u16_to_be (IP_FLAG_DF OR (flags_fragment_offset h AND 0x1FFF)) @
      [ttl h, protocol_to_u8 (protocol h)] @ u16_to_be c @ source h @ destination h @ data"
    unfolding build_packet_def Let_def IPV4_MIN_HEADER_SIZE_def
    by (simp add: len c_def) (simp add: header_bytes_def u16_to_be_def s d)
  have "word_sum (take 20 (build_packet h data)) = word_sum ?hd + unat c"
  proof -
    have "unat (ucast (drop_bit 8 c) :: u8) * 256 + unat (ucast c :: u8) = unat c"
      using unat_u16_from_be [of "ucast (drop_bit 8 c)" "ucast c"] by simp
    then show ?thesis
      unfolding b by (simp add: header_bytes_def u16_to_be_def s d)
  qed
  moreover have "word_sum ?hd \<noteq> 0"
    by (simp add: header_bytes_def u16_to_be_def s d IPV4_VERSION_IHL_def)
  moreover have "word_sum ?hd + 65535 < U32_LIMIT"
    using word_sum_le [of ?hd] len by simp
  ultimately have "compute_checksum (take 20 (build_packet h data)) = 0"
    using checksum_completes unfolding c_def by blast
  then show thesis
    using that b by blast
qed

lemma parse_build:
  assumes "header_ok h" "length data \<le> 65515"
  shows "\<exists>c. parse_packet (build_packet h data) =
    Inr \<lparr>header = h\<lparr>total_length := of_nat (20 + length data),
           flags_fragment_offset := IP_FLAG_DF OR (flags_fragment_offset h AND 0x1FFF), header_checksum := c\<rparr>,
         payload = data\<rparr>"
proof -
  obtain c where b: "build_packet h data = [IPV4_VERSION_IHL, 0] @ u16_to_be (of_nat (20 + length data)) @
      u16_to_be (identification h) @ u16_to_be (IP_FLAG_DF OR (flags_fragment_offset h AND 0x1FFF)) @
      [ttl h, protocol_to_u8 (protocol h)] @ u16_to_be c @ source h @ destination h @ data"
    and z: "compute_checksum (take 20 (build_packet h data)) = 0"
    by (rule build_packet_shape [OF assms(1)])
  let ?p = "build_packet h data"
  have ad: "length (source h) = 4" "length (destination h) = 4"
    "protocol_from_u8 (protocol_to_u8 (protocol h)) = protocol h"
    using assms(1) by (auto simp: header_ok_def)
  have n: "unat (of_nat (20 + length data) :: u16) = 20 + length data"
    unfolding unsigned_of_nat using assms(2) by (simp add: take_bit_nat_eq_self_iff)
  have len: "length ?p = 20 + length data"
    unfolding b by (simp add: ad)
  have v: "?p ! 0 = 0x45" "drop_bit 4 (?p ! 0) = 4" "?p ! 0 AND 0x0F = 5"
    unfolding b by (simp_all add: IPV4_VERSION_IHL_def)
  have t: "u16_from_be (?p ! 2) (?p ! 3) = of_nat (20 + length data)"
    unfolding b by (simp add: u16_to_be_def)
  have hf: "header_fields ?p = h\<lparr>total_length := of_nat (20 + length data),
           flags_fragment_offset := IP_FLAG_DF OR (flags_fragment_offset h AND 0x1FFF), header_checksum := c\<rparr>"
  proof -
    define fl where "fl = IP_FLAG_DF OR (flags_fragment_offset h AND 0x1FFF)"
    show ?thesis
      unfolding header_fields_def t unfolding b fl_def [symmetric] using ad
      by (intro ipv4_header.equality) (simp_all add: u16_to_be_def)
  qed
  have "drop 20 ?p = data"
    unfolding b by (simp add: ad u16_to_be_def)
  then show ?thesis
    unfolding parse_packet_def Let_def using z n
    by (intro exI [of _ c]) (simp add: v t hf len IPV4_MIN_HEADER_SIZE_def)
qed

lemma parse_packet_Inr:
  assumes "parse_packet data = Inr q"
  defines "n \<equiv> unat (data ! 0 AND 0x0F) * 4"
  shows "20 \<le> n" "n \<le> length data" "n \<le> 60" "compute_checksum (take n data) = 0"
proof -
  have v: "\<not> data ! 0 AND 0x0F < 5" "n \<le> length data" "compute_checksum (take n data) = 0"
    using assms(1) unfolding n_def parse_packet_def Let_def by (auto split: if_splits)
  then show "n \<le> length data" "compute_checksum (take n data) = 0"
    by auto
  have "5 \<le> unat (data ! 0 AND 0x0F)"
    using v(1) by (simp add: word_less_nat_alt)
  then show "20 \<le> n"
    by (simp add: n_def)
  have "data ! 0 AND 0x0F \<le> 0x0F"
    by (rule word_and_le1)
  then show "n \<le> 60"
    by (simp add: n_def word_le_nat_alt)
qed

lemma int_mod_0: "n mod 65535 = 0 \<Longrightarrow> int n mod 65535 = 0"
  by (simp add: mod_eq_0_iff_dvd) (metis of_nat_dvd_iff of_nat_numeral)

lemma byte_diff: "x < 256 \<Longrightarrow> y < 256 \<Longrightarrow> \<bar>(int x - int y) * (if even i then 256 else 1)\<bar> < 65535"
  by auto

lemma corrupted_header:
  assumes ok: "parse_packet data = Inr q" and i: "0 < i" "i < unat (data ! 0 AND 0x0F) * 4" and b: "b \<noteq> data ! i"
  shows "is_err (parse_packet (data[i := b]))"
proof (cases "parse_packet (data[i := b])")
  case (Inr q')
  let ?n = "unat (data ! 0 AND 0x0F) * 4"
  note P = parse_packet_Inr [OF ok]
  have z: "data[i := b] ! 0 = data ! 0"
    using i(1) by simp
  have s: "word_sum (take ?n data) < U32_LIMIT" "word_sum (take ?n (data[i := b])) < U32_LIMIT"
    using word_sum_le [of "take ?n data"] word_sum_le [of "take ?n (data[i := b])"] P(3) by auto
  have m: "word_sum (take ?n data) mod 65535 = 0" "word_sum (take ?n (data[i := b])) mod 65535 = 0"
    using P(4) parse_packet_Inr(4) [OF Inr] s checksum_zero_iff unfolding z by auto
  let ?d = "(int (unat b) - int (unat (data ! i))) * (if even i then 256 else 1)"
  have "int (word_sum (take ?n (data[i := b]))) = int (word_sum (take ?n data)) + ?d"
    using word_sum_update [of i "take ?n data" b] i(2) P(2) by (simp add: take_update_swap)
  moreover have "int (word_sum (take ?n data)) mod 65535 = 0" "int (word_sum (take ?n (data[i := b]))) mod 65535 = 0"
    by (rule int_mod_0 [OF m(1)], rule int_mod_0 [OF m(2)])
  ultimately have "65535 dvd ?d"
    by (metis dvd_add_right_iff dvd_eq_mod_eq_0)
  moreover have "\<bar>?d\<bar> < 65535"
    by (rule byte_diff [OF byte_less byte_less])
  ultimately have "?d = 0"
    using dvd_imp_le_int [of ?d 65535] by linarith
  then show ?thesis
    using b by (simp add: word_uint_eq_iff split: if_splits)
qed simp

section \<open>IPv6 packets\<close>

definition ipv6_header_ok :: "ipv6_header \<Rightarrow> bool" where
  "ipv6_header_ok h \<longleftrightarrow> length (source6 h) = 16 \<and> length (destination6 h) = 16 \<and> unat (flow_label h) < 2 ^ 20 \<and>
     next_header_from_u8 (next_header_to_u8 (next_header h)) = next_header h"

lemma and_15_take_bit: "w AND 0x0F = take_bit 4 (w :: 'a::len word)"
  by (simp add: take_bit_eq_mask mask_eq_exp_minus_1)

lemma class_bits:
  fixes tc x :: u8
  defines "b0 \<equiv> IPV6_VERSION_TC1 OR (drop_bit 4 tc AND 0x0F)"
    and "b1 \<equiv> push_bit 4 (tc AND 0x0F) OR (x AND 0x0F)"
  shows "drop_bit 4 b0 = 6" "push_bit 4 (b0 AND 0x0F) OR (drop_bit 4 b1 AND 0x0F) = tc" "b1 AND 0x0F = x AND 0x0F"
proof -
  have v: "IPV6_VERSION_TC1 = push_bit 5 (mask 2)"
    by (simp add: IPV6_VERSION_TC1_def push_bit_eq_mult mask_eq_exp_minus_1)
  show "drop_bit 4 b0 = 6"
    unfolding b0_def and_15_take_bit by (simp add: drop_bit_take_bit IPV6_VERSION_TC1_def)
  show "push_bit 4 (b0 AND 0x0F) OR (drop_bit 4 b1 AND 0x0F) = tc"
    unfolding b0_def b1_def and_15_take_bit v by (rule bit_word_eqI) (auto simp: bit_simps)
  show "b1 AND 0x0F = x AND 0x0F"
    unfolding b1_def and_15_take_bit by (rule bit_word_eqI) (auto simp: bit_simps)
qed

lemma flow_bits:
  fixes fl :: u32
  assumes "unat fl < 2 ^ 20"
  shows "push_bit 16 (ucast (ucast (drop_bit 16 fl) AND 0x0F :: u8) AND 0x0F) OR push_bit 8 (ucast (ucast (drop_bit 8 fl) :: u8)) OR
    ucast (ucast fl :: u8) = fl" (is "?l = _")
proof (rule bit_word_eqI)
  fix n :: nat
  have t: "take_bit 20 fl = fl"
    using assms by (simp add: word_unat_eq_iff unsigned_take_bit_eq take_bit_nat_eq_self_iff)
  have big: "\<not> bit fl n" if "20 \<le> n"
    using that by (subst t [symmetric]) (simp add: bit_simps)
  consider "n < 8" | "8 \<le> n" "n < 16" | "16 \<le> n" "n < 20" | "20 \<le> n"
    by linarith
  then show "bit ?l n = bit fl n" if "n < LENGTH(32)"
    unfolding and_15_take_bit using that big by cases (auto simp: bit_simps)
qed

lemma list16_nth: "length xs = 16 \<Longrightarrow> take 16 (xs @ ys) = xs" "length xs = 16 \<Longrightarrow> drop 16 (xs @ ys) = ys"
  by simp_all

lemma ipv6_parse_build:
  assumes "ipv6_header_ok h" "length data \<le> 65535"
  shows "ipv6_parse_packet (ipv6_build_packet h data) =
    Inr \<lparr>header6 = h\<lparr>payload_length := of_nat (length data)\<rparr>, payload6 = data\<rparr>"
proof -
  let ?p = "ipv6_build_packet h data"
  have ok: "length (source6 h) = 16" "length (destination6 h) = 16" "unat (flow_label h) < 2 ^ 20"
    "next_header_from_u8 (next_header_to_u8 (next_header h)) = next_header h"
    using assms(1) by (auto simp: ipv6_header_ok_def)
  have n: "unat (of_nat (length data) :: u16) = length data"
    unfolding unsigned_of_nat using assms(2) by (simp add: take_bit_nat_eq_self_iff)
  define b0 where "b0 = IPV6_VERSION_TC1 OR (drop_bit 4 (traffic_class h) AND 0x0F)"
  define b1 where "b1 = push_bit 4 (traffic_class h AND 0x0F) OR (ucast (drop_bit 16 (flow_label h)) AND 0x0F)"
  have p: "?p = [b0, b1, ucast (drop_bit 8 (flow_label h)), ucast (flow_label h)] @
     u16_to_be (of_nat (length data)) @ [next_header_to_u8 (next_header h), hop_limit h] @
     source6 h @ destination6 h @ data"
    by (simp add: ipv6_build_packet_def b0_def b1_def)
  have len: "length ?p = 40 + length data" and at: "?p ! 0 = b0" "?p ! 1 = b1" "?p ! 2 = ucast (drop_bit 8 (flow_label h))"
    "?p ! 3 = ucast (flow_label h)" "u16_from_be (?p ! 4) (?p ! 5) = of_nat (length data)"
    "?p ! 6 = next_header_to_u8 (next_header h)" "?p ! 7 = hop_limit h"
    "take 16 (drop 8 ?p) = source6 h" "take 16 (drop 24 ?p) = destination6 h" "drop 40 ?p = data"
    unfolding p using ok by (simp_all add: u16_to_be_def)
  have b: "drop_bit 4 b0 = 6" "push_bit 4 (b0 AND 0x0F) OR (drop_bit 4 b1 AND 0x0F) = traffic_class h"
    unfolding b0_def b1_def by (rule class_bits)+
  have f: "push_bit 16 (ucast b1 AND 0x0F) OR push_bit 8 (ucast (ucast (drop_bit 8 (flow_label h)) :: u8)) OR
    ucast (ucast (flow_label h) :: u8) = flow_label h"
  proof -
    have "ucast b1 AND 0x0F = (ucast (b1 AND 0x0F) :: u32)"
      unfolding and_15_take_bit by (rule bit_word_eqI) (auto simp: bit_simps)
    also have "b1 AND 0x0F = ucast (drop_bit 16 (flow_label h)) AND 0x0F"
      unfolding b1_def by (rule class_bits)
    finally have "ucast b1 AND 0x0F = (ucast (ucast (drop_bit 16 (flow_label h)) AND 0x0F :: u8) AND 0x0F :: u32)"
      unfolding and_15_take_bit by (auto intro!: bit_word_eqI simp: bit_simps)
    then show ?thesis
      using flow_bits [OF ok(3)] by simp
  qed
  show ?thesis
    unfolding ipv6_parse_packet_def Let_def IPV6_HEADER_SIZE_def at len n b f using ok(4) by simp
qed

section \<open>Fragment headers\<close>

lemma fragment_header_round_trip:
  assumes "unat offset < 8192"
  shows "parse_fragment_header (build_fragment_header nh offset mf ident @ rest) =
    Inr (\<lparr>frag_next_header = next_header_from_u8 nh, fragment_offset = offset, more_fragments = mf,
          frag_identification = ident\<rparr>, 8)"
proof -
  let ?f = "push_bit 3 (offset AND 0x1FFF) OR (if mf then 1 else 0) :: u16"
  have t: "take_bit 13 offset = offset"
    using assms by (simp add: word_unat_eq_iff unsigned_take_bit_eq take_bit_nat_eq_self_iff)
  have m: "w AND 0x1FFF = take_bit 13 w" for w :: u16
    by (simp add: take_bit_eq_mask mask_eq_exp_minus_1)
  have "drop_bit 3 ?f AND 0x1FFF = take_bit 13 offset"
    unfolding m by (rule bit_word_eqI) (auto simp: bit_simps)
  then have o: "drop_bit 3 ?f AND 0x1FFF = offset"
    using t by simp
  have "?f AND 1 = of_bool mf"
    unfolding m by (rule bit_word_eqI) (auto simp: bit_simps)
  then have l: "?f AND 1 \<noteq> 0 \<longleftrightarrow> mf"
    by simp
  show ?thesis
  proof -
    define f where "f = ?f"
    show ?thesis
      using o l unfolding parse_fragment_header_def build_fragment_header_def Let_def FRAGMENT_HEADER_SIZE_def f_def [symmetric]
      by (simp add: u16_to_be_def u32_to_be_def)
  qed
qed

section \<open>Properties\<close>

text \<open>C22: a packet built from any header and payload that fit parses to that header and payload, with
  the length and checksum filled in, the don't-fragment flag set and the other flags cleared.\<close>

theorem ipv4_round_trip:
  assumes "header_ok h" "length data \<le> 65515"
  shows "\<exists>c. parse_packet (build_packet h data) =
    Inr \<lparr>header = h\<lparr>total_length := of_nat (IPV4_MIN_HEADER_SIZE + length data),
           flags_fragment_offset := IP_FLAG_DF OR (flags_fragment_offset h AND 0x1FFF), header_checksum := c\<rparr>,
         payload = data\<rparr>"
  using parse_build [OF assms] by (simp add: IPV4_MIN_HEADER_SIZE_def)

definition example_header :: ipv4_header where
  "example_header = \<lparr>total_length = 0, identification = 7, flags_fragment_offset = 0, ttl = 64, protocol = Udp,
     header_checksum = 0, source = [10, 0, 2, 1], destination = [10, 0, 2, 2]\<rparr>"

lemma example_header_ok: "header_ok example_header"
  by (simp add: header_ok_def example_header_def protocol_from_u8_def)

theorem ipv4_round_trip_witness:
  "\<exists>c. parse_packet (build_packet example_header [1, 2, 3]) =
    Inr \<lparr>header = example_header\<lparr>total_length := 23, flags_fragment_offset := 0x4000, header_checksum := c\<rparr>,
         payload = [1, 2, 3]\<rparr>"
  using ipv4_round_trip [OF example_header_ok, of "[1, 2, 3]"]
  by (simp add: IPV4_MIN_HEADER_SIZE_def IP_FLAG_DF_def example_header_def)

text \<open>C34: the header checksum detects every change of a single byte: if a packet parses, no packet that
  differs from it in one byte of the header other than the first parses.\<close>

theorem ipv4_corruption_detected:
  assumes "parse_packet data = Inr q" "0 < i" "i < unat (data ! 0 AND 0x0F) * 4" "b \<noteq> data ! i"
  shows "is_err (parse_packet (data[i := b]))"
  using corrupted_header [OF assms] .

theorem ipv4_corruption_detected_witness:
  "is_err (parse_packet ((build_packet example_header [1, 2, 3])[8 := 63]))"
proof -
  obtain q where q: "parse_packet (build_packet example_header [1, 2, 3]) = Inr q"
    using parse_build [OF example_header_ok, of "[1, 2, 3]"] by auto
  obtain c where b: "build_packet example_header [1, 2, 3] = [IPV4_VERSION_IHL, 0] @ u16_to_be (of_nat (20 + length [1, 2, 3 :: u8])) @
      u16_to_be (identification example_header) @ u16_to_be (IP_FLAG_DF OR (flags_fragment_offset example_header AND 0x1FFF)) @
      [ttl example_header, protocol_to_u8 (protocol example_header)] @ u16_to_be c @ source example_header @ destination example_header @ [1, 2, 3]"
    by (rule build_packet_shape [OF example_header_ok])
  have "build_packet example_header [1, 2, 3] ! 8 = 64" "build_packet example_header [1, 2, 3] ! 0 = 0x45"
    unfolding b by (simp_all add: u16_to_be_def example_header_def IPV4_VERSION_IHL_def)
  then show ?thesis
    using ipv4_corruption_detected [OF q, of 8 63] by simp
qed

end
