(* ===== verification/Fragment_Cache.thy ===== *)
theory Fragment_Cache
  imports Ip_Packet_Proofs Btree_Map "HOL-Library.Product_Lexorder" "HOL-Library.List_Lexorder"
begin

text \<open>
  Reassembly of IPv4 and IPv6 fragments (\<open>src/network/internet/fragments.rs\<close>).  Both caches map a key
  to the state of one reassembly; the fields the two kinds of state share are one record.  A fragment
  offset counts blocks of eight bytes.  The slices the code copies are in range by the conditions it
  tests, so \<open>copy_slice\<close> is total.
\<close>

unbundle bit_operations_syntax

definition FRAGMENT_TIMEOUT_TICKS :: u64 where "FRAGMENT_TIMEOUT_TICKS = 3000"
definition MAX_REASSEMBLY_ENTRIES :: nat where "MAX_REASSEMBLY_ENTRIES = 16"
definition MAX_DATAGRAM_SIZE :: nat where "MAX_DATAGRAM_SIZE = 65535"

section \<open>The state of one reassembly\<close>

record reassembly =
  created_at :: u64
  re_total_length :: nat
  buffer :: "u8 list option"
  pending_fragments :: "(nat \<times> u8 list) list"
  bitmap :: "u8 list"
  have_last :: bool

record reassembly_entry = reassembly +
  re_header :: ipv4_header

definition new_entry :: "ipv4_header \<Rightarrow> u64 \<Rightarrow> reassembly_entry" where
  "new_entry first_header created =
     \<lparr>created_at = created, re_total_length = 0, buffer = None, pending_fragments = [], bitmap = [],
      have_last = False, re_header = first_header\<rparr>"

definition mark_block :: "nat \<Rightarrow> 'a reassembly_scheme \<Rightarrow> 'a reassembly_scheme" where
  "mark_block block_index e =
     (let byte_idx = block_index div 8; bit_idx = block_index mod 8;
          bm = (if length (bitmap e) \<le> byte_idx
                then bitmap e @ replicate (byte_idx + 1 - length (bitmap e)) 0 else bitmap e)
      in e\<lparr>bitmap := bm[byte_idx := bm ! byte_idx OR push_bit bit_idx 1]\<rparr>)"

definition block_received :: "'a reassembly_scheme \<Rightarrow> nat \<Rightarrow> bool" where
  "block_received e i \<longleftrightarrow> bitmap e ! (i div 8) AND push_bit (i mod 8) 1 \<noteq> 0"

definition is_complete :: "reassembly_entry \<Rightarrow> bool" where
  "is_complete e \<longleftrightarrow>
     (if \<not> have_last e then False
      else if re_total_length e = 0 \<or> buffer e = None then False
      else let total_blocks = div_ceil (re_total_length e) 8
        in if total_blocks = 0 then True
           else if length (bitmap e) < div_ceil total_blocks 8 then False
           else list_all (block_received e) [0..<total_blocks])"

definition overlaps :: "'a reassembly_scheme \<Rightarrow> nat \<Rightarrow> nat \<Rightarrow> bool" where
  "overlaps e block_start block_count \<longleftrightarrow>
     list_ex (\<lambda>i. (block_start + i) div 8 < length (bitmap e) \<and> block_received e (block_start + i)) [0..<block_count]"

text \<open>\<open>buf[off..off + data.len()].copy_from_slice(data)\<close>.\<close>

definition copy_slice :: "nat \<Rightarrow> u8 list \<Rightarrow> u8 list \<Rightarrow> u8 list" where
  "copy_slice off data buf = take off buf @ data @ drop (off + length data) buf"

definition copy_clipped :: "nat \<Rightarrow> u8 list \<Rightarrow> u8 list \<Rightarrow> u8 list" where
  "copy_clipped off data buf =
     (let limit = min (off + length data) (length buf); copy_len = min (limit - off) (length data)
      in if off < length buf then copy_slice off (take copy_len data) buf else buf)"

definition mark_blocks :: "nat \<Rightarrow> nat \<Rightarrow> 'a reassembly_scheme \<Rightarrow> 'a reassembly_scheme" where
  "mark_blocks block_start block_count e = fold (\<lambda>i. mark_block (block_start + i)) [0..<block_count] e"

section \<open>IPv4\<close>

type_synonym fragment_key = "u16 \<times> u8 \<times> ipv4_addr \<times> ipv4_addr"

type_synonym fragment_cache = "(fragment_key, reassembly_entry) btree"

definition new_cache :: fragment_cache where
  "new_cache = []"

definition fragment_key_of :: "ipv4_header \<Rightarrow> fragment_key" where
  "fragment_key_of h = (identification h, protocol_to_u8 (protocol h), source h, destination h)"

definition more_flag :: "ipv4_header \<Rightarrow> bool" where
  "more_flag h \<longleftrightarrow> flags_fragment_offset h AND 0x2000 \<noteq> 0"

definition offset_blocks :: "ipv4_header \<Rightarrow> nat" where
  "offset_blocks h = unat (flags_fragment_offset h AND 0x1FFF)"

text \<open>A last fragment fixes the length: the buffer is allocated and what was waiting is copied in.\<close>

definition accept_last :: "nat \<Rightarrow> nat \<Rightarrow> reassembly_entry \<Rightarrow> reassembly_entry" where
  "accept_last byte_offset data_len e =
     (let e1 = e\<lparr>have_last := True\<rparr>; total_payload = byte_offset + data_len
      in if buffer e1 = None \<and> total_payload \<le> MAX_DATAGRAM_SIZE
         then e1\<lparr>re_total_length := total_payload,
                 buffer := Some (fold (\<lambda>(off, frag_data). copy_clipped off frag_data)
                                   (pending_fragments e1) (replicate total_payload 0)),
                 pending_fragments := []\<rparr>
         else e1)"

definition store_data :: "nat \<Rightarrow> u8 list \<Rightarrow> reassembly_entry \<Rightarrow> reassembly_entry" where
  "store_data byte_offset data e =
     (case buffer e of
        Some buf \<Rightarrow> e\<lparr>buffer := Some (copy_clipped byte_offset data buf)\<rparr>
      | None \<Rightarrow> e\<lparr>pending_fragments := pending_fragments e @ [(byte_offset, data)]\<rparr>)"

definition reassembled :: "reassembly_entry \<Rightarrow> ipv4_packet" where
  "reassembled e =
     (let data = (case buffer e of Some buf \<Rightarrow> buf | None \<Rightarrow> [])
      in \<lparr>header = (re_header e)\<lparr>flags_fragment_offset := 0,
            total_length := of_nat (min (IPV4_MIN_HEADER_SIZE + length data) U16_MAX)\<rparr>,
          payload = data\<rparr>)"

definition process_ipv4_fragment ::
  "ipv4_packet \<Rightarrow> u64 \<Rightarrow> fragment_cache \<Rightarrow> ipv4_packet option \<times> fragment_cache" where
  "process_ipv4_fragment packet current_tick cache =
     (let hdr = header packet; mf = more_flag hdr; offset = offset_blocks hdr
      in if \<not> mf \<and> offset = 0 then (Some packet, cache)
         else let key = fragment_key_of hdr;
                  e = (case bt_get cache key of Some e \<Rightarrow> e | None \<Rightarrow> new_entry hdr current_tick);
                  data = payload packet; byte_offset = offset * 8; block_count = div_ceil (length data) 8
           in if overlaps e offset block_count then (None, bt_remove key cache)
              else let e1 = (if mf then e else accept_last byte_offset (length data) e);
                       e2 = store_data byte_offset data e1;
                       e3 = mark_blocks offset block_count e2
                in if is_complete e3 then (Some (reassembled e3), bt_remove key cache)
                   else (None, bt_insert key e3 cache))"

section \<open>Eviction\<close>

function drop_first_over :: "('k, 'v) btree \<Rightarrow> ('k, 'v) btree" where
  "drop_first_over cache =
     (if MAX_REASSEMBLY_ENTRIES < length cache
      then case bt_first cache of None \<Rightarrow> cache | Some (k, _) \<Rightarrow> drop_first_over (bt_remove k cache)
      else cache)"
  by pat_completeness auto
termination
  by (relation "measure length") (auto dest!: bt_first_in intro: length_bt_remove_entry)

declare drop_first_over.simps [simp del]

definition evict_expired_fragments :: "u64 \<Rightarrow> fragment_cache \<Rightarrow> fragment_cache" where
  "evict_expired_fragments current_tick cache =
     drop_first_over (bt_retain (\<lambda>_ e. current_tick - created_at e < FRAGMENT_TIMEOUT_TICKS) cache)"

section \<open>IPv6\<close>

type_synonym ipv6_fragment_key = "u32 \<times> ipv6_addr \<times> ipv6_addr"

record ipv6_reassembly_entry = reassembly +
  re_next_header :: u8

type_synonym ipv6_fragment_cache = "(ipv6_fragment_key, ipv6_reassembly_entry) btree"

definition new_ipv6_entry :: "u8 \<Rightarrow> u64 \<Rightarrow> ipv6_reassembly_entry" where
  "new_ipv6_entry nh created =
     \<lparr>created_at = created, re_total_length = 0, buffer = None, pending_fragments = [], bitmap = [],
      have_last = False, re_next_header = nh\<rparr>"

definition ipv6_is_complete :: "ipv6_reassembly_entry \<Rightarrow> bool" where
  "ipv6_is_complete e \<longleftrightarrow>
     (if \<not> have_last e \<or> re_total_length e = 0 then False
      else let total_blocks = div_ceil (re_total_length e) 8
        in if total_blocks = 0 then True
           else if length (bitmap e) < div_ceil total_blocks 8 then False
           else list_all (block_received e) [0..<total_blocks])"

definition ipv6_flush :: "nat \<times> u8 list \<Rightarrow> u8 list \<Rightarrow> u8 list" where
  "ipv6_flush = (\<lambda>(off, frag) buf.
     (let limit = min (off + length frag) (length buf)
      in if off < length buf then copy_slice off (take (limit - off) frag) buf else buf))"

definition ipv6_store_data :: "nat \<Rightarrow> u8 list \<Rightarrow> bool \<Rightarrow> ipv6_reassembly_entry \<Rightarrow> ipv6_reassembly_entry" where
  "ipv6_store_data byte_offset data mf e =
     (case buffer e of
        Some buf \<Rightarrow>
          let buf1 = (if length buf < byte_offset + length data
                      then buf @ replicate (byte_offset + length data - length buf) 0 else buf)
          in e\<lparr>buffer := Some (copy_slice byte_offset data buf1)\<rparr>
      | None \<Rightarrow>
          if \<not> mf
          then let buf = copy_slice byte_offset data (replicate (re_total_length e) 0)
            in e\<lparr>buffer := Some (fold ipv6_flush (pending_fragments e) buf), pending_fragments := []\<rparr>
          else e\<lparr>pending_fragments := pending_fragments e @ [(byte_offset, data)]\<rparr>)"

definition process_ipv6_fragment ::
  "ipv6_fragment_header \<Rightarrow> u8 list \<Rightarrow> ipv6_addr \<Rightarrow> ipv6_addr \<Rightarrow> u64 \<Rightarrow> ipv6_fragment_cache \<Rightarrow>
     (u8 \<times> u8 list) option \<times> ipv6_fragment_cache" where
  "process_ipv6_fragment fh data src dst current_tick cache =
     (let nh = next_header_to_u8 (frag_next_header fh); mf = more_fragments fh
      in if \<not> mf \<and> fragment_offset fh = 0 then (Some (nh, data), cache)
         else let key = (frag_identification fh, src, dst);
                  e = (case bt_get cache key of Some e \<Rightarrow> e | None \<Rightarrow> new_ipv6_entry nh current_tick)
           in if nh \<noteq> re_next_header e then (None, bt_remove key cache)
              else let block_start = unat (fragment_offset fh); byte_offset = block_start * 8;
                       block_count = div_ceil (length data) 8
                in if overlaps e block_start block_count then (None, bt_remove key cache)
                   else let e1 = (if mf then e
                                  else e\<lparr>have_last := True, re_total_length := byte_offset + length data\<rparr>);
                            e2 = ipv6_store_data byte_offset data mf e1;
                            e3 = mark_blocks block_start block_count e2
                     in if ipv6_is_complete e3
                        then (Some (re_next_header e3, case buffer e3 of Some buf \<Rightarrow> buf | None \<Rightarrow> []), bt_remove key cache)
                        else (None, bt_insert key e3 cache))"

definition evict_expired_ipv6_fragments :: "u64 \<Rightarrow> ipv6_fragment_cache \<Rightarrow> ipv6_fragment_cache" where
  "evict_expired_ipv6_fragments current_tick cache =
     drop_first_over (bt_retain (\<lambda>_ e. current_tick - created_at e < FRAGMENT_TIMEOUT_TICKS) cache)"

end
