(* ===== verification/Fragment_Reassembly.thy ===== *)
theory Fragment_Reassembly
  imports Fragment_Cache "HOL-Library.Multiset"
begin

text \<open>
  Reassembly of fragments: the bitmap and the buffer of a reassembly in terms of the fragments it has
  accepted, the contract of a reassembler and its proof for IPv4, for IPv6 and for IPv6 packets on the
  wire, and the properties of both.
\<close>

unbundle bit_operations_syntax

section \<open>The bitmap\<close>

definition received :: "'a reassembly_scheme \<Rightarrow> nat \<Rightarrow> bool" where
  "received e i \<longleftrightarrow> i div 8 < length (bitmap e) \<and> block_received e i"

lemma block_received_bit: "block_received e i \<longleftrightarrow> bit (bitmap e ! (i div 8)) (i mod 8)"
proof -
  let ?w = "bitmap e ! (i div 8)"
  have i: "i mod 8 < 8"
    by simp
  have "?w AND push_bit (i mod 8) 1 \<noteq> 0 \<longleftrightarrow> (\<exists>n < 8. bit (?w AND push_bit (i mod 8) 1) n)"
    by (auto simp: bit_eq_iff bit_simps dest: bit_imp_le_length)
  also have "\<dots> \<longleftrightarrow> bit ?w (i mod 8)"
    using i by (auto simp: bit_simps)
  finally show ?thesis
    unfolding block_received_def .
qed

lemma mark_block_fields [simp]:
  "created_at (mark_block k e) = created_at e" "re_total_length (mark_block k e) = re_total_length e"
  "buffer (mark_block k e) = buffer e" "pending_fragments (mark_block k e) = pending_fragments e"
  "have_last (mark_block k e) = have_last e" "reassembly.more (mark_block k e) = reassembly.more e"
  by (simp_all add: mark_block_def Let_def)

lemma received_mark_block: "received (mark_block k e) i \<longleftrightarrow> i = k \<or> received e i"
proof -
  define bm where "bm = (if length (bitmap e) \<le> k div 8
    then bitmap e @ replicate (k div 8 + 1 - length (bitmap e)) 0 else bitmap e)"
  have mk: "bitmap (mark_block k e) = bm[k div 8 := bm ! (k div 8) OR push_bit (k mod 8) 1]"
    by (simp add: mark_block_def Let_def bm_def)
  have len: "k div 8 < length bm" "length (bitmap e) \<le> length bm"
    by (auto simp: bm_def)
  have old: "bit (bm ! j) n \<longleftrightarrow> j < length (bitmap e) \<and> bit (bitmap e ! j) n" if "j < length bm" for j n
    using that by (auto simp: bm_def nth_append)
  have one: "bit (w OR push_bit (k mod 8) 1) n \<longleftrightarrow> bit w n \<or> n = k mod 8" for w :: u8 and n
    by (auto simp: bit_simps)
  show ?thesis
  proof (cases "i div 8 = k div 8")
    case True
    have "i = k \<longleftrightarrow> i mod 8 = k mod 8"
      using True by (metis div_mult_mod_eq)
    then show ?thesis
      using True len old [of "k div 8" "i mod 8"] unfolding received_def block_received_bit mk
      by (simp add: one del: push_bit_of_1) auto
  next
    case False
    then have "i \<noteq> k"
      by auto
    moreover have "i div 8 < length (bitmap e)" if "i div 8 < length bm" "bit (bm ! (i div 8)) (i mod 8)"
      using old that by blast
    ultimately show ?thesis
      using False len(2) old [of "i div 8" "i mod 8"] unfolding received_def block_received_bit mk by auto
  qed
qed

lemma mark_blocks_Suc: "mark_blocks s (Suc c) e = mark_block (s + c) (mark_blocks s c e)"
  by (simp add: mark_blocks_def)

lemma mark_blocks_0 [simp]: "mark_blocks s 0 e = e"
  by (simp add: mark_blocks_def)

lemma mark_blocks_fields [simp]:
  "created_at (mark_blocks s c e) = created_at e" "re_total_length (mark_blocks s c e) = re_total_length e"
  "buffer (mark_blocks s c e) = buffer e" "pending_fragments (mark_blocks s c e) = pending_fragments e"
  "have_last (mark_blocks s c e) = have_last e" "reassembly.more (mark_blocks s c e) = reassembly.more e"
  by (induction c) (simp_all add: mark_blocks_Suc)

lemma received_mark_blocks: "received (mark_blocks s c e) i \<longleftrightarrow> received e i \<or> s \<le> i \<and> i < s + c"
  by (induction c) (auto simp: mark_blocks_Suc received_mark_block)

lemma overlaps_iff: "overlaps e s c \<longleftrightarrow> (\<exists>i. s \<le> i \<and> i < s + c \<and> received e i)"
proof
  assume "overlaps e s c"
  then obtain j where "j < c" "received e (s + j)"
    by (auto simp: overlaps_def list_ex_iff received_def)
  then show "\<exists>i. s \<le> i \<and> i < s + c \<and> received e i"
    by (intro exI [of _ "s + j"]) auto
next
  assume "\<exists>i. s \<le> i \<and> i < s + c \<and> received e i"
  then obtain i where i: "s \<le> i" "i < s + c" "received e i"
    by blast
  then have "i - s \<in> set [0..<c]" "received e (s + (i - s))"
    by auto
  then show "overlaps e s c"
    unfolding overlaps_def list_ex_iff received_def by blast
qed

lemma div_ceil_8: "div_ceil n 8 = (n + 7) div 8"
  by (simp add: div_ceil_def)

lemma all_blocks_iff:
  assumes "0 < n"
  shows "(if div_ceil n 8 = 0 then True
      else if length (bitmap e) < div_ceil (div_ceil n 8) 8 then False
      else list_all (block_received e) [0..<div_ceil n 8]) \<longleftrightarrow> (\<forall>i < div_ceil n 8. received e i)"
proof -
  let ?t = "div_ceil n 8"
  have t: "0 < ?t"
    using assms by (simp add: div_ceil_8)
  show ?thesis
  proof (cases "length (bitmap e) < div_ceil ?t 8")
    case True
    then have "\<not> received e (?t - 1)"
      using t by (simp add: received_def div_ceil_8 [of ?t]) linarith
    then have "\<exists>i < ?t. \<not> received e i"
      using t by (intro exI [of _ "?t - 1"]) simp
    then show ?thesis
      using True t by auto
  next
    case False
    have "i div 8 < length (bitmap e)" if "i < ?t" for i
      using that False by (simp add: div_ceil_8 [of ?t])
    then show ?thesis
      using False t by (auto simp: received_def list_all_iff)
  qed
qed

lemma is_complete_iff:
  "is_complete e \<longleftrightarrow> have_last e \<and> re_total_length e \<noteq> 0 \<and> buffer e \<noteq> None \<and>
     (\<forall>i < div_ceil (re_total_length e) 8. received e i)"
  unfolding is_complete_def Let_def by (cases "re_total_length e = 0") (simp_all add: all_blocks_iff)

lemma ipv6_is_complete_iff:
  "ipv6_is_complete e \<longleftrightarrow> have_last e \<and> re_total_length e \<noteq> 0 \<and> (\<forall>i < div_ceil (re_total_length e) 8. received e i)"
  unfolding ipv6_is_complete_def Let_def by (cases "re_total_length e = 0") (simp_all add: all_blocks_iff)

section \<open>The buffer\<close>

text \<open>A fragment: its offset in blocks, its bytes, and whether more follow.\<close>

type_synonym piece = "nat \<times> u8 list \<times> bool"

definition blocks :: "piece \<Rightarrow> nat set" where
  "blocks p = (case p of (b, d, m) \<Rightarrow> {b..<b + div_ceil (length d) 8})"

definition covers :: "piece \<Rightarrow> nat \<Rightarrow> bool" where
  "covers p x \<longleftrightarrow> (case p of (b, d, m) \<Rightarrow> b * 8 \<le> x \<and> x < b * 8 + length d)"

definition byte_of :: "piece \<Rightarrow> nat \<Rightarrow> u8" where
  "byte_of p x = (case p of (b, d, m) \<Rightarrow> d ! (x - b * 8))"

definition disjoint_blocks :: "piece list \<Rightarrow> bool" where
  "disjoint_blocks ps \<longleftrightarrow> sorted_wrt (\<lambda>p q. blocks p \<inter> blocks q = {}) ps"

definition holds :: "piece list \<Rightarrow> u8 list \<Rightarrow> bool" where
  "holds ps buf \<longleftrightarrow> (\<forall>x < length buf.
     (\<forall>p \<in> set ps. covers p x \<longrightarrow> buf ! x = byte_of p x) \<and> ((\<forall>p \<in> set ps. \<not> covers p x) \<longrightarrow> buf ! x = 0))"

lemma covers_block: "covers p x \<Longrightarrow> x div 8 \<in> blocks p"
  by (cases p) (auto simp: covers_def blocks_def div_ceil_8)

lemma disjoint_blocks_snoc:
  "disjoint_blocks (ps @ [p]) \<longleftrightarrow> disjoint_blocks ps \<and> (\<forall>q \<in> set ps. blocks q \<inter> blocks p = {})"
  by (simp add: disjoint_blocks_def sorted_wrt_append)

lemma length_copy_clipped [simp]: "length (copy_clipped off d buf) = length buf"
  by (simp add: copy_clipped_def copy_slice_def Let_def)

lemma copy_clipped_nth:
  assumes "x < length buf"
  shows "copy_clipped off d buf ! x = (if off \<le> x \<and> x < off + length d then d ! (x - off) else buf ! x)"
  using assms by (auto simp: copy_clipped_def copy_slice_def Let_def nth_append min_def)

lemma holds_copy:
  assumes "holds ps buf" "\<And>q. q \<in> set ps \<Longrightarrow> blocks q \<inter> blocks (b, d, m) = {}"
  shows "holds (ps @ [(b, d, m)]) (copy_clipped (b * 8) d buf)"
  unfolding holds_def
proof (intro allI impI)
  fix x
  assume "x < length (copy_clipped (b * 8) d buf)"
  then have x: "x < length buf"
    by simp
  have c: "covers (b, d, m) x \<longleftrightarrow> b * 8 \<le> x \<and> x < b * 8 + length d"
    by (simp add: covers_def)
  have n: "copy_clipped (b * 8) d buf ! x = (if covers (b, d, m) x then byte_of (b, d, m) x else buf ! x)"
    using copy_clipped_nth [OF x] by (simp add: c byte_of_def)
  have other: "\<not> covers q x" if "q \<in> set ps" "covers (b, d, m) x" for q
    using assms(2) [OF that(1)] covers_block [OF that(2)] covers_block [of q x] by blast
  show "(\<forall>p \<in> set (ps @ [(b, d, m)]). covers p x \<longrightarrow> copy_clipped (b * 8) d buf ! x = byte_of p x) \<and>
    ((\<forall>p \<in> set (ps @ [(b, d, m)]). \<not> covers p x) \<longrightarrow> copy_clipped (b * 8) d buf ! x = 0)"
    using assms(1) x n other unfolding holds_def by auto
qed

lemma holds_zero: "holds [] (replicate n 0)"
  by (simp add: holds_def)

definition pending_of :: "piece list \<Rightarrow> (nat \<times> u8 list) list" where
  "pending_of ps = map (\<lambda>(b, d, m). (b * 8, d)) ps"

lemma pending_of_simps [simp]: "pending_of [] = []" "pending_of (ps @ [(b, d, m)]) = pending_of ps @ [(b * 8, d)]"
  by (simp_all add: pending_of_def)

lemma holds_flush:
  assumes "disjoint_blocks ps"
  shows "holds ps (fold (\<lambda>(off, d). copy_clipped off d) (pending_of ps) (replicate n 0)) \<and>
    length (fold (\<lambda>(off, d). copy_clipped off d) (pending_of ps) (replicate n 0)) = n"
  using assms
proof (induction ps rule: rev_induct)
  case Nil
  then show ?case
    by (simp add: holds_zero)
next
  case (snoc p ps)
  obtain b' d m where p: "p = (b', d, m)"
    by (cases p)
  show ?case
    using snoc holds_copy [of ps _ b' d m] by (simp add: p disjoint_blocks_snoc)
qed

section \<open>A reassembly and the fragments it has accepted\<close>

definition bitmap_ok :: "'a reassembly_scheme \<Rightarrow> piece list \<Rightarrow> bool" where
  "bitmap_ok e ps \<longleftrightarrow> disjoint_blocks ps \<and> (\<forall>i. received e i \<longleftrightarrow> (\<exists>p \<in> set ps. i \<in> blocks p))"

lemma bitmap_ok_overlaps:
  assumes "bitmap_ok e ps"
  shows "overlaps e b (div_ceil (length d) 8) \<longleftrightarrow> (\<exists>p \<in> set ps. blocks p \<inter> blocks (b, d, m) \<noteq> {})"
proof -
  have "b \<le> i \<and> i < b + div_ceil (length d) 8 \<longleftrightarrow> i \<in> blocks (b, d, m)" for i
    by (simp add: blocks_def)
  moreover have "received e i \<longleftrightarrow> (\<exists>p \<in> set ps. i \<in> blocks p)" for i
    using assms by (simp add: bitmap_ok_def)
  ultimately show ?thesis
    unfolding overlaps_iff by blast
qed

lemma bitmap_ok_mark:
  assumes "bitmap_ok e ps" "\<not> overlaps e b (div_ceil (length d) 8)"
    "bitmap e' = bitmap e"
  shows "bitmap_ok (mark_blocks b (div_ceil (length d) 8) e') (ps @ [(b, d, m)])"
proof -
  have "received e' i = received e i" for i
    using assms(3) by (simp add: received_def block_received_def)
  then have "received (mark_blocks b (div_ceil (length d) 8) e') i \<longleftrightarrow> (\<exists>p \<in> set (ps @ [(b, d, m)]). i \<in> blocks p)" for i
    using assms(1) unfolding bitmap_ok_def by (auto simp: received_mark_blocks blocks_def)
  moreover have "disjoint_blocks (ps @ [(b, d, m)])"
    using assms(1,2) bitmap_ok_overlaps [OF assms(1), of b d m] unfolding disjoint_blocks_snoc bitmap_ok_def by blast
  ultimately show ?thesis
    unfolding bitmap_ok_def by blast
qed

section \<open>IPv4 entries\<close>

definition entry_ok :: "reassembly_entry \<Rightarrow> piece list \<Rightarrow> bool" where
  "entry_ok e ps \<longleftrightarrow> bitmap_ok e ps \<and> (have_last e \<longleftrightarrow> (\<exists>b d. (b, d, False) \<in> set ps)) \<and>
     (case buffer e of
        None \<Rightarrow> pending_fragments e = pending_of ps \<and> (\<forall>b d. (b, d, False) \<in> set ps \<longrightarrow> MAX_DATAGRAM_SIZE < b * 8 + length d)
      | Some buf \<Rightarrow> holds ps buf \<and> length buf = re_total_length e \<and> re_total_length e \<le> MAX_DATAGRAM_SIZE \<and>
          (\<exists>b d. (b, d, False) \<in> set ps \<and> re_total_length e = b * 8 + length d))"

definition accept :: "nat \<Rightarrow> u8 list \<Rightarrow> bool \<Rightarrow> reassembly_entry \<Rightarrow> reassembly_entry" where
  "accept b d mf e =
     mark_blocks b (div_ceil (length d) 8) (store_data (b * 8) d (if mf then e else accept_last (b * 8) (length d) e))"

lemma entry_ok_new: "entry_ok (new_entry h t) []"
  by (simp add: entry_ok_def new_entry_def bitmap_ok_def disjoint_blocks_def received_def)

lemma bitmap_store [simp]: "bitmap (store_data x d e) = bitmap e" "bitmap (accept_last x n e) = bitmap e"
  by (simp_all add: store_data_def accept_last_def Let_def split: option.split)

lemma header_store [simp]: "re_header (store_data x d e) = re_header e" "re_header (accept_last x n e) = re_header e"
  by (simp_all add: store_data_def accept_last_def Let_def split: option.split)

lemma header_mark_blocks [simp]: "re_header (mark_blocks s c e) = re_header e" for e :: reassembly_entry
proof (induction c)
  case (Suc c)
  then show ?case
    by (simp add: mark_blocks_Suc mark_block_def Let_def)
qed simp

lemma header_accept [simp]: "re_header (accept b d mf e) = re_header e"
  by (simp add: accept_def)

lemma entry_ok_accept:
  assumes ok: "entry_ok e ps" and no: "\<not> overlaps e b (div_ceil (length d) 8)"
  shows "entry_ok (accept b d mf e) (ps @ [(b, d, mf)])"
proof -
  have bm: "bitmap_ok e ps"
    using ok by (simp add: entry_ok_def)
  let ?e1 = "if mf then e else accept_last (b * 8) (length d) e"
  let ?e2 = "store_data (b * 8) d ?e1"
  have sep: "blocks q \<inter> blocks (b, d, mf) = {}" if "q \<in> set ps" for q
    using no that bitmap_ok_overlaps [OF bm] by blast
  have mk: "bitmap_ok (accept b d mf e) (ps @ [(b, d, mf)])"
    unfolding accept_def by (rule bitmap_ok_mark [OF bm no]) simp
  have dj: "disjoint_blocks ps"
    using bm by (simp add: bitmap_ok_def)
  have last: "have_last ?e2 \<longleftrightarrow> (\<exists>b' d'. (b', d', False) \<in> set (ps @ [(b, d, mf)]))"
    using ok by (auto simp: entry_ok_def store_data_def accept_last_def Let_def split: option.split)
  have "case buffer ?e2 of
      None \<Rightarrow> pending_fragments ?e2 = pending_of (ps @ [(b, d, mf)]) \<and>
        (\<forall>b' d'. (b', d', False) \<in> set (ps @ [(b, d, mf)]) \<longrightarrow> MAX_DATAGRAM_SIZE < b' * 8 + length d')
    | Some buf \<Rightarrow> holds (ps @ [(b, d, mf)]) buf \<and> length buf = re_total_length ?e2 \<and> re_total_length ?e2 \<le> MAX_DATAGRAM_SIZE \<and>
        (\<exists>b' d'. (b', d', False) \<in> set (ps @ [(b, d, mf)]) \<and> re_total_length ?e2 = b' * 8 + length d')"
  proof (cases "buffer e")
    case (Some buf)
    then have o: "holds ps buf" "length buf = re_total_length e" "re_total_length e \<le> MAX_DATAGRAM_SIZE"
      "\<exists>b' d'. (b', d', False) \<in> set ps \<and> re_total_length e = b' * 8 + length d'"
      using ok by (auto simp: entry_ok_def)
    have "buffer ?e2 = Some (copy_clipped (b * 8) d buf)" "re_total_length ?e2 = re_total_length e"
      using Some by (simp_all add: store_data_def accept_last_def)
    then show ?thesis
      using o holds_copy [OF o(1), of b d mf] sep by auto
  next
    case None
    then have p: "pending_fragments e = pending_of ps"
      "\<And>b' d'. (b', d', False) \<in> set ps \<Longrightarrow> MAX_DATAGRAM_SIZE < b' * 8 + length d'"
      using ok by (auto simp: entry_ok_def)
    show ?thesis
    proof (cases "\<not> mf \<and> b * 8 + length d \<le> MAX_DATAGRAM_SIZE")
      case True
      let ?buf = "fold (\<lambda>(off, d). copy_clipped off d) (pending_of ps) (replicate (b * 8 + length d) 0)"
      have "buffer ?e2 = Some (copy_clipped (b * 8) d ?buf)" "re_total_length ?e2 = b * 8 + length d"
        using True None p(1) by (simp_all add: store_data_def accept_last_def Let_def)
      then show ?thesis
        using True holds_flush [OF dj, of "b * 8 + length d"] holds_copy [of ps ?buf b d mf] sep by auto
    next
      case False
      then have "buffer ?e2 = None" "pending_fragments ?e2 = pending_of (ps @ [(b, d, mf)])"
        using None p(1) by (auto simp: store_data_def accept_last_def Let_def)
      then show ?thesis
        using False p(2) by auto
    qed
  qed
  then show ?thesis
    using mk last unfolding entry_ok_def accept_def mark_blocks_fields by blast
qed

lemma process_ipv4_unfold:
  fixes cache :: fragment_cache and t :: u64
  assumes "more_flag (header p) \<or> offset_blocks (header p) \<noteq> 0"
  defines "k \<equiv> fragment_key_of (header p)" and "b \<equiv> offset_blocks (header p)" and "mf \<equiv> more_flag (header p)"
  defines "e \<equiv> (case bt_get cache k of Some e \<Rightarrow> e | None \<Rightarrow> new_entry (header p) t)"
  shows "process_ipv4_fragment p t cache =
    (if overlaps e b (div_ceil (length (payload p)) 8) then (None, bt_remove k cache)
     else if is_complete (accept b (payload p) mf e) then (Some (reassembled (accept b (payload p) mf e)), bt_remove k cache)
     else (None, bt_insert k (accept b (payload p) mf e) cache))"
  using assms(1) unfolding process_ipv4_fragment_def Let_def accept_def e_def k_def b_def mf_def by auto

section \<open>What a delivered datagram is made of\<close>

definition is_fragment :: "ipv4_packet \<Rightarrow> bool" where
  "is_fragment p \<longleftrightarrow> more_flag (header p) \<or> offset_blocks (header p) \<noteq> 0"

definition piece_of :: "ipv4_packet \<Rightarrow> piece" where
  "piece_of p = (offset_blocks (header p), payload p, more_flag (header p))"

definition key_of :: "ipv4_packet \<Rightarrow> fragment_key" where
  "key_of p = fragment_key_of (header p)"

definition collected :: "reassembly_entry \<Rightarrow> ipv4_packet list \<Rightarrow> bool" where
  "collected e ps \<longleftrightarrow> ps \<noteq> [] \<and> entry_ok e (map piece_of ps) \<and> re_header e = header (hd ps)"

text \<open>A datagram put together from fragments: the last of them ends it, every block of it was in one of
  them, and its bytes are theirs; a byte none of them has is zero.\<close>

definition assembled_from :: "ipv4_packet \<Rightarrow> ipv4_packet list \<Rightarrow> bool" where
  "assembled_from q ps \<longleftrightarrow> disjoint_blocks (map piece_of ps) \<and>
     (\<exists>r \<in> set ps. \<not> more_flag (header r) \<and> length (payload q) = offset_blocks (header r) * 8 + length (payload r)) \<and>
     (\<forall>x < length (payload q). (\<exists>r \<in> set ps. x div 8 \<in> blocks (piece_of r)) \<and>
        (\<forall>r \<in> set ps. covers (piece_of r) x \<longrightarrow> payload q ! x = byte_of (piece_of r) x) \<and>
        ((\<forall>r \<in> set ps. \<not> covers (piece_of r) x) \<longrightarrow> payload q ! x = 0)) \<and>
     header q = (header (hd ps))\<lparr>flags_fragment_offset := 0, total_length := of_nat (min (20 + length (payload q)) U16_MAX)\<rparr>"

lemma complete_assembled:
  assumes c: "collected e ps" and d: "is_complete e"
  shows "assembled_from (reassembled e) ps"
proof -
  have ok: "bitmap_ok e (map piece_of ps)" and hd: "re_header e = header (hd ps)"
    using c by (auto simp: collected_def entry_ok_def)
  obtain buf where b: "buffer e = Some buf" and n: "\<forall>i < div_ceil (re_total_length e) 8. received e i"
    using d by (auto simp: is_complete_iff)
  have h: "holds (map piece_of ps) buf" "length buf = re_total_length e"
    "\<exists>b d. (b, d, False) \<in> piece_of ` set ps \<and> re_total_length e = b * 8 + length d"
    using c b by (auto simp: collected_def entry_ok_def)
  have q: "payload (reassembled e) = buf"
    "header (reassembled e) = (header (hd ps))\<lparr>flags_fragment_offset := 0, total_length := of_nat (min (20 + length buf) U16_MAX)\<rparr>"
    using b hd by (simp_all add: reassembled_def Let_def IPV4_MIN_HEADER_SIZE_def)
  have blk: "\<exists>r \<in> set ps. x div 8 \<in> blocks (piece_of r)" if "x < length buf" for x
  proof -
    have "x div 8 < div_ceil (re_total_length e) 8"
      using that h(2) by (simp add: div_ceil_8)
    then show ?thesis
      using n ok by (auto simp: bitmap_ok_def)
  qed
  have "\<exists>r \<in> set ps. \<not> more_flag (header r) \<and> length buf = offset_blocks (header r) * 8 + length (payload r)"
    using h(2,3) by (auto simp: piece_of_def)
  moreover have "disjoint_blocks (map piece_of ps)"
    using ok by (simp add: bitmap_ok_def)
  ultimately show ?thesis
    using h(1) blk unfolding assembled_from_def q holds_def by auto
qed

lemma collected_accept:
  fixes t :: u64
  assumes "bt_get cache (key_of p) = None \<and> ps = [] \<or>
      (\<exists>e. bt_get cache (key_of p) = Some e \<and> collected e ps)" "is_fragment p"
  defines "e \<equiv> (case bt_get cache (key_of p) of Some e \<Rightarrow> e | None \<Rightarrow> new_entry (header p) t)"
  assumes "\<not> overlaps e (offset_blocks (header p)) (div_ceil (length (payload p)) 8)"
  shows "collected (accept (offset_blocks (header p)) (payload p) (more_flag (header p)) e) (ps @ [p])"
proof -
  have "entry_ok e (map piece_of ps)"
    using assms(1) entry_ok_new by (auto simp: e_def collected_def)
  then have "entry_ok (accept (offset_blocks (header p)) (payload p) (more_flag (header p)) e) (map piece_of (ps @ [p]))"
    using entry_ok_accept assms(4) by (simp add: piece_of_def)
  moreover have "re_header e = header (hd (ps @ [p]))"
    using assms(1) by (auto simp: e_def collected_def new_entry_def)
  ultimately show ?thesis
    by (simp add: collected_def)
qed

text \<open>What the cache holds, by the packets that have arrived.\<close>

definition cache_ok :: "ipv4_packet set \<Rightarrow> fragment_cache \<Rightarrow> bool" where
  "cache_ok H cache \<longleftrightarrow> bt_sorted cache \<and>
     (\<forall>k e. bt_get cache k = Some e \<longrightarrow> (\<exists>ps. set ps \<subseteq> H \<and> collected e ps \<and> (\<forall>p \<in> set ps. key_of p = k)))"

lemma cache_ok_entry:
  assumes "cache_ok H cache"
  obtains ps where "bt_get cache k = None \<and> ps = [] \<or> (\<exists>e. bt_get cache k = Some e \<and> collected e ps)"
    "set ps \<subseteq> H" "\<forall>p \<in> set ps. key_of p = k"
proof (cases "bt_get cache k")
  case None
  then show ?thesis
    using that [of "[]"] by simp
next
  case (Some e)
  then show ?thesis
    using that assms unfolding cache_ok_def by blast
qed

lemma cache_ok_mono: "cache_ok H cache \<Longrightarrow> H \<subseteq> H' \<Longrightarrow> cache_ok H' cache"
  unfolding cache_ok_def by (meson subset_trans)

lemma cache_ok_remove: "cache_ok H cache \<Longrightarrow> cache_ok H (bt_remove k cache)"
  unfolding cache_ok_def by (auto simp: bt_sorted_remove bt_get_remove)

lemma process_ipv4_ok:
  assumes ok: "cache_ok H cache"
  shows "cache_ok (insert p H) (snd (process_ipv4_fragment p t cache)) \<and>
    (is_fragment p \<longrightarrow> (\<forall>q. fst (process_ipv4_fragment p t cache) = Some q \<longrightarrow>
       (\<exists>ps. set ps \<subseteq> insert p H \<and> p \<in> set ps \<and> (\<forall>r \<in> set ps. key_of r = key_of p) \<and> assembled_from q ps)))"
proof (cases "is_fragment p")
  case False
  then show ?thesis
    using cache_ok_mono [OF ok] by (auto simp: process_ipv4_fragment_def is_fragment_def Let_def)
next
  case True
  obtain ps where ps: "bt_get cache (key_of p) = None \<and> ps = [] \<or> (\<exists>e. bt_get cache (key_of p) = Some e \<and> collected e ps)"
    "set ps \<subseteq> H" "\<forall>r \<in> set ps. key_of r = key_of p"
    by (rule cache_ok_entry [OF ok])
  let ?e = "case bt_get cache (key_of p) of Some e \<Rightarrow> e | None \<Rightarrow> new_entry (header p) t"
  let ?a = "accept (offset_blocks (header p)) (payload p) (more_flag (header p)) ?e"
  have st: "process_ipv4_fragment p t cache =
    (if overlaps ?e (offset_blocks (header p)) (div_ceil (length (payload p)) 8) then (None, bt_remove (key_of p) cache)
     else if is_complete ?a then (Some (reassembled ?a), bt_remove (key_of p) cache)
     else (None, bt_insert (key_of p) ?a cache))"
    using process_ipv4_unfold [where p = p and cache = cache and t = t] True by (simp add: is_fragment_def key_of_def)
  have rm: "cache_ok (insert p H) (bt_remove (key_of p) cache)"
    using cache_ok_remove cache_ok_mono [OF ok] by blast
  show ?thesis
  proof (cases "overlaps ?e (offset_blocks (header p)) (div_ceil (length (payload p)) 8)")
    case True
    then show ?thesis
      using st rm by simp
  next
    case False
    have col: "collected ?a (ps @ [p])"
      using collected_accept [OF ps(1) True, of t] False by simp
    have sub: "set (ps @ [p]) \<subseteq> insert p H" "\<forall>r \<in> set (ps @ [p]). key_of r = key_of p"
      using ps(2,3) by auto
    show ?thesis
    proof (cases "is_complete ?a")
      case True
      have w: "set (ps @ [p]) \<subseteq> insert p H \<and> p \<in> set (ps @ [p]) \<and> (\<forall>r \<in> set (ps @ [p]). key_of r = key_of p) \<and>
          assembled_from (reassembled ?a) (ps @ [p])"
        using sub complete_assembled [OF col True] by simp
      have f: "process_ipv4_fragment p t cache = (Some (reassembled ?a), bt_remove (key_of p) cache)"
        using st False True by simp
      show ?thesis
        unfolding f fst_conv snd_conv using rm w by blast
    next
      case nc: False
      have "cache_ok (insert p H) (bt_insert (key_of p) ?a cache)"
      proof -
        have s: "bt_sorted cache"
          using ok by (simp add: cache_ok_def)
        have "\<exists>ps. set ps \<subseteq> insert p H \<and> collected e ps \<and> (\<forall>p \<in> set ps. key_of p = k)"
          if "bt_get (bt_insert (key_of p) ?a cache) k = Some e" for k e
        proof (cases "k = key_of p")
          case True
          then have "e = ?a"
            using that s by (simp add: bt_get_insert)
          then show ?thesis
            using col sub True by blast
        next
          case False
          then have "bt_get cache k = Some e"
            using that s by (simp add: bt_get_insert)
          then show ?thesis
            using cache_ok_mono [OF ok, of "insert p H"] unfolding cache_ok_def by blast
        qed
        then show ?thesis
          using s by (simp add: cache_ok_def bt_sorted_insert)
      qed
      then show ?thesis
        using st False nc by simp
    qed
  qed
qed

text \<open>Arrivals and the tick's eviction, in any order.\<close>

datatype fragment_event = Arrival ipv4_packet u64 | Tick u64

fun run_event :: "fragment_event \<Rightarrow> fragment_cache \<Rightarrow> fragment_cache" where
  "run_event (Arrival p t) cache = snd (process_ipv4_fragment p t cache)"
| "run_event (Tick t) cache = evict_expired_fragments t cache"

definition arrived :: "fragment_event list \<Rightarrow> ipv4_packet set" where
  "arrived evs = {p. \<exists>t. Arrival p t \<in> set evs}"

lemma drop_first_over_sub: "bt_sorted cache \<Longrightarrow> bt_sorted (drop_first_over cache) \<and> set (drop_first_over cache) \<subseteq> set cache \<and>
    length (drop_first_over cache) \<le> MAX_REASSEMBLY_ENTRIES"
proof (induction cache rule: drop_first_over.induct)
  case (1 cache)
  show ?case
  proof (cases "MAX_REASSEMBLY_ENTRIES < length cache")
    case True
    then obtain k v m where c: "cache = (k, v) # m"
      by (cases cache) auto
    have f: "bt_first cache = Some (k, v)"
      using c by (simp add: bt_first_def)
    have "bt_sorted (bt_remove k cache)" "set (bt_remove k cache) \<subseteq> set cache"
      using 1(2) bt_sorted_remove by auto
    then show ?thesis
      using 1(1) [OF True f refl] True f by (subst (1 2 3) drop_first_over.simps) auto
  next
    case False
    then show ?thesis
      using 1(2) by (subst (1 2 3) drop_first_over.simps) auto
  qed
qed

lemma evict_ok: "cache_ok H cache \<Longrightarrow> cache_ok H (evict_expired_fragments t cache)"
proof -
  assume ok: "cache_ok H cache"
  let ?r = "bt_retain (\<lambda>_ e. t - created_at e < FRAGMENT_TIMEOUT_TICKS) cache"
  have s: "bt_sorted cache" "bt_sorted ?r"
    using ok by (auto simp: cache_ok_def bt_sorted_retain)
  have d: "bt_sorted (drop_first_over ?r)" "set (drop_first_over ?r) \<subseteq> set cache"
    using drop_first_over_sub [OF s(2)] by auto
  have "bt_get cache k = Some e" if "bt_get (drop_first_over ?r) k = Some e" for k e
    using that d bt_get_Some_iff [OF d(1)] bt_get_Some_iff [OF s(1)] by blast
  then show ?thesis
    using ok d(1) unfolding cache_ok_def evict_expired_fragments_def by blast
qed

lemma run_events_ok: "cache_ok (arrived evs) (fold run_event evs new_cache)"
proof (induction evs rule: rev_induct)
  case Nil
  show ?case
    by (simp add: cache_ok_def new_cache_def bt_get_def)
next
  case (snoc ev evs)
  show ?case
  proof (cases ev)
    case (Arrival p t)
    then have "arrived (evs @ [ev]) = insert p (arrived evs)"
      by (auto simp: arrived_def)
    then show ?thesis
      using process_ipv4_ok [OF snoc] Arrival by simp
  next
    case (Tick t)
    then have "arrived (evs @ [ev]) = arrived evs"
      by (auto simp: arrived_def)
    then show ?thesis
      using evict_ok [OF snoc] Tick by simp
  qed
qed

section \<open>Reassembly in any order of arrival\<close>

text \<open>The fragments of a datagram: pieces of it, each but the last a whole number of blocks, that cover it
  without overlap.\<close>

definition fits :: "u8 list \<Rightarrow> piece \<Rightarrow> bool" where
  "fits D p \<longleftrightarrow> (case p of (b, d, m) \<Rightarrow>
     d \<noteq> [] \<and> b * 8 + length d \<le> length D \<and> d = take (length d) (drop (b * 8) D) \<and>
     (m \<longleftrightarrow> b * 8 + length d < length D) \<and> (m \<longrightarrow> 8 dvd length d) \<and> (m \<or> b \<noteq> 0))"

definition whole :: "u8 list \<Rightarrow> piece list \<Rightarrow> bool" where
  "whole D ps \<longleftrightarrow> 0 < length D \<and> disjoint_blocks ps \<and> (\<forall>p \<in> set ps. fits D p) \<and>
     (\<Union>p \<in> set ps. blocks p) = {..<div_ceil (length D) 8}"

lemma fits_covers:
  assumes "fits D p" "x < length D" "x div 8 \<in> blocks p"
  shows "covers p x"
proof -
  obtain b d m where p: "p = (b, d, m)"
    by (cases p)
  have x: "b \<le> x div 8" "x div 8 < b + (length d + 7) div 8"
    using assms(3) by (auto simp: p blocks_def div_ceil_8)
  then have lo: "b * 8 \<le> x"
    by linarith
  show ?thesis
  proof (cases m)
    case True
    then obtain k where "length d = 8 * k"
      using assms(1) by (auto simp: fits_def p elim!: dvdE)
    then show ?thesis
      using x lo by (auto simp: covers_def p)
  next
    case False
    then show ?thesis
      using assms(1,2) lo by (auto simp: fits_def covers_def p)
  qed
qed

lemma fits_byte: "fits D p \<Longrightarrow> covers p x \<Longrightarrow> byte_of p x = D ! x"
proof -
  assume a: "fits D p" "covers p x"
  obtain b d m where p: "p = (b, d, m)"
    by (cases p)
  have d: "d = take (length d) (drop (b * 8) D)" "b * 8 + length d \<le> length D" "b * 8 \<le> x" "x < b * 8 + length d"
    using a by (auto simp: fits_def covers_def p)
  have "d ! (x - b * 8) = take (length d) (drop (b * 8) D) ! (x - b * 8)"
    using d(1) by simp
  also have "\<dots> = D ! x"
    using d(2-4) by simp
  finally show ?thesis
    by (simp add: byte_of_def p)
qed

lemma whole_block: "whole D ps \<Longrightarrow> x < length D \<Longrightarrow> \<exists>p \<in> set ps. x div 8 \<in> blocks p"
proof -
  assume w: "whole D ps" and x: "x < length D"
  have "x div 8 \<in> {..<div_ceil (length D) 8}"
    using x by (simp add: div_ceil_8)
  then show ?thesis
    using w unfolding whole_def by blast
qed

lemma whole_holds:
  assumes w: "whole D ps" and h: "holds ps buf" and n: "length buf = length D"
  shows "buf = D"
proof (rule nth_equalityI [OF n])
  fix x
  assume x: "x < length buf"
  obtain p where p: "p \<in> set ps" "x div 8 \<in> blocks p"
    using whole_block [OF w, of x] x n by auto
  have f: "fits D p"
    using w p(1) by (simp add: whole_def)
  have c: "covers p x"
    using fits_covers [OF f _ p(2)] x n by simp
  then show "buf ! x = D ! x"
    using h x p(1) fits_byte [OF f c] by (simp add: holds_def)
qed

lemma whole_last:
  assumes w: "whole D ps"
  shows "\<exists>b d. (b, d, False) \<in> set ps"
proof -
  have n: "length D - 1 < length D"
    using w by (simp add: whole_def)
  obtain p where p: "p \<in> set ps" "(length D - 1) div 8 \<in> blocks p"
    using whole_block [OF w n] by blast
  obtain b d m where e: "p = (b, d, m)"
    by (cases p)
  have f: "fits D p"
    using w p(1) by (simp add: whole_def)
  have "covers p (length D - 1)"
    using fits_covers [OF f n p(2)] .
  then have "\<not> m"
    using f n by (auto simp: fits_def covers_def e)
  then show ?thesis
    using p(1) e by auto
qed

lemma fits_last: "fits D (b, d, False) \<Longrightarrow> b * 8 + length d = length D"
  by (auto simp: fits_def)

lemma whole_apart:
  assumes "whole D (ps @ p # rest)"
  shows "\<And>q. q \<in> set ps \<Longrightarrow> blocks q \<inter> blocks p = {}" "disjoint_blocks (ps @ [p])"
  using assms by (auto simp: whole_def disjoint_blocks_def sorted_wrt_append)

lemma missing_block:
  assumes w: "whole D (ps @ p # rest)" and r: "rest \<noteq> []"
  shows "\<exists>i < div_ceil (length D) 8. \<forall>q \<in> set (ps @ [p]). i \<notin> blocks q"
proof -
  obtain q where q: "q \<in> set rest"
    using r by (cases rest) auto
  obtain b d m where e: "q = (b, d, m)"
    by (cases q)
  have "fits D q"
    using w q by (simp add: whole_def)
  then have "b \<in> blocks q"
    by (auto simp: fits_def e blocks_def div_ceil_8)
  moreover have "blocks q \<subseteq> {..<div_ceil (length D) 8}"
    using w q by (auto simp: whole_def)
  moreover have "b \<notin> blocks q'" if "q' \<in> set (ps @ [p])" for q'
  proof -
    have "\<forall>x \<in> set (ps @ [p]). \<forall>y \<in> set rest. blocks x \<inter> blocks y = {}"
      using w unfolding whole_def disjoint_blocks_def by (simp add: sorted_wrt_append)
    then have "blocks q' \<inter> blocks q = {}"
      using that q by blast
    then show ?thesis
      using \<open>b \<in> blocks q\<close> by blast
  qed
  ultimately show ?thesis
    by (intro exI [of _ b]) auto
qed

text \<open>The contract of a reassembler with the packets it is given, over the fragments of one key it has
  taken so far, and what follows for a whole sequence of arrivals.\<close>

fun arrivals :: "('p \<Rightarrow> 'c \<Rightarrow> 'r option \<times> 'c) \<Rightarrow> 'p list \<Rightarrow> 'c \<Rightarrow> 'r option list \<times> 'c" where
  "arrivals step [] c = ([], c)"
| "arrivals step (p # ps) c = (let (r, c1) = step p c; (rs, c2) = arrivals step ps c1 in (r # rs, c2))"

definition outputs :: "('p \<Rightarrow> 'c \<Rightarrow> 'r option \<times> 'c) \<Rightarrow> ('p \<Rightarrow> bool) \<Rightarrow> 'p list \<Rightarrow> 'c \<Rightarrow> 'r option list" where
  "outputs step sel ps c = map snd (filter (\<lambda>(p, r). sel p) (zip ps (fst (arrivals step ps c))))"

lemma outputs_Cons:
  "outputs step sel (p # ps) c = (if sel p then [fst (step p c)] else []) @ outputs step sel ps (snd (step p c))"
  by (simp add: outputs_def case_prod_beta Let_def)

locale reassembler =
  fixes step :: "'p \<Rightarrow> 'c \<Rightarrow> 'r option \<times> 'c"
    and key :: "'p \<Rightarrow> 'k"
    and label :: "'p \<Rightarrow> 'l"
    and piece :: "'p \<Rightarrow> piece"
    and taken :: "'c \<Rightarrow> 'k \<Rightarrow> 'p list \<Rightarrow> bool"
    and limit :: nat
    and result :: "'p list \<Rightarrow> u8 list \<Rightarrow> 'r"
  assumes step_other: "taken c k ps \<Longrightarrow> key p \<noteq> k \<Longrightarrow> taken (snd (step p c)) k ps"
    and step_more: "taken c (key p) ps \<Longrightarrow> whole D (map piece (ps @ p # rest)) \<Longrightarrow> length D \<le> limit \<Longrightarrow> rest \<noteq> [] \<Longrightarrow>
      \<forall>q \<in> set ps. label q = label p \<Longrightarrow> \<exists>c'. step p c = (None, c') \<and> taken c' (key p) (ps @ [p])"
    and step_last: "taken c (key p) ps \<Longrightarrow> whole D (map piece (ps @ [p])) \<Longrightarrow> length D \<le> limit \<Longrightarrow>
      \<forall>q \<in> set ps. label q = label p \<Longrightarrow> \<exists>c'. step p c = (Some (result (ps @ [p]) D), c') \<and> taken c' (key p) []"
begin

lemma outputs_nothing: "filter (\<lambda>p. key p = k) as = [] \<Longrightarrow> outputs step (\<lambda>p. key p = k) as c = []"
proof (induction as arbitrary: c)
  case (Cons a as)
  then show ?case
    by (simp add: outputs_Cons split: if_splits)
qed (simp add: outputs_def)

theorem reassembled_in_any_order:
  assumes "taken c k ps" "filter (\<lambda>p. key p = k) as = rest" "rest \<noteq> []" "whole D (map piece (ps @ rest))" "length D \<le> limit"
    "\<forall>p \<in> set (ps @ rest). label p = l"
  shows "outputs step (\<lambda>p. key p = k) as c = replicate (length rest - 1) None @ [Some (result (ps @ rest) D)]"
  using assms
proof (induction as arbitrary: c ps rest)
  case Nil
  then show ?case
    by simp
next
  case (Cons a as)
  show ?case
  proof (cases "key a = k")
    case False
    then show ?thesis
      using Cons step_other [OF Cons.prems(1) False] by (simp add: outputs_Cons)
  next
    case True
    obtain rest' where r: "rest = a # rest'" "filter (\<lambda>p. key p = k) as = rest'"
      using Cons.prems(2) True by auto
    have lab: "\<forall>q \<in> set ps. label q = label a"
      using Cons.prems(6) r(1) by simp
    have tk: "taken c (key a) ps"
      using Cons.prems(1) True by simp
    show ?thesis
    proof (cases "rest' = []")
      case last: True
      have w: "whole D (map piece (ps @ [a]))"
        using Cons.prems(4) r(1) last by simp
      obtain c' where "step a c = (Some (result (ps @ [a]) D), c')"
        using step_last [OF tk w Cons.prems(5) lab] by blast
      then show ?thesis
        using True r last outputs_nothing by (simp add: outputs_Cons)
    next
      case more: False
      have w: "whole D (map piece (ps @ a # rest'))"
        using Cons.prems(4) r(1) by simp
      obtain c' where c': "step a c = (None, c')" "taken c' k (ps @ [a])"
        using step_more [OF tk w Cons.prems(5) more lab] True by blast
      have "outputs step (\<lambda>p. key p = k) as c' = replicate (length rest' - 1) None @ [Some (result ((ps @ [a]) @ rest') D)]"
        using Cons.prems(4,5,6) r more by (intro Cons.IH [OF c'(2) r(2)]) auto
      then show ?thesis
        using True c'(1) r(1) more by (cases rest') (auto simp: outputs_Cons)
    qed
  qed
qed

end

section \<open>IPv4\<close>

type_synonym arrival = "ipv4_packet \<times> u64"

definition ipv4_step :: "arrival \<Rightarrow> fragment_cache \<Rightarrow> ipv4_packet option \<times> fragment_cache" where
  "ipv4_step a cache = process_ipv4_fragment (fst a) (snd a) cache"

definition ipv4_taken :: "fragment_cache \<Rightarrow> fragment_key \<Rightarrow> arrival list \<Rightarrow> bool" where
  "ipv4_taken cache k as \<longleftrightarrow> bt_sorted cache \<and>
     (if as = [] then bt_get cache k = None else \<exists>e. bt_get cache k = Some e \<and> collected e (map fst as))"

definition ipv4_result :: "arrival list \<Rightarrow> u8 list \<Rightarrow> ipv4_packet" where
  "ipv4_result as D =
     \<lparr>header = (header (fst (hd as)))\<lparr>flags_fragment_offset := 0, total_length := of_nat (min (20 + length D) U16_MAX)\<rparr>,
      payload = D\<rparr>"

lemma fits_is_fragment: "fits D (piece_of p) \<Longrightarrow> is_fragment p"
  by (auto simp: fits_def piece_of_def is_fragment_def)

lemma ipv4_take:
  assumes tk: "ipv4_taken cache (key_of (fst a)) as" and w: "whole D (map (\<lambda>a. piece_of (fst a)) (as @ a # rest))"
    and n: "length D \<le> MAX_DATAGRAM_SIZE"
  obtains e where "collected e (map fst (as @ [a]))"
    "ipv4_step a cache = (if is_complete e then (Some (reassembled e), bt_remove (key_of (fst a)) cache)
      else (None, bt_insert (key_of (fst a)) e cache))"
proof -
  let ?p = "fst a" and ?k = "key_of (fst a)"
  have fr: "is_fragment ?p"
    using w by (intro fits_is_fragment [of D]) (auto simp: whole_def)
  have st: "bt_get cache ?k = None \<and> map fst as = [] \<or> (\<exists>e. bt_get cache ?k = Some e \<and> collected e (map fst as))"
    using tk by (auto simp: ipv4_taken_def split: if_splits)
  let ?e = "case bt_get cache ?k of Some e \<Rightarrow> e | None \<Rightarrow> new_entry (header ?p) (snd a)"
  have "entry_ok ?e (map piece_of (map fst as))"
    using st entry_ok_new by (auto simp: collected_def)
  then have "bitmap_ok ?e (map piece_of (map fst as))"
    by (simp add: entry_ok_def)
  moreover have "\<forall>q \<in> set (map piece_of (map fst as)). blocks q \<inter> blocks (piece_of ?p) = {}"
    using whole_apart(1) [of D "map (\<lambda>a. piece_of (fst a)) as"] w by auto
  ultimately have no: "\<not> overlaps ?e (offset_blocks (header ?p)) (div_ceil (length (payload ?p)) 8)"
    using bitmap_ok_overlaps unfolding piece_of_def by blast
  have "collected (accept (offset_blocks (header ?p)) (payload ?p) (more_flag (header ?p)) ?e) (map fst as @ [?p])"
    using collected_accept [OF st fr, of "snd a"] no by simp
  moreover have "ipv4_step a cache = (if is_complete (accept (offset_blocks (header ?p)) (payload ?p) (more_flag (header ?p)) ?e)
      then (Some (reassembled (accept (offset_blocks (header ?p)) (payload ?p) (more_flag (header ?p)) ?e)), bt_remove ?k cache)
      else (None, bt_insert ?k (accept (offset_blocks (header ?p)) (payload ?p) (more_flag (header ?p)) ?e) cache))"
    using process_ipv4_unfold [where p = ?p and cache = cache and t = "snd a"] fr no
    unfolding ipv4_step_def is_fragment_def key_of_def by simp
  ultimately show thesis
    using that by simp
qed

lemma collected_total:
  assumes c: "collected e (map fst as)" and f: "\<forall>p \<in> set (map (\<lambda>a. piece_of (fst a)) as). fits D p" and b: "buffer e = Some buf"
  shows "re_total_length e = length D" "length buf = length D"
proof -
  let ?ps = "map (\<lambda>a. piece_of (fst a)) as"
  have "map piece_of (map fst as) = ?ps"
    by simp
  then obtain x d where x: "(x, d, False) \<in> set ?ps" "re_total_length e = x * 8 + length d" "length buf = re_total_length e"
    using c b unfolding collected_def entry_ok_def by auto
  then have "fits D (x, d, False)"
    using f by blast
  then show "re_total_length e = length D" "length buf = length D"
    using x fits_last by auto
qed

lemma ipv4_more:
  assumes tk: "ipv4_taken cache (key_of (fst a)) as" and w: "whole D (map (\<lambda>a. piece_of (fst a)) (as @ a # rest))"
    and n: "length D \<le> MAX_DATAGRAM_SIZE" and r: "rest \<noteq> []"
  shows "\<exists>c'. ipv4_step a cache = (None, c') \<and> ipv4_taken c' (key_of (fst a)) (as @ [a])"
proof -
  obtain e where e: "collected e (map fst (as @ [a]))"
    "ipv4_step a cache = (if is_complete e then (Some (reassembled e), bt_remove (key_of (fst a)) cache)
      else (None, bt_insert (key_of (fst a)) e cache))"
    by (rule ipv4_take [OF tk w n])
  have f: "\<forall>p \<in> set (map (\<lambda>a. piece_of (fst a)) (as @ [a])). fits D p"
    using w by (auto simp: whole_def)
  obtain i where i: "i < div_ceil (length D) 8" "\<forall>q \<in> set (map (\<lambda>a. piece_of (fst a)) (as @ [a])). i \<notin> blocks q"
    using missing_block [of D "map (\<lambda>a. piece_of (fst a)) as" "piece_of (fst a)" "map (\<lambda>a. piece_of (fst a)) rest"] w r by auto
  have "\<not> received e i"
    using e(1) i(2) by (auto simp: collected_def entry_ok_def bitmap_ok_def)
  then have "\<not> is_complete e"
    using collected_total [OF e(1) f] i(1) by (auto simp: is_complete_iff)
  then show ?thesis
    using e tk by (auto simp: ipv4_taken_def bt_sorted_insert bt_get_insert)
qed

lemma ipv4_last:
  assumes tk: "ipv4_taken cache (key_of (fst a)) as" and w: "whole D (map (\<lambda>a. piece_of (fst a)) (as @ [a]))"
    and n: "length D \<le> MAX_DATAGRAM_SIZE"
  shows "\<exists>c'. ipv4_step a cache = (Some (ipv4_result (as @ [a]) D), c') \<and> ipv4_taken c' (key_of (fst a)) []"
proof -
  obtain e where e: "collected e (map fst (as @ [a]))"
    "ipv4_step a cache = (if is_complete e then (Some (reassembled e), bt_remove (key_of (fst a)) cache)
      else (None, bt_insert (key_of (fst a)) e cache))"
    by (rule ipv4_take [OF tk w n])
  let ?ps = "map (\<lambda>a. piece_of (fst a)) (as @ [a])"
  have ps: "map piece_of (map fst (as @ [a])) = ?ps"
    by simp
  have ok: "bitmap_ok e ?ps" "have_last e \<longleftrightarrow> (\<exists>b d. (b, d, False) \<in> set ?ps)"
    using e(1) unfolding collected_def entry_ok_def ps by auto
  have f: "\<forall>p \<in> set ?ps. fits D p"
    using w by (simp add: whole_def)
  obtain x d where x: "(x, d, False) \<in> set ?ps"
    using whole_last [OF w] by blast
  have small: "x * 8 + length d \<le> MAX_DATAGRAM_SIZE"
    using fits_last f x n by fastforce
  obtain buf where b: "buffer e = Some buf"
  proof (cases "buffer e")
    case None
    then have "MAX_DATAGRAM_SIZE < x * 8 + length d"
      using e(1) x unfolding collected_def entry_ok_def ps by auto
    then show ?thesis
      using small by simp
  qed simp
  have t: "re_total_length e = length D" "length buf = length D"
    using collected_total [OF e(1) f b] by auto
  have "holds ?ps buf"
    using e(1) b unfolding collected_def entry_ok_def ps by simp
  then have D: "buf = D"
    using whole_holds [OF w] t(2) by blast
  have "\<forall>i < div_ceil (length D) 8. received e i"
    using w ok(1) by (auto simp: whole_def bitmap_ok_def set_eq_iff)
  then have c: "is_complete e"
    using ok(2) x t(1) b w by (auto simp: is_complete_iff whole_def)
  have "reassembled e = ipv4_result (as @ [a]) D"
    using b D e(1) by (auto simp: reassembled_def ipv4_result_def collected_def Let_def IPV4_MIN_HEADER_SIZE_def hd_append hd_map)
  then show ?thesis
    using e(2) c tk by (auto simp: ipv4_taken_def bt_sorted_remove bt_get_remove split: if_splits)
qed

lemma ipv4_other:
  assumes tk: "ipv4_taken cache k as" and k: "key_of (fst a) \<noteq> k"
  shows "ipv4_taken (snd (ipv4_step a cache)) k as"
proof -
  have s: "bt_sorted cache"
    using tk by (simp add: ipv4_taken_def)
  have "bt_sorted (snd (ipv4_step a cache)) \<and> bt_get (snd (ipv4_step a cache)) k = bt_get cache k"
  proof (cases "is_fragment (fst a)")
    case True
    then show ?thesis
      using process_ipv4_unfold [where p = "fst a" and cache = cache and t = "snd a"] s k
      unfolding ipv4_step_def is_fragment_def key_of_def
      by (simp add: bt_sorted_remove bt_sorted_insert bt_get_remove bt_get_insert)
  next
    case False
    then show ?thesis
      using s by (simp add: ipv4_step_def process_ipv4_fragment_def is_fragment_def Let_def)
  qed
  then show ?thesis
    using tk by (simp add: ipv4_taken_def)
qed

interpretation ipv4: reassembler ipv4_step "\<lambda>a. key_of (fst a)" "\<lambda>_. ()" "\<lambda>a. piece_of (fst a)" ipv4_taken
  MAX_DATAGRAM_SIZE ipv4_result
  by unfold_locales (use ipv4_other ipv4_more ipv4_last in blast)+

section \<open>IPv6 entries\<close>

definition entry6_ok :: "ipv6_reassembly_entry \<Rightarrow> piece list \<Rightarrow> bool" where
  "entry6_ok e ps \<longleftrightarrow> bitmap_ok e ps \<and> (have_last e \<longleftrightarrow> (\<exists>b d. (b, d, False) \<in> set ps)) \<and>
     (case buffer e of
        None \<Rightarrow> pending_fragments e = pending_of ps \<and> (\<forall>b d. (b, d, False) \<notin> set ps)
      | Some buf \<Rightarrow> holds ps buf \<and> length buf = re_total_length e \<and>
          (\<exists>b d. (b, d, False) \<in> set ps \<and> re_total_length e = b * 8 + length d))"

definition accept6 :: "nat \<Rightarrow> u8 list \<Rightarrow> bool \<Rightarrow> ipv6_reassembly_entry \<Rightarrow> ipv6_reassembly_entry" where
  "accept6 b d mf e =
     mark_blocks b (div_ceil (length d) 8) (ipv6_store_data (b * 8) d mf
       (if mf then e else e\<lparr>have_last := True, re_total_length := b * 8 + length d\<rparr>))"

lemma entry6_ok_new: "entry6_ok (new_ipv6_entry nh t) []"
  by (simp add: entry6_ok_def new_ipv6_entry_def bitmap_ok_def disjoint_blocks_def received_def)

lemma next_header_mark_blocks [simp]: "re_next_header (mark_blocks s c e) = re_next_header e" for e :: ipv6_reassembly_entry
proof (induction c)
  case (Suc c)
  then show ?case
    by (simp add: mark_blocks_Suc mark_block_def Let_def)
qed simp

lemma next_header_accept [simp]: "re_next_header (accept6 b d mf e) = re_next_header e"
  by (simp add: accept6_def ipv6_store_data_def Let_def split: option.split)

lemma ipv6_flush_eq: "ipv6_flush = (\<lambda>(off, d). copy_clipped off d)"
proof -
  have "min (min (off + length d) (length buf) - off) (length d) = min (off + length d) (length buf) - off" for off and d buf :: "u8 list"
    by linarith
  then show ?thesis
    by (auto simp: fun_eq_iff ipv6_flush_def copy_clipped_def Let_def)
qed

lemma copy_slice_clipped: "off + length d \<le> length buf \<Longrightarrow> d \<noteq> [] \<Longrightarrow> copy_slice off d buf = copy_clipped off d buf"
proof -
  assume a: "off + length d \<le> length buf" "d \<noteq> []"
  then have "off < length buf"
    by (cases d) auto
  then show ?thesis
    using a by (simp add: copy_clipped_def Let_def)
qed

lemma holds_cong: "set ps = set qs \<Longrightarrow> holds ps buf = holds qs buf"
  by (simp add: holds_def)

lemma holds_fold:
  assumes "holds qs buf" "disjoint_blocks ps" "\<And>p q. p \<in> set ps \<Longrightarrow> q \<in> set qs \<Longrightarrow> blocks q \<inter> blocks p = {}"
  shows "holds (qs @ ps) (fold (\<lambda>(off, d). copy_clipped off d) (pending_of ps) buf) \<and>
    length (fold (\<lambda>(off, d). copy_clipped off d) (pending_of ps) buf) = length buf"
  using assms(2,3)
proof (induction ps rule: rev_induct)
  case Nil
  then show ?case
    using assms(1) by simp
next
  case (snoc p ps)
  obtain b d m where p: "p = (b, d, m)"
    by (cases p)
  let ?f = "fold (\<lambda>(off, d). copy_clipped off d) (pending_of ps) buf"
  have ih: "holds (qs @ ps) ?f" "length ?f = length buf"
    using snoc by (auto simp: disjoint_blocks_snoc)
  have "blocks q \<inter> blocks (b, d, m) = {}" if "q \<in> set (qs @ ps)" for q
  proof (cases "q \<in> set qs")
    case True
    then show ?thesis
      using snoc.prems(2) [of p q] p by simp
  next
    case False
    then show ?thesis
      using that snoc.prems(1) p by (simp add: disjoint_blocks_snoc)
  qed
  from holds_copy [OF ih(1) this] show ?case
    using ih(2) by (simp add: p)
qed

lemma fits_last_block: "fits D (b, d, False) \<Longrightarrow> (length D - 1) div 8 \<in> blocks (b, d, False)"
proof -
  assume f: "fits D (b, d, False)"
  then have "b * 8 + length d = length D" "0 < length d"
    by (auto simp: fits_def)
  then have "b * 8 \<le> length D - 1" "length D - 1 < b * 8 + length d"
    by linarith+
  then have "covers (b, d, False) (length D - 1)"
    by (simp add: covers_def)
  then show ?thesis
    by (rule covers_block)
qed

lemma entry6_ok_accept:
  assumes ok: "entry6_ok e ps" and f: "\<forall>p \<in> set (ps @ [(b, d, mf)]). fits D p" and dj: "disjoint_blocks (ps @ [(b, d, mf)])"
  shows "entry6_ok (accept6 b d mf e) (ps @ [(b, d, mf)])"
proof -
  let ?q = "(b, d, mf)"
  let ?e1 = "if mf then e else e\<lparr>have_last := True, re_total_length := b * 8 + length d\<rparr>"
  let ?e2 = "ipv6_store_data (b * 8) d mf ?e1"
  have bm: "bitmap_ok e ps"
    using ok by (simp add: entry6_ok_def)
  have sep: "blocks q \<inter> blocks ?q = {}" if "q \<in> set ps" for q
    using dj that by (auto simp: disjoint_blocks_snoc)
  have no: "\<not> overlaps e b (div_ceil (length d) 8)"
    using bitmap_ok_overlaps [OF bm, of b d mf] sep by blast
  have mk: "bitmap_ok (accept6 b d mf e) (ps @ [?q])"
    unfolding accept6_def by (rule bitmap_ok_mark [OF bm no]) (simp add: ipv6_store_data_def Let_def split: option.split)
  have last: "have_last ?e2 \<longleftrightarrow> (\<exists>b' d'. (b', d', False) \<in> set (ps @ [?q]))"
    using ok by (auto simp: entry6_ok_def ipv6_store_data_def Let_def split: option.split)
  have dn: "d \<noteq> []" "b * 8 + length d \<le> length D"
    using f by (auto simp: fits_def)
  have "case buffer ?e2 of
      None \<Rightarrow> pending_fragments ?e2 = pending_of (ps @ [?q]) \<and> (\<forall>b' d'. (b', d', False) \<notin> set (ps @ [?q]))
    | Some buf \<Rightarrow> holds (ps @ [?q]) buf \<and> length buf = re_total_length ?e2 \<and>
        (\<exists>b' d'. (b', d', False) \<in> set (ps @ [?q]) \<and> re_total_length ?e2 = b' * 8 + length d')"
  proof (cases "buffer e")
    case (Some buf)
    then obtain b' d' where o: "holds ps buf" "length buf = re_total_length e" "(b', d', False) \<in> set ps"
      "re_total_length e = b' * 8 + length d'"
      using ok by (auto simp: entry6_ok_def)
    have fl: "fits D (b', d', False)"
      using f o(3) by simp
    have len: "length buf = length D"
      using fits_last [OF fl] o(2,4) by simp
    have mf
    proof (rule ccontr)
      assume "\<not> mf"
      then have "(length D - 1) div 8 \<in> blocks ?q" "(length D - 1) div 8 \<in> blocks (b', d', False)"
        using fits_last_block fl f by auto
      then show False
        using sep [OF o(3)] by blast
    qed
    moreover have "copy_slice (b * 8) d buf = copy_clipped (b * 8) d buf"
      using dn len by (intro copy_slice_clipped) auto
    ultimately have "buffer ?e2 = Some (copy_clipped (b * 8) d buf)" "re_total_length ?e2 = re_total_length e"
      using Some dn(2) len by (simp_all add: ipv6_store_data_def)
    then show ?thesis
      using o holds_copy [OF o(1), of b d mf] sep by auto
  next
    case None
    then have p: "pending_fragments e = pending_of ps" "\<And>b' d'. (b', d', False) \<notin> set ps"
      using ok by (auto simp: entry6_ok_def)
    show ?thesis
    proof (cases mf)
      case True
      then show ?thesis
        using None p by (simp add: ipv6_store_data_def)
    next
      case False
      let ?z = "copy_clipped (b * 8) d (replicate (b * 8 + length d) 0)"
      let ?buf = "fold (\<lambda>(off, d). copy_clipped off d) (pending_of ps) ?z"
      have z: "copy_slice (b * 8) d (replicate (b * 8 + length d) 0) = ?z"
        using dn by (intro copy_slice_clipped) auto
      have hz: "holds [?q] ?z"
        using holds_copy [OF holds_zero, of b d mf "b * 8 + length d"] by simp
      have "disjoint_blocks ps"
        using bm by (simp add: bitmap_ok_def)
      moreover have "blocks q \<inter> blocks p = {}" if "p \<in> set ps" "q \<in> set [?q]" for p q
        using sep [OF that(1)] that(2) by (simp add: Int_commute)
      ultimately have "holds ([?q] @ ps) ?buf \<and> length ?buf = length ?z"
        by (rule holds_fold [OF hz])
      moreover have "holds ([?q] @ ps) ?buf = holds (ps @ [?q]) ?buf"
        by (rule holds_cong) auto
      moreover have "buffer ?e2 = Some ?buf" "re_total_length ?e2 = b * 8 + length d"
        using False None p(1) by (simp_all add: ipv6_store_data_def Let_def z ipv6_flush_eq)
      ultimately show ?thesis
        using False by auto
    qed
  qed
  then show ?thesis
    using mk last unfolding entry6_ok_def accept6_def mark_blocks_fields by blast
qed

section \<open>IPv6 arrivals\<close>

type_synonym ipv6_arrival = "ipv6_fragment_header \<times> u8 list \<times> ipv6_addr \<times> ipv6_addr \<times> u64"

definition ipv6_step :: "ipv6_arrival \<Rightarrow> ipv6_fragment_cache \<Rightarrow> (u8 \<times> u8 list) option \<times> ipv6_fragment_cache" where
  "ipv6_step a cache = (case a of (fh, data, src, dst, t) \<Rightarrow> process_ipv6_fragment fh data src dst t cache)"

definition ipv6_key :: "ipv6_arrival \<Rightarrow> ipv6_fragment_key" where
  "ipv6_key a = (case a of (fh, data, src, dst, t) \<Rightarrow> (frag_identification fh, src, dst))"

definition ipv6_label :: "ipv6_arrival \<Rightarrow> u8" where
  "ipv6_label a = next_header_to_u8 (frag_next_header (fst a))"

definition ipv6_piece :: "ipv6_arrival \<Rightarrow> piece" where
  "ipv6_piece a = (case a of (fh, data, src, dst, t) \<Rightarrow> (unat (fragment_offset fh), data, more_fragments fh))"

definition collected6 :: "ipv6_reassembly_entry \<Rightarrow> ipv6_arrival list \<Rightarrow> bool" where
  "collected6 e as \<longleftrightarrow> as \<noteq> [] \<and> entry6_ok e (map ipv6_piece as) \<and> re_next_header e = ipv6_label (hd as)"

definition ipv6_taken :: "ipv6_fragment_cache \<Rightarrow> ipv6_fragment_key \<Rightarrow> ipv6_arrival list \<Rightarrow> bool" where
  "ipv6_taken cache k as \<longleftrightarrow> bt_sorted cache \<and>
     (if as = [] then bt_get cache k = None else \<exists>e. bt_get cache k = Some e \<and> collected6 e as)"

definition ipv6_result :: "ipv6_arrival list \<Rightarrow> u8 list \<Rightarrow> u8 \<times> u8 list" where
  "ipv6_result as D = (ipv6_label (hd as), D)"

lemma ipv6_step_unfold:
  fixes cache :: ipv6_fragment_cache and src dst :: ipv6_addr and t :: u64
  assumes "more_fragments fh \<or> fragment_offset fh \<noteq> 0"
  defines "k \<equiv> (frag_identification fh, src, dst)" and "b \<equiv> unat (fragment_offset fh)" and "mf \<equiv> more_fragments fh"
    and "nh \<equiv> next_header_to_u8 (frag_next_header fh)"
  defines "e \<equiv> (case bt_get cache k of Some e \<Rightarrow> e | None \<Rightarrow> new_ipv6_entry nh t)"
  shows "process_ipv6_fragment fh data src dst t cache =
    (if nh \<noteq> re_next_header e then (None, bt_remove k cache)
     else if overlaps e b (div_ceil (length data) 8) then (None, bt_remove k cache)
     else if ipv6_is_complete (accept6 b data mf e)
       then (Some (re_next_header (accept6 b data mf e), case buffer (accept6 b data mf e) of Some buf \<Rightarrow> buf | None \<Rightarrow> []), bt_remove k cache)
     else (None, bt_insert k (accept6 b data mf e) cache))"
  using assms(1) unfolding process_ipv6_fragment_def Let_def accept6_def e_def k_def b_def mf_def nh_def by auto

lemma ipv6_take:
  assumes tk: "ipv6_taken cache (ipv6_key a) as" and w: "whole D (map ipv6_piece (as @ a # rest))"
    and lab: "\<forall>q \<in> set as. ipv6_label q = ipv6_label a"
  obtains e where "collected6 e (as @ [a])"
    "ipv6_step a cache = (if ipv6_is_complete e
      then (Some (re_next_header e, case buffer e of Some buf \<Rightarrow> buf | None \<Rightarrow> []), bt_remove (ipv6_key a) cache)
      else (None, bt_insert (ipv6_key a) e cache))"
proof -
  obtain fh data src dst t where a: "a = (fh, data, src, dst, t)"
    by (cases a)
  let ?b = "unat (fragment_offset fh)" and ?mf = "more_fragments fh" and ?nh = "next_header_to_u8 (frag_next_header fh)"
  have pa: "ipv6_piece a = (?b, data, ?mf)" "ipv6_key a = (frag_identification fh, src, dst)" "ipv6_label a = ?nh"
    by (simp_all add: a ipv6_piece_def ipv6_key_def ipv6_label_def)
  have fa: "fits D (?b, data, ?mf)"
    using w pa(1) by (simp add: whole_def)
  have fr: "?mf \<or> fragment_offset fh \<noteq> 0"
    using fa by (auto simp: fits_def)
  let ?e = "case bt_get cache (frag_identification fh, src, dst) of Some e \<Rightarrow> e | None \<Rightarrow> new_ipv6_entry ?nh t"
  have ok: "entry6_ok ?e (map ipv6_piece as)"
    using tk entry6_ok_new by (auto simp: ipv6_taken_def collected6_def pa split: if_splits)
  have hd: "re_next_header ?e = ipv6_label (hd (as @ [a]))" "re_next_header ?e = ?nh"
  proof -
    show h: "re_next_header ?e = ipv6_label (hd (as @ [a]))"
      using tk by (cases "as = []") (auto simp: ipv6_taken_def collected6_def pa new_ipv6_entry_def)
    have "ipv6_label (hd (as @ [a])) = ipv6_label a"
      using lab by (cases as) auto
    then show "re_next_header ?e = ?nh"
      using h pa(3) by simp
  qed
  have f: "\<forall>p \<in> set (map ipv6_piece as @ [(?b, data, ?mf)]). fits D p"
    using w pa(1) by (auto simp: whole_def)
  have dj: "disjoint_blocks (map ipv6_piece as @ [(?b, data, ?mf)])"
    using whole_apart(2) [of D "map ipv6_piece as" "ipv6_piece a"] w pa(1) by simp
  have acc: "entry6_ok (accept6 ?b data ?mf ?e) (map ipv6_piece (as @ [a]))"
    using entry6_ok_accept [OF ok f dj] pa(1) by simp
  have "bitmap_ok ?e (map ipv6_piece as)"
    using ok by (simp add: entry6_ok_def)
  then have no: "\<not> overlaps ?e ?b (div_ceil (length data) 8)"
    using bitmap_ok_overlaps [of ?e "map ipv6_piece as" ?b data ?mf] dj unfolding disjoint_blocks_snoc by blast
  have "collected6 (accept6 ?b data ?mf ?e) (as @ [a])"
    using acc hd(1) by (simp add: collected6_def)
  moreover have "ipv6_step a cache = (if ipv6_is_complete (accept6 ?b data ?mf ?e)
      then (Some (re_next_header (accept6 ?b data ?mf ?e), case buffer (accept6 ?b data ?mf ?e) of Some buf \<Rightarrow> buf | None \<Rightarrow> []),
        bt_remove (ipv6_key a) cache)
      else (None, bt_insert (ipv6_key a) (accept6 ?b data ?mf ?e) cache))"
    unfolding ipv6_step_def a prod.case using ipv6_step_unfold [OF fr, where src = src and dst = dst and data = data and t = t and cache = cache]
      no hd(2) pa(2) a by simp
  ultimately show thesis
    using that by blast
qed

lemma collected6_total:
  assumes c: "collected6 e as" and f: "\<forall>p \<in> set (map ipv6_piece as). fits D p" and h: "have_last e"
  obtains buf where "buffer e = Some buf" "re_total_length e = length D" "length buf = length D" "holds (map ipv6_piece as) buf"
proof -
  have ok: "entry6_ok e (map ipv6_piece as)"
    using c by (simp add: collected6_def)
  obtain x d where l: "(x, d, False) \<in> set (map ipv6_piece as)"
    using ok h by (auto simp: entry6_ok_def)
  obtain buf where b: "buffer e = Some buf"
  proof (cases "buffer e")
    case None
    then show ?thesis
      using ok l by (auto simp: entry6_ok_def)
  qed simp
  then obtain x' d' where o: "(x', d', False) \<in> set (map ipv6_piece as)" "re_total_length e = x' * 8 + length d'"
    "length buf = re_total_length e" "holds (map ipv6_piece as) buf"
    using ok by (auto simp: entry6_ok_def)
  then show thesis
    using that b fits_last f by metis
qed

lemma ipv6_more:
  assumes tk: "ipv6_taken cache (ipv6_key a) as" and w: "whole D (map ipv6_piece (as @ a # rest))" and r: "rest \<noteq> []"
    and lab: "\<forall>q \<in> set as. ipv6_label q = ipv6_label a"
  shows "\<exists>c'. ipv6_step a cache = (None, c') \<and> ipv6_taken c' (ipv6_key a) (as @ [a])"
proof -
  obtain e where e: "collected6 e (as @ [a])"
    "ipv6_step a cache = (if ipv6_is_complete e
      then (Some (re_next_header e, case buffer e of Some buf \<Rightarrow> buf | None \<Rightarrow> []), bt_remove (ipv6_key a) cache)
      else (None, bt_insert (ipv6_key a) e cache))"
    by (rule ipv6_take [OF tk w lab])
  have f: "\<forall>p \<in> set (map ipv6_piece (as @ [a])). fits D p"
    using w by (auto simp: whole_def)
  obtain i where i: "i < div_ceil (length D) 8" "\<forall>q \<in> set (map ipv6_piece (as @ [a])). i \<notin> blocks q"
    using missing_block [of D "map ipv6_piece as" "ipv6_piece a" "map ipv6_piece rest"] w r by auto
  have nr: "\<not> received e i"
    using e(1) i(2) by (auto simp: collected6_def entry6_ok_def bitmap_ok_def)
  have "\<not> ipv6_is_complete e"
  proof
    assume c: "ipv6_is_complete e"
    then have "have_last e"
      by (simp add: ipv6_is_complete_iff)
    then have "re_total_length e = length D"
      by (rule collected6_total [OF e(1) f])
    then show False
      using c nr i(1) by (simp add: ipv6_is_complete_iff)
  qed
  then show ?thesis
    using e tk by (auto simp: ipv6_taken_def bt_sorted_insert bt_get_insert)
qed

lemma ipv6_last:
  assumes tk: "ipv6_taken cache (ipv6_key a) as" and w: "whole D (map ipv6_piece (as @ [a]))"
    and lab: "\<forall>q \<in> set as. ipv6_label q = ipv6_label a"
  shows "\<exists>c'. ipv6_step a cache = (Some (ipv6_result (as @ [a]) D), c') \<and> ipv6_taken c' (ipv6_key a) []"
proof -
  obtain e where e: "collected6 e (as @ [a])"
    "ipv6_step a cache = (if ipv6_is_complete e
      then (Some (re_next_header e, case buffer e of Some buf \<Rightarrow> buf | None \<Rightarrow> []), bt_remove (ipv6_key a) cache)
      else (None, bt_insert (ipv6_key a) e cache))"
    by (rule ipv6_take [OF tk w lab])
  let ?ps = "map ipv6_piece (as @ [a])"
  have ok: "bitmap_ok e ?ps" "have_last e \<longleftrightarrow> (\<exists>b d. (b, d, False) \<in> set ?ps)" "re_next_header e = ipv6_label (hd (as @ [a]))"
    using e(1) unfolding collected6_def entry6_ok_def by auto
  have f: "\<forall>p \<in> set ?ps. fits D p"
    using w by (simp add: whole_def)
  have hl: "have_last e"
    using ok(2) whole_last [OF w] by blast
  obtain buf where b: "buffer e = Some buf" "re_total_length e = length D" "length buf = length D" "holds ?ps buf"
    by (rule collected6_total [OF e(1) f hl])
  have D: "buf = D"
    using whole_holds [OF w b(4,3)] .
  have "\<forall>i < div_ceil (length D) 8. received e i"
    using w ok(1) by (auto simp: whole_def bitmap_ok_def set_eq_iff)
  then have c: "ipv6_is_complete e"
    using hl b(2) w by (auto simp: ipv6_is_complete_iff whole_def)
  show ?thesis
    using e(2) c tk b(1) D ok(3) by (auto simp: ipv6_result_def ipv6_taken_def bt_sorted_remove bt_get_remove split: if_splits)
qed

lemma ipv6_other:
  assumes tk: "ipv6_taken cache k as" and k: "ipv6_key a \<noteq> k"
  shows "ipv6_taken (snd (ipv6_step a cache)) k as"
proof -
  obtain fh data src dst t where a: "a = (fh, data, src, dst, t)"
    by (cases a)
  have s: "bt_sorted cache" and ne: "k \<noteq> (frag_identification fh, src, dst)"
    using tk k by (auto simp: ipv6_taken_def ipv6_key_def a)
  have "bt_sorted (snd (ipv6_step a cache)) \<and> bt_get (snd (ipv6_step a cache)) k = bt_get cache k"
  proof (cases "more_fragments fh \<or> fragment_offset fh \<noteq> 0")
    case True
    then show ?thesis
      using ipv6_step_unfold [OF True, where src = src and dst = dst and data = data and t = t and cache = cache] s ne
      unfolding ipv6_step_def a prod.case
      by (simp add: bt_sorted_remove bt_sorted_insert bt_get_remove bt_get_insert)
  next
    case False
    then show ?thesis
      using s by (simp add: ipv6_step_def a process_ipv6_fragment_def Let_def)
  qed
  then show ?thesis
    using tk by (simp add: ipv6_taken_def)
qed

interpretation ipv6: reassembler ipv6_step ipv6_key ipv6_label ipv6_piece ipv6_taken n ipv6_result for n
  by unfold_locales (use ipv6_other ipv6_more ipv6_last in blast)+

section \<open>IPv6 fragments over the wire\<close>

text \<open>The receive path up to the payload, as the point-to-point link has it
  (\<open>src/network/stack/ppp.rs\<close>): \<open>Inr None\<close> stands for a packet that is not processed further.\<close>

definition receive_ipv6 ::
  "u8 list \<Rightarrow> u64 \<Rightarrow> ipv6_fragment_cache \<Rightarrow> (ipv6_next_header \<times> u8 list) option result \<times> ipv6_fragment_cache" where
  "receive_ipv6 info current_tick cache =
     (case ipv6_parse_packet info of
        Inl e \<Rightarrow> (Inl e, cache)
      | Inr ip_packet \<Rightarrow>
          if next_header (header6 ip_packet) = NH_Fragment
          then case parse_fragment_header (payload6 ip_packet) of
              Inl _ \<Rightarrow> (Inr None, cache)
            | Inr (frag_header, consumed) \<Rightarrow>
                (case process_ipv6_fragment frag_header (drop consumed (payload6 ip_packet))
                    (source6 (header6 ip_packet)) (destination6 (header6 ip_packet)) current_tick cache of
                   (Some (nh, data), cache') \<Rightarrow> (Inr (Some (next_header_from_u8 nh, data)), cache')
                 | (None, cache') \<Rightarrow> (Inr None, cache'))
          else (Inr (Some (next_header (header6 ip_packet), payload6 ip_packet)), cache))"

text \<open>A packet on the wire with the tick it arrives at, as a fragment.\<close>

definition arrival_of :: "u8 list \<times> u64 \<Rightarrow> ipv6_arrival option" where
  "arrival_of w =
     (case ipv6_parse_packet (fst w) of
        Inl _ \<Rightarrow> None
      | Inr p \<Rightarrow> if next_header (header6 p) = NH_Fragment
          then case parse_fragment_header (payload6 p) of
              Inl _ \<Rightarrow> None
            | Inr (fh, n) \<Rightarrow> Some (fh, drop n (payload6 p), source6 (header6 p), destination6 (header6 p), snd w)
          else None)"

definition wire_key :: "u8 list \<times> u64 \<Rightarrow> ipv6_fragment_key option" where
  "wire_key w = map_option ipv6_key (arrival_of w)"

definition wire_step :: "u8 list \<times> u64 \<Rightarrow> ipv6_fragment_cache \<Rightarrow> (ipv6_next_header \<times> u8 list) option \<times> ipv6_fragment_cache" where
  "wire_step w cache = (case receive_ipv6 (fst w) (snd w) cache of
     (Inr r, cache') \<Rightarrow> (r, cache') | (Inl _, cache') \<Rightarrow> (None, cache'))"

lemma wire_step_fragment:
  assumes "arrival_of w = Some a"
  shows "wire_step w cache =
    (map_option (\<lambda>(nh, data). (next_header_from_u8 nh, data)) (fst (ipv6_step a cache)), snd (ipv6_step a cache))"
  using assms unfolding wire_step_def receive_ipv6_def arrival_of_def ipv6_step_def
  by (auto split: sum.splits if_splits prod.splits option.splits)

lemma wire_step_other:
  assumes "arrival_of w = None"
  shows "snd (wire_step w cache) = cache"
  using assms unfolding wire_step_def receive_ipv6_def arrival_of_def
  by (auto split: sum.splits if_splits prod.splits)

definition wire_taken :: "ipv6_fragment_cache \<Rightarrow> ipv6_fragment_key option \<Rightarrow> (u8 list \<times> u64) list \<Rightarrow> bool" where
  "wire_taken cache k ws \<longleftrightarrow> (case k of None \<Rightarrow> False | Some k \<Rightarrow> ipv6_taken cache k (map (the \<circ> arrival_of) ws))"

interpretation wire: reassembler wire_step wire_key "\<lambda>w. ipv6_label (the (arrival_of w))" "\<lambda>w. ipv6_piece (the (arrival_of w))"
  wire_taken n "\<lambda>ws D. (next_header_from_u8 (ipv6_label (the (arrival_of (hd ws)))), D)" for n
proof (unfold_locales, goal_cases)
  case (1 c k ws w)
  then obtain k' where k: "k = Some k'" "ipv6_taken c k' (map (the \<circ> arrival_of) ws)"
    by (auto simp: wire_taken_def split: option.splits)
  show ?case
  proof (cases "arrival_of w")
    case None
    then show ?thesis
      using 1 wire_step_other by simp
  next
    case (Some a)
    then have "ipv6_key a \<noteq> k'"
      using 1(2) k(1) by (auto simp: wire_key_def)
    then show ?thesis
      using ipv6_other [OF k(2)] k(1) wire_step_fragment [OF Some] by (simp add: wire_taken_def)
  qed
next
  case (2 c w ws D rest)
  then obtain a where a: "arrival_of w = Some a" "ipv6_taken c (ipv6_key a) (map (the \<circ> arrival_of) ws)"
    by (auto simp: wire_taken_def wire_key_def split: option.splits)
  have "\<exists>c'. ipv6_step a c = (None, c') \<and> ipv6_taken c' (ipv6_key a) (map (the \<circ> arrival_of) ws @ [a])"
    using 2 a(1) by (intro ipv6_more [OF a(2), where rest = "map (the \<circ> arrival_of) rest" and D = D]) (auto simp: comp_def)
  then show ?case
    using a wire_step_fragment [OF a(1)] by (auto simp: wire_taken_def wire_key_def)
next
  case (3 c w ws D)
  then obtain a where a: "arrival_of w = Some a" "ipv6_taken c (ipv6_key a) (map (the \<circ> arrival_of) ws)"
    by (auto simp: wire_taken_def wire_key_def split: option.splits)
  have "\<exists>c'. ipv6_step a c = (Some (ipv6_result (map (the \<circ> arrival_of) ws @ [a]) D), c') \<and> ipv6_taken c' (ipv6_key a) []"
    using 3 a(1) by (intro ipv6_last [OF a(2)]) (auto simp: comp_def)
  moreover have "hd (map (the \<circ> arrival_of) ws @ [a]) = the (arrival_of (hd (ws @ [w])))"
    using a(1) by (cases ws) auto
  ultimately show ?case
    using a wire_step_fragment [OF a(1)] by (auto simp: wire_taken_def wire_key_def ipv6_result_def)
qed

section \<open>The fragments a packet is split into\<close>

lemma disjoint_blocks_Cons: "disjoint_blocks (p # ps) \<longleftrightarrow> (\<forall>q \<in> set ps. blocks p \<inter> blocks q = {}) \<and> disjoint_blocks ps"
  by (simp add: disjoint_blocks_def)

lemma disjoint_blocks_append:
  "disjoint_blocks (ps @ qs) \<longleftrightarrow> disjoint_blocks ps \<and> disjoint_blocks qs \<and> (\<forall>p \<in> set ps. \<forall>q \<in> set qs. blocks p \<inter> blocks q = {})"
  by (simp add: disjoint_blocks_def sorted_wrt_append)

lemma disjoint_blocks_perm: "mset xs = mset ys \<Longrightarrow> disjoint_blocks xs \<Longrightarrow> disjoint_blocks ys"
proof (induction xs arbitrary: ys)
  case (Cons x xs)
  then have "x \<in> set ys"
    by (metis list.set_intros(1) set_mset_mset)
  then obtain us vs where ys: "ys = us @ x # vs"
    by (meson split_list)
  then have m: "mset xs = mset (us @ vs)"
    using Cons.prems(1) by simp
  have d: "disjoint_blocks (us @ vs)"
    using Cons.IH [OF m] Cons.prems(2) by (simp add: disjoint_blocks_Cons)
  have "set xs = set us \<union> set vs"
    using mset_eq_setD [OF m] by simp
  then have "blocks x \<inter> blocks q = {}" if "q \<in> set us \<union> set vs" for q
    using Cons.prems(2) that by (simp add: disjoint_blocks_Cons)
  then show ?case
    using d unfolding ys disjoint_blocks_append disjoint_blocks_Cons by (simp add: Int_commute)
qed simp

lemma whole_perm: "mset xs = mset ys \<Longrightarrow> whole D xs \<Longrightarrow> whole D ys"
  unfolding whole_def using disjoint_blocks_perm [of xs ys] mset_eq_setD [of xs ys] by simp

function pieces_from :: "u8 list \<Rightarrow> nat \<Rightarrow> nat \<Rightarrow> piece list" where
  "pieces_from data chunk offset =
     (if chunk = 0 \<or> length data \<le> offset then []
      else let len = min (length data - offset) chunk
        in (offset div 8, take len (drop offset data), offset + len < length data) # pieces_from data chunk (offset + len))"
  by pat_completeness auto
termination
  by (relation "measure (\<lambda>(data, chunk, offset). length data - offset)") auto

declare pieces_from.simps [simp del]

lemma div_ceil_add: "8 dvd x \<Longrightarrow> x div 8 + div_ceil y 8 = div_ceil (x + y) 8"
  by (auto simp: div_ceil_8 elim!: dvdE)

lemma pieces_from_props:
  assumes "8 dvd chunk" "0 < chunk" "chunk < length data" "offset \<le> length data" "8 dvd offset \<or> offset = length data"
  shows "disjoint_blocks (pieces_from data chunk offset) \<and> (\<forall>p \<in> set (pieces_from data chunk offset). fits data p) \<and>
    (\<Union>p \<in> set (pieces_from data chunk offset). blocks p) = {div_ceil offset 8..<div_ceil (length data) 8}"
  using assms
proof (induction data chunk offset rule: pieces_from.induct)
  case (1 data chunk offset)
  show ?case
  proof (cases "offset = length data")
    case True
    then have "pieces_from data chunk offset = []"
      by (subst pieces_from.simps) simp
    then show ?thesis
      using True by (simp add: disjoint_blocks_def)
  next
    case False
    then have off: "offset < length data" "8 dvd offset"
      using 1 by auto
    define len where "len = min (length data - offset) chunk"
    let ?p = "(offset div 8, take len (drop offset data), offset + len < length data)"
    let ?rest = "pieces_from data chunk (offset + len)"
    have ps: "pieces_from data chunk offset = ?p # ?rest"
      using off 1(3) by (subst pieces_from.simps) (simp add: len_def Let_def)
    have len: "0 < len" "offset + len \<le> length data" "length (take len (drop offset data)) = len"
      using off 1(3) by (auto simp: len_def)
    have more8: "8 dvd len" if "offset + len < length data"
      using that 1(2) by (auto simp: len_def min_def split: if_splits)
    have ih: "disjoint_blocks ?rest" "\<forall>p \<in> set ?rest. fits data p"
      "(\<Union>p \<in> set ?rest. blocks p) = {div_ceil (offset + len) 8..<div_ceil (length data) 8}"
    proof -
      have nz: "\<not> (chunk = 0 \<or> length data \<le> offset)"
        using off 1(3) by simp
      have "8 dvd offset + len \<or> offset + len = length data"
        using more8 off len(2) by (cases "offset + len < length data") auto
      then have "disjoint_blocks ?rest \<and> (\<forall>p \<in> set ?rest. fits data p) \<and>
        (\<Union>p \<in> set ?rest. blocks p) = {div_ceil (offset + len) 8..<div_ceil (length data) 8}"
        using 1(1) [OF nz len_def 1(2,3,4) len(2)] by blast
      then show "disjoint_blocks ?rest" "\<forall>p \<in> set ?rest. fits data p"
        "(\<Union>p \<in> set ?rest. blocks p) = {div_ceil (offset + len) 8..<div_ceil (length data) 8}"
        by blast+
    qed
    have bp: "blocks ?p = {div_ceil offset 8..<div_ceil (offset + len) 8}"
      using div_ceil_add [OF off(2), of len] div_ceil_add [OF off(2), of 0] len(3) by (simp add: blocks_def div_ceil_8)
    have "fits data ?p"
      unfolding fits_def prod.case len(3)
    proof (intro conjI)
      show "take len (drop offset data) \<noteq> []"
        using len by (metis length_greater_0_conv)
      show "offset + len < length data \<or> offset div 8 \<noteq> 0"
        using off 1(4) by (auto simp: len_def elim!: dvdE)
    qed (use off len more8 in auto)
    moreover have "\<forall>q \<in> set ?rest. blocks ?p \<inter> blocks q = {}"
    proof
      fix q
      assume "q \<in> set ?rest"
      then have "blocks q \<subseteq> {div_ceil (offset + len) 8..<div_ceil (length data) 8}"
        using ih(3) by blast
      then show "blocks ?p \<inter> blocks q = {}"
        unfolding bp by fastforce
    qed
    moreover have "{div_ceil offset 8..<div_ceil (offset + len) 8} \<union> {div_ceil (offset + len) 8..<div_ceil (length data) 8} =
      {div_ceil offset 8..<div_ceil (length data) 8}"
      using len(2) by (intro ivl_disj_un) (auto simp: div_ceil_8 div_le_mono)
    ultimately show ?thesis
      unfolding ps using ih bp by (simp add: disjoint_blocks_Cons)
  qed
qed

lemma pieces_whole:
  assumes "8 dvd chunk" "0 < chunk" "chunk < length data"
  shows "whole data (pieces_from data chunk 0)"
  using pieces_from_props [OF assms, of 0] assms(2,3) by (auto simp: whole_def div_ceil_8)

lemma unat_of_nat_u16: "n < 65536 \<Longrightarrow> unat (of_nat n :: u16) = n"
  unfolding unsigned_of_nat by (simp add: take_bit_nat_eq_self_iff)

lemma arrival_of_wire:
  assumes h: "ipv6_header_ok h" and d: "length data \<le> 65535" and o: "offset < length data" and l: "len \<le> 65527"
  shows "arrival_of (fragment_wire h data offset len ident, t) =
    Some (\<lparr>frag_next_header = next_header h, fragment_offset = of_nat (offset div 8), more_fragments = (offset + len < length data),
           frag_identification = ident\<rparr>, take len (drop offset data), source6 h, destination6 h, t)"
proof -
  let ?h = "h\<lparr>next_header := NH_Fragment, payload_length := 0\<rparr>"
  let ?fh = "build_fragment_header (next_header_to_u8 (next_header h)) (of_nat (offset div 8)) (offset + len < length data) ident"
  let ?c = "?fh @ take len (drop offset data)"
  have ok: "ipv6_header_ok ?h"
    using h by (simp add: ipv6_header_ok_def next_header_from_u8_def)
  have fl: "length ?fh = 8"
    by (simp add: build_fragment_header_def Let_def)
  have "ipv6_parse_packet (fragment_wire h data offset len ident) =
    Inr \<lparr>header6 = ?h\<lparr>payload_length := of_nat (length ?c)\<rparr>, payload6 = ?c\<rparr>"
    unfolding fragment_wire_def Let_def using l fl by (intro ipv6_parse_build [OF ok]) simp
  moreover have "unat (of_nat (offset div 8) :: u16) < 8192"
    using unat_of_nat_u16 [of "offset div 8"] d o by simp
  ultimately show ?thesis
    using fragment_header_round_trip [of "of_nat (offset div 8)"] h fl
    by (simp add: arrival_of_def ipv6_header_ok_def)
qed

lemma fragments_from_pieces:
  assumes h: "ipv6_header_ok h" and d: "length data \<le> 65535" and c: "0 < chunk" "chunk \<le> 65527"
  shows "(\<forall>w \<in> set (fragments_from h data chunk ident offset). \<forall>t. \<exists>a. arrival_of (w, t) = Some a \<and>
      ipv6_key a = (ident, source6 h, destination6 h) \<and> ipv6_label a = next_header_to_u8 (next_header h)) \<and>
    map (\<lambda>w. ipv6_piece (the (arrival_of (w, t)))) (fragments_from h data chunk ident offset) = pieces_from data chunk offset"
  using assms
proof (induction h data chunk ident offset rule: fragments_from.induct)
  case (1 h data chunk ident offset)
  show ?case
  proof (cases "length data \<le> offset")
    case True
    then show ?thesis
      by (subst (1 2) fragments_from.simps, subst pieces_from.simps) simp
  next
    case False
    define len where "len = min (length data - offset) chunk"
    have fs: "fragments_from h data chunk ident offset = fragment_wire h data offset len ident # fragments_from h data chunk ident (offset + len)"
      using False 1(4) by (subst fragments_from.simps) (simp add: len_def Let_def)
    have ps: "pieces_from data chunk offset =
      (offset div 8, take len (drop offset data), offset + len < length data) # pieces_from data chunk (offset + len)"
      using False 1(4) by (subst pieces_from.simps) (simp add: len_def Let_def)
    have nz: "\<not> (chunk = 0 \<or> length data \<le> offset)"
      using False 1(4) by simp
    note ih = 1(1) [OF nz len_def 1(2-5)]
    have a: "arrival_of (fragment_wire h data offset len ident, t) =
      Some (\<lparr>frag_next_header = next_header h, fragment_offset = of_nat (offset div 8), more_fragments = (offset + len < length data),
           frag_identification = ident\<rparr>, take len (drop offset data), source6 h, destination6 h, t)" for t
      using False 1(5) by (intro arrival_of_wire [OF 1(2,3)]) (auto simp: len_def)
    have "unat (of_nat (offset div 8) :: u16) = offset div 8"
      using False 1(3) by (intro unat_of_nat_u16) linarith
    then show ?thesis
      unfolding fs ps using ih a by (simp add: ipv6_key_def ipv6_label_def ipv6_piece_def)
  qed
qed

section \<open>Properties\<close>

lemma whole_nonempty: "whole D ps \<Longrightarrow> ps \<noteq> []"
  using whole_block [of D ps 0] by (auto simp: whole_def)

text \<open>C13: the fragments of an IPv4 datagram, arriving in any order and among any other packets, deliver
  exactly that datagram: nothing comes out before the last of them, and that one brings the whole.\<close>

theorem ipv4_fragments_reassemble:
  assumes "bt_sorted cache" "bt_get cache k = None" "filter (\<lambda>a. key_of (fst a) = k) as = fs"
    "whole D (map (\<lambda>a. piece_of (fst a)) fs)" "length D \<le> MAX_DATAGRAM_SIZE"
  shows "outputs ipv4_step (\<lambda>a. key_of (fst a) = k) as cache = replicate (length fs - 1) None @
    [Some \<lparr>header = (header (fst (hd fs)))\<lparr>flags_fragment_offset := 0,
        total_length := of_nat (min (IPV4_MIN_HEADER_SIZE + length D) U16_MAX)\<rparr>, payload = D\<rparr>]"
proof -
  have "ipv4_taken cache k []"
    using assms(1,2) by (simp add: ipv4_taken_def)
  moreover have "fs \<noteq> []"
    using whole_nonempty [OF assms(4)] by simp
  ultimately show ?thesis
    using ipv4.reassembled_in_any_order [of cache k "[]" as fs D "()"] assms(3-5)
    by (simp add: ipv4_result_def IPV4_MIN_HEADER_SIZE_def)
qed

definition example_fragment :: "u16 \<Rightarrow> u8 list \<Rightarrow> ipv4_packet" where
  "example_fragment flags data = \<lparr>header = \<lparr>total_length = 0, identification = 7, flags_fragment_offset = flags, ttl = 64,
     protocol = Udp, header_checksum = 0, source = [10, 0, 2, 1], destination = [10, 0, 2, 2]\<rparr>, payload = data\<rparr>"

lemma example_pieces:
  "piece_of (example_fragment 0x2000 d) = (0, d, True)" "piece_of (example_fragment 1 d) = (1, d, False)"
  "key_of (example_fragment f d) = (7, 17, [10, 0, 2, 1], [10, 0, 2, 2])"
  by (simp_all add: piece_of_def example_fragment_def offset_blocks_def more_flag_def key_of_def fragment_key_of_def)

lemma example_whole:
  "whole [1, 2, 3, 4, 5, 6, 7, 8, 9, 10, 11] [(1, [9, 10, 11], False), (0, [1, 2, 3, 4, 5, 6, 7, 8], True)]"
  by (auto simp: whole_def disjoint_blocks_def blocks_def fits_def div_ceil_def) (simp add: eval_nat_numeral)

theorem ipv4_fragments_reassemble_witness:
  "outputs ipv4_step (\<lambda>a. key_of (fst a) = (7, 17, [10, 0, 2, 1], [10, 0, 2, 2]))
     [(example_fragment 1 [9, 10, 11], 0), (example_fragment 0x2000 [1, 2, 3, 4, 5, 6, 7, 8], 5)] [] =
   [None, Some \<lparr>header = (header (example_fragment 0 []))\<lparr>total_length := 31\<rparr>, payload = [1, 2, 3, 4, 5, 6, 7, 8, 9, 10, 11]\<rparr>]"
  using ipv4_fragments_reassemble [of "[]" "(7, 17, [10, 0, 2, 1], [10, 0, 2, 2])"
      "[(example_fragment 1 [9, 10, 11], 0), (example_fragment 0x2000 [1, 2, 3, 4, 5, 6, 7, 8], 5)]" _ "[1, 2, 3, 4, 5, 6, 7, 8, 9, 10, 11]",
      OF _ _ refl] example_whole
  by (simp add: example_pieces bt_get_def MAX_DATAGRAM_SIZE_def IPV4_MIN_HEADER_SIZE_def) (simp add: example_fragment_def)

text \<open>C17: whatever packets arrive and whenever entries are evicted, a datagram that reassembly delivers
  is made of fragments of its own key that were received: one of them ends it, every block of it was in
  one of them, its bytes are theirs, and no two of them overlap.\<close>

theorem ipv4_delivered_was_received:
  assumes "is_fragment p" "process_ipv4_fragment p t (fold run_event evs new_cache) = (Some q, cache)"
  shows "\<exists>ps. set ps \<subseteq> insert p (arrived evs) \<and> p \<in> set ps \<and> (\<forall>r \<in> set ps. key_of r = key_of p) \<and> assembled_from q ps"
  using process_ipv4_ok [OF run_events_ok [of evs], of p t] assms by simp

lemma example_run:
  "\<exists>q cache. process_ipv4_fragment (example_fragment 0x2000 [1, 2, 3, 4, 5, 6, 7, 8]) 5
     (fold run_event [Arrival (example_fragment 1 [9, 10, 11]) 0] new_cache) = (Some q, cache)"
proof -
  have "outputs ipv4_step (\<lambda>a. key_of (fst a) = (7, 17, [10, 0, 2, 1], [10, 0, 2, 2]))
     [(example_fragment 1 [9, 10, 11], 0), (example_fragment 0x2000 [1, 2, 3, 4, 5, 6, 7, 8], 5)] [] =
     replicate 1 None @ [Some (ipv4_result [(example_fragment 1 [9, 10, 11], 0), (example_fragment 0x2000 [1, 2, 3, 4, 5, 6, 7, 8], 5)] [1, 2, 3, 4, 5, 6, 7, 8, 9, 10, 11])]"
    using ipv4.reassembled_in_any_order [of "[]" "(7, 17, [10, 0, 2, 1], [10, 0, 2, 2])" "[]"
      "[(example_fragment 1 [9, 10, 11], 0), (example_fragment 0x2000 [1, 2, 3, 4, 5, 6, 7, 8], 5)]" _ "[1, 2, 3, 4, 5, 6, 7, 8, 9, 10, 11]" "()"]
      example_whole
    by (simp add: example_pieces bt_get_def MAX_DATAGRAM_SIZE_def ipv4_taken_def)
  then show ?thesis
    by (simp add: outputs_def example_pieces ipv4_step_def new_cache_def case_prod_beta prod_eq_iff)
qed

theorem ipv4_delivered_was_received_witness:
  "\<exists>q ps. set ps \<subseteq> {example_fragment 0x2000 [1, 2, 3, 4, 5, 6, 7, 8], example_fragment 1 [9, 10, 11]} \<and> assembled_from q ps"
proof -
  obtain q cache where r: "process_ipv4_fragment (example_fragment 0x2000 [1, 2, 3, 4, 5, 6, 7, 8]) 5
     (fold run_event [Arrival (example_fragment 1 [9, 10, 11]) 0] new_cache) = (Some q, cache)"
    using example_run by blast
  have f: "is_fragment (example_fragment 0x2000 [1, 2, 3, 4, 5, 6, 7, 8])"
    by (simp add: is_fragment_def example_fragment_def more_flag_def)
  have "arrived [Arrival (example_fragment 1 [9, 10, 11]) 0] = {example_fragment 1 [9, 10, 11]}"
    by (auto simp: arrived_def)
  then show ?thesis
    using ipv4_delivered_was_received [OF f r] by auto
qed

text \<open>C8: end to end, an IPv6 payload split by the sender for a smaller link comes back whole: the packets
  it is split into, arriving in any order and among any other traffic, are parsed and reassembled to the
  payload and next header they were made from.\<close>

theorem ipv6_fragmentation_round_trip:
  assumes "ipv6_header_ok h" "length data \<le> 65535" "mtu \<le> 65535" "fragment_packet h data mtu ident = Some ws"
    "bt_sorted cache" "bt_get cache (ident, source6 h, destination6 h) = None"
    "mset (map fst (filter (\<lambda>w. wire_key w = Some (ident, source6 h, destination6 h)) as)) = mset ws"
  shows "outputs wire_step (\<lambda>w. wire_key w = Some (ident, source6 h, destination6 h)) as cache =
    replicate (length ws - 1) None @ [Some (next_header h, data)]"
proof -
  let ?k = "Some (ident, source6 h, destination6 h)"
  let ?fs = "filter (\<lambda>w. wire_key w = ?k) as"
  define usable where "usable = mtu - (IPV6_HEADER_SIZE + FRAGMENT_HEADER_SIZE)"
  define chunk where "chunk = usable - usable mod 8"
  have c: "usable < length data" "chunk \<noteq> 0" "ws = fragments_from h data chunk ident 0"
    using assms(4) unfolding fragment_packet_def Let_def usable_def chunk_def by (auto split: if_splits)
  have ch: "8 dvd chunk" "0 < chunk" "chunk < length data" "chunk \<le> 65527"
    using c(1,2) assms(3) by (auto simp: chunk_def usable_def IPV6_HEADER_SIZE_def FRAGMENT_HEADER_SIZE_def minus_mod_eq_mult_div)
  have F: "(\<forall>w \<in> set ws. \<forall>t. \<exists>a. arrival_of (w, t) = Some a \<and> ipv6_label a = next_header_to_u8 (next_header h)) \<and>
    map (\<lambda>w. ipv6_piece (the (arrival_of (w, t)))) ws = pieces_from data chunk 0" for t
    using fragments_from_pieces [OF assms(1,2) ch(2,4), of ident 0] unfolding c(3) by blast
  have mem: "fst w \<in> set ws" if "w \<in> set ?fs" for w
    using mset_eq_setD [OF assms(7)] that by auto
  have piece: "ipv6_piece (the (arrival_of w)) = ipv6_piece (the (arrival_of (fst w, 0)))" for w
    by (auto simp: arrival_of_def ipv6_piece_def split: sum.split)
  have "mset (map (\<lambda>w. ipv6_piece (the (arrival_of w))) ?fs) = mset (map (\<lambda>w. ipv6_piece (the (arrival_of (w, 0)))) (map fst ?fs))"
    using piece by (simp add: comp_def)
  also have "\<dots> = mset (map (\<lambda>w. ipv6_piece (the (arrival_of (w, 0)))) ws)"
    using assms(7) by (metis mset_map)
  finally have "whole data (map (\<lambda>w. ipv6_piece (the (arrival_of w))) ?fs)"
    using whole_perm [OF sym pieces_whole [OF ch(1-3)]] F by simp
  moreover have lab: "\<forall>w \<in> set ?fs. ipv6_label (the (arrival_of w)) = next_header_to_u8 (next_header h)"
  proof
    fix w
    assume "w \<in> set ?fs"
    then have "\<exists>a. arrival_of (fst w, snd w) = Some a \<and> ipv6_label a = next_header_to_u8 (next_header h)"
      using F mem by blast
    then show "ipv6_label (the (arrival_of w)) = next_header_to_u8 (next_header h)"
      by auto
  qed
  moreover have "wire_taken cache ?k []"
    using assms(5,6) by (simp add: wire_taken_def ipv6_taken_def)
  moreover have ne: "?fs \<noteq> []"
    using whole_nonempty calculation(1) by fastforce
  moreover have "length ?fs = length ws"
    using assms(7) by (metis length_map size_mset)
  ultimately have "outputs wire_step (\<lambda>w. wire_key w = ?k) as cache =
    replicate (length ws - 1) None @ [Some (next_header_from_u8 (ipv6_label (the (arrival_of (hd ?fs)))), data)]"
    using wire.reassembled_in_any_order [of cache ?k "[]" as ?fs data 65535 "next_header_to_u8 (next_header h)"] assms(2) by simp
  moreover have "next_header_from_u8 (ipv6_label (the (arrival_of (hd ?fs)))) = next_header h"
    using bspec [OF lab hd_in_set [OF ne]] assms(1) by (simp add: ipv6_header_ok_def)
  ultimately show ?thesis
    by simp
qed

lemma fragments_wire_key:
  assumes "ipv6_header_ok h" "length data \<le> 65535" "0 < chunk" "chunk \<le> 65527"
  shows "\<forall>w \<in> set (fragments_from h data chunk ident offset). wire_key (w, t) = Some (ident, source6 h, destination6 h)"
proof
  fix w
  assume "w \<in> set (fragments_from h data chunk ident offset)"
  then obtain a where "arrival_of (w, t) = Some a" "ipv6_key a = (ident, source6 h, destination6 h)"
    using fragments_from_pieces [OF assms, of ident offset] by blast
  then show "wire_key (w, t) = Some (ident, source6 h, destination6 h)"
    by (simp add: wire_key_def)
qed

definition example6 :: ipv6_header where
  "example6 = \<lparr>traffic_class = 0, flow_label = 0, payload_length = 0, next_header = NH_Udp, hop_limit = 64,
     source6 = replicate 16 0x20, destination6 = replicate 16 0x30\<rparr>"

theorem ipv6_fragmentation_round_trip_witness:
  "\<exists>ws. fragment_packet example6 (replicate 24 5) 64 9 = Some ws \<and>
     outputs wire_step (\<lambda>w. wire_key w = Some (9, replicate 16 0x20, replicate 16 0x30)) (map (\<lambda>w. (w, 0)) (rev ws)) [] =
       [None, Some (NH_Udp, replicate 24 5)]"
proof -
  let ?ws = "fragments_from example6 (replicate 24 5) 16 9 0"
  let ?k = "Some (9 :: u32, replicate 16 (0x20 :: u8), replicate 16 (0x30 :: u8))"
  have h: "ipv6_header_ok example6"
    by (simp add: ipv6_header_ok_def example6_def next_header_from_u8_def)
  have ws: "fragment_packet example6 (replicate 24 5) 64 9 = Some ?ws"
    by (simp add: fragment_packet_def IPV6_HEADER_SIZE_def FRAGMENT_HEADER_SIZE_def)
  have two: "length ?ws = 2"
    by (simp add: fragments_from.simps)
  have src: "source6 example6 = replicate 16 0x20" "destination6 example6 = replicate 16 0x30" "next_header example6 = NH_Udp"
    by (simp_all add: example6_def)
  have "\<forall>w \<in> set ?ws. wire_key (w, 0) = ?k"
    using fragments_wire_key [OF h, of "replicate 24 5" 16 9 0] unfolding src by simp
  then have "filter (\<lambda>w. wire_key w = ?k) (map (\<lambda>w. (w, 0)) (rev ?ws)) = map (\<lambda>w. (w, 0)) (rev ?ws)"
    by (simp add: filter_id_conv)
  then have "mset (map fst (filter (\<lambda>w. wire_key w = ?k) (map (\<lambda>w. (w, 0)) (rev ?ws)))) = mset ?ws"
    by (simp add: comp_def)
  then show ?thesis
    using ipv6_fragmentation_round_trip [OF h _ _ ws, of "[]" "map (\<lambda>w. (w, 0)) (rev ?ws)"] ws two
    unfolding src by (simp add: bt_get_def)
qed


lemma received_ipv6_store [simp]:
  "received (ipv6_store_data p d q e) i = received e i"
  "received (e\<lparr>have_last := l, re_total_length := k\<rparr>) i = received e i"
  "\<not> received (new_ipv6_entry x t) i" "re_next_header (new_ipv6_entry x t) = x"
  by (auto simp: ipv6_store_data_def received_def block_received_def new_ipv6_entry_def Let_def split: option.split)



end
