(* ===== verification/Nat_Table.thy ===== *)
theory Nat_Table
  imports Fragment_Cache
begin

text \<open>
  Network address translation (\<open>src/network/internet/nat.rs\<close>): the table of sessions with its reverse
  map and its set of allocated ports, the rewriting of outbound and inbound packets with the
  incremental update of their checksums, and the sweep of expired sessions.  Every slice the code
  takes is in range by the conditions it tests, so a packet is rewritten by \<open>copy_slice\<close>.
\<close>

unbundle bit_operations_syntax

section \<open>Constants and data\<close>

definition NAT_PORT_START :: u16 where "NAT_PORT_START = 32768"
definition NAT_PORT_END :: u16 where "NAT_PORT_END = 60999"
definition TCP_ESTABLISHED_TIMEOUT :: u64 where "TCP_ESTABLISHED_TIMEOUT = 8640000"
definition TCP_TIME_WAIT_TIMEOUT :: u64 where "TCP_TIME_WAIT_TIMEOUT = 12000"
definition TCP_NEW_TIMEOUT :: u64 where "TCP_NEW_TIMEOUT = 6000"
definition UDP_TIMEOUT :: u64 where "UDP_TIMEOUT = 30000"
definition ICMP_TIMEOUT :: u64 where "ICMP_TIMEOUT = 3000"
definition OTHER_TIMEOUT :: u64 where "OTHER_TIMEOUT = 6000"
definition SWEEP_INTERVAL :: u64 where "SWEEP_INTERVAL = 3000"
definition MAX_NAT_ENTRIES :: nat where "MAX_NAT_ENTRIES = 1024"

datatype nat_conn_state = TcpNew | TcpEstablished | TcpClosing | UdpActive | IcmpActive | Other_State

text \<open>Source address and port, destination address and port, protocol, in the order that \<open>Ord\<close> compares.\<close>

type_synonym nat_key = "ipv4_addr \<times> u16 \<times> ipv4_addr \<times> u16 \<times> u8"

record nat_entry =
  ne_src_ip :: ipv4_addr
  ne_src_port :: u16
  xlate_port :: u16
  ne_state :: nat_conn_state
  last_seen :: u64

fun timeout_of_state :: "nat_conn_state \<Rightarrow> u64" where
  "timeout_of_state TcpNew = TCP_NEW_TIMEOUT"
| "timeout_of_state TcpEstablished = TCP_ESTABLISHED_TIMEOUT"
| "timeout_of_state TcpClosing = TCP_TIME_WAIT_TIMEOUT"
| "timeout_of_state UdpActive = UDP_TIMEOUT"
| "timeout_of_state IcmpActive = ICMP_TIMEOUT"
| "timeout_of_state Other_State = OTHER_TIMEOUT"

definition timeout_ticks :: "nat_entry \<Rightarrow> u64" where
  "timeout_ticks e = timeout_of_state (ne_state e)"

definition is_expired :: "u64 \<Rightarrow> nat_entry \<Rightarrow> bool" where
  "is_expired current_tick e \<longleftrightarrow> timeout_ticks e \<le> current_tick - last_seen e"

record nat_table =
  nat_entries :: "(nat_key, nat_entry) btree"
  xlate_to_key :: "(u16, nat_key) btree"
  allocated_ports :: "(u16, unit) btree"
  external_ip :: ipv4_addr
  last_sweep :: u64
  nat_enabled :: bool

definition new_nat_table :: nat_table where
  "new_nat_table = \<lparr>nat_entries = [], xlate_to_key = [], allocated_ports = [], external_ip = [0, 0, 0, 0],
     last_sweep = 0, nat_enabled = False\<rparr>"

definition nat_enable :: "ipv4_addr \<Rightarrow> nat_table \<Rightarrow> nat_table" where
  "nat_enable ip t = t\<lparr>external_ip := ip, nat_enabled := True\<rparr>"

definition nat_disable :: "nat_table \<Rightarrow> nat_table" where
  "nat_disable t = t\<lparr>nat_enabled := False, nat_entries := [], xlate_to_key := [], allocated_ports := []\<rparr>"

section \<open>Ports\<close>

text \<open>\<open>for port in NAT_PORT_START..=NAT_PORT_END\<close>: the first vacant port, from \<open>port\<close> on.\<close>

function vacant_from :: "(u16, unit) btree \<Rightarrow> u16 \<Rightarrow> u16 option" where
  "vacant_from ports port =
     (if NAT_PORT_END < port then None
      else if bt_get ports port = None then Some port
      else vacant_from ports (port + 1))"
  by pat_completeness auto
termination
proof (relation "measure (\<lambda>(ports, port). 65536 - unat port)")
  fix ports :: "(u16, unit) btree" and port :: u16
  assume "\<not> NAT_PORT_END < port"
  then have "unat port \<le> 60999"
    by (simp add: NAT_PORT_END_def word_less_nat_alt not_less)
  then have "unat (port + 1) = unat port + 1"
    by (simp add: unat_word_ariths)
  then show "((ports, port + 1), (ports, port)) \<in> measure (\<lambda>(ports, port). 65536 - unat port)"
    using \<open>unat port \<le> 60999\<close> by simp
qed simp

declare vacant_from.simps [simp del]

definition alloc_xlate_port :: "nat_table \<Rightarrow> (u16 \<times> nat_table) option" where
  "alloc_xlate_port t =
     (if MAX_NAT_ENTRIES \<le> length (nat_entries t) then None
      else case vacant_from (allocated_ports t) NAT_PORT_START of
        None \<Rightarrow> None
      | Some port \<Rightarrow> Some (port, t\<lparr>allocated_ports := bt_insert port () (allocated_ports t)\<rparr>))"

definition free_xlate_port :: "u16 \<Rightarrow> nat_table \<Rightarrow> nat_table" where
  "free_xlate_port port t = t\<lparr>allocated_ports := bt_remove port (allocated_ports t)\<rparr>"

section \<open>Checksums and ports of a packet\<close>

text \<open>\<open>u16::from_be_bytes([packet[i], packet[i + 1]])\<close>.\<close>

definition field16 :: "u8 list \<Rightarrow> nat \<Rightarrow> u16" where
  "field16 p i = u16_from_be (p ! i) (p ! (i + 1))"

definition extract_tcp_udp_ports :: "u8 list \<Rightarrow> nat \<Rightarrow> (u16 \<times> u16) option" where
  "extract_tcp_udp_ports packet header_len =
     (if length packet < header_len + 4 then None
      else Some (field16 packet header_len, field16 packet (header_len + 2)))"

text \<open>The carry loop runs while the sum exceeds \<open>0xFFFF\<close>, which is while \<open>sum >> 16\<close> is not zero.\<close>

definition incremental_checksum_update :: "u16 \<Rightarrow> u16 \<Rightarrow> u16 \<Rightarrow> u16" where
  "incremental_checksum_update old_csum old_val new_val =
     (let csum = ucast (NOT old_csum) + ucast (NOT old_val) + ucast new_val :: u32
      in NOT (ucast (fold_carries csum)))"

definition ip_words :: "ipv4_addr \<Rightarrow> u16 \<times> u16" where
  "ip_words ip = (u16_from_be (ip ! 0) (ip ! 1), u16_from_be (ip ! 2) (ip ! 3))"

definition update_ip_checksum_after_src_change :: "u16 \<Rightarrow> ipv4_addr \<Rightarrow> ipv4_addr \<Rightarrow> u16" where
  "update_ip_checksum_after_src_change old_csum old_src new_src =
     (let (old_high, old_low) = ip_words old_src; (new_high, new_low) = ip_words new_src;
          csum = incremental_checksum_update old_csum old_high new_high
      in incremental_checksum_update csum old_low new_low)"

definition update_transport_checksum_after_nat :: "u16 \<Rightarrow> u16 \<Rightarrow> u16 \<Rightarrow> ipv4_addr \<Rightarrow> ipv4_addr \<Rightarrow> u16" where
  "update_transport_checksum_after_nat old_csum old_port new_port old_ip new_ip =
     (let (old_hi, old_lo) = ip_words old_ip; (new_hi, new_lo) = ip_words new_ip;
          csum = incremental_checksum_update old_csum old_hi new_hi;
          csum = incremental_checksum_update csum old_lo new_lo
      in incremental_checksum_update csum old_port new_port)"

definition csum_offset :: "u8 \<Rightarrow> nat" where
  "csum_offset proto = (if proto = 6 then 16 else 6)"

section \<open>Outbound packets\<close>

definition session_ports :: "u8 list \<Rightarrow> nat \<Rightarrow> u8 \<Rightarrow> (u16 \<times> u16) option" where
  "session_ports packet header_len proto =
     (if proto = 6 \<or> proto = 17 then extract_tcp_udp_ports packet header_len
      else if proto = 1 then Some (0, 0)
      else None)"

definition session_state :: "u8 \<Rightarrow> nat_conn_state" where
  "session_state proto = (if proto = 6 then TcpNew else if proto = 17 then UdpActive else IcmpActive)"

definition lookup_or_create :: "nat_key \<Rightarrow> u64 \<Rightarrow> nat_table \<Rightarrow> (u16 \<times> nat_table) option" where
  "lookup_or_create key current_tick t =
     (case bt_get (nat_entries t) key of
        Some e \<Rightarrow> Some (xlate_port e, t\<lparr>nat_entries := bt_insert key (e\<lparr>last_seen := current_tick\<rparr>) (nat_entries t)\<rparr>)
      | None \<Rightarrow>
          (case alloc_xlate_port t of
             None \<Rightarrow> None
           | Some (port, t1) \<Rightarrow>
               let (src_ip, src_port, dst_ip, dst_port, proto) = key;
                   e = \<lparr>ne_src_ip = src_ip, ne_src_port = src_port, xlate_port = port,
                        ne_state = session_state proto, last_seen = current_tick\<rparr>
               in Some (port, t1\<lparr>nat_entries := bt_insert key e (nat_entries t1),
                                 xlate_to_key := bt_insert port key (xlate_to_key t1)\<rparr>)))"

text \<open>The IP part of a rewrite: an address at \<open>pos\<close> and the header checksum.\<close>

definition rewrite_ip :: "nat \<Rightarrow> ipv4_addr \<Rightarrow> ipv4_addr \<Rightarrow> u8 list \<Rightarrow> u8 list" where
  "rewrite_ip pos old_ip new_ip packet =
     (let p1 = copy_slice pos new_ip packet
      in copy_slice 10 (u16_to_be (update_ip_checksum_after_src_change (field16 p1 10) old_ip new_ip)) p1)"

definition snat_transport :: "nat \<Rightarrow> u8 \<Rightarrow> u16 \<Rightarrow> ipv4_addr \<Rightarrow> ipv4_addr \<Rightarrow> u8 list \<Rightarrow> u8 list \<Rightarrow> u8 list option" where
  "snat_transport header_len proto port src_ip ext_ip packet new_packet =
     (let off = csum_offset proto
      in if length packet < header_len + off + 2 then None
         else let p1 = copy_slice header_len (u16_to_be port) new_packet;
                  new_csum = update_transport_checksum_after_nat (field16 p1 (header_len + off))
                    (field16 packet header_len) port src_ip ext_ip
           in Some (copy_slice (header_len + off) (u16_to_be new_csum) p1))"

definition snat_ipv4 :: "u8 list \<Rightarrow> u64 \<Rightarrow> nat_table \<Rightarrow> u8 list option \<times> nat_table" where
  "snat_ipv4 packet current_tick t =
     (if \<not> nat_enabled t then (None, t)
      else case parse_ipv4_header packet of
        None \<Rightarrow> (None, t)
      | Some (h, header_len) \<Rightarrow>
          let proto = protocol_to_u8 (protocol h)
          in if unat (total_length h) \<noteq> length packet then (None, t)
             else case session_ports packet header_len proto of
               None \<Rightarrow> (None, t)
             | Some (src_port, dst_port) \<Rightarrow>
                 (case lookup_or_create (source h, src_port, destination h, dst_port, proto) current_tick t of
                    None \<Rightarrow> (None, t)
                  | Some (port, t1) \<Rightarrow>
                      let p1 = rewrite_ip 12 (source h) (external_ip t) packet
                      in (if proto = 6 \<or> proto = 17
                          then snat_transport header_len proto port (source h) (external_ip t) packet p1
                          else Some p1, t1)))"

section \<open>Inbound packets\<close>

definition dnat_transport :: "nat \<Rightarrow> u8 \<Rightarrow> u16 \<Rightarrow> ipv4_addr \<Rightarrow> ipv4_addr \<Rightarrow> u8 list \<Rightarrow> u8 list \<Rightarrow> u8 list option" where
  "dnat_transport header_len proto port dst_ip original_ip packet new_packet =
     (let off = csum_offset proto
      in if length packet < header_len + off + 2 then None
         else let p1 = copy_slice (header_len + 2) (u16_to_be port) new_packet;
                  old_csum = field16 p1 (header_len + off)
           in Some (if old_csum = 0 then p1
                    else copy_slice (header_len + off)
                      (u16_to_be (update_transport_checksum_after_nat old_csum (field16 packet (header_len + 2)) port dst_ip original_ip)) p1))"

definition touch_entry :: "u64 \<Rightarrow> nat_entry \<Rightarrow> nat_entry" where
  "touch_entry current_tick e =
     e\<lparr>last_seen := current_tick, ne_state := (if ne_state e = TcpNew then TcpEstablished else ne_state e)\<rparr>"

definition dnat_ipv4 :: "u8 list \<Rightarrow> u64 \<Rightarrow> nat_table \<Rightarrow> u8 list option \<times> nat_table" where
  "dnat_ipv4 packet current_tick t =
     (if \<not> nat_enabled t then (None, t)
      else case parse_ipv4_header packet of
        None \<Rightarrow> (None, t)
      | Some (h, header_len) \<Rightarrow>
          let proto = protocol_to_u8 (protocol h)
          in if destination h \<noteq> external_ip t then (None, t)
             else case session_ports packet header_len proto of
               None \<Rightarrow> (None, t)
             | Some (_, dst_port) \<Rightarrow>
                 (case bt_get (xlate_to_key t) dst_port of
                    None \<Rightarrow> (None, t)
                  | Some key \<Rightarrow>
                      (case bt_get (nat_entries t) key of
                         None \<Rightarrow> (None, t)
                       | Some e \<Rightarrow>
                           let t1 = t\<lparr>nat_entries := bt_insert key (touch_entry current_tick e) (nat_entries t)\<rparr>;
                               p1 = rewrite_ip 16 (destination h) (ne_src_ip e) packet
                           in (if proto = 6 \<or> proto = 17
                               then dnat_transport header_len proto (ne_src_port e) (destination h) (ne_src_ip e) packet p1
                               else Some p1, t1))))"

section \<open>Housekeeping\<close>

definition remove_session :: "nat_key \<Rightarrow> nat_table \<Rightarrow> nat_table" where
  "remove_session key t =
     (case bt_get (nat_entries t) key of
        None \<Rightarrow> t
      | Some e \<Rightarrow> free_xlate_port (xlate_port e)
          (t\<lparr>nat_entries := bt_remove key (nat_entries t),
             xlate_to_key := bt_remove (xlate_port e) (xlate_to_key t)\<rparr>))"

definition nat_sweep_expired :: "u64 \<Rightarrow> nat_table \<Rightarrow> nat_table" where
  "nat_sweep_expired current_tick t =
     (if current_tick - last_sweep t < SWEEP_INTERVAL then t
      else let t1 = t\<lparr>last_sweep := current_tick\<rparr>;
               expired = map fst (filter (\<lambda>(_, e). is_expired current_tick e) (nat_entries t1))
        in fold remove_session expired t1)"

definition promote_tcp_to_established :: "ipv4_addr \<Rightarrow> u16 \<Rightarrow> ipv4_addr \<Rightarrow> u16 \<Rightarrow> nat_table \<Rightarrow> nat_table" where
  "promote_tcp_to_established src_ip src_port dst_ip dst_port t =
     (let key = (src_ip, src_port, dst_ip, dst_port, 6)
      in case bt_get (nat_entries t) key of
        Some e \<Rightarrow> if ne_state e = TcpNew
          then t\<lparr>nat_entries := bt_insert key (e\<lparr>ne_state := TcpEstablished\<rparr>) (nat_entries t)\<rparr> else t
      | None \<Rightarrow> t)"

definition mark_tcp_closing :: "ipv4_addr \<Rightarrow> u16 \<Rightarrow> ipv4_addr \<Rightarrow> u16 \<Rightarrow> nat_table \<Rightarrow> nat_table" where
  "mark_tcp_closing src_ip src_port dst_ip dst_port t =
     (let key = (src_ip, src_port, dst_ip, dst_port, 6)
      in case bt_get (nat_entries t) key of
        Some e \<Rightarrow> t\<lparr>nat_entries := bt_insert key (e\<lparr>ne_state := TcpClosing\<rparr>) (nat_entries t)\<rparr>
      | None \<Rightarrow> t)"

end
