(* ===== verification/Nat_Sessions.thy ===== *)
theory Nat_Sessions
  imports Nat_Table
begin

text \<open>
  The invariant of the translation table: sessions and translated ports correspond one to one, the
  allocated ports are exactly the ports in use, and the table stays within its bound.  Every operation
  keeps it.
\<close>

section \<open>Maps\<close>

lemma length_bt_insert_present:
  "bt_sorted m \<Longrightarrow> bt_get m k = Some w \<Longrightarrow> length (bt_insert k v m) = length m"
  by (induction k v m rule: bt_insert.induct) (fastforce simp: bt_get_def split: if_splits dest: map_of_SomeD)+

section \<open>The invariant\<close>

definition key_protocol :: "nat_key \<Rightarrow> u8" where
  "key_protocol k = snd (snd (snd (snd k)))"

text \<open>A session of TCP or UDP is never in a state with the timeout of another protocol.\<close>

definition flow_state :: "nat_key \<Rightarrow> nat_entry \<Rightarrow> bool" where
  "flow_state k e \<longleftrightarrow> (key_protocol k = 6 \<or> key_protocol k = 17 \<longrightarrow> ne_state e \<notin> {IcmpActive, Other_State})"

definition nat_port :: "u16 \<Rightarrow> bool" where
  "nat_port p \<longleftrightarrow> 32768 \<le> unat p \<and> unat p \<le> 60999"

definition sessions_ok :: "(nat_key \<Rightarrow> nat_entry option) \<Rightarrow> (u16 \<Rightarrow> nat_key option) \<Rightarrow> bool" where
  "sessions_ok E X \<longleftrightarrow>
     (\<forall>k e. E k = Some e \<longrightarrow> X (xlate_port e) = Some k \<and> ne_src_ip e = fst k \<and> ne_src_port e = fst (snd k) \<and> length (fst k) = 4 \<and> flow_state k e) \<and>
     (\<forall>p k. X p = Some k \<longrightarrow> nat_port p \<and> (\<exists>e. E k = Some e \<and> xlate_port e = p))"

definition nat_ok :: "nat_table \<Rightarrow> bool" where
  "nat_ok t \<longleftrightarrow> bt_sorted (nat_entries t) \<and> bt_sorted (xlate_to_key t) \<and> bt_sorted (allocated_ports t) \<and>
     sessions_ok (bt_get (nat_entries t)) (bt_get (xlate_to_key t)) \<and>
     (\<forall>p. bt_get (allocated_ports t) p \<noteq> None \<longleftrightarrow> bt_get (xlate_to_key t) p \<noteq> None) \<and>
     length (nat_entries t) \<le> MAX_NAT_ENTRIES \<and> length (external_ip t) = 4"

lemma nat_okD:
  assumes "nat_ok t"
  shows "bt_sorted (nat_entries t)" "bt_sorted (xlate_to_key t)" "bt_sorted (allocated_ports t)"
    "sessions_ok (bt_get (nat_entries t)) (bt_get (xlate_to_key t))"
    "bt_get (allocated_ports t) p \<noteq> None \<longleftrightarrow> bt_get (xlate_to_key t) p \<noteq> None"
    "length (nat_entries t) \<le> MAX_NAT_ENTRIES" "length (external_ip t) = 4"
  using assms by (auto simp: nat_ok_def)

lemma sessions_okD:
  assumes "sessions_ok E X"
  shows "E k = Some e \<Longrightarrow> X (xlate_port e) = Some k" "E k = Some e \<Longrightarrow> ne_src_ip e = fst k"
    "E k = Some e \<Longrightarrow> ne_src_port e = fst (snd k)" "E k = Some e \<Longrightarrow> length (fst k) = 4" "E k = Some e \<Longrightarrow> flow_state k e"
    "X p = Some k \<Longrightarrow> nat_port p" "X p = Some k \<Longrightarrow> \<exists>e. E k = Some e \<and> xlate_port e = p"
  using assms unfolding sessions_ok_def by blast+

lemma vacant_from_Some:
  "vacant_from ports port = Some p \<Longrightarrow> unat port \<le> unat p \<and> unat p \<le> 60999 \<and> bt_get ports p = None"
proof (induction ports port rule: vacant_from.induct)
  case (1 ports port)
  have le: "unat port \<le> 60999"
    using "1.prems" by (subst (asm) vacant_from.simps) (simp add: NAT_PORT_END_def word_less_nat_alt split: if_splits)
  then have "unat (port + 1) = unat port + 1" "\<not> NAT_PORT_END < port"
    by (simp_all add: unat_word_ariths NAT_PORT_END_def word_less_nat_alt)
  moreover from this(2) have "vacant_from ports port = (if bt_get ports port = None then Some port else vacant_from ports (port + 1))"
    by (subst vacant_from.simps) simp
  ultimately show ?case
    using 1 le by (auto split: if_splits)
qed

lemma nat_ok_new: "nat_ok new_nat_table"
  by (simp add: nat_ok_def new_nat_table_def sessions_ok_def bt_get_def)

lemma nat_ok_enable: "nat_ok t \<Longrightarrow> length ip = 4 \<Longrightarrow> nat_ok (nat_enable ip t)"
  by (simp add: nat_ok_def nat_enable_def)

lemma nat_ok_disable: "nat_ok t \<Longrightarrow> nat_ok (nat_disable t)"
  by (simp add: nat_ok_def nat_disable_def sessions_ok_def bt_get_def)

text \<open>An update of an entry that keeps what identifies its session.\<close>

lemma nat_ok_update:
  assumes "nat_ok t" "bt_get (nat_entries t) k = Some e"
    "ne_src_ip e' = ne_src_ip e" "ne_src_port e' = ne_src_port e" "xlate_port e' = xlate_port e" "flow_state k e \<Longrightarrow> flow_state k e'"
  shows "nat_ok (t\<lparr>nat_entries := bt_insert k e' (nat_entries t)\<rparr>)"
proof -
  note N = nat_okD [OF assms(1)]
  have "sessions_ok ((bt_get (nat_entries t))(k \<mapsto> e')) (bt_get (xlate_to_key t))"
    using N(4) assms(2-) unfolding sessions_ok_def by (auto split: if_splits) (metis option.inject)+
  then show ?thesis
    using N assms(2) by (simp add: nat_ok_def bt_sorted_insert bt_get_insert length_bt_insert_present)
qed

lemma alloc_xlate_port_Some:
  assumes "alloc_xlate_port t = Some (port, t1)"
  shows "length (nat_entries t) < MAX_NAT_ENTRIES" "nat_port port" "bt_get (allocated_ports t) port = None"
    "t1 = t\<lparr>allocated_ports := bt_insert port () (allocated_ports t)\<rparr>"
  using assms vacant_from_Some [of "allocated_ports t" NAT_PORT_START port]
  unfolding alloc_xlate_port_def by (auto split: if_splits option.splits simp: nat_port_def NAT_PORT_START_def)

lemma nat_ok_create:
  assumes "nat_ok t" "bt_get (nat_entries t) k = None" "alloc_xlate_port t = Some (port, t1)"
    "ne_src_ip e = fst k" "ne_src_port e = fst (snd k)" "xlate_port e = port" "length (fst k) = 4" "flow_state k e"
  shows "nat_ok (t1\<lparr>nat_entries := bt_insert k e (nat_entries t1), xlate_to_key := bt_insert port k (xlate_to_key t1)\<rparr>)"
proof -
  note N = nat_okD [OF assms(1)] and A = alloc_xlate_port_Some [OF assms(3)] and S = sessions_okD [OF nat_okD(4) [OF assms(1)]]
  have X: "bt_get (xlate_to_key t) port = None"
    using N(5) [of port] A(3) by blast
  have "sessions_ok ((bt_get (nat_entries t))(k \<mapsto> e)) ((bt_get (xlate_to_key t))(port \<mapsto> k))"
    unfolding sessions_ok_def
  proof (intro conjI allI impI)
    fix k' e'
    assume "((bt_get (nat_entries t))(k \<mapsto> e)) k' = Some e'"
    then consider "k' = k" "e' = e" | "k' \<noteq> k" "bt_get (nat_entries t) k' = Some e'"
      by (auto split: if_splits)
    note C = this
    show "((bt_get (xlate_to_key t))(port \<mapsto> k)) (xlate_port e') = Some k'"
    proof (cases "k' = k")
      case False
      then have g: "bt_get (nat_entries t) k' = Some e'"
        using C by blast
      have "xlate_port e' \<noteq> port"
        using S(1) [OF g] X by auto
      then show ?thesis
        using S(1) [OF g] by simp
    qed (use C assms(6) in auto)
    show "ne_src_ip e' = fst k'" "ne_src_port e' = fst (snd k')" "length (fst k') = 4" "flow_state k' e'"
      using C S(2-5) assms(4,5,7,8) by (cases, simp_all)+
  next
    fix p k'
    assume "((bt_get (xlate_to_key t))(port \<mapsto> k)) p = Some k'"
    then consider "p = port" "k' = k" | "p \<noteq> port" "bt_get (xlate_to_key t) p = Some k'"
      by (auto split: if_splits)
    note C = this
    show "nat_port p"
      using C A(2) S(6) by cases simp_all
    show "\<exists>e'. ((bt_get (nat_entries t))(k \<mapsto> e)) k' = Some e' \<and> xlate_port e' = p"
    proof (cases "p = port")
      case False
      then obtain e' where e': "bt_get (nat_entries t) k' = Some e'" "xlate_port e' = p"
        using C S(7) by blast
      then have "k' \<noteq> k"
        using assms(2) by auto
      then show ?thesis
        using e' by auto
    qed (use C assms(6) in auto)
  qed
  moreover have "length (bt_insert k e (nat_entries t)) \<le> MAX_NAT_ENTRIES"
    using length_bt_insert_le [of k e "nat_entries t"] A(1) by linarith
  ultimately show ?thesis
    using N unfolding A(4) nat_ok_def by (cases k) (simp add: bt_sorted_insert bt_get_insert)
qed

lemma nat_ok_lookup_or_create:
  assumes "nat_ok t" "lookup_or_create k tick t = Some (port, t1)" "length (fst k) = 4"
  shows "nat_ok t1"
proof (cases "bt_get (nat_entries t) k")
  case (Some e)
  then show ?thesis
    using assms nat_ok_update [OF assms(1) Some] by (auto simp: lookup_or_create_def flow_state_def)
next
  case None
  then obtain t0 where a: "alloc_xlate_port t = Some (port, t0)"
    and t1: "\<exists>e. t1 = t0\<lparr>nat_entries := bt_insert k e (nat_entries t0), xlate_to_key := bt_insert port k (xlate_to_key t0)\<rparr> \<and>
      ne_src_ip e = fst k \<and> ne_src_port e = fst (snd k) \<and> xlate_port e = port \<and> flow_state k e"
    using assms(2) unfolding lookup_or_create_def
    by (cases k) (fastforce split: option.splits simp: Let_def flow_state_def key_protocol_def session_state_def)
  then show ?thesis
    using nat_ok_create [OF assms(1) None a] assms(3) by auto
qed

lemma parse_ipv4_header_Some:
  assumes "parse_ipv4_header p = Some (h, n)"
  shows "h = header_fields p" "n = unat (p ! 0 AND 0x0F) * 4" "20 \<le> n" "n \<le> length p" "n \<le> 60" "drop_bit 4 (p ! 0) = 4"
    "length (source h) = 4" "length (destination h) = 4"
proof -
  have P: "h = header_fields p" "n = unat (p ! 0 AND 0x0F) * 4" "20 \<le> n" "n \<le> length p" "drop_bit 4 (p ! 0) = 4"
    using assms unfolding parse_ipv4_header_def Let_def IPV4_MIN_HEADER_SIZE_def by (auto split: if_splits)
  then show "h = header_fields p" "n = unat (p ! 0 AND 0x0F) * 4" "20 \<le> n" "n \<le> length p" "drop_bit 4 (p ! 0) = 4"
    by blast+
  have "p ! 0 AND 0x0F \<le> 0x0F"
    by (rule word_and_le1)
  then show "n \<le> 60"
    using P(2) by (simp add: word_le_nat_alt)
  show "length (source h) = 4" "length (destination h) = 4"
    using P(1,3,4) by (simp_all add: header_fields_def)
qed

text \<open>What an outbound and an inbound packet do to the table.\<close>

lemma snat_table:
  "snd (snat_ipv4 p tick t) = t \<or>
   (\<exists>k port. length (fst k) = 4 \<and> lookup_or_create k tick t = Some (port, snd (snat_ipv4 p tick t)))"
proof (cases "parse_ipv4_header p")
  case (Some hn)
  then obtain h n where P: "parse_ipv4_header p = Some (h, n)"
    by (cases hn) auto
  show ?thesis
    using parse_ipv4_header_Some(7) [OF P]
    by (auto simp: snat_ipv4_def P Let_def split: option.splits)
qed (simp add: snat_ipv4_def)

lemma dnat_table:
  "snd (dnat_ipv4 p tick t) = t \<or>
   (\<exists>k e. bt_get (nat_entries t) k = Some e \<and>
      snd (dnat_ipv4 p tick t) = t\<lparr>nat_entries := bt_insert k (touch_entry tick e) (nat_entries t)\<rparr>)"
  by (simp add: dnat_ipv4_def Let_def split: option.split) blast

lemma nat_ok_snat: "nat_ok t \<Longrightarrow> nat_ok (snd (snat_ipv4 p tick t))"
  using snat_table [of p tick t] nat_ok_lookup_or_create by metis

lemma nat_ok_dnat: "nat_ok t \<Longrightarrow> nat_ok (snd (dnat_ipv4 p tick t))"
  using dnat_table [of p tick t] nat_ok_update by (auto simp: touch_entry_def flow_state_def)

lemma nat_ok_remove:
  assumes "nat_ok t"
  shows "nat_ok (remove_session k t)"
proof (cases "bt_get (nat_entries t) k")
  case (Some e)
  note N = nat_okD [OF assms] and S = sessions_okD [OF nat_okD(4) [OF assms]]
  have X: "bt_get (xlate_to_key t) (xlate_port e) = Some k"
    using S(1) Some by blast
  have "sessions_ok ((bt_get (nat_entries t))(k := None)) ((bt_get (xlate_to_key t))(xlate_port e := None))"
    unfolding sessions_ok_def
  proof (intro conjI allI impI)
    fix k' e'
    assume "((bt_get (nat_entries t))(k := None)) k' = Some e'"
    then have k': "k' \<noteq> k" "bt_get (nat_entries t) k' = Some e'"
      by (auto split: if_splits)
    have "xlate_port e' \<noteq> xlate_port e"
      using S(1) [OF k'(2)] X k'(1) by auto
    then show "((bt_get (xlate_to_key t))(xlate_port e := None)) (xlate_port e') = Some k'"
      using S(1) [OF k'(2)] by simp
    show "ne_src_ip e' = fst k'" "ne_src_port e' = fst (snd k')" "length (fst k') = 4" "flow_state k' e'"
      using S(2-5) [OF k'(2)] by simp_all
  next
    fix p k'
    assume "((bt_get (xlate_to_key t))(xlate_port e := None)) p = Some k'"
    then have p: "p \<noteq> xlate_port e" "bt_get (xlate_to_key t) p = Some k'"
      by (auto split: if_splits)
    then show "nat_port p" "\<exists>e'. ((bt_get (nat_entries t))(k := None)) k' = Some e' \<and> xlate_port e' = p"
      using S(6,7) [OF p(2)] Some by auto
  qed
  moreover have "length (bt_remove k (nat_entries t)) \<le> MAX_NAT_ENTRIES"
    using length_bt_remove_le [of k "nat_entries t"] N(6) by linarith
  ultimately show ?thesis
    using N Some by (simp add: nat_ok_def remove_session_def free_xlate_port_def bt_sorted_remove bt_get_remove)
qed (use assms in \<open>simp add: remove_session_def\<close>)

lemma nat_ok_remove_all: "nat_ok t \<Longrightarrow> nat_ok (fold remove_session ks t)"
  by (induction ks arbitrary: t) (auto intro: nat_ok_remove)

lemma nat_ok_sweep:
  assumes "nat_ok t"
  shows "nat_ok (nat_sweep_expired tick t)"
proof -
  have "nat_ok (t\<lparr>last_sweep := tick\<rparr>)"
    using assms by (simp add: nat_ok_def)
  then show ?thesis
    using assms by (simp add: nat_sweep_expired_def Let_def nat_ok_remove_all)
qed

lemma nat_ok_promote: "nat_ok t \<Longrightarrow> nat_ok (promote_tcp_to_established a p b q t)"
  by (auto simp: promote_tcp_to_established_def flow_state_def Let_def intro!: nat_ok_update split: option.split)

lemma nat_ok_closing: "nat_ok t \<Longrightarrow> nat_ok (mark_tcp_closing a p b q t)"
  by (auto simp: mark_tcp_closing_def flow_state_def Let_def intro!: nat_ok_update split: option.split)

section \<open>Runs\<close>

datatype nat_event =
    Enable ipv4_addr
  | Disable
  | Outbound "u8 list" u64
  | Inbound "u8 list" u64
  | Sweep u64
  | Promote ipv4_addr u16 ipv4_addr u16
  | Closing ipv4_addr u16 ipv4_addr u16

fun run_nat :: "nat_event \<Rightarrow> nat_table \<Rightarrow> nat_table" where
  "run_nat (Enable ip) t = nat_enable ip t"
| "run_nat Disable t = nat_disable t"
| "run_nat (Outbound p tick) t = snd (snat_ipv4 p tick t)"
| "run_nat (Inbound p tick) t = snd (dnat_ipv4 p tick t)"
| "run_nat (Sweep tick) t = nat_sweep_expired tick t"
| "run_nat (Promote a p b q) t = promote_tcp_to_established a p b q t"
| "run_nat (Closing a p b q) t = mark_tcp_closing a p b q t"

text \<open>An address given to \<open>enable\<close> has four bytes, as its type \<open>[u8; 4]\<close> says.\<close>

fun event_typed :: "nat_event \<Rightarrow> bool" where
  "event_typed (Enable ip) = (length ip = 4)"
| "event_typed _ = True"

lemma nat_ok_event: "nat_ok t \<Longrightarrow> event_typed ev \<Longrightarrow> nat_ok (run_nat ev t)"
  by (cases ev) (simp_all add: nat_ok_enable nat_ok_disable nat_ok_snat nat_ok_dnat nat_ok_sweep nat_ok_promote nat_ok_closing)

lemma nat_ok_run: "nat_ok t \<Longrightarrow> list_all event_typed evs \<Longrightarrow> nat_ok (fold run_nat evs t)"
  by (induction evs arbitrary: t) (auto intro: nat_ok_event)

end
