(* ===== verification/Nat_Rewrite.thy ===== *)
theory Nat_Rewrite
  imports Nat_Sessions
begin

text \<open>
  The rewriting of packets: the incremental update of a checksum is the recomputation of it modulo
  65535, so a translated packet has a valid header checksum exactly when the original had one, and
  likewise for the transport checksum over the pseudo-header.
\<close>

unbundle bit_operations_syntax

section \<open>Slices\<close>

lemma length_copy_slice [simp]: "off + length d \<le> length b \<Longrightarrow> length (copy_slice off d b) = length b"
  by (simp add: copy_slice_def)

lemma nth_copy_slice:
  assumes "off + length d \<le> length b"
  shows "copy_slice off d b ! i = (if off \<le> i \<and> i < off + length d then d ! (i - off) else b ! i)"
  using assms by (auto simp: copy_slice_def nth_append)

lemma take_copy_slice:
  assumes "off + length d \<le> n" "n \<le> length b"
  shows "take n (copy_slice off d b) = copy_slice off d (take n b)"
  using assms by (intro nth_equalityI) (auto simp: nth_copy_slice)

lemma drop_copy_slice:
  assumes "n \<le> off" "off + length d \<le> length b"
  shows "drop n (copy_slice off d b) = copy_slice (off - n) d (drop n b)"
  using assms by (simp add: copy_slice_def drop_take)

lemma take_drop_copy_slice_same:
  "off + length d \<le> length b \<Longrightarrow> take (length d) (drop off (copy_slice off d b)) = d"
  by (simp add: copy_slice_def)

lemma take_drop_copy_slice_other:
  assumes "off + length d \<le> length b" "i + k \<le> off \<or> off + length d \<le> i"
  shows "take k (drop i (copy_slice off d b)) = take k (drop i b)"
  using assms by (intro nth_equalityI) (auto simp: nth_copy_slice)

lemma drop_copy_slice_other:
  "off + length d \<le> length b \<Longrightarrow> off + length d \<le> n \<Longrightarrow> drop n (copy_slice off d b) = drop n b"
  by (intro nth_equalityI) (auto simp: nth_copy_slice)

lemma take_copy_slice_other:
  "off + length d \<le> length b \<Longrightarrow> n \<le> off \<Longrightarrow> take n (copy_slice off d b) = take n b"
  by (intro nth_equalityI) (auto simp: nth_copy_slice)

lemma field16_copy_slice_same [simp]:
  "off + 2 \<le> length b \<Longrightarrow> field16 (copy_slice off (u16_to_be w) b) off = w"
  by (simp add: field16_def nth_copy_slice) (simp add: u16_to_be_def)

lemma field16_copy_slice_other:
  "off + length d \<le> length b \<Longrightarrow> i + 2 \<le> off \<or> off + length d \<le> i \<Longrightarrow> field16 (copy_slice off d b) i = field16 b i"
  by (auto simp: field16_def nth_copy_slice)

lemma field16_drop: "n + i + 2 \<le> length p \<Longrightarrow> field16 (drop n p) i = field16 p (n + i)"
  unfolding field16_def by (subst (1 2) nth_drop) (simp_all only: add.assoc)

section \<open>Sums of words\<close>

lemma word_sum_append: "even (length xs) \<Longrightarrow> word_sum (xs @ ys) = word_sum xs + word_sum ys"
  by (induction xs rule: word_sum.induct) auto

lemma word_sum_copy_slice:
  assumes "even off" "even (length d)" "off + length d \<le> length b"
  shows "word_sum (copy_slice off d b) + word_sum (take (length d) (drop off b)) = word_sum b + word_sum d"
proof -
  have "b = take off b @ take (length d) (drop off b) @ drop (off + length d) b"
    by (metis add.commute append_take_drop_id drop_drop)
  then have "word_sum b = word_sum (take off b) + word_sum (take (length d) (drop off b)) + word_sum (drop (off + length d) b)"
    using assms by (metis (no_types, lifting) add.assoc add_leD1 length_drop length_take min.absorb2 nat_add_left_cancel_le
        le_add_diff_inverse word_sum_append)
  moreover have "word_sum (copy_slice off d b) = word_sum (take off b) + word_sum d + word_sum (drop (off + length d) b)"
    using assms by (simp add: copy_slice_def word_sum_append)
  ultimately show ?thesis
    by linarith
qed

lemma word_sum_field:
  assumes "i + 2 \<le> length b"
  shows "word_sum (take 2 (drop i b)) = unat (field16 b i)"
proof -
  have "take 2 (drop i b) = [b ! i, b ! (i + 1)]"
    using assms by (intro nth_equalityI) (auto simp: less_2_cases_iff)
  then show ?thesis
    by (simp add: field16_def unat_u16_from_be)
qed

lemma word_sum_u16 [simp]: "word_sum (u16_to_be w) = unat w"
  using unat_u16_from_be [of "ucast (drop_bit 8 w)" "ucast w"] by (simp add: u16_to_be_def)

lemma word_sum_ip: "length ip = 4 \<Longrightarrow> word_sum ip = unat (fst (ip_words ip)) + unat (snd (ip_words ip))"
  by (drule list4) (auto simp: ip_words_def unat_u16_from_be)

section \<open>The incremental update\<close>

lemma complement_arith:
  fixes r f x c old new :: nat
  assumes "r = 65535 - f" "f < 65536" "f mod 65535 = x mod 65535" "x = (65535 - c) + (65535 - old) + new"
    "c < 65536" "old < 65536"
  shows "65535 dvd (int r + int new) - (int c + int old)"
proof -
  have "int f mod 65535 = int x mod 65535"
    using arg_cong [OF assms(3), of int] by (simp only: of_nat_mod of_nat_numeral)
  then obtain k where k: "int f - int x = 65535 * k"
    unfolding mod_eq_dvd_iff by (elim dvdE)
  have "int r = 65535 - int f" "int x = 131070 - int c - int old + int new"
    using assms(1,2,4-) by (simp_all add: of_nat_diff)
  then have "(int r + int new) - (int c + int old) = 65535 * (- 1 - k)"
    using k by (simp only: right_diff_distrib)
  then show ?thesis
    by (rule dvdI)
qed

lemma incremental_update:
  "65535 dvd (int (unat (incremental_checksum_update c old new)) + int (unat new)) - (int (unat c) + int (unat old))"
proof -
  let ?x = "ucast (NOT c) + ucast (NOT old) + ucast new :: u32"
  have u: "unat (ucast w :: u32) = unat w" for w :: u16
    using u16_less [of w] by (simp add: unsigned_ucast_eq take_bit_nat_eq_self)
  have x: "unat ?x = (65535 - unat c) + (65535 - unat old) + unat new"
    using u16_less [of new] by (simp add: unat_word_ariths u unat_not_u16)
  have f: "unat (fold_carries ?x) < 65536" "unat (fold_carries ?x) mod 65535 = unat ?x mod 65535"
    using fold_carries_props [of ?x] by blast+
  have r: "unat (incremental_checksum_update c old new) = 65535 - unat (fold_carries ?x)"
    using unat_checksum_finalize [of ?x] by (simp add: incremental_checksum_update_def checksum_finalize_def)
  show ?thesis
    by (rule complement_arith [OF r f x u16_less u16_less])
qed


lemma ip_checksum_update:
  assumes "length old = 4" "length new = 4"
  shows "65535 dvd (int (unat (update_ip_checksum_after_src_change c old new)) + int (word_sum new)) - (int (unat c) + int (word_sum old))"
proof -
  obtain oh ol nh nl where w: "ip_words old = (oh, ol)" "ip_words new = (nh, nl)"
    by (cases "ip_words old", cases "ip_words new") auto
  let ?c1 = "incremental_checksum_update c oh nh"
  have "65535 dvd ((int (unat ?c1) + int (unat nh)) - (int (unat c) + int (unat oh))) +
      ((int (unat (incremental_checksum_update ?c1 ol nl)) + int (unat nl)) - (int (unat ?c1) + int (unat ol)))"
    by (rule dvd_add [OF incremental_update incremental_update])
  then show ?thesis
    by (simp add: update_ip_checksum_after_src_change_def w word_sum_ip assms algebra_simps)
qed

lemma transport_checksum_update:
  assumes "length old = 4" "length new = 4"
  shows "65535 dvd (int (unat (update_transport_checksum_after_nat c op np old new)) + int (unat np) + int (word_sum new)) -
    (int (unat c) + int (unat op) + int (word_sum old))"
proof -
  obtain oh ol nh nl where w: "ip_words old = (oh, ol)" "ip_words new = (nh, nl)"
    by (cases "ip_words old", cases "ip_words new") auto
  let ?c1 = "incremental_checksum_update c oh nh"
  let ?c2 = "incremental_checksum_update ?c1 ol nl"
  have "65535 dvd ((int (unat ?c1) + int (unat nh)) - (int (unat c) + int (unat oh))) +
      (((int (unat ?c2) + int (unat nl)) - (int (unat ?c1) + int (unat ol))) +
       ((int (unat (incremental_checksum_update ?c2 op np)) + int (unat np)) - (int (unat ?c2) + int (unat op))))"
    by (intro dvd_add incremental_update)
  then show ?thesis
    by (simp add: update_transport_checksum_after_nat_def w word_sum_ip assms algebra_simps)
qed

section \<open>The header of a rewritten packet\<close>

lemma copy_slice_sum:
  assumes "even off" "even (length d)" "off + length d \<le> length b"
  shows "int (word_sum (copy_slice off d b)) = int (word_sum b) + int (word_sum d) - int (word_sum (take (length d) (drop off b)))"
  using word_sum_copy_slice [OF assms] by linarith

lemma rewrite_ip_facts:
  assumes "pos = 12 \<or> pos = 16" "length new = 4" "20 \<le> n" "n \<le> length p" "old = take 4 (drop pos p)"
  defines "q \<equiv> rewrite_ip pos old new p"
  shows "length q = length p" "take 4 (drop pos q) = new"
    "i + k \<le> 10 \<or> 12 \<le> i \<Longrightarrow> i + k \<le> pos \<or> pos + 4 \<le> i \<Longrightarrow> take k (drop i q) = take k (drop i p)"
    "65535 dvd int (word_sum (take n q)) - int (word_sum (take n p))"
    "drop n q = drop n p"
proof -
  let ?p1 = "copy_slice pos new p"
  let ?c = "update_ip_checksum_after_src_change (field16 ?p1 10) old new"
  have q: "q = copy_slice 10 (u16_to_be ?c) ?p1"
    by (simp add: q_def rewrite_ip_def Let_def)
  have pos: "10 + 2 \<le> pos" "pos + 4 \<le> n" "even pos"
    using assms(1,3) by auto
  have l1: "length ?p1 = length p"
    using pos assms(2,4) by simp
  then show l: "length q = length p"
    unfolding q using assms(3,4) by simp
  show "take 4 (drop pos q) = new"
    unfolding q using take_drop_copy_slice_other [of 10 "u16_to_be ?c" ?p1 pos 4] take_drop_copy_slice_same [of pos new p]
      l1 pos assms(2,3,4) by simp
  show "take k (drop i q) = take k (drop i p)" if "i + k \<le> 10 \<or> 12 \<le> i" "i + k \<le> pos \<or> pos + 4 \<le> i" for i k
    unfolding q using take_drop_copy_slice_other [of 10 "u16_to_be ?c" ?p1 i k] take_drop_copy_slice_other [of pos new p i k]
      that l1 pos assms(2,3,4) by simp
  show "drop n q = drop n p"
    unfolding q using drop_copy_slice_other [of 10 "u16_to_be ?c" ?p1 n] drop_copy_slice_other [of pos new p n]
      l1 pos assms(2,3,4) by simp
  have "4 \<le> length p - pos" "4 \<le> n - pos"
    using pos assms(4) by linarith+
  then have o: "length old = 4" "take 4 (drop pos (take n p)) = old"
    using assms(5) by (simp_all add: drop_take)
  have t: "take n q = copy_slice 10 (u16_to_be ?c) (copy_slice pos new (take n p))"
    unfolding q using take_copy_slice [of 10 "u16_to_be ?c" n ?p1] take_copy_slice [of pos new n p] l1 pos assms(2,3,4) by simp
  have "field16 (copy_slice pos new (take n p)) 10 = field16 ?p1 10"
    using field16_copy_slice_other [of pos new "take n p" 10] field16_copy_slice_other [of pos new p 10] pos assms(2,3,4)
    by (simp add: field16_def)
  then have "int (word_sum (take n q)) = int (word_sum (take n p)) + int (word_sum new) - int (word_sum old) +
      int (unat ?c) - int (unat (field16 ?p1 10))"
    unfolding t using copy_slice_sum [of 10 "u16_to_be ?c" "copy_slice pos new (take n p)"] copy_slice_sum [of pos new "take n p"]
      word_sum_field [of 10 "copy_slice pos new (take n p)"] pos assms(2,3,4) o by simp
  then have "int (word_sum (take n q)) - int (word_sum (take n p)) =
      (int (unat ?c) + int (word_sum new)) - (int (unat (field16 ?p1 10)) + int (word_sum old))"
    by linarith
  then show "65535 dvd int (word_sum (take n q)) - int (word_sum (take n p))"
    using ip_checksum_update [OF o(1) assms(2), of "field16 ?p1 10"] by (simp only:)
qed

lemma parse_packet_iff:
  "parse_packet p = Inr a \<longleftrightarrow>
     (let n = unat (p ! 0 AND 0x0F) * 4; len = unat (field16 p 2)
      in 20 \<le> n \<and> drop_bit 4 (p ! 0) = 4 \<and> n \<le> length p \<and> len \<le> length p \<and> compute_checksum (take n p) = 0 \<and>
         a = \<lparr>header = header_fields p, payload = take (len - n) (drop n p)\<rparr>)"
proof -
  have "p ! 0 AND 0x0F < 5 \<longleftrightarrow> \<not> 5 \<le> unat (p ! 0 AND 0x0F)"
    by (simp add: word_less_nat_alt not_le)
  then show ?thesis
    unfolding parse_packet_def Let_def IPV4_MIN_HEADER_SIZE_def by (auto simp: field16_def numeral_eq_Suc)
qed


lemma header_sum_nonzero:
  assumes "drop_bit 4 (p ! 0) = 4" "20 \<le> n" "n \<le> length p"
  shows "word_sum (take n p) \<noteq> 0"
proof -
  have "p ! 0 \<noteq> 0"
    using assms(1) by auto
  then have "unat (p ! 0) \<noteq> 0"
    by (simp only: unat_eq_0 not_False_eq_True)
  moreover obtain a b rest where "take n p = a # b # rest"
    using assms(2,3) by (cases "take n p" rule: word_sum.cases) (auto dest: arg_cong [of _ _ length])
  moreover from this have "a = p ! 0"
    using assms(2,3) by (metis gr0I nth_Cons_0 nth_take not_numeral_le_zero)
  ultimately show ?thesis
    by simp
qed

lemma parse_packet_rewritten:
  assumes "parse_packet p = Inr a" "length q = length p" "take 4 (drop 0 q) = take 4 (drop 0 p)"
    "65535 dvd int (word_sum (take (unat (p ! 0 AND 0x0F) * 4) q)) - int (word_sum (take (unat (p ! 0 AND 0x0F) * 4) p))"
  shows "parse_packet q = Inr \<lparr>header = header_fields q,
    payload = take (unat (field16 p 2) - unat (p ! 0 AND 0x0F) * 4) (drop (unat (p ! 0 AND 0x0F) * 4) q)\<rparr>"
proof -
  let ?n = "unat (p ! 0 AND 0x0F) * 4"
  have P: "20 \<le> ?n" "drop_bit 4 (p ! 0) = 4" "?n \<le> length p" "unat (field16 p 2) \<le> length p" "compute_checksum (take ?n p) = 0"
    using assms(1) unfolding parse_packet_iff Let_def by blast+
  have at: "q ! i = p ! i" if "i < 4" for i
    using arg_cong [OF assms(3), of "\<lambda>l. l ! i"] that by simp
  have q0: "q ! 0 = p ! 0" "field16 q 2 = field16 p 2"
    using at [of 0] at [of 2] at [of 3] by (simp_all add: field16_def)
  have n60: "?n \<le> 60"
    using parse_packet_Inr(3) [OF assms(1)] .
  have small: "word_sum (take ?n p) < U32_LIMIT" "word_sum (take ?n q) < U32_LIMIT"
    using word_sum_le [of "take ?n p"] word_sum_le [of "take ?n q"] n60 by auto
  have "word_sum (take ?n p) mod 65535 = 0"
    using P(5) checksum_zero_iff [OF small(1)] by simp
  then have "65535 dvd int (word_sum (take ?n p))"
    using int_mod_0 by (simp add: dvd_eq_mod_eq_0)
  then have "65535 dvd int (word_sum (take ?n q))"
    using assms(4) by (metis diff_add_cancel dvd_add)
  then have "word_sum (take ?n q) mod 65535 = 0"
    by (metis dvd_eq_mod_eq_0 of_nat_dvd_iff of_nat_numeral)
  moreover have "word_sum (take ?n q) \<noteq> 0"
    using header_sum_nonzero [of q ?n] P(1-3) q0(1) assms(2) by simp
  ultimately have "compute_checksum (take ?n q) = 0"
    using checksum_zero_iff [OF small(2)] by simp
  then show ?thesis
    unfolding parse_packet_iff Let_def q0 assms(2) using P by simp
qed

section \<open>The transport checksum\<close>

text \<open>The test a receiver of a TCP segment or UDP datagram makes: the sum over the pseudo-header and
  the segment, checksum field included, comes to zero (RFC 793, RFC 768).\<close>

definition transport_ok :: "ipv4_addr \<Rightarrow> ipv4_addr \<Rightarrow> u8 \<Rightarrow> u8 list \<Rightarrow> bool" where
  "transport_ok src dst proto seg \<longleftrightarrow>
     checksum_finalize (checksum_add (pseudo_header_checksum_add 0 src dst proto (of_nat (length seg))) seg) = 0"

text \<open>What a receiver does with it: UDP over IPv4 treats a zero checksum field as no checksum
  (\<open>src/network/udp.rs\<close>, RFC 768).\<close>

definition receiver_accepts :: "ipv4_addr \<Rightarrow> ipv4_addr \<Rightarrow> u8 \<Rightarrow> u8 list \<Rightarrow> bool" where
  "receiver_accepts src dst proto seg \<longleftrightarrow> proto = 17 \<and> field16 seg 6 = 0 \<or> transport_ok src dst proto seg"

definition transport_sum :: "ipv4_addr \<Rightarrow> ipv4_addr \<Rightarrow> u8 \<Rightarrow> u8 list \<Rightarrow> nat" where
  "transport_sum src dst proto seg = word_sum src + word_sum dst + unat proto + length seg + word_sum seg"

lemma word_sum_le_half: "word_sum d \<le> 65535 * ((length d + 1) div 2)"
proof (induction d rule: word_sum.induct)
  case (1 a b rest)
  then show ?case
    using byte_less [of a] byte_less [of b] by simp
next
  case (2 a)
  then show ?case
    using byte_less [of a] by simp
qed simp

lemma finalize_zero_iff: "checksum_finalize x = 0 \<longleftrightarrow> unat x \<noteq> 0 \<and> unat x mod 65535 = 0"
proof -
  let ?f = "unat (fold_carries x)"
  have f: "?f < 65536" "?f mod 65535 = unat x mod 65535" "?f = 0 \<longleftrightarrow> unat x = 0"
    using fold_carries_props [of x] by blast+
  have "checksum_finalize x = 0 \<longleftrightarrow> 65535 - ?f = 0"
    unfolding unat_checksum_finalize [symmetric] by (simp only: unat_eq_0)
  also have "\<dots> \<longleftrightarrow> ?f = 65535"
    using f(1) by linarith
  also have "\<dots> \<longleftrightarrow> ?f \<noteq> 0 \<and> ?f mod 65535 = 0"
    using f(1) by (auto elim!: dvdE simp: dvd_eq_mod_eq_0 [symmetric])
  finally show ?thesis
    using f by simp
qed

lemma transport_ok_iff:
  assumes "length src = 4" "length dst = 4" "proto \<noteq> 0" "length seg < 65536"
  shows "transport_ok src dst proto seg \<longleftrightarrow> transport_sum src dst proto seg mod 65535 = 0"
proof -
  have n: "unat (of_nat (length seg) :: u16) = length seg"
    unfolding unsigned_of_nat using assms(4) by (simp add: take_bit_nat_eq_self)
  obtain a b c d where s: "src = [a, b, c, d]"
    using list4 assms(1) by blast
  obtain e f g h where t: "dst = [e, f, g, h]"
    using list4 assms(2) by blast
  have ph: "word_sum (pseudo_header src dst proto (of_nat (length seg))) = word_sum src + word_sum dst + unat proto + length seg"
    using word_sum_u16 [of "of_nat (length seg)"] n by (simp add: pseudo_header_def s t u16_to_be_def)
  have "word_sum seg \<le> 65535 * 32768"
    using word_sum_le_half [of seg] assms(4) by (simp add: div_le_mono le_trans)
  then have lim: "transport_sum src dst proto seg < U32_LIMIT"
    using word_sum_le [of src] word_sum_le [of dst] byte_less [of proto] assms(1,2,4) by (simp add: transport_sum_def)
  have u: "unat (checksum_add (pseudo_header_checksum_add 0 src dst proto (of_nat (length seg))) seg) = transport_sum src dst proto seg"
    using lim by (simp add: pseudo_header_checksum_add_def unat_checksum_add ph transport_sum_def mod_add_left_eq)
  have "unat proto \<noteq> 0"
    using assms(3) by (simp only: unat_eq_0 not_False_eq_True)
  then have "transport_sum src dst proto seg \<noteq> 0"
    by (simp add: transport_sum_def)
  then show ?thesis
    unfolding transport_ok_def finalize_zero_iff u by simp
qed

text \<open>A new port, a new address and the updated checksum leave the verdict as it was.\<close>

lemma transport_ok_rewritten:
  assumes "length old = 4" "length new = 4" "length other = 4" "proto \<noteq> 0" "length seg < 65536"
    "even off" "off + 2 \<le> length seg" "even ppos" "ppos + 2 \<le> off"
    and c: "c = update_transport_checksum_after_nat (field16 seg off) (field16 seg ppos) port old new"
    and seg': "seg' = copy_slice off (u16_to_be c) (copy_slice ppos (u16_to_be port) seg)"
  shows "65535 dvd int (transport_sum new other proto seg') - int (transport_sum old other proto seg)"
    "transport_sum other new proto seg' = transport_sum new other proto seg'"
proof -
  have l: "length seg' = length seg"
    unfolding seg' using assms(6-9) by simp
  have "field16 (copy_slice ppos (u16_to_be port) seg) off = field16 seg off"
    using field16_copy_slice_other [of ppos "u16_to_be port" seg off] assms(7,9) by simp
  then have "int (word_sum seg') = int (word_sum seg) + int (unat port) - int (unat (field16 seg ppos)) +
      int (unat c) - int (unat (field16 seg off))"
    unfolding seg' using copy_slice_sum [of off "u16_to_be c" "copy_slice ppos (u16_to_be port) seg"]
      copy_slice_sum [of ppos "u16_to_be port" seg] word_sum_field [of ppos seg]
      word_sum_field [of off "copy_slice ppos (u16_to_be port) seg"] assms(6-9) by simp
  then have "int (transport_sum new other proto seg') - int (transport_sum old other proto seg) =
      (int (unat c) + int (unat port) + int (word_sum new)) -
      (int (unat (field16 seg off)) + int (unat (field16 seg ppos)) + int (word_sum old))"
    unfolding transport_sum_def l of_nat_add by linarith
  then show "65535 dvd int (transport_sum new other proto seg') - int (transport_sum old other proto seg)"
    using transport_checksum_update [OF assms(1,2), of "field16 seg off" "field16 seg ppos" port]
    unfolding c [symmetric] by (simp only:)
  show "transport_sum other new proto seg' = transport_sum new other proto seg'"
    by (simp add: transport_sum_def)
qed

lemma transport_ok_cong:
  assumes "length a = 4" "length b = 4" "length a' = 4" "length b' = 4" "proto \<noteq> 0" "length seg < 65536" "length seg' < 65536"
    "65535 dvd int (transport_sum a' b' proto seg') - int (transport_sum a b proto seg)"
  shows "transport_ok a' b' proto seg' \<longleftrightarrow> transport_ok a b proto seg"
proof -
  have "int (transport_sum a' b' proto seg') mod 65535 = int (transport_sum a b proto seg) mod 65535"
    using assms(8) by (simp only: mod_eq_dvd_iff)
  then have "transport_sum a' b' proto seg' mod 65535 = transport_sum a b proto seg mod 65535"
    by (metis nat_int of_nat_mod of_nat_numeral)
  then show ?thesis
    using assms(1-7) by (simp add: transport_ok_iff)
qed

end
