(* ===== verification/Nat_Translation.thy ===== *)
theory Nat_Translation
  imports Nat_Rewrite
begin

text \<open>
  What translation promises: a session keeps its port while its packets keep coming, a reply to a
  translated packet goes back to the host and port that sent it, and translated packets have valid
  checksums.
\<close>

unbundle bit_operations_syntax

section \<open>Translated packets\<close>

lemma protocol_to_from [simp]: "protocol_to_u8 (protocol_from_u8 v) = v"
  by (simp add: protocol_from_u8_def)

lemma snat_Some:
  assumes "snat_ipv4 p tick t = (Some q, t1)" "p ! 9 = 6 \<or> p ! 9 = 17"
  defines "n \<equiv> unat (p ! 0 AND 0x0F) * 4" and "src \<equiv> take 4 (drop 12 p)"
  obtains port where "nat_enabled t" "parse_ipv4_header p = Some (header_fields p, n)" "unat (field16 p 2) = length p"
    "lookup_or_create (src, field16 p n, take 4 (drop 16 p), field16 p (n + 2), p ! 9) tick t = Some (port, t1)"
    "n + csum_offset (p ! 9) + 2 \<le> length p"
    "q = copy_slice (n + csum_offset (p ! 9)) (u16_to_be (update_transport_checksum_after_nat
        (field16 (copy_slice n (u16_to_be port) (rewrite_ip 12 src (external_ip t) p)) (n + csum_offset (p ! 9)))
        (field16 p n) port src (external_ip t)))
      (copy_slice n (u16_to_be port) (rewrite_ip 12 src (external_ip t) p))"
proof -
  obtain h m where P: "parse_ipv4_header p = Some (h, m)"
    using assms(1) by (auto simp: snat_ipv4_def split: if_splits option.splits)
  have h: "h = header_fields p" "m = n"
    using parse_ipv4_header_Some(1,2) [OF P] by (simp_all add: n_def)
  have f: "protocol_to_u8 (protocol (header_fields p)) = p ! 9" "source (header_fields p) = src"
    "destination (header_fields p) = take 4 (drop 16 p)" "total_length (header_fields p) = field16 p 2"
    by (simp_all add: header_fields_def src_def field16_def)
  have e: "nat_enabled t" "unat (field16 p 2) = length p" "n + 4 \<le> length p"
    using assms(1,2) P unfolding h
    by (auto simp: snat_ipv4_def f Let_def session_ports_def extract_tcp_udp_ports_def split: if_splits)
  then have sp: "session_ports p n (p ! 9) = Some (field16 p n, field16 p (n + 2))"
    using assms(2) by (auto simp: session_ports_def extract_tcp_udp_ports_def)
  obtain port where L: "lookup_or_create (src, field16 p n, take 4 (drop 16 p), field16 p (n + 2), p ! 9) tick t = Some (port, t1)"
    and T: "snat_transport n (p ! 9) port src (external_ip t) p (rewrite_ip 12 src (external_ip t) p) = Some q"
    using assms(1,2) P e unfolding h snat_ipv4_def by (auto simp: f sp Let_def split: option.splits)
  show thesis
    using that [OF e(1) P [unfolded h] e(2) L] T by (auto simp: snat_transport_def Let_def split: if_splits)
qed


lemma csum_offset_cases: "proto = 6 \<or> proto = 17 \<Longrightarrow> csum_offset proto = 16 \<or> csum_offset proto = 6"
  by (auto simp: csum_offset_def)

lemma parsed_length: "parse_ipv4_header p = Some (h, n) \<Longrightarrow> 20 \<le> n \<and> n \<le> length p"
  using parse_ipv4_header_Some by blast

text \<open>The translated packet, field by field.\<close>

lemma snat_packet:
  assumes "snat_ipv4 p tick t = (Some q, t1)" "p ! 9 = 6 \<or> p ! 9 = 17" "length (external_ip t) = 4"
  defines "n \<equiv> unat (p ! 0 AND 0x0F) * 4"
  obtains port where
    "lookup_or_create (take 4 (drop 12 p), field16 p n, take 4 (drop 16 p), field16 p (n + 2), p ! 9) tick t = Some (port, t1)"
    "length q = length p" "unat (field16 p 2) = length p" "20 \<le> n" "n + csum_offset (p ! 9) + 2 \<le> length p"
    "take n q = take n (rewrite_ip 12 (take 4 (drop 12 p)) (external_ip t) p)"
    "drop n q = copy_slice (csum_offset (p ! 9)) (u16_to_be (update_transport_checksum_after_nat
        (field16 (drop n p) (csum_offset (p ! 9))) (field16 (drop n p) 0) port (take 4 (drop 12 p)) (external_ip t)))
      (copy_slice 0 (u16_to_be port) (drop n p))"
proof -
  let ?src = "take 4 (drop 12 p)" and ?off = "csum_offset (p ! 9)"
  let ?r = "rewrite_ip 12 ?src (external_ip t) p"
  obtain port where P: "parse_ipv4_header p = Some (header_fields p, n)" and len: "unat (field16 p 2) = length p"
    and L: "lookup_or_create (?src, field16 p n, take 4 (drop 16 p), field16 p (n + 2), p ! 9) tick t = Some (port, t1)"
    and o: "n + ?off + 2 \<le> length p"
    and q: "q = copy_slice (n + ?off) (u16_to_be (update_transport_checksum_after_nat
        (field16 (copy_slice n (u16_to_be port) ?r) (n + ?off)) (field16 p n) port ?src (external_ip t)))
      (copy_slice n (u16_to_be port) ?r)"
    by (rule snat_Some [OF assms(1,2), folded n_def]) (rule that)
  have n: "20 \<le> n" "n \<le> length p"
    using parsed_length [OF P] by auto
  note R = rewrite_ip_facts [of 12 "external_ip t" n p ?src, OF _ assms(3) n, simplified]
  have off: "2 \<le> ?off"
    using csum_offset_cases [OF assms(2)] by auto
  have l: "length ?r = length p" "length (copy_slice n (u16_to_be port) ?r) = length p"
    using R(1) o by simp_all
  have f: "field16 (copy_slice n (u16_to_be port) ?r) (n + ?off) = field16 (drop n p) ?off" "field16 p n = field16 (drop n p) 0"
  proof -
    have "field16 ?r (n + ?off) = field16 (drop n ?r) ?off"
      using o l by (simp add: field16_def add.assoc)
    then show "field16 (copy_slice n (u16_to_be port) ?r) (n + ?off) = field16 (drop n p) ?off"
      using field16_copy_slice_other [of n "u16_to_be port" ?r "n + ?off"] off o l R(5) by simp
    show "field16 p n = field16 (drop n p) 0"
      using o by (simp add: field16_def)
  qed
  show thesis
  proof (rule that [OF L _ len n(1) o])
    show "length q = length p"
      unfolding q using l o by simp
    show "take n q = take n ?r"
      unfolding q using take_copy_slice_other [of "n + ?off" _ "copy_slice n (u16_to_be port) ?r" n]
        take_copy_slice_other [of n "u16_to_be port" ?r n] l o by simp
    show "drop n q = copy_slice ?off (u16_to_be (update_transport_checksum_after_nat
        (field16 (drop n p) ?off) (field16 (drop n p) 0) port ?src (external_ip t))) (copy_slice 0 (u16_to_be port) (drop n p))"
      unfolding q f using drop_copy_slice [of n "n + ?off" _ "copy_slice n (u16_to_be port) ?r"]
        drop_copy_slice [of n n "u16_to_be port" ?r] l o R(5) by simp
  qed
qed

lemma header_fields_take: "20 \<le> n \<Longrightarrow> n \<le> length p \<Longrightarrow> header_fields (take n p) = header_fields p"
  by (simp add: header_fields_def drop_take min_def)

lemma header_fields_rewrite_src:
  assumes "length new = 4" "20 \<le> length p" "old = take 4 (drop 12 p)"
  shows "\<exists>c. header_fields (rewrite_ip 12 old new p) = (header_fields p)\<lparr>source := new, header_checksum := c\<rparr>"
proof -
  let ?r = "rewrite_ip 12 old new p"
  note R = rewrite_ip_facts [of 12 new 20 p old, OF _ assms(1) order_refl assms(2,3), simplified]
  have at: "?r ! i = p ! i" if "i < 10" for i
    using arg_cong [OF R(3) [of 0 10], of "\<lambda>l. l ! i"] that by simp
  have "take 4 (drop 16 ?r) = take 4 (drop 16 p)"
    using R(3) [of 16 4] by simp
  then show ?thesis
    using R(2) by (intro exI [of _ "header_checksum (header_fields ?r)"] ipv4_header.equality) (simp_all add: header_fields_def at)
qed

section \<open>Sessions stay\<close>

text \<open>Traffic that comes in time: no address change, and every tick between the last one and the limit.\<close>

fun timely :: "nat \<Rightarrow> nat \<Rightarrow> nat_event list \<Rightarrow> bool" where
  "timely now limit [] = True"
| "timely now limit (Enable ip # evs) = False"
| "timely now limit (Disable # evs) = False"
| "timely now limit (Outbound p tick # evs) = (now \<le> unat tick \<and> unat tick < limit \<and> timely (unat tick) limit evs)"
| "timely now limit (Inbound p tick # evs) = (now \<le> unat tick \<and> unat tick < limit \<and> timely (unat tick) limit evs)"
| "timely now limit (Sweep tick # evs) = (now \<le> unat tick \<and> unat tick < limit \<and> timely (unat tick) limit evs)"
| "timely now limit (Promote a p b q # evs) = timely now limit evs"
| "timely now limit (Closing a p b q # evs) = timely now limit evs"

definition alive :: "nat_key \<Rightarrow> u16 \<Rightarrow> nat \<Rightarrow> nat \<Rightarrow> nat_table \<Rightarrow> bool" where
  "alive k port start now t \<longleftrightarrow> (\<exists>e. bt_get (nat_entries t) k = Some e \<and> xlate_port e = port \<and>
     start \<le> unat (last_seen e) \<and> unat (last_seen e) \<le> now \<and> ne_state e \<notin> {IcmpActive, Other_State})"

lemma alive_update:
  assumes "alive k port start now t" "bt_sorted (nat_entries t)" "now \<le> now'"
    "\<And>e. bt_get (nat_entries t) k = Some e \<Longrightarrow> k' = k \<Longrightarrow> xlate_port e' = xlate_port e \<and> ne_state e' \<notin> {IcmpActive, Other_State} \<and>
        (last_seen e' = last_seen e \<or> unat (last_seen e') = now')"
  shows "alive k port start now' (t\<lparr>nat_entries := bt_insert k' e' (nat_entries t)\<rparr>)"
proof -
  obtain e where e: "bt_get (nat_entries t) k = Some e" "xlate_port e = port" "start \<le> unat (last_seen e)"
    "unat (last_seen e) \<le> now" "ne_state e \<notin> {IcmpActive, Other_State}"
    using assms(1) unfolding alive_def by blast
  show ?thesis
  proof (cases "k' = k")
    case True
    then show ?thesis
      using e assms(2,3) assms(4) [OF e(1) True] by (auto simp: alive_def bt_get_insert)
  next
    case False
    then show ?thesis
      using e assms(2,3) by (auto simp: alive_def bt_get_insert)
  qed
qed

lemma alive_lookup:
  assumes "alive k port start now t" "nat_ok t" "now \<le> unat tick" "lookup_or_create k' tick t = Some (port', t1)"
  shows "alive k port start (unat tick) t1"
proof (cases "bt_get (nat_entries t) k'")
  case (Some e)
  have "alive k port start (unat tick) (t\<lparr>nat_entries := bt_insert k' (e\<lparr>last_seen := tick\<rparr>) (nat_entries t)\<rparr>)"
    using assms(1) Some by (intro alive_update [OF assms(1) nat_okD(1) [OF assms(2)] assms(3)]) (auto simp: alive_def)
  then show ?thesis
    using assms(4) Some by (auto simp: lookup_or_create_def)
next
  case None
  then have "k' \<noteq> k"
    using assms(1) by (auto simp: alive_def)
  moreover obtain e where "nat_entries t1 = bt_insert k' e (nat_entries t)"
    using assms(4) None alloc_xlate_port_Some(4)
    by (cases k') (fastforce simp: lookup_or_create_def Let_def split: option.splits)
  ultimately show ?thesis
    using assms(1,3) nat_okD(1) [OF assms(2)] by (auto simp: alive_def bt_get_insert)
qed

lemma remove_session_other: "k' \<noteq> k \<Longrightarrow> bt_get (nat_entries (remove_session k' t)) k = bt_get (nat_entries t) k"
  by (simp add: remove_session_def free_xlate_port_def bt_get_remove split: option.split)

lemma remove_all_other: "k \<notin> set ks \<Longrightarrow> bt_get (nat_entries (fold remove_session ks t)) k = bt_get (nat_entries t) k"
  by (induction ks arbitrary: t) (auto simp: remove_session_other)

lemma session_timeout: "ne_state e \<notin> {IcmpActive, Other_State} \<Longrightarrow> 6000 \<le> unat (timeout_ticks e)"
  by (cases "ne_state e") (simp_all add: timeout_ticks_def TCP_NEW_TIMEOUT_def TCP_ESTABLISHED_TIMEOUT_def
      TCP_TIME_WAIT_TIMEOUT_def UDP_TIMEOUT_def)

lemma alive_sweep:
  assumes "alive k port start now t" "nat_ok t" "now \<le> unat tick" "unat tick < start + 6000"
  shows "alive k port start (unat tick) (nat_sweep_expired tick t)"
proof -
  obtain e where e: "bt_get (nat_entries t) k = Some e" "xlate_port e = port" "start \<le> unat (last_seen e)"
    "unat (last_seen e) \<le> now" "ne_state e \<notin> {IcmpActive, Other_State}"
    using assms(1) unfolding alive_def by blast
  have "last_seen e \<le> tick"
    using e(4) assms(3) by (simp add: word_le_nat_alt)
  then have "unat (tick - last_seen e) = unat tick - unat (last_seen e)"
    by (rule unat_sub)
  then have "\<not> is_expired tick e"
    using session_timeout [OF e(5)] e(3) assms(4) by (simp add: is_expired_def word_le_nat_alt)
  then have "k \<notin> set (map fst (filter (\<lambda>(_, e). is_expired tick e) (nat_entries t)))"
    using e(1) nat_okD(1) [OF assms(2)] by (auto simp: bt_get_Some_iff dest: bt_sorted_keys_inj)
  then have "bt_get (nat_entries (nat_sweep_expired tick t)) k = Some e"
    using e(1) by (simp add: nat_sweep_expired_def Let_def remove_all_other)
  then show ?thesis
    using e assms(3) by (auto simp: alive_def)
qed


lemma alive_snat:
  assumes "alive k port start now t" "nat_ok t" "now \<le> unat tick"
  shows "alive k port start (unat tick) (snd (snat_ipv4 p tick t))"
proof -
  have "alive k port start (unat tick) t"
    using assms(1,3) unfolding alive_def by (blast intro: order_trans)
  then show ?thesis
    using snat_table [of p tick t] alive_lookup [OF assms] by auto
qed

lemma alive_dnat:
  assumes "alive k port start now t" "nat_ok t" "now \<le> unat tick"
  shows "alive k port start (unat tick) (snd (dnat_ipv4 p tick t))"
proof -
  have keep: "alive k port start (unat tick) t"
    using assms(1,3) unfolding alive_def by (blast intro: order_trans)
  have "alive k port start (unat tick) (t\<lparr>nat_entries := bt_insert k' (touch_entry tick e) (nat_entries t)\<rparr>)"
    if "bt_get (nat_entries t) k' = Some e" for k' e
    using assms(1) that by (intro alive_update [OF assms(1) nat_okD(1) [OF assms(2)] assms(3)]) (auto simp: alive_def touch_entry_def)
  then show ?thesis
    using dnat_table [of p tick t] keep by auto
qed

lemma alive_promote:
  assumes "alive k port start now t" "nat_ok t"
  shows "alive k port start now (promote_tcp_to_established a p b q t)" "alive k port start now (mark_tcp_closing a p b q t)"
proof -
  have "alive k port start now (t\<lparr>nat_entries := bt_insert k' (e\<lparr>ne_state := st\<rparr>) (nat_entries t)\<rparr>)"
    if "bt_get (nat_entries t) k' = Some e" "st \<notin> {IcmpActive, Other_State}" for k' e st
    using that by (intro alive_update [OF assms(1) nat_okD(1) [OF assms(2)] order_refl]) auto
  then show "alive k port start now (promote_tcp_to_established a p b q t)" "alive k port start now (mark_tcp_closing a p b q t)"
    using assms(1) by (simp_all add: promote_tcp_to_established_def mark_tcp_closing_def Let_def split: option.split)
qed

lemma lookup_or_create_setup:
  assumes "lookup_or_create k tick t = Some (port, t1)"
  shows "nat_enabled t1 = nat_enabled t" "external_ip t1 = external_ip t"
  using assms alloc_xlate_port_Some(4) by (cases k; fastforce simp: lookup_or_create_def Let_def split: option.splits)+

lemma remove_all_setup:
  "nat_enabled (fold remove_session ks t) = nat_enabled t \<and> external_ip (fold remove_session ks t) = external_ip t"
  by (induction ks arbitrary: t) (auto simp: remove_session_def free_xlate_port_def split: option.split)

lemma run_nat_setup:
  assumes "timely now limit (ev # evs)"
  shows "nat_enabled (run_nat ev t) = nat_enabled t" "external_ip (run_nat ev t) = external_ip t"
proof -
  have s: "nat_enabled (snd (snat_ipv4 p tick t)) = nat_enabled t \<and> external_ip (snd (snat_ipv4 p tick t)) = external_ip t" for p tick
    using snat_table [of p tick t] lookup_or_create_setup by metis
  have d: "nat_enabled (snd (dnat_ipv4 p tick t)) = nat_enabled t \<and> external_ip (snd (dnat_ipv4 p tick t)) = external_ip t" for p tick
    using dnat_table [of p tick t] by auto
  show "nat_enabled (run_nat ev t) = nat_enabled t" "external_ip (run_nat ev t) = external_ip t"
    using assms s d by (cases ev; simp add: nat_sweep_expired_def Let_def remove_all_setup
      promote_tcp_to_established_def mark_tcp_closing_def split: option.split)+
qed

lemma alive_run:
  assumes "alive k port start now t" "nat_ok t" "timely now (start + 6000) evs"
  defines "t' \<equiv> fold run_nat evs t"
  shows "(\<exists>now'. alive k port start now' t') \<and> nat_ok t' \<and> nat_enabled t' = nat_enabled t \<and> external_ip t' = external_ip t"
  using assms(1-3) unfolding t'_def
proof (induction evs arbitrary: now t)
  case (Cons ev evs)
  have typed: "event_typed ev"
    using Cons.prems(3) by (cases ev) auto
  have ok: "nat_ok (run_nat ev t)"
    by (rule nat_ok_event [OF Cons.prems(2) typed])
  obtain now' where a: "alive k port start now' (run_nat ev t)" and ti: "timely now' (start + 6000) evs"
    using Cons.prems by (cases ev) (fastforce intro: alive_snat alive_dnat alive_sweep alive_promote)+
  show ?case
    using Cons.IH [OF a ok ti] run_nat_setup [OF Cons.prems(3), of t] by simp
qed auto

section \<open>Replies\<close>

lemma lookup_or_create_alive:
  assumes "lookup_or_create k tick t = Some (port, t1)" "nat_ok t" "key_protocol k = 6 \<or> key_protocol k = 17"
  shows "alive k port (unat tick) (unat tick) t1"
proof (cases "bt_get (nat_entries t) k")
  case (Some e)
  then show ?thesis
    using assms(1,3) nat_okD(1) [OF assms(2)] sessions_okD(5) [OF nat_okD(4) [OF assms(2)] Some]
    by (auto simp: lookup_or_create_def alive_def bt_get_insert flow_state_def)
next
  case None
  then show ?thesis
    using assms(1,3) nat_okD(1) [OF assms(2)] alloc_xlate_port_Some(4)
    by (cases k) (fastforce simp: lookup_or_create_def alive_def bt_get_insert session_state_def key_protocol_def Let_def split: option.splits)
qed


lemma dnat_eq:
  assumes "nat_enabled t" "parse_ipv4_header r = Some (h, m)" "destination h = external_ip t" "r ! 9 = 6 \<or> r ! 9 = 17"
    "bt_get (xlate_to_key t) (field16 r (m + 2)) = Some k" "bt_get (nat_entries t) k = Some e" "m + csum_offset (r ! 9) + 2 \<le> length r"
  shows "dnat_ipv4 r tick t =
    (dnat_transport m (r ! 9) (ne_src_port e) (external_ip t) (ne_src_ip e) r (rewrite_ip 16 (external_ip t) (ne_src_ip e) r),
     t\<lparr>nat_entries := bt_insert k (touch_entry tick e) (nat_entries t)\<rparr>)"
proof -
  have p: "protocol_to_u8 (protocol h) = r ! 9"
    unfolding parse_ipv4_header_Some(1) [OF assms(2)] by (simp add: header_fields_def)
  have "m + 4 \<le> length r"
    using assms(7) csum_offset_cases [OF assms(4)] by auto
  then have "session_ports r m (r ! 9) = Some (field16 r m, field16 r (m + 2))"
    using assms(4) by (auto simp: session_ports_def extract_tcp_udp_ports_def)
  then show ?thesis
    using assms by (auto simp: dnat_ipv4_def p Let_def)
qed

lemma dnat_packet:
  assumes "20 \<le> m" "proto = 6 \<or> proto = 17" "m + csum_offset proto + 2 \<le> length r" "length ip = 4" "old = take 4 (drop 16 r)"
  obtains c r' where "dnat_transport m proto port old ip r (rewrite_ip 16 old ip r) = Some r'" "length r' = length r"
    "take m r' = take m (rewrite_ip 16 old ip r)"
    "drop m r' = (if field16 (drop m r) (csum_offset proto) = 0 then copy_slice 2 (u16_to_be port) (drop m r)
       else copy_slice (csum_offset proto) (u16_to_be c) (copy_slice 2 (u16_to_be port) (drop m r)))"
    "c = update_transport_checksum_after_nat (field16 (drop m r) (csum_offset proto)) (field16 (drop m r) 2) port old ip"
proof -
  let ?off = "csum_offset proto" and ?w = "rewrite_ip 16 old ip r"
  define c where "c = update_transport_checksum_after_nat (field16 (drop m r) ?off) (field16 (drop m r) 2) port old ip"
  define r1 where "r1 = copy_slice (m + 2) (u16_to_be port) ?w"
  define r' where "r' = (if field16 (drop m r) ?off = 0 then r1 else copy_slice (m + ?off) (u16_to_be c) r1)"
  have off: "4 \<le> ?off"
    using csum_offset_cases [OF assms(2)] by auto
  have m: "m \<le> length r"
    using assms(3) by simp
  note R = rewrite_ip_facts [of 16 ip m r old, OF _ assms(4,1) m assms(5), simplified]
  have l: "length r1 = length r"
    unfolding r1_def using R(1) assms(3) off by simp
  have d1: "drop m r1 = copy_slice 2 (u16_to_be port) (drop m r)" "take m r1 = take m ?w"
    unfolding r1_def using drop_copy_slice [of m "m + 2" "u16_to_be port" ?w] take_copy_slice_other [of "m + 2" "u16_to_be port" ?w m]
      R(1,5) assms(3) off by simp_all
  have f: "field16 r1 (m + ?off) = field16 (drop m r) ?off" "field16 r (m + 2) = field16 (drop m r) 2"
  proof -
    have "field16 ?w (m + ?off) = field16 (drop m ?w) ?off"
      using R(1) assms(3) by (simp add: field16_def add.assoc)
    then show "field16 r1 (m + ?off) = field16 (drop m r) ?off"
      unfolding r1_def using field16_copy_slice_other [of "m + 2" "u16_to_be port" ?w "m + ?off"] R(1,5) assms(3) off by simp
    show "field16 r (m + 2) = field16 (drop m r) 2"
      using assms(3) off by (simp add: field16_drop)
  qed
  show thesis
  proof (rule that [of r' c])
    show "dnat_transport m proto port old ip r ?w = Some r'"
      using assms(3) f(2) f(1) [unfolded r1_def] by (simp add: dnat_transport_def Let_def r'_def r1_def c_def)
    show "length r' = length r"
      using l assms(3) by (simp add: r'_def)
    show "take m r' = take m ?w"
      using take_copy_slice_other [of "m + ?off" "u16_to_be c" r1 m] d1(2) l assms(3) by (simp add: r'_def)
    show "drop m r' = (if field16 (drop m r) ?off = 0 then copy_slice 2 (u16_to_be port) (drop m r)
       else copy_slice ?off (u16_to_be c) (copy_slice 2 (u16_to_be port) (drop m r)))"
      using drop_copy_slice [of m "m + ?off" "u16_to_be c" r1] d1(1) l assms(3) by (simp add: r'_def)
  qed (rule c_def)
qed

lemma header_fields_rewrite_dst:
  assumes "length new = 4" "20 \<le> length p" "old = take 4 (drop 16 p)"
  shows "\<exists>c. header_fields (rewrite_ip 16 old new p) = (header_fields p)\<lparr>destination := new, header_checksum := c\<rparr>"
proof -
  let ?r = "rewrite_ip 16 old new p"
  note R = rewrite_ip_facts [of 16 new 20 p old, OF _ assms(1) order_refl assms(2,3), simplified]
  have at: "?r ! i = p ! i" if "i < 10" for i
    using arg_cong [OF R(3) [of 0 10], of "\<lambda>l. l ! i"] that by simp
  have "take 4 (drop 12 ?r) = take 4 (drop 12 p)"
    using R(3) [of 12 4] by simp
  then show ?thesis
    using R(2) by (intro exI [of _ "header_checksum (header_fields ?r)"] ipv4_header.equality) (simp_all add: header_fields_def at)
qed

text \<open>An inbound packet to the port of a session is handed to the host of that session.\<close>

lemma dnat_delivers:
  assumes "nat_ok t" "nat_enabled t" "parse_ipv4_header r = Some (h, m)" "destination h = external_ip t" "r ! 9 = 6 \<or> r ! 9 = 17"
    "bt_get (nat_entries t) k = Some e" "xlate_port e = field16 r (m + 2)" "m + csum_offset (r ! 9) + 2 \<le> length r"
  shows "\<exists>r' c. fst (dnat_ipv4 r tick t) = Some r' \<and>
    header_fields r' = h\<lparr>destination := fst k, header_checksum := c\<rparr> \<and> field16 r' (m + 2) = fst (snd k) \<and> length r' = length r"
proof -
  note S = sessions_okD [OF nat_okD(4) [OF assms(1)]] and P = parse_ipv4_header_Some [OF assms(3)]
  have off: "4 \<le> csum_offset (r ! 9)"
    using csum_offset_cases [OF assms(5)] by auto
  have X: "bt_get (xlate_to_key t) (field16 r (m + 2)) = Some k"
    using S(1) [OF assms(6)] assms(7) by simp
  have e: "ne_src_ip e = fst k" "ne_src_port e = fst (snd k)" "length (fst k) = 4"
    using S(2-4) [OF assms(6)] by simp_all
  have old: "external_ip t = take 4 (drop 16 r)"
    using assms(4) unfolding P(1) by (simp add: header_fields_def)
  obtain c r' where R: "dnat_transport m (r ! 9) (fst (snd k)) (external_ip t) (fst k) r (rewrite_ip 16 (external_ip t) (fst k) r) = Some r'"
    "length r' = length r" "take m r' = take m (rewrite_ip 16 (external_ip t) (fst k) r)"
    "drop m r' = (if field16 (drop m r) (csum_offset (r ! 9)) = 0 then copy_slice 2 (u16_to_be (fst (snd k))) (drop m r)
       else copy_slice (csum_offset (r ! 9)) (u16_to_be c) (copy_slice 2 (u16_to_be (fst (snd k))) (drop m r)))"
    by (rule dnat_packet [OF P(3) assms(5,8) e(3) old]) (rule that)
  have len: "length (rewrite_ip 16 (external_ip t) (fst k) r) = length r"
    using rewrite_ip_facts(1) [of 16 "fst k" m r "external_ip t"] e(3) P(3,4) old by simp
  obtain c' where "header_fields (rewrite_ip 16 (external_ip t) (fst k) r) = (header_fields r)\<lparr>destination := fst k, header_checksum := c'\<rparr>"
    using header_fields_rewrite_dst [OF e(3) _ old] P(3,4) by auto
  then have hf: "header_fields r' = h\<lparr>destination := fst k, header_checksum := c'\<rparr>"
    using arg_cong [OF R(3), of header_fields] header_fields_take [of m r'] header_fields_take [of m "rewrite_ip 16 (external_ip t) (fst k) r"]
      P(1,3,4) R(2) len by simp
  have "field16 r' (m + 2) = field16 (drop m r') 2"
    using R(2) assms(8) off by (simp add: field16_drop)
  also have "\<dots> = fst (snd k)"
    unfolding R(4) using field16_copy_slice_other [of "csum_offset (r ! 9)" "u16_to_be c" "copy_slice 2 (u16_to_be (fst (snd k))) (drop m r)" 2]
      assms(8) off by simp
  finally show ?thesis
    using dnat_eq [OF assms(2-5) X assms(6,8), of tick] R(1,2) hf e by auto
qed


section \<open>Properties\<close>

text \<open>A UDP packet from an internal host, the same without a checksum, and the reply to the first.\<close>

definition example_packet :: "u8 list" where
  "example_packet = [69, 0, 0, 28, 0, 7, 64, 0, 64, 17, 32, 185, 10, 0, 0, 2, 8, 8, 8, 8, 4, 210, 0, 53, 0, 8, 224, 197]"

definition example_unchecked :: "u8 list" where
  "example_unchecked = [69, 0, 0, 28, 0, 7, 64, 0, 64, 17, 32, 185, 10, 0, 0, 2, 8, 8, 8, 8, 4, 210, 0, 53, 0, 8, 0, 0]"

definition example_reply :: "u8 list" where
  "example_reply = [69, 0, 0, 28, 0, 7, 64, 0, 64, 17, 38, 181, 8, 8, 8, 8, 1, 2, 3, 4, 0, 53, 128, 0, 0, 8, 107, 147]"

definition example_table :: nat_table where
  "example_table = fold run_nat [Enable [1, 2, 3, 4]] new_nat_table"

definition example_sent :: "u8 list" where
  "example_sent = the (fst (snat_ipv4 example_packet 5 example_table))"

lemma example_snat: "snat_ipv4 example_packet 5 example_table = (Some example_sent, snd (snat_ipv4 example_packet 5 example_table))"
proof -
  have "fst (snat_ipv4 example_packet 5 example_table) \<noteq> None"
    by code_simp
  then show ?thesis
    by (simp add: example_sent_def prod_eq_iff)
qed

lemma example_headers:
  "parse_ipv4_header example_packet = Some (header_fields example_packet, 20)"
  "parse_ipv4_header example_reply = Some (header_fields example_reply, 20)"
  "destination (header_fields example_reply) = source (header_fields example_sent)"
  "field16 example_reply (20 + 2) = field16 example_sent 20"
  "20 + csum_offset (example_reply ! 9) + 2 \<le> length example_reply"
  "example_packet ! 9 = 6 \<or> example_packet ! 9 = 17" "example_reply ! 9 = 6 \<or> example_reply ! 9 = 17"
  by code_simp+

lemma nat_ok_reachable: "list_all event_typed evs \<Longrightarrow> nat_ok (fold run_nat evs new_nat_table)"
  by (rule nat_ok_run [OF nat_ok_new])

text \<open>C30: whatever packets are translated and whenever the table is swept, every session has a port of its
  own from the configured range, the ports marked allocated are exactly the ports of sessions, and the
  table never exceeds its bound.\<close>

theorem nat_ports_unique:
  assumes "list_all event_typed evs" "t = fold run_nat evs new_nat_table"
  shows "inj_on (\<lambda>k. map_option xlate_port (bt_get (nat_entries t) k)) (dom (bt_get (nat_entries t))) \<and>
    dom (bt_get (allocated_ports t)) = xlate_port ` ran (bt_get (nat_entries t)) \<and>
    (\<forall>e \<in> ran (bt_get (nat_entries t)). 32768 \<le> unat (xlate_port e) \<and> unat (xlate_port e) \<le> 60999) \<and>
    length (nat_entries t) \<le> MAX_NAT_ENTRIES"
proof (intro conjI)
  have ok: "nat_ok t"
    unfolding assms(2) by (rule nat_ok_reachable [OF assms(1)])
  note N = nat_okD [OF ok] and S = sessions_okD [OF nat_okD(4) [OF ok]]
  show "inj_on (\<lambda>k. map_option xlate_port (bt_get (nat_entries t) k)) (dom (bt_get (nat_entries t)))"
  proof (rule inj_onI)
    fix k k'
    assume "k \<in> dom (bt_get (nat_entries t))" "k' \<in> dom (bt_get (nat_entries t))"
    then obtain e e' where e: "bt_get (nat_entries t) k = Some e" "bt_get (nat_entries t) k' = Some e'"
      by blast
    assume "map_option xlate_port (bt_get (nat_entries t) k) = map_option xlate_port (bt_get (nat_entries t) k')"
    then show "k = k'"
      using S(1) [OF e(1)] S(1) [OF e(2)] e by simp
  qed
  show "dom (bt_get (allocated_ports t)) = xlate_port ` ran (bt_get (nat_entries t))"
  proof (rule set_eqI)
    fix p
    have "p \<in> dom (bt_get (allocated_ports t)) \<longleftrightarrow> (\<exists>k. bt_get (xlate_to_key t) p = Some k)"
      using N(5) [of p] by blast
    also have "\<dots> \<longleftrightarrow> p \<in> xlate_port ` ran (bt_get (nat_entries t))"
      using S(1,7) unfolding ran_def image_def by blast
    finally show "p \<in> dom (bt_get (allocated_ports t)) \<longleftrightarrow> p \<in> xlate_port ` ran (bt_get (nat_entries t))" .
  qed
  show "\<forall>e \<in> ran (bt_get (nat_entries t)). 32768 \<le> unat (xlate_port e) \<and> unat (xlate_port e) \<le> 60999"
    using S(1,6) unfolding ran_def nat_port_def by blast
  show "length (nat_entries t) \<le> MAX_NAT_ENTRIES"
    by (rule N(6))
qed

theorem nat_ports_unique_witness:
  "let t = fold run_nat [Enable [1, 2, 3, 4], Outbound example_packet 5] new_nat_table
   in nat_entries t \<noteq> [] \<and> dom (bt_get (allocated_ports t)) = xlate_port ` ran (bt_get (nat_entries t)) \<and>
      inj_on (\<lambda>k. map_option xlate_port (bt_get (nat_entries t) k)) (dom (bt_get (nat_entries t)))"
proof -
  have "nat_entries (fold run_nat [Enable [1, 2, 3, 4], Outbound example_packet 5] new_nat_table) \<noteq> []"
    by code_simp
  then show ?thesis
    using nat_ports_unique [OF _ refl, of "[Enable [1, 2, 3, 4], Outbound example_packet 5]"] unfolding Let_def by simp
qed

text \<open>C15: a reply to a translated TCP or UDP packet reaches its sender: if it comes back to the address and
  port the packet left with, within the shortest timeout and after any other traffic and sweeps, it is
  rewritten to the address and port of the host that sent the packet.\<close>

theorem nat_reply_reaches_sender:
  assumes "list_all event_typed before" "t = fold run_nat before new_nat_table"
    and "p ! 9 = 6 \<or> p ! 9 = 17" "snat_ipv4 p tick t = (Some q, t1)" "parse_ipv4_header p = Some (g, n)"
    and "timely (unat tick) (unat tick + 6000) evs"
    and "parse_ipv4_header r = Some (h, m)" "r ! 9 = 6 \<or> r ! 9 = 17" "m + csum_offset (r ! 9) + 2 \<le> length r"
    and "destination h = source (header_fields q)" "field16 r (m + 2) = field16 q n"
  shows "\<exists>r' c. fst (dnat_ipv4 r now (fold run_nat evs t1)) = Some r' \<and>
    header_fields r' = h\<lparr>destination := source g, header_checksum := c\<rparr> \<and> field16 r' (m + 2) = field16 p n \<and> length r' = length r"
proof -
  have ok: "nat_ok t"
    unfolding assms(2) by (rule nat_ok_reachable [OF assms(1)])
  let ?src = "take 4 (drop 12 p)"
  have P: "g = header_fields p" "n = unat (p ! 0 AND 0x0F) * 4" "20 \<le> n" "n \<le> length p"
    using parse_ipv4_header_Some [OF assms(5)] by blast+
  define k where "k = (?src, field16 p n, take 4 (drop 16 p), field16 p (n + 2), p ! 9)"
  obtain port where L: "lookup_or_create k tick t = Some (port, t1)" and len: "length q = length p" "n + csum_offset (p ! 9) + 2 \<le> length p"
    and tq: "take n q = take n (rewrite_ip 12 ?src (external_ip t) p)"
    and dq: "drop n q = copy_slice (csum_offset (p ! 9)) (u16_to_be (update_transport_checksum_after_nat
        (field16 (drop n p) (csum_offset (p ! 9))) (field16 (drop n p) 0) port ?src (external_ip t)))
      (copy_slice 0 (u16_to_be port) (drop n p))"
    by (rule snat_packet [OF assms(4,3) nat_okD(7) [OF ok], folded P(2)]) (auto simp: k_def)
  have off: "2 \<le> csum_offset (p ! 9)"
    using csum_offset_cases [OF assms(3)] by auto
  have src: "source (header_fields q) = external_ip t"
    using header_fields_rewrite_src [OF nat_okD(7) [OF ok], of p ?src] arg_cong [OF tq, of header_fields] P(3,4) len(1)
      header_fields_take [of n q] header_fields_take [of n "rewrite_ip 12 ?src (external_ip t) p"]
      rewrite_ip_facts(1) [of 12 "external_ip t" n p ?src] nat_okD(7) [OF ok] by auto
  have "field16 q n = field16 (drop n q) 0"
    using len by (simp add: field16_drop)
  also have "\<dots> = port"
    unfolding dq using field16_copy_slice_other [of "csum_offset (p ! 9)" _ "copy_slice 0 (u16_to_be port) (drop n p)" 0] off len by simp
  finally have port: "field16 q n = port" .
  have a: "alive k port (unat tick) (unat tick) t1"
    by (rule lookup_or_create_alive [OF L ok]) (use assms(3) in \<open>simp add: k_def key_protocol_def\<close>)
  have ok1: "nat_ok t1"
    using nat_ok_snat [OF ok, of p tick] assms(4) by simp
  obtain now' where A: "alive k port (unat tick) now' (fold run_nat evs t1)" and ok2: "nat_ok (fold run_nat evs t1)"
    and set: "nat_enabled (fold run_nat evs t1) = nat_enabled t1" "external_ip (fold run_nat evs t1) = external_ip t1"
    using alive_run [OF a ok1 assms(6)] by blast
  have en: "nat_enabled t1" "external_ip t1 = external_ip t"
    using lookup_or_create_setup [OF L] snat_Some [OF assms(4,3)] by blast+
  obtain e where e: "bt_get (nat_entries (fold run_nat evs t1)) k = Some e" "xlate_port e = port"
    using A unfolding alive_def by blast
  have "source g = fst k" "field16 p n = fst (snd k)"
    by (simp_all add: P(1) k_def header_fields_def)
  then show ?thesis
    using dnat_delivers [OF ok2 _ assms(7) _ assms(8) e(1) _ assms(9), of now] set en assms(10,11) src port e(2) by simp
qed


theorem nat_reply_reaches_sender_witness:
  "\<exists>r'. fst (dnat_ipv4 example_reply 4000
       (fold run_nat [Outbound example_unchecked 6, Sweep 3500] (snd (snat_ipv4 example_packet 5 example_table)))) = Some r' \<and>
     destination (header_fields r') = [10, 0, 0, 2] \<and> field16 r' 22 = 1234"
proof -
  have "timely (unat (5 :: u64)) (unat (5 :: u64) + 6000) [Outbound example_unchecked 6, Sweep 3500]"
    by simp
  moreover have "list_all event_typed [Enable [1, 2, 3, 4]]"
    by simp
  moreover have "source (header_fields example_packet) = [10, 0, 0, 2]" "field16 example_packet 20 = 1234"
    by code_simp+
  ultimately show ?thesis
    using nat_reply_reaches_sender [OF _ example_table_def example_headers(6) example_snat example_headers(1) _ example_headers(2,7,5,3,4)]
    by fastforce
qed

text \<open>C19: translation keeps packets valid.  If an outbound TCP packet, or an outbound UDP packet that carries a
  checksum, parses, the translated one parses to the same header with the external address as its
  source, and its receiver accepts it exactly when the receiver of the original would, except that a UDP
  checksum that comes out as zero makes the receiver accept the datagram unchecked.  A datagram sent
  without a checksum is not covered: \<open>nat_breaks_unchecked_udp\<close> shows what happens to it.\<close>

theorem snat_keeps_checksums:
  assumes "length (external_ip t) = 4" "parse_packet p = Inr a" "p ! 9 = 6 \<or> p ! 9 = 17 \<and> field16 (payload a) 6 \<noteq> 0"
    "snat_ipv4 p tick t = (Some q, t1)"
  shows "\<exists>b c. parse_packet q = Inr b \<and> header b = (header a)\<lparr>source := external_ip t, header_checksum := c\<rparr> \<and>
    length (payload b) = length (payload a) \<and>
    (receiver_accepts (external_ip t) (destination (header a)) (p ! 9) (payload b) \<longleftrightarrow>
     receiver_accepts (source (header a)) (destination (header a)) (p ! 9) (payload a) \<or> p ! 9 = 17 \<and> field16 (payload b) 6 = 0)"
proof -
  let ?src = "take 4 (drop 12 p)" and ?ext = "external_ip t" and ?off = "csum_offset (p ! 9)"
  define n where "n = unat (p ! 0 AND 0x0F) * 4"
  have proto: "p ! 9 = 6 \<or> p ! 9 = 17"
    using assms(3) by blast
  obtain port where len: "length q = length p" "unat (field16 p 2) = length p" "20 \<le> n" "n + ?off + 2 \<le> length p"
    and tq: "take n q = take n (rewrite_ip 12 ?src ?ext p)"
    and dq: "drop n q = copy_slice ?off (u16_to_be (update_transport_checksum_after_nat
        (field16 (drop n p) ?off) (field16 (drop n p) 0) port ?src ?ext)) (copy_slice 0 (u16_to_be port) (drop n p))"
    by (rule snat_packet [OF assms(4) proto assms(1), folded n_def]) (rule that)
  have n: "n \<le> length p"
    using len(4) by simp
  note R = rewrite_ip_facts [of 12 ?ext n p ?src, OF _ assms(1) len(3) n, simplified]
  have off: "2 \<le> ?off" "even ?off"
    using csum_offset_cases [OF proto] by auto
  have "take 4 (take n q) = take 4 (take n p)"
    unfolding tq using R(3) [of 0 4] len(3) by (simp add: min_def)
  then have t4: "take 4 (drop 0 q) = take 4 (drop 0 p)"
    using len(3) by (simp add: min_def)
  have dvd: "65535 dvd int (word_sum (take n q)) - int (word_sum (take n p))"
    unfolding tq using R(4) by simp
  have pq: "parse_packet q = Inr \<lparr>header = header_fields q, payload = take (unat (field16 p 2) - n) (drop n q)\<rparr>"
    using parse_packet_rewritten [OF assms(2) len(1) t4] dvd unfolding n_def by blast
  have pa: "a = \<lparr>header = header_fields p, payload = take (unat (field16 p 2) - n) (drop n p)\<rparr>"
    using assms(2) unfolding parse_packet_iff n_def Let_def by blast
  have pay: "take (unat (field16 p 2) - n) (drop n q) = drop n q" "take (unat (field16 p 2) - n) (drop n p) = drop n p"
    using len(1,2) by simp_all
  obtain c where hq: "header_fields q = (header_fields p)\<lparr>source := ?ext, header_checksum := c\<rparr>"
    using header_fields_rewrite_src [OF assms(1), of p ?src] arg_cong [OF tq, of header_fields] len(1,3) n R(1)
      header_fields_take [of n q] header_fields_take [of n "rewrite_ip 12 ?src ?ext p"] by auto
  have l4: "length ?src = 4" "length (destination (header_fields p)) = 4" "source (header_fields p) = ?src"
    using len(3) n by (simp_all add: header_fields_def)
  have small: "length (drop n p) < 65536" "length (drop n q) < 65536"
    using len(1,2) u16_less [of "field16 p 2"] by auto
  have z: "p ! 9 \<noteq> 0"
    using proto by auto
  have "65535 dvd int (transport_sum ?ext (destination (header_fields p)) (p ! 9) (drop n q)) -
      int (transport_sum ?src (destination (header_fields p)) (p ! 9) (drop n p))"
    by (rule transport_ok_rewritten(1) [OF l4(1) assms(1) l4(2) z small(1) off(2) _ _ _ refl dq]) (use len(4) off in auto)
  then have "transport_ok ?ext (destination (header_fields p)) (p ! 9) (drop n q) =
      transport_ok ?src (destination (header_fields p)) (p ! 9) (drop n p)"
    by (rule transport_ok_cong [OF l4(1,2) assms(1) l4(2) z small])
  then show ?thesis
    using pq hq l4(3) len(1) assms(3) unfolding pa pay receiver_accepts_def by auto
qed

theorem snat_keeps_checksums_witness:
  "\<exists>b. parse_packet example_sent = Inr b \<and> source (header b) = [1, 2, 3, 4] \<and>
     receiver_accepts [1, 2, 3, 4] [8, 8, 8, 8] 17 (payload b)"
proof -
  obtain a where a: "parse_packet example_packet = Inr a" and d: "destination (header a) = [8, 8, 8, 8]"
    "receiver_accepts (source (header a)) [8, 8, 8, 8] 17 (payload a)" "field16 (payload a) 6 \<noteq> 0"
  proof -
    have "case parse_packet example_packet of Inl _ \<Rightarrow> False | Inr a \<Rightarrow>
        destination (header a) = [8, 8, 8, 8] \<and> receiver_accepts (source (header a)) [8, 8, 8, 8] 17 (payload a) \<and>
        field16 (payload a) 6 \<noteq> 0"
      by code_simp
    then show thesis
      using that by (cases "parse_packet example_packet") auto
  qed
  have x: "external_ip example_table = [1, 2, 3, 4]" "example_packet ! 9 = 17"
    by code_simp+
  have "\<exists>b c. parse_packet example_sent = Inr b \<and> header b = (header a)\<lparr>source := external_ip example_table, header_checksum := c\<rparr> \<and>
      length (payload b) = length (payload a) \<and>
      (receiver_accepts (external_ip example_table) (destination (header a)) (example_packet ! 9) (payload b) \<longleftrightarrow>
       receiver_accepts (source (header a)) (destination (header a)) (example_packet ! 9) (payload a) \<or>
       example_packet ! 9 = 17 \<and> field16 (payload b) 6 = 0)"
    by (rule snat_keeps_checksums [OF _ a _ example_snat]) (simp_all add: x d)
  then show ?thesis
    using d x by auto
qed

text \<open>C38: the answer to a translated ICMP query is lost: outbound ICMP takes a port from the range, but an
  inbound ICMP packet is looked up under port zero, which no session ever has.\<close>

theorem nat_icmp_reply_lost:
  assumes "list_all event_typed evs" "r ! 9 = 1"
  shows "fst (dnat_ipv4 r now (fold run_nat evs new_nat_table)) = None"
proof -
  let ?t = "fold run_nat evs new_nat_table"
  have "bt_get (xlate_to_key ?t) 0 = None"
    using sessions_okD(6) [OF nat_okD(4) [OF nat_ok_reachable [OF assms(1)]], of 0]
    by (cases "bt_get (xlate_to_key ?t) 0") (auto simp: nat_port_def)
  moreover have "protocol_to_u8 (protocol h) = 1" if "parse_ipv4_header r = Some (h, m)" for h m
    unfolding parse_ipv4_header_Some(1) [OF that] by (simp add: header_fields_def assms(2))
  ultimately show ?thesis
    by (auto simp: dnat_ipv4_def session_ports_def Let_def split: option.split)
qed


theorem nat_icmp_reply_lost_witness:
  "fst (dnat_ipv4 (example_reply[9 := 1]) 6
     (fold run_nat [Enable [1, 2, 3, 4], Outbound (example_packet[9 := 1]) 5] new_nat_table)) = None"
  by (rule nat_icmp_reply_lost) (simp_all add: example_reply_def)

text \<open>A UDP datagram sent without a checksum (the field is zero) leaves translation with a field that is
  not zero and does not verify, so its receiver must drop it.\<close>

lemma nat_breaks_unchecked_udp:
  "case snat_ipv4 example_unchecked 5 example_table of
     (Some q, _) \<Rightarrow> field16 example_unchecked 26 = 0 \<and> field16 q 26 \<noteq> 0 \<and>
       receiver_accepts (source (header_fields example_unchecked)) [8, 8, 8, 8] 17 (drop 20 example_unchecked) \<and>
       \<not> receiver_accepts (external_ip example_table) [8, 8, 8, 8] 17 (drop 20 q)
   | _ \<Rightarrow> False"
  by code_simp

end
