(* ===== verification/Dns_Message.thy ===== *)
theory Dns_Message
  imports Ip_Packet_Proofs Btree_Map "HOL-Library.List_Lexorder"
begin

text \<open>
  DNS messages (\<open>src/network/dns/query.rs\<close>, \<open>parse.rs\<close>, \<open>cache.rs\<close> and the filter of \<open>resolve.rs\<close>): the
  query builders, the parsers of responses with their name decoding, and the response cache.  A message
  is a list of bytes and a hostname the list of its UTF-8 bytes; a dot is never part of a longer UTF-8
  sequence, so splitting at dots is the same on both.  A parser reads its input with \<open>byte_at\<close>, which is
  \<open>None\<close> outside the message: a parser that would panic on some input has the value \<open>None\<close> there.
\<close>

unbundle bit_operations_syntax

section \<open>Results that may panic\<close>

type_synonym 'a checked = "'a result option"

definition ok :: "'a \<Rightarrow> 'a checked" where "ok v = Some (Inr v)"
definition err :: "error \<Rightarrow> 'a checked" where "err e = Some (Inl e)"

definition bind_checked :: "'a checked \<Rightarrow> ('a \<Rightarrow> 'b checked) \<Rightarrow> 'b checked" where
  "bind_checked m f = (case m of None \<Rightarrow> None | Some (Inl e) \<Rightarrow> Some (Inl e) | Some (Inr v) \<Rightarrow> f v)"

definition byte_at :: "u8 list \<Rightarrow> nat \<Rightarrow> u8 checked" where
  "byte_at data i = (if i < length data then ok (data ! i) else None)"

definition slice_at :: "u8 list \<Rightarrow> nat \<Rightarrow> nat \<Rightarrow> u8 list checked" where
  "slice_at data i n = (if i + n \<le> length data then ok (take n (drop i data)) else None)"

definition u16_at :: "u8 list \<Rightarrow> nat \<Rightarrow> u16 checked" where
  "u16_at data i = bind_checked (byte_at data i) (\<lambda>a. bind_checked (byte_at data (i + 1)) (\<lambda>b. ok (u16_from_be a b)))"

definition u32_at :: "u8 list \<Rightarrow> nat \<Rightarrow> u32 checked" where
  "u32_at data i = bind_checked (byte_at data i) (\<lambda>a. bind_checked (byte_at data (i + 1)) (\<lambda>b.
     bind_checked (byte_at data (i + 2)) (\<lambda>c. bind_checked (byte_at data (i + 3)) (\<lambda>d. ok (u32_from_be a b c d)))))"

lemma bind_checked_cong [fundef_cong]:
  "m = m' \<Longrightarrow> (\<And>v. m' = Some (Inr v) \<Longrightarrow> f v = g v) \<Longrightarrow> bind_checked m f = bind_checked m' g"
  by (auto simp: bind_checked_def split: option.split sum.split)

section \<open>Constants\<close>

definition DNS_HEADER_SIZE :: nat where "DNS_HEADER_SIZE = 12"
definition DNS_FLAGS_QR_RESPONSE :: u16 where "DNS_FLAGS_QR_RESPONSE = 0x8000"
definition DNS_FLAGS_OPCODE_QUERY :: u16 where "DNS_FLAGS_OPCODE_QUERY = 0"
definition DNS_FLAGS_RD :: u16 where "DNS_FLAGS_RD = 0x0100"
definition DNS_FLAGS_RCODE_MASK :: u16 where "DNS_FLAGS_RCODE_MASK = 0x000F"
definition DNS_RCODE_NXDOMAIN :: u16 where "DNS_RCODE_NXDOMAIN = 3"
definition DNS_TYPE_A :: u16 where "DNS_TYPE_A = 1"
definition DNS_TYPE_AAAA :: u16 where "DNS_TYPE_AAAA = 28"
definition DNS_CLASS_IN :: u16 where "DNS_CLASS_IN = 1"
definition DNS_TYPE_PTR :: u16 where "DNS_TYPE_PTR = 12"
definition DNS_TYPE_OPT :: u16 where "DNS_TYPE_OPT = 41"
definition DNS_EDNS0_UDP_PAYLOAD :: u16 where "DNS_EDNS0_UDP_PAYLOAD = 4096"
definition DNS_FIXED_QUERY_ID :: u16 where "DNS_FIXED_QUERY_ID = 1"

section \<open>Queries\<close>

text \<open>\<open>name.split('.')\<close>: one piece more than there are dots, pieces may be empty.\<close>

fun split_dots :: "u8 list \<Rightarrow> u8 list list" where
  "split_dots [] = [[]]"
| "split_dots (c # cs) =
     (if c = 46 then [] # split_dots cs
      else case split_dots cs of [] \<Rightarrow> [[c]] | l # ls \<Rightarrow> (c # l) # ls)"

definition encode_label :: "u8 list \<Rightarrow> u8 list" where
  "encode_label label = (let len = min (length label) 63 in of_nat len # take len label)"

definition encode_dns_name :: "u8 list \<Rightarrow> u8 list" where
  "encode_dns_name name = concat (map encode_label (split_dots name)) @ [0]"

definition query_header :: "u16 \<Rightarrow> u16 \<Rightarrow> u16 \<Rightarrow> u8 list" where
  "query_header ident qdcount arcount =
     u16_to_be ident @ u16_to_be (DNS_FLAGS_OPCODE_QUERY OR DNS_FLAGS_RD) @ u16_to_be qdcount @ [0, 0, 0, 0] @ u16_to_be arcount"

definition build_query_with_type :: "u16 \<Rightarrow> u8 list \<Rightarrow> u16 \<Rightarrow> u8 list" where
  "build_query_with_type ident name qtype =
     query_header ident 1 0 @ encode_dns_name name @ u16_to_be qtype @ u16_to_be DNS_CLASS_IN"

definition build_query :: "u8 list \<Rightarrow> u8 list" where
  "build_query name = build_query_with_type DNS_FIXED_QUERY_ID name DNS_TYPE_A"

definition build_query_with_id :: "u16 \<Rightarrow> u8 list \<Rightarrow> u8 list" where
  "build_query_with_id ident name = build_query_with_type ident name DNS_TYPE_A"

definition build_query_aaaa :: "u8 list \<Rightarrow> u8 list" where
  "build_query_aaaa name = build_query_with_type DNS_FIXED_QUERY_ID name DNS_TYPE_AAAA"

definition build_query_aaaa_with_id :: "u16 \<Rightarrow> u8 list \<Rightarrow> u8 list" where
  "build_query_aaaa_with_id ident name = build_query_with_type ident name DNS_TYPE_AAAA"

definition build_query_a_edns0 :: "u8 list \<Rightarrow> u8 list" where
  "build_query_a_edns0 name =
     query_header DNS_FIXED_QUERY_ID 1 1 @ encode_dns_name name @ u16_to_be DNS_TYPE_A @ u16_to_be DNS_CLASS_IN @
     [0] @ u16_to_be DNS_TYPE_OPT @ u16_to_be DNS_EDNS0_UDP_PAYLOAD @ replicate 6 0"

text \<open>\<open>{}\<close> of a byte: its decimal digits; \<open>{:x}\<close> of a nibble: one hexadecimal digit.\<close>

definition decimal_u8 :: "u8 \<Rightarrow> u8 list" where
  "decimal_u8 b =
     (let n = unat b; digit = (\<lambda>d. of_nat (48 + d) :: u8)
      in if n < 10 then [digit n]
         else if n < 100 then [digit (n div 10), digit (n mod 10)]
         else [digit (n div 100), digit (n div 10 mod 10), digit (n mod 10)])"

definition hex_digit :: "u8 \<Rightarrow> u8" where
  "hex_digit d = (if d < 10 then 48 + d else 87 + d)"

definition in_addr_arpa :: "u8 list" where
  "in_addr_arpa = [105, 110, 45, 97, 100, 100, 114, 46, 97, 114, 112, 97]"

definition ip6_arpa :: "u8 list" where
  "ip6_arpa = [105, 112, 54, 46, 97, 114, 112, 97]"

definition build_query_ptr_v4 :: "ipv4_addr \<Rightarrow> u8 list" where
  "build_query_ptr_v4 addr =
     build_query_with_type DNS_FIXED_QUERY_ID
       (decimal_u8 (addr ! 3) @ [46] @ decimal_u8 (addr ! 2) @ [46] @ decimal_u8 (addr ! 1) @ [46] @
        decimal_u8 (addr ! 0) @ [46] @ in_addr_arpa) DNS_TYPE_PTR"

definition build_query_ptr_v6 :: "ipv6_addr \<Rightarrow> u8 list" where
  "build_query_ptr_v6 addr =
     build_query_with_type DNS_FIXED_QUERY_ID
       (concat (map (\<lambda>byte. [hex_digit (drop_bit 4 byte), 46, hex_digit (byte AND 0x0F), 46]) (rev addr)) @ ip6_arpa)
       DNS_TYPE_PTR"

section \<open>Names in a message\<close>

function skip_name :: "u8 list \<Rightarrow> nat \<Rightarrow> nat checked" where
  "skip_name data pos =
     (if length data \<le> pos then err DeviceError
      else bind_checked (byte_at data pos) (\<lambda>len.
        if len = 0 then ok (pos + 1)
        else if len AND 0xC0 = 0xC0 then ok (pos + 2)
        else skip_name data (pos + 1 + unat len)))"
  by pat_completeness auto
termination
  by (relation "measure (\<lambda>(data, pos). length data - pos)") auto

declare skip_name.simps [simp del]

text \<open>\<open>name.push(b as char)\<close>: the byte becomes the character of that number, two bytes of UTF-8 from 0x80 on.\<close>

definition push_char :: "u8 \<Rightarrow> u8 list" where
  "push_char b = (if b < 0x80 then [b] else [0xC0 OR drop_bit 6 b, 0x80 OR (b AND 0x3F)])"

definition push_chars :: "u8 list \<Rightarrow> u8 list" where
  "push_chars bytes = concat (map push_char bytes)"

function read_name_loop :: "u8 list \<Rightarrow> u8 list \<Rightarrow> nat \<Rightarrow> nat \<Rightarrow> u8 list checked" where
  "read_name_loop data name pos jumps =
     (if length data \<le> pos then err DeviceError
      else bind_checked (byte_at data pos) (\<lambda>len.
        if len = 0 then ok name
        else if len AND 0xC0 = 0xC0
        then if length data \<le> pos + 1 then err DeviceError
             else bind_checked (byte_at data (pos + 1)) (\<lambda>low.
               let offset = unat (len AND 0x3F) * 256 + unat low
               in if 10 < jumps + 1 then err DeviceError else read_name_loop data name offset (jumps + 1))
        else if length data < pos + 1 + unat len then err DeviceError
        else bind_checked (slice_at data (pos + 1) (unat len)) (\<lambda>label.
          read_name_loop data ((if name = [] then [] else name @ [46]) @ push_chars label) (pos + 1 + unat len) jumps)))"
  by pat_completeness auto
termination
  by (relation "measures [\<lambda>(data, name, pos, jumps). 11 - jumps, \<lambda>(data, name, pos, jumps). length data - pos]") auto

declare read_name_loop.simps [simp del]

definition read_name :: "u8 list \<Rightarrow> nat \<Rightarrow> u8 list checked" where
  "read_name data start_pos = read_name_loop data [] start_pos 0"

section \<open>Responses\<close>

definition response_counts :: "u8 list \<Rightarrow> (u16 \<times> u16) checked" where
  "response_counts response =
     (if length response < DNS_HEADER_SIZE then err DeviceError
      else bind_checked (u16_at response 2) (\<lambda>flags.
        bind_checked (u16_at response 4) (\<lambda>qdcount.
        bind_checked (u16_at response 6) (\<lambda>ancount.
        let rcode = flags AND DNS_FLAGS_RCODE_MASK
        in if flags AND DNS_FLAGS_QR_RESPONSE = 0 then err DeviceError
           else if rcode = DNS_RCODE_NXDOMAIN then err NotFound
           else if rcode \<noteq> 0 then err DeviceError
           else if ancount = 0 then err TimedOut
           else ok (qdcount, ancount)))))"

fun skip_questions :: "u8 list \<Rightarrow> nat \<Rightarrow> nat \<Rightarrow> nat checked" where
  "skip_questions response 0 pos = ok pos"
| "skip_questions response (Suc n) pos =
     bind_checked (skip_name response pos) (\<lambda>pos1.
       case checked_add pos1 4 of
         None \<Rightarrow> err DeviceError
       | Some pos2 \<Rightarrow> if length response < pos2 then err DeviceError else skip_questions response n pos2)"

text \<open>The loop over the answers.  \<open>pick\<close> is what a parser does with a record of a type, lifetime and length at
  a position: \<open>None\<close> goes on to the next record.\<close>

fun scan_answers :: "(u16 \<Rightarrow> u32 \<Rightarrow> nat \<Rightarrow> nat \<Rightarrow> 'a checked option) \<Rightarrow> u8 list \<Rightarrow> nat \<Rightarrow> nat \<Rightarrow> 'a checked" where
  "scan_answers pick response 0 pos = err TimedOut"
| "scan_answers pick response (Suc n) pos =
     bind_checked (skip_name response pos) (\<lambda>pos1.
       if length response < pos1 + 10 then err DeviceError
       else bind_checked (u16_at response pos1) (\<lambda>rr_type.
         bind_checked (u32_at response (pos1 + 4)) (\<lambda>rr_ttl.
         bind_checked (u16_at response (pos1 + 8)) (\<lambda>rdlength.
         let pos2 = pos1 + 10
         in if length response < pos2 + unat rdlength then err DeviceError
            else case pick rr_type rr_ttl pos2 (unat rdlength) of
              Some r \<Rightarrow> r
            | None \<Rightarrow> scan_answers pick response n (pos2 + unat rdlength)))))"

definition parse_response :: "(u16 \<Rightarrow> u32 \<Rightarrow> nat \<Rightarrow> nat \<Rightarrow> 'a checked option) \<Rightarrow> u8 list \<Rightarrow> 'a checked" where
  "parse_response pick response =
     bind_checked (response_counts response) (\<lambda>(qdcount, ancount).
       bind_checked (skip_questions response (unat qdcount) DNS_HEADER_SIZE) (\<lambda>pos.
         scan_answers pick response (unat ancount) pos))"

definition parse_a_record_with_ttl :: "u8 list \<Rightarrow> (ipv4_addr \<times> u32) checked" where
  "parse_a_record_with_ttl response =
     parse_response (\<lambda>rr_type rr_ttl pos rdlength.
       if rr_type = DNS_TYPE_A \<and> rdlength = 4
       then Some (bind_checked (slice_at response pos 4) (\<lambda>addr. ok (addr, rr_ttl))) else None) response"

definition parse_a_record :: "u8 list \<Rightarrow> ipv4_addr checked" where
  "parse_a_record response = bind_checked (parse_a_record_with_ttl response) (\<lambda>(addr, _). ok addr)"

definition parse_aaaa_record :: "u8 list \<Rightarrow> ipv6_addr checked" where
  "parse_aaaa_record response =
     parse_response (\<lambda>rr_type rr_ttl pos rdlength.
       if rr_type = DNS_TYPE_AAAA \<and> rdlength = 16 then Some (slice_at response pos 16) else None) response"

definition parse_ptr_record :: "u8 list \<Rightarrow> u8 list checked" where
  "parse_ptr_record response =
     parse_response (\<lambda>rr_type rr_ttl pos rdlength.
       if rr_type = DNS_TYPE_PTR then Some (read_name response pos) else None) response"

section \<open>The cache\<close>

definition DNS_CACHE_MIN_TTL_TICKS :: nat where "DNS_CACHE_MIN_TTL_TICKS = 60 * 100"
definition DNS_CACHE_MAX_TTL_TICKS :: nat where "DNS_CACHE_MAX_TTL_TICKS = 3600 * 100"

record cached_entry =
  cached_addr :: ipv4_addr
  expires_at :: nat

type_synonym dns_cache = "(u8 list, cached_entry) btree"

definition ascii_lower :: "u8 \<Rightarrow> u8" where
  "ascii_lower c = (if 65 \<le> c \<and> c \<le> 90 then c + 32 else c)"

definition lowercase_hostname :: "u8 list \<Rightarrow> u8 list" where
  "lowercase_hostname hostname = map ascii_lower hostname"

definition hosts_table :: "(u8 list \<times> ipv4_addr) list" where
  "hosts_table =
     [([108, 111, 99, 97, 108, 104, 111, 115, 116], [127, 0, 0, 1]),
      ([108, 111, 99, 97, 108, 104, 111, 115, 116, 46, 108, 111, 99, 97, 108, 100, 111, 109, 97, 105, 110], [127, 0, 0, 1]),
      ([103, 97, 116, 101, 119, 97, 121], [10, 0, 2, 2]),
      ([110, 97, 109, 101, 115, 101, 114, 118, 101, 114], [10, 0, 2, 3])]"

definition lookup_hosts :: "u8 list \<Rightarrow> ipv4_addr option" where
  "lookup_hosts hostname =
     map_option snd (find (\<lambda>(name, addr). lowercase_hostname name = lowercase_hostname hostname) hosts_table)"

definition cache_lookup :: "u8 list \<Rightarrow> nat \<Rightarrow> dns_cache \<Rightarrow> ipv4_addr option" where
  "cache_lookup hostname now cache =
     (case bt_get cache (lowercase_hostname hostname) of
        Some e \<Rightarrow> if now < expires_at e then Some (cached_addr e) else None
      | None \<Rightarrow> None)"

definition cache_insert :: "u8 list \<Rightarrow> ipv4_addr \<Rightarrow> nat \<Rightarrow> nat \<Rightarrow> dns_cache \<Rightarrow> dns_cache" where
  "cache_insert hostname addr ttl_ticks now cache =
     (let clamped_ttl = min (max ttl_ticks DNS_CACHE_MIN_TTL_TICKS) DNS_CACHE_MAX_TTL_TICKS
      in bt_insert (lowercase_hostname hostname)
           \<lparr>cached_addr = addr, expires_at = saturating_add now clamped_ttl\<rparr> cache)"

definition dns_evict_expired :: "nat \<Rightarrow> dns_cache \<Rightarrow> dns_cache" where
  "dns_evict_expired now cache = bt_retain (\<lambda>_ e. now < expires_at e) cache"

text \<open>One datagram taken from the socket while an A answer is awaited: only the configured server's answer
  with the identifier of the query is parsed, and a parsed one is cached.\<close>

definition DNS_PORT :: u16 where "DNS_PORT = 53"

definition accept_a_datagram ::
  "ipv4_addr \<Rightarrow> u8 list \<Rightarrow> u8 list \<Rightarrow> nat \<Rightarrow> (ipv4_addr \<times> u16 \<times> u8 list) \<Rightarrow> dns_cache \<Rightarrow> (ipv4_addr option \<times> dns_cache) option" where
  "accept_a_datagram dns_server transaction_id hostname now dgram cache =
     (case dgram of (src_ip, src_port, data) \<Rightarrow>
        if 2 \<le> length data \<and> src_ip = dns_server \<and> src_port = DNS_PORT \<and> take 2 data = transaction_id
        then case parse_a_record_with_ttl data of
            None \<Rightarrow> None
          | Some (Inl _) \<Rightarrow> Some (None, cache)
          | Some (Inr (addr, ttl_secs)) \<Rightarrow>
              Some (Some addr, cache_insert hostname addr (saturating_mul (unat ttl_secs) 100) now cache)
        else Some (None, cache))"

end
