(* ===== verification/Dns_Resolution.thy ===== *)
theory Dns_Resolution
  imports Dns_Message
begin

text \<open>
  What the DNS code promises: the parsers end without a panic on every input, names survive encoding and
  decoding, the first address record of a well-formed response is the one returned, and eviction does
  not change what the cache answers.
\<close>

unbundle bit_operations_syntax

section \<open>No input makes a parser panic\<close>

lemma bind_checked_simps [simp]:
  "bind_checked (ok v) f = f v" "bind_checked (err e) f = err e" "bind_checked None f = None"
  by (simp_all add: bind_checked_def ok_def err_def)

lemma ok_err_simps [simp]:
  "ok v \<noteq> None" "err e \<noteq> None" "ok v = ok w \<longleftrightarrow> v = w" "ok v \<noteq> err e" "err e \<noteq> ok v" "err e = err e' \<longleftrightarrow> e = e'"
  "ok v = Some (Inr w) \<longleftrightarrow> v = w"
  by (simp_all add: ok_def err_def)

definition no_panic :: "'a checked \<Rightarrow> bool" where
  "no_panic m \<longleftrightarrow> m \<noteq> None"

lemma no_panic_simps [simp]: "no_panic (ok v)" "no_panic (err e)" "\<not> no_panic None"
  by (simp_all add: no_panic_def)

lemma no_panic_bind: "no_panic m \<Longrightarrow> (\<And>v. m = ok v \<Longrightarrow> no_panic (f v)) \<Longrightarrow> no_panic (bind_checked m f)"
  by (auto simp: no_panic_def bind_checked_def ok_def split: option.split sum.split)

lemma bind_checked_ok: "bind_checked m f = ok w \<longleftrightarrow> (\<exists>v. m = ok v \<and> f v = ok w)"
  by (auto simp: bind_checked_def ok_def split: option.split sum.split)

lemma byte_at_ok [simp]: "i < length data \<Longrightarrow> byte_at data i = ok (data ! i)"
  by (simp add: byte_at_def)

lemma slice_at_ok [simp]: "i + n \<le> length data \<Longrightarrow> slice_at data i n = ok (take n (drop i data))"
  by (simp add: slice_at_def)

lemma u16_at_ok: "i + 2 \<le> length data \<Longrightarrow> u16_at data i = ok (u16_from_be (data ! i) (data ! (i + 1)))"
  by (simp add: u16_at_def)

lemma u32_at_ok:
  "i + 4 \<le> length data \<Longrightarrow> u32_at data i = ok (u32_from_be (data ! i) (data ! (i + 1)) (data ! (i + 2)) (data ! (i + 3)))"
  by (simp add: u32_at_def)

lemma no_panic_skip_name [simp]: "no_panic (skip_name data pos)"
proof (induction data pos rule: skip_name.induct)
  case (1 data pos)
  then show ?case
    by (subst skip_name.simps) auto
qed

lemma no_panic_read_name_loop [simp]: "no_panic (read_name_loop data name pos jumps)"
proof (induction data name pos jumps rule: read_name_loop.induct)
  case (1 data name pos jumps)
  then show ?case
    by (subst read_name_loop.simps) (auto simp: Let_def)
qed

lemma no_panic_response_counts [simp]: "no_panic (response_counts response)"
  by (simp add: response_counts_def DNS_HEADER_SIZE_def u16_at_ok Let_def)

lemma no_panic_skip_questions [simp]: "no_panic (skip_questions response n pos)"
  by (induction n arbitrary: pos) (auto intro!: no_panic_bind split: option.split)

lemma no_panic_scan_answers:
  assumes "\<And>ty ttl pos n r. pos + n \<le> length response \<Longrightarrow> pick ty ttl pos n = Some r \<Longrightarrow> no_panic r"
  shows "no_panic (scan_answers pick response n pos)"
proof (induction n arbitrary: pos)
  case (Suc n)
  show ?case
    unfolding scan_answers.simps
  proof (rule no_panic_bind)
    fix pos1
    show "no_panic (if length response < pos1 + 10 then err DeviceError
       else bind_checked (u16_at response pos1) (\<lambda>rr_type.
         bind_checked (u32_at response (pos1 + 4)) (\<lambda>rr_ttl.
         bind_checked (u16_at response (pos1 + 8)) (\<lambda>rdlength.
         let pos2 = pos1 + 10
         in if length response < pos2 + unat rdlength then err DeviceError
            else case pick rr_type rr_ttl pos2 (unat rdlength) of
              Some r \<Rightarrow> r
            | None \<Rightarrow> scan_answers pick response n (pos2 + unat rdlength)))))"
      using Suc.IH by (auto simp: u16_at_ok u32_at_ok Let_def split: option.split intro!: assms)
  qed simp
qed simp

lemma no_panic_parse_response:
  assumes "\<And>ty ttl pos n r. pos + n \<le> length response \<Longrightarrow> pick ty ttl pos n = Some r \<Longrightarrow> no_panic r"
  shows "no_panic (parse_response pick response)"
  unfolding parse_response_def
  by (rule no_panic_bind, simp) (auto intro!: no_panic_bind no_panic_scan_answers [OF assms])

section \<open>Bounds\<close>

lemma skip_name_eq:
  "skip_name data pos =
     (if length data \<le> pos then err DeviceError else if data ! pos = 0 then ok (pos + 1)
      else if data ! pos AND 0xC0 = 0xC0 then ok (pos + 2) else skip_name data (pos + 1 + unat (data ! pos)))"
  by (subst skip_name.simps) simp

lemma skip_name_progress: "skip_name data pos = ok p \<Longrightarrow> pos < p \<and> p \<le> length data + 1"
proof (induction data pos rule: skip_name.induct)
  case (1 data pos)
  have e: "\<not> length data \<le> pos"
    using "1.prems" by (subst (asm) skip_name_eq) (auto split: if_splits)
  then have IH: "data ! pos \<noteq> 0 \<Longrightarrow> \<not> data ! pos AND 0xC0 = 0xC0 \<Longrightarrow> skip_name data (pos + 1 + unat (data ! pos)) = ok p \<Longrightarrow>
      pos + 1 + unat (data ! pos) < p \<and> p \<le> length data + 1"
    using "1.IH" [OF e, of "data ! pos"] by simp
  show ?case
    using "1.prems" e by (subst (asm) skip_name_eq) (auto split: if_splits dest: IH)
qed

text \<open>Each pass between two jumps adds at most the length of the message, and there are at most ten jumps.\<close>

lemma length_push_chars: "length (push_chars bytes) \<le> 2 * length bytes"
  by (induction bytes) (auto simp: push_chars_def push_char_def)

lemma read_name_loop_length:
  "read_name_loop data name pos jumps = ok r \<Longrightarrow> jumps \<le> 10 \<Longrightarrow>
     length r \<le> length name + 2 * (length data - pos) + (10 - jumps) * (2 * length data)"
proof (induction data name pos jumps arbitrary: r rule: read_name_loop.induct)
  case (1 data name pos jumps)
  have pos: "pos < length data"
    using "1.prems"(1) by (subst (asm) read_name_loop.simps) (auto split: if_splits)
  let ?len = "data ! pos"
  have b: "byte_at data pos = Some (Inr ?len)"
    using pos by (simp add: ok_def)
  consider "?len = 0" "r = name"
    | low where "length data > pos + 1" "jumps < 10" "?len \<noteq> 0" "?len AND 0xC0 = 0xC0" "low = data ! (pos + 1)"
        "read_name_loop data name (unat (?len AND 0x3F) * 256 + unat low) (jumps + 1) = ok r"
    | "?len \<noteq> 0" "\<not> ?len AND 0xC0 = 0xC0" "pos + 1 + unat ?len \<le> length data"
        "read_name_loop data ((if name = [] then [] else name @ [46]) @ push_chars (take (unat ?len) (drop (pos + 1) data))) (pos + 1 + unat ?len) jumps = ok r"
    using "1.prems"(1) pos by (subst (asm) read_name_loop.simps) (auto simp: Let_def split: if_splits)
  then show ?case
  proof cases
    case 1
    then show ?thesis
      by simp
  next
    case 2
    have "length r \<le> length name + 2 * (length data - (unat (?len AND 0x3F) * 256 + unat low)) + (10 - (jumps + 1)) * (2 * length data)"
      by (rule "1.IH"(1) [OF _ b 2(3,4) _ _ refl _ 2(6)]) (use pos 2 in \<open>auto simp: ok_def\<close>)
    moreover have "(10 - jumps) * (2 * length data) = 2 * length data + (10 - (jumps + 1)) * (2 * length data)"
    proof -
      have "10 - jumps = Suc (10 - (jumps + 1))"
        using 2(2) by simp
      then show ?thesis
        by simp
    qed
    ultimately show ?thesis
      by simp
  next
    case 3
    let ?name = "(if name = [] then [] else name @ [46]) @ push_chars (take (unat ?len) (drop (pos + 1) data))"
    have "length r \<le> length ?name + 2 * (length data - (pos + 1 + unat ?len)) + (10 - jumps) * (2 * length data)"
      by (rule "1.IH"(2) [OF _ b 3(1,2) _ _ 3(4) "1.prems"(2)]) (use pos 3 in \<open>auto simp: ok_def\<close>)
    moreover have "length ?name \<le> length name + 1 + 2 * unat ?len"
    proof -
      have "length (push_chars (take (unat ?len) (drop (pos + 1) data))) \<le> 2 * unat ?len"
        using length_push_chars [of "take (unat ?len) (drop (pos + 1) data)"] by (rule le_trans) simp
      then show ?thesis
        by auto
    qed
    ultimately show ?thesis
      using 3(3) by linarith
  qed
qed


section \<open>Names\<close>

definition wire_label :: "u8 list \<Rightarrow> bool" where
  "wire_label l \<longleftrightarrow> l \<noteq> [] \<and> length l \<le> 63"

definition valid_label :: "u8 list \<Rightarrow> bool" where
  "valid_label l \<longleftrightarrow> wire_label l \<and> 46 \<notin> set l"

text \<open>Labels with dots between them, and their form on the wire.\<close>

fun join_dots :: "u8 list list \<Rightarrow> u8 list" where
  "join_dots [] = []"
| "join_dots [l] = l"
| "join_dots (l # ls) = l @ [46] @ join_dots ls"

definition labels_wire :: "u8 list list \<Rightarrow> u8 list" where
  "labels_wire ls = concat (map (\<lambda>l. of_nat (length l) # l) ls)"

lemma labels_wire_simps [simp]:
  "labels_wire [] = []" "labels_wire (l # ls) = of_nat (length l) # l @ labels_wire ls"
  by (simp_all add: labels_wire_def)

lemma split_dots_not_Nil [simp]: "split_dots xs \<noteq> []"
  by (induction xs) (auto split: list.split)

lemma split_dots_no_dot: "46 \<notin> set l \<Longrightarrow> split_dots l = [l]"
  by (induction l) auto

lemma split_dots_append: "46 \<notin> set l \<Longrightarrow> split_dots (l @ 46 # rest) = l # split_dots rest"
  by (induction l) auto

lemma split_join: "ls \<noteq> [] \<Longrightarrow> list_all valid_label ls \<Longrightarrow> split_dots (join_dots ls) = ls"
  by (induction ls rule: join_dots.induct) (auto simp: valid_label_def wire_label_def split_dots_no_dot split_dots_append)

lemma encode_join: "ls \<noteq> [] \<Longrightarrow> list_all valid_label ls \<Longrightarrow> encode_dns_name (join_dots ls) = labels_wire ls @ [0]"
  by (auto simp: encode_dns_name_def split_join labels_wire_def encode_label_def valid_label_def wire_label_def list_all_iff intro!: arg_cong [of _ _ concat])

lemma label_length_byte:
  assumes "wire_label l"
  shows "unat (of_nat (length l) :: u8) = length l" "(of_nat (length l) :: u8) \<noteq> 0" "of_nat (length l) AND 0xC0 \<noteq> (0xC0 :: u8)"
proof -
  have n: "length l \<le> 63" "0 < length l"
    using assms by (auto simp: wire_label_def)
  show u: "unat (of_nat (length l) :: u8) = length l"
    unfolding unsigned_of_nat using n by (simp add: take_bit_nat_eq_self)
  show "(of_nat (length l) :: u8) \<noteq> 0"
    using u n(2) by (metis less_irrefl unat_0)
  have "of_nat (length l) AND 0xC0 \<le> (of_nat (length l) :: u8)"
    by (rule word_and_le2)
  then show "of_nat (length l) AND 0xC0 \<noteq> (0xC0 :: u8)"
    using u n(1) by (auto simp: word_le_nat_alt)
qed

lemma nth_pre: "(pre @ x # rest) ! length pre = x"
  by simp

lemma skip_labels:
  assumes "list_all wire_label ls"
  shows "skip_name (pre @ labels_wire ls @ post) (length pre) = skip_name (pre @ labels_wire ls @ post) (length pre + length (labels_wire ls))"
  using assms
proof (induction ls arbitrary: pre)
  case (Cons l ls)
  let ?n = "of_nat (length l) :: u8"
  have v: "wire_label l" and ls: "list_all wire_label ls"
    using Cons.prems by auto
  have IH: "skip_name ((pre @ ?n # l) @ labels_wire ls @ post) (length (pre @ ?n # l)) =
      skip_name ((pre @ ?n # l) @ labels_wire ls @ post) (length (pre @ ?n # l) + length (labels_wire ls))"
    by (rule Cons.IH [OF ls])
  note B = label_length_byte [OF v]
  show ?case
    using IH by (subst skip_name_eq) (simp add: B add.assoc)
qed simp

lemma read_name_loop_eq:
  "read_name_loop data name pos jumps =
     (if length data \<le> pos then err DeviceError else if data ! pos = 0 then ok name
      else if data ! pos AND 0xC0 = 0xC0
      then if length data \<le> pos + 1 \<or> 10 < jumps + 1 then err DeviceError
           else read_name_loop data name (unat (data ! pos AND 0x3F) * 256 + unat (data ! (pos + 1))) (jumps + 1)
      else if length data < pos + 1 + unat (data ! pos) then err DeviceError
      else read_name_loop data ((if name = [] then [] else name @ [46]) @ push_chars (take (unat (data ! pos)) (drop (pos + 1) data)))
        (pos + 1 + unat (data ! pos)) jumps)"
  by (subst read_name_loop.simps) (simp add: Let_def)

definition append_labels :: "u8 list \<Rightarrow> u8 list list \<Rightarrow> u8 list" where
  "append_labels name ls = (if name = [] then join_dots ls else if ls = [] then name else name @ [46] @ join_dots ls)"

lemma append_labels_Cons:
  "l \<noteq> [] \<Longrightarrow> append_labels name (l # ls) = append_labels ((if name = [] then [] else name @ [46]) @ l) ls"
  by (cases ls) (auto simp: append_labels_def)

lemma push_chars_simps [simp]: "push_chars [] = []" "push_chars (x @ y) = push_chars x @ push_chars y" "push_chars [46] = [46]"
  by (simp_all add: push_chars_def push_char_def)

lemma push_chars_eq_Nil [simp]: "push_chars l = [] \<longleftrightarrow> l = []"
  by (cases l) (auto simp: push_chars_def push_char_def)

lemma push_chars_ascii: "\<forall>b \<in> set l. b < 0x80 \<Longrightarrow> push_chars l = l"
  by (induction l) (auto simp: push_chars_def push_char_def)

lemma push_chars_join: "push_chars (join_dots ls) = join_dots (map push_chars ls)"
  by (induction ls rule: join_dots.induct) (auto simp: push_chars_simps(3) [unfolded append_Nil] push_chars_def push_char_def)

lemma read_labels:
  assumes "list_all wire_label ls"
  shows "read_name_loop (pre @ labels_wire ls @ 0 # post) name (length pre) jumps = ok (append_labels name (map push_chars ls))"
  using assms
proof (induction ls arbitrary: pre name)
  case Nil
  then show ?case
    by (subst read_name_loop_eq) (simp add: append_labels_def)
next
  case (Cons l ls)
  let ?n = "of_nat (length l) :: u8"
  let ?name = "(if name = [] then [] else name @ [46]) @ push_chars l"
  have v: "wire_label l" and ls: "list_all wire_label ls"
    using Cons.prems by auto
  have IH: "read_name_loop ((pre @ ?n # l) @ labels_wire ls @ 0 # post) ?name (length (pre @ ?n # l)) jumps =
      ok (append_labels ?name (map push_chars ls))"
    by (rule Cons.IH [OF ls])
  note B = label_length_byte [OF v]
  have l: "push_chars l \<noteq> []"
    using v by (simp add: wire_label_def)
  show ?case
    unfolding list.map append_labels_Cons [OF l] using IH by (subst read_name_loop_eq) (simp add: B)
qed

section \<open>Records\<close>

text \<open>A name in a message: labels, then the root or a pointer to the rest of the name.\<close>

datatype name_end = Root | Pointer u8 u8

datatype dns_name = Name "u8 list list" name_end

fun end_wire :: "name_end \<Rightarrow> u8 list" where
  "end_wire Root = [0]"
| "end_wire (Pointer hi lo) = [0xC0 OR hi, lo]"

fun name_wire :: "dns_name \<Rightarrow> u8 list" where
  "name_wire (Name ls e) = labels_wire ls @ end_wire e"

fun name_ok :: "dns_name \<Rightarrow> bool" where
  "name_ok (Name ls e) = list_all wire_label ls"

lemma skip_end: "skip_name (pre @ end_wire e @ post) (length pre) = ok (length pre + length (end_wire e))"
proof (cases e)
  case Root
  then show ?thesis
    by (subst skip_name_eq) simp
next
  case (Pointer hi lo)
  have "(0xC0 OR hi) AND 0xC0 = (0xC0 :: u8)"
    by (rule bit_word_eqI) (auto simp: bit_simps)
  moreover from this have "0xC0 OR hi \<noteq> (0 :: u8)"
    by (simp add: or_eq_0_iff)
  ultimately show ?thesis
    using Pointer by (subst skip_name_eq) simp
qed

lemma skip_name_wire:
  assumes "name_ok n"
  shows "skip_name (pre @ name_wire n @ post) (length pre) = ok (length pre + length (name_wire n))"
proof (cases n)
  case (Name ls e)
  then show ?thesis
    using skip_labels [of ls pre "end_wire e @ post"] skip_end [of "pre @ labels_wire ls" e post] assms by simp
qed

record dns_rr =
  rr_name :: dns_name
  rr_type :: u16
  rr_class :: u16
  rr_ttl :: u32
  rdata :: "u8 list"

definition rr_wire :: "dns_rr \<Rightarrow> u8 list" where
  "rr_wire rr = name_wire (rr_name rr) @ u16_to_be (rr_type rr) @ u16_to_be (rr_class rr) @ u32_to_be (rr_ttl rr) @
     u16_to_be (of_nat (length (rdata rr))) @ rdata rr"

definition rr_ok :: "dns_rr \<Rightarrow> bool" where
  "rr_ok rr \<longleftrightarrow> name_ok (rr_name rr) \<and> length (rdata rr) \<le> 65535"

text \<open>What a parser does at the first record: it looks at its type, lifetime and data.\<close>

lemma scan_answers_step:
  fixes pre post :: "u8 list"
  assumes "rr_ok rr"
  defines "at \<equiv> length pre + length (name_wire (rr_name rr)) + 10"
  shows "scan_answers pick (pre @ rr_wire rr @ post) (Suc n) (length pre) =
    (case pick (rr_type rr) (rr_ttl rr) at (length (rdata rr)) of
       Some r \<Rightarrow> r | None \<Rightarrow> scan_answers pick ((pre @ rr_wire rr) @ post) n (length (pre @ rr_wire rr)))"
    "take (length (rdata rr)) (drop at (pre @ rr_wire rr @ post)) = rdata rr"
    "at + length (rdata rr) \<le> length (pre @ rr_wire rr @ post)"
proof -
  have n: "name_ok (rr_name rr)" and len: "unat (of_nat (length (rdata rr)) :: u16) = length (rdata rr)"
    using assms(1) unfolding rr_ok_def unsigned_of_nat by (simp_all add: take_bit_nat_eq_self)
  define pos where "pos = length pre + length (name_wire (rr_name rr))"
  define data where "data = pre @ rr_wire rr @ post"
  have split: "data = (pre @ name_wire (rr_name rr)) @ u16_to_be (rr_type rr) @ u16_to_be (rr_class rr) @ u32_to_be (rr_ttl rr) @
     u16_to_be (of_nat (length (rdata rr))) @ rdata rr @ post"
    by (simp add: data_def rr_wire_def)
  have at: "data ! (pos + i) = (u16_to_be (rr_type rr) @ u16_to_be (rr_class rr) @ u32_to_be (rr_ttl rr) @
     u16_to_be (of_nat (length (rdata rr))) @ rdata rr @ post) ! i" for i
    unfolding split pos_def by (metis length_append nth_append_length_plus)
  have s: "skip_name data (length pre) = ok pos"
    unfolding data_def rr_wire_def pos_def using skip_name_wire [OF n, of pre] by simp
  have l: "pos + 10 + length (rdata rr) \<le> length data"
    unfolding split pos_def by simp
  have t: "u16_at data pos = ok (rr_type rr)" "u32_at data (pos + 4) = ok (rr_ttl rr)" "u16_at data (pos + 8) = ok (of_nat (length (rdata rr)))"
    using l at [of 0] at [of 1] at [of 4] at [of 5] at [of 6] at [of 7] at [of 8] at [of 9]
    by (simp_all add: u16_at_ok u32_at_ok u16_to_be_def u32_to_be_def ac_simps)
  have next_pos: "pos + 10 + length (rdata rr) = length (pre @ rr_wire rr)"
    by (simp add: pos_def rr_wire_def)
  show "scan_answers pick (pre @ rr_wire rr @ post) (Suc n) (length pre) =
    (case pick (rr_type rr) (rr_ttl rr) at (length (rdata rr)) of
       Some r \<Rightarrow> r | None \<Rightarrow> scan_answers pick ((pre @ rr_wire rr) @ post) n (length (pre @ rr_wire rr)))"
    unfolding data_def [symmetric] append_assoc scan_answers.simps using l next_pos
    by (simp add: s t len Let_def at_def pos_def [symmetric] split: option.split)
  show "take (length (rdata rr)) (drop at (pre @ rr_wire rr @ post)) = rdata rr"
    unfolding data_def [symmetric] at_def pos_def [symmetric] unfolding split pos_def by simp
  show "at + length (rdata rr) \<le> length (pre @ rr_wire rr @ post)"
    using l unfolding data_def at_def pos_def by simp
qed


fun question_wire :: "dns_name \<times> u16 \<times> u16 \<Rightarrow> u8 list" where
  "question_wire (n, qtype, qclass) = name_wire n @ u16_to_be qtype @ u16_to_be qclass"

definition response_wire :: "u16 \<Rightarrow> u16 \<Rightarrow> (dns_name \<times> u16 \<times> u16) list \<Rightarrow> dns_rr list \<Rightarrow> u8 list \<Rightarrow> u8 list \<Rightarrow> u8 list" where
  "response_wire ident flags qs rrs counts rest =
     (u16_to_be ident @ u16_to_be flags @ u16_to_be (of_nat (length qs)) @ u16_to_be (of_nat (length rrs)) @ counts) @
     concat (map question_wire qs) @ concat (map rr_wire rrs) @ rest"

lemma scan_answers_find:
  assumes "list_all rr_ok rrs"
    and "\<And>rr at. rr \<in> set rrs \<Longrightarrow> at + length (rdata rr) \<le> length data \<Longrightarrow> take (length (rdata rr)) (drop at data) = rdata rr \<Longrightarrow>
      pick (rr_type rr) (rr_ttl rr) at (length (rdata rr)) = (if good rr then Some (ok (result rr)) else None)"
    and "data = pre @ concat (map rr_wire rrs) @ rest"
  shows "scan_answers pick data (length rrs) (length pre) =
    (case find good rrs of Some rr \<Rightarrow> ok (result rr) | None \<Rightarrow> err TimedOut)"
  using assms
proof (induction rrs arbitrary: pre)
  case (Cons rr rrs)
  let ?post = "concat (map rr_wire rrs) @ rest"
  let ?at = "length pre + length (name_wire (rr_name rr)) + 10"
  have rr: "rr_ok rr" and d: "data = pre @ rr_wire rr @ ?post" and d': "data = (pre @ rr_wire rr) @ ?post"
    using Cons.prems(1,3) by simp_all
  have p: "pick (rr_type rr) (rr_ttl rr) ?at (length (rdata rr)) = (if good rr then Some (ok (result rr)) else None)"
    by (rule Cons.prems(2)) (use scan_answers_step(2,3) [OF rr, of pre ?post] d in simp_all)
  have IH: "scan_answers pick data (length rrs) (length (pre @ rr_wire rr)) =
      (case find good rrs of Some rr \<Rightarrow> ok (result rr) | None \<Rightarrow> err TimedOut)"
    by (rule Cons.IH) (use Cons.prems(1,2) d' in simp_all)
  have "scan_answers pick data (Suc (length rrs)) (length pre) =
      (case pick (rr_type rr) (rr_ttl rr) ?at (length (rdata rr)) of
         Some r \<Rightarrow> r | None \<Rightarrow> scan_answers pick data (length rrs) (length (pre @ rr_wire rr)))"
    using scan_answers_step(1) [OF rr, of pick pre ?post "length rrs"] unfolding d [symmetric] d' [symmetric] .
  then show ?case
    unfolding p IH by simp
qed simp

lemma skip_questions_wire:
  assumes "list_all (\<lambda>q. name_ok (fst q)) qs" "data = pre @ concat (map question_wire qs) @ rest" "length data < 2 ^ 64"
  shows "skip_questions data (length qs) (length pre) = ok (length pre + length (concat (map question_wire qs)))"
  using assms(1,2)
proof (induction qs arbitrary: pre)
  case (Cons q qs)
  obtain n ty cl where q: "q = (n, ty, cl)"
    by (cases q)
  have n: "name_ok n"
    using Cons.prems(1) q by simp
  have d: "data = pre @ name_wire n @ u16_to_be ty @ u16_to_be cl @ concat (map question_wire qs) @ rest"
    using Cons.prems(2) by (simp add: q)
  have s: "skip_name data (length pre) = ok (length pre + length (name_wire n))"
    unfolding d by (rule skip_name_wire [OF n])
  have IH: "skip_questions data (length qs) (length (pre @ question_wire q)) =
      ok (length (pre @ question_wire q) + length (concat (map question_wire qs)))"
    by (rule Cons.IH) (use Cons.prems in simp_all)
  have l: "length pre + length (name_wire n) + 4 \<le> length data"
    unfolding d by simp
  then have c: "checked_add (length pre + length (name_wire n)) 4 = Some (length pre + length (name_wire n) + 4)"
    using assms(3) by (simp add: checked_add_def)
  have e: "length (pre @ question_wire q) = length pre + length (name_wire n) + 4"
    by (simp add: q)
  show ?case
    using IH l unfolding e by (simp add: s c q)
qed simp

text \<open>A positive response of the form the standard gives it: a header, questions, records, and anything after.\<close>

definition response_ok :: "u16 \<Rightarrow> (dns_name \<times> u16 \<times> u16) list \<Rightarrow> dns_rr list \<Rightarrow> u8 list \<Rightarrow> bool" where
  "response_ok flags qs rrs counts \<longleftrightarrow>
     flags AND 0x8000 \<noteq> 0 \<and> flags AND 0x000F = 0 \<and> length counts = 4 \<and> length qs \<le> 65535 \<and> list_all (\<lambda>q. name_ok (fst q)) qs \<and>
     0 < length rrs \<and> length rrs \<le> 65535 \<and> list_all rr_ok rrs"

lemma parse_response_find:
  assumes "response_ok flags qs rrs counts" "data = response_wire ident flags qs rrs counts rest" "length data < 2 ^ 64"
    and "\<And>rr at. at + length (rdata rr) \<le> length data \<Longrightarrow> take (length (rdata rr)) (drop at data) = rdata rr \<Longrightarrow>
      pick (rr_type rr) (rr_ttl rr) at (length (rdata rr)) = (if good rr then Some (ok (result rr)) else None)"
  shows "parse_response pick data = (case find good rrs of Some rr \<Rightarrow> ok (result rr) | None \<Rightarrow> err TimedOut)"
proof -
  define hd where "hd = u16_to_be ident @ u16_to_be flags @ u16_to_be (of_nat (length qs)) @ u16_to_be (of_nat (length rrs)) @ counts"
  have ok: "flags AND 0x8000 \<noteq> 0" "flags AND 0x000F = 0" "length counts = 4" "length qs \<le> 65535" "list_all (\<lambda>q. name_ok (fst q)) qs"
    "0 < length rrs" "length rrs \<le> 65535" "list_all rr_ok rrs"
    using assms(1) by (simp_all add: response_ok_def)
  have d: "data = hd @ concat (map question_wire qs) @ concat (map rr_wire rrs) @ rest"
    unfolding assms(2) response_wire_def hd_def ..
  have len: "length hd = 12"
    by (simp add: hd_def ok(3))
  have cnt: "unat (of_nat (length qs) :: u16) = length qs" "unat (of_nat (length rrs) :: u16) = length rrs"
    unfolding unsigned_of_nat using ok(4,7) by (simp_all add: take_bit_nat_eq_self)
  have nz: "(of_nat (length rrs) :: u16) \<noteq> 0"
    using cnt(2) ok(6) by (metis less_irrefl unat_0)
  have t: "u16_at data 2 = ok flags" "u16_at data 4 = ok (of_nat (length qs))" "u16_at data 6 = ok (of_nat (length rrs))"
    unfolding d hd_def by (simp_all add: u16_at_ok u16_to_be_def)
  have c: "response_counts data = ok (of_nat (length qs), of_nat (length rrs))"
    using ok(1,2) nz len arg_cong [OF d, of length]
    by (simp add: response_counts_def t DNS_HEADER_SIZE_def DNS_FLAGS_QR_RESPONSE_def DNS_FLAGS_RCODE_MASK_def DNS_RCODE_NXDOMAIN_def)
  let ?pre = "hd @ concat (map question_wire qs)"
  have q: "skip_questions data (length qs) 12 = ok (length ?pre)"
    using skip_questions_wire [OF ok(5) d assms(3)] len by simp
  have "scan_answers pick data (length rrs) (length ?pre) = (case find good rrs of Some rr \<Rightarrow> ok (result rr) | None \<Rightarrow> err TimedOut)"
    by (rule scan_answers_find [OF ok(8)]) (use assms(4) d in simp_all)
  then show ?thesis
    unfolding parse_response_def c bind_checked_simps prod.case cnt DNS_HEADER_SIZE_def q .
qed


section \<open>The cache\<close>

lemma cache_sorted_insert: "bt_sorted cache \<Longrightarrow> bt_sorted (cache_insert hostname addr ttl_ticks now cache)"
  unfolding cache_insert_def Let_def by (rule bt_sorted_insert)

lemma cache_lookup_insert:
  "bt_sorted cache \<Longrightarrow> lowercase_hostname hostname' = lowercase_hostname hostname \<Longrightarrow>
     cache_lookup hostname' now' (cache_insert hostname addr ttl_ticks now cache) =
     (if now' < saturating_add now (min (max ttl_ticks DNS_CACHE_MIN_TTL_TICKS) DNS_CACHE_MAX_TTL_TICKS) then Some addr else None)"
  by (simp add: cache_lookup_def cache_insert_def bt_get_insert Let_def)

lemma cache_lookup_insert_other:
  "bt_sorted cache \<Longrightarrow> lowercase_hostname hostname' \<noteq> lowercase_hostname hostname \<Longrightarrow>
     cache_lookup hostname' now' (cache_insert hostname addr ttl_ticks now cache) = cache_lookup hostname' now' cache"
  by (simp add: cache_lookup_def cache_insert_def bt_get_insert Let_def)

lemma bt_get_retain:
  "bt_sorted m \<Longrightarrow> bt_get (bt_retain p m) k = (case bt_get m k of Some v \<Rightarrow> if p k v then Some v else None | None \<Rightarrow> None)"
  by (induction m) (auto simp: bt_get_def bt_retain_def bt_sorted_def map_of_eq_None_iff split: option.split)

lemma cache_lookup_evict:
  "bt_sorted cache \<Longrightarrow> now \<le> now' \<Longrightarrow> cache_lookup hostname now' (dns_evict_expired now cache) = cache_lookup hostname now' cache"
  by (auto simp: cache_lookup_def dns_evict_expired_def bt_get_retain split: option.split)

section \<open>Properties\<close>

text \<open>C23: No byte string makes a DNS parser panic: every index and slice taken by the parsers of A, AAAA and PTR
  answers lies inside the message.\<close>

theorem dns_parsers_never_panic:
  "parse_a_record_with_ttl response \<noteq> None \<and> parse_a_record response \<noteq> None \<and> parse_aaaa_record response \<noteq> None \<and>
   parse_ptr_record response \<noteq> None"
proof -
  have a: "no_panic (parse_a_record_with_ttl response)"
    unfolding parse_a_record_with_ttl_def by (rule no_panic_parse_response) (auto split: if_splits)
  have b: "no_panic (parse_a_record response)"
    unfolding parse_a_record_def by (rule no_panic_bind [OF a]) (simp split: prod.split)
  have c: "no_panic (parse_aaaa_record response)"
    unfolding parse_aaaa_record_def by (rule no_panic_parse_response) (auto split: if_splits)
  have d: "no_panic (parse_ptr_record response)"
    unfolding parse_ptr_record_def read_name_def by (rule no_panic_parse_response) (auto split: if_splits)
  show ?thesis
    using a b c d unfolding no_panic_def by (intro conjI)
qed

text \<open>A decoded name is at most 22 times as long as its message, however the compression pointers of the
  message are laid out: at most ten pointers are followed, between two of them the position only grows,
  and a byte becomes at most two.\<close>

lemma read_name_bounded:
  assumes "read_name data pos = ok name"
  shows "length name \<le> 22 * length data"
  using read_name_loop_length [of data "[]" pos 0 name] assms by (simp add: read_name_def)

lemma read_name_bounded_witness:
  "length ([97, 46, 97] :: u8 list) \<le> 22 * length ([1, 97, 192, 4, 1, 97, 0] :: u8 list)"
  by (rule read_name_bounded [of _ 0]) code_simp

text \<open>C32: A name of labels of one to 63 bytes without dots is encoded so that, wherever it stands in a message,
  skipping it ends right behind it and decoding it reads every byte as the character of that number, which
  gives back a name of ASCII characters.\<close>

theorem dns_name_round_trip:
  assumes "labels \<noteq> []" "list_all valid_label labels"
  shows "read_name (pre @ encode_dns_name (join_dots labels) @ post) (length pre) = ok (push_chars (join_dots labels)) \<and>
    skip_name (pre @ encode_dns_name (join_dots labels) @ post) (length pre) =
      ok (length pre + length (encode_dns_name (join_dots labels))) \<and>
    ((\<forall>b \<in> set (join_dots labels). b < 0x80) \<longrightarrow>
      read_name (pre @ encode_dns_name (join_dots labels) @ post) (length pre) = ok (join_dots labels))"
proof -
  have w: "list_all wire_label labels"
    using assms(2) by (auto simp: list_all_iff valid_label_def)
  have r: "read_name (pre @ encode_dns_name (join_dots labels) @ post) (length pre) = ok (push_chars (join_dots labels))"
    unfolding encode_join [OF assms] read_name_def using read_labels [OF w, of pre post "[]" 0]
    by (simp add: append_labels_def push_chars_join)
  show ?thesis
    unfolding r using push_chars_ascii [of "join_dots labels"] skip_labels [OF w, of pre "0 # post"] skip_end [of "pre @ labels_wire labels" Root post]
    by (simp add: encode_join [OF assms])
qed

theorem dns_name_round_trip_witness:
  "read_name ([7] @ encode_dns_name (join_dots [[97, 98], [99]]) @ [1]) (length [7 :: u8]) = ok (join_dots [[97, 98], [99]])"
proof -
  have "list_all valid_label [[97, 98], [99]]" "\<forall>b \<in> set (join_dots [[97, 98], [99]]). b < (0x80 :: u8)"
    by code_simp+
  then show ?thesis
    using dns_name_round_trip [of "[[97, 98], [99]]" "[7]" "[1]"] by (metis list.distinct(1))
qed

text \<open>A label that is not ASCII does not come back: the two bytes of \<open>e\<close> with an acute accent are decoded as two
  characters of two bytes each.\<close>

lemma accented_name_lost:
  "read_name (encode_dns_name [0xC3, 0xA9]) 0 = ok [0xC3, 0x83, 0xC2, 0xA9]"
  by code_simp

text \<open>C21: Of a positive response with any questions and records, each name of which is labels followed by the root
  or by a compression pointer, the address parsers return the data (and the
  lifetime) of the first record of their type with an address of the right length, whatever records stand
  before it, and \<open>TimedOut\<close> if there is none.\<close>

theorem dns_first_address_returned:
  assumes "response_ok flags qs rrs counts" "length (response_wire ident flags qs rrs counts rest) < 2 ^ 64"
  shows "parse_a_record_with_ttl (response_wire ident flags qs rrs counts rest) =
      (case find (\<lambda>rr. rr_type rr = DNS_TYPE_A \<and> length (rdata rr) = 4) rrs of
         Some rr \<Rightarrow> ok (rdata rr, rr_ttl rr) | None \<Rightarrow> err TimedOut) \<and>
    parse_aaaa_record (response_wire ident flags qs rrs counts rest) =
      (case find (\<lambda>rr. rr_type rr = DNS_TYPE_AAAA \<and> length (rdata rr) = 16) rrs of
         Some rr \<Rightarrow> ok (rdata rr) | None \<Rightarrow> err TimedOut)"
  unfolding parse_a_record_with_ttl_def parse_aaaa_record_def
  by (intro conjI; rule parse_response_find [OF assms(1) refl assms(2)]; auto)

definition example_records :: "dns_rr list" where
  "example_records =
     [\<lparr>rr_name = Name [[119]] (Pointer 0 12), rr_type = 5, rr_class = 1, rr_ttl = 60, rdata = [1, 98, 0]\<rparr>,
      \<lparr>rr_name = Name [[98]] Root, rr_type = 1, rr_class = 1, rr_ttl = 30, rdata = [10, 0, 0, 7]\<rparr>]"

theorem dns_first_address_returned_witness:
  "parse_a_record_with_ttl (response_wire 9 0x8180 [(Name [[97]] Root, 1, 1)] example_records [0, 0, 0, 0] []) = ok ([10, 0, 0, 7], 30)"
proof -
  have "response_ok 0x8180 [(Name [[97]] Root, 1, 1)] example_records [0, 0, 0, 0]"
    by (simp add: response_ok_def example_records_def rr_ok_def wire_label_def)
  moreover have "length (response_wire 9 0x8180 [(Name [[97]] Root, 1, 1)] example_records [0, 0, 0, 0] []) < 2 ^ 64"
    by (simp add: response_wire_def example_records_def rr_wire_def)
  ultimately show ?thesis
    by (subst dns_first_address_returned [THEN conjunct1]) (simp_all add: example_records_def DNS_TYPE_A_def)
qed

text \<open>A hostname with a trailing dot makes a malformed query: its encoding has the zero byte of the empty
  last label before the terminating zero byte, so that a reader of the question finds the name one byte
  shorter than it was written and reads the zero byte as part of the query type.\<close>

lemma trailing_dot_query_malformed:
  "skip_name (build_query [97, 46]) DNS_HEADER_SIZE = ok 15 \<and> u16_at (build_query [97, 46]) 15 = ok 0 \<and>
   u16_at (build_query [97]) 15 = ok DNS_TYPE_A \<and> skip_name (build_query [97]) DNS_HEADER_SIZE = ok 15"
  by code_simp

text \<open>What the cache answers after an accepted answer: the address, in any letter case of the name, until
  its clamped lifetime has passed and no longer, with evictions at any earlier time in between, and other
  names answer as before.\<close>

lemma dns_cache_answers:
  assumes "bt_sorted cache" "evicted \<le> now'"
  shows "cache_lookup hostname' now' (dns_evict_expired evicted (cache_insert hostname addr ttl_ticks now cache)) =
    (if lowercase_hostname hostname' = lowercase_hostname hostname
     then if now' < saturating_add now (min (max ttl_ticks DNS_CACHE_MIN_TTL_TICKS) DNS_CACHE_MAX_TTL_TICKS) then Some addr else None
     else cache_lookup hostname' now' cache)"
  unfolding cache_lookup_evict [OF cache_sorted_insert [OF assms(1)] assms(2)]
  using assms(1) by (simp add: cache_lookup_insert cache_lookup_insert_other)

lemma dns_cache_answers_witness:
  "cache_lookup [65] 100 (dns_evict_expired 50 (cache_insert [97] [10, 0, 0, 1] 0 0 [])) = Some [10, 0, 0, 1]"
proof -
  have "bt_sorted ([] :: dns_cache)" "(50 :: nat) \<le> 100"
    by simp_all
  from dns_cache_answers [OF this, of "[65]" "[97]" "[10, 0, 0, 1]" 0 0] show ?thesis
    by (simp add: lowercase_hostname_def ascii_lower_def saturating_add_def DNS_CACHE_MIN_TTL_TICKS_def DNS_CACHE_MAX_TTL_TICKS_def)
qed

end
