(* ===== verification/Page_Compression.thy ===== *)
theory Page_Compression
  imports Kernel_Prelude "HOL-Library.Monad_Syntax"
begin

text \<open>
  Page compression (\<open>src/memory/compressed.rs\<close>): the zero-page and repeated-byte encodings and
  the LZSS compressor and decompressor, over the positions and the hash table the code keeps.  A
  compressor step that would index out of range or subtract below zero is \<open>None\<close>.
\<close>

unbundle bit_operations_syntax

definition PAGE_SIZE :: nat where
  "PAGE_SIZE = 4096"

definition HASH_BITS :: nat where
  "HASH_BITS = 12"

definition HASH_SIZE :: nat where
  "HASH_SIZE = 2 ^ HASH_BITS"

definition MIN_MATCH :: nat where
  "MIN_MATCH = 3"

definition MAX_MATCH :: nat where
  "MAX_MATCH = 10"

definition MAX_DIST :: nat where
  "MAX_DIST = 4096"

lemmas lzss_constants = PAGE_SIZE_def HASH_BITS_def HASH_SIZE_def MIN_MATCH_def MAX_MATCH_def MAX_DIST_def

section \<open>The compressor\<close>

definition hash3 :: "u8 list \<Rightarrow> nat option" where
  "hash3 bytes =
     (if 3 \<le> length bytes
      then Some ((push_bit 8 (unat (bytes ! 0)) XOR push_bit 4 (unat (bytes ! 1)) XOR unat (bytes ! 2))
                 AND (HASH_SIZE - 1))
      else None)"

text \<open>The pending literals leave as runs of at most 128 bytes.\<close>

function flush_literals :: "u8 list \<Rightarrow> u8 list \<Rightarrow> u8 list" where
  "flush_literals out literals =
     (if literals = [] then out
      else let chunk = min (length literals) 128
           in flush_literals (out @ word_of_nat (chunk - 1) # take chunk literals) (drop chunk literals))"
  by pat_completeness auto
termination
  by (relation "measure (\<lambda>(out, literals). length literals)") auto

declare flush_literals.simps [simp del]

function match_length :: "u8 list \<Rightarrow> nat \<Rightarrow> nat \<Rightarrow> nat \<Rightarrow> nat \<Rightarrow> nat option" where
  "match_length input cand pos max_len mlen =
     (if mlen < max_len
      then if cand + mlen < length input \<and> pos + mlen < length input
           then if input ! (cand + mlen) = input ! (pos + mlen)
                then match_length input cand pos max_len (mlen + 1)
                else Some mlen
           else None
      else Some mlen)"
  by pat_completeness auto
termination
  by (relation "measure (\<lambda>(input, cand, pos, max_len, mlen). max_len - mlen)") auto

declare match_length.simps [simp del]

text \<open>The candidate of the hash table at \<open>pos\<close>: length and distance of the match, \<open>(0, 0)\<close> for
  none.\<close>

definition find_match :: "u8 list \<Rightarrow> nat \<Rightarrow> u16 list \<Rightarrow> (nat \<times> nat) option" where
  "find_match input pos hash_tab =
     (let len = length input
      in if MIN_MATCH \<le> pos \<and> MIN_MATCH \<le> len - pos
         then do {
           h \<leftarrow> hash3 (take MIN_MATCH (drop pos input));
           if h < length hash_tab
           then let cand = unat (hash_tab ! h)
                in if cand = U16_MAX then Some (0, 0)
                   else if pos < cand then None
                   else if pos - cand \<le> MAX_DIST
                   then do {
                     mlen \<leftarrow> match_length input cand pos (min (len - pos) MAX_MATCH) 0;
                     Some (if MIN_MATCH \<le> mlen then (mlen, pos - cand) else (0, 0))
                   }
                   else Some (0, 0)
           else None
         }
         else Some (0, 0))"

definition record_position :: "u8 list \<Rightarrow> nat \<Rightarrow> u16 list \<Rightarrow> u16 list option" where
  "record_position input p hash_tab =
     (if p + MIN_MATCH \<le> length input
      then do {
        h \<leftarrow> hash3 (drop p input);
        if h < length hash_tab then Some (hash_tab[h := word_of_nat p]) else None
      }
      else Some hash_tab)"

fun record_positions :: "u8 list \<Rightarrow> nat list \<Rightarrow> u16 list \<Rightarrow> u16 list option" where
  "record_positions input [] hash_tab = Some hash_tab"
| "record_positions input (p # ps) hash_tab =
     do { hash_tab' \<leftarrow> record_position input p hash_tab; record_positions input ps hash_tab' }"

definition match_token :: "nat \<Rightarrow> nat \<Rightarrow> u8 list" where
  "match_token best_len best_dist =
     (let len_code = (word_of_nat (best_len - MIN_MATCH) :: u16);
          dist_code = (word_of_nat (best_dist - 1) :: u16)
      in [0x80 OR ucast (push_bit 4 len_code) OR ucast (drop_bit 8 dist_code),
          ucast (dist_code AND 0xFF)])"

function lzss_loop :: "u8 list \<Rightarrow> nat \<Rightarrow> u8 list \<Rightarrow> u16 list \<Rightarrow> u8 list \<Rightarrow> u8 list option" where
  "lzss_loop input pos literals hash_tab out =
     (if pos < length input
      then do {
        (best_len, best_dist) \<leftarrow> find_match input pos hash_tab;
        if MIN_MATCH \<le> best_len
        then do {
          hash_tab' \<leftarrow> record_positions input [pos..<pos + best_len] hash_tab;
          lzss_loop input (pos + best_len) [] hash_tab'
            (flush_literals out literals @ match_token best_len best_dist)
        }
        else do {
          hash_tab' \<leftarrow> record_position input pos hash_tab;
          let literals' = literals @ [input ! pos]
          in if length literals' = 128
             then lzss_loop input (pos + 1) [] hash_tab' (flush_literals out literals')
             else lzss_loop input (pos + 1) literals' hash_tab' out
        }
      }
      else Some (flush_literals out literals))"
  by pat_completeness auto
termination
  by (relation "measure (\<lambda>(input, pos, literals, hash_tab, out). length input - pos)")
    (auto simp: MIN_MATCH_def)

declare lzss_loop.simps [simp del]

definition lzss_compress :: "u8 list \<Rightarrow> u8 list option" where
  "lzss_compress input = lzss_loop input 0 [] (replicate HASH_SIZE (word_of_nat U16_MAX)) []"

section \<open>The decompressor\<close>

text \<open>\<open>out[at..at + n].copy_from_slice(bytes)\<close>, \<open>n\<close> the number of bytes.\<close>

definition copy_at :: "nat \<Rightarrow> 'b list \<Rightarrow> 'b list \<Rightarrow> 'b list" where
  "copy_at at bytes out = take at out @ bytes @ drop (at + length bytes) out"

fun copy_back :: "nat \<Rightarrow> nat \<Rightarrow> nat \<Rightarrow> u8 list \<Rightarrow> u8 list" where
  "copy_back 0 dist op out = out"
| "copy_back (Suc n) dist op out = copy_back n dist (op + 1) (out[op := out ! (op - dist)])"

function lzss_decode :: "u8 list \<Rightarrow> nat \<Rightarrow> nat \<Rightarrow> u8 list \<Rightarrow> bool \<times> u8 list" where
  "lzss_decode src ip op out =
     (if ip < length src
      then let b = src ! ip
           in if b AND 0x80 = 0
              then let count = unat b + 1
                   in if length src < ip + 1 + count \<or> length out < op + count then (False, out)
                      else lzss_decode src (ip + 1 + count) (op + count)
                             (copy_at op (take count (drop (ip + 1) src)) out)
              else if length src \<le> ip + 1 then (False, out)
              else let len = unat (drop_bit 4 b AND 0x07) + MIN_MATCH;
                       dist = (push_bit 8 (unat (b AND 0x0F)) OR unat (src ! (ip + 1))) + 1
                   in if op < dist \<or> length out < op + len then (False, out)
                      else lzss_decode src (ip + 2) (op + len) (copy_back len dist op out)
      else (op = length out, out))"
  by pat_completeness auto
termination
  by (relation "measure (\<lambda>(src, ip, op, out). length src - ip)") auto

declare lzss_decode.simps [simp del]

definition lzss_decompress :: "u8 list \<Rightarrow> u8 list \<Rightarrow> bool \<times> u8 list" where
  "lzss_decompress src out = lzss_decode src 0 0 out"

section \<open>Pages\<close>

text \<open>The outer option is a panic, the inner one \<open>compress_page\<close>'s answer.\<close>

definition compress_page :: "u8 list \<Rightarrow> u8 list option option" where
  "compress_page input =
     (if length input \<noteq> PAGE_SIZE then Some None
      else if list_all (\<lambda>b. b = 0) input then Some (Some [0x00])
      else if list_all (\<lambda>b. b = input ! 0) (drop 1 input) then Some (Some [0x01, input ! 0])
      else do {
        stream \<leftarrow> lzss_compress input;
        Some (if 1 + length stream < PAGE_SIZE then Some (0x02 # stream) else None)
      })"

definition compress_chunk :: "u8 list \<Rightarrow> u8 list option" where
  "compress_chunk input =
     do {
       r \<leftarrow> compress_page input;
       Some (case r of Some page \<Rightarrow> page | None \<Rightarrow> 0x03 # input)
     }"

definition decompress_page :: "u8 list \<Rightarrow> u8 list \<Rightarrow> bool \<times> u8 list" where
  "decompress_page encoded out =
     (if length out \<noteq> PAGE_SIZE \<or> encoded = [] then (False, out)
      else if encoded ! 0 = 0x00 then (length encoded = 1, replicate PAGE_SIZE 0)
      else if encoded ! 0 = 0x01
      then if length encoded \<noteq> 2 then (False, out) else (True, replicate PAGE_SIZE (encoded ! 1))
      else if encoded ! 0 = 0x02 then lzss_decompress (drop 1 encoded) out
      else if encoded ! 0 = 0x03
      then if length encoded \<noteq> 1 + PAGE_SIZE then (False, out) else (True, drop 1 encoded)
      else (False, out))"

section \<open>Token streams\<close>

datatype token = Literals "u8 list" | Match nat nat

fun encode_token :: "token \<Rightarrow> u8 list" where
  "encode_token (Literals bs) = word_of_nat (length bs - 1) # bs"
| "encode_token (Match len dist) = match_token len dist"

fun extend_match :: "nat \<Rightarrow> nat \<Rightarrow> u8 list \<Rightarrow> u8 list" where
  "extend_match 0 dist done = done"
| "extend_match (Suc n) dist done = extend_match n dist (done @ [done ! (length done - dist)])"

fun run_tokens :: "token list \<Rightarrow> u8 list \<Rightarrow> u8 list" where
  "run_tokens [] done = done"
| "run_tokens (Literals bs # ts) done = run_tokens ts (done @ bs)"
| "run_tokens (Match len dist # ts) done = run_tokens ts (extend_match len dist done)"

fun wf_tokens :: "token list \<Rightarrow> nat \<Rightarrow> bool" where
  "wf_tokens [] n = True"
| "wf_tokens (Literals bs # ts) n \<longleftrightarrow> 1 \<le> length bs \<and> length bs \<le> 128 \<and> wf_tokens ts (n + length bs)"
| "wf_tokens (Match len dist # ts) n \<longleftrightarrow>
     MIN_MATCH \<le> len \<and> len \<le> MAX_MATCH \<and> 1 \<le> dist \<and> dist \<le> MAX_DIST \<and> dist \<le> n \<and>
     wf_tokens ts (n + len)"

lemma length_extend_match [simp]: "length (extend_match n dist done) = length done + n"
  by (induction n dist "done" rule: extend_match.induct) simp_all

lemma run_tokens_append: "run_tokens (ts @ us) done = run_tokens us (run_tokens ts done)"
  by (induction ts "done" rule: run_tokens.induct) simp_all

lemma wf_tokens_append:
  "wf_tokens (ts @ us) (length done) \<longleftrightarrow>
   wf_tokens ts (length done) \<and> wf_tokens us (length (run_tokens ts done))"
  by (induction ts "done" rule: run_tokens.induct) simp_all

lemma length_run_tokens_mono: "length done \<le> length (run_tokens ts done)"
  by (induction ts "done" rule: run_tokens.induct) auto

section \<open>The bytes of a match\<close>

lemma or_shifted_nat:
  fixes h lo :: nat
  assumes "lo < 2 ^ n"
  shows "push_bit n h OR lo = h * 2 ^ n + lo"
proof -
  have "\<not> bit (push_bit n h) k \<or> \<not> bit lo k" for k
    using assms by (metis bit_push_bit_iff bit_take_bit_iff leD take_bit_nat_eq_self)
  then show ?thesis
    using disjunctive_add [of "push_bit n h" lo] by (simp add: push_bit_eq_mult)
qed

lemma unat_or_disjoint:
  fixes a b :: u8
  assumes "unat a = x * 2 ^ n" "unat b < 2 ^ n"
  shows "unat (a OR b) = x * 2 ^ n + unat b"
  using or_shifted_nat [OF assms(2), of x] assms(1)
  by (simp add: unsigned_or_eq push_bit_eq_mult mult.commute)

lemma match_bytes:
  fixes l d :: u16
  assumes "unat l < 8" "unat d < 4096"
  shows "unat (0x80 OR ucast (push_bit 4 l) OR ucast (drop_bit 8 d) :: u8) =
      128 + 16 * unat l + unat d div 256"
    "unat (ucast (d AND 0xFF) :: u8) = unat d mod 256"
proof -
  have "unat (push_bit 4 l) = take_bit 16 (push_bit 4 (unat l))"
    by (simp only: unsigned_push_bit_eq) simp
  then have "unat (ucast (push_bit 4 l) :: u8) = take_bit 8 (take_bit 16 (push_bit 4 (unat l)))"
    by (simp only: unsigned_ucast_eq [where 'a = nat]) simp
  then have hl: "unat (ucast (push_bit 4 l) :: u8) = unat l * 2 ^ 4"
    using assms(1) by (simp add: push_bit_eq_mult take_bit_eq_mod)
  have "unat (drop_bit 8 d) = drop_bit 8 (take_bit 16 (unat d))"
    by (simp only: unsigned_drop_bit_eq) simp
  then have "unat (ucast (drop_bit 8 d) :: u8) = take_bit 8 (drop_bit 8 (take_bit 16 (unat d)))"
    by (simp only: unsigned_ucast_eq [where 'a = nat]) simp
  then have hd: "unat (ucast (drop_bit 8 d) :: u8) = unat d div 256"
    using assms(2) by (simp add: take_bit_eq_mod drop_bit_eq_div)
  have or1: "unat (ucast (push_bit 4 l) OR ucast (drop_bit 8 d) :: u8) = unat l * 2 ^ 4 + unat d div 256"
    using unat_or_disjoint [OF hl, of "ucast (drop_bit 8 d)"] hd assms(2) by simp
  then show "unat (0x80 OR ucast (push_bit 4 l) OR ucast (drop_bit 8 d) :: u8) =
      128 + 16 * unat l + unat d div 256"
    using unat_or_disjoint [of "0x80 :: u8" 1 7 "ucast (push_bit 4 l) OR ucast (drop_bit 8 d)"] assms
    by (simp add: or.assoc)
  have "d AND 0xFF = take_bit 8 d"
    unfolding take_bit_eq_mask by (simp add: mask_eq_exp_minus_1)
  then show "unat (ucast (d AND 0xFF) :: u8) = unat d mod 256"
    by (simp only: unsigned_ucast_eq unsigned_take_bit_eq) (simp add: take_bit_eq_mod)
qed

lemma match_token_bytes:
  assumes "3 \<le> len" "len \<le> 10" "1 \<le> dist" "dist \<le> 4096"
  obtains b c where "match_token len dist = [b, c]" "unat b = 128 + 16 * (len - 3) + (dist - 1) div 256"
    "unat c = (dist - 1) mod 256"
proof -
  have of_nat16: "unat (word_of_nat n :: u16) = n" if "n < 65536" for n
    using that by (simp add: unsigned_of_nat take_bit_nat_eq_self)
  have "unat (word_of_nat (len - 3) :: u16) = len - 3" "unat (word_of_nat (dist - 1) :: u16) = dist - 1"
    using assms of_nat16 [of "len - 3"] of_nat16 [of "dist - 1"] by linarith+
  then show thesis
    using match_bytes [of "word_of_nat (len - 3)" "word_of_nat (dist - 1)"] assms
    by (intro that) (simp_all only: match_token_def MIN_MATCH_def Let_def, simp_all)
qed

lemma unat_less_256: "unat (b :: u8) < 2 ^ 8"
  using unsigned_less [of b, where 'a = nat] by simp

lemma byte_fields:
  fixes b :: u8
  shows "b AND 0x80 = 0 \<longleftrightarrow> unat b < 128" "unat (drop_bit 4 b AND 7) = unat b div 16 mod 8"
    "unat (b AND 0x0F) = unat b mod 16"
proof -
  show "unat (drop_bit 4 b AND 7) = unat b div 16 mod 8"
  proof -
    have "drop_bit 4 b AND 7 = take_bit 3 (drop_bit 4 b)"
      unfolding take_bit_eq_mask by (simp add: mask_eq_exp_minus_1)
    then have "unat (drop_bit 4 b AND 7) = take_bit 3 (drop_bit 4 (unat b))"
      using take_bit_nat_eq_self [OF unat_less_256 [of b]]
      by (simp only: unsigned_take_bit_eq unsigned_drop_bit_eq) simp
    then show ?thesis
      by (simp add: take_bit_eq_mod drop_bit_eq_div)
  qed
  show "unat (b AND 0x0F) = unat b mod 16"
  proof -
    have "b AND 0x0F = take_bit 4 b"
      unfolding take_bit_eq_mask by (simp add: mask_eq_exp_minus_1)
    then show ?thesis
      by (simp only: unsigned_take_bit_eq) (simp add: take_bit_eq_mod)
  qed
  have "b AND 0x80 = 0 \<longleftrightarrow> \<not> bit b 7"
    using and_exp_eq_0_iff_not_bit [of b 7] by simp
  also have "\<dots> \<longleftrightarrow> even (unat b div 128)"
  proof -
    have "bit b 7 \<longleftrightarrow> bit (unat b) 7"
      by (simp add: bit_unsigned_iff)
    then show ?thesis
      by (simp add: bit_iff_odd)
  qed
  also have "even (unat b div 128) \<longleftrightarrow> unat b div 128 = 0"
  proof -
    have "unat b div 128 < 2"
      using unat_less_256 [of b] by simp
    then have "unat b div 128 = 0 \<or> unat b div 128 = 1"
      by linarith
    then show ?thesis
      by auto
  qed
  finally show "b AND 0x80 = 0 \<longleftrightarrow> unat b < 128"
    by (simp add: div_eq_0_iff) 
qed

section \<open>Decoding a token stream\<close>

lemma copy_back_extend:
  assumes "dist \<le> op" "1 \<le> dist" "op + n \<le> length out"
  shows "copy_back n dist op out = extend_match n dist (take op out) @ drop (op + n) out"
  using assms
proof (induction n arbitrary: op out)
  case (Suc n)
  let ?out = "out[op := out ! (op - dist)]"
  have t: "take (Suc op) ?out = take op out @ [take op out ! (length (take op out) - dist)]"
    using Suc.prems by (simp add: take_Suc_conv_app_nth)
  show ?case
    using Suc.IH [of "op + 1" ?out] Suc.prems t by simp
qed simp

lemma lzss_decode_tokens:
  assumes "src = pre @ concat (map encode_token ts)" "ip = length pre" "op \<le> length out"
    and "wf_tokens ts op" "length (run_tokens ts (take op out)) \<le> length out"
  shows "lzss_decode src ip op out =
    (let r = run_tokens ts (take op out) in (length r = length out, r @ drop (length r) out))"
  using assms
proof (induction ts arbitrary: pre ip op out)
  case Nil
  then show ?case
    by (subst lzss_decode.simps) (auto simp: min_def)
next
  case (Cons t ts)
  show ?case
  proof (cases t)
    case (Literals bs)
    let ?n = "length bs"
    define x :: u8 where "x = word_of_nat (?n - 1)"
    have src: "src = pre @ x # bs @ concat (map encode_token ts)"
      using Cons.prems(1) Literals x_def by simp
    have n: "1 \<le> ?n" "?n \<le> 128" "wf_tokens ts (op + ?n)"
      using Cons.prems(4) Literals by simp_all
    have x: "unat x = ?n - 1"
      using n unfolding x_def by (simp only: unsigned_of_nat) (simp add: take_bit_nat_eq_self)
    have room: "op + ?n \<le> length out"
      using Cons.prems(3,5) Literals length_run_tokens_mono [of "take op out @ bs" ts] by simp
    let ?out = "copy_at op bs out"
    have out: "take (op + ?n) ?out = take op out @ bs" "length ?out = length out"
      "drop k ?out = drop k out" if "op + ?n \<le> k" for k
      using room that by (simp_all add: copy_at_def)
    have run: "run_tokens ts (take (op + ?n) ?out) = run_tokens (t # ts) (take op out)"
      using out(1) [of "op + ?n"] Literals by simp
    have "lzss_decode src (ip + 1 + ?n) (op + ?n) ?out =
      (let r = run_tokens ts (take (op + ?n) ?out) in (length r = length ?out, r @ drop (length r) ?out))"
      by (rule Cons.IH [of "pre @ x # bs"])
        (use src Cons.prems(2,5) n(3) room run out(2) in simp_all)
    moreover have "lzss_decode src ip op out = lzss_decode src (ip + 1 + ?n) (op + ?n) ?out"
    proof -
      have i: "ip < length src" "src ! ip = x" "unat x + 1 = ?n" "x AND 0x80 = 0"
        "take ?n (drop (ip + 1) src) = bs" "\<not> length src < ip + 1 + ?n"
        using src Cons.prems(2) x n by (simp_all add: byte_fields)
      show ?thesis
        using room by (subst lzss_decode.simps) (simp only: i Let_def if_True if_False simp_thms, simp)
    qed
    moreover have "op + ?n \<le> length (run_tokens (t # ts) (take op out))"
      using length_run_tokens_mono [of "take op out @ bs" ts] Literals Cons.prems(3) by simp
    ultimately show ?thesis
      using run out(2,3) by (simp add: Let_def)
  next
    case (Match len dist)
    have b: "3 \<le> len" "len \<le> 10" "1 \<le> dist" "dist \<le> 4096" "dist \<le> op" "wf_tokens ts (op + len)"
      using Cons.prems(4) Match by (simp_all add: lzss_constants)
    obtain x y where xy: "match_token len dist = [x, y]"
      "unat x = 128 + 16 * (len - 3) + (dist - 1) div 256" "unat y = (dist - 1) mod 256"
      by (rule match_token_bytes [OF b(1-4)])
    have src: "src = pre @ x # y # concat (map encode_token ts)"
      using Cons.prems(1) Match xy(1) by simp
    have fields: "x AND 0x80 \<noteq> 0" "unat (drop_bit 4 x AND 0x07) + MIN_MATCH = len"
      "(push_bit 8 (unat (x AND 0x0F)) OR unat y) + 1 = dist"
    proof -
      have mod16: "(128 + 16 * l + h) mod 16 = h" if "h < 16" for l h :: nat
      proof -
        have "128 + 16 * l + h = h + 16 * (8 + l)"
          by simp
        then show ?thesis
          using that by (simp only: mod_mult_self2 mod_less)
      qed
      have q1: "(dist - 1) div 256 < 16"
        using b by simp
      have q: "(dist - 1) div 256 < 16" "(128 + 16 * (len - 3) + (dist - 1) div 256) div 16 = 8 + (len - 3)"
        "(128 + 16 * (len - 3) + (dist - 1) div 256) mod 16 = (dist - 1) div 256"
        using b q1 mod16 [OF q1] by simp_all
      show "x AND 0x80 \<noteq> 0"
        using xy(2) by (simp add: byte_fields)
      show "unat (drop_bit 4 x AND 0x07) + MIN_MATCH = len"
      proof -
        have "unat (drop_bit 4 x AND 0x07) = (8 + (len - 3)) mod 8"
          by (simp only: byte_fields xy(2) q)
        also have "\<dots> = len - 3"
          using b by (simp only: mod_add_self1) simp
        finally show ?thesis
          using b by (simp add: MIN_MATCH_def)
      qed
      have "(push_bit 8 (unat (x AND 0x0F)) OR unat y) = (dist - 1) div 256 * 2 ^ 8 + (dist - 1) mod 256"
        using or_shifted_nat [of "unat y" 8] xy q by (simp only: byte_fields) simp
      then show "(push_bit 8 (unat (x AND 0x0F)) OR unat y) + 1 = dist"
        using b(3) by simp
    qed
    have room: "op + len \<le> length out"
      using Cons.prems(3,5) Match length_run_tokens_mono [of "extend_match len dist (take op out)" ts] by simp
    let ?out = "copy_back len dist op out"
    have cb: "?out = extend_match len dist (take op out) @ drop (op + len) out"
      using copy_back_extend b room by simp
    have out: "take (op + len) ?out = extend_match len dist (take op out)" "length ?out = length out"
      "drop k ?out = drop k out" if "op + len \<le> k" for k
      using room that by (simp_all add: cb)
    have run: "run_tokens ts (take (op + len) ?out) = run_tokens (t # ts) (take op out)"
      using out(1) [of "op + len"] Match by simp
    have "lzss_decode src (ip + 2) (op + len) ?out =
      (let r = run_tokens ts (take (op + len) ?out) in (length r = length ?out, r @ drop (length r) ?out))"
      by (rule Cons.IH [of "pre @ [x, y]"])
        (use src Cons.prems(2,5) b(6) room run out(2) in simp_all)
    moreover have "lzss_decode src ip op out = lzss_decode src (ip + 2) (op + len) ?out"
    proof -
      have i: "ip < length src" "\<not> length src \<le> ip + 1" "src ! ip = x" "src ! (ip + 1) = y"
        using src Cons.prems(2) by (simp_all add: nth_append)
      show ?thesis
        using b(5) room by (subst lzss_decode.simps) (simp only: i fields Let_def if_True if_False simp_thms, simp)
    qed
    moreover have "op + len \<le> length (run_tokens (t # ts) (take op out))"
      using length_run_tokens_mono [of "extend_match len dist (take op out)" ts] Match Cons.prems(3) by simp
    ultimately show ?thesis
      using run out(2,3) by (simp add: Let_def)
  qed
qed

section \<open>What the compressor emits\<close>

lemma flush_literals_tokens:
  "\<exists>ts. flush_literals out literals = out @ concat (map encode_token ts) \<and>
     (\<forall>d n. run_tokens ts d = d @ literals \<and> wf_tokens ts n)"
proof (induction out literals rule: flush_literals.induct)
  case (1 out literals)
  show ?case
  proof (cases "literals = []")
    case True
    then show ?thesis
      by (intro exI [of _ "[]"]) (simp add: flush_literals.simps)
  next
    case False
    let ?n = "min (length literals) 128"
    obtain ts where ts: "flush_literals (out @ word_of_nat (?n - 1) # take ?n literals) (drop ?n literals) =
        (out @ word_of_nat (?n - 1) # take ?n literals) @ concat (map encode_token ts)"
      "\<forall>d n. run_tokens ts d = d @ drop ?n literals \<and> wf_tokens ts n"
      using "1.IH" [OF False refl] by blast
    have "flush_literals out literals = out @ concat (map encode_token (Literals (take ?n literals) # ts))"
      using False ts(1) by (subst flush_literals.simps) (simp add: Let_def)
    then show ?thesis
      using ts(2) False by (intro exI [of _ "Literals (take ?n literals) # ts"]) (auto simp: Suc_le_eq)
  qed
qed

lemma match_length_spec:
  assumes "match_length input cand pos max_len mlen = Some r" "mlen \<le> max_len"
    and "\<forall>k < mlen. input ! (cand + k) = input ! (pos + k)"
  shows "r \<le> max_len \<and> (\<forall>k < r. input ! (cand + k) = input ! (pos + k))"
  using assms
proof (induction input cand pos max_len mlen rule: match_length.induct)
  case (1 input cand pos max_len mlen)
  show ?case
    using "1.prems" "1.IH" match_length.simps [of input cand pos max_len mlen]
    by (auto split: if_splits simp: less_Suc_eq)
qed

lemma match_length_returns:
  "pos + max_len \<le> length input \<Longrightarrow> cand < pos \<Longrightarrow> match_length input cand pos max_len mlen \<noteq> None"
proof (induction input cand pos max_len mlen rule: match_length.induct)
  case (1 input cand pos max_len mlen)
  then show ?case
    by (subst match_length.simps) auto
qed

lemma extend_match_input:
  assumes "dist \<le> pos" "1 \<le> dist" "pos + n \<le> length input"
    and "\<forall>k < n. input ! (pos - dist + k) = input ! (pos + k)"
  shows "extend_match n dist (take pos input) = take (pos + n) input"
  using assms
proof (induction n arbitrary: pos)
  case (Suc n)
  have "take pos input @ [take pos input ! (length (take pos input) - dist)] = take (Suc pos) input"
    using Suc.prems by (auto simp: take_Suc_conv_app_nth)
  moreover have "\<forall>k < n. input ! (Suc pos - dist + k) = input ! (Suc pos + k)"
    using Suc.prems(1,4) by (metis Suc_diff_le Suc_mono add_Suc_shift)
  ultimately show ?case
    using Suc.IH [of "Suc pos"] Suc.prems(1-3) by simp
qed simp

lemma hash3_less: "hash3 bytes = Some h \<Longrightarrow> h < HASH_SIZE"
  using take_bit_nat_less_exp [of 12]
  by (auto simp: hash3_def HASH_SIZE_def HASH_BITS_def take_bit_eq_mask mask_eq_exp_minus_1 split: if_splits)

lemma hash3_Some: "3 \<le> length bytes \<Longrightarrow> \<exists>h. hash3 bytes = Some h"
  by (simp add: hash3_def)

definition tab_ok :: "nat \<Rightarrow> u16 list \<Rightarrow> bool" where
  "tab_ok pos tab \<longleftrightarrow> length tab = HASH_SIZE \<and> (\<forall>w \<in> set tab. unat w = U16_MAX \<or> unat w < pos)"

lemma record_position_ok:
  assumes "tab_ok pos tab" "p < pos" "p < 65536"
  shows "\<exists>tab'. record_position input p tab = Some tab' \<and> tab_ok pos tab'"
proof (cases "p + MIN_MATCH \<le> length input")
  case True
  then have "3 \<le> length (drop p input)"
    by (simp add: MIN_MATCH_def)
  then obtain h where h: "hash3 (drop p input) = Some h"
    using hash3_Some by blast
  have p: "unat (word_of_nat p :: u16) = p"
    using assms(3) by (simp add: unsigned_of_nat take_bit_nat_eq_self)
  have "tab_ok pos (tab[h := word_of_nat p])"
    using assms(1,2) p set_update_subset_insert [of tab h "word_of_nat p"] by (auto simp: tab_ok_def)
  then show ?thesis
    using True h hash3_less [OF h] assms(1) by (auto simp: record_position_def tab_ok_def)
qed (use assms in \<open>auto simp: record_position_def\<close>)

lemma record_positions_ok:
  "tab_ok pos tab \<Longrightarrow> \<forall>p \<in> set ps. p < pos \<and> p < 65536 \<Longrightarrow>
   \<exists>tab'. record_positions input ps tab = Some tab' \<and> tab_ok pos tab'"
proof (induction ps arbitrary: tab)
  case (Cons p ps)
  obtain tab1 where "record_position input p tab = Some tab1" "tab_ok pos tab1"
    using record_position_ok Cons.prems by (metis list.set_intros(1))
  then show ?case
    using Cons.IH [of tab1] Cons.prems(2) by auto
qed simp

lemma tab_ok_mono: "tab_ok pos tab \<Longrightarrow> pos \<le> pos' \<Longrightarrow> tab_ok pos' tab"
  by (auto simp: tab_ok_def)

lemma find_match_ok:
  assumes "tab_ok pos tab" "pos < length input"
  shows "\<exists>n dist. find_match input pos tab = Some (n, dist) \<and>
    (MIN_MATCH \<le> n \<longrightarrow> n \<le> MAX_MATCH \<and> 1 \<le> dist \<and> dist \<le> MAX_DIST \<and> dist \<le> pos \<and>
       pos + n \<le> length input \<and> (\<forall>k < n. input ! (pos - dist + k) = input ! (pos + k)))"
proof (cases "MIN_MATCH \<le> pos \<and> MIN_MATCH \<le> length input - pos")
  case True
  then have "3 \<le> length (take MIN_MATCH (drop pos input))"
    by (simp add: MIN_MATCH_def)
  then obtain h where h: "hash3 (take MIN_MATCH (drop pos input)) = Some h"
    using hash3_Some by blast
  define cand where "cand = unat (tab ! h)"
  have hl: "h < length tab"
    using hash3_less [OF h] assms(1) by (simp add: tab_ok_def)
  have cand: "cand = U16_MAX \<or> cand < pos"
    using assms(1) hl by (auto simp: tab_ok_def cand_def)
  show ?thesis
  proof (cases "cand < pos \<and> cand \<noteq> U16_MAX \<and> pos - cand \<le> MAX_DIST")
    case found: True
    let ?m = "min (length input - pos) MAX_MATCH"
    obtain r where r: "match_length input cand pos ?m 0 = Some r"
      using match_length_returns [of pos ?m input cand 0] found assms(2) by fastforce
    have "r \<le> ?m" "\<forall>k < r. input ! (cand + k) = input ! (pos + k)"
      using match_length_spec [OF r] by simp_all
    moreover have "find_match input pos tab =
        Some (if MIN_MATCH \<le> r then (r, pos - cand) else (0, 0))"
      using True h hl r found by (simp add: find_match_def cand_def Let_def)
    ultimately show ?thesis
      using found assms(2) by (auto simp: MIN_MATCH_def)
  next
    case False
    then have "find_match input pos tab = Some (0, 0)"
      using True h hl cand by (auto simp: find_match_def cand_def Let_def)
    then show ?thesis
      by (simp add: MIN_MATCH_def)
  qed
next
  case False
  then have "find_match input pos tab = Some (0, 0)"
    by (auto simp: find_match_def Let_def)
  then show ?thesis
    by (simp add: MIN_MATCH_def)
qed

lemma flush_after:
  assumes "out = concat (map encode_token ts)" "wf_tokens ts 0" "run_tokens ts [] @ literals = take pos input"
  obtains us where "flush_literals out literals = concat (map encode_token us)" "wf_tokens us 0"
    "run_tokens us [] = take pos input"
proof -
  obtain vs where vs: "flush_literals out literals = out @ concat (map encode_token vs)"
    "\<forall>d n. run_tokens vs d = d @ literals \<and> wf_tokens vs n"
    using flush_literals_tokens by blast
  show thesis
    by (rule that [of "ts @ vs"])
      (use vs assms wf_tokens_append [of ts vs "[]"] in \<open>simp_all add: run_tokens_append\<close>)
qed

lemma lzss_loop_tokens:
  assumes "length input \<le> PAGE_SIZE" "tab_ok pos hash_tab" "pos \<le> length input"
    and "out = concat (map encode_token ts)" "wf_tokens ts 0" "run_tokens ts [] @ literals = take pos input"
  shows "\<exists>us. lzss_loop input pos literals hash_tab out = Some (concat (map encode_token us)) \<and>
    wf_tokens us 0 \<and> run_tokens us [] = input"
  using assms
proof (induction input pos literals hash_tab out arbitrary: ts rule: lzss_loop.induct)
  case (1 input pos literals hash_tab out)
  show ?case
  proof (cases "pos < length input")
    case False
    obtain us where us: "flush_literals out literals = concat (map encode_token us)" "wf_tokens us 0"
      "run_tokens us [] = take pos input"
      by (rule flush_after [OF "1.prems"(4-6)])
    then show ?thesis
      using False "1.prems"(3) by (auto simp: lzss_loop.simps)
  next
    case True
    have p: "pos < 65536" "pos < 4096"
      using True "1.prems"(1) by (simp_all add: PAGE_SIZE_def)
    obtain n dist where m: "find_match input pos hash_tab = Some (n, dist)"
      "MIN_MATCH \<le> n \<Longrightarrow> n \<le> MAX_MATCH \<and> 1 \<le> dist \<and> dist \<le> MAX_DIST \<and> dist \<le> pos \<and>
         pos + n \<le> length input \<and> (\<forall>k < n. input ! (pos - dist + k) = input ! (pos + k))"
      using find_match_ok [OF "1.prems"(2) True] by blast
    show ?thesis
    proof (cases "MIN_MATCH \<le> n")
      case long: True
      note mm = m(2) [OF long]
      obtain tab' where tab': "record_positions input [pos..<pos + n] hash_tab = Some tab'" "tab_ok (pos + n) tab'"
        using record_positions_ok [OF tab_ok_mono [OF "1.prems"(2)], of "pos + n" "[pos..<pos + n]" input]
          mm "1.prems"(1) by (auto simp: PAGE_SIZE_def)
      obtain us where us: "flush_literals out literals = concat (map encode_token us)" "wf_tokens us 0"
        "run_tokens us [] = take pos input"
        by (rule flush_after [OF "1.prems"(4-6)])
      have "wf_tokens (us @ [Match n dist]) 0"
        using wf_tokens_append [of us "[Match n dist]" "[]"] us(2,3) mm long True by simp
      moreover have "run_tokens (us @ [Match n dist]) [] = take (pos + n) input"
      proof -
        have "extend_match n dist (take pos input) = take (pos + n) input"
          by (rule extend_match_input) (use mm in blast)+
        then show ?thesis
          using us(3) by (simp add: run_tokens_append)
      qed
      moreover have "lzss_loop input pos literals hash_tab out =
          lzss_loop input (pos + n) [] tab' (concat (map encode_token (us @ [Match n dist])))"
        using True m(1) long tab'(1) us(1) by (subst lzss_loop.simps) simp
      ultimately show ?thesis
        using "1.IH"(1) [OF True m(1) refl long tab'(1), of "us @ [Match n dist]"] "1.prems"(1) tab'(2) mm us(1)
        by simp
    next
      case short: False
      obtain tab' where tab': "record_position input pos hash_tab = Some tab'" "tab_ok (pos + 1) tab'"
        using record_position_ok [OF tab_ok_mono [OF "1.prems"(2)], of "pos + 1" pos input] p(1) by auto
      let ?l = "literals @ [input ! pos]"
      have lit: "run_tokens ts [] @ ?l = take (pos + 1) input"
        using "1.prems"(6) True by (simp add: take_Suc_conv_app_nth)
      show ?thesis
      proof (cases "length ?l = 128")
        case full: True
        obtain us where us: "flush_literals out ?l = concat (map encode_token us)" "wf_tokens us 0"
          "run_tokens us [] = take (pos + 1) input"
          by (rule flush_after [OF "1.prems"(4,5) lit])
        have "lzss_loop input pos literals hash_tab out =
            lzss_loop input (pos + 1) [] tab' (concat (map encode_token us))"
          using True m(1) short tab'(1) us(1) full by (subst lzss_loop.simps) (simp add: Let_def)
        then show ?thesis
          using "1.IH"(2) [OF True m(1) refl short tab'(1) refl full, of us] "1.prems"(1) tab'(2) us True by simp
      next
        case room: False
        have "lzss_loop input pos literals hash_tab out = lzss_loop input (pos + 1) ?l tab' out"
          using True m(1) short tab'(1) room by (subst lzss_loop.simps) (simp add: Let_def)
        then show ?thesis
          using "1.IH"(3) [OF True m(1) refl short tab'(1) refl room, of ts] "1.prems" tab'(2) lit True by simp
      qed
    qed
  qed
qed

lemma lzss_round_trip:
  assumes "length input = PAGE_SIZE" "length out = PAGE_SIZE"
  shows "\<exists>stream. lzss_compress input = Some stream \<and> lzss_decompress stream out = (True, input)"
proof -
  have "tab_ok 0 (replicate HASH_SIZE (word_of_nat U16_MAX))"
    by (simp add: tab_ok_def)
  then obtain us where us: "lzss_compress input = Some (concat (map encode_token us))" "wf_tokens us 0"
    "run_tokens us [] = input"
    using lzss_loop_tokens [of input 0 "replicate HASH_SIZE (word_of_nat U16_MAX)" "[]" "[]" "[]"] assms(1)
    by (auto simp: lzss_compress_def)
  have "lzss_decode (concat (map encode_token us)) 0 0 out = (True, input)"
    using lzss_decode_tokens [of _ "[]" us 0 0 out, OF refl] us(2,3) assms by simp
  then show ?thesis
    using us(1) by (auto simp: lzss_decompress_def)
qed

section \<open>What a decoded page depends on\<close>

lemma length_copy_back [simp]: "length (copy_back n dist op out) = length out"
  by (induction n dist op out rule: copy_back.induct) simp_all

lemma lzss_decode_length: "length (snd (lzss_decode src ip op out)) = length out"
proof (induction src ip op out rule: lzss_decode.induct)
  case (1 src ip op out)
  show ?case
    using "1.IH" by (subst lzss_decode.simps) (auto simp: Let_def copy_at_def)
qed

lemma lzss_decode_determined:
  "op \<le> length out \<Longrightarrow> length out' = length out \<Longrightarrow> take op out' = take op out \<Longrightarrow>
   lzss_decode src ip op out = (True, r) \<Longrightarrow> lzss_decode src ip op out' = (True, r)"
proof (induction src ip op out arbitrary: out' rule: lzss_decode.induct)
  case (1 src ip op out)
  show ?case
  proof (cases "ip < length src")
    case False
    then show ?thesis
      using "1.prems" by (auto simp: lzss_decode.simps)
  next
    case True
    let ?b = "src ! ip"
    show ?thesis
    proof (cases "?b AND 0x80 = 0")
      case lit: True
      let ?n = "unat ?b + 1"
      let ?bs = "take ?n (drop (ip + 1) src)"
      have room: "\<not> (length src < ip + 1 + ?n \<or> length out < op + ?n)"
        using "1.prems"(4) True lit by (subst (asm) lzss_decode.simps) (auto simp: Let_def split: if_splits)
      then have go: "lzss_decode src ip op o' = lzss_decode src (ip + 1 + ?n) (op + ?n) (copy_at op ?bs o')"
        if "length o' = length out" for o'
        using True lit that by (subst lzss_decode.simps) (simp add: Let_def)
      have bs: "length ?bs = ?n"
        using room by auto
      have len: "length (copy_at op xs o') = length out"
        "take (op + length xs) (copy_at op xs o') = take op o' @ xs"
        if "length o' = length out" "op + length xs \<le> length out" for o' xs
        using that "1.prems"(1) by (simp_all add: copy_at_def)
      have "op + length ?bs \<le> length out"
        using room bs by linarith
      note l = len(1) [OF refl this] len(1) [OF "1.prems"(2) this] len(2) [OF refl this, unfolded bs]
        len(2) [OF "1.prems"(2) this, unfolded bs]
      have "lzss_decode src (ip + 1 + ?n) (op + ?n) (copy_at op ?bs out') = (True, r)"
        by (rule "1.IH"(1) [OF True refl lit refl room])
          (use room in \<open>simp only: l not_less de_Morgan_disj\<close>, simp only: l, simp only: l "1.prems"(3),
           use "1.prems"(4) go [of out] in simp)
      then show ?thesis
        using go [of out'] "1.prems"(2) by simp
    next
      case match: False
      let ?len = "unat (drop_bit 4 ?b AND 0x07) + MIN_MATCH"
      let ?dist = "(push_bit 8 (unat (?b AND 0x0F)) OR unat (src ! (ip + 1))) + 1"
      have room: "\<not> length src \<le> ip + 1" "\<not> (op < ?dist \<or> length out < op + ?len)"
        using "1.prems"(4) True match by (subst (asm) lzss_decode.simps; auto simp: Let_def split: if_splits)+
      then have go: "lzss_decode src ip op o' = lzss_decode src (ip + 2) (op + ?len) (copy_back ?len ?dist op o')"
        if "length o' = length out" for o'
        using True match that by (subst lzss_decode.simps) (simp add: Let_def)
      have "copy_back ?len ?dist op o' = extend_match ?len ?dist (take op o') @ drop (op + ?len) o'"
        if "length o' = length out" for o'
        using room(2) that by (intro copy_back_extend) auto
      then have "take (op + ?len) (copy_back ?len ?dist op out') = take (op + ?len) (copy_back ?len ?dist op out)"
        using room "1.prems"(1-3) by simp
      then show ?thesis
        using "1.IH"(2) [OF True refl match room(1) refl refl room(2), of "copy_back ?len ?dist op out'"]
          go [of out] go [of out'] "1.prems" room
        by simp
    qed
  qed
qed

section \<open>Pages survive compression\<close>

lemma page_round_trip:
  assumes "length input = PAGE_SIZE" "length out = PAGE_SIZE"
  shows "\<exists>r. compress_page input = Some r \<and>
    (\<forall>encoded. r = Some encoded \<longrightarrow> length encoded < PAGE_SIZE \<and> decompress_page encoded out = (True, input))"
proof -
  obtain stream where lz: "lzss_compress input = Some stream" "lzss_decompress stream out = (True, input)"
    using lzss_round_trip [OF assms] by blast
  consider (zero) "list_all (\<lambda>b. b = 0) input"
    | (rle) "\<not> list_all (\<lambda>b. b = 0) input" "list_all (\<lambda>b. b = input ! 0) (drop 1 input)"
    | (lzss) "\<not> list_all (\<lambda>b. b = 0) input" "\<not> list_all (\<lambda>b. b = input ! 0) (drop 1 input)"
    by blast
  then show ?thesis
  proof cases
    case zero
    then have "input = replicate PAGE_SIZE 0"
      using assms(1) by (simp add: list_all_iff replicate_eqI)
    then show ?thesis
      using zero assms by (simp add: compress_page_def decompress_page_def PAGE_SIZE_def)
  next
    case rle
    have ne: "input \<noteq> []"
      using assms(1) by (auto simp: PAGE_SIZE_def)
    then have "\<forall>b \<in> set input. b = input ! 0"
      using rle(2) by (cases input) (auto simp: list_all_iff)
    then have "input = replicate PAGE_SIZE (input ! 0)"
      using assms(1) by (intro replicate_eqI) simp_all
    then show ?thesis
      using rle assms by (simp add: compress_page_def decompress_page_def PAGE_SIZE_def)
  next
    case lzss
    then show ?thesis
      using lz assms by (simp add: compress_page_def decompress_page_def)
  qed
qed

section \<open>Properties\<close>

text \<open>C6: Page compression loses nothing: every page has a chunk encoding of at most one byte more
  than the page, the compressor never indexes out of range, and decompressing the encoding into any
  page buffer succeeds and gives the page back.\<close>

theorem chunk_round_trip:
  assumes "length input = PAGE_SIZE" "length out = PAGE_SIZE"
  shows "\<exists>encoded. compress_chunk input = Some encoded \<and> length encoded \<le> 1 + PAGE_SIZE \<and>
    decompress_page encoded out = (True, input)"
proof -
  obtain r where r: "compress_page input = Some r"
    "\<And>encoded. r = Some encoded \<Longrightarrow> length encoded < PAGE_SIZE \<and> decompress_page encoded out = (True, input)"
    using page_round_trip [OF assms] by blast
  show ?thesis
    using r assms by (cases r) (auto simp: compress_chunk_def decompress_page_def)
qed

theorem chunk_round_trip_witness:
  "\<exists>encoded. compress_chunk (replicate PAGE_SIZE 0xA5) = Some encoded \<and> length encoded \<le> 1 + PAGE_SIZE \<and>
    decompress_page encoded (replicate PAGE_SIZE 0) = (True, replicate PAGE_SIZE 0xA5)"
  using chunk_round_trip [of "replicate PAGE_SIZE 0xA5" "replicate PAGE_SIZE 0"] by simp

text \<open>A page that decompresses successfully does not depend on what the buffer held: whatever
  the encoded bytes are, the page is the same for every buffer, and it has the size of a page.\<close>

lemma decompress_determined:
  assumes "decompress_page encoded out = (True, page)" "length out' = PAGE_SIZE"
  shows "decompress_page encoded out' = (True, page) \<and> length page = PAGE_SIZE"
proof -
  have out: "length out = PAGE_SIZE" "encoded \<noteq> []"
    using assms(1) by (auto simp: decompress_page_def split: if_splits)
  show ?thesis
  proof (cases "encoded ! 0 = 0x02")
    case True
    then have "lzss_decode (drop 1 encoded) 0 0 out = (True, page)"
      using assms(1) out by (simp add: decompress_page_def lzss_decompress_def)
    then show ?thesis
      using lzss_decode_determined [of 0 out out' "drop 1 encoded" 0 page]
        lzss_decode_length [of "drop 1 encoded" 0 0 out] True out assms(2)
      by (simp add: decompress_page_def lzss_decompress_def)
  next
    case False
    then show ?thesis
      using assms out unfolding decompress_page_def by (auto simp: PAGE_SIZE_def split: if_splits)
  qed
qed

lemma decompress_determined_witness:
  "decompress_page [0x01, 7] (replicate PAGE_SIZE 0) = (True, replicate PAGE_SIZE 7) \<and>
   decompress_page [0x01, 7] (replicate PAGE_SIZE 9) = (True, replicate PAGE_SIZE 7)"
proof -
  have "decompress_page [0x01, 7] (replicate PAGE_SIZE 0) = (True, replicate PAGE_SIZE 7)"
    by (simp add: decompress_page_def PAGE_SIZE_def)
  then show ?thesis
    using decompress_determined [of "[0x01, 7]" "replicate PAGE_SIZE 0" "replicate PAGE_SIZE 7" "replicate PAGE_SIZE 9"]
    by simp
qed

end
