(* ===== verification/Page_Table.thy ===== *)
theory Page_Table
  imports Page_Compression
begin

text \<open>
  The software page table (\<open>src/memory/paging.rs\<close>): one list of mappings for the whole machine, each with
  the address space it belongs to.  The kernel's mappings belong to address space 0 and answer for every
  address space.  Addresses are natural numbers below \<open>2 ^ 64\<close>; the code's unchecked additions stay below
  that bound by the invariant \<open>table_ok\<close>.  \<open>reserved\<close> is the answer of \<open>try_reserve\<close>.
\<close>

unbundle bit_operations_syntax

section \<open>Data\<close>

datatype AdviceHint = Normal | Random | Sequential

type_synonym address_space_id = nat

definition KERNEL :: address_space_id where "KERNEL = 0"

definition matches :: "address_space_id \<Rightarrow> address_space_id \<Rightarrow> bool" where
  "matches owner wanted \<longleftrightarrow> wanted = owner \<or> owner = KERNEL"

datatype MappingKind =
    KernelHeap | KernelStack | Anonymous | Identity | DeviceMemory | DemandPaged | Cow | Shared | Locked

type_synonym page_permissions = u8

definition READ :: page_permissions where "READ = 0b001"
definition WRITE :: page_permissions where "WRITE = 0b010"
definition EXECUTE :: page_permissions where "EXECUTE = 0b100"
definition READ_WRITE :: page_permissions where "READ_WRITE = READ OR WRITE"
definition READ_EXECUTE :: page_permissions where "READ_EXECUTE = READ OR EXECUTE"
definition READ_WRITE_EXECUTE :: page_permissions where "READ_WRITE_EXECUTE = READ OR WRITE OR EXECUTE"

definition permissions_contain :: "page_permissions \<Rightarrow> page_permissions \<Rightarrow> bool" where
  "permissions_contain p q \<longleftrightarrow> p AND q = q"

definition fork_child_permissions :: "page_permissions \<Rightarrow> page_permissions" where
  "fork_child_permissions p =
     (if permissions_contain p WRITE
      then if permissions_contain p EXECUTE then READ_EXECUTE else READ
      else p)"

text \<open>\<open>x & !(align - 1)\<close> for a power of two.\<close>

definition align_up_to :: "nat \<Rightarrow> nat \<Rightarrow> nat option" where
  "align_up_to v align = map_option (\<lambda>aligned. aligned - aligned mod align) (checked_add v (align - 1))"

definition range_within :: "nat \<Rightarrow> nat \<Rightarrow> nat \<Rightarrow> nat \<Rightarrow> bool" where
  "range_within start stop region_start region_end \<longleftrightarrow> region_start \<le> start \<and> stop \<le> region_end \<and> start \<le> stop"

record page_mapping =
  virtual_address :: nat
  physical_address :: nat
  map_length :: nat
  map_permissions :: page_permissions
  map_kind :: MappingKind
  accessed :: bool
  advice :: AdviceHint
  map_owner :: address_space_id

record page_table =
  mappings :: "page_mapping list"
  pt_initialized :: bool

definition new_page_table :: page_table where
  "new_page_table = \<lparr>mappings = [], pt_initialized = False\<rparr>"

definition init_page_table :: "page_table \<Rightarrow> page_table" where
  "init_page_table t = t\<lparr>pt_initialized := True\<rparr>"

section \<open>Ranges\<close>

definition range_end :: "nat \<Rightarrow> nat \<Rightarrow> nat option" where
  "range_end start len = checked_add start len"

definition page_align_down :: "nat \<Rightarrow> nat" where
  "page_align_down v = v - v mod PAGE_SIZE"

definition page_align_up :: "nat \<Rightarrow> nat option" where
  "page_align_up v = map_option page_align_down (checked_add v (PAGE_SIZE - 1))"

definition overlaps_range :: "page_mapping \<Rightarrow> nat \<Rightarrow> nat \<Rightarrow> bool" where
  "overlaps_range m start len =
     (case range_end (virtual_address m) (map_length m) of
        None \<Rightarrow> True
      | Some self_end \<Rightarrow>
          (case range_end start len of
             None \<Rightarrow> True
           | Some stop \<Rightarrow> virtual_address m < stop \<and> start < self_end))"

definition normalize_virtual_range :: "nat \<Rightarrow> nat \<Rightarrow> (nat \<times> nat) result" where
  "normalize_virtual_range va len =
     (if len = 0 then Inl InvalidArgument
      else case checked_add (va mod PAGE_SIZE) len of None \<Rightarrow> Inl InvalidArgument
      | Some span \<Rightarrow> (case page_align_up span of None \<Rightarrow> Inl InvalidArgument
        | Some n \<Rightarrow> (case range_end (page_align_down va) n of None \<Rightarrow> Inl InvalidArgument
          | Some _ \<Rightarrow> Inr (page_align_down va, n))))"

definition normalize_mapping :: "nat \<Rightarrow> nat \<Rightarrow> nat \<Rightarrow> (nat \<times> nat \<times> nat) result" where
  "normalize_mapping va pa len =
     (if va mod PAGE_SIZE \<noteq> pa mod PAGE_SIZE then Inl InvalidArgument
      else bind_result (normalize_virtual_range va len) (\<lambda>(start, n).
        case range_end (page_align_down pa) n of
          None \<Rightarrow> Inl InvalidArgument
        | Some _ \<Rightarrow> Inr (start, page_align_down pa, n)))"

section \<open>Mapping and unmapping\<close>

definition map_to_owned ::
  "bool \<Rightarrow> address_space_id \<Rightarrow> nat \<Rightarrow> nat \<Rightarrow> nat \<Rightarrow> page_permissions \<Rightarrow> MappingKind \<Rightarrow> page_table \<Rightarrow> unit result \<times> page_table" where
  "map_to_owned reserved owner va pa len perms kind t =
     (if \<not> pt_initialized t then (Inl InvalidArgument, t)
      else case normalize_mapping va pa len of
        Inl e \<Rightarrow> (Inl e, t)
      | Inr (start, pstart, n) \<Rightarrow>
          if list_ex (\<lambda>m. matches (map_owner m) owner \<and> overlaps_range m start n) (mappings t) then (Inl AlreadyExists, t)
          else if \<not> reserved then (Inl OutOfMemory, t)
          else (Inr (), t\<lparr>mappings := mappings t @
            [\<lparr>virtual_address = start, physical_address = pstart, map_length = n, map_permissions = perms, map_kind = kind,
              accessed = False, advice = Normal, map_owner = owner\<rparr>]\<rparr>))"

definition map_to_with_kind :: "bool \<Rightarrow> nat \<Rightarrow> nat \<Rightarrow> nat \<Rightarrow> page_permissions \<Rightarrow> MappingKind \<Rightarrow> page_table \<Rightarrow> unit result \<times> page_table" where
  "map_to_with_kind reserved va pa len perms kind t = map_to_owned reserved KERNEL va pa len perms kind t"

definition map_to :: "bool \<Rightarrow> nat \<Rightarrow> nat \<Rightarrow> nat \<Rightarrow> page_permissions \<Rightarrow> page_table \<Rightarrow> unit result \<times> page_table" where
  "map_to reserved va pa len perms t = map_to_with_kind reserved va pa len perms Anonymous t"

definition map_region_with_kind :: "bool \<Rightarrow> nat \<Rightarrow> nat \<Rightarrow> page_permissions \<Rightarrow> MappingKind \<Rightarrow> page_table \<Rightarrow> unit result \<times> page_table" where
  "map_region_with_kind reserved va len perms kind t = map_to_with_kind reserved va va len perms kind t"

definition map_region :: "bool \<Rightarrow> nat \<Rightarrow> nat \<Rightarrow> page_permissions \<Rightarrow> page_table \<Rightarrow> unit result \<times> page_table" where
  "map_region reserved va len perms t = map_region_with_kind reserved va len perms Anonymous t"

text \<open>What is left of one visible mapping that the removed range meets: a prefix and a suffix.\<close>

definition remaining_parts :: "nat \<Rightarrow> nat \<Rightarrow> nat \<Rightarrow> page_mapping \<Rightarrow> page_mapping list" where
  "remaining_parts unmap_start unmap_end mapping_end m =
     (if virtual_address m < unmap_start then [m\<lparr>map_length := unmap_start - virtual_address m\<rparr>] else []) @
     (if unmap_end < mapping_end
      then [m\<lparr>virtual_address := unmap_end, physical_address := physical_address m + (unmap_end - virtual_address m),
              map_length := mapping_end - unmap_end, accessed := False\<rparr>]
      else [])"

fun unmap_loop :: "address_space_id \<Rightarrow> nat \<Rightarrow> nat \<Rightarrow> page_mapping list \<Rightarrow> page_mapping list \<Rightarrow> bool \<Rightarrow> (page_mapping list \<times> bool) result" where
  "unmap_loop owner unmap_start unmap_end [] nxt found = Inr (nxt, found)"
| "unmap_loop owner unmap_start unmap_end (m # ms) nxt found =
     (case range_end (virtual_address m) (map_length m) of
        None \<Rightarrow> Inl InternalError
      | Some mapping_end \<Rightarrow>
          if \<not> matches (map_owner m) owner \<or> mapping_end \<le> unmap_start \<or> unmap_end \<le> virtual_address m
          then unmap_loop owner unmap_start unmap_end ms (nxt @ [m]) found
          else unmap_loop owner unmap_start unmap_end ms (nxt @ remaining_parts unmap_start unmap_end mapping_end m) True)"

definition unmap_owned :: "bool \<Rightarrow> address_space_id \<Rightarrow> nat \<Rightarrow> nat \<Rightarrow> page_table \<Rightarrow> unit result \<times> page_table" where
  "unmap_owned reserved owner va len t =
     (if \<not> pt_initialized t then (Inl InvalidArgument, t)
      else case normalize_virtual_range va len of
        Inl e \<Rightarrow> (Inl e, t)
      | Inr (unmap_start, unmap_length) \<Rightarrow>
          (case range_end unmap_start unmap_length of
             None \<Rightarrow> (Inl InvalidArgument, t)
           | Some unmap_end \<Rightarrow>
               if \<not> reserved then (Inl OutOfMemory, t)
               else (case unmap_loop owner unmap_start unmap_end (mappings t) [] False of
                       Inl e \<Rightarrow> (Inl e, t)
                     | Inr (nxt, found) \<Rightarrow> if \<not> found then (Inl NotFound, t) else (Inr (), t\<lparr>mappings := nxt\<rparr>))))"

definition unmap :: "bool \<Rightarrow> nat \<Rightarrow> nat \<Rightarrow> page_table \<Rightarrow> unit result \<times> page_table" where
  "unmap reserved va len t = unmap_owned reserved KERNEL va len t"

section \<open>Lookup\<close>

definition mapping_covers :: "page_mapping \<Rightarrow> nat \<Rightarrow> bool" where
  "mapping_covers m address =
     (case range_end (virtual_address m) (map_length m) of
        None \<Rightarrow> False
      | Some stop \<Rightarrow> virtual_address m \<le> address \<and> address < stop)"

definition lookup_mapping_owned :: "address_space_id \<Rightarrow> nat \<Rightarrow> page_table \<Rightarrow> (nat \<times> page_permissions \<times> MappingKind) option" where
  "lookup_mapping_owned owner address t =
     (let own = find (\<lambda>m. map_owner m = owner \<and> mapping_covers m address) (mappings t);
          chosen = (case own of Some m \<Rightarrow> Some m
            | None \<Rightarrow> find (\<lambda>m. map_owner m = KERNEL \<and> mapping_covers m address) (mappings t))
      in map_option (\<lambda>m. (physical_address m + (address - virtual_address m), map_permissions m, map_kind m)) chosen)"

definition lookup_mapping :: "nat \<Rightarrow> page_table \<Rightarrow> (nat \<times> page_permissions \<times> MappingKind) option" where
  "lookup_mapping address t = lookup_mapping_owned KERNEL address t"

definition lookup :: "nat \<Rightarrow> page_table \<Rightarrow> (nat \<times> page_permissions) option" where
  "lookup address t = map_option (\<lambda>(phys, perms, _). (phys, perms)) (lookup_mapping address t)"

definition mapping_count :: "page_table \<Rightarrow> nat" where
  "mapping_count t = length (mappings t)"

definition mapping_count_by_kind :: "MappingKind \<Rightarrow> page_table \<Rightarrow> nat" where
  "mapping_count_by_kind kind t = length (filter (\<lambda>m. map_kind m = kind) (mappings t))"

section \<open>Changing one mapping\<close>

text \<open>\<open>iter_mut().find\<close>: the first mapping of the owner that starts at the page is changed.\<close>

fun update_first :: "(page_mapping \<Rightarrow> bool) \<Rightarrow> (page_mapping \<Rightarrow> page_mapping) \<Rightarrow> page_mapping list \<Rightarrow> page_mapping list" where
  "update_first p f [] = []"
| "update_first p f (m # ms) = (if p m then f m # ms else m # update_first p f ms)"

definition starts_at :: "address_space_id \<Rightarrow> nat \<Rightarrow> page_mapping \<Rightarrow> bool" where
  "starts_at owner va m \<longleftrightarrow> map_owner m = owner \<and> virtual_address m = page_align_down va"

definition replace_owned :: "(page_mapping \<Rightarrow> page_mapping) \<Rightarrow> address_space_id \<Rightarrow> nat \<Rightarrow> page_table \<Rightarrow> unit result \<times> page_table" where
  "replace_owned f owner va t =
     (if list_ex (starts_at owner va) (mappings t)
      then (Inr (), t\<lparr>mappings := update_first (starts_at owner va) f (mappings t)\<rparr>)
      else (Inl NotFound, t))"

definition mark_accessed_owned :: "address_space_id \<Rightarrow> nat \<Rightarrow> page_table \<Rightarrow> bool \<times> page_table" where
  "mark_accessed_owned owner va t =
     (case replace_owned (\<lambda>m. m\<lparr>accessed := True\<rparr>) owner va t of (r, t') \<Rightarrow> (\<not> is_err r, t'))"

definition clear_accessed_owned :: "address_space_id \<Rightarrow> nat \<Rightarrow> page_table \<Rightarrow> bool option \<times> page_table" where
  "clear_accessed_owned owner va t =
     (map_option accessed (find (starts_at owner va) (mappings t)),
      snd (replace_owned (\<lambda>m. m\<lparr>accessed := False\<rparr>) owner va t))"

definition replace_mapping_kind_owned :: "address_space_id \<Rightarrow> nat \<Rightarrow> MappingKind \<Rightarrow> page_table \<Rightarrow> unit result \<times> page_table" where
  "replace_mapping_kind_owned owner va kind t = replace_owned (\<lambda>m. m\<lparr>map_kind := kind\<rparr>) owner va t"

definition replace_mapping_advice_owned :: "address_space_id \<Rightarrow> nat \<Rightarrow> AdviceHint \<Rightarrow> page_table \<Rightarrow> unit result \<times> page_table" where
  "replace_mapping_advice_owned owner va hint t = replace_owned (\<lambda>m. m\<lparr>advice := hint\<rparr>) owner va t"

definition replace_mapping_permissions_owned :: "address_space_id \<Rightarrow> nat \<Rightarrow> page_permissions \<Rightarrow> page_table \<Rightarrow> unit result \<times> page_table" where
  "replace_mapping_permissions_owned owner va perms t = replace_owned (\<lambda>m. m\<lparr>map_permissions := perms\<rparr>) owner va t"

definition replace_mapping_phys_owned :: "address_space_id \<Rightarrow> nat \<Rightarrow> nat \<Rightarrow> page_table \<Rightarrow> unit result \<times> page_table" where
  "replace_mapping_phys_owned owner va pa t = replace_owned (\<lambda>m. m\<lparr>physical_address := page_align_down pa\<rparr>) owner va t"

definition replace_mapping_phys :: "nat \<Rightarrow> nat \<Rightarrow> page_table \<Rightarrow> unit result \<times> page_table" where
  "replace_mapping_phys va pa t = replace_mapping_phys_owned KERNEL va pa t"

end
