(* ===== verification/Block_Device.thy ===== *)
theory Block_Device
  imports Kernel_Prelude
begin

text \<open>
  The block layer (\<open>src/kernel/block.rs\<close>): devices in memory and windows on other devices.  Several
  windows share one device through reference counting, so the bytes are not part of a device: an
  operation takes the storage of the memory device at the bottom and gives it back.  A read takes the
  length of the caller's buffer and gives the bytes that fill it; a failed read leaves the buffer alone.
\<close>

section \<open>Devices\<close>

definition BLOCK_SIZE :: nat where "BLOCK_SIZE = 512"

type_synonym storage = "u8 list"

datatype block_device =
    MemoryBlockDevice string bool
  | BlockSliceDevice string block_device nat nat bool

datatype DeviceHealth = Healthy | Degraded | Failed

datatype ticket = Ticket u64

definition DONE :: ticket where "DONE = Ticket (- 1)"

fun ticket_id :: "ticket \<Rightarrow> u64" where
  "ticket_id (Ticket i) = i"

definition is_done :: "ticket \<Rightarrow> bool" where
  "is_done t \<longleftrightarrow> ticket_id t = - 1"

datatype RequestState = Pending | Done "unit result"

definition memory_device_new :: "string \<Rightarrow> u8 list \<Rightarrow> bool \<Rightarrow> block_device \<times> storage" where
  "memory_device_new name img read_only =
     (let remainder = length img mod BLOCK_SIZE
      in (MemoryBlockDevice name read_only,
          if remainder \<noteq> 0 then img @ replicate (BLOCK_SIZE - remainder) 0 else img))"

definition slice_device_new :: "string \<Rightarrow> block_device \<Rightarrow> nat \<Rightarrow> nat \<Rightarrow> bool \<Rightarrow> block_device" where
  "slice_device_new name parent start_block count read_only = BlockSliceDevice name parent start_block count read_only"

fun block_count :: "block_device \<Rightarrow> storage \<Rightarrow> nat" where
  "block_count (MemoryBlockDevice _ _) s = length s div BLOCK_SIZE"
| "block_count (BlockSliceDevice _ _ _ count _) s = count"

fun is_read_only :: "block_device \<Rightarrow> bool" where
  "is_read_only (MemoryBlockDevice _ read_only) = read_only"
| "is_read_only (BlockSliceDevice _ _ _ _ read_only) = read_only"

fun queue_depth :: "block_device \<Rightarrow> nat" where
  "queue_depth (MemoryBlockDevice _ _) = 1"
| "queue_depth (BlockSliceDevice _ parent _ _ _) = queue_depth parent"

section \<open>Reads and writes\<close>

text \<open>The byte range of a request on a memory device.\<close>

definition byte_range :: "nat \<Rightarrow> nat \<Rightarrow> storage \<Rightarrow> (nat \<times> nat) result" where
  "byte_range lba len s =
     (if len mod BLOCK_SIZE \<noteq> 0 then Inl InvalidArgument
      else case checked_mul lba BLOCK_SIZE of None \<Rightarrow> Inl InvalidArgument
      | Some start \<Rightarrow> (case checked_add start len of None \<Rightarrow> Inl InvalidArgument
        | Some stop \<Rightarrow> if length s < stop then Inl InvalidArgument else Inr (start, stop)))"

text \<open>The block number a window passes to its parent.\<close>

definition parent_lba :: "nat \<Rightarrow> nat \<Rightarrow> nat \<Rightarrow> nat \<Rightarrow> nat result" where
  "parent_lba start_block count lba len =
     (if len mod BLOCK_SIZE \<noteq> 0 then Inl InvalidArgument
      else case checked_add lba (len div BLOCK_SIZE) of None \<Rightarrow> Inl InvalidArgument
      | Some stop \<Rightarrow> if count < stop then Inl InvalidArgument
          else (case checked_add start_block lba of None \<Rightarrow> Inl InvalidArgument | Some l \<Rightarrow> Inr l))"

definition memory_read_blocks :: "nat \<Rightarrow> nat \<Rightarrow> storage \<Rightarrow> u8 list result" where
  "memory_read_blocks lba len s =
     bind_result (byte_range lba len s) (\<lambda>(start, stop). Inr (take (stop - start) (drop start s)))"

definition memory_write_blocks :: "bool \<Rightarrow> nat \<Rightarrow> u8 list \<Rightarrow> storage \<Rightarrow> unit result \<times> storage" where
  "memory_write_blocks read_only lba data s =
     (if read_only then (Inl PermissionDenied, s)
      else case byte_range lba (length data) s of
        Inl e \<Rightarrow> (Inl e, s)
      | Inr (start, stop) \<Rightarrow> (Inr (), take start s @ data @ drop stop s))"

fun read_blocks :: "block_device \<Rightarrow> nat \<Rightarrow> nat \<Rightarrow> storage \<Rightarrow> u8 list result" where
  "read_blocks (MemoryBlockDevice _ _) lba len s = memory_read_blocks lba len s"
| "read_blocks (BlockSliceDevice _ parent start_block count _) lba len s =
     bind_result (parent_lba start_block count lba len) (\<lambda>l. read_blocks parent l len s)"

fun write_blocks :: "block_device \<Rightarrow> nat \<Rightarrow> u8 list \<Rightarrow> storage \<Rightarrow> unit result \<times> storage" where
  "write_blocks (MemoryBlockDevice _ read_only) lba data s = memory_write_blocks read_only lba data s"
| "write_blocks (BlockSliceDevice _ parent start_block count read_only) lba data s =
     (if read_only then (Inl PermissionDenied, s)
      else case parent_lba start_block count lba (length data) of
        Inl e \<Rightarrow> (Inl e, s)
      | Inr l \<Rightarrow> write_blocks parent l data s)"

text \<open>Submitted requests: a memory device keeps the defaults of the trait, which finish in place.\<close>

definition default_submit_read :: "(nat \<Rightarrow> nat \<Rightarrow> storage \<Rightarrow> u8 list result) \<Rightarrow> nat \<Rightarrow> nat \<Rightarrow> storage \<Rightarrow> (ticket \<times> u8 list) result" where
  "default_submit_read rd lba len s = bind_result (rd lba len s) (\<lambda>bytes. Inr (DONE, bytes))"

definition default_submit_write ::
  "(nat \<Rightarrow> u8 list \<Rightarrow> storage \<Rightarrow> unit result \<times> storage) \<Rightarrow> nat \<Rightarrow> u8 list \<Rightarrow> storage \<Rightarrow> ticket result \<times> storage" where
  "default_submit_write wr lba data s =
     (case wr lba data s of (Inl e, s') \<Rightarrow> (Inl e, s') | (Inr _, s') \<Rightarrow> (Inr DONE, s'))"

definition default_poll :: "ticket \<Rightarrow> RequestState" where
  "default_poll t = Done (Inr ())"

fun submit_read :: "block_device \<Rightarrow> nat \<Rightarrow> nat \<Rightarrow> storage \<Rightarrow> (ticket \<times> u8 list) result" where
  "submit_read (MemoryBlockDevice name read_only) lba len s = default_submit_read memory_read_blocks lba len s"
| "submit_read (BlockSliceDevice _ parent start_block count _) lba len s =
     bind_result (parent_lba start_block count lba len) (\<lambda>l. submit_read parent l len s)"

fun submit_write :: "block_device \<Rightarrow> nat \<Rightarrow> u8 list \<Rightarrow> storage \<Rightarrow> ticket result \<times> storage" where
  "submit_write (MemoryBlockDevice name read_only) lba data s = default_submit_write (memory_write_blocks read_only) lba data s"
| "submit_write (BlockSliceDevice _ parent start_block count read_only) lba data s =
     (if read_only then (Inl PermissionDenied, s)
      else case parent_lba start_block count lba (length data) of
        Inl e \<Rightarrow> (Inl e, s)
      | Inr l \<Rightarrow> submit_write parent l data s)"

fun poll :: "block_device \<Rightarrow> ticket \<Rightarrow> RequestState" where
  "poll (MemoryBlockDevice _ _) t = default_poll t"
| "poll (BlockSliceDevice _ parent _ _ _) t = poll parent t"

fun flush :: "block_device \<Rightarrow> unit result" where
  "flush (MemoryBlockDevice _ _) = Inr ()"
| "flush (BlockSliceDevice _ parent _ _ _) = flush parent"

fun device_health :: "block_device \<Rightarrow> DeviceHealth" where
  "device_health (MemoryBlockDevice _ _) = Healthy"
| "device_health (BlockSliceDevice _ parent _ _ _) = device_health parent"

section \<open>Where a device's blocks are\<close>

definition VEC_LIMIT :: nat where "VEC_LIMIT = 2 ^ 63"

text \<open>A device is valid on a storage if every window lies in its parent, and a vector has fewer than
  \<open>2 ^ 63\<close> bytes.\<close>

fun device_ok :: "block_device \<Rightarrow> storage \<Rightarrow> bool" where
  "device_ok (MemoryBlockDevice _ _) s \<longleftrightarrow> length s mod BLOCK_SIZE = 0 \<and> length s < VEC_LIMIT"
| "device_ok (BlockSliceDevice _ parent start_block count _) s \<longleftrightarrow> device_ok parent s \<and> start_block + count \<le> block_count parent s"

fun device_base :: "block_device \<Rightarrow> nat" where
  "device_base (MemoryBlockDevice _ _) = 0"
| "device_base (BlockSliceDevice _ parent start_block _ _) = device_base parent + start_block"

text \<open>Some device from here to the bottom refuses writes.\<close>

fun write_protected :: "block_device \<Rightarrow> bool" where
  "write_protected (MemoryBlockDevice _ read_only) = read_only"
| "write_protected (BlockSliceDevice _ parent _ _ read_only) \<longleftrightarrow> read_only \<or> write_protected parent"

definition in_device :: "block_device \<Rightarrow> nat \<Rightarrow> nat \<Rightarrow> storage \<Rightarrow> bool" where
  "in_device dev lba len s \<longleftrightarrow> len mod BLOCK_SIZE = 0 \<and> lba + len div BLOCK_SIZE \<le> block_count dev s"

lemma block_count_length: "length s' = length s \<Longrightarrow> block_count dev s' = block_count dev s"
  by (cases dev) simp_all

lemma device_ok_length: "length s' = length s \<Longrightarrow> device_ok dev s' \<longleftrightarrow> device_ok dev s"
  by (induction dev) (simp_all add: block_count_length [of s' s])

lemma device_ok_new:
  "length img + BLOCK_SIZE < VEC_LIMIT \<Longrightarrow> memory_device_new name img ro = (dev, s) \<Longrightarrow> device_ok dev s"
proof -
  assume *: "length img + BLOCK_SIZE < VEC_LIMIT" "memory_device_new name img ro = (dev, s)"
  have "length img + (512 - length img mod 512) = (length img div 512 + 1) * 512"
  proof -
    have "n + (512 - b) = (a + 1) * 512" if "a * 512 + b = n" "b < 512" for a b n :: nat
      using that by auto
    then show ?thesis
      by (metis div_mult_mod_eq mod_less_divisor zero_less_numeral)
  qed
  then have pad: "(length img + (512 - length img mod 512)) mod 512 = 0"
    by (metis mod_mult_self2_is_0)
  have "dev = MemoryBlockDevice name ro" "s = (if length img mod 512 \<noteq> 0 then img @ replicate (512 - length img mod 512) 0 else img)"
    using *(2) by (auto simp: memory_device_new_def BLOCK_SIZE_def Let_def)
  moreover have "length img + (512 - length img mod 512) < VEC_LIMIT"
    using *(1) by (simp add: BLOCK_SIZE_def)
  ultimately show ?thesis
    using pad *(1) by (simp add: BLOCK_SIZE_def)
qed

lemma device_fits: "device_ok dev s \<Longrightarrow> (device_base dev + block_count dev s) * BLOCK_SIZE \<le> length s"
proof (induction dev)
  case (MemoryBlockDevice name ro)
  then show ?case
    by (simp add: BLOCK_SIZE_def)
next
  case (BlockSliceDevice name parent start count ro)
  then have "(device_base parent + start + count) * BLOCK_SIZE \<le> (device_base parent + block_count parent s) * BLOCK_SIZE"
    by (intro mult_le_mono1) simp
  also have "\<dots> \<le> length s"
    using BlockSliceDevice by simp
  finally have "(device_base parent + start + count) * BLOCK_SIZE \<le> length s" .
  then show ?case
    by simp
qed

lemma device_bounds: "device_ok dev s \<Longrightarrow> length s < VEC_LIMIT"
  by (induction dev) simp_all

lemma byte_range_ok:
  assumes "length s mod BLOCK_SIZE = 0" "length s < VEC_LIMIT"
  shows "byte_range lba len s =
    (if len mod BLOCK_SIZE = 0 \<and> lba + len div BLOCK_SIZE \<le> length s div BLOCK_SIZE
     then Inr (lba * BLOCK_SIZE, lba * BLOCK_SIZE + len) else Inl InvalidArgument)"
proof (cases "len mod BLOCK_SIZE = 0")
  case True
  then obtain n where n: "len = n * 512"
    by (auto simp: BLOCK_SIZE_def)
  obtain m where m: "length s = m * 512"
    using assms(1) by (auto simp: BLOCK_SIZE_def)
  show ?thesis
    using assms(2) n m by (auto simp: byte_range_def BLOCK_SIZE_def checked_mul_def checked_add_def VEC_LIMIT_def)
qed (simp add: byte_range_def)

text \<open>The block numbers of any chain of devices are below \<open>2 ^ 64\<close>; a window need not lie in its parent.  A request is
  inside the chain if every device of it covers the request.\<close>

fun device_typed :: "block_device \<Rightarrow> storage \<Rightarrow> bool" where
  "device_typed (MemoryBlockDevice _ _) s \<longleftrightarrow> length s mod BLOCK_SIZE = 0 \<and> length s < VEC_LIMIT"
| "device_typed (BlockSliceDevice _ parent start_block count _) s \<longleftrightarrow>
     device_typed parent s \<and> start_block < USIZE_LIMIT \<and> count < USIZE_LIMIT"

fun in_chain :: "block_device \<Rightarrow> nat \<Rightarrow> nat \<Rightarrow> storage \<Rightarrow> bool" where
  "in_chain (MemoryBlockDevice _ _) lba len s \<longleftrightarrow> len mod BLOCK_SIZE = 0 \<and> lba + len div BLOCK_SIZE \<le> length s div BLOCK_SIZE"
| "in_chain (BlockSliceDevice _ parent start_block count _) lba len s \<longleftrightarrow>
     len mod BLOCK_SIZE = 0 \<and> lba + len div BLOCK_SIZE \<le> count \<and> in_chain parent (start_block + lba) len s"

text \<open>A write meets a read-only device before a device that does not cover it.\<close>

fun refuses_write :: "block_device \<Rightarrow> nat \<Rightarrow> nat \<Rightarrow> bool" where
  "refuses_write (MemoryBlockDevice _ read_only) lba len \<longleftrightarrow> read_only"
| "refuses_write (BlockSliceDevice _ parent start_block count read_only) lba len \<longleftrightarrow>
     read_only \<or> len mod BLOCK_SIZE = 0 \<and> lba + len div BLOCK_SIZE \<le> count \<and> start_block + lba < USIZE_LIMIT \<and>
       refuses_write parent (start_block + lba) len"

lemma in_chain_bound: "device_typed dev s \<Longrightarrow> in_chain dev lba len s \<Longrightarrow> lba < USIZE_LIMIT"
proof (cases dev)
  case (MemoryBlockDevice name ro)
  assume "device_typed dev s" "in_chain dev lba len s"
  then have "lba \<le> length s div BLOCK_SIZE" "length s < VEC_LIMIT"
    using MemoryBlockDevice by auto
  moreover have "length s div BLOCK_SIZE \<le> length s"
    by (rule div_le_dividend)
  ultimately have "lba < VEC_LIMIT"
    by linarith
  then show ?thesis
    by (simp add: VEC_LIMIT_def)
qed auto

lemma read_blocks_chain:
  "device_typed dev s \<Longrightarrow> read_blocks dev lba len s =
     (if in_chain dev lba len s then Inr (take len (drop ((device_base dev + lba) * BLOCK_SIZE) s)) else Inl InvalidArgument)"
proof (induction dev arbitrary: lba)
  case (MemoryBlockDevice name ro)
  then show ?case
    by (simp add: memory_read_blocks_def byte_range_ok)
next
  case (BlockSliceDevice name parent start count ro)
  then show ?case
    using in_chain_bound [of parent s "start + lba" len]
    by (auto simp: parent_lba_def checked_add_def add.assoc)
qed

lemma write_blocks_chain:
  "device_typed dev s \<Longrightarrow> write_blocks dev lba data s =
     (if refuses_write dev lba (length data) then (Inl PermissionDenied, s)
      else if in_chain dev lba (length data) s
      then (Inr (), take ((device_base dev + lba) * BLOCK_SIZE) s @ data @ drop ((device_base dev + lba) * BLOCK_SIZE + length data) s)
      else (Inl InvalidArgument, s))"
proof (induction dev arbitrary: lba)
  case (MemoryBlockDevice name ro)
  then show ?case
    by (simp add: memory_write_blocks_def byte_range_ok)
next
  case (BlockSliceDevice name parent start count ro)
  then show ?case
    using in_chain_bound [of parent s "start + lba" "length data"]
    by (auto simp: parent_lba_def checked_add_def add.assoc)
qed

lemma block_count_bound: "device_ok dev s \<Longrightarrow> block_count dev s < VEC_LIMIT"
proof -
  assume ok: "device_ok dev s"
  have "block_count dev s \<le> (device_base dev + block_count dev s) * BLOCK_SIZE"
    by (simp add: BLOCK_SIZE_def)
  then show ?thesis
    using device_fits [OF ok] device_bounds [OF ok] by linarith
qed

lemma device_ok_typed: "device_ok dev s \<Longrightarrow> device_typed dev s"
proof (induction dev)
  case (BlockSliceDevice name parent start count ro)
  then show ?case
    using block_count_bound [of parent s] by (auto simp: VEC_LIMIT_def)
qed simp

lemma in_chain_device: "device_ok dev s \<Longrightarrow> in_chain dev lba len s \<longleftrightarrow> in_device dev lba len s"
  by (induction dev arbitrary: lba) (auto simp: in_device_def)

lemma refuses_write_device:
  "device_ok dev s \<Longrightarrow> refuses_write dev lba len \<longleftrightarrow> write_protected dev \<and> (\<not> is_read_only dev \<longrightarrow> in_device dev lba len s)"
proof (induction dev arbitrary: lba)
  case (BlockSliceDevice name parent start count ro)
  have "start + lba < USIZE_LIMIT" if "lba \<le> count"
    using block_count_bound [of parent s] BlockSliceDevice.prems that by (simp add: VEC_LIMIT_def)
  then show ?case
    using BlockSliceDevice by (auto simp: in_device_def)
qed auto

lemma read_blocks_exact:
  "device_ok dev s \<Longrightarrow> read_blocks dev lba len s =
     (if in_device dev lba len s then Inr (take len (drop ((device_base dev + lba) * BLOCK_SIZE) s)) else Inl InvalidArgument)"
  by (simp add: read_blocks_chain device_ok_typed in_chain_device)

lemma write_blocks_exact:
  "device_ok dev s \<Longrightarrow> write_blocks dev lba data s =
     (if write_protected dev \<and> (\<not> is_read_only dev \<longrightarrow> in_device dev lba (length data) s) then (Inl PermissionDenied, s)
      else if in_device dev lba (length data) s
      then (Inr (), take ((device_base dev + lba) * BLOCK_SIZE) s @ data @
              drop ((device_base dev + lba) * BLOCK_SIZE + length data) s)
      else (Inl InvalidArgument, s))"
  by (simp only: write_blocks_chain [OF device_ok_typed] refuses_write_device in_chain_device)

section \<open>What a client of a block device relies on\<close>

text \<open>The contract of the \<open>BlockDevice\<close> trait for whole blocks: a request inside the device can be read, a
  successful write is what a later read returns, other blocks keep their bytes, and a failed write
  changes nothing.\<close>

locale block_store =
  fixes valid :: "'s \<Rightarrow> bool"
    and count :: "'s \<Rightarrow> nat"
    and rd :: "nat \<Rightarrow> nat \<Rightarrow> 's \<Rightarrow> u8 list result"
    and wr :: "nat \<Rightarrow> u8 list \<Rightarrow> 's \<Rightarrow> unit result \<times> 's"
  assumes count_bound: "valid s \<Longrightarrow> count s < VEC_LIMIT"
    and rd_in_range: "valid s \<Longrightarrow> lba + n \<le> count s \<Longrightarrow> \<exists>bytes. rd lba (n * BLOCK_SIZE) s = Inr bytes \<and> length bytes = n * BLOCK_SIZE"
    and wr_valid: "valid s \<Longrightarrow> wr lba data s = (r, s') \<Longrightarrow> valid s' \<and> count s' = count s"
    and wr_failed: "valid s \<Longrightarrow> wr lba data s = (Inl e, s') \<Longrightarrow> s' = s"
    and rd_written: "valid s \<Longrightarrow> wr lba data s = (Inr (), s') \<Longrightarrow> length data = n * BLOCK_SIZE \<Longrightarrow> rd lba (n * BLOCK_SIZE) s' = Inr data"
    and rd_elsewhere: "valid s \<Longrightarrow> wr lba data s = (Inr (), s') \<Longrightarrow> length data = n * BLOCK_SIZE \<Longrightarrow>
      lba' + m \<le> lba \<or> lba + n \<le> lba' \<Longrightarrow> rd lba' (m * BLOCK_SIZE) s' = rd lba' (m * BLOCK_SIZE) s"
begin

text \<open>Equal-sized slots of \<open>n\<close> blocks from a first block on are independent of each other.\<close>

lemma rd_other_slot:
  assumes "valid s" "wr (first + i * n) data s = (r, s')" "length data = n * BLOCK_SIZE" "i \<noteq> j"
  shows "rd (first + j * n) (n * BLOCK_SIZE) s' = rd (first + j * n) (n * BLOCK_SIZE) s"
proof (cases r)
  case (Inl e)
  then show ?thesis
    using wr_failed assms(1,2) by blast
next
  case (Inr u)
  have "j * n + n \<le> i * n \<or> i * n + n \<le> j * n"
  proof (cases "i < j")
    case True
    then have "Suc i * n \<le> j * n"
      by (intro mult_le_mono1) simp
    then show ?thesis
      by simp
  next
    case False
    then have "Suc j * n \<le> i * n"
      using assms(4) by (intro mult_le_mono1) simp
    then show ?thesis
      by simp
  qed
  then show ?thesis
    using rd_elsewhere [OF assms(1) _ assms(3), of "first + i * n" s' "first + j * n" n] assms(2) Inr by auto
qed

end

lemma write_length: "device_ok dev s \<Longrightarrow> write_blocks dev lba data s = (r, s') \<Longrightarrow> length s' = length s"
proof -
  assume ok: "device_ok dev s" and w: "write_blocks dev lba data s = (r, s')"
  have "in_device dev lba (length data) s \<Longrightarrow> (device_base dev + lba) * BLOCK_SIZE + length data \<le> length s"
  proof -
    assume i: "in_device dev lba (length data) s"
    then have "(device_base dev + (lba + length data div BLOCK_SIZE)) * BLOCK_SIZE \<le> (device_base dev + block_count dev s) * BLOCK_SIZE"
      by (intro mult_le_mono1) (simp add: in_device_def)
    moreover have "length data div BLOCK_SIZE * BLOCK_SIZE = length data"
      using i by (simp add: in_device_def mod_0_imp_dvd)
    ultimately show ?thesis
      using device_fits [OF ok] by (simp add: add_mult_distrib)
  qed
  then show ?thesis
    using w unfolding write_blocks_exact [OF ok] by (auto split: if_splits)
qed

lemma in_device_blocks: "in_device dev lba (n * BLOCK_SIZE) s \<longleftrightarrow> lba + n \<le> block_count dev s"
  by (simp add: in_device_def BLOCK_SIZE_def)

lemma in_device_bytes:
  assumes "device_ok dev s" "lba + n \<le> block_count dev s"
  shows "(device_base dev + lba) * BLOCK_SIZE + n * BLOCK_SIZE \<le> length s"
proof -
  have "(device_base dev + (lba + n)) * BLOCK_SIZE \<le> (device_base dev + block_count dev s) * BLOCK_SIZE"
    using assms(2) by (intro mult_le_mono1) simp
  then show ?thesis
    using device_fits [OF assms(1)] by (simp add: add_mult_distrib)
qed

lemma take_drop_overwrite_same:
  "p + length data \<le> length s \<Longrightarrow> take (length data) (drop p (take p s @ data @ drop (p + length data) s)) = data"
  by simp

lemma take_drop_overwrite_other:
  assumes "p + length data \<le> length s" "q + m \<le> p \<or> p + length data \<le> q"
  shows "take m (drop q (take p s @ data @ drop (p + length data) s)) = take m (drop q s)"
  using assms(2)
proof
  assume q: "q + m \<le> p"
  then have "drop q (take p s @ data @ drop (p + length data) s) = take (p - q) (drop q s) @ data @ drop (p + length data) s"
    using assms(1) by (simp add: drop_take)
  then show ?thesis
    using q assms(1) by (simp add: take_append)
next
  assume q: "p + length data \<le> q"
  then have "drop q (take p s @ data @ drop (p + length data) s) = drop q s"
    using assms(1) by simp
  then show ?thesis
    by simp
qed

interpretation bd: block_store "device_ok dev" "block_count dev" "read_blocks dev" "write_blocks dev" for dev
proof
  fix s lba n
  assume ok: "device_ok dev s"
  show "block_count dev s < VEC_LIMIT"
    by (rule block_count_bound [OF ok])
  show "\<exists>bytes. read_blocks dev lba (n * BLOCK_SIZE) s = Inr bytes \<and> length bytes = n * BLOCK_SIZE"
    if "lba + n \<le> block_count dev s"
    using in_device_bytes [OF ok that] that by (simp add: read_blocks_exact [OF ok] in_device_blocks)
next
  fix s lba data r s'
  assume ok: "device_ok dev s" and w: "write_blocks dev lba data s = (r, s')"
  show "device_ok dev s' \<and> block_count dev s' = block_count dev s"
    using write_length [OF ok w] ok device_ok_length block_count_length by blast
next
  fix s lba data e s'
  assume "device_ok dev s" "write_blocks dev lba data s = (Inl e, s')"
  then show "s' = s"
    by (auto simp: write_blocks_exact split: if_splits)
next
  fix s lba data s' n
  assume ok: "device_ok dev s" and w: "write_blocks dev lba data s = (Inr (), s')" and n: "length data = n * BLOCK_SIZE"
  then have i: "lba + n \<le> block_count dev s"
    and s': "s' = take ((device_base dev + lba) * BLOCK_SIZE) s @ data @ drop ((device_base dev + lba) * BLOCK_SIZE + length data) s"
    by (auto simp: write_blocks_exact in_device_blocks split: if_splits)
  have ok': "device_ok dev s'" and c: "block_count dev s' = block_count dev s"
    using write_length [OF ok w] ok device_ok_length block_count_length by blast+
  have b: "(device_base dev + lba) * BLOCK_SIZE + length data \<le> length s"
    using in_device_bytes [OF ok i] n by simp
  show "read_blocks dev lba (n * BLOCK_SIZE) s' = Inr data"
    unfolding read_blocks_exact [OF ok'] in_device_blocks c using i take_drop_overwrite_same [OF b] n unfolding s' by simp
  fix lba' m
  assume "lba' + m \<le> lba \<or> lba + n \<le> lba'"
  then have "(device_base dev + (lba' + m)) * BLOCK_SIZE \<le> (device_base dev + lba) * BLOCK_SIZE \<or>
      (device_base dev + (lba + n)) * BLOCK_SIZE \<le> (device_base dev + lba') * BLOCK_SIZE"
    by (auto intro!: mult_le_mono1)
  then have "(device_base dev + lba') * BLOCK_SIZE + m * BLOCK_SIZE \<le> (device_base dev + lba) * BLOCK_SIZE \<or>
      (device_base dev + lba) * BLOCK_SIZE + length data \<le> (device_base dev + lba') * BLOCK_SIZE"
    unfolding n by (simp add: add_mult_distrib)
  then show "read_blocks dev lba' (m * BLOCK_SIZE) s' = read_blocks dev lba' (m * BLOCK_SIZE) s"
    unfolding read_blocks_exact [OF ok'] read_blocks_exact [OF ok] in_device_blocks c unfolding s'
    using take_drop_overwrite_other [OF b] by simp
qed

section \<open>Properties\<close>

text \<open>C26: A device made of any chain of windows, whether or not they lie inside one another, is one window on the
  memory below it.  A request is served exactly when it is a whole number of blocks and every device of
  the chain covers it: a read returns the bytes at the sum of the offsets, a write changes those bytes and
  no others.  A write that reaches a read-only device is refused as not permitted and any other request is
  refused as invalid, without a change.\<close>

theorem device_is_one_window:
  assumes "device_typed dev s"
  shows "read_blocks dev lba len s =
      (if in_chain dev lba len s then Inr (take len (drop ((device_base dev + lba) * BLOCK_SIZE) s)) else Inl InvalidArgument) \<and>
    write_blocks dev lba data s =
      (if refuses_write dev lba (length data) then (Inl PermissionDenied, s)
       else if in_chain dev lba (length data) s
       then (Inr (), take ((device_base dev + lba) * BLOCK_SIZE) s @ data @ drop ((device_base dev + lba) * BLOCK_SIZE + length data) s)
       else (Inl InvalidArgument, s))"
  by (intro conjI read_blocks_chain write_blocks_chain assms)

definition example_disk :: "u8 list" where
  "example_disk = replicate BLOCK_SIZE 1 @ replicate BLOCK_SIZE 2 @ replicate BLOCK_SIZE 3"

definition example_slice :: block_device where
  "example_slice = BlockSliceDevice ''outer'' (BlockSliceDevice ''inner'' (MemoryBlockDevice ''disk'' False) 1 2 False) 1 2 False"

text \<open>The second window sticks out of its parent: its block 0 is the last one of the disk, its block 1 is nowhere.\<close>

theorem device_is_one_window_witness:
  "device_typed example_slice example_disk \<and> read_blocks example_slice 0 BLOCK_SIZE example_disk = Inr (replicate BLOCK_SIZE 3) \<and>
   read_blocks example_slice 1 BLOCK_SIZE example_disk = Inl InvalidArgument"
proof -
  have len: "length example_disk = 3 * BLOCK_SIZE"
    by (simp add: example_disk_def)
  have ok: "device_typed example_slice example_disk"
    by (simp add: example_slice_def len BLOCK_SIZE_def VEC_LIMIT_def)
  have b: "device_base example_slice = 2"
    by (simp add: example_slice_def)
  have d: "take BLOCK_SIZE (drop (2 * BLOCK_SIZE) example_disk) = replicate BLOCK_SIZE 3"
    by (simp add: example_disk_def)
  have c: "in_chain example_slice 0 BLOCK_SIZE example_disk" "\<not> in_chain example_slice 1 BLOCK_SIZE example_disk"
    by (simp_all add: example_slice_def len BLOCK_SIZE_def)
  show ?thesis
    using device_is_one_window [OF ok, of 0 BLOCK_SIZE "[]"] device_is_one_window [OF ok, of 1 BLOCK_SIZE "[]"] ok d c
    by (simp add: b)
qed

lemma submit_read_in_place:
  "submit_read dev lba len s = default_submit_read (read_blocks dev) lba len s"
proof (induction dev arbitrary: lba)
  case (BlockSliceDevice name parent start count ro)
  then show ?case
    by (cases "parent_lba start count lba len") (simp_all add: default_submit_read_def)
qed (simp add: default_submit_read_def)

lemma submit_write_in_place:
  "submit_write dev lba data s = default_submit_write (write_blocks dev) lba data s"
proof (induction dev arbitrary: lba)
  case (BlockSliceDevice name parent start count ro)
  then show ?case
    by (cases "parent_lba start count lba (length data)") (simp_all add: default_submit_write_def)
qed (simp add: default_submit_write_def)

lemma poll_done: "poll dev t = Done (Inr ())"
  by (induction dev) (simp_all add: default_poll_def)

end
