(* ===== verification/Page_Store.thy ===== *)
theory Page_Store
  imports Block_Device Page_Compression Btree_Map "HOL-Library.Product_Lexorder"
begin

text \<open>
  Where the contents of reclaimed pages are kept: the swap area on a block device
  (\<open>src/memory/swap.rs\<close>), the cache of compressed pages and the store of raw pages
  (\<open>src/memory/manager/mapping.rs\<close>), the part of \<open>reclaim_pages\<close> that saves a page
  (\<open>src/memory/manager/swap.rs\<close>), the part of the page-fault handler that brings it back
  (\<open>src/memory/manager/pfault.rs\<close>) and the part of unmapping that drops it.  A page is the list of its
  bytes; its key is the address space and the virtual page address.
\<close>

section \<open>The swap area\<close>

definition BLOCKS_PER_PAGE :: nat where "BLOCKS_PER_PAGE = PAGE_SIZE div BLOCK_SIZE"

definition SWAP_MAGIC :: "u8 list" where "SWAP_MAGIC = [0x41, 0x44, 0x41, 0x53, 0x57, 0x41, 0x50, 0x00]"

definition u64_from_le :: "u8 list \<Rightarrow> nat" where
  "u64_from_le bytes = foldr (\<lambda>b acc. unat b + 256 * acc) bytes 0"

definition probe_device :: "block_device \<Rightarrow> storage \<Rightarrow> (nat \<times> nat) option" where
  "probe_device device s =
     (case read_blocks device 0 512 s of
        Inl _ \<Rightarrow> None
      | Inr header \<Rightarrow>
          if take 8 header \<noteq> SWAP_MAGIC then None
          else let page_count = u64_from_le (take 8 (drop 8 header))
               in if page_count = 0 then None else Some (0, page_count))"

record swap_area =
  swap_device :: block_device
  start_lba :: nat
  total_pages :: nat
  free_slots :: "nat list"

text \<open>\<open>reserved\<close> is the answer of \<open>try_reserve\<close>.  The stack's top is the last element.\<close>

definition swap_area_new :: "bool \<Rightarrow> block_device \<Rightarrow> nat \<Rightarrow> nat \<Rightarrow> storage \<Rightarrow> swap_area result" where
  "swap_area_new reserved device first page_count s =
     (if page_count = 0 then Inl InvalidArgument
      else case checked_mul page_count BLOCKS_PER_PAGE of None \<Rightarrow> Inl InvalidArgument
      | Some blocks_needed \<Rightarrow> (case checked_add first blocks_needed of None \<Rightarrow> Inl InvalidArgument
        | Some end_lba \<Rightarrow>
            if block_count device s < end_lba then Inl InvalidArgument
            else if \<not> reserved then Inl OutOfMemory
            else Inr \<lparr>swap_device = device, start_lba = first, total_pages = page_count, free_slots = rev [0..<page_count]\<rparr>))"

definition allocate_slot :: "swap_area \<Rightarrow> nat option \<times> swap_area" where
  "allocate_slot area =
     (if free_slots area = [] then (None, area)
      else (Some (last (free_slots area)), area\<lparr>free_slots := butlast (free_slots area)\<rparr>))"

definition free_slot :: "nat \<Rightarrow> swap_area \<Rightarrow> swap_area" where
  "free_slot slot area = area\<lparr>free_slots := free_slots area @ [slot]\<rparr>"

definition slot_lba :: "swap_area \<Rightarrow> nat \<Rightarrow> nat" where
  "slot_lba area slot = start_lba area + slot * BLOCKS_PER_PAGE"

definition write_page :: "swap_area \<Rightarrow> nat \<Rightarrow> u8 list \<Rightarrow> storage \<Rightarrow> unit result \<times> storage" where
  "write_page area slot data s =
     (if length data \<noteq> PAGE_SIZE then (Inl InvalidArgument, s)
      else write_blocks (swap_device area) (slot_lba area slot) data s)"

definition read_page :: "swap_area \<Rightarrow> nat \<Rightarrow> nat \<Rightarrow> storage \<Rightarrow> u8 list result" where
  "read_page area slot len s =
     (if len \<noteq> PAGE_SIZE then Inl InvalidArgument
      else read_blocks (swap_device area) (slot_lba area slot) len s)"

definition free_pages :: "swap_area \<Rightarrow> nat" where
  "free_pages area = length (free_slots area)"

text \<open>\<open>None\<close> where the subtraction would go below zero.\<close>

definition used_pages :: "swap_area \<Rightarrow> nat option" where
  "used_pages area =
     (if length (free_slots area) \<le> total_pages area then Some (total_pages area - length (free_slots area)) else None)"

section \<open>The page store\<close>

type_synonym page_key = "nat \<times> nat"

text \<open>The fields of \<open>MemoryManager\<close> that hold saved pages, and the storage below the swap device.\<close>

record page_store =
  page_content :: "(page_key \<times> u8 list) list"
  swap_area_of :: "swap_area option"
  swap_map :: "(page_key, nat) btree"
  compressed_pages :: "(page_key, u8 list) btree"
  compressed_cache_bytes :: nat
  compressed_pages_saved :: nat
  compressed_evictions :: nat
  disk :: storage

definition MAX_COMPRESSED_CACHE_BYTES :: nat where "MAX_COMPRESSED_CACHE_BYTES = 16 * 1024 * 1024"

definition new_store :: "storage \<Rightarrow> page_store" where
  "new_store d = \<lparr>page_content = [], swap_area_of = None, swap_map = [], compressed_pages = [], compressed_cache_bytes = 0,
     compressed_pages_saved = 0, compressed_evictions = 0, disk = d\<rparr>"

definition init_swap :: "bool \<Rightarrow> block_device \<Rightarrow> nat \<Rightarrow> nat \<Rightarrow> page_store \<Rightarrow> unit result \<times> page_store" where
  "init_swap reserved device first page_count s =
     (case swap_area_new reserved device first page_count (disk s) of
        Inl e \<Rightarrow> (Inl e, s)
      | Inr area \<Rightarrow> (Inr (), s\<lparr>swap_area_of := Some area\<rparr>))"

definition swap_stats :: "page_store \<Rightarrow> (nat \<times> nat \<times> nat) option" where
  "swap_stats s =
     (case swap_area_of s of
        Some area \<Rightarrow> map_option (\<lambda>used. (total_pages area, used, free_pages area)) (used_pages area)
      | None \<Rightarrow> Some (0, 0, 0))"

definition align_down_page :: "nat \<Rightarrow> nat" where
  "align_down_page va = va - va mod PAGE_SIZE"

text \<open>The first entry of the key is replaced, or a new one is added at the end.\<close>

fun put_content :: "page_key \<Rightarrow> u8 list \<Rightarrow> (page_key \<times> u8 list) list \<Rightarrow> (page_key \<times> u8 list) list" where
  "put_content key content [] = [(key, content)]"
| "put_content key content ((k, c) # rest) = (if k = key then (k, content) # rest else (k, c) # put_content key content rest)"

definition store_page_content :: "nat \<Rightarrow> nat \<Rightarrow> u8 list \<Rightarrow> page_store \<Rightarrow> page_store" where
  "store_page_content owner va content s = s\<lparr>page_content := put_content (owner, align_down_page va) content (page_content s)\<rparr>"

definition get_page_content :: "nat \<Rightarrow> nat \<Rightarrow> page_store \<Rightarrow> u8 list option" where
  "get_page_content owner va s = map_option snd (find (\<lambda>e. fst e = (owner, align_down_page va)) (page_content s))"

text \<open>Taking an encoded page out of the cache's counters.\<close>

definition uncount_page :: "u8 list \<Rightarrow> page_store \<Rightarrow> page_store" where
  "uncount_page page s = s\<lparr>compressed_cache_bytes := saturating_sub (compressed_cache_bytes s) (length page),
     compressed_pages_saved := saturating_sub (compressed_pages_saved s) (saturating_sub PAGE_SIZE (length page))\<rparr>"

definition remove_compressed_page :: "nat \<Rightarrow> nat \<Rightarrow> page_store \<Rightarrow> page_store" where
  "remove_compressed_page owner va s =
     (let key = (owner, align_down_page va)
      in case bt_get (compressed_pages s) key of
           Some page \<Rightarrow> uncount_page page (s\<lparr>compressed_pages := bt_remove key (compressed_pages s)\<rparr>)
         | None \<Rightarrow> s)"

text \<open>One round of the eviction loop: the first entry goes to the raw store.\<close>

definition evict_first :: "page_key \<Rightarrow> u8 list \<Rightarrow> page_store \<Rightarrow> page_store" where
  "evict_first key page s =
     (let s1 = uncount_page page (s\<lparr>compressed_pages := tl (compressed_pages s)\<rparr>);
          s2 = (case decompress_page page (replicate PAGE_SIZE 0) of
                  (True, raw) \<Rightarrow> store_page_content (fst key) (snd key) raw s1
                | (False, _) \<Rightarrow> s1)
      in s2\<lparr>compressed_evictions := compressed_evictions s2 + 1\<rparr>)"

lemma compressed_pages_evict_first [simp]: "compressed_pages (evict_first key page s) = tl (compressed_pages s)"
  by (auto simp: evict_first_def uncount_page_def store_page_content_def Let_def split: prod.split bool.split)

function evict_over_budget :: "page_store \<Rightarrow> page_store" where
  "evict_over_budget s =
     (if MAX_COMPRESSED_CACHE_BYTES < compressed_cache_bytes s
      then case compressed_pages s of
          [] \<Rightarrow> s
        | (key, page) # _ \<Rightarrow> evict_over_budget (evict_first key page s)
      else s)"
  by pat_completeness auto
termination
  by (relation "measure (\<lambda>s. length (compressed_pages s))") auto

declare evict_over_budget.simps [simp del]

definition add_compressed_page :: "nat \<Rightarrow> nat \<Rightarrow> u8 list \<Rightarrow> page_store \<Rightarrow> page_store" where
  "add_compressed_page owner va page s =
     (let page_addr = align_down_page va;
          s1 = remove_compressed_page owner page_addr s;
          s2 = s1\<lparr>compressed_cache_bytes := compressed_cache_bytes s1 + length page,
                 compressed_pages_saved := compressed_pages_saved s1 + saturating_sub PAGE_SIZE (length page)\<rparr>;
          s3 = evict_over_budget s2
      in s3\<lparr>compressed_pages := bt_insert (owner, page_addr) page (compressed_pages s3)\<rparr>)"

definition clear_page_content :: "page_store \<Rightarrow> page_store" where
  "clear_page_content s = s\<lparr>page_content := [], compressed_pages := [], compressed_cache_bytes := 0, compressed_pages_saved := 0\<rparr>"

section \<open>Saving, bringing back and dropping a page\<close>

definition swap_out :: "nat \<Rightarrow> nat \<Rightarrow> u8 list \<Rightarrow> page_store \<Rightarrow> bool \<times> page_store" where
  "swap_out page_owner page_addr content s =
     (case swap_area_of s of
        None \<Rightarrow> (False, s)
      | Some area \<Rightarrow>
          (case allocate_slot area of
             (None, _) \<Rightarrow> (False, s)
           | (Some slot, area1) \<Rightarrow>
               (case write_page area1 slot content (disk s) of
                  (Inr _, d) \<Rightarrow> (True, s\<lparr>swap_area_of := Some area1, disk := d,
                                         swap_map := bt_insert (page_owner, page_addr) slot (swap_map s)\<rparr>)
                | (Inl _, d) \<Rightarrow> (False, s\<lparr>swap_area_of := Some (free_slot slot area1), disk := d\<rparr>))))"

text \<open>\<open>None\<close> is a panic of the compressor.\<close>

definition save_page :: "nat \<Rightarrow> nat \<Rightarrow> u8 list \<Rightarrow> page_store \<Rightarrow> page_store option" where
  "save_page page_owner page_addr content s =
     (case swap_out page_owner page_addr content s of
        (True, s1) \<Rightarrow> Some s1
      | (False, s1) \<Rightarrow>
          map_option (\<lambda>r. case r of Some page \<Rightarrow> add_compressed_page page_owner page_addr page s1
                                  | None \<Rightarrow> store_page_content page_owner page_addr content s1)
            (compress_page content))"

text \<open>The page for a fault, given the bytes the fresh frame holds; \<open>None\<close> where the handler gives up.\<close>

definition load_page :: "nat \<Rightarrow> nat \<Rightarrow> u8 list \<Rightarrow> page_store \<Rightarrow> u8 list option \<times> page_store" where
  "load_page owner page_addr frame s =
     (case bt_get (swap_map s) (owner, page_addr) of
        Some slot_idx \<Rightarrow>
          (let s1 = s\<lparr>swap_map := bt_remove (owner, page_addr) (swap_map s)\<rparr>
           in case swap_area_of s1 of
                None \<Rightarrow> (None, s1)
              | Some area \<Rightarrow>
                  (case read_page area slot_idx PAGE_SIZE (disk s1) of
                     Inl _ \<Rightarrow> (None, s1)
                   | Inr bytes \<Rightarrow> (Some bytes, s1\<lparr>swap_area_of := Some (free_slot slot_idx area)\<rparr>)))
      | None \<Rightarrow>
          (case bt_get (compressed_pages s) (owner, page_addr) of
             Some page \<Rightarrow>
               (let s1 = uncount_page page (s\<lparr>compressed_pages := bt_remove (owner, page_addr) (compressed_pages s)\<rparr>)
                in case decompress_page page frame of
                     (True, out) \<Rightarrow> (Some out, s1)
                   | (False, _) \<Rightarrow> (None, s1))
           | None \<Rightarrow>
               (case get_page_content owner page_addr s of
                  Some content \<Rightarrow>
                    (let copy_len = min (length content) PAGE_SIZE
                     in (Some (take copy_len content @ drop copy_len frame), s))
                | None \<Rightarrow> (Some (replicate PAGE_SIZE 0), s))))"

definition forget_page :: "nat \<Rightarrow> nat \<Rightarrow> page_store \<Rightarrow> page_store" where
  "forget_page owner addr s =
     remove_compressed_page owner addr
       (case bt_get (swap_map s) (owner, addr) of
          Some slot_idx \<Rightarrow> s\<lparr>swap_map := bt_remove (owner, addr) (swap_map s),
                             swap_area_of := map_option (free_slot slot_idx) (swap_area_of s)\<rparr>
        | None \<Rightarrow> s)"

end
