(* ===== verification/Memory_Manager.thy ===== *)
theory Memory_Manager
  imports Page_Table Page_Store Frame_Allocator
begin

text \<open>
  The memory manager (\<open>src/memory/manager\<close>) over the frame allocators, the software page table and the store
  of saved pages: page faults, reclamation, relocation, registering and releasing a process's pages, and
  the software half of fork.

  The live hardware tables are one partial function per address space from page addresses to frames and
  permissions.  The architecture's functions work on the tables of the address space the processor runs
  on (\<open>running\<close>).  What the environment decides is in \<open>answers\<close>: the NUMA node of the processor, whether a
  vector grows at a page's \<open>try_reserve\<close>, whether the out-of-memory killer signalled a victim (it posts a
  signal and frees nothing itself), whether the architecture finds a table page for an address, and
  whether the kernel runs on hardware.
\<close>

section \<open>State\<close>

definition MAX_NODES :: nat where "MAX_NODES = 8"

definition NUMA_NODE_NONE :: nat where "NUMA_NODE_NONE = 0xFF"

record memory_manager =
  frame_allocators :: "frame_allocator list"
  num_nodes :: nat
  pages :: page_table
  saved :: page_store
  frame_refcounts :: "(nat, nat) btree"
  reclaim_hand :: nat
  kernel_heap_start :: nat
  kernel_heap_end :: nat
  manager_initialized :: bool
  page_faults_demand_paged :: nat
  page_faults_cow :: nat
  physical :: phys_memory
  freed_boxes :: "nat list"
  hardware :: "address_space_id \<Rightarrow> nat \<Rightarrow> (nat \<times> page_permissions) option"
  running :: address_space_id

record answers =
  numa_node :: nat
  vec_grows :: "nat \<Rightarrow> bool"
  oom_killed :: bool
  table_room :: "nat \<Rightarrow> bool"
  bare_metal :: bool

definition new_manager :: "phys_memory \<Rightarrow> storage \<Rightarrow> address_space_id \<Rightarrow> memory_manager" where
  "new_manager pm d root =
     \<lparr>frame_allocators = replicate MAX_NODES new_frame_allocator, num_nodes = 0, pages = new_page_table, saved = new_store d,
      frame_refcounts = [], reclaim_hand = 0, kernel_heap_start = 0, kernel_heap_end = 0, manager_initialized = False,
      page_faults_demand_paged = 0, page_faults_cow = 0, physical = pm, freed_boxes = [], hardware = (\<lambda>_ _. None), running = root\<rparr>"

text \<open>The heap's bounds are page-aligned; \<open>None\<close> where the addition would overflow.\<close>

definition init_kernel_heap :: "nat \<Rightarrow> nat \<Rightarrow> memory_manager \<Rightarrow> memory_manager option" where
  "init_kernel_heap raw_start raw_end m =
     map_option (\<lambda>stop. m\<lparr>kernel_heap_start := align_down_page raw_start, kernel_heap_end := align_down_page stop\<rparr>)
       (checked_add raw_end (PAGE_SIZE - 1))"

definition map_kernel_heap_bootstrap :: "answers \<Rightarrow> memory_manager \<Rightarrow> unit result \<times> memory_manager" where
  "map_kernel_heap_bootstrap ans m =
     (case map_region_with_kind (vec_grows ans (kernel_heap_start m)) (kernel_heap_start m)
             (saturating_sub (kernel_heap_end m) (kernel_heap_start m)) READ_WRITE KernelHeap (pages m) of
        (r, t) \<Rightarrow> (r, m\<lparr>pages := t\<rparr>))"

text \<open>The pool's place and length and the heap's bounds are the linker's and the machine description's.\<close>

definition init_manager :: "answers \<Rightarrow> nat \<Rightarrow> nat \<Rightarrow> nat \<Rightarrow> nat \<Rightarrow> nat \<Rightarrow> memory_manager \<Rightarrow> memory_manager option" where
  "init_manager ans pool_base pool_end managed_pool raw_start raw_end m =
     (if manager_initialized m then Some m
      else let m1 = m\<lparr>frame_allocators := (frame_allocators m)[0 := init_frames pool_base pool_end managed_pool (frame_allocators m ! 0)],
                      num_nodes := 1, pages := init_page_table (pages m)\<rparr>
           in case init_kernel_heap raw_start raw_end m1 of
                None \<Rightarrow> None
              | Some m2 \<Rightarrow>
                  (case map_kernel_heap_bootstrap ans m2 of
                     (Inl _, m3) \<Rightarrow> Some m3
                   | (Inr _, m3) \<Rightarrow> Some (m3\<lparr>manager_initialized := True\<rparr>)))"

section \<open>Frames\<close>

definition allocate_on :: "nat \<Rightarrow> nat \<Rightarrow> memory_manager \<Rightarrow> nat option \<times> memory_manager" where
  "allocate_on i count m =
     (case allocate (frame_allocators m ! i) (physical m) count of
        (r, fa, pm) \<Rightarrow> (r, m\<lparr>frame_allocators := (frame_allocators m)[i := fa], physical := pm\<rparr>))"

fun allocate_any :: "nat list \<Rightarrow> nat \<Rightarrow> memory_manager \<Rightarrow> nat option \<times> memory_manager" where
  "allocate_any [] count m = (None, m)"
| "allocate_any (i # is) count m =
     (case allocate_on i count m of
        (Some addr, m') \<Rightarrow> (Some addr, m')
      | (None, m') \<Rightarrow> allocate_any is count m')"

definition allocate_frames :: "answers \<Rightarrow> nat \<Rightarrow> memory_manager \<Rightarrow> nat option \<times> memory_manager" where
  "allocate_frames ans count m =
     (case (if numa_node ans \<noteq> NUMA_NODE_NONE \<and> numa_node ans < num_nodes m then allocate_on (numa_node ans) count m else (None, m)) of
        (Some addr, m') \<Rightarrow> (Some addr, m')
      | (None, m') \<Rightarrow> allocate_any [0..<num_nodes m'] count m')"

definition allocate_frame_on_node :: "nat \<Rightarrow> nat \<Rightarrow> memory_manager \<Rightarrow> nat option \<times> memory_manager" where
  "allocate_frame_on_node node_id count m =
     (if node_id < num_nodes m then allocate_on node_id count m else (None, m))"

fun deallocate_any :: "nat list \<Rightarrow> nat \<Rightarrow> nat \<Rightarrow> memory_manager \<Rightarrow> bool \<times> memory_manager" where
  "deallocate_any [] ptr count m = (False, m)"
| "deallocate_any (i # is) ptr count m =
     (case deallocate (frame_allocators m ! i) ptr count of
        (done, fa) \<Rightarrow>
          if done then (True, m\<lparr>frame_allocators := (frame_allocators m)[i := fa]\<rparr>)
          else deallocate_any is ptr count (m\<lparr>frame_allocators := (frame_allocators m)[i := fa]\<rparr>))"

definition deallocate_frames :: "nat \<Rightarrow> nat \<Rightarrow> memory_manager \<Rightarrow> bool \<times> memory_manager" where
  "deallocate_frames ptr count m = deallocate_any [0..<num_nodes m] ptr count m"

definition manager_total_frames :: "memory_manager \<Rightarrow> nat" where
  "manager_total_frames m = sum_list (map (\<lambda>i. total_frames (frame_allocators m ! i)) [0..<num_nodes m])"

definition manager_available_frames :: "memory_manager \<Rightarrow> nat" where
  "manager_available_frames m = sum_list (map (\<lambda>i. available_frames (frame_allocators m ! i)) [0..<num_nodes m])"

definition frame_bytes :: "nat \<Rightarrow> memory_manager \<Rightarrow> u8 list" where
  "frame_bytes frame m = map (\<lambda>k. cells (physical m) (frame + k)) [0..<PAGE_SIZE]"

definition write_frame :: "nat \<Rightarrow> u8 list \<Rightarrow> memory_manager \<Rightarrow> memory_manager" where
  "write_frame frame bytes m =
     m\<lparr>physical := (physical m)\<lparr>cells := (\<lambda>a. if frame \<le> a \<and> a < frame + length bytes then bytes ! (a - frame) else cells (physical m) a)\<rparr>\<rparr>"

section \<open>The live hardware tables\<close>

definition install_user_page_arch :: "answers \<Rightarrow> nat \<Rightarrow> nat \<Rightarrow> page_permissions \<Rightarrow> memory_manager \<Rightarrow> bool \<times> memory_manager" where
  "install_user_page_arch ans va pa perms m =
     (if table_room ans va
      then (True, m\<lparr>hardware := (hardware m)(running m := (hardware m (running m))(va := Some (pa, perms)))\<rparr>)
      else (False, m))"

definition unmap_user_page_arch :: "nat \<Rightarrow> memory_manager \<Rightarrow> bool \<times> memory_manager" where
  "unmap_user_page_arch va m =
     (case hardware m (running m) va of
        None \<Rightarrow> (False, m)
      | Some _ \<Rightarrow> (True, m\<lparr>hardware := (hardware m)(running m := (hardware m (running m))(va := None))\<rparr>))"

section \<open>Shared frames\<close>

definition inc_frame_refcount :: "nat \<Rightarrow> memory_manager \<Rightarrow> memory_manager" where
  "inc_frame_refcount phys m =
     m\<lparr>frame_refcounts := bt_insert phys ((case bt_get (frame_refcounts m) phys of None \<Rightarrow> 0 | Some c \<Rightarrow> c) + 1) (frame_refcounts m)\<rparr>"

text \<open>An entry is never 0: it starts at 1 and is removed when it would become 0.\<close>

definition dec_frame_refcount :: "nat \<Rightarrow> memory_manager \<Rightarrow> nat \<times> memory_manager" where
  "dec_frame_refcount phys m =
     (case bt_get (frame_refcounts m) phys of
        None \<Rightarrow> (0, m)
      | Some count \<Rightarrow>
          if count - 1 = 0
          then (0, m\<lparr>frame_refcounts := bt_remove phys (frame_refcounts m), freed_boxes := freed_boxes m @ [phys]\<rparr>)
          else (count - 1, m\<lparr>frame_refcounts := bt_insert phys (count - 1) (frame_refcounts m)\<rparr>))"

definition get_frame_refcount :: "nat \<Rightarrow> memory_manager \<Rightarrow> nat" where
  "get_frame_refcount phys m = (case bt_get (frame_refcounts m) phys of None \<Rightarrow> 0 | Some c \<Rightarrow> c)"

section \<open>Page faults\<close>

definition allocate_or_kill :: "answers \<Rightarrow> memory_manager \<Rightarrow> nat option \<times> memory_manager" where
  "allocate_or_kill ans m =
     (case allocate_frames ans 1 m of
        (Some frame, m1) \<Rightarrow> (Some frame, m1)
      | (None, m1) \<Rightarrow> if oom_killed ans then allocate_frames ans 1 m1 else (None, m1))"

text \<open>Recording a frame that was installed: the page is present from now on.\<close>

definition record_frame :: "address_space_id \<Rightarrow> nat \<Rightarrow> nat \<Rightarrow> memory_manager \<Rightarrow> memory_manager" where
  "record_frame owner va frame m =
     (let t1 = snd (replace_mapping_phys_owned owner va frame (pages m));
          t2 = snd (replace_mapping_kind_owned owner va Anonymous t1);
          t3 = snd (mark_accessed_owned owner va t2)
      in m\<lparr>pages := t3, page_faults_demand_paged := wrapping_add (page_faults_demand_paged m) 1\<rparr>)"

definition FAULT_AROUND_PAGES :: nat where "FAULT_AROUND_PAGES = 8"

definition adjacent_page :: "bool \<Rightarrow> nat \<Rightarrow> nat \<Rightarrow> nat" where
  "adjacent_page backward page_addr offset =
     wrapping_add page_addr (offset * PAGE_SIZE * (if backward then USIZE_LIMIT - 1 else 1) mod USIZE_LIMIT)"

fun around_loop :: "answers \<Rightarrow> address_space_id \<Rightarrow> nat \<Rightarrow> bool \<Rightarrow> nat list \<Rightarrow> memory_manager \<Rightarrow> memory_manager" where
  "around_loop ans owner page_addr backward [] m = m"
| "around_loop ans owner page_addr backward (offset # offsets) m =
     (let adj_va = adjacent_page backward page_addr offset
      in if backward \<and> page_addr < adj_va then m
         else case lookup_mapping_owned owner adj_va (pages m) of
             None \<Rightarrow> m
           | Some (_, adj_perms, adj_kind) \<Rightarrow>
               if adj_kind \<noteq> DemandPaged then m
               else (case get_page_content owner adj_va (saved m) of
                   None \<Rightarrow> m
                 | Some content \<Rightarrow>
                     (case allocate_frames ans 1 m of
                        (None, m1) \<Rightarrow> m1
                      | (Some adj_frame, m1) \<Rightarrow>
                          (case install_user_page_arch ans adj_va adj_frame adj_perms
                                  (write_frame adj_frame (take (min (length content) PAGE_SIZE) content) m1) of
                             (False, m2) \<Rightarrow> snd (deallocate_frames adj_frame 1 m2)
                           | (True, m2) \<Rightarrow> around_loop ans owner page_addr backward offsets (record_frame owner adj_va adj_frame m2)))))"

definition fault_around :: "answers \<Rightarrow> address_space_id \<Rightarrow> nat \<Rightarrow> memory_manager \<Rightarrow> memory_manager" where
  "fault_around ans owner page_addr m =
     around_loop ans owner page_addr False [1..<FAULT_AROUND_PAGES + 1] (around_loop ans owner page_addr True [1..<FAULT_AROUND_PAGES + 1] m)"

text \<open>A failed read or decoding may leave bytes in the frame, which goes back to the pool; frames are zeroed
  when they are handed out.\<close>

definition demand_fault :: "answers \<Rightarrow> address_space_id \<Rightarrow> nat \<Rightarrow> page_permissions \<Rightarrow> memory_manager \<Rightarrow> bool \<times> memory_manager" where
  "demand_fault ans owner page_addr perms m =
     (case allocate_or_kill ans m of
        (None, m1) \<Rightarrow> (False, m1)
      | (Some frame, m1) \<Rightarrow>
          (case load_page owner page_addr (frame_bytes frame m1) (saved m1) of
             (None, s) \<Rightarrow> (False, snd (deallocate_frames frame 1 (m1\<lparr>saved := s\<rparr>)))
           | (Some bytes, s) \<Rightarrow>
               (case install_user_page_arch ans page_addr frame perms (write_frame frame bytes (m1\<lparr>saved := s\<rparr>)) of
                  (False, m2) \<Rightarrow> (False, snd (deallocate_frames frame 1 m2))
                | (True, m2) \<Rightarrow> (True, fault_around ans owner page_addr (record_frame owner page_addr frame m2)))))"

definition cow_fault :: "answers \<Rightarrow> address_space_id \<Rightarrow> nat \<Rightarrow> nat \<Rightarrow> memory_manager \<Rightarrow> bool \<times> memory_manager" where
  "cow_fault ans owner page_addr phys m =
     (case allocate_or_kill ans m of
        (None, m1) \<Rightarrow> (False, m1)
      | (Some new_frame, m1) \<Rightarrow>
          (let m2 = m1\<lparr>physical := copy_frame phys new_frame (physical m1)\<rparr>;
               m3 = snd (dec_frame_refcount phys m2)
           in case install_user_page_arch ans page_addr new_frame READ_WRITE m3 of
                (False, m4) \<Rightarrow> (False, snd (deallocate_frames new_frame 1 m4))
              | (True, m4) \<Rightarrow>
                  (let t1 = snd (unmap_owned (vec_grows ans page_addr) owner page_addr PAGE_SIZE (pages m4))
                   in case map_to_owned (vec_grows ans page_addr) owner page_addr new_frame PAGE_SIZE READ_WRITE Anonymous t1 of
                        (Inl _, t2) \<Rightarrow> (False, snd (deallocate_frames new_frame 1 (m4\<lparr>pages := t2\<rparr>)))
                      | (Inr _, t2) \<Rightarrow>
                          (True, m4\<lparr>pages := snd (mark_accessed_owned owner page_addr t2),
                                    page_faults_cow := wrapping_add (page_faults_cow m4) 1\<rparr>))))"

definition resolve_page_fault_owned :: "answers \<Rightarrow> address_space_id \<Rightarrow> nat \<Rightarrow> bool \<Rightarrow> memory_manager \<Rightarrow> bool \<times> memory_manager" where
  "resolve_page_fault_owned ans owner va is_write m =
     (let page_addr = align_down_page va
      in case lookup_mapping_owned owner page_addr (pages m) of
           None \<Rightarrow> (False, m)
         | Some (phys, perms, kind) \<Rightarrow>
             (case kind of
                DemandPaged \<Rightarrow> demand_fault ans owner page_addr perms m
              | Cow \<Rightarrow> if \<not> is_write then (False, m) else cow_fault ans owner page_addr phys m
              | _ \<Rightarrow> (False, m)))"

definition resolve_page_fault :: "answers \<Rightarrow> nat \<Rightarrow> bool \<Rightarrow> memory_manager \<Rightarrow> bool \<times> memory_manager" where
  "resolve_page_fault ans va is_write m = resolve_page_fault_owned ans (running m) va is_write m"

end
