(* ===== verification/Process_Pages.thy ===== *)
theory Process_Pages
  imports Memory_Manager
begin

text \<open>
  The memory manager's operations on whole address spaces (\<open>src/memory/manager/mapping.rs\<close>, \<open>swap.rs\<close>,
  \<open>compact.rs\<close>), the part of fork that registers pages (\<open>src/kernel/process/process/fork.rs\<close>) and the mapping
  system calls (\<open>src/syscall/memory/map.rs\<close>).  TLB shootdowns have no state here.
\<close>

unbundle bit_operations_syntax

section \<open>Mapping on behalf of an address space\<close>

definition with_pages :: "(page_table \<Rightarrow> 'r \<times> page_table) \<Rightarrow> memory_manager \<Rightarrow> 'r \<times> memory_manager" where
  "with_pages f m = (case f (pages m) of (r, t) \<Rightarrow> (r, m\<lparr>pages := t\<rparr>))"

definition manager_map_region :: "answers \<Rightarrow> nat \<Rightarrow> nat \<Rightarrow> page_permissions \<Rightarrow> memory_manager \<Rightarrow> unit result \<times> memory_manager" where
  "manager_map_region ans va len perms m = with_pages (map_region_with_kind (vec_grows ans va) va len perms Anonymous) m"

definition map_region_with_kind_owned ::
  "answers \<Rightarrow> address_space_id \<Rightarrow> nat \<Rightarrow> nat \<Rightarrow> page_permissions \<Rightarrow> MappingKind \<Rightarrow> memory_manager \<Rightarrow> unit result \<times> memory_manager" where
  "map_region_with_kind_owned ans owner va len perms kind m = with_pages (map_to_owned (vec_grows ans va) owner va va len perms kind) m"

definition manager_unmap :: "answers \<Rightarrow> nat \<Rightarrow> nat \<Rightarrow> memory_manager \<Rightarrow> unit result \<times> memory_manager" where
  "manager_unmap ans va len m = with_pages (unmap (vec_grows ans va) va len) m"

definition manager_unmap_owned :: "answers \<Rightarrow> address_space_id \<Rightarrow> nat \<Rightarrow> nat \<Rightarrow> memory_manager \<Rightarrow> unit result \<times> memory_manager" where
  "manager_unmap_owned ans owner va len m = with_pages (unmap_owned (vec_grows ans va) owner va len) m"

definition kernel_kind :: "MappingKind \<Rightarrow> bool" where
  "kernel_kind kind \<longleftrightarrow> kind \<in> {KernelHeap, KernelStack, Identity, DeviceMemory}"

definition register_page ::
  "answers \<Rightarrow> address_space_id \<Rightarrow> nat \<times> nat \<times> page_permissions \<times> MappingKind \<Rightarrow> page_table \<Rightarrow> bool \<times> page_table" where
  "register_page ans owner page t =
     (case page of (va, pa, perms, kind) \<Rightarrow>
        let page_addr = align_down_page va;
            place = (\<lambda>t. case map_to_owned (vec_grows ans page_addr) owner page_addr pa PAGE_SIZE perms kind t of
                           (r, t') \<Rightarrow> (\<not> is_err r, t'))
        in case lookup_mapping_owned owner page_addr t of
             Some (_, _, existing_kind) \<Rightarrow>
               if kernel_kind existing_kind then (False, t)
               else place (snd (unmap_owned (vec_grows ans page_addr) owner page_addr PAGE_SIZE t))
           | None \<Rightarrow> place t)"

fun register_user_pages ::
  "answers \<Rightarrow> address_space_id \<Rightarrow> (nat \<times> nat \<times> page_permissions \<times> MappingKind) list \<Rightarrow> page_table \<Rightarrow> nat \<times> page_table" where
  "register_user_pages ans owner [] t = (0, t)"
| "register_user_pages ans owner (page # rest) t =
     (case register_page ans owner page t of
        (ok, t1) \<Rightarrow> (case register_user_pages ans owner rest t1 of
                       (count, t2) \<Rightarrow> ((if ok then 1 else 0) + count, t2)))"

definition register_shared_page ::
  "answers \<Rightarrow> address_space_id \<Rightarrow> nat \<Rightarrow> nat \<Rightarrow> page_permissions \<Rightarrow> memory_manager \<Rightarrow> unit result \<times> memory_manager" where
  "register_shared_page ans owner va pa perms m =
     (case with_pages (map_to_owned (vec_grows ans (align_down_page va)) owner (align_down_page va) pa PAGE_SIZE perms Shared) m of
        (Inl _, m') \<Rightarrow> (Inl AlreadyExists, m')
      | (Inr u, m') \<Rightarrow> (Inr u, m'))"

definition is_demand_paged_current :: "nat \<Rightarrow> memory_manager \<Rightarrow> bool" where
  "is_demand_paged_current va m =
     list_ex (\<lambda>p. map_owner p = running m \<and> virtual_address p = align_down_page va \<and> map_kind p = DemandPaged) (mappings (pages m))"

section \<open>Releasing a range\<close>

text \<open>One page of a released mapping.\<close>

definition release_page :: "answers \<Rightarrow> address_space_id \<Rightarrow> page_mapping \<Rightarrow> nat \<Rightarrow> memory_manager \<Rightarrow> bool \<times> memory_manager" where
  "release_page ans owner p addr m =
     (let phys = saturating_add (physical_address p) (addr - virtual_address p);
          m1 = (if map_kind p = Cow then snd (dec_frame_refcount phys m) else m);
          m2 = m1\<lparr>saved := forget_page owner addr (saved m1)\<rparr>
      in case manager_unmap_owned ans owner addr PAGE_SIZE m2 of (r, m3) \<Rightarrow> (\<not> is_err r, m3))"

text \<open>The page addresses stay below \<open>hi\<close>, so the saturating step ends the loop where the plain one does.\<close>

function release_pages :: "answers \<Rightarrow> address_space_id \<Rightarrow> page_mapping \<Rightarrow> nat \<Rightarrow> nat \<Rightarrow> memory_manager \<Rightarrow> nat \<times> memory_manager" where
  "release_pages ans owner p addr hi m =
     (if addr < hi
      then case release_page ans owner p addr m of
          (ok, m1) \<Rightarrow> (case release_pages ans owner p (addr + PAGE_SIZE) hi m1 of
                         (count, m2) \<Rightarrow> ((if ok then 1 else 0) + count, m2))
      else (0, m))"
  by pat_completeness auto
termination
  by (relation "measure (\<lambda>(ans, owner, p, addr, hi, m). hi - addr)") (auto simp: PAGE_SIZE_def)

declare release_pages.simps [simp del]

definition releasable :: "MappingKind \<Rightarrow> bool" where
  "releasable kind \<longleftrightarrow> kind \<in> {Anonymous, DemandPaged, Cow, Shared}"

fun release_mappings :: "answers \<Rightarrow> address_space_id \<Rightarrow> nat \<Rightarrow> nat \<Rightarrow> page_mapping list \<Rightarrow> memory_manager \<Rightarrow> nat \<times> memory_manager" where
  "release_mappings ans owner page_start page_end [] m = (0, m)"
| "release_mappings ans owner page_start page_end (p # ps) m =
     (let lo = max (virtual_address p) page_start;
          hi = min (saturating_add (virtual_address p) (map_length p)) page_end
      in if map_owner p \<noteq> owner \<or> hi \<le> lo \<or> \<not> releasable (map_kind p)
         then release_mappings ans owner page_start page_end ps m
         else case release_pages ans owner p (align_down_page lo) hi m of
           (count, m1) \<Rightarrow> (case release_mappings ans owner page_start page_end ps m1 of (rest, m2) \<Rightarrow> (count + rest, m2)))"

definition unregister_user_page_range :: "answers \<Rightarrow> address_space_id \<Rightarrow> nat \<Rightarrow> nat \<Rightarrow> memory_manager \<Rightarrow> nat \<times> memory_manager" where
  "unregister_user_page_range ans owner start len m =
     release_mappings ans owner (align_down_page start)
       (align_down_page (saturating_add (saturating_add start len) (PAGE_SIZE - 1))) (mappings (pages m)) m"

section \<open>Reclaiming pages\<close>

text \<open>One position of the clock hand; the answer is whether a page was reclaimed.  \<open>None\<close> where compressing
  panics.\<close>

definition reclaim_one :: "nat \<Rightarrow> memory_manager \<Rightarrow> (bool \<times> memory_manager) option" where
  "reclaim_one mapping_idx m =
     (let p = mappings (pages m) ! mapping_idx;
          page_owner = map_owner p; page_addr = virtual_address p; phys = physical_address p
      in if map_kind p \<noteq> Anonymous then Some (False, m)
         else if advice p = Random then Some (False, snd (with_pages (mark_accessed_owned page_owner page_addr) m))
         else if accessed p \<and> advice p \<noteq> Sequential then Some (False, snd (with_pages (clear_accessed_owned page_owner page_addr) m))
         else if 1 < get_frame_refcount phys m then Some (False, m)
         else map_option (\<lambda>s. case unmap_user_page_arch page_addr (m\<lparr>saved := s\<rparr>) of
                  (False, m1) \<Rightarrow> (False, m1)
                | (True, m1) \<Rightarrow>
                    (True, snd (with_pages (replace_mapping_kind_owned page_owner page_addr DemandPaged) (snd (deallocate_frames phys 1 m1)))))
              (save_page page_owner page_addr (frame_bytes phys m) (saved m)))"

definition advance_hand :: "memory_manager \<Rightarrow> memory_manager" where
  "advance_hand m = m\<lparr>reclaim_hand := wrapping_add (reclaim_hand m) 1\<rparr>"

function reclaim_loop :: "nat list \<Rightarrow> nat \<Rightarrow> nat \<Rightarrow> nat \<Rightarrow> nat \<Rightarrow> memory_manager \<Rightarrow> (nat \<times> memory_manager) option" where
  "reclaim_loop indices target max_scan reclaimed scanned m =
     (if reclaimed < target \<and> scanned < max_scan
      then case reclaim_one (indices ! (reclaim_hand m mod length indices)) m of
          None \<Rightarrow> None
        | Some (got, m1) \<Rightarrow> reclaim_loop indices target max_scan (if got then reclaimed + 1 else reclaimed) (scanned + 1) (advance_hand m1)
      else Some (reclaimed, m))"
  by pat_completeness auto
termination
  by (relation "measure (\<lambda>(indices, target, max_scan, reclaimed, scanned, m). max_scan - scanned)") auto

declare reclaim_loop.simps [simp del]

definition anonymous_indices :: "page_table \<Rightarrow> nat list" where
  "anonymous_indices t = filter (\<lambda>i. map_kind (mappings t ! i) = Anonymous) [0..<length (mappings t)]"

text \<open>\<open>target * 4\<close> may overflow.\<close>

definition reclaim_pages :: "nat \<Rightarrow> memory_manager \<Rightarrow> (nat \<times> memory_manager) option" where
  "reclaim_pages target m =
     (let indices = anonymous_indices (pages m)
      in if mapping_count (pages m) = 0 \<or> indices = [] then Some (0, m)
         else case checked_mul target 4 of
             None \<Rightarrow> None
           | Some bound \<Rightarrow>
               map_option (\<lambda>(reclaimed, m1). (reclaimed, if mapping_count (pages m) \<le> reclaim_hand m1 then m1\<lparr>reclaim_hand := 0\<rparr> else m1))
                 (reclaim_loop indices target (max (min (length indices * 2) bound) (length indices)) 0 0 m))"

definition reclaimable_page_count :: "memory_manager \<Rightarrow> nat" where
  "reclaimable_page_count m =
     length (filter (\<lambda>p. map_kind p = Anonymous \<and> get_frame_refcount (physical_address p) m \<le> 1) (mappings (pages m)))"

section \<open>Relocating frames\<close>

definition frame_users :: "nat \<Rightarrow> page_table \<Rightarrow> page_mapping list" where
  "frame_users old_addr t = filter (\<lambda>p. map_length p = PAGE_SIZE \<and> physical_address p = old_addr) (mappings t)"

definition movable :: "page_mapping \<Rightarrow> bool" where
  "movable p \<longleftrightarrow> map_kind p = Anonymous \<or> map_kind p = Locked"

definition relocate_user_frame :: "answers \<Rightarrow> memory_manager \<Rightarrow> nat \<Rightarrow> nat \<Rightarrow> bool \<times> memory_manager" where
  "relocate_user_frame ans m old_addr new_addr =
     (case filter movable (frame_users old_addr (pages m)) of
        [] \<Rightarrow> (False, m)
      | movables \<Rightarrow>
          let target = last movables; va = virtual_address target; perms = map_permissions target
          in if length (frame_users old_addr (pages m)) \<noteq> 1 then (False, m)
             else case unmap_user_page_arch va m of
               (had_mapping, m1) \<Rightarrow>
                 (case (if bare_metal ans then install_user_page_arch ans va new_addr perms m1 else (True, m1)) of
                    (False, m2) \<Rightarrow> (False, if had_mapping then snd (install_user_page_arch ans va old_addr perms m2) else m2)
                  | (True, m2) \<Rightarrow>
                      (case with_pages (replace_mapping_phys va new_addr) m2 of (r, m3) \<Rightarrow> (\<not> is_err r, m3))))"

fun compact_nodes :: "answers \<Rightarrow> nat list \<Rightarrow> memory_manager \<Rightarrow> nat \<times> memory_manager" where
  "compact_nodes ans [] m = (0, m)"
| "compact_nodes ans (node # nodes) m =
     (case compact (frame_allocators m ! node) (relocate_user_frame ans) (physical m) m of
        (moved, fa, pm, m1) \<Rightarrow>
          (case compact_nodes ans nodes (m1\<lparr>frame_allocators := (frame_allocators m1)[node := fa], physical := pm\<rparr>) of
             (rest, m2) \<Rightarrow> (moved + rest, m2)))"

definition compact_memory :: "answers \<Rightarrow> memory_manager \<Rightarrow> nat \<times> memory_manager" where
  "compact_memory ans m = compact_nodes ans [0..<num_nodes m] m"

definition fragmentation_stats :: "memory_manager \<Rightarrow> nat \<times> nat" where
  "fragmentation_stats m =
     (sum_list (map (\<lambda>i. free_range_count (frame_allocators m ! i)) [0..<num_nodes m]),
      fold max (map (\<lambda>i. largest_free_contiguous_frames (frame_allocators m ! i)) [0..<num_nodes m]) 0)"

section \<open>Fork\<close>

text \<open>The software half of fork.  The page lists are what cloning the hardware tables returned.\<close>

definition share_page :: "address_space_id \<Rightarrow> nat \<times> nat \<times> page_permissions \<Rightarrow> memory_manager \<Rightarrow> memory_manager" where
  "share_page parent page m =
     (case page of (va, pa, _) \<Rightarrow>
        let m1 = snd (with_pages (replace_mapping_kind_owned parent va Cow) m);
            m2 = snd (with_pages (replace_mapping_permissions_owned parent va READ) m1)
        in inc_frame_refcount pa (inc_frame_refcount pa m2))"

text \<open>The pages that are not shared by this fork: one the parent already shares stays shared.\<close>

fun register_rest ::
  "answers \<Rightarrow> address_space_id \<Rightarrow> address_space_id \<Rightarrow> nat list \<Rightarrow> (nat \<times> nat \<times> page_permissions) list \<Rightarrow> memory_manager
     \<Rightarrow> (nat \<times> nat \<times> page_permissions \<times> MappingKind) list \<times> memory_manager" where
  "register_rest ans parent child shared [] m = ([], m)"
| "register_rest ans parent child shared ((va, pa, perms) # rest) m =
     (if va \<in> set shared then register_rest ans parent child shared rest m
      else case lookup_mapping_owned parent va (pages m) of
          Some (_, _, Cow) \<Rightarrow>
            (case register_rest ans parent child shared rest (inc_frame_refcount pa m) of
               (entries, m1) \<Rightarrow> ((va, pa, READ, Cow) # entries, m1))
        | _ \<Rightarrow> register_rest ans parent child shared rest
                 (snd (with_pages (register_user_pages ans child
                   [(va, pa, perms, if permissions_contain perms EXECUTE then DemandPaged else Anonymous)]) m)))"

definition fork_register ::
  "answers \<Rightarrow> address_space_id \<Rightarrow> address_space_id \<Rightarrow> (nat \<times> nat \<times> page_permissions) list \<Rightarrow> (nat \<times> nat \<times> page_permissions) list
     \<Rightarrow> memory_manager \<Rightarrow> memory_manager" where
  "fork_register ans parent child shared_pages all_child_pages m =
     (case register_rest ans parent child (map fst shared_pages) all_child_pages (fold (share_page parent) shared_pages m) of
        (inherited, m1) \<Rightarrow>
          snd (with_pages (register_user_pages ans child (map (\<lambda>(va, pa, _). (va, pa, READ, Cow)) shared_pages @ inherited)) m1))"

section \<open>System calls\<close>

definition validate_zeroed_args :: "nat list \<Rightarrow> nat \<Rightarrow> unit result" where
  "validate_zeroed_args args start = (if list_ex (\<lambda>a. a \<noteq> 0) (drop (min start (length args)) args) then Inl InvalidArgument else Inr ())"

definition translate_prot :: "u64 \<Rightarrow> page_permissions result" where
  "translate_prot prot =
     (let rd = prot AND 1 \<noteq> 0; wr = prot AND 2 \<noteq> 0; ex = prot AND 4 \<noteq> 0
      in if wr \<and> ex then Inl InvalidArgument
         else if rd \<and> \<not> wr \<and> \<not> ex then Inr READ
         else if rd \<and> wr \<and> \<not> ex then Inr READ_WRITE
         else if rd \<and> \<not> wr \<and> ex then Inr READ_EXECUTE
         else Inl InvalidArgument)"

text \<open>The arguments are six words; \<open>None\<close> where rounding the length up overflows.\<close>

definition mmap :: "answers \<Rightarrow> nat list \<Rightarrow> memory_manager \<Rightarrow> nat result \<times> memory_manager" where
  "mmap ans args m =
     (case validate_zeroed_args args 5 of
        Inl e \<Rightarrow> (Inl e, m)
      | Inr _ \<Rightarrow>
          let addr_hint = args ! 0; len = args ! 1; flags = (of_nat (args ! 3) :: u64)
          in if len = 0 \<or> 0x10000000 < len then (Inl InvalidArgument, m)
             else if flags AND NOT 0x22 \<noteq> 0 then (Inl InvalidArgument, m)
             else if flags AND 0x20 = 0 then (Inl InvalidArgument, m)
             else case translate_prot (of_nat (args ! 2)) of
                 Inl e \<Rightarrow> (Inl e, m)
               | Inr perms \<Rightarrow>
                   let va = align_down_page addr_hint
                   in if va = 0 then (Inl InvalidArgument, m)
                      else case manager_map_region ans va (align_down_page (len + (PAGE_SIZE - 1))) perms m of
                          (Inl e, m1) \<Rightarrow> (Inl e, m1)
                        | (Inr _, m1) \<Rightarrow> (Inr va, m1))"

definition munmap :: "answers \<Rightarrow> nat list \<Rightarrow> memory_manager \<Rightarrow> (nat result \<times> memory_manager) option" where
  "munmap ans args m =
     (case validate_zeroed_args args 2 of
        Inl e \<Rightarrow> Some (Inl e, m)
      | Inr _ \<Rightarrow>
          let addr = args ! 0; len = args ! 1
          in if len = 0 then Some (Inl InvalidArgument, m)
             else map_option (\<lambda>rounded.
               let va = align_down_page addr
               in if va = 0 then (Inl InvalidArgument, m)
                  else case manager_unmap ans va (align_down_page (rounded - 1)) m of
                      (Inl e, m1) \<Rightarrow> (Inl e, m1)
                    | (Inr _, m1) \<Rightarrow> (Inr 0, m1)) (checked_add len PAGE_SIZE))"

end
