(* ===== verification/Manager_Frames.thy ===== *)
theory Manager_Frames
  imports Memory_Manager Frame_Pool
begin

text \<open>
  The frames of the memory manager: over all NUMA nodes, handing out one frame takes exactly one free
  address and zeroes that page, and giving one back makes exactly that address free again.
\<close>

definition pool_stop :: "frame_allocator \<Rightarrow> nat" where
  "pool_stop fa = base fa + total_frames fa * FRAME_SIZE"

definition frames_ok :: "memory_manager \<Rightarrow> bool" where
  "frames_ok m \<longleftrightarrow> num_nodes m \<le> length (frame_allocators m) \<and>
     (\<forall>i < num_nodes m. frames_wf (frame_allocators m ! i) \<and> base (frame_allocators m ! i) \<noteq> 0 \<and>
        base (frame_allocators m ! i) mod PAGE_SIZE = 0) \<and>
     (\<forall>i < num_nodes m. \<forall>j < num_nodes m. i \<noteq> j \<longrightarrow>
        pool_stop (frame_allocators m ! i) \<le> base (frame_allocators m ! j) \<or> pool_stop (frame_allocators m ! j) \<le> base (frame_allocators m ! i))"

definition addresses :: "frame_allocator \<Rightarrow> nat set \<Rightarrow> nat set" where
  "addresses fa S = (\<lambda>s. base fa + s * FRAME_SIZE) ` S"

definition free_addrs :: "memory_manager \<Rightarrow> nat set" where
  "free_addrs m = (\<Union>i < num_nodes m. addresses (frame_allocators m ! i) (free_frames (frame_allocators m ! i)))"

definition pool_addrs :: "memory_manager \<Rightarrow> nat set" where
  "pool_addrs m = (\<Union>i < num_nodes m. addresses (frame_allocators m ! i) {..<total_frames (frame_allocators m ! i)})"

definition page_span :: "nat \<Rightarrow> nat set" where
  "page_span a = {a..<a + PAGE_SIZE}"

definition took :: "memory_manager \<Rightarrow> nat \<Rightarrow> memory_manager \<Rightarrow> bool" where
  "took m addr m' \<longleftrightarrow> addr \<in> free_addrs m \<and> free_addrs m' = free_addrs m - {addr} \<and> pool_addrs m' = pool_addrs m \<and> frames_ok m' \<and>
     cells (physical m') = (\<lambda>a. if a \<in> page_span addr then 0 else cells (physical m) a) \<and>
     (\<exists>fas pm. m' = m\<lparr>frame_allocators := fas, physical := pm\<rparr>)"

lemma free_frames_below: "frames_wf fa \<Longrightarrow> free_frames fa \<subseteq> {..<total_frames fa}"
  using range_frames_below [of "next_frame fa" "free_ranges fa"] by (force simp: free_frames_def frames_wf_def)

lemma addresses_bounds: "a \<in> addresses fa S \<Longrightarrow> S \<subseteq> {..<total_frames fa} \<Longrightarrow> base fa \<le> a \<and> a < pool_stop fa"
  by (auto simp: addresses_def pool_stop_def FRAME_SIZE_def)

lemma addresses_inj [simp]: "base fa + s * FRAME_SIZE \<in> addresses fa S \<longleftrightarrow> s \<in> S"
  by (auto simp: addresses_def FRAME_SIZE_def)

lemma frames_okD:
  assumes "frames_ok m" "i < num_nodes m"
  shows "frames_wf (frame_allocators m ! i)" "base (frame_allocators m ! i) \<noteq> 0" "base (frame_allocators m ! i) mod PAGE_SIZE = 0"
    "i < length (frame_allocators m)"
  using assms by (auto simp: frames_ok_def)

lemma frames_ok_disjoint:
  assumes "frames_ok m" "i < num_nodes m" "j < num_nodes m" "i \<noteq> j"
    "a \<in> addresses (frame_allocators m ! i) {..<total_frames (frame_allocators m ! i)}"
  shows "a < base (frame_allocators m ! j) \<or> pool_stop (frame_allocators m ! j) \<le> a"
proof -
  have "pool_stop (frame_allocators m ! i) \<le> base (frame_allocators m ! j) \<or> pool_stop (frame_allocators m ! j) \<le> base (frame_allocators m ! i)"
    using assms(1-4) by (simp add: frames_ok_def)
  then show ?thesis
    using addresses_bounds [OF assms(5)] by auto
qed

lemma frames_ok_apart:
  assumes "frames_ok m" "i < num_nodes m" "j < num_nodes m" "i \<noteq> j"
    "a \<in> addresses (frame_allocators m ! i) {..<total_frames (frame_allocators m ! i)}"
  shows "a \<notin> addresses (frame_allocators m ! j) (free_frames (frame_allocators m ! j))"
  using frames_ok_disjoint [OF assms] addresses_bounds [of a "frame_allocators m ! j" "free_frames (frame_allocators m ! j)"]
    free_frames_below [OF frames_okD(1) [OF assms(1,3)]] by auto

lemma free_addrs_pool: "frames_ok m \<Longrightarrow> free_addrs m \<subseteq> pool_addrs m"
  using free_frames_below frames_okD(1) unfolding free_addrs_def pool_addrs_def addresses_def by fastforce

lemma pool_addrs_page: "frames_ok m \<Longrightarrow> a \<in> pool_addrs m \<Longrightarrow> a mod PAGE_SIZE = 0 \<and> a \<noteq> 0"
  using frames_okD(2,3) by (fastforce simp: pool_addrs_def addresses_def FRAME_SIZE_def PAGE_SIZE_def)

lemma page_span_disjoint: "a mod PAGE_SIZE = 0 \<Longrightarrow> b mod PAGE_SIZE = 0 \<Longrightarrow> a \<noteq> b \<Longrightarrow> page_span a \<inter> page_span b = {}"
  by (auto simp: page_span_def PAGE_SIZE_def elim!: dvdE)

text \<open>Replacing one node's allocator.\<close>

lemma node_replaced:
  fixes pm :: phys_memory
  assumes ok: "frames_ok m" and i: "i < num_nodes m"
    and fa: "frames_wf fa" "base fa = base (frame_allocators m ! i)" "total_frames fa = total_frames (frame_allocators m ! i)"
  defines "m' \<equiv> m\<lparr>frame_allocators := (frame_allocators m)[i := fa], physical := pm\<rparr>"
  shows "frames_ok m'" "pool_addrs m' = pool_addrs m"
    "free_addrs m' = (\<Union>j \<in> {..<num_nodes m} - {i}. addresses (frame_allocators m ! j) (free_frames (frame_allocators m ! j))) \<union>
       addresses fa (free_frames fa)"
proof -
  have nth: "(frame_allocators m)[i := fa] ! j = (if j = i then fa else frame_allocators m ! j)" if "j < num_nodes m" for j
    using frames_okD(4) [OF ok] that by simp
  have stop: "pool_stop fa = pool_stop (frame_allocators m ! i)"
    using fa by (simp add: pool_stop_def)
  show "frames_ok m'"
    unfolding frames_ok_def
  proof (intro conjI allI impI)
    show "num_nodes m' \<le> length (frame_allocators m')"
      using ok by (simp add: m'_def frames_ok_def)
  next
    fix j
    assume "j < num_nodes m'"
    then show "frames_wf (frame_allocators m' ! j)" "base (frame_allocators m' ! j) \<noteq> 0" "base (frame_allocators m' ! j) mod PAGE_SIZE = 0"
      using fa frames_okD [OF ok] i by (cases "j = i"; simp add: m'_def)+
  next
    fix j k
    assume jk: "j < num_nodes m'" "k < num_nodes m'" "j \<noteq> k"
    then have "pool_stop (frame_allocators m ! j) \<le> base (frame_allocators m ! k) \<or> pool_stop (frame_allocators m ! k) \<le> base (frame_allocators m ! j)"
      using ok by (simp add: m'_def frames_ok_def)
    then show "pool_stop (frame_allocators m' ! j) \<le> base (frame_allocators m' ! k) \<or> pool_stop (frame_allocators m' ! k) \<le> base (frame_allocators m' ! j)"
      using nth [of j] nth [of k] fa stop jk by (auto simp: m'_def)
  qed
  have "addresses fa S = addresses (frame_allocators m ! i) S" for S
    using fa by (simp add: addresses_def)
  then show "pool_addrs m' = pool_addrs m"
    unfolding pool_addrs_def using nth fa by (auto simp: m'_def split: if_splits intro!: SUP_cong)
  show "free_addrs m' = (\<Union>j \<in> {..<num_nodes m} - {i}. addresses (frame_allocators m ! j) (free_frames (frame_allocators m ! j))) \<union>
       addresses fa (free_frames fa)"
    unfolding free_addrs_def using nth i by (auto simp: m'_def split: if_splits)
qed

lemma free_addrs_split:
  "i < num_nodes m \<Longrightarrow> free_addrs m = (\<Union>j \<in> {..<num_nodes m} - {i}. addresses (frame_allocators m ! j) (free_frames (frame_allocators m ! j))) \<union>
     addresses (frame_allocators m ! i) (free_frames (frame_allocators m ! i))"
  unfolding free_addrs_def by auto

section \<open>Taking a frame\<close>

lemma allocate_on_Some:
  assumes ok: "frames_ok m" and i: "i < num_nodes m" and res: "allocate_on i 1 m = (Some addr, m')"
  shows "took m addr m'"
proof -
  let ?fa = "frame_allocators m ! i"
  obtain fa pm where a: "allocate ?fa (physical m) 1 = (Some addr, fa, pm)"
    and m': "m' = m\<lparr>frame_allocators := (frame_allocators m)[i := fa], physical := pm\<rparr>"
    using res by (auto simp: allocate_on_def split: prod.splits)
  obtain s where s: "addr = base ?fa + s * FRAME_SIZE" "s \<in> free_frames ?fa" "free_frames fa = free_frames ?fa - {s}" "frames_wf fa"
    "base fa = base ?fa" "total_frames fa = total_frames ?fa" "frame_zeroed ?fa s 1 (physical m) pm"
    using allocate_Some [OF frames_okD(1) [OF ok i] a] by auto
  note R = node_replaced [OF ok i s(4,5,6), of pm, folded m']
  have addr: "addr \<in> addresses ?fa {..<total_frames ?fa}"
    using s(1,2) free_frames_below [OF frames_okD(1) [OF ok i]] by auto
  have "addr \<notin> addresses (frame_allocators m ! j) (free_frames (frame_allocators m ! j))" if "j < num_nodes m" "j \<noteq> i" for j
    using frames_ok_apart [OF ok i that(1) _ addr] that(2) by simp
  moreover have "addresses fa (free_frames fa) = addresses ?fa (free_frames ?fa) - {addr}"
    by (auto simp: addresses_def s(1,3,5) FRAME_SIZE_def)
  ultimately have "free_addrs m' = free_addrs m - {addr}"
    unfolding R(3) free_addrs_split [OF i] by auto
  moreover have "addr \<in> free_addrs m"
    using s(1,2) i unfolding free_addrs_def by (auto intro!: bexI [of _ i])
  moreover have "cells (physical m') = (\<lambda>a. if a \<in> page_span addr then 0 else cells (physical m) a)"
    using s(7) by (auto simp: m' frame_zeroed_def page_span_def s(1) fun_eq_iff FRAME_SIZE_def PAGE_SIZE_def algebra_simps)
  ultimately show ?thesis
    using R(1,2) m' by (auto simp: took_def)
qed

lemma allocate_on_None:
  assumes ok: "frames_ok m" and i: "i < num_nodes m" and res: "allocate_on i 1 m = (None, m')"
  shows "m' = m"
proof -
  obtain fa pm where "allocate (frame_allocators m ! i) (physical m) 1 = (None, fa, pm)"
    "m' = m\<lparr>frame_allocators := (frame_allocators m)[i := fa], physical := pm\<rparr>"
    using res by (auto simp: allocate_on_def split: prod.splits)
  then show ?thesis
    using allocate_None [OF frames_okD(1) [OF ok i]] by (metis list_update_id memory_manager.surjective memory_manager.update_convs(1,12))
qed

lemma allocate_any_ok:
  assumes "frames_ok m" "\<forall>i \<in> set is. i < num_nodes m" "allocate_any is 1 m = (r, m')"
  shows "case r of Some addr \<Rightarrow> took m addr m' | None \<Rightarrow> m' = m"
  using assms
proof (induction "is")
  case (Cons i js)
  show ?case
  proof (cases "allocate_on i 1 m")
    case (Pair q m1)
    show ?thesis
    proof (cases q)
      case None
      then have "m1 = m"
        using allocate_on_None [OF Cons.prems(1), of i m1] Cons.prems(2) Pair by simp
      then show ?thesis
        using Cons Pair None by simp
    next
      case (Some addr)
      then show ?thesis
        using allocate_on_Some [OF Cons.prems(1), of i addr m1] Cons.prems Pair by auto
    qed
  qed
qed simp

lemma allocate_frames_ok:
  assumes "frames_ok m" "allocate_frames ans 1 m = (r, m')"
  shows "case r of Some addr \<Rightarrow> took m addr m' | None \<Rightarrow> m' = m"
proof -
  have "\<forall>i \<in> set [0..<num_nodes m]. i < num_nodes m"
    by simp
  note A = allocate_any_ok [OF assms(1) this]
  consider (local) addr where "numa_node ans < num_nodes m" "allocate_on (numa_node ans) 1 m = (Some addr, m')" "r = Some addr"
    | (any) m1 where "m1 = m" "allocate_any [0..<num_nodes m1] 1 m1 = (r, m')"
    using assms(2) allocate_on_None [OF assms(1), of "numa_node ans"]
    by (auto simp: allocate_frames_def split: if_splits prod.splits option.splits)
  then show ?thesis
    using allocate_on_Some [OF assms(1)] A by cases auto
qed

lemma allocate_or_kill_ok:
  assumes "frames_ok m" "allocate_or_kill ans m = (r, m')"
  shows "case r of Some addr \<Rightarrow> took m addr m' | None \<Rightarrow> m' = m"
proof -
  obtain q m1 where 1: "allocate_frames ans 1 m = (q, m1)"
    by (cases "allocate_frames ans 1 m")
  show ?thesis
    using allocate_frames_ok [OF assms(1) 1] allocate_frames_ok [OF assms(1)] 1 assms(2)
    by (cases q) (auto simp: allocate_or_kill_def split: if_splits)
qed

section \<open>Giving a frame back\<close>

lemma deallocate_outside: "ptr < base fa \<or> pool_stop fa \<le> ptr \<Longrightarrow> deallocate fa ptr 1 = (False, fa)"
  by (auto simp: deallocate_def Let_def pool_stop_def FRAME_SIZE_def checked_add_def div_less_iff_less_mult split: prod.split)

lemma deallocate_any_inside:
  assumes ok: "frames_ok m" and i: "i < num_nodes m" "i \<in> set js" "\<forall>j \<in> set js. j < num_nodes m"
    and s: "s < total_frames (frame_allocators m ! i)" "s \<notin> free_frames (frame_allocators m ! i)"
    and fa: "deallocate (frame_allocators m ! i) (base (frame_allocators m ! i) + s * FRAME_SIZE) 1 = (True, fa)"
  shows "deallocate_any js (base (frame_allocators m ! i) + s * FRAME_SIZE) 1 m = (True, m\<lparr>frame_allocators := (frame_allocators m)[i := fa]\<rparr>)"
  using i(2,3)
proof (induction js)
  case (Cons j js)
  show ?case
  proof (cases "j = i")
    case False
    have "base (frame_allocators m ! i) + s * FRAME_SIZE \<in> addresses (frame_allocators m ! i) {..<total_frames (frame_allocators m ! i)}"
      using s by simp
    then have "deallocate (frame_allocators m ! j) (base (frame_allocators m ! i) + s * FRAME_SIZE) 1 = (False, frame_allocators m ! j)"
      using frames_ok_disjoint [OF ok i(1) _ False [symmetric]] Cons.prems by (intro deallocate_outside) auto
    then show ?thesis
      using Cons False by simp
  qed (use fa in \<open>simp del: One_nat_def\<close>)
qed simp

lemma deallocate_frames_ok:
  assumes ok: "frames_ok m" and addr: "addr \<in> pool_addrs m - free_addrs m"
  shows "\<exists>m'. deallocate_frames addr 1 m = (True, m') \<and> frames_ok m' \<and> pool_addrs m' = pool_addrs m \<and>
    free_addrs m' = insert addr (free_addrs m)"
proof -
  obtain i s where i: "i < num_nodes m" and s: "s < total_frames (frame_allocators m ! i)" "addr = base (frame_allocators m ! i) + s * FRAME_SIZE"
    using addr by (auto simp: pool_addrs_def addresses_def)
  let ?fa = "frame_allocators m ! i"
  have live: "s \<notin> free_frames ?fa"
    using addr i s(2) by (auto simp: free_addrs_def dest!: bspec [of _ _ i])
  then have below: "s + 1 \<le> next_frame ?fa"
    using s(1) by (auto simp: free_frames_def)
  obtain fa where fa: "deallocate ?fa addr 1 = (True, fa)" "free_frames fa = insert s (free_frames ?fa)" "frames_wf fa"
    "base fa = base ?fa" "total_frames fa = total_frames ?fa"
    using deallocate_live [OF frames_okD(1,2) [OF ok i], of 1 s] below live s(2) by auto
  note R = node_replaced [OF ok i fa(3,4,5), of "physical m"]
  have d: "deallocate_frames addr 1 m = (True, m\<lparr>frame_allocators := (frame_allocators m)[i := fa]\<rparr>)"
    unfolding deallocate_frames_def s(2)
    by (rule deallocate_any_inside [OF ok i _ _ s(1) live]) (use i fa(1) s(2) in auto)
  have "addresses fa (free_frames fa) = insert addr (addresses ?fa (free_frames ?fa))"
    by (simp add: addresses_def fa(2,4) s(2))
  then show ?thesis
    using d R unfolding free_addrs_split [OF i] by simp
qed

lemma deallocate_any_fields: "\<exists>fas. snd (deallocate_any js ptr n m) = m\<lparr>frame_allocators := fas\<rparr>"
proof (induction js arbitrary: m)
  case Nil
  show ?case
    by (rule exI [of _ "frame_allocators m"]) simp
next
  case (Cons j js)
  obtain ok fa where d: "deallocate (frame_allocators m ! j) ptr n = (ok, fa)"
    by (cases "deallocate (frame_allocators m ! j) ptr n")
  show ?case
    using Cons [of "m\<lparr>frame_allocators := (frame_allocators m)[j := fa]\<rparr>"] d by (cases ok) auto
qed

lemma deallocate_frames_fields: "\<exists>fas. snd (deallocate_frames ptr n m) = m\<lparr>frame_allocators := fas\<rparr>"
  by (simp add: deallocate_frames_def deallocate_any_fields)

lemma deallocate_frames_simps [simp]:
  "pages (snd (deallocate_frames ptr n m)) = pages m" "saved (snd (deallocate_frames ptr n m)) = saved m"
  "hardware (snd (deallocate_frames ptr n m)) = hardware m" "running (snd (deallocate_frames ptr n m)) = running m"
  "physical (snd (deallocate_frames ptr n m)) = physical m" "frame_refcounts (snd (deallocate_frames ptr n m)) = frame_refcounts m"
  using deallocate_frames_fields [of ptr n m] by auto

lemma tookD:
  assumes "took m addr m'"
  shows "pages m' = pages m" "saved m' = saved m" "hardware m' = hardware m" "running m' = running m"
    "frame_refcounts m' = frame_refcounts m" "frames_ok m'" "free_addrs m' = free_addrs m - {addr}" "addr \<in> free_addrs m"
    "pool_addrs m' = pool_addrs m"
    "cells (physical m') = (\<lambda>a. if a \<in> page_span addr then 0 else cells (physical m) a)"
  using assms by (auto simp: took_def)

end
