(* ===== verification/Page_Views.thy ===== *)
theory Page_Views
  imports Page_Table
begin

text \<open>
  What the software page table promises: per address space it is a partial function from addresses, which
  mapping extends and unmapping restricts on exactly the pages asked for, and no operation on behalf of
  one address space changes what another process has mapped.
\<close>

section \<open>The invariant\<close>

definition map_stop :: "page_mapping \<Rightarrow> nat" where
  "map_stop m = virtual_address m + map_length m"

definition mapping_ok :: "page_mapping \<Rightarrow> bool" where
  "mapping_ok m \<longleftrightarrow> virtual_address m mod PAGE_SIZE = 0 \<and> physical_address m mod PAGE_SIZE = 0 \<and> map_length m mod PAGE_SIZE = 0 \<and>
     0 < map_length m \<and> map_stop m < USIZE_LIMIT"

definition maps_apart :: "page_mapping \<Rightarrow> page_mapping \<Rightarrow> bool" where
  "maps_apart m m' \<longleftrightarrow> map_owner m \<noteq> map_owner m' \<or> map_stop m \<le> virtual_address m' \<or> map_stop m' \<le> virtual_address m"

definition table_ok :: "page_table \<Rightarrow> bool" where
  "table_ok t \<longleftrightarrow> list_all mapping_ok (mappings t) \<and> sorted_wrt maps_apart (mappings t)"

definition spans :: "page_mapping \<Rightarrow> nat \<Rightarrow> bool" where
  "spans m a \<longleftrightarrow> virtual_address m \<le> a \<and> a < map_stop m"

definition entry :: "page_mapping \<Rightarrow> nat \<Rightarrow> nat \<times> page_permissions \<times> MappingKind" where
  "entry m a = (physical_address m + (a - virtual_address m), map_permissions m, map_kind m)"

text \<open>What an address space itself has mapped at an address.\<close>

definition own_view :: "page_table \<Rightarrow> address_space_id \<Rightarrow> nat \<Rightarrow> (nat \<times> page_permissions \<times> MappingKind) option" where
  "own_view t owner a = map_option (\<lambda>m. entry m a) (find (\<lambda>m. map_owner m = owner \<and> spans m a) (mappings t))"

lemma mapping_covers_ok: "mapping_ok m \<Longrightarrow> mapping_covers m a = spans m a"
  by (simp add: mapping_ok_def mapping_covers_def spans_def range_end_def map_stop_def checked_add_def)

lemma range_end_ok: "mapping_ok m \<Longrightarrow> range_end (virtual_address m) (map_length m) = Some (map_stop m)"
  by (simp add: mapping_ok_def range_end_def map_stop_def)

lemma maps_apart_sym: "maps_apart m m' \<Longrightarrow> maps_apart m' m"
  by (auto simp: maps_apart_def)

lemma maps_apart_unique:
  "sorted_wrt maps_apart ms \<Longrightarrow> m \<in> set ms \<Longrightarrow> m' \<in> set ms \<Longrightarrow> map_owner m = map_owner m' \<Longrightarrow> spans m a \<Longrightarrow> spans m' a \<Longrightarrow> m = m'"
  by (induction ms) (auto simp: maps_apart_def spans_def)

lemma find_unique:
  assumes "\<And>x y. x \<in> set xs \<Longrightarrow> y \<in> set xs \<Longrightarrow> p x \<Longrightarrow> p y \<Longrightarrow> x = y"
  shows "find p xs = Some x \<longleftrightarrow> x \<in> set xs \<and> p x"
proof
  assume "find p xs = Some x"
  then show "x \<in> set xs \<and> p x"
    by (auto simp: find_Some_iff)
next
  assume x: "x \<in> set xs \<and> p x"
  then obtain y where y: "find p xs = Some y"
    by (cases "find p xs") (auto simp: find_None_iff)
  then have "y \<in> set xs \<and> p y"
    by (auto simp: find_Some_iff)
  then show "find p xs = Some x"
    using assms x y by blast
qed

lemma own_view_Some_iff:
  assumes "table_ok t"
  shows "own_view t owner a = Some e \<longleftrightarrow> (\<exists>m \<in> set (mappings t). map_owner m = owner \<and> spans m a \<and> e = entry m a)"
proof -
  have "find (\<lambda>m. map_owner m = owner \<and> spans m a) (mappings t) = Some m \<longleftrightarrow>
      m \<in> set (mappings t) \<and> map_owner m = owner \<and> spans m a" for m
    by (rule find_unique) (use maps_apart_unique assms in \<open>auto simp: table_ok_def\<close>)
  then show ?thesis
    unfolding own_view_def by auto
qed

lemma own_view_eqI:
  assumes "table_ok t" "\<And>e. f owner a = Some e \<longleftrightarrow> (\<exists>m \<in> set (mappings t). map_owner m = owner \<and> spans m a \<and> e = entry m a)"
  shows "own_view t owner a = f owner a"
proof -
  have "own_view t owner a = Some e \<longleftrightarrow> f owner a = Some e" for e
    using own_view_Some_iff [OF assms(1)] assms(2) by blast
  then show ?thesis
    by (metis not_Some_eq)
qed

section \<open>Lookup\<close>

lemma lookup_view:
  assumes "table_ok t"
  shows "lookup_mapping_owned owner a t = (case own_view t owner a of Some e \<Rightarrow> Some e | None \<Rightarrow> own_view t KERNEL a)"
proof -
  have c: "find (\<lambda>m. map_owner m = o' \<and> mapping_covers m a) (mappings t) = find (\<lambda>m. map_owner m = o' \<and> spans m a) (mappings t)" for o'
    by (rule find_cong [OF refl]) (use assms mapping_covers_ok in \<open>auto simp: table_ok_def list_all_iff\<close>)
  show ?thesis
    unfolding lookup_mapping_owned_def c own_view_def Let_def
    by (auto simp: entry_def split: option.split)
qed

section \<open>Mapping\<close>

lemma page_align_facts: "page_align_down v mod PAGE_SIZE = 0" "page_align_down v \<le> v" "v < page_align_down v + PAGE_SIZE"
  by (simp_all add: page_align_down_def PAGE_SIZE_def minus_mod_eq_mult_div)

lemma normalize_virtual_range_Inr:
  assumes "normalize_virtual_range va len = Inr (start, n)"
  shows "start = page_align_down va" "n mod PAGE_SIZE = 0" "0 < n" "start + n < USIZE_LIMIT"
    "va + len \<le> start + n" "start + n < va + len + PAGE_SIZE" "0 < len"
proof -
  obtain span where span: "span = va mod PAGE_SIZE + len" "page_align_up span = Some n" "start = page_align_down va" "start + n < USIZE_LIMIT" "0 < len"
    using assms by (auto simp: normalize_virtual_range_def range_end_def split: if_splits option.splits)
  have n: "n = page_align_down (span + (PAGE_SIZE - 1))"
    using span(2) by (auto simp: page_align_up_def)
  have va: "va = page_align_down va + va mod PAGE_SIZE"
    by (simp add: page_align_down_def)
  note A = page_align_facts [of "span + (PAGE_SIZE - 1)"]
  have p: "0 < PAGE_SIZE"
    by (simp add: PAGE_SIZE_def)
  show "start = page_align_down va" "n mod PAGE_SIZE = 0" "start + n < USIZE_LIMIT" "0 < len"
    using span n A by simp_all
  show "0 < n" "va + len \<le> start + n" "start + n < va + len + PAGE_SIZE"
    using span(1,3,5) n A(2,3) va p by linarith+
qed

lemma normalize_mapping_Inr:
  assumes "normalize_mapping va pa len = Inr (start, pstart, n)"
  shows "normalize_virtual_range va len = Inr (start, n)" "pstart = page_align_down pa" "pstart + n < USIZE_LIMIT"
    "va mod PAGE_SIZE = pa mod PAGE_SIZE"
  using assms by (auto simp: normalize_mapping_def range_end_def bind_result_def split: if_splits option.splits sum.splits)

lemma overlaps_ok:
  "mapping_ok m \<Longrightarrow> start + n < USIZE_LIMIT \<Longrightarrow> overlaps_range m start n \<longleftrightarrow> virtual_address m < start + n \<and> start < map_stop m"
  by (simp add: overlaps_range_def range_end_ok) (simp add: range_end_def checked_add_def)

lemma map_to_owned_ok:
  assumes "table_ok t" "map_to_owned reserved owner va pa len perms kind t = (Inr (), t')"
  obtains start pstart n where "normalize_mapping va pa len = Inr (start, pstart, n)" "table_ok t'"
    "pt_initialized t' = pt_initialized t"
    "own_view t' = (\<lambda>o' a. if o' = owner \<and> start \<le> a \<and> a < start + n then Some (pstart + (a - start), perms, kind) else own_view t o' a)"
proof -
  obtain start pstart n where N: "normalize_mapping va pa len = Inr (start, pstart, n)"
    and free: "\<not> list_ex (\<lambda>m. matches (map_owner m) owner \<and> overlaps_range m start n) (mappings t)"
    and t': "t' = t\<lparr>mappings := mappings t @
      [\<lparr>virtual_address = start, physical_address = pstart, map_length = n, map_permissions = perms, map_kind = kind,
        accessed = False, advice = Normal, map_owner = owner\<rparr>]\<rparr>"
    using assms(2) by (auto simp: map_to_owned_def split: if_splits sum.splits)
  let ?m = "\<lparr>virtual_address = start, physical_address = pstart, map_length = n, map_permissions = perms, map_kind = kind,
        accessed = False, advice = Normal, map_owner = owner\<rparr>"
  note N1 = normalize_mapping_Inr [OF N]
  note N2 = normalize_virtual_range_Inr [OF N1(1)]
  have m: "mapping_ok ?m"
    using N1 N2 page_align_facts(1) by (simp add: mapping_ok_def map_stop_def)
  have ap: "maps_apart m ?m" if "m \<in> set (mappings t)" for m
  proof (cases "map_owner m = owner")
    case True
    then have "\<not> overlaps_range m start n"
      using free that by (auto simp: list_ex_iff matches_def)
    then show ?thesis
      using overlaps_ok [of m start n] assms(1) that N2(4) by (auto simp: table_ok_def list_all_iff maps_apart_def map_stop_def)
  qed (simp add: maps_apart_def)
  have ok': "table_ok t'"
    using assms(1) m ap by (auto simp: t' table_ok_def sorted_wrt_append)
  have "own_view t' o' a =
      (if o' = owner \<and> start \<le> a \<and> a < start + n then Some (pstart + (a - start), perms, kind) else own_view t o' a)" for o' a
  proof (rule own_view_eqI [OF ok', of "\<lambda>o' a. if o' = owner \<and> start \<le> a \<and> a < start + n then Some (pstart + (a - start), perms, kind) else own_view t o' a"])
    fix e
    have old: "\<not> (map_owner m = owner \<and> spans m a)" if "m \<in> set (mappings t)" "o' = owner" "start \<le> a" "a < start + n" for m
      using ap [OF that(1)] that by (auto simp: maps_apart_def spans_def map_stop_def)
    show "(if o' = owner \<and> start \<le> a \<and> a < start + n then Some (pstart + (a - start), perms, kind) else own_view t o' a) = Some e \<longleftrightarrow>
        (\<exists>m \<in> set (mappings t'). map_owner m = o' \<and> spans m a \<and> e = entry m a)"
    proof (cases "o' = owner \<and> start \<le> a \<and> a < start + n")
      case True
      then show ?thesis
        using old by (auto simp: t' entry_def spans_def map_stop_def)
    next
      case False
      then show ?thesis
        using own_view_Some_iff [OF assms(1), of o' a e] by (auto simp: t' spans_def map_stop_def)
    qed
  qed
  then show ?thesis
    using that [OF N ok'] by (auto simp: t' fun_eq_iff)
qed

section \<open>Unmapping\<close>

definition cut_range :: "address_space_id \<Rightarrow> nat \<Rightarrow> nat \<Rightarrow> page_mapping \<Rightarrow> page_mapping list" where
  "cut_range owner start stop m =
     (if \<not> matches (map_owner m) owner \<or> map_stop m \<le> start \<or> stop \<le> virtual_address m then [m]
      else remaining_parts start stop (map_stop m) m)"

definition hit :: "address_space_id \<Rightarrow> nat \<Rightarrow> nat \<Rightarrow> page_mapping \<Rightarrow> bool" where
  "hit owner start stop m \<longleftrightarrow> matches (map_owner m) owner \<and> start < map_stop m \<and> virtual_address m < stop"

lemma unmap_loop_cut:
  "list_all mapping_ok ms \<Longrightarrow>
   unmap_loop owner start stop ms nxt found = Inr (nxt @ concat (map (cut_range owner start stop) ms), found \<or> list_ex (hit owner start stop) ms)"
  by (induction ms arbitrary: nxt found) (auto simp: range_end_ok cut_range_def hit_def)

lemma cut_part:
  assumes "mapping_ok m" "start mod PAGE_SIZE = 0" "stop mod PAGE_SIZE = 0" "p \<in> set (cut_range owner start stop m)"
  shows "mapping_ok p" "map_owner p = map_owner m" "virtual_address m \<le> virtual_address p" "map_stop p \<le> map_stop m"
    "spans p a \<Longrightarrow> entry p a = entry m a"
  using assms
  by (auto simp: cut_range_def remaining_parts_def mapping_ok_def map_stop_def entry_def spans_def mod_diff_eq dvd_diff_nat
      simp flip: mod_0_imp_dvd dvd_eq_mod_eq_0 split: if_splits)

lemma cut_covers:
  assumes "mapping_ok m" "start < stop"
  shows "(\<exists>p \<in> set (cut_range owner start stop m). spans p a) \<longleftrightarrow>
    spans m a \<and> \<not> (matches (map_owner m) owner \<and> start \<le> a \<and> a < stop)"
  using assms by (auto simp: cut_range_def remaining_parts_def mapping_ok_def map_stop_def spans_def)

lemma cut_apart: "mapping_ok m \<Longrightarrow> start < stop \<Longrightarrow> sorted_wrt maps_apart (cut_range owner start stop m)"
  by (auto simp: cut_range_def remaining_parts_def maps_apart_def map_stop_def)

lemma maps_apart_shrink:
  "maps_apart m m' \<Longrightarrow> map_owner p = map_owner m \<Longrightarrow> map_owner p' = map_owner m' \<Longrightarrow> virtual_address m \<le> virtual_address p \<Longrightarrow>
   map_stop p \<le> map_stop m \<Longrightarrow> virtual_address m' \<le> virtual_address p' \<Longrightarrow> map_stop p' \<le> map_stop m' \<Longrightarrow> maps_apart p p'"
  by (auto simp: maps_apart_def)

lemma sorted_wrt_concat_cut:
  assumes "list_all mapping_ok ms" "sorted_wrt maps_apart ms" "start mod PAGE_SIZE = 0" "stop mod PAGE_SIZE = 0" "start < stop"
  shows "sorted_wrt maps_apart (concat (map (cut_range owner start stop) ms))"
  using assms
proof (induction ms)
  case (Cons m ms)
  have "maps_apart p p'" if "p \<in> set (cut_range owner start stop m)" "m' \<in> set ms" "p' \<in> set (cut_range owner start stop m')" for p p' m'
  proof (rule maps_apart_shrink [of m m'])
    show "maps_apart m m'"
      using Cons.prems that by simp
    have ok: "mapping_ok m" "mapping_ok m'"
      using Cons.prems that by (simp_all add: list_all_iff)
    note c = cut_part [OF ok(1) Cons.prems(3,4) that(1)] cut_part [OF ok(2) Cons.prems(3,4) that(3)]
    show "map_owner p = map_owner m" "map_owner p' = map_owner m'" "virtual_address m \<le> virtual_address p"
      "map_stop p \<le> map_stop m" "virtual_address m' \<le> virtual_address p'" "map_stop p' \<le> map_stop m'"
      by (fact c)+
  qed
  then show ?case
    using Cons cut_apart [of m start stop owner] by (auto simp: sorted_wrt_append)
qed simp

definition without :: "address_space_id \<Rightarrow> nat \<Rightarrow> nat \<Rightarrow> page_table \<Rightarrow> page_table" where
  "without owner start stop t = t\<lparr>mappings := concat (map (cut_range owner start stop) (mappings t))\<rparr>"

lemma without_initialized [simp]: "pt_initialized (without owner start stop t) = pt_initialized t"
  by (simp add: without_def)

lemma without_view:
  assumes "table_ok t" "start mod PAGE_SIZE = 0" "stop mod PAGE_SIZE = 0" "start < stop"
  shows "table_ok (without owner start stop t)"
    "own_view (without owner start stop t) =
      (\<lambda>o' a. if matches o' owner \<and> start \<le> a \<and> a < stop then None else own_view t o' a)"
proof -
  have ok: "mapping_ok m" if "m \<in> set (mappings t)" for m
    using assms(1) that by (simp add: table_ok_def list_all_iff)
  have all: "mapping_ok p" if "p \<in> set (mappings (without owner start stop t))" for p
    using that cut_part(1) [OF ok assms(2,3)] by (auto simp: without_def)
  show ok': "table_ok (without owner start stop t)"
    using all sorted_wrt_concat_cut [of "mappings t" start stop owner] assms by (simp add: table_ok_def list_all_iff) (simp add: without_def)
  let ?f = "\<lambda>o' a. if matches o' owner \<and> start \<le> a \<and> a < stop then None else own_view t o' a"
  have "own_view (without owner start stop t) o' a = ?f o' a" for o' a
  proof (rule own_view_eqI [OF ok', of ?f])
    fix e
    have "(\<exists>p \<in> set (mappings (without owner start stop t)). map_owner p = o' \<and> spans p a \<and> e = entry p a) \<longleftrightarrow>
        (\<exists>m \<in> set (mappings t). map_owner m = o' \<and> (\<exists>p \<in> set (cut_range owner start stop m). spans p a) \<and> e = entry m a)"
      using cut_part(2,5) [OF ok assms(2,3)] by (fastforce simp: without_def)
    also have "\<dots> \<longleftrightarrow> (\<exists>m \<in> set (mappings t). map_owner m = o' \<and> (spans m a \<and> \<not> (matches (map_owner m) owner \<and> start \<le> a \<and> a < stop)) \<and> e = entry m a)"
      using cut_covers [OF ok assms(4)] by (intro bex_cong) auto
    also have "\<dots> \<longleftrightarrow> ?f o' a = Some e"
      using own_view_Some_iff [OF assms(1), of o' a e] by auto
    finally show "?f o' a = Some e \<longleftrightarrow>
        (\<exists>p \<in> set (mappings (without owner start stop t)). map_owner p = o' \<and> spans p a \<and> e = entry p a)"
      by blast
  qed
  then show "own_view (without owner start stop t) = ?f"
    by (simp add: fun_eq_iff)
qed

lemma unmap_owned_eq:
  assumes "table_ok t"
  shows "unmap_owned reserved owner va len t =
    (if \<not> pt_initialized t then (Inl InvalidArgument, t)
     else case normalize_virtual_range va len of
       Inl e \<Rightarrow> (Inl e, t)
     | Inr (start, n) \<Rightarrow>
         if \<not> reserved then (Inl OutOfMemory, t)
         else if list_ex (hit owner start (start + n)) (mappings t) then (Inr (), without owner start (start + n) t)
         else (Inl NotFound, t))"
  using assms normalize_virtual_range_Inr(4)
  by (auto simp: unmap_owned_def table_ok_def unmap_loop_cut range_end_def checked_add_def without_def split: sum.split)

lemma unmap_owned_ok:
  assumes "table_ok t" "unmap_owned reserved owner va len t = (Inr (), t')"
  obtains start n where "normalize_virtual_range va len = Inr (start, n)" "table_ok t'" "pt_initialized t' = pt_initialized t"
    "own_view t' = (\<lambda>o' a. if matches o' owner \<and> start \<le> a \<and> a < start + n then None else own_view t o' a)"
proof -
  obtain start n where N: "normalize_virtual_range va len = Inr (start, n)" and t': "t' = without owner start (start + n) t"
    using assms(2) unfolding unmap_owned_eq [OF assms(1)] by (auto split: if_splits sum.splits)
  note R = normalize_virtual_range_Inr [OF N]
  have al: "start mod PAGE_SIZE = 0" "(start + n) mod PAGE_SIZE = 0"
    using R page_align_facts(1) [of va] by (simp_all add: mod_add_eq [symmetric])
  show ?thesis
    using that [OF N] without_view [OF assms(1) al, of owner] R(3) by (simp add: t')
qed

section \<open>Changing one mapping\<close>

lemma update_first_map:
  assumes "\<And>x y. x \<in> set ms \<Longrightarrow> y \<in> set ms \<Longrightarrow> p x \<Longrightarrow> p y \<Longrightarrow> x = y" "distinct ms"
  shows "update_first p f ms = map (\<lambda>m. if p m then f m else m) ms"
  using assms
proof (induction ms)
  case (Cons m ms)
  show ?case
  proof (cases "p m")
    case True
    then have "\<not> p x" if "x \<in> set ms" for x
      using Cons.prems that by auto
    then show ?thesis
      using True by (simp cong: map_cong)
  next
    case False
    then show ?thesis
      using Cons by simp
  qed
qed simp

lemma maps_apart_distinct: "list_all mapping_ok ms \<Longrightarrow> sorted_wrt maps_apart ms \<Longrightarrow> distinct ms"
  by (induction ms) (auto simp: maps_apart_def mapping_ok_def map_stop_def)

lemma starts_at_unique:
  assumes "table_ok t" "m \<in> set (mappings t)" "m' \<in> set (mappings t)" "starts_at owner va m" "starts_at owner va m'"
  shows "m = m'"
  using assms maps_apart_unique [of "mappings t" m m' "virtual_address m"]
  by (auto simp: table_ok_def list_all_iff starts_at_def spans_def mapping_ok_def map_stop_def)

definition keeps_place :: "(page_mapping \<Rightarrow> page_mapping) \<Rightarrow> bool" where
  "keeps_place f \<longleftrightarrow> (\<forall>m. map_owner (f m) = map_owner m \<and> virtual_address (f m) = virtual_address m \<and> map_length (f m) = map_length m \<and>
     (physical_address m mod PAGE_SIZE = 0 \<longrightarrow> physical_address (f m) mod PAGE_SIZE = 0))"

lemma keeps_placeD:
  "keeps_place f \<Longrightarrow> map_owner (f m) = map_owner m" "keeps_place f \<Longrightarrow> virtual_address (f m) = virtual_address m"
  "keeps_place f \<Longrightarrow> spans (f m) a = spans m a" "keeps_place f \<Longrightarrow> map_stop (f m) = map_stop m" "keeps_place f \<Longrightarrow> mapping_ok m \<Longrightarrow> mapping_ok (f m)"
  by (auto simp: keeps_place_def spans_def map_stop_def mapping_ok_def)

lemma keeps_place_updates [simp]:
  "keeps_place (accessed_update g)" "keeps_place (map_kind_update h)" "keeps_place (advice_update k)"
  "keeps_place (map_permissions_update q)" "keeps_place (physical_address_update (\<lambda>_. page_align_down pa))"
  by (simp_all add: keeps_place_def page_align_facts)

lemma replace_owned_map:
  assumes "table_ok t"
  shows "snd (replace_owned f owner va t) = t\<lparr>mappings := map (\<lambda>m. if starts_at owner va m then f m else m) (mappings t)\<rparr>"
proof -
  have "update_first (starts_at owner va) f (mappings t) = map (\<lambda>m. if starts_at owner va m then f m else m) (mappings t)"
    by (rule update_first_map) (use assms starts_at_unique maps_apart_distinct in \<open>auto simp: table_ok_def\<close>)
  moreover have "map (\<lambda>m. if starts_at owner va m then f m else m) (mappings t) = mappings t" if "\<not> list_ex (starts_at owner va) (mappings t)"
    using that by (intro map_idI) (auto simp: list_ex_iff)
  ultimately show ?thesis
    by (simp add: replace_owned_def)
qed

lemma replace_owned_ok:
  assumes "table_ok t" "keeps_place f"
  shows "table_ok (snd (replace_owned f owner va t))"
proof -
  have "maps_apart (if p then f m else m) (if q then f m' else m') = maps_apart m m'" for p q m m'
    using assms(2) by (simp add: maps_apart_def keeps_placeD)
  then have "sorted_wrt maps_apart (map (\<lambda>m. if starts_at owner va m then f m else m) (mappings t))"
    using assms(1) by (simp add: table_ok_def sorted_wrt_map)
  then show ?thesis
    using assms unfolding replace_owned_map [OF assms(1)] by (auto simp: table_ok_def list_all_iff keeps_placeD)
qed

lemma replace_owned_initialized [simp]: "pt_initialized (snd (replace_owned f owner va t)) = pt_initialized t"
  by (simp add: replace_owned_def)

lemma replace_owned_view:
  assumes "table_ok t" "keeps_place f"
  shows "own_view (snd (replace_owned f owner va t)) o' a =
    (case find (starts_at owner va) (mappings t) of
       None \<Rightarrow> own_view t o' a
     | Some m \<Rightarrow> if o' = owner \<and> spans m a then Some (entry (f m) a) else own_view t o' a)"
    (is "_ = ?f o' a")
proof (rule own_view_eqI [OF replace_owned_ok [OF assms], of ?f])
  fix e
  let ?g = "\<lambda>m. if starts_at owner va m then f m else m"
  have g: "map_owner (?g m) = map_owner m" "spans (?g m) a = spans m a" for m
    using assms(2) by (simp_all add: keeps_placeD)
  have "(\<exists>m \<in> set (mappings (snd (replace_owned f owner va t))). map_owner m = o' \<and> spans m a \<and> e = entry m a) \<longleftrightarrow>
      (\<exists>m \<in> set (mappings t). map_owner m = o' \<and> spans m a \<and> e = entry (?g m) a)"
    unfolding replace_owned_map [OF assms(1)] by (simp add: g del: if_image_distrib)
  also have "\<dots> \<longleftrightarrow> ?f o' a = Some e"
  proof (cases "find (starts_at owner va) (mappings t)")
    case None
    then have "\<not> starts_at owner va m" if "m \<in> set (mappings t)" for m
      using that by (auto simp: find_None_iff)
    then show ?thesis
      using None own_view_Some_iff [OF assms(1), of o' a e] by simp
  next
    case (Some m)
    then have m: "m \<in> set (mappings t)" "starts_at owner va m"
      by (auto simp: find_Some_iff)
    have other: "\<not> starts_at owner va m'" if "m' \<in> set (mappings t)" "m' \<noteq> m" for m'
      using starts_at_unique [OF assms(1)] m that by blast
    have one: "m' = m" if "m' \<in> set (mappings t)" "map_owner m' = owner" "spans m' a" "spans m a" for m'
      using maps_apart_unique [of "mappings t" m' m a] assms(1) m that by (simp add: table_ok_def starts_at_def)
    show ?thesis
    proof (cases "o' = owner \<and> spans m a")
      case True
      then have "(\<exists>m' \<in> set (mappings t). map_owner m' = o' \<and> spans m' a \<and> e = entry (?g m') a) \<longleftrightarrow> e = entry (f m) a"
        using m one by (metis starts_at_def)
      then show ?thesis
        using True Some by auto
    next
      case False
      have "(\<exists>m' \<in> set (mappings t). map_owner m' = o' \<and> spans m' a \<and> e = entry (?g m') a) \<longleftrightarrow>
          (\<exists>m' \<in> set (mappings t). map_owner m' = o' \<and> spans m' a \<and> e = entry m' a)"
        using False other m by (intro bex_cong) (auto simp: starts_at_def)
      then show ?thesis
        using False Some own_view_Some_iff [OF assms(1), of o' a e] by (cases "o' = owner"; simp)
    qed
  qed
  finally show "?f o' a = Some e \<longleftrightarrow>
      (\<exists>m \<in> set (mappings (snd (replace_owned f owner va t))). map_owner m = o' \<and> spans m a \<and> e = entry m a)"
    by blast
qed

lemma replace_owned_other: "table_ok t \<Longrightarrow> keeps_place f \<Longrightarrow> o' \<noteq> owner \<Longrightarrow> own_view (snd (replace_owned f owner va t)) o' = own_view t o'"
  by (auto simp: fun_eq_iff replace_owned_view split: option.split)

section \<open>The table as a partial function\<close>

type_synonym views = "address_space_id \<Rightarrow> nat \<Rightarrow> (nat \<times> page_permissions \<times> MappingKind) option"

definition occupied :: "views \<Rightarrow> address_space_id \<Rightarrow> nat \<Rightarrow> nat \<Rightarrow> bool" where
  "occupied v owner start n \<longleftrightarrow> (\<exists>a. start \<le> a \<and> a < start + n \<and> (v owner a \<noteq> None \<or> v KERNEL a \<noteq> None))"

definition spec_map :: "bool \<Rightarrow> address_space_id \<Rightarrow> nat \<Rightarrow> nat \<Rightarrow> nat \<Rightarrow> page_permissions \<Rightarrow> MappingKind \<Rightarrow> views \<Rightarrow> unit result \<times> views" where
  "spec_map reserved owner va pa len perms kind v =
     (case normalize_mapping va pa len of
        Inl e \<Rightarrow> (Inl e, v)
      | Inr (start, pstart, n) \<Rightarrow>
          if occupied v owner start n then (Inl AlreadyExists, v)
          else if \<not> reserved then (Inl OutOfMemory, v)
          else (Inr (), \<lambda>o' a. if o' = owner \<and> start \<le> a \<and> a < start + n then Some (pstart + (a - start), perms, kind) else v o' a))"

definition spec_unmap :: "bool \<Rightarrow> address_space_id \<Rightarrow> nat \<Rightarrow> nat \<Rightarrow> views \<Rightarrow> unit result \<times> views" where
  "spec_unmap reserved owner va len v =
     (case normalize_virtual_range va len of
        Inl e \<Rightarrow> (Inl e, v)
      | Inr (start, n) \<Rightarrow>
          if \<not> reserved then (Inl OutOfMemory, v)
          else if \<not> occupied v owner start n then (Inl NotFound, v)
          else (Inr (), \<lambda>o' a. if matches o' owner \<and> start \<le> a \<and> a < start + n then None else v o' a))"

definition spec_lookup :: "address_space_id \<Rightarrow> nat \<Rightarrow> views \<Rightarrow> (nat \<times> page_permissions \<times> MappingKind) option" where
  "spec_lookup owner a v = (case v owner a of Some e \<Rightarrow> Some e | None \<Rightarrow> v KERNEL a)"

lemma meets_iff_covers:
  assumes "mapping_ok m" "0 < n"
  shows "virtual_address m < start + n \<and> start < map_stop m \<longleftrightarrow> (\<exists>a. start \<le> a \<and> a < start + n \<and> spans m a)" (is "?l \<longleftrightarrow> ?r")
proof
  assume ?l
  then show ?r
    using assms by (intro exI [of _ "max start (virtual_address m)"]) (auto simp: spans_def mapping_ok_def map_stop_def)
qed (auto simp: spans_def)

lemma own_view_None_iff:
  "own_view t owner a \<noteq> None \<longleftrightarrow> (\<exists>m \<in> set (mappings t). map_owner m = owner \<and> spans m a)"
  by (auto simp: own_view_def find_None_iff)

lemma occupied_iff:
  assumes "table_ok t" "0 < n"
  shows "occupied (own_view t) owner start n \<longleftrightarrow>
    (\<exists>m \<in> set (mappings t). matches (map_owner m) owner \<and> virtual_address m < start + n \<and> start < map_stop m)"
proof -
  have "(\<exists>m \<in> set (mappings t). matches (map_owner m) owner \<and> virtual_address m < start + n \<and> start < map_stop m) \<longleftrightarrow>
      (\<exists>m \<in> set (mappings t). matches (map_owner m) owner \<and> (\<exists>a. start \<le> a \<and> a < start + n \<and> spans m a))"
    using assms meets_iff_covers [OF _ assms(2)] by (intro bex_cong) (auto simp: table_ok_def list_all_iff)
  also have "\<dots> \<longleftrightarrow> (\<exists>a. start \<le> a \<and> a < start + n \<and> (\<exists>m \<in> set (mappings t). matches (map_owner m) owner \<and> spans m a))"
    by blast
  also have "\<dots> \<longleftrightarrow> occupied (own_view t) owner start n"
  proof -
    have "(\<exists>m \<in> set (mappings t). matches (map_owner m) owner \<and> spans m a) \<longleftrightarrow> own_view t owner a \<noteq> None \<or> own_view t KERNEL a \<noteq> None" for a
      unfolding own_view_None_iff matches_def by blast
    then show ?thesis
      by (simp only: occupied_def)
  qed
  finally show ?thesis
    by blast
qed

lemma map_to_owned_refines:
  assumes "table_ok t" "pt_initialized t" "map_to_owned reserved owner va pa len perms kind t = (r, t')"
  shows "table_ok t' \<and> pt_initialized t' \<and> spec_map reserved owner va pa len perms kind (own_view t) = (r, own_view t')"
proof (cases "normalize_mapping va pa len")
  case (Inl e)
  then show ?thesis
    using assms by (simp add: map_to_owned_def spec_map_def)
next
  case (Inr R)
  obtain start pstart n where R: "R = (start, pstart, n)"
    by (cases R)
  note N = normalize_virtual_range_Inr [OF normalize_mapping_Inr(1) [OF Inr [unfolded R]]]
  have occ: "list_ex (\<lambda>m. matches (map_owner m) owner \<and> overlaps_range m start n) (mappings t) \<longleftrightarrow> occupied (own_view t) owner start n"
    unfolding occupied_iff [OF assms(1) N(3)] list_ex_iff
    using overlaps_ok [OF _ N(4)] assms(1) by (intro bex_cong) (auto simp: table_ok_def list_all_iff)
  show ?thesis
  proof (cases "r = Inr ()")
    case True
    obtain s p k where
      S: "normalize_mapping va pa len = Inr (s, p, k)" "table_ok t'" "pt_initialized t' = pt_initialized t"
      "own_view t' = (\<lambda>o' a. if o' = owner \<and> s \<le> a \<and> a < s + k then Some (p + (a - s), perms, kind) else own_view t o' a)"
      by (rule map_to_owned_ok [OF assms(1) assms(3) [unfolded True]])
    have "reserved" "\<not> occupied (own_view t) owner start n"
      using assms(2,3) True occ by (auto simp: map_to_owned_def Inr R split: if_splits)
    then show ?thesis
      using S Inr R True assms(2) by (simp add: spec_map_def)
  next
    case False
    then show ?thesis
      using assms occ by (auto simp: map_to_owned_def spec_map_def Inr R split: if_splits)
  qed
qed

lemma unmap_owned_refines:
  assumes "table_ok t" "pt_initialized t" "unmap_owned reserved owner va len t = (r, t')"
  shows "table_ok t' \<and> pt_initialized t' \<and> spec_unmap reserved owner va len (own_view t) = (r, own_view t')"
proof (cases "normalize_virtual_range va len")
  case (Inl e)
  then show ?thesis
    using assms by (simp add: unmap_owned_def spec_unmap_def)
next
  case (Inr R)
  obtain start n where R: "R = (start, n)"
    by (cases R)
  note N = normalize_virtual_range_Inr [OF Inr [unfolded R]]
  have occ: "list_ex (hit owner start (start + n)) (mappings t) \<longleftrightarrow> occupied (own_view t) owner start n"
    unfolding occupied_iff [OF assms(1) N(3)] list_ex_iff hit_def by blast
  have al: "start mod PAGE_SIZE = 0" "(start + n) mod PAGE_SIZE = 0"
    using N page_align_facts(1) [of va] by (simp_all add: mod_add_eq [symmetric])
  show ?thesis
    using assms without_view [OF assms(1) al, of owner] N(3) occ
    unfolding unmap_owned_eq [OF assms(1)] Inr R
    by (auto simp: spec_unmap_def Inr R split: if_splits)
qed

section \<open>Runs of page-table operations\<close>

datatype space_op =
    MapTo bool address_space_id nat nat nat page_permissions MappingKind
  | Unmap bool address_space_id nat nat
  | Lookup address_space_id nat

datatype space_answer = Done "unit result" | Found "(nat \<times> page_permissions \<times> MappingKind) option"

fun table_step :: "space_op \<Rightarrow> page_table \<Rightarrow> space_answer \<times> page_table" where
  "table_step (MapTo reserved owner va pa len perms kind) t = apfst Done (map_to_owned reserved owner va pa len perms kind t)"
| "table_step (Unmap reserved owner va len) t = apfst Done (unmap_owned reserved owner va len t)"
| "table_step (Lookup owner a) t = (Found (lookup_mapping_owned owner a t), t)"

fun table_spec_step :: "space_op \<Rightarrow> views \<Rightarrow> space_answer \<times> views" where
  "table_spec_step (MapTo reserved owner va pa len perms kind) v = apfst Done (spec_map reserved owner va pa len perms kind v)"
| "table_spec_step (Unmap reserved owner va len) v = apfst Done (spec_unmap reserved owner va len v)"
| "table_spec_step (Lookup owner a) v = (Found (spec_lookup owner a v), v)"

fun run_steps :: "('op \<Rightarrow> 's \<Rightarrow> 'r \<times> 's) \<Rightarrow> 'op list \<Rightarrow> 's \<Rightarrow> 'r list \<times> 's" where
  "run_steps step [] s = ([], s)"
| "run_steps step (op # ops) s = (case step op s of (r, s1) \<Rightarrow> apfst ((#) r) (run_steps step ops s1))"

lemma table_step_refines:
  assumes "table_ok t" "pt_initialized t" "table_step op t = (r, t')"
  shows "table_ok t' \<and> pt_initialized t' \<and> table_spec_step op (own_view t) = (r, own_view t')"
proof (cases op)
  case (MapTo reserved owner va pa len perms kind)
  then show ?thesis
    using assms map_to_owned_refines [OF assms(1,2)] by (cases "map_to_owned reserved owner va pa len perms kind t") auto
next
  case (Unmap reserved owner va len)
  then show ?thesis
    using assms unmap_owned_refines [OF assms(1,2)] by (cases "unmap_owned reserved owner va len t") auto
next
  case (Lookup owner a)
  then show ?thesis
    using assms lookup_view [OF assms(1)] by (auto simp: spec_lookup_def)
qed

lemma run_table_refines:
  "table_ok t \<Longrightarrow> pt_initialized t \<Longrightarrow> run_steps table_step ops t = (rs, t') \<Longrightarrow>
   table_ok t' \<and> pt_initialized t' \<and> run_steps table_spec_step ops (own_view t) = (rs, own_view t')"
proof (induction ops arbitrary: t rs t')
  case (Cons op ops)
  obtain r t1 where s: "table_step op t = (r, t1)"
    by (cases "table_step op t")
  obtain rs1 t2 where r: "run_steps table_step ops t1 = (rs1, t2)"
    by (cases "run_steps table_step ops t1")
  show ?case
    using table_step_refines [OF Cons.prems(1,2) s] Cons.IH [OF _ _ r] Cons.prems(3) s r by auto
qed simp

definition fresh_table :: page_table where
  "fresh_table = init_page_table new_page_table"

lemma fresh_table_ok [simp]: "table_ok fresh_table" "pt_initialized fresh_table" "own_view fresh_table = (\<lambda>_ _. None)"
  by (simp_all add: fresh_table_def init_page_table_def new_page_table_def table_ok_def own_view_def fun_eq_iff)

text \<open>C24: Started on an empty table, every sequence of mapping, unmapping and lookup requests of any address
  spaces gets exactly the answers of the abstract machine in which each address space is a partial function
  from addresses: mapping is refused where the address space or the kernel has a page and otherwise adds
  exactly the pages of the range, unmapping takes exactly the range out of the caller's and the kernel's
  function, and a lookup answers the caller's own entry before the kernel's.\<close>

theorem page_table_refines_views:
  "fst (run_steps table_step ops fresh_table) = fst (run_steps table_spec_step ops (\<lambda>_ _. None))"
proof -
  obtain rs t' where r: "run_steps table_step ops fresh_table = (rs, t')"
    by (cases "run_steps table_step ops fresh_table")
  show ?thesis
    using run_table_refines [OF _ _ r] by (simp add: r)
qed

end
