(* ===== verification/Page_Recovery.thy ===== *)
theory Page_Recovery
  imports Page_Store "HOL-Library.Multiset"
begin

text \<open>
  What the page store promises on its own: a page that was saved when it had no copy comes back byte for
  byte, whichever of the three places it went to and whatever happens to other pages in between, the slots of
  the swap area are never shared or lost, and the counters of the compressed cache are exact.  \<open>Page_Faults\<close> and
  \<open>Page_Reclaim\<close> have the handlers that use it.
\<close>

section \<open>Swap slots\<close>

lemma page_blocks: "BLOCKS_PER_PAGE = 8" "PAGE_SIZE = BLOCKS_PER_PAGE * BLOCK_SIZE"
  by (simp_all add: BLOCKS_PER_PAGE_def PAGE_SIZE_def BLOCK_SIZE_def)

definition area_ok :: "swap_area \<Rightarrow> storage \<Rightarrow> bool" where
  "area_ok a s \<longleftrightarrow> device_ok (swap_device a) s \<and>
     start_lba a + total_pages a * BLOCKS_PER_PAGE \<le> block_count (swap_device a) s"

definition slot_page :: "swap_area \<Rightarrow> nat \<Rightarrow> storage \<Rightarrow> u8 list" where
  "slot_page a slot s = (case read_page a slot PAGE_SIZE s of Inr bytes \<Rightarrow> bytes | Inl _ \<Rightarrow> [])"

lemma area_ok_free_slots [simp]: "area_ok (a\<lparr>free_slots := xs\<rparr>) s = area_ok a s"
  by (simp add: area_ok_def)

lemma page_ops_free_slots [simp]:
  "read_page (a\<lparr>free_slots := xs\<rparr>) = read_page a" "write_page (a\<lparr>free_slots := xs\<rparr>) = write_page a"
  "slot_page (a\<lparr>free_slots := xs\<rparr>) = slot_page a"
  by (simp_all add: read_page_def write_page_def slot_page_def slot_lba_def fun_eq_iff)

lemma slot_in_area: "slot < n \<Longrightarrow> first + n * b \<le> limit \<Longrightarrow> first + slot * b + b \<le> (limit :: nat)"
proof -
  assume "slot < n" "first + n * b \<le> limit"
  moreover from \<open>slot < n\<close> have "Suc slot * b \<le> n * b"
    by (intro mult_le_mono1) simp
  ultimately show ?thesis
    by simp
qed

lemma read_page_ok:
  assumes "area_ok a s" "slot < total_pages a"
  shows "read_page a slot PAGE_SIZE s = Inr (slot_page a slot s)" "length (slot_page a slot s) = PAGE_SIZE"
proof -
  have "\<exists>bytes. read_blocks (swap_device a) (slot_lba a slot) (BLOCKS_PER_PAGE * BLOCK_SIZE) s = Inr bytes \<and>
      length bytes = BLOCKS_PER_PAGE * BLOCK_SIZE"
    using assms by (intro bd.rd_in_range) (auto simp: area_ok_def slot_lba_def intro: slot_in_area)
  then obtain bytes where "read_page a slot PAGE_SIZE s = Inr bytes" "length bytes = PAGE_SIZE"
    by (auto simp: read_page_def page_blocks(2))
  then show "read_page a slot PAGE_SIZE s = Inr (slot_page a slot s)" "length (slot_page a slot s) = PAGE_SIZE"
    by (simp_all add: slot_page_def)
qed

lemma write_page_ok:
  assumes "area_ok a s" "write_page a slot data s = (r, s')" "length data = PAGE_SIZE"
  shows "area_ok a s'" "r = Inl e \<Longrightarrow> s' = s" "r = Inr () \<Longrightarrow> slot_page a slot s' = data"
    "slot' \<noteq> slot \<Longrightarrow> slot_page a slot' s' = slot_page a slot' s"
proof -
  have ok: "device_ok (swap_device a) s"
    using assms(1) by (simp add: area_ok_def)
  have w: "write_blocks (swap_device a) (start_lba a + slot * BLOCKS_PER_PAGE) data s = (r, s')"
    using assms(2,3) by (simp add: write_page_def slot_lba_def)
  have n: "length data = BLOCKS_PER_PAGE * BLOCK_SIZE"
    using assms(3) by (simp add: page_blocks(2))
  show "area_ok a s'"
    using bd.wr_valid [OF ok w] assms(1) by (simp add: area_ok_def)
  show "r = Inl e \<Longrightarrow> s' = s"
    using bd.wr_failed [OF ok] w by blast
  show "slot_page a slot s' = data" if "r = Inr ()"
    using bd.rd_written [OF ok _ n] w that by (simp add: slot_page_def read_page_def page_blocks(2) slot_lba_def)
  show "slot_page a slot' s' = slot_page a slot' s" if "slot' \<noteq> slot"
    using bd.rd_other_slot [OF ok w n] that by (simp add: slot_page_def read_page_def page_blocks(2) slot_lba_def)
qed

section \<open>The invariant\<close>

definition aligned :: "nat \<Rightarrow> bool" where
  "aligned va \<longleftrightarrow> va mod PAGE_SIZE = 0"

lemma align_down_aligned [simp]: "aligned va \<Longrightarrow> align_down_page va = va"
  by (simp add: aligned_def align_down_page_def)

definition slots_ok :: "page_store \<Rightarrow> bool" where
  "slots_ok s \<longleftrightarrow> bt_sorted (swap_map s) \<and>
     (case swap_area_of s of
        None \<Rightarrow> swap_map s = []
      | Some a \<Rightarrow> area_ok a (disk s) \<and> distinct (map snd (swap_map s) @ free_slots a) \<and>
          set (map snd (swap_map s) @ free_slots a) = {..<total_pages a})"

definition encoded_ok :: "u8 list \<Rightarrow> bool" where
  "encoded_ok e \<longleftrightarrow> length e < PAGE_SIZE \<and> fst (decompress_page e (replicate PAGE_SIZE 0))"

definition page_of :: "u8 list \<Rightarrow> u8 list" where
  "page_of e = snd (decompress_page e (replicate PAGE_SIZE 0))"

definition cache_entries_ok :: "(page_key, u8 list) btree \<Rightarrow> bool" where
  "cache_entries_ok m \<longleftrightarrow> bt_sorted m \<and> (\<forall>(k, e) \<in> set m. aligned (snd k) \<and> encoded_ok e)"

text \<open>The counters with \<open>extra\<close> bytes already counted for a page about to be inserted.\<close>

definition counted :: "u8 list list \<Rightarrow> page_store \<Rightarrow> bool" where
  "counted extra s \<longleftrightarrow>
     compressed_cache_bytes s = sum_list (map length (extra @ map snd (compressed_pages s))) \<and>
     compressed_pages_saved s = sum_list (map (\<lambda>e. PAGE_SIZE - length e) (extra @ map snd (compressed_pages s)))"

definition content_ok :: "(page_key \<times> u8 list) list \<Rightarrow> bool" where
  "content_ok c \<longleftrightarrow> (\<forall>e \<in> set c. length (snd e) = PAGE_SIZE)"

definition store_ok :: "page_store \<Rightarrow> bool" where
  "store_ok s \<longleftrightarrow> slots_ok s \<and> cache_entries_ok (compressed_pages s) \<and> content_ok (page_content s) \<and> counted [] s \<and>
     compressed_cache_bytes s \<le> MAX_COMPRESSED_CACHE_BYTES \<and>
     (\<forall>k. bt_get (swap_map s) k \<noteq> None \<longrightarrow> bt_get (compressed_pages s) k = None)"

text \<open>What a fault on a page would find.\<close>

definition in_cache :: "page_store \<Rightarrow> page_key \<Rightarrow> u8 list option" where
  "in_cache s k =
     (case bt_get (compressed_pages s) k of Some e \<Rightarrow> Some (page_of e) | None \<Rightarrow> map_of (page_content s) k)"

definition held :: "page_store \<Rightarrow> page_key \<Rightarrow> u8 list option" where
  "held s k =
     (case bt_get (swap_map s) k of
        Some slot \<Rightarrow> (case swap_area_of s of Some a \<Rightarrow> Some (slot_page a slot (disk s)) | None \<Rightarrow> None)
      | None \<Rightarrow> in_cache s k)"

lemma encoded_okD:
  "encoded_ok e \<Longrightarrow> length frame = PAGE_SIZE \<Longrightarrow> decompress_page e frame = (True, page_of e) \<and> length (page_of e) = PAGE_SIZE"
  unfolding encoded_ok_def page_of_def
  by (cases "decompress_page e (replicate PAGE_SIZE 0)") (auto dest: decompress_determined)

lemma slots_ok_cong:
  "swap_map s' = swap_map s \<Longrightarrow> swap_area_of s' = swap_area_of s \<Longrightarrow> disk s' = disk s \<Longrightarrow> slots_ok s' = slots_ok s"
  by (simp add: slots_ok_def split: option.split)

section \<open>The raw store\<close>

lemma map_of_put_content: "map_of (put_content key content c) k = (if k = key then Some content else map_of c k)"
  by (induction c rule: put_content.induct) auto

lemma content_ok_put: "content_ok c \<Longrightarrow> length content = PAGE_SIZE \<Longrightarrow> content_ok (put_content key content c)"
proof -
  have "set (put_content key content c) \<subseteq> insert (key, content) (set c)"
    by (induction c rule: put_content.induct) auto
  then show "content_ok c \<Longrightarrow> length content = PAGE_SIZE \<Longrightarrow> content_ok (put_content key content c)"
    by (auto simp: content_ok_def)
qed

lemma get_page_content_map_of: "aligned va \<Longrightarrow> get_page_content owner va s = map_of (page_content s) (owner, va)"
proof -
  have "map_option snd (find (\<lambda>e. fst e = k) c) = map_of c k" for k and c :: "(page_key \<times> u8 list) list"
    by (induction c) auto
  then show "aligned va \<Longrightarrow> ?thesis"
    by (simp add: get_page_content_def)
qed

section \<open>The compressed cache\<close>

lemma evict_first_ok:
  assumes "cache_entries_ok (compressed_pages s)" "content_ok (page_content s)" "counted extra s"
    and "compressed_pages s = (key, page) # rest"
  defines "s' \<equiv> evict_first key page s"
  shows "cache_entries_ok (compressed_pages s')" "content_ok (page_content s')" "counted extra s'" "in_cache s' = in_cache s"
    "swap_map s' = swap_map s" "swap_area_of s' = swap_area_of s" "disk s' = disk s"
    "bt_get (compressed_pages s) k = None \<Longrightarrow> bt_get (compressed_pages s') k = None"
proof -
  have key: "aligned (snd key)" and e: "encoded_ok page"
    using assms(1,4) by (auto simp: cache_entries_ok_def)
  note d = encoded_okD [OF e, of "replicate PAGE_SIZE 0"]
  have s': "s' = s\<lparr>compressed_pages := rest, compressed_cache_bytes := compressed_cache_bytes s - length page,
     compressed_pages_saved := compressed_pages_saved s - (PAGE_SIZE - length page),
     page_content := put_content key (page_of page) (page_content s), compressed_evictions := compressed_evictions s + 1\<rparr>"
    using d key by (simp add: s'_def evict_first_def uncount_page_def store_page_content_def assms(4) saturating_sub_def)
  show "cache_entries_ok (compressed_pages s')" "content_ok (page_content s')"
    using assms(1,2,4) d by (auto simp: s' cache_entries_ok_def content_ok_put)
  show "counted extra s'"
    using assms(3,4) by (simp add: counted_def s')
  show "in_cache s' = in_cache s"
  proof
    fix k
    have "key \<notin> fst ` set rest"
      using assms(1,4) by (auto simp: cache_entries_ok_def bt_sorted_def)
    then have "bt_get rest key = None"
      by (simp add: bt_get_None_iff)
    then show "in_cache s' k = in_cache s k"
      by (auto simp: in_cache_def s' assms(4) map_of_put_content bt_get_def split: option.split)
  qed
  show "swap_map s' = swap_map s" "swap_area_of s' = swap_area_of s" "disk s' = disk s"
    by (simp_all add: s')
  show "bt_get (compressed_pages s) k = None \<Longrightarrow> bt_get (compressed_pages s') k = None"
    by (auto simp: s' assms(4) bt_get_def split: if_splits)
qed

lemma evict_over_budget_ok:
  assumes "cache_entries_ok (compressed_pages s)" "content_ok (page_content s)" "counted extra s"
    and "sum_list (map length extra) \<le> MAX_COMPRESSED_CACHE_BYTES"
  defines "s' \<equiv> evict_over_budget s"
  shows "cache_entries_ok (compressed_pages s') \<and> content_ok (page_content s') \<and> counted extra s' \<and> in_cache s' = in_cache s \<and>
    swap_map s' = swap_map s \<and> swap_area_of s' = swap_area_of s \<and> disk s' = disk s \<and>
    compressed_cache_bytes s' \<le> MAX_COMPRESSED_CACHE_BYTES \<and>
    (\<forall>k. bt_get (compressed_pages s) k = None \<longrightarrow> bt_get (compressed_pages s') k = None)"
  using assms(1-3) unfolding s'_def
proof (induction s rule: evict_over_budget.induct)
  case (1 s)
  show ?case
  proof (cases "MAX_COMPRESSED_CACHE_BYTES < compressed_cache_bytes s")
    case False
    then show ?thesis
      using "1.prems" by (subst (1 2 3 4 5 6 7 8 9) evict_over_budget.simps) simp
  next
    case over: True
    have "compressed_pages s \<noteq> []"
      using over "1.prems"(3) assms(4) by (auto simp: counted_def)
    then obtain key page rest where c: "compressed_pages s = (key, page) # rest"
      by (cases "compressed_pages s") auto
    have e: "evict_over_budget s = evict_over_budget (evict_first key page s)"
      using over c by (subst evict_over_budget.simps) simp
    note F = evict_first_ok [OF "1.prems" c]
    show ?thesis
      unfolding e using "1.IH" [OF over c refl F(1-3)] F(4-8) by simp
  qed
qed


lemma sum_list_remove:
  "bt_sorted m \<Longrightarrow> bt_get m k = Some v \<Longrightarrow> sum_list (map f (map snd m)) = f v + sum_list (map f (map snd (bt_remove k m)))"
  for f :: "_ \<Rightarrow> nat"
proof (induction m)
  case (Cons e m)
  obtain a b where e: "e = (a, b)"
    by (cases e)
  have keep: "bt_remove a m = m"
    using Cons.prems(1) by (auto simp: e bt_remove_def filter_id_conv)
  show ?case
    using Cons keep by (cases "a = k") (auto simp: e bt_get_def bt_remove_def)
qed (simp add: bt_get_def)

lemma sum_list_insert:
  "bt_sorted m \<Longrightarrow> bt_get m k = None \<Longrightarrow> sum_list (map f (map snd (bt_insert k v m))) = f v + sum_list (map f (map snd m))"
  for f :: "_ \<Rightarrow> nat"
  by (induction k v m rule: bt_insert.induct) (auto simp: bt_get_def split: if_splits)

lemma cache_entries_remove: "cache_entries_ok m \<Longrightarrow> cache_entries_ok (bt_remove k m)"
  using bt_sorted_remove [of m k] by (auto simp: cache_entries_ok_def bt_remove_def)

lemma set_bt_insert_subset: "set (bt_insert k v m) \<subseteq> insert (k, v) (set m)"
  by (induction k v m rule: bt_insert.induct) auto

lemma cache_entries_insert:
  "cache_entries_ok m \<Longrightarrow> aligned (snd k) \<Longrightarrow> encoded_ok e \<Longrightarrow> cache_entries_ok (bt_insert k e m)"
  using set_bt_insert_subset [of k e m] by (auto simp: cache_entries_ok_def bt_sorted_insert)

text \<open>Taking a page out of the cache, by a fault or by unmapping.\<close>

lemma uncount_removed:
  assumes "cache_entries_ok (compressed_pages s)" "counted extra s" "bt_get (compressed_pages s) key = Some e"
  shows "counted extra (uncount_page e (s\<lparr>compressed_pages := bt_remove key (compressed_pages s)\<rparr>))"
proof -
  have "bt_sorted (compressed_pages s)"
    using assms(1) by (simp add: cache_entries_ok_def)
  from sum_list_remove [OF this assms(3), of length] sum_list_remove [OF this assms(3), of "\<lambda>e. PAGE_SIZE - length e"] assms(2)
  show ?thesis
    by (simp add: counted_def uncount_page_def saturating_sub_def)
qed

lemma remove_compressed_ok:
  fixes owner :: nat
  assumes "cache_entries_ok (compressed_pages s)" "content_ok (page_content s)" "counted extra s" "aligned va"
  defines "s' \<equiv> remove_compressed_page owner va s"
  shows "cache_entries_ok (compressed_pages s')" "content_ok (page_content s')" "counted extra s'"
    "compressed_cache_bytes s' \<le> compressed_cache_bytes s"
    "compressed_pages s' = bt_remove (owner, va) (compressed_pages s)"
    "swap_map s' = swap_map s" "swap_area_of s' = swap_area_of s" "disk s' = disk s" "page_content s' = page_content s"
proof -
  have keep: "bt_get m k = None \<Longrightarrow> bt_remove k m = m" for m :: "(page_key, u8 list) btree" and k
    by (auto simp: bt_get_None_iff bt_remove_def filter_id_conv)
  show "compressed_pages s' = bt_remove (owner, va) (compressed_pages s)"
    "swap_map s' = swap_map s" "swap_area_of s' = swap_area_of s" "disk s' = disk s" "page_content s' = page_content s"
    "compressed_cache_bytes s' \<le> compressed_cache_bytes s"
    using assms(4) keep by (auto simp: s'_def remove_compressed_page_def uncount_page_def saturating_sub_def Let_def split: option.split)
  then show "cache_entries_ok (compressed_pages s')" "content_ok (page_content s')"
    using assms(1,2) cache_entries_remove by simp_all
  show "counted extra s'"
    using uncount_removed [OF assms(1,3)] assms(3,4) by (auto simp: s'_def remove_compressed_page_def Let_def split: option.split)
qed

lemma add_compressed_ok:
  assumes "cache_entries_ok (compressed_pages s)" "content_ok (page_content s)" "counted [] s" "aligned va" "encoded_ok e"
    and "bt_get (compressed_pages s) (owner, va) = None"
  defines "s' \<equiv> add_compressed_page owner va e s"
  shows "cache_entries_ok (compressed_pages s')" "content_ok (page_content s')" "counted [] s'"
    "compressed_cache_bytes s' \<le> MAX_COMPRESSED_CACHE_BYTES"
    "in_cache s' = (in_cache s)((owner, va) \<mapsto> page_of e)"
    "swap_map s' = swap_map s" "swap_area_of s' = swap_area_of s" "disk s' = disk s"
    "bt_get (compressed_pages s) k = None \<Longrightarrow> k \<noteq> (owner, va) \<Longrightarrow> bt_get (compressed_pages s') k = None"
proof -
  define s2 where "s2 = s\<lparr>compressed_cache_bytes := compressed_cache_bytes s + length e,
     compressed_pages_saved := compressed_pages_saved s + (PAGE_SIZE - length e)\<rparr>"
  define s3 where "s3 = evict_over_budget s2"
  have s': "s' = s3\<lparr>compressed_pages := bt_insert (owner, va) e (compressed_pages s3)\<rparr>"
    using assms(4,6) by (simp add: s'_def add_compressed_page_def remove_compressed_page_def s3_def s2_def Let_def saturating_sub_def)
  have len: "length e \<le> MAX_COMPRESSED_CACHE_BYTES"
    using assms(5) by (simp add: encoded_ok_def PAGE_SIZE_def MAX_COMPRESSED_CACHE_BYTES_def)
  have "cache_entries_ok (compressed_pages s2)" "content_ok (page_content s2)" "counted [e] s2"
    using assms(1-3) by (simp_all add: s2_def counted_def)
  from evict_over_budget_ok [OF this] len
  have E: "cache_entries_ok (compressed_pages s3)" "content_ok (page_content s3)" "counted [e] s3" "in_cache s3 = in_cache s2"
    "swap_map s3 = swap_map s2" "swap_area_of s3 = swap_area_of s2" "disk s3 = disk s2"
    "compressed_cache_bytes s3 \<le> MAX_COMPRESSED_CACHE_BYTES"
    "\<And>k. bt_get (compressed_pages s2) k = None \<Longrightarrow> bt_get (compressed_pages s3) k = None"
    by (simp_all add: s3_def split_paired_all)
  have absent: "bt_get (compressed_pages s3) (owner, va) = None"
    using E(9) assms(6) by (simp add: s2_def)
  have sorted: "bt_sorted (compressed_pages s3)"
    using E(1) by (simp add: cache_entries_ok_def)
  show "cache_entries_ok (compressed_pages s')" "content_ok (page_content s')"
    "compressed_cache_bytes s' \<le> MAX_COMPRESSED_CACHE_BYTES"
    "swap_map s' = swap_map s" "swap_area_of s' = swap_area_of s" "disk s' = disk s"
    using E cache_entries_insert [OF E(1) _ assms(5), of "(owner, va)"] assms(4) by (simp_all add: s' s2_def)
  show "counted [] s'"
    using E(3) sum_list_insert [OF sorted absent, of length e] sum_list_insert [OF sorted absent, of "\<lambda>e. PAGE_SIZE - length e" e]
    by (simp add: counted_def s')
  have "in_cache s2 = in_cache s"
    by (simp add: fun_eq_iff in_cache_def s2_def split: option.split)
  moreover have "in_cache s' k = (if k = (owner, va) then Some (page_of e) else in_cache s3 k)" for k
    by (simp add: in_cache_def s' bt_get_insert [OF sorted] split: option.split)
  ultimately show "in_cache s' = (in_cache s)((owner, va) \<mapsto> page_of e)"
    using E(4) by (simp add: fun_eq_iff)
  show "bt_get (compressed_pages s) k = None \<Longrightarrow> k \<noteq> (owner, va) \<Longrightarrow> bt_get (compressed_pages s') k = None"
    using E(9) sorted by (simp add: s' bt_get_insert s2_def)
qed


section \<open>Saving\<close>

lemma swap_out_eq:
  assumes "swap_area_of s = Some a" "free_slots a \<noteq> []" "write_page a (last (free_slots a)) content (disk s) = (r, d)"
  shows "swap_out owner va content s =
    (case r of
       Inr _ \<Rightarrow> (True, s\<lparr>swap_area_of := Some (a\<lparr>free_slots := butlast (free_slots a)\<rparr>), disk := d,
                    swap_map := bt_insert (owner, va) (last (free_slots a)) (swap_map s)\<rparr>)
     | Inl _ \<Rightarrow> (False, s\<lparr>swap_area_of := Some a, disk := d\<rparr>))"
  using assms by (cases r) (simp_all add: swap_out_def allocate_slot_def free_slot_def)

lemma swap_out_False: "slots_ok s \<Longrightarrow> length content = PAGE_SIZE \<Longrightarrow> swap_out owner va content s = (False, s') \<Longrightarrow> s' = s"
proof -
  assume ok: "slots_ok s" and len: "length content = PAGE_SIZE" and o: "swap_out owner va content s = (False, s')"
  show "s' = s"
  proof (cases "swap_area_of s")
    case (Some a)
    show ?thesis
    proof (cases "free_slots a = []")
      case False
      obtain r d where w: "write_page a (last (free_slots a)) content (disk s) = (r, d)"
        by fastforce
      have "area_ok a (disk s)"
        using ok Some by (simp add: slots_ok_def)
      note W = write_page_ok [OF this w len]
      show ?thesis
        using o W(2) Some unfolding swap_out_eq [OF Some False w] by (cases r) auto
    qed (use o Some in \<open>simp add: swap_out_def allocate_slot_def\<close>)
  qed (use o in \<open>simp add: swap_out_def\<close>)
qed

lemma map_snd_insert_new:
  "bt_sorted m \<Longrightarrow> bt_get m k = None \<Longrightarrow> mset (map snd (bt_insert k v m)) = add_mset v (mset (map snd m))"
  by (induction k v m rule: bt_insert.induct) (auto simp: bt_get_def split: if_splits)

lemma map_snd_remove:
  "bt_sorted m \<Longrightarrow> bt_get m k = Some v \<Longrightarrow> mset (map snd m) = add_mset v (mset (map snd (bt_remove k m)))"
proof (induction m)
  case (Cons e m)
  obtain a b where e: "e = (a, b)"
    by (cases e)
  have keep: "bt_remove a m = m"
    using Cons.prems(1) by (auto simp: e bt_remove_def filter_id_conv)
  show ?case
    using Cons keep by (cases "a = k") (auto simp: e bt_get_def bt_remove_def)
qed (simp add: bt_get_def)

text \<open>The slots in use and the free ones are a partition of the area's slots.\<close>

lemma slots_ok_mset:
  assumes "swap_area_of s = Some a"
  shows "slots_ok s \<longleftrightarrow> bt_sorted (swap_map s) \<and> area_ok a (disk s) \<and>
    mset (map snd (swap_map s)) + mset (free_slots a) = mset [0..<total_pages a]"
proof -
  have "distinct xs \<and> set xs = {..<n} \<longleftrightarrow> mset xs = mset [0..<n]" for xs n
    by (metis atLeast0LessThan atLeast_upt distinct_upt set_eq_iff_mset_eq_distinct mset_eq_imp_distinct_iff set_mset_mset)
  from this [of "map snd (swap_map s) @ free_slots a" "total_pages a"] show ?thesis
    using assms by (simp add: slots_ok_def)
qed

lemma slot_in_use: "slots_ok s \<Longrightarrow> swap_area_of s = Some a \<Longrightarrow> bt_get (swap_map s) k = Some slot \<Longrightarrow> slot < total_pages a"
  by (force simp: slots_ok_def bt_get_Some_iff)

lemma slots_inj:
  assumes "slots_ok s" "bt_get (swap_map s) k = Some slot" "bt_get (swap_map s) k' = Some slot"
  shows "k = k'"
proof -
  have "distinct (map snd (swap_map s))"
    using assms(1) by (auto simp: slots_ok_def split: option.splits)
  then have "inj_on snd (set (swap_map s))"
    by (simp add: distinct_map)
  moreover have "(k, slot) \<in> set (swap_map s)" "(k', slot) \<in> set (swap_map s)"
    using assms by (auto simp: slots_ok_def bt_get_Some_iff)
  ultimately show ?thesis
    using inj_onD [of snd "set (swap_map s)" "(k, slot)" "(k', slot)"] by simp
qed

lemma swap_out_True:
  assumes "slots_ok s" "length content = PAGE_SIZE" "swap_out owner va content s = (True, s')" "bt_get (swap_map s) (owner, va) = None"
  shows "slots_ok s'" "held s' = (held s)((owner, va) \<mapsto> content)"
    "compressed_pages s' = compressed_pages s" "page_content s' = page_content s"
    "compressed_cache_bytes s' = compressed_cache_bytes s" "compressed_pages_saved s' = compressed_pages_saved s"
    "bt_get (swap_map s) k = None \<Longrightarrow> k \<noteq> (owner, va) \<Longrightarrow> bt_get (swap_map s') k = None"
proof -
  obtain a where a: "swap_area_of s = Some a" and ne: "free_slots a \<noteq> []"
    using assms(3) by (auto simp: swap_out_def allocate_slot_def split: option.splits if_splits)
  define slot where "slot = last (free_slots a)"
  let ?a = "a\<lparr>free_slots := butlast (free_slots a)\<rparr>"
  obtain r d where w: "write_page a slot content (disk s) = (r, d)"
    by fastforce
  have r: "r = Inr ()" and s': "s' = s\<lparr>swap_area_of := Some ?a, disk := d, swap_map := bt_insert (owner, va) slot (swap_map s)\<rparr>"
    using assms(3) unfolding swap_out_eq [OF a ne w [unfolded slot_def]] slot_def by (cases r; simp)+
  have ok: "area_ok a (disk s)" "bt_sorted (swap_map s)"
    and parts: "mset (map snd (swap_map s)) + mset (free_slots a) = mset [0..<total_pages a]"
    using assms(1) a slots_ok_mset [OF a] by simp_all
  note W = write_page_ok [OF ok(1) w assms(2)]
  have split: "mset (free_slots a) = add_mset slot (mset (butlast (free_slots a)))"
  proof -
    have "free_slots a = butlast (free_slots a) @ [slot]"
      using ne by (simp add: slot_def)
    then show ?thesis
      by (metis add_mset_add_single mset_append mset_single_iff_right)
  qed
  show "slots_ok s'"
    using W(1) ok(2) parts split map_snd_insert_new [OF ok(2) assms(4), of slot]
    by (subst slots_ok_mset [of _ ?a]) (simp_all add: s' bt_sorted_insert)
  have fresh: "bt_get (swap_map s) k \<noteq> Some slot" for k
  proof
    assume "bt_get (swap_map s) k = Some slot"
    then have "slot \<in> set (map snd (swap_map s))"
      using ok(2) by (force simp: bt_get_Some_iff)
    moreover have "distinct (map snd (swap_map s) @ free_slots a)"
      using assms(1) a by (simp add: slots_ok_def)
    moreover have "slot \<in> set (free_slots a)"
      using ne by (simp add: slot_def)
    ultimately show False
      unfolding distinct_append by blast
  qed
  show "held s' = (held s)((owner, va) \<mapsto> content)"
  proof
    fix k
    show "held s' k = ((held s)((owner, va) \<mapsto> content)) k"
    proof (cases "bt_get (swap_map s) k")
      case None
      then show ?thesis
        using W(3) r ok(2) by (simp add: held_def s' bt_get_insert in_cache_def split: option.split)
    next
      case (Some slot')
      then have "k \<noteq> (owner, va)" "slot' \<noteq> slot"
        using assms(4) fresh [of k] by auto
      then show ?thesis
        using W(4) ok(2) a Some by (simp add: held_def s' bt_get_insert)
    qed
  qed
  show "compressed_pages s' = compressed_pages s" "page_content s' = page_content s"
    "compressed_cache_bytes s' = compressed_cache_bytes s" "compressed_pages_saved s' = compressed_pages_saved s"
    "bt_get (swap_map s) k = None \<Longrightarrow> k \<noteq> (owner, va) \<Longrightarrow> bt_get (swap_map s') k = None"
    using ok(2) by (simp_all add: s' bt_get_insert)
qed


section \<open>The store refines a table of saved pages\<close>

text \<open>The pages saved since they were last brought back or dropped.\<close>

definition represents :: "page_store \<Rightarrow> (page_key \<Rightarrow> u8 list option) \<Rightarrow> bool" where
  "represents s saved \<longleftrightarrow> store_ok s \<and>
     (\<forall>k. case saved k of Some page \<Rightarrow> held s k = Some page
          | None \<Rightarrow> bt_get (swap_map s) k = None \<and> bt_get (compressed_pages s) k = None)"

lemma representsI:
  assumes "store_ok s" "\<And>k page. saved k = Some page \<Longrightarrow> held s k = Some page"
    "\<And>k. saved k = None \<Longrightarrow> bt_get (swap_map s) k = None \<and> bt_get (compressed_pages s) k = None"
  shows "represents s saved"
  using assms by (simp add: represents_def split: option.split)

lemma representsD:
  assumes "represents s saved"
  shows "store_ok s" "saved k = Some page \<Longrightarrow> held s k = Some page"
    "saved k = None \<Longrightarrow> bt_get (swap_map s) k = None" "saved k = None \<Longrightarrow> bt_get (compressed_pages s) k = None"
proof -
  have "store_ok s" and k: "case saved k of Some page \<Rightarrow> held s k = Some page
      | None \<Rightarrow> bt_get (swap_map s) k = None \<and> bt_get (compressed_pages s) k = None"
    using assms unfolding represents_def by blast+
  show "store_ok s"
    by fact
  show "saved k = Some page \<Longrightarrow> held s k = Some page"
    "saved k = None \<Longrightarrow> bt_get (swap_map s) k = None" "saved k = None \<Longrightarrow> bt_get (compressed_pages s) k = None"
    using k by simp_all
qed

lemma save_refines:
  assumes R: "represents s saved" and key: "saved (owner, va) = None" "aligned va" and len: "length content = PAGE_SIZE"
  shows "\<exists>s'. save_page owner va content s = Some s' \<and> represents s' (saved((owner, va) \<mapsto> content))"
proof -
  note D = representsD [OF R]
  have ok: "slots_ok s" "cache_entries_ok (compressed_pages s)" "content_ok (page_content s)" "counted [] s"
    "compressed_cache_bytes s \<le> MAX_COMPRESSED_CACHE_BYTES"
    "\<And>k. bt_get (swap_map s) k \<noteq> None \<Longrightarrow> bt_get (compressed_pages s) k = None"
    using D(1) by (auto simp: store_ok_def)
  obtain swapped s1 where o: "swap_out owner va content s = (swapped, s1)"
    by fastforce
  show ?thesis
  proof (cases swapped)
    case True
    then have o1: "swap_out owner va content s = (True, s1)"
      using o by simp
    note T = swap_out_True [OF ok(1) len o1 D(3) [OF key(1)]]
    have "represents s1 (saved((owner, va) \<mapsto> content))"
    proof (rule representsI)
      have "bt_get (compressed_pages s1) k = None" if "bt_get (swap_map s1) k \<noteq> None" for k
        using that ok(6) [of k] T(3) T(7) [of k] D(4) [OF key(1)] by metis
      then show "store_ok s1"
        using ok(2-5) T(1,3-6) by (simp add: store_ok_def counted_def)
      show "held s1 k = Some page" if "(saved((owner, va) \<mapsto> content)) k = Some page" for k page
        using that T(2) D(2) by (auto split: if_splits)
      show "bt_get (swap_map s1) k = None \<and> bt_get (compressed_pages s1) k = None" if "(saved((owner, va) \<mapsto> content)) k = None" for k
        using that T(3,7) D(3,4) by (auto split: if_splits)
    qed
    then show ?thesis
      using o1 by (simp add: save_page_def)
  next
    case False
    then have o1: "swap_out owner va content s = (False, s1)"
      using o by simp
    have s1: "s1 = s"
      by (rule swap_out_False [OF ok(1) len o1])
    obtain r where r: "compress_page content = Some r"
      "\<And>e. r = Some e \<Longrightarrow> length e < PAGE_SIZE \<and> decompress_page e (replicate PAGE_SIZE 0) = (True, content)"
      using page_round_trip [OF len length_replicate] by blast
    show ?thesis
    proof (cases r)
      case None
      let ?s = "store_page_content owner va content s"
      have "represents ?s (saved((owner, va) \<mapsto> content))"
      proof (rule representsI)
        show "store_ok ?s"
          using ok len slots_ok_cong [of ?s s] by (auto simp: store_ok_def store_page_content_def counted_def content_ok_put)
        show "held ?s k = Some page" if "(saved((owner, va) \<mapsto> content)) k = Some page" for k page
          using that D(2) [of k page] D(3,4) [of "(owner, va)"] key
          by (auto simp: held_def in_cache_def store_page_content_def map_of_put_content split: if_splits option.splits)
        show "bt_get (swap_map ?s) k = None \<and> bt_get (compressed_pages ?s) k = None" if "(saved((owner, va) \<mapsto> content)) k = None" for k
          using that D(3,4) by (auto simp: store_page_content_def split: if_splits)
      qed
      then show ?thesis
        using o1 s1 r(1) None by (simp add: save_page_def)
    next
      case (Some e)
      let ?s = "add_compressed_page owner va e s"
      have e: "encoded_ok e" "page_of e = content"
        using r(2) [OF Some] by (simp_all add: encoded_ok_def page_of_def)
      note A = add_compressed_ok [OF ok(2-4) key(2) e(1) D(4) [OF key(1)]]
      have "represents ?s (saved((owner, va) \<mapsto> content))"
      proof (rule representsI)
        have "bt_get (compressed_pages ?s) k = None" if "bt_get (swap_map ?s) k \<noteq> None" for k
          using that ok(6) [of k] A(6) A(9) [of k] D(3) [OF key(1)] by metis
        then show "store_ok ?s"
          using ok(1) A slots_ok_cong [of ?s s] by (simp add: store_ok_def)
        show "held ?s k = Some page" if "(saved((owner, va) \<mapsto> content)) k = Some page" for k page
          using that D(2) [of k page] D(3) [OF key(1)] A(5-8) e(2) by (auto simp: held_def split: if_splits option.splits)
        show "bt_get (swap_map ?s) k = None \<and> bt_get (compressed_pages ?s) k = None" if "(saved((owner, va) \<mapsto> content)) k = None" for k
          using that D(3,4) A(6,9) by (auto split: if_splits)
      qed
      then show ?thesis
        using o1 s1 r(1) Some by (simp add: save_page_def)
    qed
  qed
qed


text \<open>A slot goes back to the free ones: on a fault after the read, or when the page is dropped.\<close>

lemma release_slot_ok:
  assumes "slots_ok s" "swap_area_of s = Some a" "bt_get (swap_map s) key = Some slot"
  defines "s' \<equiv> s\<lparr>swap_map := bt_remove key (swap_map s), swap_area_of := Some (free_slot slot a)\<rparr>"
  shows "slots_ok s'" "k \<noteq> key \<Longrightarrow> held s' k = held s k" "bt_get (swap_map s') key = None"
    "k \<noteq> key \<Longrightarrow> bt_get (swap_map s') k = bt_get (swap_map s) k"
proof -
  have sorted: "bt_sorted (swap_map s)" and parts: "mset (map snd (swap_map s)) + mset (free_slots a) = mset [0..<total_pages a]"
    and ok: "area_ok a (disk s)"
    using assms(1) slots_ok_mset [OF assms(2)] by simp_all
  show "slots_ok s'"
    using parts ok sorted map_snd_remove [OF sorted assms(3)]
    by (subst slots_ok_mset [of _ "free_slot slot a"]) (simp_all add: s'_def free_slot_def bt_sorted_remove)
  show "held s' k = held s k" if "k \<noteq> key"
    using that assms(2) sorted
    by (simp add: held_def in_cache_def s'_def free_slot_def bt_get_remove split: option.split)
  show "bt_get (swap_map s') key = None" "k \<noteq> key \<Longrightarrow> bt_get (swap_map s') k = bt_get (swap_map s) k"
    using sorted by (simp_all add: s'_def bt_get_remove)
qed

lemma drop_cached_ok:
  assumes "cache_entries_ok (compressed_pages s)" "counted [] s" "bt_get (compressed_pages s) key = Some e"
  defines "s' \<equiv> uncount_page e (s\<lparr>compressed_pages := bt_remove key (compressed_pages s)\<rparr>)"
  shows "cache_entries_ok (compressed_pages s')" "counted [] s'" "compressed_cache_bytes s' \<le> compressed_cache_bytes s"
    "k \<noteq> key \<Longrightarrow> held s' k = held s k" "bt_get (compressed_pages s') key = None"
    "k \<noteq> key \<Longrightarrow> bt_get (compressed_pages s') k = bt_get (compressed_pages s) k"
    "swap_map s' = swap_map s" "swap_area_of s' = swap_area_of s" "disk s' = disk s" "page_content s' = page_content s"
proof -
  have sorted: "bt_sorted (compressed_pages s)"
    using assms(1) by (simp add: cache_entries_ok_def)
  show "counted [] s'"
    unfolding s'_def by (rule uncount_removed [OF assms(1-3)])
  show "held s' k = held s k" if "k \<noteq> key"
    using that sorted by (simp add: held_def in_cache_def s'_def uncount_page_def bt_get_remove split: option.split)
  show "cache_entries_ok (compressed_pages s')" "compressed_cache_bytes s' \<le> compressed_cache_bytes s"
    "bt_get (compressed_pages s') key = None" "k \<noteq> key \<Longrightarrow> bt_get (compressed_pages s') k = bt_get (compressed_pages s) k"
    "swap_map s' = swap_map s" "swap_area_of s' = swap_area_of s" "disk s' = disk s" "page_content s' = page_content s"
    using sorted cache_entries_remove [OF assms(1)]
    by (simp_all add: s'_def uncount_page_def bt_get_remove saturating_sub_def)
qed

lemma load_refines:
  assumes R: "represents s saved" and va: "aligned va" and frame: "length frame = PAGE_SIZE"
  shows "\<exists>page s'. load_page owner va frame s = (Some page, s') \<and> represents s' (saved((owner, va) := None)) \<and>
    length page = PAGE_SIZE \<and> (\<forall>p. saved (owner, va) = Some p \<longrightarrow> page = p)"
proof -
  let ?key = "(owner, va)" and ?saved = "saved((owner, va) := None)"
  note D = representsD [OF R]
  have ok: "slots_ok s" "cache_entries_ok (compressed_pages s)" "content_ok (page_content s)" "counted [] s"
    "compressed_cache_bytes s \<le> MAX_COMPRESSED_CACHE_BYTES"
    "\<And>k. bt_get (swap_map s) k \<noteq> None \<Longrightarrow> bt_get (compressed_pages s) k = None"
    using D(1) by (auto simp: store_ok_def)
  consider (swap) slot a where "bt_get (swap_map s) ?key = Some slot" "swap_area_of s = Some a"
    | (cached) e where "bt_get (swap_map s) ?key = None" "bt_get (compressed_pages s) ?key = Some e"
    | (raw) "bt_get (swap_map s) ?key = None" "bt_get (compressed_pages s) ?key = None"
    using ok(1) by (cases "bt_get (swap_map s) ?key"; cases "bt_get (compressed_pages s) ?key"; cases "swap_area_of s")
      (auto simp: slots_ok_def bt_get_def)
  then show ?thesis
  proof cases
    case swap
    note G = release_slot_ok [OF ok(1) swap(2,1)]
    let ?s = "s\<lparr>swap_map := bt_remove ?key (swap_map s), swap_area_of := Some (free_slot slot a)\<rparr>"
    have "area_ok a (disk s)"
      using ok(1) swap(2) by (simp add: slots_ok_def)
    note P = read_page_ok [OF this slot_in_use [OF ok(1) swap(2,1)]]
    have "load_page owner va frame s = (Some (slot_page a slot (disk s)), ?s)"
      using swap P(1) by (simp add: load_page_def)
    moreover have "represents ?s ?saved"
    proof (rule representsI)
      have "bt_get (compressed_pages ?s) k = None" if "bt_get (swap_map ?s) k \<noteq> None" for k
        using that G(3) G(4) [of k] ok(6) [of k] by (cases "k = ?key") auto
      then show "store_ok ?s"
        using G(1) ok(2-5) by (simp add: store_ok_def counted_def)
      show "held ?s k = Some page" if "?saved k = Some page" for k page
        using that D(2) [of k page] G(2) [of k] by (auto split: if_splits)
      show "bt_get (swap_map ?s) k = None \<and> bt_get (compressed_pages ?s) k = None" if "?saved k = None" for k
        using that D(3,4) [of k] G(3) G(4) [of k] ok(6) [of ?key] swap(1) by (cases "k = ?key") auto
    qed
    moreover have "page = slot_page a slot (disk s)" if "saved ?key = Some page" for page
      using D(2) [OF that] swap by (simp add: held_def)
    ultimately show ?thesis
      using P(2) by auto
  next
    case cached
    note G = drop_cached_ok [OF ok(2,4) cached(2)]
    let ?s = "uncount_page e (s\<lparr>compressed_pages := bt_remove ?key (compressed_pages s)\<rparr>)"
    have "encoded_ok e"
      using ok(2) cached(2) by (auto simp: cache_entries_ok_def bt_get_Some_iff)
    note E = encoded_okD [OF this frame]
    have "load_page owner va frame s = (Some (page_of e), ?s)"
      using cached E by (simp add: load_page_def)
    moreover have "represents ?s ?saved"
    proof (rule representsI)
      have "bt_get (compressed_pages ?s) k = None" if "bt_get (swap_map ?s) k \<noteq> None" for k
        using that G(5,7) G(6) [of k] ok(6) [of k] by (cases "k = ?key") auto
      then show "store_ok ?s"
        using G(1,2,3,10) slots_ok_cong [OF G(7-9)] ok(1,3,5) by (simp add: store_ok_def)
      show "held ?s k = Some page" if "?saved k = Some page" for k page
        using that D(2) [of k page] G(4) [of k] by (auto split: if_splits)
      show "bt_get (swap_map ?s) k = None \<and> bt_get (compressed_pages ?s) k = None" if "?saved k = None" for k
        using that D(3,4) [of k] G(5,7) G(6) [of k] cached(1) by (cases "k = ?key") auto
    qed
    moreover have "page = page_of e" if "saved ?key = Some page" for page
      using D(2) [OF that] cached by (simp add: held_def in_cache_def)
    ultimately show ?thesis
      using E by auto
  next
    case raw
    have "represents s ?saved"
      by (rule representsI) (use D raw in \<open>auto split: if_splits\<close>)
    moreover have "length c = PAGE_SIZE" if "map_of (page_content s) ?key = Some c" for c
      using ok(3) map_of_SomeD [OF that] by (auto simp: content_ok_def)
    moreover have "held s ?key = map_of (page_content s) ?key"
      using raw by (simp add: held_def in_cache_def)
    ultimately show ?thesis
      using raw va frame D(2) [of ?key] by (cases "map_of (page_content s) ?key") (auto simp: load_page_def get_page_content_map_of)
  qed
qed


lemma forget_refines:
  assumes R: "represents s saved" and va: "aligned va"
  shows "represents (forget_page owner va s) (saved((owner, va) := None))"
proof -
  let ?key = "(owner, va)" and ?saved = "saved((owner, va) := None)"
  note D = representsD [OF R]
  have ok: "slots_ok s" "cache_entries_ok (compressed_pages s)" "content_ok (page_content s)" "counted [] s"
    "compressed_cache_bytes s \<le> MAX_COMPRESSED_CACHE_BYTES"
    "\<And>k. bt_get (swap_map s) k \<noteq> None \<Longrightarrow> bt_get (compressed_pages s) k = None"
    using D(1) by (auto simp: store_ok_def)
  define s1 where "s1 = (case bt_get (swap_map s) ?key of
      Some slot_idx \<Rightarrow> s\<lparr>swap_map := bt_remove ?key (swap_map s), swap_area_of := map_option (free_slot slot_idx) (swap_area_of s)\<rparr>
    | None \<Rightarrow> s)"
  have s1: "slots_ok s1" "\<And>k. k \<noteq> ?key \<Longrightarrow> held s1 k = held s k" "bt_get (swap_map s1) ?key = None"
    "\<And>k. k \<noteq> ?key \<Longrightarrow> bt_get (swap_map s1) k = bt_get (swap_map s) k"
    "compressed_pages s1 = compressed_pages s" "page_content s1 = page_content s" "counted [] s1"
    "compressed_cache_bytes s1 = compressed_cache_bytes s"
  proof -
    show "compressed_pages s1 = compressed_pages s" "page_content s1 = page_content s" "counted [] s1"
      "compressed_cache_bytes s1 = compressed_cache_bytes s"
      using ok(4) by (simp_all add: s1_def counted_def split: option.split)
    have "slots_ok s1 \<and> (\<forall>k. k \<noteq> ?key \<longrightarrow> held s1 k = held s k) \<and> bt_get (swap_map s1) ?key = None \<and>
        (\<forall>k. k \<noteq> ?key \<longrightarrow> bt_get (swap_map s1) k = bt_get (swap_map s) k)"
    proof (cases "bt_get (swap_map s) ?key")
      case (Some slot)
      then obtain a where a: "swap_area_of s = Some a"
        using ok(1) by (cases "swap_area_of s") (auto simp: slots_ok_def bt_get_def)
      show ?thesis
        using release_slot_ok [OF ok(1) a Some] a Some by (simp add: s1_def)
    qed (use ok(1) in \<open>simp add: s1_def\<close>)
    then show "slots_ok s1" "\<And>k. k \<noteq> ?key \<Longrightarrow> held s1 k = held s k" "bt_get (swap_map s1) ?key = None"
      "\<And>k. k \<noteq> ?key \<Longrightarrow> bt_get (swap_map s1) k = bt_get (swap_map s) k"
      by blast+
  qed
  define s2 where "s2 = remove_compressed_page owner va s1"
  have "cache_entries_ok (compressed_pages s1)" "content_ok (page_content s1)"
    using s1 ok by simp_all
  note G = remove_compressed_ok [OF this s1(7) va, of owner, folded s2_def]
  have sorted: "bt_sorted (compressed_pages s)"
    using ok(2) by (simp add: cache_entries_ok_def)
  have cached: "bt_get (compressed_pages s2) k = (if k = ?key then None else bt_get (compressed_pages s) k)" for k
    using G(5) s1(5) sorted by (simp add: bt_get_remove)
  have h: "held s2 k = held s k" if "k \<noteq> ?key" for k
  proof -
    have "held s2 k = held s1 k"
      using that cached [of k] G(6-9) s1(5) by (simp add: held_def in_cache_def split: option.split)
    then show ?thesis
      using s1(2) [OF that] by simp
  qed
  have "represents s2 ?saved"
  proof (rule representsI)
    have "bt_get (compressed_pages s2) k = None" if "bt_get (swap_map s2) k \<noteq> None" for k
      using that cached [of k] G(6) s1(3) s1(4) [of k] ok(6) [of k] by (cases "k = ?key") auto
    then show "store_ok s2"
      using G(1-4) slots_ok_cong [OF G(6-8)] s1(1,8) ok(5) by (simp add: store_ok_def)
    show "held s2 k = Some page" if "?saved k = Some page" for k page
      using that D(2) [of k page] h [of k] by (auto split: if_splits)
    show "bt_get (swap_map s2) k = None \<and> bt_get (compressed_pages s2) k = None" if "?saved k = None" for k
      using that D(3,4) [of k] G(6) cached [of k] s1(3) s1(4) [of k] by (cases "k = ?key") auto
  qed
  then show ?thesis
    unfolding forget_page_def s2_def s1_def .
qed

section \<open>Runs\<close>

datatype store_event =
    Save nat nat "u8 list"
  | Load nat nat "u8 list"
  | Forget nat nat

text \<open>The pages a run of the store answers its faults with; \<open>None\<close> for a panic.\<close>

fun run_store :: "store_event list \<Rightarrow> page_store \<Rightarrow> (u8 list option list \<times> page_store) option" where
  "run_store [] s = Some ([], s)"
| "run_store (Save owner va content # es) s =
     (case save_page owner va content s of None \<Rightarrow> None | Some s1 \<Rightarrow> run_store es s1)"
| "run_store (Load owner va frame # es) s =
     (case load_page owner va frame s of (answer, s1) \<Rightarrow> map_option (\<lambda>(outs, s2). (answer # outs, s2)) (run_store es s1))"
| "run_store (Forget owner va # es) s = run_store es (forget_page owner va s)"

text \<open>The same run on the table of saved pages; a fault on a page that is not saved has no promised answer.\<close>

fun spec_answers :: "store_event list \<Rightarrow> (page_key \<Rightarrow> u8 list option) \<Rightarrow> u8 list option list" where
  "spec_answers [] saved = []"
| "spec_answers (Save owner va content # es) saved = spec_answers es (saved((owner, va) \<mapsto> content))"
| "spec_answers (Load owner va frame # es) saved = saved (owner, va) # spec_answers es (saved((owner, va) := None))"
| "spec_answers (Forget owner va # es) saved = spec_answers es (saved((owner, va) := None))"

text \<open>Pages and frames have the size of a page and page addresses are aligned; only a page that is in memory,
  and so is not saved, is reclaimed.\<close>

fun run_allowed :: "store_event list \<Rightarrow> (page_key \<Rightarrow> u8 list option) \<Rightarrow> bool" where
  "run_allowed [] saved \<longleftrightarrow> True"
| "run_allowed (Save owner va content # es) saved \<longleftrightarrow>
     aligned va \<and> length content = PAGE_SIZE \<and> saved (owner, va) = None \<and> run_allowed es (saved((owner, va) \<mapsto> content))"
| "run_allowed (Load owner va frame # es) saved \<longleftrightarrow>
     aligned va \<and> length frame = PAGE_SIZE \<and> run_allowed es (saved((owner, va) := None))"
| "run_allowed (Forget owner va # es) saved \<longleftrightarrow> aligned va \<and> run_allowed es (saved((owner, va) := None))"

definition answers_agree :: "u8 list option \<Rightarrow> u8 list option \<Rightarrow> bool" where
  "answers_agree answer promised \<longleftrightarrow> answer \<noteq> None \<and> (promised \<noteq> None \<longrightarrow> answer = promised)"

lemma run_refines:
  "represents s saved \<Longrightarrow> run_allowed es saved \<Longrightarrow>
     \<exists>outs s' saved'. run_store es s = Some (outs, s') \<and> list_all2 answers_agree outs (spec_answers es saved) \<and> represents s' saved'"
proof (induction es arbitrary: s saved)
  case (Cons ev es)
  show ?case
  proof (cases ev)
    case (Save owner va content)
    then obtain s1 where s1: "save_page owner va content s = Some s1" "represents s1 (saved((owner, va) \<mapsto> content))"
      using save_refines [OF Cons.prems(1), of owner va content] Cons.prems(2) by auto
    show ?thesis
      using Cons.IH [OF s1(2)] Cons.prems(2) Save s1(1) by (simp del: fun_upd_apply)
  next
    case (Load owner va frame)
    then obtain page s1 where s1: "load_page owner va frame s = (Some page, s1)" "represents s1 (saved((owner, va) := None))"
      "saved (owner, va) = None \<or> saved (owner, va) = Some page"
      using load_refines [OF Cons.prems(1), of va frame owner] Cons.prems(2) by (cases "saved (owner, va)") auto
    obtain outs s' saved' where "run_store es s1 = Some (outs, s')"
      "list_all2 answers_agree outs (spec_answers es (saved((owner, va) := None)))" "represents s' saved'"
      using Cons.IH [OF s1(2)] Cons.prems(2) Load by (auto simp del: fun_upd_apply)
    moreover have "answers_agree (Some page) (saved (owner, va))"
      using s1(3) by (auto simp: answers_agree_def)
    ultimately show ?thesis
      using s1(1) Load by (auto simp del: fun_upd_apply)
  next
    case (Forget owner va)
    then show ?thesis
      using Cons.IH [OF forget_refines [OF Cons.prems(1), of va owner]] Cons.prems(2) by (simp del: fun_upd_apply)
  qed
qed auto


lemma swap_area_new_ok:
  assumes "device_ok dev d" "swap_area_new reserved dev first n d = Inr a"
  shows "area_ok a d" "swap_device a = dev" "start_lba a = first" "total_pages a = n" "free_slots a = rev [0..<n]" "0 < n"
  using assms by (auto simp: swap_area_new_def area_ok_def split: if_splits option.splits)

lemma init_represents:
  assumes "device_ok dev d" "init_swap reserved dev first n (new_store d) = (r, s)"
  shows "represents s Map.empty"
proof (rule representsI)
  have "swap_map s = [] \<and> compressed_pages s = [] \<and> page_content s = [] \<and> compressed_cache_bytes s = 0 \<and> compressed_pages_saved s = 0 \<and>
      slots_ok s"
  proof (cases "swap_area_new reserved dev first n d")
    case (Inl e)
    then show ?thesis
      using assms(2) by (auto simp: init_swap_def new_store_def slots_ok_def)
  next
    case (Inr a)
    then have "s = (new_store d)\<lparr>swap_area_of := Some a\<rparr>"
      using assms(2) by (simp add: init_swap_def new_store_def)
    then show ?thesis
      using swap_area_new_ok [OF assms(1) Inr] by (auto simp: new_store_def slots_ok_def)
  qed
  then show "store_ok s" "\<And>k. Map.empty k = None \<Longrightarrow> bt_get (swap_map s) k = None \<and> bt_get (compressed_pages s) k = None"
    by (simp_all add: store_ok_def cache_entries_ok_def content_ok_def counted_def bt_get_def)
qed simp

section \<open>A page that does not compress\<close>

lemma encodings_fewer: "card {e :: u8 list. length e < n} < card {p :: u8 list. length p = n}"
proof -
  have c: "card (UNIV :: u8 set) = 256"
    by (simp add: card_word)
  have "card {e :: u8 list. length e < n} = (\<Sum>i<n. 256 ^ i)"
  proof (cases n)
    case (Suc m)
    then have "{e :: u8 list. length e < n} = {e. set e \<subseteq> UNIV \<and> length e \<le> m}"
      by auto
    then show ?thesis
      using card_lists_length_le [of "UNIV :: u8 set" m] c Suc by (simp add: lessThan_Suc_atMost)
  qed simp
  moreover have "(\<Sum>i<n. 256 ^ i) < (256 :: nat) ^ n"
    by (induction n) simp_all
  moreover have "card {p :: u8 list. length p = n} = 256 ^ n"
    using card_lists_length_eq [of "UNIV :: u8 set" n] c by simp
  ultimately show ?thesis
    by simp
qed

lemma incompressible_page: "\<exists>page. length page = PAGE_SIZE \<and> compress_page page = Some None"
proof (rule ccontr)
  assume none: "\<not> ?thesis"
  let ?pages = "{p :: u8 list. length p = PAGE_SIZE}" and ?codes = "{e :: u8 list. length e < PAGE_SIZE}"
  define f where "f p = (case compress_page p of Some (Some e) \<Rightarrow> e | _ \<Rightarrow> [])" for p
  have f: "f p \<in> ?codes \<and> decompress_page (f p) (replicate PAGE_SIZE 0) = (True, p)" if "p \<in> ?pages" for p
  proof -
    have "length p = PAGE_SIZE"
      using that by simp
    from page_round_trip [OF this length_replicate] none this show ?thesis
      by (auto simp: f_def split: option.split)
  qed
  have "inj_on f ?pages"
    by (rule inj_onI) (metis f prod.inject)
  moreover have "f ` ?pages \<subseteq> ?codes"
    using f by blast
  moreover have "finite ?codes"
  proof -
    have "finite {e :: u8 list. set e \<subseteq> UNIV \<and> length e \<le> PAGE_SIZE}"
      by (rule finite_lists_length_le) simp
    then show ?thesis
      by (rule rev_finite_subset) auto
  qed
  ultimately have "card ?pages \<le> card ?codes"
    by (rule card_inj_on_le)
  then show False
    using encodings_fewer [of PAGE_SIZE] by simp
qed


section \<open>Properties\<close>

text \<open>The store on its own, without the handler that maps neighbours ahead: with or without a swap area, after any run in
  which pages that have no saved copy are saved, loaded and dropped, every load of a saved page is answered
  with exactly the bytes that were saved, whether they went to the swap device, to the compressed cache, out of
  that cache into the raw store when it outgrew its budget, or to the raw store at once; no load fails, and
  no step panics.  The memory manager can save a page that still has a copy, since a page that is mapped ahead
  keeps its entry; such runs are not covered.\<close>

lemma saved_pages_come_back:
  assumes "device_ok dev d" "init_swap reserved dev first n (new_store d) = (r, s)" "run_allowed es Map.empty"
  shows "\<exists>outs s'. run_store es s = Some (outs, s') \<and> list_all2 answers_agree outs (spec_answers es Map.empty)"
  using run_refines [OF init_represents [OF assms(1,2)] assms(3)] by blast

definition example_events :: "store_event list" where
  "example_events = [Save 1 0 (replicate PAGE_SIZE 5), Save 2 0 (replicate PAGE_SIZE 6), Forget 2 0, Load 1 0 (replicate PAGE_SIZE 9)]"

lemma saved_pages_come_back_witness:
  "\<exists>s'. run_store example_events (new_store []) = Some ([Some (replicate PAGE_SIZE 5)], s')"
proof -
  have dev: "device_ok (MemoryBlockDevice ''none'' False) []"
    by (simp add: VEC_LIMIT_def)
  have i: "init_swap True (MemoryBlockDevice ''none'' False) 0 0 (new_store []) = (Inl InvalidArgument, new_store [])"
    by (simp add: init_swap_def swap_area_new_def)
  have "run_allowed example_events Map.empty"
    by (simp add: example_events_def aligned_def)
  from saved_pages_come_back [OF dev i this] obtain outs s' where "run_store example_events (new_store []) = Some (outs, s')"
    "list_all2 answers_agree outs (spec_answers example_events Map.empty)"
    by blast
  then show ?thesis
    by (auto simp: example_events_def answers_agree_def list_all2_Cons2)
qed

text \<open>In the same runs no swap slot is lost or shared and the statistics are true: the slots in use are
  those of the swapped-out pages, one each, and the rest are free; the bytes counted for the compressed
  cache are those of its entries and never more than its budget.\<close>

lemma page_store_accounts:
  assumes "device_ok dev d" "init_swap reserved dev first n (new_store d) = (r, s)" "run_allowed es Map.empty"
    "run_store es s = Some (outs, s')"
  shows "(case swap_area_of s' of
       None \<Rightarrow> swap_map s' = [] \<and> swap_stats s' = Some (0, 0, 0)
     | Some a \<Rightarrow> swap_stats s' = Some (total_pages a, length (swap_map s'), total_pages a - length (swap_map s')) \<and>
         distinct (map snd (swap_map s') @ free_slots a)) \<and>
    compressed_cache_bytes s' = sum_list (map (length \<circ> snd) (compressed_pages s')) \<and>
    compressed_cache_bytes s' \<le> MAX_COMPRESSED_CACHE_BYTES"
proof -
  obtain saved' where "represents s' saved'"
    using run_refines [OF init_represents [OF assms(1,2)] assms(3)] assms(4) by auto
  then have ok: "slots_ok s'" "counted [] s'" "compressed_cache_bytes s' \<le> MAX_COMPRESSED_CACHE_BYTES"
    using representsD(1) by (auto simp: store_ok_def)
  have "case swap_area_of s' of
       None \<Rightarrow> swap_map s' = [] \<and> swap_stats s' = Some (0, 0, 0)
     | Some a \<Rightarrow> swap_stats s' = Some (total_pages a, length (swap_map s'), total_pages a - length (swap_map s')) \<and>
         distinct (map snd (swap_map s') @ free_slots a)"
  proof (cases "swap_area_of s'")
    case (Some a)
    then have "distinct (map snd (swap_map s') @ free_slots a)" and m: "mset (map snd (swap_map s')) + mset (free_slots a) = mset [0..<total_pages a]"
      using ok(1) slots_ok_mset [OF Some] by (simp_all add: slots_ok_def)
    moreover have "length (swap_map s') + length (free_slots a) = total_pages a"
      using arg_cong [OF m, of size] by simp
    then have "total_pages a - length (free_slots a) = length (swap_map s')" "length (free_slots a) = total_pages a - length (swap_map s')"
      "length (free_slots a) \<le> total_pages a"
      by linarith+
    ultimately show ?thesis
      using Some by (simp add: swap_stats_def used_pages_def free_pages_def)
  qed (use ok(1) in \<open>simp add: slots_ok_def swap_stats_def\<close>)
  then show ?thesis
    using ok(2,3) by (simp add: counted_def)
qed

lemma page_store_accounts_witness:
  "\<exists>outs s'. run_store example_events (new_store []) = Some (outs, s') \<and>
     compressed_cache_bytes s' = sum_list (map (length \<circ> snd) (compressed_pages s')) \<and> compressed_cache_bytes s' \<le> MAX_COMPRESSED_CACHE_BYTES"
proof -
  have dev: "device_ok (MemoryBlockDevice ''none'' False) []"
    by (simp add: VEC_LIMIT_def)
  have i: "init_swap True (MemoryBlockDevice ''none'' False) 0 0 (new_store []) = (Inl InvalidArgument, new_store [])"
    by (simp add: init_swap_def swap_area_new_def)
  have a: "run_allowed example_events Map.empty"
    by (simp add: example_events_def aligned_def)
  obtain outs s' where run: "run_store example_events (new_store []) = Some (outs, s')"
    using run_refines [OF init_represents [OF dev i] a] by blast
  show ?thesis
    using page_store_accounts [OF dev i a run] run by blast
qed

text \<open>C36: A page dropped by unmapping comes back with its old bytes when it had been reclaimed into the raw
  store: dropping a page clears the swap slot and the compressed copy but not the raw copy, so the next
  fault on the address finds the old contents instead of a zero page.\<close>

theorem dropped_page_comes_back:
  "\<exists>page s. length page = PAGE_SIZE \<and> page \<noteq> replicate PAGE_SIZE 0 \<and>
     save_page owner (i * PAGE_SIZE) page (new_store d) = Some s \<and>
     fst (load_page owner (i * PAGE_SIZE) (replicate PAGE_SIZE b) (forget_page owner (i * PAGE_SIZE) s)) = Some page"
proof -
  obtain page where page: "length page = PAGE_SIZE" "compress_page page = Some None"
    using incompressible_page by blast
  have "compress_page (replicate PAGE_SIZE 0) = Some (Some [0x00])"
    by (simp add: compress_page_def list_all_iff)
  then have nz: "page \<noteq> replicate PAGE_SIZE 0"
    using page(2) by auto
  have al: "aligned (i * PAGE_SIZE)"
    by (simp add: aligned_def)
  let ?s = "store_page_content owner (i * PAGE_SIZE) page (new_store d)"
  have "save_page owner (i * PAGE_SIZE) page (new_store d) = Some ?s"
    using page(2) by (simp add: save_page_def swap_out_def new_store_def)
  moreover have "forget_page owner (i * PAGE_SIZE) ?s = ?s"
    using al by (simp add: forget_page_def remove_compressed_page_def store_page_content_def new_store_def bt_get_def)
  moreover have "fst (load_page owner (i * PAGE_SIZE) (replicate PAGE_SIZE b) ?s) = Some page"
    using al page(1) by (simp add: load_page_def get_page_content_def store_page_content_def new_store_def bt_get_def)
  ultimately show ?thesis
    using page(1) nz by auto
qed

text \<open>C37: A swap area found on a device destroys the signature it was found by: the probe places the area at
  block 0, the first slot handed out is slot 0, and the first page written to it overwrites the header, so
  that the device is not recognised any more unless the page happens to begin with the signature.\<close>

theorem first_swapped_page_erases_signature:
  assumes "device_ok dev d" "probe_device dev d = Some (first, n)" "swap_area_new True dev first n d = Inr a"
    "allocate_slot a = (Some slot, a')" "write_page a' slot page d = (Inr (), d')" "take 8 page \<noteq> SWAP_MAGIC"
  shows "probe_device dev d' = None"
proof -
  have first: "first = 0"
    using assms(2) by (auto simp: probe_device_def Let_def split: sum.splits if_splits)
  note A = swap_area_new_ok [OF assms(1,3)]
  have slot: "slot = 0" "swap_device a' = dev" "start_lba a' = 0"
    using assms(4) A(2-6) first by (auto simp: allocate_slot_def last_rev hd_upt split: if_splits)
  have len: "length page = PAGE_SIZE" and w: "write_blocks dev 0 page d = (Inr (), d')"
    using assms(5) slot by (auto simp: write_page_def slot_lba_def split: if_splits)
  have b: "length page = 8 * BLOCK_SIZE"
    using len by (simp add: PAGE_SIZE_def BLOCK_SIZE_def)
  have ok': "device_ok dev d'" and c: "block_count dev d' = block_count dev d"
    using bd.wr_valid [OF assms(1) w] by simp_all
  have r: "read_blocks dev 0 (8 * BLOCK_SIZE) d' = Inr page"
    by (rule bd.rd_written [OF assms(1) w b])
  then have i: "in_device dev 0 (8 * BLOCK_SIZE) d'" and p: "page = take (8 * BLOCK_SIZE) (drop (device_base dev * BLOCK_SIZE) d')"
    by (simp_all add: read_blocks_exact [OF ok'] split: if_splits)
  have "in_device dev 0 512 d'"
    using i by (simp add: in_device_def BLOCK_SIZE_def)
  then have "read_blocks dev 0 512 d' = Inr (take 512 (drop (device_base dev * BLOCK_SIZE) d'))"
    by (simp add: read_blocks_exact [OF ok'])
  moreover have "take 8 (take 512 (drop (device_base dev * BLOCK_SIZE) d')) = take 8 page"
    by (subst p) (simp add: BLOCK_SIZE_def min_def)
  ultimately show ?thesis
    using assms(6) by (simp add: probe_device_def)
qed


definition example_swap_disk :: "u8 list" where
  "example_swap_disk = SWAP_MAGIC @ [1, 0, 0, 0, 0, 0, 0, 0] @ replicate (PAGE_SIZE - 16) 0"

theorem first_swapped_page_erases_signature_witness:
  "probe_device (MemoryBlockDevice ''swap'' False) example_swap_disk = Some (0, 1) \<and>
   (\<exists>a a' d'. swap_area_new True (MemoryBlockDevice ''swap'' False) 0 1 example_swap_disk = Inr a \<and>
      allocate_slot a = (Some 0, a') \<and> write_page a' 0 (replicate PAGE_SIZE 7) example_swap_disk = (Inr (), d') \<and>
      probe_device (MemoryBlockDevice ''swap'' False) d' = None)"
proof -
  let ?dev = "MemoryBlockDevice ''swap'' False" and ?d = example_swap_disk
  have len: "length ?d = PAGE_SIZE"
    by (simp add: example_swap_disk_def SWAP_MAGIC_def PAGE_SIZE_def)
  have ok: "device_ok ?dev ?d"
    by (simp add: len PAGE_SIZE_def BLOCK_SIZE_def VEC_LIMIT_def)
  have p: "probe_device ?dev ?d = Some (0, 1)"
  proof -
    have "read_blocks ?dev 0 512 ?d = Inr (take 512 ?d)"
      by (subst read_blocks_exact [OF ok]) (simp add: in_device_def len PAGE_SIZE_def BLOCK_SIZE_def)
    moreover have "take 8 (take 512 ?d) = SWAP_MAGIC" "take 8 (drop 8 (take 512 ?d)) = [1, 0, 0, 0, 0, 0, 0, 0]"
      by (simp_all add: example_swap_disk_def SWAP_MAGIC_def)
    ultimately show ?thesis
      by (simp add: probe_device_def u64_from_le_def)
  qed
  define a where "a = \<lparr>swap_device = ?dev, start_lba = 0, total_pages = 1, free_slots = [0]\<rparr>"
  have a: "swap_area_new True ?dev 0 1 ?d = Inr a"
    by (simp add: swap_area_new_def a_def len checked_mul_def checked_add_def page_blocks(1)) (simp add: PAGE_SIZE_def BLOCK_SIZE_def)
  have s: "allocate_slot a = (Some 0, a\<lparr>free_slots := []\<rparr>)"
    by (simp add: a_def allocate_slot_def)
  obtain r d' where w: "write_page (a\<lparr>free_slots := []\<rparr>) 0 (replicate PAGE_SIZE 7) ?d = (r, d')"
    by fastforce
  have "write_blocks ?dev 0 (replicate PAGE_SIZE 7) ?d = (r, d')"
    using w by (simp add: write_page_def a_def slot_lba_def del: write_blocks.simps)
  then have "r = Inr ()"
    unfolding write_blocks_exact [OF ok] by (simp add: in_device_def len PAGE_SIZE_def BLOCK_SIZE_def)
  moreover have "take 8 (replicate PAGE_SIZE 7) \<noteq> SWAP_MAGIC"
  proof
    assume "take 8 (replicate PAGE_SIZE 7) = SWAP_MAGIC"
    then have "take 8 (replicate PAGE_SIZE 7) ! 0 = SWAP_MAGIC ! 0"
      by simp
    then show False
      by (simp add: SWAP_MAGIC_def PAGE_SIZE_def)
  qed
  ultimately show ?thesis
    using first_swapped_page_erases_signature [OF ok p a s] w p a s by blast
qed

end
