(* ===== verification/Page_Faults.thy ===== *)
theory Page_Faults
  imports Manager_Frames Page_Views Page_Recovery
begin

text \<open>
  A page fault on a demand-paged page, with everything the handler does: the frame, the saved contents, the
  hardware and the software table, and the neighbours it maps ahead.
\<close>

section \<open>The store\<close>

lemma represents_held: "store_ok s \<Longrightarrow> represents s (held s)"
  by (rule representsI) (auto simp: held_def in_cache_def store_ok_def slots_ok_def bt_get_def split: option.splits)

lemma load_held:
  assumes "store_ok s" "aligned va" "length frame = PAGE_SIZE"
  shows "\<exists>s'. load_page owner va frame s = (Some (case held s (owner, va) of Some p \<Rightarrow> p | None \<Rightarrow> replicate PAGE_SIZE 0), s') \<and>
    store_ok s' \<and> (\<forall>k p. k \<noteq> (owner, va) \<longrightarrow> held s k = Some p \<longrightarrow> held s' k = Some p)"
proof -
  note R = represents_held [OF assms(1)]
  obtain page s' where l: "load_page owner va frame s = (Some page, s')" "represents s' ((held s)((owner, va) := None))"
    "\<forall>p. held s (owner, va) = Some p \<longrightarrow> page = p"
    using load_refines [OF R assms(2,3)] by blast
  have "page = replicate PAGE_SIZE 0" if "held s (owner, va) = None"
  proof -
    have "bt_get (swap_map s) (owner, va) = None" "bt_get (compressed_pages s) (owner, va) = None"
      using representsD(3,4) [OF R that] .
    moreover from this that have "get_page_content owner va s = None"
      using get_page_content_map_of [OF assms(2)] by (simp add: held_def in_cache_def)
    ultimately show ?thesis
      using l(1) by (simp add: load_page_def)
  qed
  moreover have "held s' k = Some p" if "k \<noteq> (owner, va)" "held s k = Some p" for k p
    using representsD(2) [OF l(2), of k p] that by simp
  ultimately show ?thesis
    using l representsD(1) [OF l(2)] by (auto split: option.split)
qed

section \<open>A free frame is found\<close>

lemma allocate_finds:
  assumes "frames_wf fa" "base fa \<noteq> 0" "free_frames fa \<noteq> {}"
  shows "\<exists>addr fa' pm'. allocate fa pm 1 = (Some addr, fa', pm')"
proof -
  obtain r fa' pm' where a: "allocate fa pm 1 = (r, fa', pm')"
    by (metis prod_cases3)
  show ?thesis
  proof (cases r)
    case None
    then have "\<forall>(s, c) \<in> set (free_ranges fa). c < 1" "total_frames fa < next_frame fa + 1"
      using allocate_None [OF assms(1), of pm 1] a assms(2) by auto
    then have "free_frames fa = {}"
      using assms(1) by (fastforce simp: free_frames_def frames_wf_def ranges_wf_def range_frames_def)
    then show ?thesis
      using assms(3) by simp
  qed (use a in auto)
qed

lemma allocate_any_finds:
  assumes "frames_ok m" "i \<in> set js" "\<forall>j \<in> set js. j < num_nodes m" "free_frames (frame_allocators m ! i) \<noteq> {}"
  shows "\<exists>addr m'. allocate_any js 1 m = (Some addr, m')"
  using assms(2,3)
proof (induction js)
  case (Cons j js)
  obtain r m1 where r: "allocate_on j 1 m = (r, m1)"
    by (cases "allocate_on j 1 m")
  show ?case
  proof (cases r)
    case None
    then have "m1 = m"
      using allocate_on_None [OF assms(1), of j m1] r Cons.prems(2) by simp
    moreover have "j \<noteq> i"
    proof
      assume "j = i"
      obtain addr fa' pm' where "allocate (frame_allocators m ! i) (physical m) 1 = (Some addr, fa', pm')"
        using allocate_finds [OF frames_okD(1,2) [OF assms(1)] assms(4)] Cons.prems(2) \<open>j = i\<close> by (metis list.set_intros(1))
      then show False
        using r None \<open>j = i\<close> by (simp add: allocate_on_def)
    qed
    ultimately show ?thesis
      using Cons r None by auto
  qed (use r in simp)
qed simp

lemma allocate_frames_finds:
  assumes "frames_ok m" "free_addrs m \<noteq> {}"
  shows "\<exists>addr m'. allocate_frames ans 1 m = (Some addr, m') \<and> took m addr m'"
proof -
  obtain i where i: "i < num_nodes m" "free_frames (frame_allocators m ! i) \<noteq> {}"
    using assms(2) by (auto simp: free_addrs_def addresses_def)
  have "\<exists>addr m'. allocate_frames ans 1 m = (Some addr, m')"
  proof (cases "numa_node ans \<noteq> NUMA_NODE_NONE \<and> numa_node ans < num_nodes m")
    case True
    obtain r m1 where r: "allocate_on (numa_node ans) 1 m = (r, m1)"
      by (cases "allocate_on (numa_node ans) 1 m")
    have "m1 = m" if "r = None"
      using allocate_on_None [OF assms(1), of "numa_node ans" m1] r that True by simp
    then show ?thesis
      using allocate_any_finds [OF assms(1), of i "[0..<num_nodes m]"] i r True
      by (cases r) (auto simp: allocate_frames_def)
  next
    case False
    then show ?thesis
      using allocate_any_finds [OF assms(1), of i "[0..<num_nodes m]"] i by (auto simp: allocate_frames_def)
  qed
  then obtain addr m' where "allocate_frames ans 1 m = (Some addr, m')"
    by blast
  then show ?thesis
    using allocate_frames_ok [OF assms(1)] by fastforce
qed

lemma allocate_or_kill_finds:
  assumes "frames_ok m" "free_addrs m \<noteq> {}"
  shows "\<exists>addr m'. allocate_or_kill ans m = (Some addr, m') \<and> took m addr m'"
  using allocate_frames_finds [OF assms, of ans] by (auto simp: allocate_or_kill_def simp del: One_nat_def)

section \<open>What mapping ahead may change\<close>

definition awaits :: "address_space_id \<Rightarrow> memory_manager \<Rightarrow> nat \<Rightarrow> bool" where
  "awaits owner m a \<longleftrightarrow> (\<exists>phys perms. lookup_mapping_owned owner a (pages m) = Some (phys, perms, DemandPaged))"

text \<open>Only free frames are written, only the owner's demand-paged addresses are mapped, and nothing else of the
  manager changes.\<close>

definition only_fills :: "address_space_id \<Rightarrow> memory_manager \<Rightarrow> memory_manager \<Rightarrow> bool" where
  "only_fills owner m m' \<longleftrightarrow>
     frames_ok m' \<and> table_ok (pages m') \<and> free_addrs m' \<subseteq> free_addrs m \<and> pool_addrs m' = pool_addrs m \<and>
     saved m' = saved m \<and> running m' = running m \<and> frame_refcounts m' = frame_refcounts m \<and>
     (\<forall>a. (\<forall>f \<in> free_addrs m. a \<notin> page_span f) \<longrightarrow> cells (physical m') a = cells (physical m) a) \<and>
     (\<forall>o' a. o' \<noteq> owner \<or> \<not> awaits owner m a \<longrightarrow> own_view (pages m') o' a = own_view (pages m) o' a) \<and>
     (\<forall>o' a. o' \<noteq> running m \<or> \<not> awaits owner m a \<longrightarrow> hardware m' o' a = hardware m o' a) \<and>
     (\<forall>a. awaits owner m' a \<longrightarrow> awaits owner m a)"

lemma only_fillsD:
  assumes "only_fills owner m m'"
  shows "frames_ok m'" "table_ok (pages m')" "free_addrs m' \<subseteq> free_addrs m" "pool_addrs m' = pool_addrs m"
    "saved m' = saved m" "running m' = running m" "frame_refcounts m' = frame_refcounts m"
    "(\<And>f. f \<in> free_addrs m \<Longrightarrow> a \<notin> page_span f) \<Longrightarrow> cells (physical m') a = cells (physical m) a"
    "o' \<noteq> owner \<or> \<not> awaits owner m a \<Longrightarrow> own_view (pages m') o' a = own_view (pages m) o' a"
    "o' \<noteq> running m \<or> \<not> awaits owner m a \<Longrightarrow> hardware m' o' a = hardware m o' a"
    "awaits owner m' a \<Longrightarrow> awaits owner m a"
  using assms unfolding only_fills_def by blast+

lemma only_fills_refl: "frames_ok m \<Longrightarrow> table_ok (pages m) \<Longrightarrow> only_fills owner m m"
  by (simp add: only_fills_def)

lemma only_fills_trans:
  assumes "only_fills owner m m1" "only_fills owner m1 m2"
  shows "only_fills owner m m2"
proof -
  note A = only_fillsD [OF assms(1)] and B = only_fillsD [OF assms(2)]
  show ?thesis
    unfolding only_fills_def
  proof (intro conjI allI impI)
    fix a
    assume "\<forall>f \<in> free_addrs m. a \<notin> page_span f"
    then have "cells (physical m2) a = cells (physical m1) a" "cells (physical m1) a = cells (physical m) a"
      using A(3) by (auto intro!: A(8) B(8))
    then show "cells (physical m2) a = cells (physical m) a"
      by simp
  next
    fix o' a
    assume "o' \<noteq> owner \<or> \<not> awaits owner m a"
    then show "own_view (pages m2) o' a = own_view (pages m) o' a"
      using A(9) [of o' a] B(9) [of o' a] A(11) [of a] by auto
  next
    fix o' a
    assume "o' \<noteq> running m \<or> \<not> awaits owner m a"
    then show "hardware m2 o' a = hardware m o' a"
      using A(10) [of o' a] B(10) [of o' a] A(6) A(11) [of a] by auto
  qed (use A B in auto)
qed

section \<open>Recording a frame\<close>

definition present :: "nat \<Rightarrow> page_mapping \<Rightarrow> page_mapping" where
  "present frame p = p\<lparr>physical_address := page_align_down frame, map_kind := Anonymous, accessed := True\<rparr>"

lemma keeps_place_present [simp]: "keeps_place (present frame)"
  by (simp add: keeps_place_def present_def page_align_facts)

lemma pages_record_frame:
  assumes "table_ok (pages m)"
  shows "pages (record_frame owner va frame m) = snd (replace_owned (present frame) owner va (pages m))"
proof -
  define t1 where "t1 = snd (replace_mapping_phys_owned owner va frame (pages m))"
  define t2 where "t2 = snd (replace_mapping_kind_owned owner va Anonymous t1)"
  have ok: "table_ok t1" "table_ok t2"
    using assms by (simp_all add: t1_def t2_def replace_mapping_phys_owned_def replace_mapping_kind_owned_def replace_owned_ok)
  have m: "snd (mark_accessed_owned owner va t2) = snd (replace_owned (\<lambda>m. m\<lparr>accessed := True\<rparr>) owner va t2)"
    by (simp add: mark_accessed_owned_def split: prod.split)
  have e1: "t1 = (pages m)\<lparr>mappings := map (\<lambda>p. if starts_at owner va p then p\<lparr>physical_address := page_align_down frame\<rparr> else p) (mappings (pages m))\<rparr>"
    unfolding t1_def replace_mapping_phys_owned_def by (rule replace_owned_map [OF assms])
  have e2: "t2 = t1\<lparr>mappings := map (\<lambda>p. if starts_at owner va p then p\<lparr>map_kind := Anonymous\<rparr> else p) (mappings t1)\<rparr>"
    unfolding t2_def replace_mapping_kind_owned_def by (rule replace_owned_map [OF ok(1)])
  have "pages (record_frame owner va frame m) = t2\<lparr>mappings := map (\<lambda>p. if starts_at owner va p then p\<lparr>accessed := True\<rparr> else p) (mappings t2)\<rparr>"
    using m replace_owned_map [OF ok(2)] by (simp add: record_frame_def Let_def t1_def t2_def)
  then show ?thesis
    unfolding replace_owned_map [OF assms] e2 unfolding e1 by (auto simp: present_def starts_at_def)
qed

lemma record_frame_simps [simp]:
  "saved (record_frame owner va frame m) = saved m" "hardware (record_frame owner va frame m) = hardware m"
  "running (record_frame owner va frame m) = running m" "physical (record_frame owner va frame m) = physical m"
  "frame_refcounts (record_frame owner va frame m) = frame_refcounts m"
  "frames_ok (record_frame owner va frame m) = frames_ok m" "free_addrs (record_frame owner va frame m) = free_addrs m"
  "pool_addrs (record_frame owner va frame m) = pool_addrs m"
  by (simp_all add: record_frame_def Let_def frames_ok_def free_addrs_def pool_addrs_def)

lemma write_frame_simps [simp]:
  "pages (write_frame f bs m) = pages m" "saved (write_frame f bs m) = saved m" "hardware (write_frame f bs m) = hardware m"
  "running (write_frame f bs m) = running m" "frame_refcounts (write_frame f bs m) = frame_refcounts m"
  "frames_ok (write_frame f bs m) = frames_ok m" "free_addrs (write_frame f bs m) = free_addrs m"
  "pool_addrs (write_frame f bs m) = pool_addrs m"
  "cells (physical (write_frame f bs m)) a = (if f \<le> a \<and> a < f + length bs then bs ! (a - f) else cells (physical m) a)"
  by (simp_all add: write_frame_def frames_ok_def free_addrs_def pool_addrs_def)

lemma hardware_simps [simp]:
  "frames_ok (m\<lparr>hardware := h\<rparr>) = frames_ok m" "free_addrs (m\<lparr>hardware := h\<rparr>) = free_addrs m"
  "pool_addrs (m\<lparr>hardware := h\<rparr>) = pool_addrs m"
  "frames_ok (m\<lparr>saved := s\<rparr>) = frames_ok m" "free_addrs (m\<lparr>saved := s\<rparr>) = free_addrs m"
  "pool_addrs (m\<lparr>saved := s\<rparr>) = pool_addrs m"
  by (simp_all add: frames_ok_def free_addrs_def pool_addrs_def)

lemma starts_at_covers: "mapping_ok p \<Longrightarrow> starts_at owner va p \<Longrightarrow> spans p va"
  using page_align_facts [of va] dvd_imp_le [of PAGE_SIZE "map_length p"]
  by (auto simp: starts_at_def spans_def mapping_ok_def map_stop_def)

text \<open>Recording a frame at a demand-paged address changes only demand-paged addresses of the owner, and leaves
  none of those it changes demand-paged.\<close>

lemma record_frame_view:
  fixes frame :: nat
  assumes ok: "table_ok (pages m)" and aw: "awaits owner m va"
  defines "m' \<equiv> record_frame owner va frame m"
  shows "table_ok (pages m')"
    "own_view (pages m') o' a \<noteq> own_view (pages m) o' a \<Longrightarrow> o' = owner \<and> awaits owner m a \<and> \<not> awaits owner m' a"
    "awaits owner m' a \<Longrightarrow> awaits owner m a"
proof -
  have t: "pages m' = snd (replace_owned (present frame) owner va (pages m))"
    unfolding m'_def by (rule pages_record_frame [OF ok])
  show ok': "table_ok (pages m')"
    unfolding t by (rule replace_owned_ok [OF ok]) simp
  have changed: "o' = owner \<and> awaits owner m a \<and> \<not> awaits owner m' a" if ne: "own_view (pages m') o' a \<noteq> own_view (pages m) o' a" for o' a
  proof -
    obtain p where p: "find (starts_at owner va) (mappings (pages m)) = Some p" "o' = owner" "spans p a"
      "own_view (pages m') o' a = Some (entry (present frame p) a)"
      using ne replace_owned_view [OF ok keeps_place_present, of frame owner va o' a, folded t]
      by (auto split: option.splits if_splits)
    have pm: "p \<in> set (mappings (pages m))" "starts_at owner va p"
      using p(1) by (auto simp: find_Some_iff)
    have "mapping_ok p" "map_owner p = owner"
      using ok pm by (auto simp: table_ok_def list_all_iff starts_at_def)
    then have v: "own_view (pages m) owner va = Some (entry p va)" "own_view (pages m) owner a = Some (entry p a)"
      using own_view_Some_iff [OF ok] pm starts_at_covers p(3) by blast+
    then have "map_kind p = DemandPaged"
      using aw by (simp add: awaits_def lookup_view [OF ok] entry_def)
    then show ?thesis
      using v(2) p(2,4) by (simp add: awaits_def lookup_view [OF ok] lookup_view [OF ok'] entry_def present_def)
  qed
  show "own_view (pages m') o' a \<noteq> own_view (pages m) o' a \<Longrightarrow> o' = owner \<and> awaits owner m a \<and> \<not> awaits owner m' a"
    by (rule changed)
  show "awaits owner m a" if "awaits owner m' a"
  proof -
    have "own_view (pages m') owner a = own_view (pages m) owner a" "own_view (pages m') KERNEL a = own_view (pages m) KERNEL a"
      using changed that by blast+
    then have "lookup_mapping_owned owner a (pages m') = lookup_mapping_owned owner a (pages m)"
      unfolding lookup_view [OF ok] lookup_view [OF ok'] by (simp cong: option.case_cong)
    then show ?thesis
      using that by (simp add: awaits_def)
  qed
qed

section \<open>Mapping ahead\<close>

text \<open>Filling a fresh frame, and either installing and recording it or giving it back.\<close>

lemma fill_frame:
  assumes m: "table_ok (pages m)" "frames_ok m" and took: "took m frame m1" and len: "length bytes \<le> PAGE_SIZE"
    and a: "\<forall>f \<in> free_addrs m. a \<notin> page_span f"
  shows "cells (physical (write_frame frame bytes m1)) a = cells (physical m) a"
proof -
  have "a \<notin> page_span frame"
    using a tookD(8) [OF took] by blast
  then show ?thesis
    using len by (auto simp: tookD(10) [OF took] page_span_def)
qed

lemma around_step:
  assumes ok: "table_ok (pages m)" "frames_ok m" and took: "took m frame m1" and len: "length bytes \<le> PAGE_SIZE" and aw: "awaits owner m va"
  defines "m2 \<equiv> write_frame frame bytes m1"
  shows "only_fills owner m (record_frame owner va frame (m2\<lparr>hardware := (hardware m2)(running m2 := (hardware m2 (running m2))(va := Some h))\<rparr>))"
    (is "only_fills owner m ?m3")
    "only_fills owner m (snd (deallocate_frames frame 1 m2))"
proof -
  note T = tookD [OF took]
  let ?h = "m2\<lparr>hardware := (hardware m2)(running m2 := (hardware m2 (running m2))(va := Some h))\<rparr>"
  have pg: "pages ?h = pages m"
    by (simp add: m2_def T)
  have aw': "awaits owner ?h a = awaits owner m a" for a
    by (simp add: awaits_def pg)
  note R = record_frame_view [of ?h owner va, unfolded pg aw', OF ok(1) aw]
  show "only_fills owner m ?m3"
    unfolding only_fills_def
  proof (intro conjI allI impI)
    fix o' a
    assume "o' \<noteq> owner \<or> \<not> awaits owner m a"
    then show "own_view (pages ?m3) o' a = own_view (pages m) o' a"
      using R(2) by blast
  next
    fix a
    assume "\<forall>f \<in> free_addrs m. a \<notin> page_span f"
    then show "cells (physical ?m3) a = cells (physical m) a"
      using fill_frame [OF ok took len] by (simp add: m2_def)
  next
    fix o' a
    assume "o' \<noteq> running m \<or> \<not> awaits owner m a"
    then show "hardware ?m3 o' a = hardware m o' a"
      using aw by (auto simp: m2_def T)
  next
    fix a
    assume "awaits owner ?m3 a"
    then show "awaits owner m a"
      by (rule R(3))
  qed (use R(1) in \<open>auto simp: m2_def T\<close>)
  have "frame \<in> pool_addrs m2 - free_addrs m2"
    using T(8) free_addrs_pool [OF ok(2)] by (auto simp: m2_def T)
  then obtain m4 where m4: "deallocate_frames frame 1 m2 = (True, m4)" "frames_ok m4" "pool_addrs m4 = pool_addrs m2" "free_addrs m4 = insert frame (free_addrs m2)"
    using deallocate_frames_ok [of m2 frame] T(6) by (auto simp: m2_def)
  have f4: "pages m4 = pages m" "saved m4 = saved m" "hardware m4 = hardware m" "running m4 = running m" "frame_refcounts m4 = frame_refcounts m"
    "physical m4 = physical m2"
    using arg_cong [OF m4(1), of snd] deallocate_frames_fields [of frame 1 m2] by (auto simp: m2_def T)
  have "free_addrs m4 = free_addrs m"
    using T(7,8) by (auto simp: m4 m2_def)
  moreover have "cells (physical m4) a = cells (physical m) a" if "\<forall>f \<in> free_addrs m. a \<notin> page_span f" for a
    using fill_frame [OF ok took len that] by (simp add: f4 m2_def)
  ultimately show "only_fills owner m (snd (deallocate_frames frame 1 m2))"
    unfolding m4(1) only_fills_def using ok m4(2,3) by (simp add: f4 awaits_def) (simp add: m2_def T)
qed

lemma around_loop_ok:
  "table_ok (pages m) \<Longrightarrow> frames_ok m \<Longrightarrow> only_fills owner m (around_loop ans owner page_addr backward offsets m)"
proof (induction offsets arbitrary: m)
  case Nil
  then show ?case
    by (simp add: only_fills_refl)
next
  case (Cons offset offsets)
  let ?va = "adjacent_page backward page_addr offset"
  note refl = only_fills_refl [OF Cons.prems(2,1), of owner]
  show ?case
  proof (cases "backward \<and> page_addr < ?va")
    case False
    note f = this
    show ?thesis
    proof (cases "\<exists>phys perms content. lookup_mapping_owned owner ?va (pages m) = Some (phys, perms, DemandPaged) \<and>
        get_page_content owner ?va (saved m) = Some content")
      case True
      then obtain phys perms content where l: "lookup_mapping_owned owner ?va (pages m) = Some (phys, perms, DemandPaged)"
        "get_page_content owner ?va (saved m) = Some content"
        by blast
      then have aw: "awaits owner m ?va"
        by (auto simp: awaits_def)
      obtain r m1 where r: "allocate_frames ans 1 m = (r, m1)"
        by (cases "allocate_frames ans 1 m")
      show ?thesis
      proof (cases r)
        case None
        then show ?thesis
          using allocate_frames_ok [OF Cons.prems(2) r] r l f refl by (simp add: Let_def del: One_nat_def)
      next
        case (Some frame)
        then have took: "took m frame m1"
          using allocate_frames_ok [OF Cons.prems(2) r] by simp
        let ?bytes = "take (min (length content) PAGE_SIZE) content"
        have len: "length ?bytes \<le> PAGE_SIZE"
          by simp
        note A = around_step(1) [OF Cons.prems took len aw, where h = "(frame, perms)"] around_step(2) [OF Cons.prems took len aw]
        show ?thesis
        proof (cases "table_room ans ?va")
          case True
          then show ?thesis
            using only_fills_trans [OF A(1) Cons.IH [OF only_fillsD(2,1) [OF A(1)]]] r l f Some refl
            by (simp add: install_user_page_arch_def Let_def del: One_nat_def)
        next
          case False
          then show ?thesis
            using A(2) r l f Some refl by (simp add: install_user_page_arch_def Let_def del: One_nat_def)
        qed
      qed
    qed (use f refl in \<open>auto simp: Let_def split: option.splits\<close>)
  qed (use refl in \<open>auto simp: Let_def\<close>)
qed

lemma fault_around_ok: "table_ok (pages m) \<Longrightarrow> frames_ok m \<Longrightarrow> only_fills owner m (fault_around ans owner page_addr m)"
  unfolding fault_around_def
  by (meson around_loop_ok only_fillsD(1,2) only_fills_trans)

section \<open>The fault\<close>

text \<open>A single demand-paged page of an address space.\<close>

definition demand_page :: "address_space_id \<Rightarrow> nat \<Rightarrow> page_permissions \<Rightarrow> memory_manager \<Rightarrow> bool" where
  "demand_page owner page perms m \<longleftrightarrow>
     (\<exists>p \<in> set (mappings (pages m)). map_owner p = owner \<and> virtual_address p = page \<and> map_length p = PAGE_SIZE \<and>
        map_permissions p = perms \<and> map_kind p = DemandPaged)"

lemma demand_page_view:
  assumes ok: "table_ok (pages m)" and d: "demand_page owner page perms m" and frame: "frame mod PAGE_SIZE = 0"
  shows "aligned page" "awaits owner m page" "\<exists>phys. lookup_mapping_owned owner page (pages m) = Some (phys, perms, DemandPaged)"
    "own_view (pages (record_frame owner page frame m)) owner page = Some (frame, perms, Anonymous)"
proof -
  obtain p where p: "p \<in> set (mappings (pages m))" "map_owner p = owner" "virtual_address p = page" "map_permissions p = perms" "map_kind p = DemandPaged"
    using d by (auto simp: demand_page_def)
  then have po: "mapping_ok p"
    using ok by (auto simp: table_ok_def list_all_iff)
  then show al: "aligned page"
    using p(3) by (auto simp: mapping_ok_def aligned_def)
  have c: "spans p page"
    using po p(3) by (auto simp: spans_def mapping_ok_def map_stop_def)
  then have "own_view (pages m) owner page = Some (entry p page)"
    using own_view_Some_iff [OF ok] p by blast
  then show l: "\<exists>phys. lookup_mapping_owned owner page (pages m) = Some (phys, perms, DemandPaged)"
    using p by (simp add: lookup_view [OF ok] entry_def)
  then show "awaits owner m page"
    by (auto simp: awaits_def)
  have "page_align_down page = page" "page_align_down frame = frame"
    using al frame by (simp_all add: aligned_def page_align_down_def)
  moreover from this have "starts_at owner page p"
    using p by (simp add: starts_at_def)
  then have "find (starts_at owner page) (mappings (pages m)) = Some p"
    using p(1) starts_at_unique [OF ok] by (subst find_unique) auto
  ultimately show "own_view (pages (record_frame owner page frame m)) owner page = Some (frame, perms, Anonymous)"
    using c p unfolding pages_record_frame [OF ok] replace_owned_view [OF ok keeps_place_present]
    by (simp add: entry_def present_def)
qed

lemma frame_bytes_write:
  "length bytes = PAGE_SIZE \<Longrightarrow> frame_bytes frame (write_frame frame bytes m) = bytes"
  by (auto simp: frame_bytes_def intro!: nth_equalityI)

lemma frame_bytes_cong: "(\<And>a. a \<in> page_span frame \<Longrightarrow> cells (physical m') a = cells (physical m) a) \<Longrightarrow> frame_bytes frame m' = frame_bytes frame m"
  by (auto simp: frame_bytes_def page_span_def)

lemma demand_fault_resolves:
  assumes ok: "frames_ok m" "table_ok (pages m)" "store_ok (saved m)"
    and d: "demand_page (running m) page perms m" and free: "free_addrs m \<noteq> {}" and room: "table_room ans page"
  defines "bytes \<equiv> (case held (saved m) (running m, page) of Some bytes \<Rightarrow> bytes | None \<Rightarrow> replicate PAGE_SIZE 0)"
  shows "\<exists>frame m1 s m2 m'. took m frame m1 \<and> m2 = record_frame (running m) page frame ((write_frame frame bytes (m1\<lparr>saved := s\<rparr>))
        \<lparr>hardware := (hardware m)(running m := (hardware m (running m))(page := Some (frame, perms)))\<rparr>) \<and>
      demand_fault ans (running m) page perms m = (True, m') \<and> only_fills (running m) m2 m' \<and> store_ok s \<and> length bytes = PAGE_SIZE \<and>
      (\<forall>k p. k \<noteq> (running m, page) \<longrightarrow> held (saved m) k = Some p \<longrightarrow> held s k = Some p)"
proof -
  obtain frame m1 where a: "allocate_or_kill ans m = (Some frame, m1)" "took m frame m1"
    using allocate_or_kill_finds [OF ok(1) free] by blast
  note T = tookD [OF a(2)]
  have fr: "frame mod PAGE_SIZE = 0"
    using pool_addrs_page [OF ok(1)] free_addrs_pool [OF ok(1)] T(8) by blast
  note V = demand_page_view [OF ok(2) d fr]
  have "length (frame_bytes frame m1) = PAGE_SIZE"
    by (simp add: frame_bytes_def)
  then obtain s where s: "load_page (running m) page (frame_bytes frame m1) (saved m) = (Some bytes, s)" "store_ok s"
    "\<forall>k p. k \<noteq> (running m, page) \<longrightarrow> held (saved m) k = Some p \<longrightarrow> held s k = Some p"
    using load_held [OF ok(3) V(1)] unfolding bytes_def by blast
  have len: "length bytes = PAGE_SIZE"
    using load_refines [OF represents_held [OF ok(3)] V(1) \<open>length (frame_bytes frame m1) = PAGE_SIZE\<close>, of "running m"] s(1) by auto
  let ?h = "(write_frame frame bytes (m1\<lparr>saved := s\<rparr>))\<lparr>hardware := (hardware m)(running m := (hardware m (running m))(page := Some (frame, perms)))\<rparr>"
  let ?m2 = "record_frame (running m) page frame ?h"
  have "pages ?h = pages m"
    by (simp add: T)
  then have "table_ok (pages ?m2)"
    using record_frame_view(1) [of ?h "running m" page] ok(2) V(2) by (simp add: awaits_def)
  moreover have "frames_ok ?m2"
    by (simp add: T)
  ultimately have "only_fills (running m) ?m2 (fault_around ans (running m) page ?m2)"
    by (rule fault_around_ok)
  moreover have "demand_fault ans (running m) page perms m = (True, fault_around ans (running m) page ?m2)"
    using a(1) s(1) room by (simp add: demand_fault_def install_user_page_arch_def T)
  ultimately show ?thesis
    using a(2) s(2,3) len by blast
qed

lemma fault_at:
  assumes "frames_ok m" "table_ok (pages m)" "store_ok (saved m)"
    and "demand_page (running m) page perms m" and "align_down_page va = page" and "free_addrs m \<noteq> {}" and "table_room ans page"
  shows "\<exists>m' frame. resolve_page_fault ans va is_write m = (True, m') \<and>
     hardware m' (running m) page = Some (frame, perms) \<and>
     lookup_mapping_owned (running m) page (pages m') = Some (frame, perms, Anonymous) \<and>
     frame \<in> free_addrs m \<and> frame \<notin> free_addrs m' \<and>
     frame_bytes frame m' = (case held (saved m) (running m, page) of Some bytes \<Rightarrow> bytes | None \<Rightarrow> replicate PAGE_SIZE 0) \<and>
     (\<forall>k bytes. k \<noteq> (running m, page) \<longrightarrow> held (saved m) k = Some bytes \<longrightarrow> held (saved m') k = Some bytes) \<and>
     (\<forall>a. (\<forall>f \<in> free_addrs m. a \<notin> page_span f) \<longrightarrow> cells (physical m') a = cells (physical m) a) \<and>
     (\<forall>o' a. o' \<noteq> running m \<or> \<not> awaits (running m) m a \<longrightarrow>
        own_view (pages m') o' a = own_view (pages m) o' a \<and> hardware m' o' a = hardware m o' a) \<and>
     frames_ok m' \<and> table_ok (pages m') \<and> store_ok (saved m')"
proof -
  let ?o = "running m"
  define bytes where "bytes = (case held (saved m) (?o, page) of Some bytes \<Rightarrow> bytes | None \<Rightarrow> replicate PAGE_SIZE 0)"
  obtain frame m1 s m2 m' where F: "took m frame m1"
      "m2 = record_frame ?o page frame ((write_frame frame bytes (m1\<lparr>saved := s\<rparr>))
        \<lparr>hardware := (hardware m)(?o := (hardware m ?o)(page := Some (frame, perms)))\<rparr>)"
      "demand_fault ans ?o page perms m = (True, m')" "only_fills ?o m2 m'" "store_ok s" "length bytes = PAGE_SIZE"
      "\<forall>k p. k \<noteq> (?o, page) \<longrightarrow> held (saved m) k = Some p \<longrightarrow> held s k = Some p"
    using demand_fault_resolves [OF assms(1-4,6,7)] unfolding bytes_def by blast
  note T = tookD [OF F(1)] and O = only_fillsD [OF F(4)]
  have fr: "frame mod PAGE_SIZE = 0"
    using pool_addrs_page [OF assms(1)] free_addrs_pool [OF assms(1)] T(8) by blast
  note V = demand_page_view [OF assms(2,4) fr]
  let ?h = "(write_frame frame bytes (m1\<lparr>saved := s\<rparr>))\<lparr>hardware := (hardware m)(?o := (hardware m ?o)(page := Some (frame, perms)))\<rparr>"
  have h: "pages ?h = pages m"
    by (simp add: T)
  have aw: "awaits ?o ?h a = awaits ?o m a" for a
    by (simp add: awaits_def h)
  note R = record_frame_view [of ?h ?o page, unfolded h aw, OF assms(2) V(2), of frame, folded F(2)]
  have m2: "saved m2 = s" "running m2 = ?o" "free_addrs m2 = free_addrs m - {frame}" "hardware m2 = hardware ?h" "physical m2 = physical ?h" "frames_ok m2"
    by (simp_all add: F(2) T)
  have "pages m2 = pages (record_frame ?o page frame m)"
    unfolding F(2) using assms(2) by (simp add: pages_record_frame T)
  then have page: "own_view (pages m2) ?o page = Some (frame, perms, Anonymous)"
    using V(4) by simp
  then have "\<not> awaits ?o m2 page"
    by (simp add: awaits_def lookup_view [OF R(1)])
  note P = O(9) [of ?o page] O(10) [of ?o page] this
  have away: "a \<notin> page_span f" if "a \<in> page_span frame" "f \<in> free_addrs m2" for a f
  proof -
    have "f mod PAGE_SIZE = 0" "f \<noteq> frame"
      using pool_addrs_page [OF assms(1)] free_addrs_pool [OF assms(1)] that(2) by (auto simp: m2)
    then show ?thesis
      using page_span_disjoint [of f frame] fr that(1) by auto
  qed
  have b: "frame_bytes frame m' = bytes"
  proof -
    have "frame_bytes frame m' = frame_bytes frame m2"
      by (rule frame_bytes_cong) (use away in \<open>blast intro: O(8)\<close>)
    also have "\<dots> = frame_bytes frame (write_frame frame bytes (m1\<lparr>saved := s\<rparr>))"
      by (simp add: frame_bytes_def m2)
    finally show ?thesis
      using frame_bytes_write [OF F(6)] by simp
  qed
  have c: "cells (physical m') a = cells (physical m) a" if "\<forall>f \<in> free_addrs m. a \<notin> page_span f" for a
  proof -
    have "cells (physical m') a = cells (physical m2) a"
      by (rule O(8)) (use that in \<open>simp add: m2\<close>)
    also have "\<dots> = cells (physical m) a"
      using that T(8) F(6) by (auto simp: m2 page_span_def T(10))
    finally show ?thesis .
  qed
  have v: "own_view (pages m') o' a = own_view (pages m) o' a" "hardware m' o' a = hardware m o' a"
    if "o' \<noteq> ?o \<or> \<not> awaits ?o m a" for o' a
  proof -
    have n: "o' \<noteq> ?o \<or> \<not> awaits ?o m2 a"
      using that R(3) by blast
    show "own_view (pages m') o' a = own_view (pages m) o' a"
      using O(9) [OF n] R(2) that by metis
    show "hardware m' o' a = hardware m o' a"
      using O(10) [of o' a] n that V(2) by (auto simp: m2)
  qed
  have "resolve_page_fault ans va is_write m = (True, m')"
    using V(3) F(3) assms(5) by (auto simp: resolve_page_fault_def resolve_page_fault_owned_def)
  moreover have "hardware m' ?o page = Some (frame, perms)"
    using P by (simp add: m2)
  moreover have "lookup_mapping_owned ?o page (pages m') = Some (frame, perms, Anonymous)"
    using P(1,3) page by (simp add: lookup_view [OF O(2)])
  moreover have "frame \<in> free_addrs m" "frame \<notin> free_addrs m'"
    using T(8) O(3) by (auto simp: m2)
  ultimately show ?thesis
    using b c v F(5,7) O(1,2,5) unfolding bytes_def by (intro exI [of _ m'] exI [of _ frame]) (simp add: m2)
qed

text \<open>C7: A fault is answered with the page's own bytes.  When a processor faults on a demand-paged page of its
  address space, a frame is free and the hardware tables have room, the handler resolves the fault: it maps
  the page, in the hardware and in the software table and with the page's permissions, to a frame that was free
  and that now holds exactly the bytes that were saved for the page, wherever they were kept, or zeros when
  none were saved.  Whatever neighbours it maps ahead, what is saved for other pages stays saved, every byte
  of memory outside the frames that were free keeps its value, and the mappings of other address spaces and the
  pages of this one that were not waiting for a fault stay as they were.\<close>

theorem fault_restores_page:
  assumes "frames_ok m" "table_ok (pages m)" "store_ok (saved m)"
    and "demand_page (running m) page perms m" and "align_down_page va = page" and "free_addrs m \<noteq> {}" and "table_room ans page"
  shows "\<exists>m' frame. resolve_page_fault ans va is_write m = (True, m') \<and>
     hardware m' (running m) page = Some (frame, perms) \<and>
     lookup_mapping_owned (running m) page (pages m') = Some (frame, perms, Anonymous) \<and>
     frame \<in> free_addrs m \<and> frame \<notin> free_addrs m' \<and>
     frame_bytes frame m' = (case held (saved m) (running m, page) of Some bytes \<Rightarrow> bytes | None \<Rightarrow> replicate PAGE_SIZE 0) \<and>
     (\<forall>k bytes. k \<noteq> (running m, page) \<longrightarrow> held (saved m) k = Some bytes \<longrightarrow> held (saved m') k = Some bytes) \<and>
     (\<forall>a. (\<forall>f \<in> free_addrs m. a \<notin> page_span f) \<longrightarrow> cells (physical m') a = cells (physical m) a) \<and>
     (\<forall>o' a. o' \<noteq> running m \<or> \<not> awaits (running m) m a \<longrightarrow>
        own_view (pages m') o' a = own_view (pages m) o' a \<and> hardware m' o' a = hardware m o' a) \<and>
     frames_ok m' \<and> table_ok (pages m') \<and> store_ok (saved m')"
  by (rule fault_at [OF assms])

definition example_manager :: memory_manager where
  "example_manager =
     (new_manager \<lparr>cells = (\<lambda>_. 9), restored_pages = []\<rparr> [] 7)
       \<lparr>frame_allocators := [new_frame_allocator\<lparr>base := PAGE_SIZE, total_frames := 4\<rparr>], num_nodes := 1,
        pages := \<lparr>mappings = map (\<lambda>i. \<lparr>virtual_address = i * PAGE_SIZE, physical_address = 0, map_length = PAGE_SIZE,
          map_permissions = READ_WRITE, map_kind = DemandPaged, accessed = False, advice = Normal, map_owner = 7\<rparr>) [8, 9],
          pt_initialized = True\<rparr>,
        saved := (new_store [])\<lparr>page_content := [((7, 8 * PAGE_SIZE), replicate PAGE_SIZE 1), ((7, 9 * PAGE_SIZE), replicate PAGE_SIZE 2)]\<rparr>\<rparr>"

definition example_answers :: answers where
  "example_answers = \<lparr>numa_node = 0, vec_grows = (\<lambda>_. True), oom_killed = False, table_room = (\<lambda>_. True), bare_metal = True\<rparr>"

lemma example_manager_ok:
  "frames_ok example_manager" "table_ok (pages example_manager)" "store_ok (saved example_manager)"
  "demand_page 7 (8 * PAGE_SIZE) READ_WRITE example_manager" "free_addrs example_manager \<noteq> {}" "running example_manager = 7"
  "held (saved example_manager) (7, 8 * PAGE_SIZE) = Some (replicate PAGE_SIZE 1)"
  by (simp_all add: example_manager_def frames_ok_def new_frame_allocator_def frames_wf_def ranges_wf_def PAGE_SIZE_def FRAME_SIZE_def
      new_manager_def table_ok_def mapping_ok_def map_stop_def maps_apart_def store_ok_def slots_ok_def new_store_def cache_entries_ok_def
      content_ok_def counted_def bt_get_def demand_page_def free_addrs_def addresses_def free_frames_def held_def in_cache_def)

theorem fault_restores_page_witness:
  "\<exists>m' frame. resolve_page_fault example_answers (8 * PAGE_SIZE + 100) True example_manager = (True, m') \<and>
     hardware m' 7 (8 * PAGE_SIZE) = Some (frame, READ_WRITE) \<and> frame_bytes frame m' = replicate PAGE_SIZE 1"
  using fault_restores_page [OF example_manager_ok(1-3), unfolded example_manager_ok(6), OF example_manager_ok(4), of "8 * PAGE_SIZE + 100" example_answers True]
    example_manager_ok(5,7) by (auto simp: align_down_page_def PAGE_SIZE_def example_answers_def)

section \<open>What the handler gets wrong\<close>

lemma page_content_load [simp]: "page_content (snd (load_page owner va frame s)) = page_content s"
  by (auto simp: load_page_def uncount_page_def Let_def split: option.split sum.split prod.split bool.split)

text \<open>When the hardware tables have no room, the fault fails after the saved copy was consumed: a page that was
  in swap or in the compressed cache is gone.\<close>

lemma failed_install_loses_page:
  assumes "frames_ok m" "table_ok (pages m)" "store_ok (saved m)" "demand_page (running m) page perms m"
    and "align_down_page va = page" "free_addrs m \<noteq> {}" "\<not> table_room ans page"
    and "map_of (page_content (saved m)) (running m, page) = None"
  shows "\<exists>m'. resolve_page_fault ans va is_write m = (False, m') \<and> held (saved m') (running m, page) = None"
proof -
  let ?k = "(running m, page)"
  obtain frame m1 where a: "allocate_or_kill ans m = (Some frame, m1)" "took m frame m1"
    using allocate_or_kill_finds [OF assms(1,6)] by blast
  note T = tookD [OF a(2)]
  have fr: "frame mod PAGE_SIZE = 0"
    using pool_addrs_page [OF assms(1)] free_addrs_pool [OF assms(1)] T(8) by blast
  note V = demand_page_view [OF assms(2,4) fr]
  have "length (frame_bytes frame m1) = PAGE_SIZE"
    by (simp add: frame_bytes_def)
  then obtain bytes s where s: "load_page (running m) page (frame_bytes frame m1) (saved m) = (Some bytes, s)"
    "represents s ((held (saved m))(?k := None))"
    using load_refines [OF represents_held [OF assms(3)] V(1)] by blast
  have "page_content s = page_content (saved m)"
    using page_content_load [of "running m" page "frame_bytes frame m1" "saved m"] s(1) by simp
  then have "held s ?k = None"
    using representsD(3,4) [OF s(2), of ?k] assms(8) by (simp add: held_def in_cache_def)
  moreover have "resolve_page_fault ans va is_write m =
      (False, snd (deallocate_frames frame 1 (write_frame frame bytes (m1\<lparr>saved := s\<rparr>))))"
    using V(3) a(1) s(1) assms(5,7)
    by (auto simp: resolve_page_fault_def resolve_page_fault_owned_def demand_fault_def install_user_page_arch_def T simp del: One_nat_def)
  ultimately show ?thesis
    by simp
qed

text \<open>A neighbour is mapped ahead with its raw copy even when its current bytes are in swap or in the compressed
  cache: the process then sees the older bytes, and the saved ones stay behind.\<close>

lemma around_maps_raw_copy:
  assumes "frames_ok m" "store_ok (saved m)" "free_addrs m \<noteq> {}" "table_room ans va"
    and "adjacent_page False page 1 = va" "aligned va" "lookup_mapping_owned (running m) va (pages m) = Some (phys, perms, DemandPaged)"
    and "map_of (page_content (saved m)) (running m, va) = Some raw"
  shows "\<exists>frame. let m' = around_loop ans (running m) page False [1] m
     in hardware m' (running m) va = Some (frame, perms) \<and> frame_bytes frame m' = raw \<and> saved m' = saved m"
proof -
  obtain frame m1 where a: "allocate_frames ans 1 m = (Some frame, m1)" "took m frame m1"
    using allocate_frames_finds [OF assms(1,3)] by blast
  note T = tookD [OF a(2)]
  have raw: "length raw = PAGE_SIZE"
    using assms(2,8) by (auto simp: store_ok_def content_ok_def dest!: map_of_SomeD)
  then have "frame_bytes frame (write_frame frame raw m1) = raw"
    by (rule frame_bytes_write)
  then show ?thesis
    using a(1) assms(4-8) raw get_page_content_map_of [OF assms(6)]
    by (auto simp: Let_def install_user_page_arch_def T frame_bytes_def simp del: One_nat_def)
qed

end
