(* ===== verification/Page_Reclaim.thy ===== *)
theory Page_Reclaim
  imports Process_Pages Page_Faults
begin

text \<open>
  Reclaiming a page and faulting it in again: what the clock takes away is saved, and the next fault brings
  it back.
\<close>

lemma save_held:
  assumes "store_ok s" "aligned va" "length content = PAGE_SIZE"
    "bt_get (swap_map s) (owner, va) = None" "bt_get (compressed_pages s) (owner, va) = None"
  shows "\<exists>s'. save_page owner va content s = Some s' \<and> store_ok s' \<and> held s' (owner, va) = Some content \<and>
    (\<forall>k p. k \<noteq> (owner, va) \<longrightarrow> held s k = Some p \<longrightarrow> held s' k = Some p)"
proof -
  have "represents s ((held s)((owner, va) := None))"
    using representsD [OF represents_held [OF assms(1)]] assms(1,4,5) by (intro representsI) (auto split: if_splits)
  then obtain s' where "save_page owner va content s = Some s'" "represents s' ((held s)((owner, va) := None, (owner, va) \<mapsto> content))"
    using save_refines [OF _ _ assms(2,3), of s "(held s)((owner, va) := None)" owner] by auto
  then show ?thesis
    using representsD [of s' "(held s)((owner, va) := None, (owner, va) \<mapsto> content)"] by (intro exI [of _ s']) auto
qed

text \<open>A page of the running address space that the clock takes: mapped for reading and writing in both tables,
  not accessed since the last sweep, and in a frame of the pool that nobody shares.\<close>

definition idle_page :: "nat \<Rightarrow> page_mapping \<Rightarrow> memory_manager \<Rightarrow> bool" where
  "idle_page i p m \<longleftrightarrow> i < length (mappings (pages m)) \<and> mappings (pages m) ! i = p \<and> map_owner p = running m \<and>
     map_length p = PAGE_SIZE \<and> map_kind p = Anonymous \<and> \<not> accessed p \<and> advice p \<noteq> Random \<and>
     physical_address p \<in> pool_addrs m - free_addrs m \<and> get_frame_refcount (physical_address p) m \<le> 1 \<and>
     hardware m (running m) (virtual_address p) \<noteq> None \<and>
     bt_get (swap_map (saved m)) (running m, virtual_address p) = None \<and>
     bt_get (compressed_pages (saved m)) (running m, virtual_address p) = None"

lemma reclaim_saves_page:
  assumes ok: "frames_ok m" "table_ok (pages m)" "store_ok (saved m)" and p: "idle_page i p m"
  defines "page \<equiv> virtual_address p"
  shows "\<exists>m'. reclaim_one i m = Some (True, m') \<and> frames_ok m' \<and> table_ok (pages m') \<and> store_ok (saved m') \<and> running m' = running m \<and>
    demand_page (running m) page (map_permissions p) m' \<and> hardware m' (running m) page = None \<and>
    free_addrs m' = insert (physical_address p) (free_addrs m) \<and> physical m' = physical m \<and>
    held (saved m') (running m, page) = Some (frame_bytes (physical_address p) m) \<and>
    (\<forall>k bytes. k \<noteq> (running m, page) \<longrightarrow> held (saved m) k = Some bytes \<longrightarrow> held (saved m') k = Some bytes)"
proof -
  let ?o = "running m" and ?f = "physical_address p"
  have P: "p \<in> set (mappings (pages m))" "map_owner p = ?o" "map_length p = PAGE_SIZE" "mapping_ok p"
    "?f \<in> pool_addrs m - free_addrs m" "hardware m ?o page \<noteq> None" "aligned page"
    using p ok(2) by (auto simp: idle_page_def page_def table_ok_def list_all_iff mapping_ok_def aligned_def PAGE_SIZE_def)
  obtain s where s: "save_page ?o page (frame_bytes ?f m) (saved m) = Some s" "store_ok s" "held s (?o, page) = Some (frame_bytes ?f m)"
    "\<forall>k q. k \<noteq> (?o, page) \<longrightarrow> held (saved m) k = Some q \<longrightarrow> held s k = Some q"
    using save_held [OF ok(3) P(7), of "frame_bytes ?f m" ?o] p by (auto simp: idle_page_def page_def frame_bytes_def)
  let ?m1 = "m\<lparr>saved := s, hardware := (hardware m)(?o := (hardware m ?o)(page := None))\<rparr>"
  obtain m2 where m2: "deallocate_frames ?f 1 ?m1 = (True, m2)" "frames_ok m2" "free_addrs m2 = insert ?f (free_addrs m)"
    using deallocate_frames_ok [of ?m1 ?f] ok(1) P(5) by (auto simp: frames_ok_def free_addrs_def pool_addrs_def)
  have f: "pages m2 = pages m" "saved m2 = s" "hardware m2 = hardware ?m1" "running m2 = ?o" "physical m2 = physical m"
    using arg_cong [OF m2(1), of snd] deallocate_frames_fields [of ?f 1 ?m1] by auto
  let ?t = "snd (replace_owned (\<lambda>q. q\<lparr>map_kind := DemandPaged\<rparr>) ?o page (pages m))"
  let ?m3 = "m2\<lparr>pages := ?t\<rparr>"
  have "starts_at ?o page p"
    using P by (simp add: starts_at_def page_def page_align_down_def aligned_def)
  then have "p\<lparr>map_kind := DemandPaged\<rparr> \<in> set (mappings ?t)"
    using P(1) unfolding replace_owned_map [OF ok(2)] by force
  then have "demand_page ?o page (map_permissions p) ?m3"
    using P unfolding demand_page_def by (intro bexI [of _ "p\<lparr>map_kind := DemandPaged\<rparr>"]) (simp_all add: page_def)
  moreover have "table_ok ?t"
    by (rule replace_owned_ok [OF ok(2)]) simp
  moreover have "reclaim_one i m = Some (True, ?m3)"
    using p s(1) m2(1) f(1) P(6)
    by (auto simp: reclaim_one_def idle_page_def page_def Let_def unmap_user_page_arch_def with_pages_def replace_mapping_kind_owned_def
        split: option.splits prod.splits simp del: One_nat_def)
  moreover have "frames_ok ?m3" "free_addrs ?m3 = free_addrs m2"
    using m2(2) by (simp_all add: frames_ok_def free_addrs_def)
  ultimately show ?thesis
    using m2 f s by (intro exI [of _ ?m3]) simp
qed

text \<open>Reclaimed and faulted in again, a page is back with its bytes and its permissions.\<close>

lemma reclaimed_page_comes_back:
  assumes "frames_ok m" "table_ok (pages m)" "store_ok (saved m)" "idle_page i p m" "align_down_page va = virtual_address p"
    "table_room ans (virtual_address p)"
  shows "\<exists>m1 m2 frame. reclaim_one i m = Some (True, m1) \<and> resolve_page_fault ans va is_write m1 = (True, m2) \<and>
    hardware m2 (running m) (virtual_address p) = Some (frame, map_permissions p) \<and>
    frame_bytes frame m2 = frame_bytes (physical_address p) m"
proof -
  let ?page = "virtual_address p" and ?f = "physical_address p"
  obtain m1 where m1: "reclaim_one i m = Some (True, m1)" "frames_ok m1" "table_ok (pages m1)" "store_ok (saved m1)" "running m1 = running m"
    "demand_page (running m) ?page (map_permissions p) m1" "free_addrs m1 = insert ?f (free_addrs m)"
    "held (saved m1) (running m, ?page) = Some (frame_bytes ?f m)"
    using reclaim_saves_page [OF assms(1-4)] by blast
  have free: "free_addrs m1 \<noteq> {}"
    by (simp add: m1(7))
  obtain m2 frame where m2: "resolve_page_fault ans va is_write m1 = (True, m2)"
    "hardware m2 (running m) ?page = Some (frame, map_permissions p)" "frame_bytes frame m2 = frame_bytes ?f m"
    using fault_at [OF m1(2-4), of ?page "map_permissions p" va ans is_write] m1(5,6,8) free assms(5,6) by auto
  then show ?thesis
    using m1(1) by blast
qed

end
