(* ===== verification/Page_Sharing.thy ===== *)
theory Page_Sharing
  imports Page_Faults
begin

text \<open>
  Copy on write: a write to a shared page gives the writer a private copy and takes one holder off the shared
  frame.
\<close>

definition shared_page :: "page_mapping \<Rightarrow> memory_manager \<Rightarrow> bool" where
  "shared_page p m \<longleftrightarrow> p \<in> set (mappings (pages m)) \<and> map_owner p = running m \<and> map_length p = PAGE_SIZE \<and> map_kind p = Cow \<and>
     (\<forall>f \<in> free_addrs m. page_span f \<inter> page_span (physical_address p) = {})"

lemma dec_frame_refcount_simps [simp]:
  "pages (snd (dec_frame_refcount f m)) = pages m" "hardware (snd (dec_frame_refcount f m)) = hardware m"
  "running (snd (dec_frame_refcount f m)) = running m" "physical (snd (dec_frame_refcount f m)) = physical m"
  "saved (snd (dec_frame_refcount f m)) = saved m" "frames_ok (snd (dec_frame_refcount f m)) = frames_ok m"
  "free_addrs (snd (dec_frame_refcount f m)) = free_addrs m"
  by (auto simp: dec_frame_refcount_def frames_ok_def free_addrs_def split: option.split)

lemma get_dec_frame_refcount:
  "bt_sorted (frame_refcounts m) \<Longrightarrow> get_frame_refcount f (snd (dec_frame_refcount f m)) = get_frame_refcount f m - 1"
  by (auto simp: dec_frame_refcount_def get_frame_refcount_def bt_get_insert bt_get_remove split: option.split)

lemma normalize_page:
  assumes "page mod PAGE_SIZE = 0" "frame mod PAGE_SIZE = 0" "page + PAGE_SIZE < USIZE_LIMIT" "frame + PAGE_SIZE < USIZE_LIMIT"
  shows "normalize_virtual_range page PAGE_SIZE = Inr (page, PAGE_SIZE)" "normalize_mapping page frame PAGE_SIZE = Inr (page, frame, PAGE_SIZE)"
  using assms by (simp_all add: normalize_mapping_def normalize_virtual_range_def page_align_up_def page_align_down_def range_end_def
      checked_add_def bind_result_def PAGE_SIZE_def)

text \<open>The software half of the split: the page leaves the shared region and comes back as a private one.\<close>

lemma replace_shared:
  assumes ok: "table_ok t" "pt_initialized t" and p: "p \<in> set (mappings t)" "map_owner p = owner" "map_length p = PAGE_SIZE"
    and frame: "frame mod PAGE_SIZE = 0" "frame + PAGE_SIZE < USIZE_LIMIT"
  defines "t1 \<equiv> snd (unmap_owned True owner (virtual_address p) PAGE_SIZE t)"
  shows "\<exists>t2. map_to_owned True owner (virtual_address p) frame PAGE_SIZE perms kind t1 = (Inr (), t2) \<and> table_ok t2 \<and>
    own_view t2 = (\<lambda>o' a. if spans p a \<and> o' = owner then Some (frame + (a - virtual_address p), perms, kind)
      else if spans p a \<and> matches o' owner then None else own_view t o' a)"
proof -
  let ?page = "virtual_address p"
  have po: "mapping_ok p" "?page mod PAGE_SIZE = 0" "?page + PAGE_SIZE < USIZE_LIMIT" "map_stop p = ?page + PAGE_SIZE"
    using ok(1) p by (auto simp: table_ok_def list_all_iff mapping_ok_def map_stop_def)
  note N = normalize_page [OF po(2) frame(1) po(3) frame(2)]
  have "list_ex (hit owner ?page (?page + PAGE_SIZE)) (mappings t)"
    using p po by (auto simp: list_ex_iff hit_def matches_def PAGE_SIZE_def intro!: bexI [of _ p])
  then have "unmap_owned True owner ?page PAGE_SIZE t = (Inr (), without owner ?page (?page + PAGE_SIZE) t)"
    unfolding unmap_owned_eq [OF ok(1)] using ok(2) N(1) by simp
  then have t1: "t1 = without owner ?page (?page + PAGE_SIZE) t"
    by (simp add: t1_def)
  have v1: "table_ok t1" "own_view t1 = (\<lambda>o' a. if matches o' owner \<and> spans p a then None else own_view t o' a)" "pt_initialized t1"
    using without_view [OF ok(1) po(2), of "?page + PAGE_SIZE" owner] po ok(2) by (auto simp: t1 spans_def PAGE_SIZE_def)
  have "\<not> overlaps_range q ?page PAGE_SIZE" if "q \<in> set (mappings t1)" "matches (map_owner q) owner" for q
  proof
    assume "overlaps_range q ?page PAGE_SIZE"
    moreover have q: "mapping_ok q"
      using v1(1) that(1) by (auto simp: table_ok_def list_all_iff)
    ultimately obtain a where a: "?page \<le> a" "a < ?page + PAGE_SIZE" "spans q a"
      using overlaps_ok [OF q po(3)] meets_iff_covers [OF q, of PAGE_SIZE ?page] by (auto simp: PAGE_SIZE_def)
    then have "own_view t1 (map_owner q) a \<noteq> None"
      using own_view_None_iff that(1) by blast
    then show False
      using a that(2) po(4) by (simp add: v1(2) spans_def)
  qed
  then have "\<not> list_ex (\<lambda>q. matches (map_owner q) owner \<and> overlaps_range q ?page PAGE_SIZE) (mappings t1)"
    by (auto simp: list_ex_iff)
  then obtain t2 where t2: "map_to_owned True owner ?page frame PAGE_SIZE perms kind t1 = (Inr (), t2)"
    using v1(3) N(2) by (simp add: map_to_owned_def)
  then obtain start pstart n where "normalize_mapping ?page frame PAGE_SIZE = Inr (start, pstart, n)" "table_ok t2"
    "own_view t2 = (\<lambda>o' a. if o' = owner \<and> start \<le> a \<and> a < start + n then Some (pstart + (a - start), perms, kind) else own_view t1 o' a)"
    by (rule map_to_owned_ok [OF v1(1)])
  then show ?thesis
    using t2 N(2) po(4) by (auto simp: v1(2) spans_def fun_eq_iff)
qed

lemma mark_accessed_view:
  "table_ok t \<Longrightarrow> table_ok (snd (mark_accessed_owned owner va t)) \<and> own_view (snd (mark_accessed_owned owner va t)) = own_view t"
proof -
  assume ok: "table_ok t"
  have m: "snd (mark_accessed_owned owner va t) = snd (replace_owned (\<lambda>q. q\<lparr>accessed := True\<rparr>) owner va t)"
    by (simp add: mark_accessed_owned_def split: prod.split)
  have "own_view (snd (replace_owned (\<lambda>q. q\<lparr>accessed := True\<rparr>) owner va t)) o' a = own_view t o' a" for o' a
  proof (cases "find (starts_at owner va) (mappings t)")
    case (Some q)
    then have q: "q \<in> set (mappings t)" "map_owner q = owner"
      by (auto simp: find_Some_iff starts_at_def)
    then have "own_view t owner a = Some (entry q a)" if "spans q a"
      using own_view_Some_iff [OF ok] that by blast
    then show ?thesis
      using Some by (auto simp: replace_owned_view [OF ok] entry_def)
  qed (simp add: replace_owned_view [OF ok])
  then show ?thesis
    using replace_owned_ok [OF ok] by (auto simp: m fun_eq_iff)
qed

lemma pool_addrs_below: "frames_ok m \<Longrightarrow> a \<in> pool_addrs m \<Longrightarrow> a + PAGE_SIZE < USIZE_LIMIT"
proof -
  assume ok: "frames_ok m" and "a \<in> pool_addrs m"
  then obtain i s where i: "i < num_nodes m" "s < total_frames (frame_allocators m ! i)" "a = base (frame_allocators m ! i) + s * FRAME_SIZE"
    by (auto simp: pool_addrs_def addresses_def)
  moreover have "base (frame_allocators m ! i) + total_frames (frame_allocators m ! i) * FRAME_SIZE < USIZE_LIMIT"
    using frames_okD(1) [OF ok i(1)] by (simp add: frames_wf_def)
  ultimately show ?thesis
    by (auto simp: FRAME_SIZE_def PAGE_SIZE_def)
qed

text \<open>A write fault on a page shared by fork.  The writer's page gets a free frame with a copy of the shared
  bytes and is writable; the shared frame keeps its bytes and loses one holder; other address spaces keep
  their view.\<close>

lemma cow_fault_copies:
  assumes ok: "frames_ok m" "table_ok (pages m)" "pt_initialized (pages m)" "bt_sorted (frame_refcounts m)"
    and p: "shared_page p m" and va: "align_down_page va = virtual_address p" and free: "free_addrs m \<noteq> {}"
    and env: "table_room ans (virtual_address p)" "vec_grows ans (virtual_address p)"
  shows "\<exists>m' frame. resolve_page_fault ans va True m = (True, m') \<and> frame \<in> free_addrs m \<and>
     hardware m' (running m) (virtual_address p) = Some (frame, READ_WRITE) \<and>
     lookup_mapping_owned (running m) (virtual_address p) (pages m') = Some (frame, READ_WRITE, Anonymous) \<and>
     frame_bytes frame m' = frame_bytes (physical_address p) m \<and>
     (\<forall>a. a \<notin> page_span frame \<longrightarrow> cells (physical m') a = cells (physical m) a) \<and>
     get_frame_refcount (physical_address p) m' = get_frame_refcount (physical_address p) m - 1 \<and>
     (\<forall>o' a. \<not> matches o' (running m) \<or> \<not> spans p a \<longrightarrow> own_view (pages m') o' a = own_view (pages m) o' a) \<and>
     (\<forall>o' a. o' \<noteq> running m \<or> a \<noteq> virtual_address p \<longrightarrow> hardware m' o' a = hardware m o' a)"
proof -
  let ?o = "running m" and ?page = "virtual_address p" and ?phys = "physical_address p"
  have P: "p \<in> set (mappings (pages m))" "map_owner p = ?o" "map_length p = PAGE_SIZE" "map_kind p = Cow"
    using p by (auto simp: shared_page_def)
  have c: "spans p ?page"
    using P(3) by (simp add: spans_def map_stop_def PAGE_SIZE_def)
  then have "own_view (pages m) ?o ?page = Some (?phys, map_permissions p, Cow)"
    using own_view_Some_iff [OF ok(2)] P by (fastforce simp: entry_def)
  then have l: "lookup_mapping_owned ?o ?page (pages m) = Some (?phys, map_permissions p, Cow)"
    by (simp add: lookup_view [OF ok(2)])
  obtain frame m1 where a: "allocate_or_kill ans m = (Some frame, m1)" "took m frame m1"
    using allocate_or_kill_finds [OF ok(1) free] by blast
  note T = tookD [OF a(2)]
  have fr: "frame mod PAGE_SIZE = 0" "frame + PAGE_SIZE < USIZE_LIMIT"
    using pool_addrs_page [OF ok(1)] pool_addrs_below [OF ok(1)] free_addrs_pool [OF ok(1)] T(8) by blast+
  let ?m2 = "m1\<lparr>physical := copy_frame ?phys frame (physical m1)\<rparr>"
  let ?m3 = "snd (dec_frame_refcount ?phys ?m2)"
  let ?m4 = "?m3\<lparr>hardware := (hardware m)(?o := (hardware m ?o)(?page := Some (frame, READ_WRITE)))\<rparr>"
  obtain t2 where t2: "map_to_owned True ?o ?page frame PAGE_SIZE READ_WRITE Anonymous (snd (unmap_owned True ?o ?page PAGE_SIZE (pages m))) = (Inr (), t2)"
      "table_ok t2" "own_view t2 = (\<lambda>o' a. if spans p a \<and> o' = ?o then Some (frame + (a - ?page), READ_WRITE, Anonymous)
        else if spans p a \<and> matches o' ?o then None else own_view (pages m) o' a)"
    using replace_shared [OF ok(2,3) P(1-3) fr] by blast
  let ?m' = "?m4\<lparr>pages := snd (mark_accessed_owned ?o ?page t2), page_faults_cow := wrapping_add (page_faults_cow ?m4) 1\<rparr>"
  have "cow_fault ans ?o ?page ?phys m = (True, ?m')"
    using a(1) env t2(1) by (simp add: cow_fault_def install_user_page_arch_def T Let_def)
  then have res: "resolve_page_fault ans va True m = (True, ?m')"
    using l va by (simp add: resolve_page_fault_def resolve_page_fault_owned_def Let_def)
  have away: "?phys + k \<notin> page_span frame" if "k < PAGE_SIZE" for k
    using p T(8) that by (auto simp: shared_page_def page_span_def disjoint_iff)
  have "frame_bytes frame ?m' = frame_bytes ?phys m"
    using away by (auto simp: frame_bytes_def copy_frame_def T(10) FRAME_SIZE_def PAGE_SIZE_def)
  moreover have "cells (physical ?m') a = cells (physical m) a" if "a \<notin> page_span frame" for a
    using that by (auto simp: copy_frame_def T(10) FRAME_SIZE_def PAGE_SIZE_def page_span_def)
  moreover have "get_frame_refcount ?phys ?m' = get_frame_refcount ?phys m - 1"
    using get_dec_frame_refcount [of ?m2 ?phys] ok(4) by (simp add: get_frame_refcount_def T(5))
  moreover have v: "table_ok (pages ?m')" "own_view (pages ?m') = own_view t2"
    using mark_accessed_view [OF t2(2), of ?o ?page] by simp_all
  moreover have "lookup_mapping_owned ?o ?page (pages ?m') = Some (frame, READ_WRITE, Anonymous)"
    unfolding lookup_view [OF v(1)] v(2) t2(3) using c by simp
  ultimately show ?thesis
    using res T(8) by (intro exI [of _ ?m'] exI [of _ frame]) (auto simp: t2(3) matches_def)
qed

end
