(* ===== verification/Spec2Isabelle.thy ===== *)
theory Spec2Isabelle
  imports Frame_Pool Pipe_Channel Scheduler_Properties Slot_Pool Access_Control Heap_Safety
    Fragment_Reassembly Nat_Translation Dns_Resolution Page_Reclaim Page_Sharing
begin

text \<open>
  A verification library for a kernel written in Rust (\<open>src/\<close>).  It models the parts of the kernel
  whose behaviour is decided by the source itself, as executable definitions that follow the code
  function by function, and proves what those parts promise to the rest of the system.

  \<^bold>\<open>The parts and how they meet.\<close>  Memory has three layers: the frame allocator hands out physical
  frames; the kernel heap hands out bytes of one static region to all kernel code; the slot pool
  numbers the regions of the address space that several holders share.  The memory manager keeps one
  software table of all mappings beside the hardware tables; the contents of reclaimed pages
  go to a swap area on a block device, to a cache of compressed pages or to a raw store, and the fault
  handler brings them back.  Threads run under the scheduler of their processor, block on wait queues, and
  talk through pipes, whose ends block on condition variables built on those queues.  Filesystem
  requests name a path, which is normalised, resolved to a mount, and authorised against the token of
  the caller, the permission bits of the node and mandatory access control.  Packets arrive as bytes, are parsed, and
  fragments are collected until the datagram they came from is whole; address translation rewrites
  packets that cross it, and the resolver builds and reads DNS messages.

  \<^bold>\<open>Conventions.\<close>

  \<^item> A \<open>usize\<close> is a natural number with the bound \<open>2 ^ 64\<close> written out wherever the code can reach it
    (checked, saturating and wrapping operations of \<^verbatim>\<open>Kernel_Prelude\<close>); bit masks and bytes are words of
    their width.
  \<^item> A \<open>Result\<close> is \<open>error + 'a\<close> with the kernel's own error enumeration.
  \<^item> A panic, an access outside an object and a loop that does not end are \<open>None\<close>.
  \<^item> A \<open>BTreeMap\<close> is a sorted association list (\<^verbatim>\<open>Btree_Map\<close>, locale \<open>ordered_map\<close>).
  \<^item> A \<open>str\<close> is a list of Unicode code points.
  \<^item> What is atomic in the code (a call under a lock, one atomic instruction) is one step of the model;
    what is not is split, with a program counter per thread.

  \<^bold>\<open>Frame allocator\<close> (\<open>src/memory/frame.rs\<close>; theories \<^verbatim>\<open>Frame_Allocator\<close>, \<^verbatim>\<open>Frame_Pool\<close>).  The record
  \<open>frame_allocator\<close> is \<open>FrameAllocator\<close>; physical memory is a byte map.  The free ranges stay ordered,
  disjoint and coalesced; \<open>allocate\<close> and \<open>deallocate\<close> refine taking frames from and giving frames to a
  set; compaction keeps the contents of live frames; every run of a client of the interface (locale
  \<open>frame_pool\<close>) keeps all frames accounted for.

  \<^bold>\<open>Kernel heap\<close> (\<open>src/memory/heap/tlsf.rs\<close>, \<open>allocator.rs\<close>; theories \<^verbatim>\<open>Heap_Tlsf\<close> and
  \<^verbatim>\<open>Heap_Allocator\<close> for the code, \<^verbatim>\<open>Heap_Lists\<close>, \<^verbatim>\<open>Heap_Blocks\<close>, \<^verbatim>\<open>Heap_Allocation\<close> and \<^verbatim>\<open>Heap_Safety\<close>
  for the proofs).  The heap's memory is a map from word addresses to contents; block headers, free
  lists and canaries live in it as in the code.  The invariant \<open>heap_ok\<close> relates it to a list of blocks;
  from it follow that the search ends and never leaves the heap, that allocations do not overlap and
  keep their contents, that freeing works, and when an allocation may fail.  The locale
  \<open>block_allocator\<close> is the contract of an allocator with its clients.  The loops over blocks and lists
  are \<open>partial_function (option)\<close>; that they return is part of the theorems.

  \<^bold>\<open>Slot pool\<close> (\<open>src/memory/slot_pool.rs\<close>; \<^verbatim>\<open>Slot_Pool\<close>): its atomic operations interleaved by any
  number of processors refine a specification on holders.  \<^bold>\<open>Page compression\<close>
  (\<open>src/memory/compressed.rs\<close>; \<^verbatim>\<open>Page_Compression\<close>): the compressor with its hash table and the
  decompressor; every page round-trips.

  \<^bold>\<open>Block devices and saved pages\<close> (\<open>src/kernel/block.rs\<close>, \<open>src/memory/swap.rs\<close>,
  \<open>src/memory/manager/swap.rs\<close>, \<open>mapping.rs\<close>, \<open>pfault.rs\<close>; \<^verbatim>\<open>Block_Device\<close>, \<^verbatim>\<open>Page_Store\<close>,
  \<^verbatim>\<open>Page_Recovery\<close>).  A device is a memory device or a window on a device; the bytes at the bottom are
  passed through, because windows share them.  A chain of windows acts as one window, and the locale
  \<open>block_store\<close>, interpreted for every device, is what the swap area relies on; a window may reach past
  its parent, and then a request is served where every device of the chain covers it.  The store on its own:
  saving pages that have no copy, loading and dropping them refine a table of saved pages, slots are neither
  lost nor shared, and the cache's counters are exact.  The eviction loop is a terminating recursion on the
  cache.

  \<^bold>\<open>Page table and memory manager\<close> (\<open>src/memory/paging.rs\<close>, \<open>src/memory/manager/\<close>, the page registration of
  \<open>src/kernel/process/process/fork.rs\<close>, \<open>src/syscall/memory/map.rs\<close>; \<^verbatim>\<open>Page_Table\<close>, \<^verbatim>\<open>Memory_Manager\<close> and
  \<^verbatim>\<open>Process_Pages\<close> for the code, \<^verbatim>\<open>Page_Views\<close>, \<^verbatim>\<open>Manager_Frames\<close>, \<^verbatim>\<open>Page_Faults\<close>, \<^verbatim>\<open>Page_Reclaim\<close> and
  \<^verbatim>\<open>Page_Sharing\<close> for the proofs).  The record \<open>memory_manager\<close> is \<open>MemoryManager\<close> with physical memory and the
  live hardware tables, one partial function per address space; what the machine answers is in \<open>answers\<close>.
  The software table refines one partial function per address space.  A fault on a demand-paged page maps
  a fresh frame with exactly the saved bytes, and mapping neighbours ahead (at most eight in each direction)
  writes only free frames and touches only pages that wait for a fault; reclaiming an idle page and
  faulting it in again gives its bytes back; a write to a page shared by fork gets a private copy.  The
  reclaim clock ends by the positions left to scan, releasing a range by the addresses left.

  \<^bold>\<open>Pipes\<close> (\<open>src/kernel/ipc/pipe.rs\<close>, \<open>src/kernel/process/wait/\<close>; \<^verbatim>\<open>Pipe_Ring\<close>, \<^verbatim>\<open>Wait_Queue\<close>,
  \<^verbatim>\<open>Pipe_Channel\<close>).  The ring is a bounded first-in first-out buffer (locale \<open>byte_fifo\<close>); readers and
  writers interleave step by step, and the bytes delivered and unread are always the bytes accepted, in
  order.  On one processor no end sleeps while the ring could serve it; on several, a read and a write have a
  schedule that leaves the reader asleep until someone writes again.

  \<^bold>\<open>Scheduler\<close> (\<open>src/kernel/process/scheduler/\<close>, \<open>thread/\<close>, \<open>process/\<close>; \<^verbatim>\<open>Thread_State\<close>, \<^verbatim>\<open>Ready_Queue\<close>,
  \<^verbatim>\<open>Scheduler\<close>, \<^verbatim>\<open>Scheduler_Placement\<close>, \<^verbatim>\<open>Scheduler_Properties\<close>; deferred interrupts of \<open>src/kernel/softirq.rs\<close> in
  \<^verbatim>\<open>Softirq\<close>).  The queues of one processor and the operations on them; the invariant \<open>placed\<close> says where each
  thread is, and every operation of \<open>sched_reachable\<close> keeps it, so that none of them loses a thread.  Stopping and
  continuing a process break it, which is shown; killing a process from outside is not modelled.  The
  dispatcher's loop is modelled round by round, with deferred interrupts, work stealing and the return from the
  thread it switched to; on one processor it takes the highest priority and leaves the dispatcher within
  one round more than there are live threads in the queues.

  \<^bold>\<open>Paths and authorisation\<close> (\<open>src/fs/path.rs\<close>, \<open>src/fs/filesystem/\<close>, \<open>src/kernel/security/\<close>;
  \<^verbatim>\<open>Path_Normalization\<close>, \<^verbatim>\<open>Security_Token\<close>, \<^verbatim>\<open>Access_Control\<close>).  Normalisation is the walk a path
  describes; mount resolution finds the longest mount; a node may be opened exactly when permission bits,
  mount and mandatory access control each give every right asked for, stated right by right, and an unprivileged
  token is confined on volumes without stored descriptors.
  A mounted filesystem is a trait object: its answer to \<open>stat\<close> is a field of the mount.

  \<^bold>\<open>IP packets and fragments\<close> (\<open>src/network/internet/ipv4.rs\<close>, \<open>ipv6.rs\<close>, \<open>fragments.rs\<close>, the IPv6
  branch of \<open>src/network/stack/ppp.rs\<close>; \<^verbatim>\<open>Ip_Packet\<close>, \<^verbatim>\<open>Ip_Packet_Proofs\<close>, \<^verbatim>\<open>Fragment_Cache\<close>,
  \<^verbatim>\<open>Fragment_Reassembly\<close>).  A packet is a list of bytes and a cache a map from keys to reassemblies, with
  the bitmap of received blocks as in the code.  Building and parsing are inverse; the checksum detects
  any change of one header byte; the fragments of a datagram, in any order and among other traffic,
  yield that datagram (locale \<open>reassembler\<close>, interpreted for IPv4, for IPv6 and for IPv6 packets as bytes);
  what IPv4 reassembly delivers was received.  The checksum loop and the splitting loop are proved to
  end.  The link layer and the protocols that take the payload are outside the model.

  \<^bold>\<open>Address translation\<close> (\<open>src/network/internet/nat.rs\<close>; \<^verbatim>\<open>Nat_Table\<close> for the code, \<^verbatim>\<open>Nat_Sessions\<close>,
  \<^verbatim>\<open>Nat_Rewrite\<close> and \<^verbatim>\<open>Nat_Translation\<close> for the proofs).  Ticks are 64-bit words.  Every session has a port
  of its own; the incremental update of the checksums keeps what the receiver accepts, except for UDP
  checksums that are zero or become zero; a reply
  in time reaches the host that sent the packet, whatever else was translated and swept in between.

  \<^bold>\<open>DNS\<close> (\<open>src/network/dns/\<close>; \<^verbatim>\<open>Dns_Message\<close>, \<^verbatim>\<open>Dns_Resolution\<close>).  The query builders, the parsers of
  responses with compressed names, and the cache.  No input makes a parser panic; a decoded name is at
  most twenty-two times as long as its message, because at most ten pointers are followed and a byte becomes
  at most two; ASCII names round-trip;
  the first address record of a well-formed response is the one returned; eviction does not change what
  the cache answers.  The loop that follows pointers ends by the number of jumps left, then by the bytes
  left.

  \<^bold>\<open>What the code gets wrong\<close> is proved as well: overlapping
  frees are accepted by the frame allocator, freeing leaves adjacent free blocks in the heap, a wake-up
  can be lost on several processors, a pipe resized to exactly its contents panics, a stopped process
  cannot be continued, a path ending in white space is not stable under normalisation, IPv6
  reassembly given two final fragments delivers bytes that were never received, replies to translated
  ICMP queries are never translated back, translation spoils UDP datagrams sent without a checksum, a
  hostname with a trailing dot makes a malformed query, names that are not ASCII are decoded to other names, an
  unmapped page that had been saved uncompressed comes back with its old contents, the first page swapped out
  erases the signature of the swap area, a neighbour mapped ahead gets its raw copy even when newer bytes are
  in swap or compressed, and a fault that cannot be installed loses the saved page.

  \<^bold>\<open>Not modelled.\<close>  Architecture and device drivers (assembly and registers, whose meaning is not in
  the source; the hardware page tables appear as partial functions), locking pages, device buffers, the
  formats of the mounted filesystems, transport protocols and sockets, system-call decoding, cryptography, the user programs, logging and
  reports.  Within modelled parts: locks as such (a call under a lock is atomic), profiling counters
  other than the frame counters, printed diagnostics, placement of threads on other processors, signals
  and handles.
\<close>

end
